(* ===== verification/Prelude.thy ===== *)
theory Prelude
  imports Main "HOL-Library.Word"
begin

text \<open>
  Shared vocabulary of the development: machine words, the result type of kernel code that may
  halt, byte-addressed memory with the block operations of \<^verbatim>\<open>lib/string.asm\<close>, the flag bits of a
  process, and generic lemmas on lists and words used by the component theories.
\<close>

unbundle bit_operations_syntax

section \<open>Machine words and results\<close>

type_synonym u8 = "8 word"
type_synonym u16 = "16 word"
type_synonym u32 = "32 word"
type_synonym u64 = "64 word"

text \<open>
  Kernel code ends abnormally in four ways: an \<^verbatim>\<open>assert\<close> fails (\<^verbatim>\<open>assertion_failure\<close> halts a
  task or spins), \<^verbatim>\<open>panic\<close> halts the machine, a loop spins forever, or a table is indexed out
  of its bounds, which C leaves undefined.
\<close>

datatype fault = AssertionFailure string | Panic string | Spins | BadAccess string

type_synonym 'a res = "fault + 'a"

named_theorems res_simps "equations and inversions of the result combinators"
named_theorems const_simps "values of the configuration constants"

definition res_bind :: "'a res \<Rightarrow> ('a \<Rightarrow> 'b res) \<Rightarrow> 'b res" where
  "res_bind r f = (case r of Inl e \<Rightarrow> Inl e | Inr x \<Rightarrow> f x)"

definition kassert :: "bool \<Rightarrow> string \<Rightarrow> 'a res \<Rightarrow> 'a res" where
  "kassert b what r = (if b then r else Inl (AssertionFailure what))"

definition of_option :: "fault \<Rightarrow> 'a option \<Rightarrow> 'a res" where
  "of_option e x = (case x of None \<Rightarrow> Inl e | Some y \<Rightarrow> Inr y)"

lemma res_bind_Inr [simp, res_simps]: "res_bind (Inr x) f = f x"
  by (simp add: res_bind_def)

lemma res_bind_Inl [simp, res_simps]: "res_bind (Inl e) f = Inl e"
  by (simp add: res_bind_def)

lemma res_bind_eq_Inr [res_simps]:
  "res_bind r f = Inr y \<longleftrightarrow> (\<exists>x. r = Inr x \<and> f x = Inr y)"
  by (cases r) (auto simp: res_bind_def)

lemma res_bind_assoc: "res_bind (res_bind r f) g = res_bind r (\<lambda>x. res_bind (f x) g)"
  by (cases r) auto

lemma kassert_True [simp, res_simps]: "kassert True w r = r"
  by (simp add: kassert_def)

lemma kassert_False [simp, res_simps]: "kassert False w r = Inl (AssertionFailure w)"
  by (simp add: kassert_def)

lemma kassert_eq_Inr [res_simps]: "kassert b w r = Inr y \<longleftrightarrow> b \<and> r = Inr y"
  by (simp add: kassert_def)

lemma of_option_Some [simp, res_simps]: "of_option e (Some x) = Inr x"
  by (simp add: of_option_def)

lemma of_option_None [simp, res_simps]: "of_option e None = Inl e"
  by (simp add: of_option_def)

lemma of_option_eq_Inr [res_simps]: "of_option e x = Inr y \<longleftrightarrow> x = Some y"
  by (cases x) (auto simp: of_option_def)

section \<open>Byte-addressed memory\<close>

text \<open>
  Linear memory maps a 32-bit address to a byte. \<^verbatim>\<open>memcpy\<close> and \<^verbatim>\<open>memset\<close> are the ascending byte
  loops of \<^verbatim>\<open>lib/string.asm\<close>; \<^verbatim>\<open>phys_copy\<close> is \<^verbatim>\<open>memcpy\<close> (\<^verbatim>\<open>include/string.h\<close>). Addresses wrap
  around at \<open>2 ^ 32\<close>, as \<^verbatim>\<open>inc esi\<close> does.
\<close>

type_synonym memory = "u32 \<Rightarrow> u8"

primrec memcpy :: "memory \<Rightarrow> u32 \<Rightarrow> u32 \<Rightarrow> nat \<Rightarrow> memory" where
  "memcpy m dst src 0 = m"
| "memcpy m dst src (Suc n) = memcpy (m(dst := m src)) (dst + 1) (src + 1) n"

primrec memset :: "memory \<Rightarrow> u32 \<Rightarrow> u8 \<Rightarrow> nat \<Rightarrow> memory" where
  "memset m dst ch 0 = m"
| "memset m dst ch (Suc n) = memset (m(dst := ch)) (dst + 1) ch n"

definition phys_copy :: "memory \<Rightarrow> u32 \<Rightarrow> u32 \<Rightarrow> nat \<Rightarrow> memory" where
  "phys_copy = memcpy"

text \<open>The addresses of a block, and blocks that do not overlap.\<close>

definition block_addrs :: "u32 \<Rightarrow> nat \<Rightarrow> u32 set" where
  "block_addrs a n = (\<lambda>i. a + of_nat i) ` {..<n}"

definition disjoint_blocks :: "u32 \<Rightarrow> nat \<Rightarrow> u32 \<Rightarrow> nat \<Rightarrow> bool" where
  "disjoint_blocks a n b k \<longleftrightarrow> block_addrs a n \<inter> block_addrs b k = {}"

lemma block_addrs_0 [simp]: "block_addrs a 0 = {}"
  by (simp add: block_addrs_def)

lemma block_addrs_Suc: "block_addrs a (Suc n) = insert a (block_addrs (a + 1) n)"
proof -
  have "{..<Suc n} = insert 0 (Suc ` {..<n})"
    by (simp add: lessThan_Suc_eq_insert_0)
  then show ?thesis
    by (simp add: block_addrs_def image_image add.assoc)
qed

lemma block_addrs_nth: "i < n \<Longrightarrow> a + of_nat i \<in> block_addrs a n"
  by (auto simp: block_addrs_def)

lemma disjoint_blocks_sym: "disjoint_blocks a n b k \<Longrightarrow> disjoint_blocks b k a n"
  by (auto simp: disjoint_blocks_def)

lemma memcpy_outside: "x \<notin> block_addrs dst n \<Longrightarrow> memcpy m dst src n x = m x"
  by (induction n arbitrary: m dst src) (auto simp: block_addrs_Suc)

lemma memset_outside: "x \<notin> block_addrs dst n \<Longrightarrow> memset m dst ch n x = m x"
  by (induction n arbitrary: m dst) (auto simp: block_addrs_Suc)

lemma block_start_notin:
  assumes "n < 2 ^ 32"
  shows "(a :: u32) \<notin> block_addrs (a + 1) n"
proof
  assume "a \<in> block_addrs (a + 1) n"
  then obtain i where i: "i < n" and "a = a + 1 + of_nat i"
    by (auto simp: block_addrs_def)
  then have "(of_nat (Suc i) :: u32) = 0"
    by (simp add: add.assoc)
  then have "2 ^ 32 dvd Suc i"
    by (simp only: word_of_nat_eq_0_iff) simp
  moreover have "Suc i < 2 ^ 32"
    using i assms by simp
  ultimately show False
    by (auto dest: dvd_imp_le)
qed

lemma memcpy_inside:
  assumes "disjoint_blocks dst n src n" and "n \<le> 2 ^ 32" and "i < n"
  shows "memcpy m dst src n (dst + of_nat i) = m (src + of_nat i)"
  using assms
proof (induction n arbitrary: m dst src i)
  case 0
  then show ?case by simp
next
  case (Suc n)
  have dj: "disjoint_blocks (dst + 1) n (src + 1) n"
    and notin: "dst \<notin> block_addrs (src + 1) n" "src \<noteq> dst"
    using Suc.prems(1) by (auto simp: disjoint_blocks_def block_addrs_Suc)
  show ?case
  proof (cases i)
    case 0
    have "dst \<notin> block_addrs (dst + 1) n"
      using Suc.prems(2) by (intro block_start_notin) simp
    then show ?thesis using 0 by (simp add: memcpy_outside)
  next
    case (Suc j)
    then have j: "j < n" using Suc.prems(3) by simp
    have "memcpy (m(dst := m src)) (dst + 1) (src + 1) n (dst + 1 + of_nat j)
            = (m(dst := m src)) (src + 1 + of_nat j)"
      using dj j Suc.prems(2) by (intro Suc.IH) simp_all
    moreover have "src + 1 + of_nat j \<noteq> dst"
      using notin(1) block_addrs_nth [OF j, of "src + 1"] by auto
    ultimately show ?thesis using Suc by (simp add: add.assoc)
  qed
qed

lemma memset_inside:
  assumes "n \<le> 2 ^ 32" and "i < n"
  shows "memset m dst ch n (dst + of_nat i) = ch"
  using assms
proof (induction n arbitrary: m dst i)
  case 0
  then show ?case by simp
next
  case (Suc n)
  have "dst \<notin> block_addrs (dst + 1) n"
    using Suc.prems(1) by (intro block_start_notin) simp
  then show ?case
    using Suc.IH [of "i - 1" _ "dst + 1"] Suc.prems
    by (cases i) (auto simp: memset_outside add.assoc)
qed

definition read_bytes :: "memory \<Rightarrow> u32 \<Rightarrow> nat \<Rightarrow> u8 list" where
  "read_bytes m a n = map (\<lambda>i. m (a + of_nat i)) [0..<n]"

primrec write_bytes :: "memory \<Rightarrow> u32 \<Rightarrow> u8 list \<Rightarrow> memory" where
  "write_bytes m a [] = m"
| "write_bytes m a (b # bs) = write_bytes (m(a := b)) (a + 1) bs"

lemma length_read_bytes [simp]: "length (read_bytes m a n) = n"
  by (simp add: read_bytes_def)

lemma nth_read_bytes [simp]: "i < n \<Longrightarrow> read_bytes m a n ! i = m (a + of_nat i)"
  by (simp add: read_bytes_def)

lemma read_bytes_0 [simp]: "read_bytes m a 0 = []"
  by (simp add: read_bytes_def)

lemma read_bytes_snoc: "read_bytes m a (Suc n) = read_bytes m a n @ [m (a + of_nat n)]"
  by (simp add: read_bytes_def)

lemma read_bytes_add: "read_bytes m a (i + j) = read_bytes m a i @ read_bytes m (a + of_nat i) j"
proof (rule nth_equalityI)
  fix k assume "k < length (read_bytes m a (i + j))"
  then show "read_bytes m a (i + j) ! k = (read_bytes m a i @ read_bytes m (a + of_nat i) j) ! k"
    by (cases "k < i") (auto simp: nth_append add.assoc simp flip: of_nat_add)
qed simp

lemma block_addrs_mono: "n \<le> k \<Longrightarrow> block_addrs a n \<subseteq> block_addrs a k"
  by (auto simp: block_addrs_def)

lemma block_addrs_sub: "i + n \<le> k \<Longrightarrow> block_addrs (a + of_nat i) n \<subseteq> block_addrs a k"
proof
  fix x assume "i + n \<le> k" "x \<in> block_addrs (a + of_nat i) n"
  then obtain j where "j < n" "x = a + of_nat (i + j)" by (auto simp: block_addrs_def add.assoc)
  with \<open>i + n \<le> k\<close> show "x \<in> block_addrs a k" by (metis add_less_cancel_left block_addrs_nth less_le_trans)
qed

lemma block_end_notin:
  assumes "n < 2 ^ 32"
  shows "(a :: u32) + of_nat n \<notin> block_addrs a n"
proof
  assume "a + of_nat n \<in> block_addrs a n"
  then obtain i where i: "i < n" "(of_nat n :: u32) = of_nat i" by (auto simp: block_addrs_def)
  then have "unat (of_nat n :: u32) = unat (of_nat i :: u32)" by simp
  then show False using i(1) assms by (simp add: unat_of_nat)
qed

lemma of_nat_u32_inj: "i < 2 ^ 32 \<Longrightarrow> j < 2 ^ 32 \<Longrightarrow> (of_nat i :: u32) = of_nat j \<longleftrightarrow> i = j"
  by (simp add: word_of_nat_eq_iff take_bit_nat_eq_self)

lemma block_split_disjoint:
  assumes "i + j \<le> 2 ^ 32"
  shows "disjoint_blocks a i (a + of_nat i) j"
proof -
  have False if "x < i" "y < j" "(of_nat x :: u32) = of_nat (i + y)" for x y
  proof -
    have "x < 2 ^ 32" "i + y < 2 ^ 32" using that(1,2) assms by linarith+
    then have "x = i + y" using that(3) of_nat_u32_inj by blast
    then show False using that(1) by simp
  qed
  then show ?thesis by (auto simp: disjoint_blocks_def block_addrs_def add.assoc)
qed

lemma block_addrs_add: "block_addrs a (i + j) = block_addrs a i \<union> block_addrs (a + of_nat i) j"
proof -
  have "{..<i + j} = {..<i} \<union> (+) i ` {..<j}"
    using lessThan_atLeast0 by (auto simp: image_iff)
  then show ?thesis by (auto simp: block_addrs_def image_Un image_image add.assoc)
qed

lemma read_bytes_cong:
  "(\<And>x. x \<in> block_addrs a n \<Longrightarrow> m x = m' x) \<Longrightarrow> read_bytes m a n = read_bytes m' a n"
  by (rule nth_equalityI) (auto intro: block_addrs_nth)

lemma read_bytes_memcpy:
  assumes "disjoint_blocks dst n src n" and "n \<le> 2 ^ 32"
  shows "read_bytes (memcpy m dst src n) dst n = read_bytes m src n"
  by (rule nth_equalityI) (use assms in \<open>auto simp: memcpy_inside\<close>)

lemma read_bytes_memcpy_other:
  "disjoint_blocks dst n a k \<Longrightarrow> read_bytes (memcpy m dst src n) a k = read_bytes m a k"
  by (rule read_bytes_cong) (auto simp: disjoint_blocks_def intro!: memcpy_outside)

lemma write_bytes_outside:
  "x \<notin> block_addrs a (length bs) \<Longrightarrow> write_bytes m a bs x = m x"
  by (induction bs arbitrary: m a) (auto simp: block_addrs_Suc)

lemma write_bytes_inside:
  "length bs \<le> 2 ^ 32 \<Longrightarrow> i < length bs \<Longrightarrow> write_bytes m a bs (a + of_nat i) = bs ! i"
proof (induction bs arbitrary: m a i)
  case (Cons b bs)
  have "a \<notin> block_addrs (a + 1) (length bs)"
    using Cons.prems(1) by (intro block_start_notin) simp
  then show ?case
    using Cons.IH [of "i - 1" _ "a + 1"] Cons.prems
    by (cases i) (auto simp: write_bytes_outside add.assoc)
qed simp

lemma read_write_bytes:
  "length bs \<le> 2 ^ 32 \<Longrightarrow> read_bytes (write_bytes m a bs) a (length bs) = bs"
  by (rule nth_equalityI) (auto simp: write_bytes_inside)

lemma read_write_bytes_other:
  "disjoint_blocks a (length bs) b k \<Longrightarrow>
     read_bytes (write_bytes m a bs) b k = read_bytes m b k"
  by (rule read_bytes_cong) (auto simp: disjoint_blocks_def intro!: write_bytes_outside)

subsection \<open>Little-endian 32-bit values\<close>

definition bytes_of_u32 :: "u32 \<Rightarrow> u8 list" where
  "bytes_of_u32 v = [ucast v, ucast (drop_bit 8 v), ucast (drop_bit 16 v), ucast (drop_bit 24 v)]"

definition u32_of_bytes :: "u8 list \<Rightarrow> u32" where
  "u32_of_bytes bs = foldr (\<lambda>b acc. ucast b OR push_bit 8 acc) bs 0"

lemma length_bytes_of_u32 [simp]: "length (bytes_of_u32 v) = 4"
  by (simp add: bytes_of_u32_def)

lemma u32_bytes_roundtrip: "u32_of_bytes (bytes_of_u32 v) = v"
proof (rule bit_word_eqI)
  fix n assume "n < LENGTH(32)"
  then have "n < 8 \<or> (8 \<le> n \<and> n < 16) \<or> (16 \<le> n \<and> n < 24) \<or> (24 \<le> n \<and> n < 32)" by auto
  then show "bit (u32_of_bytes (bytes_of_u32 v)) n = bit v n"
    by (auto simp: u32_of_bytes_def bytes_of_u32_def bit_simps)
qed

definition read_u32 :: "memory \<Rightarrow> u32 \<Rightarrow> u32" where
  "read_u32 m a = u32_of_bytes (read_bytes m a 4)"

definition write_u32 :: "memory \<Rightarrow> u32 \<Rightarrow> u32 \<Rightarrow> memory" where
  "write_u32 m a v = write_bytes m a (bytes_of_u32 v)"

lemma read_write_u32 [simp]: "read_u32 (write_u32 m a v) a = v"
proof -
  have "read_bytes (write_bytes m a (bytes_of_u32 v)) a 4 = bytes_of_u32 v"
    using read_write_bytes [of "bytes_of_u32 v" m a] by simp
  then show ?thesis by (simp add: read_u32_def write_u32_def u32_bytes_roundtrip)
qed

lemma write_u32_outside: "x \<notin> block_addrs a 4 \<Longrightarrow> write_u32 m a v x = m x"
  by (simp add: write_u32_def write_bytes_outside)

section \<open>Masks\<close>

lemma bit_u8_high [simp]: "8 \<le> n \<Longrightarrow> \<not> bit (w :: u8) n"
  by (auto dest: bit_imp_le_length)

lemma bit_u16_high [simp]: "16 \<le> n \<Longrightarrow> \<not> bit (w :: u16) n"
  by (auto dest: bit_imp_le_length)

text \<open>
  The masks of the sources are all of the form \<open>2 ^ k - 1\<close>; as \<^const>\<open>take_bit\<close> they have bit
  lemmas and arithmetic lemmas.
\<close>

named_theorems mask_simps "masks written as take_bit"

lemma and_0xF [mask_simps]: "x AND 0xF = take_bit 4 (x :: 'a :: len word)"
  by (simp add: take_bit_eq_mask mask_eq_exp_minus_1)

lemma and_0xFF [mask_simps]: "x AND 0xFF = take_bit 8 (x :: 'a :: len word)"
  by (simp add: take_bit_eq_mask mask_eq_exp_minus_1)

lemma and_0xFFFF [mask_simps]: "x AND 0xFFFF = take_bit 16 (x :: 'a :: len word)"
  by (simp add: take_bit_eq_mask mask_eq_exp_minus_1)

lemma and_0xF0 [mask_simps]: "x AND 0xF0 = push_bit 4 (take_bit 4 (drop_bit 4 (x :: 'a :: len word)))"
proof -
  have "(0xF0 :: 'a word) = push_bit 4 (mask 4)"
    by (simp add: mask_eq_exp_minus_1 push_bit_eq_mult)
  moreover have "x AND push_bit 4 (mask 4) = push_bit 4 (take_bit 4 (drop_bit 4 x))"
    by (rule bit_word_eqI) (auto simp: bit_simps)
  ultimately show ?thesis by simp
qed

end
