(* ===== verification/Protect.thy ===== *)
theory Protect
  imports Prelude
begin

text \<open>
  Segment and gate descriptors of \<^verbatim>\<open>kernel/protect.c\<close> and \<^verbatim>\<open>include/sys/protect.h\<close>: building a
  descriptor scatters base, limit and attributes over eight bytes, and \<^verbatim>\<open>seg2phys\<close>,
  \<^verbatim>\<open>ldt_seg_linear\<close> and the \<^verbatim>\<open>reassembly\<close> macro of \<^verbatim>\<open>do_fork\<close> gather them again. The lemmas are
  the round trips.
\<close>

section \<open>Data\<close>

record descriptor =
  limit_low :: u16
  base_low :: u16
  base_mid :: u8
  attr1 :: u8
  limit_high_attr2 :: u8
  base_high :: u8

record gate =
  offset_low :: u16
  selector :: u16
  dcount :: u8
  attr :: u8
  offset_high :: u16

definition INDEX_LDT_C :: nat where [simp, const_simps]: "INDEX_LDT_C = 0"
definition INDEX_LDT_RW :: nat where [simp, const_simps]: "INDEX_LDT_RW = 1"
definition LDT_SIZE :: nat where [simp, const_simps]: "LDT_SIZE = 2"
definition SELECTOR_KERNEL_CS :: u16 where [const_simps]: "SELECTOR_KERNEL_CS = 0x08"
definition SELECTOR_KERNEL_DS :: u16 where [const_simps]: "SELECTOR_KERNEL_DS = 0x10"
definition SELECTOR_KERNEL_GS :: u16 where [const_simps]: "SELECTOR_KERNEL_GS = 0x18 + 3"
definition SELECTOR_LDT_FIRST :: u16 where [const_simps]: "SELECTOR_LDT_FIRST = 0x28"
definition DA_32 :: u16 where [const_simps]: "DA_32 = 0x4000"
definition DA_LIMIT_4K :: u16 where [const_simps]: "DA_LIMIT_4K = 0x8000"
definition LIMIT_4K_SHIFT :: nat where [simp, const_simps]: "LIMIT_4K_SHIFT = 12"
definition DA_DRW :: u16 where [const_simps]: "DA_DRW = 0x92"
definition DA_C :: u16 where [const_simps]: "DA_C = 0x98"
definition DA_386IGate :: u8 where [const_simps]: "DA_386IGate = 0x8E"

section \<open>Operations\<close>

definition init_descriptor :: "u32 \<Rightarrow> u32 \<Rightarrow> u16 \<Rightarrow> descriptor" where
  "init_descriptor base limit attribute =
     \<lparr>limit_low = ucast (limit AND 0x0FFFF),
      base_low = ucast (base AND 0x0FFFF),
      base_mid = ucast (drop_bit 16 base AND 0x0FF),
      attr1 = ucast (attribute AND 0xFF),
      limit_high_attr2 =
        ucast ((drop_bit 16 limit AND 0x0F) OR (ucast (drop_bit 8 attribute) AND 0xF0)),
      base_high = ucast (drop_bit 24 base AND 0x0FF)\<rparr>"

definition init_idt_desc :: "u8 \<Rightarrow> u32 \<Rightarrow> u8 \<Rightarrow> gate" where
  "init_idt_desc desc_type base privilege =
     \<lparr>offset_low = ucast (base AND 0xFFFF),
      selector = SELECTOR_KERNEL_CS,
      dcount = 0,
      attr = desc_type OR push_bit 5 privilege,
      offset_high = ucast (drop_bit 16 base AND 0xFFFF)\<rparr>"

text \<open>The base of a segment, as \<^verbatim>\<open>seg2phys\<close> and \<^verbatim>\<open>ldt_seg_linear\<close> both compute it.\<close>

definition descriptor_base :: "descriptor \<Rightarrow> u32" where
  "descriptor_base d =
     push_bit 24 (ucast (base_high d)) OR push_bit 16 (ucast (base_mid d)) OR ucast (base_low d)"

definition seg2phys :: "descriptor list \<Rightarrow> u16 \<Rightarrow> u32" where
  "seg2phys gdt seg = descriptor_base (gdt ! unat (drop_bit 3 seg))"

definition makelinear :: "descriptor list \<Rightarrow> u16 \<Rightarrow> u32 \<Rightarrow> u32" where
  "makelinear gdt seg off = seg2phys gdt seg + off"

definition reassembly :: "u32 \<Rightarrow> nat \<Rightarrow> u32 \<Rightarrow> nat \<Rightarrow> u32 \<Rightarrow> u32" where
  "reassembly high high_shift mid mid_shift low =
     push_bit high_shift high + push_bit mid_shift mid + low"

text \<open>The limit field and the granularity bit, as \<^verbatim>\<open>do_fork\<close> reads them back.\<close>

definition descriptor_limit :: "descriptor \<Rightarrow> u32" where
  "descriptor_limit d =
     reassembly 0 0 (ucast (limit_high_attr2 d AND 0xF)) 16 (ucast (limit_low d))"

definition descriptor_size :: "u32 \<Rightarrow> descriptor \<Rightarrow> u32" where
  "descriptor_size limit d =
     (limit + 1) * (if limit_high_attr2 d AND ucast (drop_bit 8 DA_LIMIT_4K) \<noteq> 0 then 4096 else 1)"

section \<open>Round trips\<close>

lemma descriptor_base_init [simp]: "descriptor_base (init_descriptor base limit a) = base"
proof (rule bit_word_eqI)
  fix n assume "n < LENGTH(32)"
  then have "n < 16 \<or> (16 \<le> n \<and> n < 24) \<or> (24 \<le> n \<and> n < 32)" by auto
  then show "bit (descriptor_base (init_descriptor base limit a)) n = bit base n"
    by (auto simp: descriptor_base_def init_descriptor_def mask_simps bit_simps)
qed

text \<open>
  \<^verbatim>\<open>ldt_seg_linear\<close> and \<^verbatim>\<open>seg2phys\<close> join the parts of a base with \<open>|\<close>, \<^verbatim>\<open>do_fork\<close> adds them
  with the macro \<^verbatim>\<open>reassembly\<close>. The parts do not overlap, so both give the same base.
\<close>

lemma reassembly_base:
  "reassembly (ucast (base_high d)) 24 (ucast (base_mid d)) 16 (ucast (base_low d))
     = descriptor_base d"
proof -
  let ?h = "push_bit 24 (ucast (base_high d)) :: u32"
  let ?m = "push_bit 16 (ucast (base_mid d)) :: u32"
  let ?l = "ucast (base_low d) :: u32"
  have "?h AND ?m = 0" and "(?h OR ?m) AND ?l = 0"
    by (auto intro!: bit_word_eqI simp: bit_simps dest: bit_imp_le_length)
  then show ?thesis
    by (simp add: reassembly_def descriptor_base_def disjunctive_add_eq_or or.assoc)
qed

lemma descriptor_limit_init:
  "descriptor_limit (init_descriptor base limit a) = take_bit 20 limit"
proof -
  let ?h = "push_bit 16 (ucast (limit_high_attr2 (init_descriptor base limit a) AND 0xF)) :: u32"
  let ?l = "ucast (limit_low (init_descriptor base limit a)) :: u32"
  have "?h AND ?l = 0"
    by (auto intro!: bit_word_eqI simp: bit_simps dest: bit_imp_le_length)
  then have "descriptor_limit (init_descriptor base limit a) = ?h OR ?l"
    by (simp add: descriptor_limit_def reassembly_def disjunctive_add_eq_or)
  also have "\<dots> = take_bit 20 limit"
    by (auto intro!: bit_word_eqI simp: init_descriptor_def mask_simps bit_simps)
  finally show ?thesis .
qed

text \<open>
  A descriptor stored in the GDT by \<^verbatim>\<open>init_descriptor\<close> gives back what was put in: \<^verbatim>\<open>seg2phys\<close> of
  its selector is the base, the limit is the low 20 bits of the limit, and both attribute fields are kept.
\<close>

theorem descriptor_roundtrip:
  assumes "unat (drop_bit 3 sel) < length gdt"
  shows "seg2phys (gdt[unat (drop_bit 3 sel) := init_descriptor base limit a]) sel = base \<and>
    descriptor_limit (init_descriptor base limit a) = take_bit 20 limit \<and>
    attr1 (init_descriptor base limit a) = ucast a \<and>
    drop_bit 4 (limit_high_attr2 (init_descriptor base limit a)) = ucast (drop_bit 12 a)"
proof -
  have "attr1 (init_descriptor base limit a) = ucast a"
    by (auto intro!: bit_word_eqI simp: init_descriptor_def mask_simps bit_simps)
  moreover have "n < 4" if "bit a (12 + n)" for n
    using that bit_u16_high [of "12 + n" a] by (cases "n < 4") simp_all
  then have "drop_bit 4 (limit_high_attr2 (init_descriptor base limit a)) = ucast (drop_bit 12 a)"
    by (auto intro!: bit_word_eqI simp: init_descriptor_def mask_simps bit_simps)
  ultimately show ?thesis
    using assms by (simp add: seg2phys_def descriptor_limit_init)
qed

theorem descriptor_roundtrip_witness:
  "seg2phys ([init_descriptor 0 0 0, init_descriptor 1 1 1][unat (drop_bit 3 (0x08 :: u16)) := init_descriptor 0xA00000 0xFF (DA_DRW OR DA_LIMIT_4K)]) 0x08 = 0xA00000 \<and>
    descriptor_limit (init_descriptor 0xA00000 0xFF (DA_DRW OR DA_LIMIT_4K)) = take_bit 20 0xFF \<and>
    attr1 (init_descriptor 0xA00000 0xFF (DA_DRW OR DA_LIMIT_4K)) = ucast (DA_DRW OR DA_LIMIT_4K) \<and>
    drop_bit 4 (limit_high_attr2 (init_descriptor 0xA00000 0xFF (DA_DRW OR DA_LIMIT_4K))) =
      ucast (drop_bit 12 (DA_DRW OR DA_LIMIT_4K))"
  by (rule descriptor_roundtrip) simp

end
