(* ===== verification/Kernel.thy ===== *)
theory Kernel
  imports Protect
begin

text \<open>
  The data every part of the kernel shares: the constants of \<^verbatim>\<open>include/sys/const.h\<close>, the
  \<^verbatim>\<open>MESSAGE\<close> structure with its layout in memory (\<^verbatim>\<open>include/type.h\<close>), the process table entry
  (\<^verbatim>\<open>include/sys/proc.h\<close>) and the global variables (\<^verbatim>\<open>include/sys/global.h\<close>) as a record that
  the later components extend with their own variables.
\<close>

section \<open>Constants\<close>

definition NR_TASKS :: nat where [simp, const_simps]: "NR_TASKS = 5"
definition NR_PROCS :: nat where [simp, const_simps]: "NR_PROCS = 32"
definition NR_NATIVE_PROCS :: nat where [simp, const_simps]: "NR_NATIVE_PROCS = 4"
definition NR_FILES :: nat where [simp, const_simps]: "NR_FILES = 64"

definition SENDING :: u32 where [const_simps]: "SENDING = 0x02"
definition RECEIVING :: u32 where [const_simps]: "RECEIVING = 0x04"
definition WAITING :: u32 where [const_simps]: "WAITING = 0x08"
definition HANGING :: u32 where [const_simps]: "HANGING = 0x10"
definition FREE_SLOT :: u32 where [const_simps]: "FREE_SLOT = 0x20"

definition INTERRUPT :: int where [simp, const_simps]: "INTERRUPT = -10"
definition TASK_TTY :: nat where [simp, const_simps]: "TASK_TTY = 0"
definition TASK_SYS :: nat where [simp, const_simps]: "TASK_SYS = 1"
definition TASK_HD :: nat where [simp, const_simps]: "TASK_HD = 2"
definition TASK_FS :: nat where [simp, const_simps]: "TASK_FS = 3"
definition TASK_MM :: nat where [simp, const_simps]: "TASK_MM = 4"
definition INIT :: nat where [simp, const_simps]: "INIT = 5"
definition ANY :: int where [simp, const_simps]: "ANY = int (NR_TASKS + NR_PROCS + 10)"
definition NO_TASK :: int where [simp, const_simps]: "NO_TASK = int (NR_TASKS + NR_PROCS + 20)"

definition SEND :: int where [simp, const_simps]: "SEND = 1"
definition RECEIVE :: int where [simp, const_simps]: "RECEIVE = 2"
definition BOTH :: int where [simp, const_simps]: "BOTH = 3"

definition MAX_TICKS :: int where [simp, const_simps]: "MAX_TICKS = 0x7FFFABCD"

text \<open>\<^verbatim>\<open>enum msgtype\<close>: the message types are consecutive from 1, the driver ones from 1001.\<close>

definition HARD_INT :: int where [simp, const_simps]: "HARD_INT = 1"
definition GET_TICKS :: int where [simp, const_simps]: "GET_TICKS = 2"
definition GET_PID :: int where [simp, const_simps]: "GET_PID = 3"
definition OPEN :: int where [simp, const_simps]: "OPEN = 4"
definition CLOSE :: int where [simp, const_simps]: "CLOSE = 5"
definition READ :: int where [simp, const_simps]: "READ = 6"
definition WRITE :: int where [simp, const_simps]: "WRITE = 7"
definition LSEEK :: int where [simp, const_simps]: "LSEEK = 8"
definition STAT :: int where [simp, const_simps]: "STAT = 9"
definition UNLINK :: int where [simp, const_simps]: "UNLINK = 10"
definition SUSPEND_PROC :: int where [simp, const_simps]: "SUSPEND_PROC = 11"
definition RESUME_PROC :: int where [simp, const_simps]: "RESUME_PROC = 12"
definition EXEC :: int where [simp, const_simps]: "EXEC = 13"
definition WAIT :: int where [simp, const_simps]: "WAIT = 14"
definition FORK :: int where [simp, const_simps]: "FORK = 15"
definition EXIT :: int where [simp, const_simps]: "EXIT = 16"
definition SYSCALL_RET :: int where [simp, const_simps]: "SYSCALL_RET = 17"
definition DEV_OPEN :: int where [simp, const_simps]: "DEV_OPEN = 1001"
definition DEV_CLOSE :: int where [simp, const_simps]: "DEV_CLOSE = 1002"
definition DEV_READ :: int where [simp, const_simps]: "DEV_READ = 1003"
definition DEV_WRITE :: int where [simp, const_simps]: "DEV_WRITE = 1004"
definition DEV_IOCTL :: int where [simp, const_simps]: "DEV_IOCTL = 1005"

section \<open>Messages\<close>

text \<open>
  Every user of the union \<^verbatim>\<open>MESSAGE::u\<close> reads it as \<^verbatim>\<open>struct mess3\<close> through the macros of
  \<^verbatim>\<open>const.h\<close>, so the record has that member's fields. An \<^verbatim>\<open>int\<close> is kept as its 32-bit pattern
  in memory and read as a signed value.
\<close>

record message =
  msg_source :: int
  msg_type :: int
  m3i1 :: int
  m3i2 :: int
  m3i3 :: int
  m3i4 :: int
  m3l1 :: u64
  m3l2 :: u64
  m3p1 :: u32
  m3p2 :: u32

text \<open>
  Offsets of the structure as \<^verbatim>\<open>gcc -m32\<close> lays it out (\<^verbatim>\<open>u64\<close> members are aligned to 4).
\<close>

definition MESSAGE_SIZE :: nat where [simp, const_simps]: "MESSAGE_SIZE = 48"

definition read_int :: "memory \<Rightarrow> u32 \<Rightarrow> int" where
  "read_int m a = sint (read_u32 m a)"

definition read_u64 :: "memory \<Rightarrow> u32 \<Rightarrow> u64" where
  "read_u64 m a = ucast (read_u32 m a) OR push_bit 32 (ucast (read_u32 m (a + 4)))"

definition read_msg :: "memory \<Rightarrow> u32 \<Rightarrow> message" where
  "read_msg m a =
     \<lparr>msg_source = read_int m a, msg_type = read_int m (a + 4),
      m3i1 = read_int m (a + 8), m3i2 = read_int m (a + 12),
      m3i3 = read_int m (a + 16), m3i4 = read_int m (a + 20),
      m3l1 = read_u64 m (a + 24), m3l2 = read_u64 m (a + 32),
      m3p1 = read_u32 m (a + 40), m3p2 = read_u32 m (a + 44)\<rparr>"

definition write_int :: "memory \<Rightarrow> u32 \<Rightarrow> int \<Rightarrow> memory" where
  "write_int m a v = write_u32 m a (word_of_int v)"

text \<open>The values of a C \<^verbatim>\<open>int\<close>.\<close>

definition is_cint :: "int \<Rightarrow> bool" where
  "is_cint v \<longleftrightarrow> - (2 ^ 31) \<le> v \<and> v < 2 ^ 31"

lemma read_write_int: "is_cint v \<Longrightarrow> read_int (write_int m a v) a = v"
  by (simp add: read_int_def write_int_def is_cint_def sint_sbintrunc'
      signed_take_bit_int_eq_self)

lemma read_u32_cong: "read_bytes m a 4 = read_bytes m' b 4 \<Longrightarrow> read_u32 m a = read_u32 m' b"
  by (simp add: read_u32_def)

lemma read_bytes_sub:
  assumes "read_bytes m a n = read_bytes m' b n" and "i + k \<le> n"
  shows "read_bytes m (a + of_nat i) k = read_bytes m' (b + of_nat i) k"
proof (rule nth_equalityI)
  fix j assume "j < length (read_bytes m (a + of_nat i) k)"
  then have "i + j < n" using assms(2) by simp
  then have "m (a + of_nat (i + j)) = m' (b + of_nat (i + j))"
    using assms(1) by (metis nth_read_bytes)
  with \<open>j < length _\<close> show "read_bytes m (a + of_nat i) k ! j = read_bytes m' (b + of_nat i) k ! j"
    by (simp add: add.assoc)
qed simp

text \<open>A message is determined by its 48 bytes.\<close>

lemma read_msg_cong:
  assumes "read_bytes m a MESSAGE_SIZE = read_bytes m' b MESSAGE_SIZE"
  shows "read_msg m a = read_msg m' b"
proof -
  have w: "read_u32 m (a + of_nat i) = read_u32 m' (b + of_nat i)" if "i \<le> 44" for i
    using read_bytes_sub [OF assms, of i 4] that by (intro read_u32_cong) simp
  have "read_u32 m a = read_u32 m' b" using w [of 0] by simp
  moreover have "read_u32 m (a + 4) = read_u32 m' (b + 4)" using w [of 4] by simp
  moreover have "read_u32 m (a + 8) = read_u32 m' (b + 8)" using w [of 8] by simp
  moreover have "read_u32 m (a + 12) = read_u32 m' (b + 12)" using w [of 12] by simp
  moreover have "read_u32 m (a + 16) = read_u32 m' (b + 16)" using w [of 16] by simp
  moreover have "read_u32 m (a + 20) = read_u32 m' (b + 20)" using w [of 20] by simp
  moreover have "read_u32 m (a + 24) = read_u32 m' (b + 24)" using w [of 24] by simp
  moreover have "read_u32 m (a + 28) = read_u32 m' (b + 28)" using w [of 28] by simp
  moreover have "read_u32 m (a + 32) = read_u32 m' (b + 32)" using w [of 32] by simp
  moreover have "read_u32 m (a + 36) = read_u32 m' (b + 36)" using w [of 36] by simp
  moreover have "read_u32 m (a + 40) = read_u32 m' (b + 40)" using w [of 40] by simp
  moreover have "read_u32 m (a + 44) = read_u32 m' (b + 44)" using w [of 44] by simp
  ultimately show ?thesis
    by (simp add: read_msg_def read_int_def read_u64_def add.assoc)
qed

section \<open>Processes and global variables\<close>

record stackframe =
  r_gs :: u32
  r_fs :: u32
  r_es :: u32
  r_ds :: u32
  r_edi :: u32
  r_esi :: u32
  r_ebp :: u32
  r_kernel_esp :: u32
  r_ebx :: u32
  r_edx :: u32
  r_ecx :: u32
  r_eax :: u32
  r_retaddr :: u32
  r_eip :: u32
  r_cs :: u32
  r_eflags :: u32
  r_esp :: u32
  r_ss :: u32

text \<open>
  Pointers to entries of \<^verbatim>\<open>proc_table\<close> and \<^verbatim>\<open>f_desc_table\<close> are indices, the null pointer is
  \<^const>\<open>None\<close>. \<open>p_msg\<close> is a virtual address of its owner, 0 when there is no message.
\<close>

record proc =
  regs :: stackframe
  ldt_sel :: u16
  ldts :: "descriptor list"
  p_ticks :: int
  priority :: int
  p_pid :: u32
  p_name :: string
  p_flags :: u32
  p_msg :: u32
  p_recvfrom :: int
  p_sendto :: int
  has_int_msg :: int
  q_sending :: "nat option"
  next_sending :: "nat option"
  nr_tty :: int
  p_parent :: int
  exit_status :: int
  filp :: "nat option list"

record kernel =
  proc_table :: "proc list"
  p_proc_ready :: nat
  k_reenter :: u32
  k_ticks :: int
  key_pressed :: int
  mem :: memory

abbreviation proc_of :: "'a kernel_scheme \<Rightarrow> nat \<Rightarrow> proc" where
  "proc_of k i \<equiv> proc_table k ! i"

end
