(* ===== verification/Proc.thy ===== *)
theory Proc
  imports Kernel
begin

text \<open>
  Scheduling and message passing of \<^verbatim>\<open>kernel/proc.c\<close>. Each routine is a definition on the kernel
  record; a \<^verbatim>\<open>struct proc *\<close> is an index into \<^verbatim>\<open>proc_table\<close>. The loops that follow pointers
  (\<^verbatim>\<open>deadlock\<close>, the sending queues, \<^verbatim>\<open>schedule\<close>) are \<^theory_text>\<open>partial_function (option)\<close>, so
  that a loop that does not end is the fault \<^const>\<open>Spins\<close>; theory \<open>Ipc_Invariant\<close> proves when they end.
  The integer result of the routines is always 0 and is left out.
\<close>

section \<open>Helpers\<close>

definition valid_proc_nr :: "int \<Rightarrow> bool" where
  "valid_proc_nr i \<longleftrightarrow> 0 \<le> i \<and> i < int (NR_TASKS + NR_PROCS)"

definition upd_proc :: "'a kernel_scheme \<Rightarrow> nat \<Rightarrow> (proc \<Rightarrow> proc) \<Rightarrow> 'a kernel_scheme" where
  "upd_proc k i f = k\<lparr>proc_table := (proc_table k)[i := f (proc_table k ! i)]\<rparr>"

definition has_flag :: "proc \<Rightarrow> u32 \<Rightarrow> bool" where
  "has_flag p f \<longleftrightarrow> p_flags p AND f \<noteq> 0"

text \<open>The four assertions on a process that takes part in no transfer.\<close>

definition ipc_idle :: "proc \<Rightarrow> bool" where
  "ipc_idle p \<longleftrightarrow> p_flags p = 0 \<and> p_msg p = 0 \<and> p_recvfrom p = NO_TASK \<and> p_sendto p = NO_TASK"

section \<open>schedule\<close>

text \<open>The first \<^verbatim>\<open>for\<close> loop: the accumulator is \<^verbatim>\<open>(greatest_ticks, p_proc_ready)\<close>.\<close>

primrec sched_pick :: "proc list \<Rightarrow> nat \<Rightarrow> int \<times> nat \<Rightarrow> int \<times> nat" where
  "sched_pick [] i acc = acc"
| "sched_pick (p # ps) i acc =
     (if p_flags p = 0 \<and> p_ticks p > fst acc then sched_pick ps (Suc i) (p_ticks p, i)
      else sched_pick ps (Suc i) acc)"

text \<open>The second \<^verbatim>\<open>for\<close> loop.\<close>

definition sched_refill :: "proc list \<Rightarrow> proc list" where
  "sched_refill pt = map (\<lambda>p. if p_flags p = 0 then p\<lparr>p_ticks := priority p\<rparr> else p) pt"

partial_function (option) schedule_loop :: "proc list \<Rightarrow> nat \<Rightarrow> (proc list \<times> nat) option" where
  "schedule_loop pt ready =
     (let r = sched_pick pt 0 (0, ready) in
      if fst r \<noteq> 0 then Some (pt, snd r) else schedule_loop (sched_refill pt) (snd r))"

definition schedule :: "'a kernel_scheme \<Rightarrow> 'a kernel_scheme res" where
  "schedule k =
     (case schedule_loop (proc_table k) (p_proc_ready k) of
        None \<Rightarrow> Inl Spins
      | Some (pt, ready) \<Rightarrow> Inr (k\<lparr>proc_table := pt, p_proc_ready := ready\<rparr>))"

section \<open>Addresses\<close>

definition ldt_seg_linear :: "proc \<Rightarrow> nat \<Rightarrow> u32" where
  "ldt_seg_linear p idx =
     (let d = ldts p ! idx in
      push_bit 24 (ucast (base_high d)) OR push_bit 16 (ucast (base_mid d)) OR ucast (base_low d))"

definition va2la :: "'a kernel_scheme \<Rightarrow> nat \<Rightarrow> u32 \<Rightarrow> u32 res" where
  "va2la k pid va =
     (let seg_base = ldt_seg_linear (proc_of k pid) INDEX_LDT_RW;
          la = seg_base + va
      in if pid < NR_TASKS + NR_NATIVE_PROCS then kassert (la = va) ''va2la'' (Inr la)
         else Inr la)"

definition reset_msg :: "memory \<Rightarrow> u32 \<Rightarrow> memory" where
  "reset_msg m p = memset m p 0 MESSAGE_SIZE"

section \<open>Blocking\<close>

definition block :: "'a kernel_scheme \<Rightarrow> nat \<Rightarrow> 'a kernel_scheme res" where
  "block k p = kassert (p_flags (proc_of k p) \<noteq> 0) ''block'' (schedule k)"

definition unblock :: "'a kernel_scheme \<Rightarrow> nat \<Rightarrow> unit res" where
  "unblock k p = kassert (p_flags (proc_of k p) = 0) ''unblock'' (Inr ())"

section \<open>deadlock\<close>

text \<open>
  The outer \<^verbatim>\<open>while (1)\<close> follows \<^verbatim>\<open>p_sendto\<close> while processes are sending.
\<close>

partial_function (option) deadlock_loop :: "proc list \<Rightarrow> int \<Rightarrow> nat \<Rightarrow> bool option" where
  "deadlock_loop pt src p =
     (if has_flag (pt ! p) SENDING then
        if p_sendto (pt ! p) = src then Some True
        else deadlock_loop pt src (nat (p_sendto (pt ! p)))
      else Some False)"

text \<open>
  The \<^verbatim>\<open>do ... while\<close> that prints the chain: the entries printed, or \<^const>\<open>None\<close> inside when the
  assertion on \<^verbatim>\<open>p_msg\<close> fails.
\<close>

partial_function (option) deadlock_chain :: "proc list \<Rightarrow> int \<Rightarrow> nat \<Rightarrow> (nat list option) option" where
  "deadlock_chain pt src p =
     (if p_msg (pt ! p) = 0 then Some None
      else let q = nat (p_sendto (pt ! p)) in
        if int q = src then Some (Some [q])
        else Option.bind (deadlock_chain pt src q) (\<lambda>r. Some (map_option ((#) q) r)))"

definition deadlock :: "'a kernel_scheme \<Rightarrow> int \<Rightarrow> nat \<Rightarrow> bool res" where
  "deadlock k src dest =
     res_bind (of_option Spins (deadlock_loop (proc_table k) src dest)) (\<lambda>found.
     if found then
       res_bind (of_option Spins (deadlock_chain (proc_table k) src dest)) (\<lambda>chain.
       kassert (chain \<noteq> None) ''deadlock'' (Inr True))
     else Inr False)"

section \<open>msg_send\<close>

text \<open>\<^verbatim>\<open>while (p->next_sending) p = p->next_sending;\<close>\<close>

partial_function (option) queue_tail :: "proc list \<Rightarrow> nat \<Rightarrow> nat option" where
  "queue_tail pt p =
     (case next_sending (pt ! p) of None \<Rightarrow> Some p | Some q \<Rightarrow> queue_tail pt q)"

definition append_sending :: "'a kernel_scheme \<Rightarrow> nat \<Rightarrow> nat \<Rightarrow> 'a kernel_scheme res" where
  "append_sending k d sender =
     res_bind
       (case q_sending (proc_of k d) of
          Some p \<Rightarrow> res_bind (of_option Spins (queue_tail (proc_table k) p)) (\<lambda>t.
                      Inr (upd_proc k t (\<lambda>q. q\<lparr>next_sending := Some sender\<rparr>)))
        | None \<Rightarrow> Inr (upd_proc k d (\<lambda>q. q\<lparr>q_sending := Some sender\<rparr>)))
       (\<lambda>k1. Inr (upd_proc k1 sender (\<lambda>q. q\<lparr>next_sending := None\<rparr>)))"

definition msg_send :: "'a kernel_scheme \<Rightarrow> nat \<Rightarrow> int \<Rightarrow> u32 \<Rightarrow> 'a kernel_scheme res" where
  "msg_send k sender dest m =
     kassert (int sender \<noteq> dest) ''msg_send: to itself'' (
     if \<not> valid_proc_nr dest then Inl (BadAccess ''msg_send: proc_table'') else
     let d = nat dest; p_dest = proc_of k d in
     res_bind (deadlock k (int sender) d) (\<lambda>dl.
     if dl then Inl (Panic ''>>DEADLOCK<<'') else
     if has_flag p_dest RECEIVING \<and> (p_recvfrom p_dest = int sender \<or> p_recvfrom p_dest = ANY) then
       kassert (p_msg p_dest \<noteq> 0) ''msg_send: p_dest->p_msg'' (
       kassert (m \<noteq> 0) ''msg_send: m'' (
       res_bind (va2la k d (p_msg p_dest)) (\<lambda>dst.
       res_bind (va2la k sender m) (\<lambda>src.
       let k1 = k\<lparr>mem := phys_copy (mem k) dst src MESSAGE_SIZE\<rparr>;
           k2 = upd_proc k1 d (\<lambda>p. p\<lparr>p_msg := 0, p_flags := p_flags p AND NOT RECEIVING,
                                   p_recvfrom := NO_TASK\<rparr>) in
       res_bind (unblock k2 d) (\<lambda>_.
       kassert (ipc_idle (proc_of k2 d)) ''msg_send: dest'' (
       kassert (ipc_idle (proc_of k2 sender)) ''msg_send: sender'' (
       Inr k2)))))))
     else
       let k1 = upd_proc k sender (\<lambda>p. p\<lparr>p_flags := p_flags p OR SENDING\<rparr>) in
       kassert (p_flags (proc_of k1 sender) = SENDING) ''msg_send: sender flags'' (
       let k2 = upd_proc k1 sender (\<lambda>p. p\<lparr>p_sendto := dest, p_msg := m\<rparr>) in
       res_bind (append_sending k2 d sender) (\<lambda>k3.
       res_bind (block k3 sender) (\<lambda>k4.
       let s = proc_of k4 sender in
       kassert (p_flags s = SENDING \<and> p_msg s \<noteq> 0 \<and> p_recvfrom s = NO_TASK \<and> p_sendto s = dest)
         ''msg_send: blocked sender'' (Inr k4))))))"

section \<open>msg_receive\<close>

text \<open>
  The loop that looks for \<^verbatim>\<open>src\<close> in the queue, with \<^verbatim>\<open>prev\<close> behind it. Its assertion repeats the
  condition of the enclosing \<^verbatim>\<open>if\<close>, which the loop does not change.
\<close>

partial_function (option) queue_find ::
  "proc list \<Rightarrow> nat \<Rightarrow> nat option \<Rightarrow> nat option \<Rightarrow> (nat option \<times> nat option) option" where
  "queue_find pt src p prev =
     (case p of
        None \<Rightarrow> Some (None, prev)
      | Some i \<Rightarrow> if i = src then Some (Some i, prev)
                  else queue_find pt src (next_sending (pt ! i)) (Some i))"

text \<open>The block of assertions on the receiver and on the process it takes the message from.\<close>

definition recv_asserts :: "'a kernel_scheme \<Rightarrow> nat \<Rightarrow> nat \<Rightarrow> bool" where
  "recv_asserts k r f \<longleftrightarrow>
     ipc_idle (proc_of k r) \<and> q_sending (proc_of k r) \<noteq> None \<and>
     p_flags (proc_of k f) = SENDING \<and> p_msg (proc_of k f) \<noteq> 0 \<and>
     p_recvfrom (proc_of k f) = NO_TASK \<and> p_sendto (proc_of k f) = int r"

text \<open>
  From whom the message is copied: \<^verbatim>\<open>Some (p_from, prev)\<close> when \<^verbatim>\<open>copyok\<close> is set.
\<close>

definition recv_choose :: "'a kernel_scheme \<Rightarrow> nat \<Rightarrow> int \<Rightarrow> (nat \<times> nat option) option res" where
  "recv_choose k r src =
     (if src = ANY then
        (case q_sending (proc_of k r) of
           None \<Rightarrow> Inr None
         | Some f \<Rightarrow> kassert (recv_asserts k r f) ''msg_receive: ANY'' (Inr (Some (f, None))))
      else if valid_proc_nr src then
        let f = nat src in
        if has_flag (proc_of k f) SENDING \<and> p_sendto (proc_of k f) = int r then
          kassert (q_sending (proc_of k r) \<noteq> None) ''msg_receive: queue'' (
          res_bind (of_option Spins (queue_find (proc_table k) f (q_sending (proc_of k r)) None)) (\<lambda>(p, prev).
          kassert (recv_asserts k r f) ''msg_receive: src'' (Inr (Some (f, prev)))))
        else Inr None
      else Inr None)"

definition remove_sending :: "'a kernel_scheme \<Rightarrow> nat \<Rightarrow> nat \<Rightarrow> nat option \<Rightarrow> 'a kernel_scheme res" where
  "remove_sending k r f prev =
     (if q_sending (proc_of k r) = Some f then
        kassert (prev = None) ''msg_receive: prev of first'' (
        Inr (upd_proc (upd_proc k r (\<lambda>p. p\<lparr>q_sending := next_sending (proc_of k f)\<rparr>))
               f (\<lambda>p. p\<lparr>next_sending := None\<rparr>)))
      else (case prev of
        None \<Rightarrow> Inl (AssertionFailure ''msg_receive: prev'')
      | Some pv \<Rightarrow>
          Inr (upd_proc (upd_proc k pv (\<lambda>p. p\<lparr>next_sending := next_sending (proc_of k f)\<rparr>))
                 f (\<lambda>p. p\<lparr>next_sending := None\<rparr>))))"

text \<open>The bytes of the local \<^verbatim>\<open>MESSAGE msg\<close> that announces a hardware interrupt.\<close>

definition int_msg_bytes :: "u8 list" where
  "int_msg_bytes =
     bytes_of_u32 (word_of_int INTERRUPT) @ bytes_of_u32 (word_of_int HARD_INT) @ replicate 40 0"

definition msg_receive :: "'a kernel_scheme \<Rightarrow> nat \<Rightarrow> int \<Rightarrow> u32 \<Rightarrow> 'a kernel_scheme res" where
  "msg_receive k r src m =
     kassert (int r \<noteq> src) ''msg_receive: from itself'' (
     if has_int_msg (proc_of k r) \<noteq> 0 \<and> (src = ANY \<or> src = INTERRUPT) then
       kassert (m \<noteq> 0) ''msg_receive: m'' (
       res_bind (va2la k r m) (\<lambda>dst.
       let k1 = k\<lparr>mem := write_bytes (mem k) dst int_msg_bytes\<rparr>;
           k2 = upd_proc k1 r (\<lambda>p. p\<lparr>has_int_msg := 0\<rparr>);
           p = proc_of k2 r in
       kassert (p_flags p = 0 \<and> p_msg p = 0 \<and> p_sendto p = NO_TASK \<and> has_int_msg p = 0)
         ''msg_receive: interrupt'' (Inr k2)))
     else
       res_bind (recv_choose k r src) (\<lambda>choice.
       case choice of
         Some (f, prev) \<Rightarrow>
           res_bind (remove_sending k r f prev) (\<lambda>k1.
           kassert (m \<noteq> 0) ''msg_receive: m'' (
           kassert (p_msg (proc_of k1 f) \<noteq> 0) ''msg_receive: p_from->p_msg'' (
           res_bind (va2la k1 r m) (\<lambda>dst.
           res_bind (va2la k1 f (p_msg (proc_of k1 f))) (\<lambda>src'.
           let k2 = k1\<lparr>mem := phys_copy (mem k1) dst src' MESSAGE_SIZE\<rparr>;
               k3 = upd_proc k2 f (\<lambda>p. p\<lparr>p_msg := 0, p_sendto := NO_TASK,
                                       p_flags := p_flags p AND NOT SENDING\<rparr>) in
           res_bind (unblock k3 f) (\<lambda>_. Inr k3))))))
       | None \<Rightarrow>
           let k1 = upd_proc k r (\<lambda>p. p\<lparr>p_flags := p_flags p OR RECEIVING, p_msg := m,
                                      p_recvfrom := src\<rparr>) in
           res_bind (block k1 r) (\<lambda>k2.
           let p = proc_of k2 r in
           kassert (p_flags p = RECEIVING \<and> p_msg p \<noteq> 0 \<and> p_recvfrom p \<noteq> NO_TASK \<and>
                    p_sendto p = NO_TASK \<and> has_int_msg p = 0)
             ''msg_receive: blocked'' (Inr k2))))"

section \<open>sys_sendrec, send_recv, inform_int\<close>

definition sys_sendrec ::
  "int \<Rightarrow> int \<Rightarrow> u32 \<Rightarrow> nat \<Rightarrow> 'a kernel_scheme \<Rightarrow> 'a kernel_scheme res" where
  "sys_sendrec func src_dest m caller k =
     kassert (k_reenter k = 0) ''sys_sendrec: k_reenter'' (
     kassert (valid_proc_nr src_dest \<or> src_dest = ANY \<or> src_dest = INTERRUPT)
       ''sys_sendrec: src_dest'' (
     res_bind (va2la k caller m) (\<lambda>mla.
     let k1 = k\<lparr>mem := write_int (mem k) mla (int caller)\<rparr> in
     kassert (int caller \<noteq> src_dest) ''sys_sendrec: source'' (
     if func = SEND then msg_send k1 caller src_dest m
     else if func = RECEIVE then msg_receive k1 caller src_dest m
     else Inl (Panic ''sys_sendrec: invalid function'')))))"

text \<open>
  \<^verbatim>\<open>send_recv\<close> runs in the caller's ring and traps once or twice: the list holds the \<^verbatim>\<open>sendrec\<close>
  functions in order; a RECEIVE alone first clears the message.
\<close>

definition send_recv :: "int \<Rightarrow> int list res" where
  "send_recv func =
     (if func = BOTH then Inr [SEND, RECEIVE]
      else if func = SEND \<or> func = RECEIVE then Inr [func]
      else Inl (AssertionFailure ''send_recv''))"

definition inform_int :: "nat \<Rightarrow> 'a kernel_scheme \<Rightarrow> 'a kernel_scheme res" where
  "inform_int task_nr k =
     (let p = proc_of k task_nr in
      if has_flag p RECEIVING \<and> (p_recvfrom p = INTERRUPT \<or> p_recvfrom p = ANY) then
        let k1 = k\<lparr>mem := write_int (write_int (mem k) (p_msg p) INTERRUPT) (p_msg p + 4) HARD_INT\<rparr>;
            k2 = upd_proc k1 task_nr (\<lambda>p. p\<lparr>p_msg := 0, has_int_msg := 0,
                                          p_flags := p_flags p AND NOT RECEIVING,
                                          p_recvfrom := NO_TASK\<rparr>) in
        kassert (p_flags (proc_of k2 task_nr) = 0) ''inform_int: flags'' (
        res_bind (unblock k2 task_nr) (\<lambda>_.
        kassert (ipc_idle (proc_of k2 task_nr)) ''inform_int: idle'' (Inr k2)))
      else Inr (upd_proc k task_nr (\<lambda>p. p\<lparr>has_int_msg := 1\<rparr>)))"

end
