(* ===== verification/Scheduler.thy ===== *)
theory Scheduler
  imports Proc
begin

text \<open>
  What \<^const>\<open>schedule\<close> guarantees: it returns exactly when some runnable process has ticks or a
  positive priority, it chooses a runnable process with the most ticks (the first such in the
  table), and apart from refilled tick counts it changes only \<^const>\<open>p_proc_ready\<close>.
\<close>

definition runnable :: "proc \<Rightarrow> bool" where
  "runnable p \<longleftrightarrow> p_flags p = 0"

section \<open>The selection loop\<close>

lemma sched_pick_spec:
  assumes "sched_pick ps i (g, r) = (g', r')"
  shows "(g' = g \<and> r' = r \<and> (\<forall>j < length ps. runnable (ps ! j) \<longrightarrow> p_ticks (ps ! j) \<le> g)) \<or>
    (\<exists>j < length ps. r' = i + j \<and> runnable (ps ! j) \<and> p_ticks (ps ! j) = g' \<and> g < g' \<and>
       (\<forall>j' < length ps. runnable (ps ! j') \<longrightarrow> p_ticks (ps ! j') \<le> g') \<and>
       (\<forall>j' < j. runnable (ps ! j') \<longrightarrow> p_ticks (ps ! j') < g'))"
  using assms
proof (induction ps arbitrary: i g r)
  case Nil
  then show ?case by simp
next
  case (Cons p ps)
  show ?case
  proof (cases "p_flags p = 0 \<and> p_ticks p > g")
    case True
    then have "sched_pick ps (Suc i) (p_ticks p, i) = (g', r')"
      using Cons.prems by simp
    from Cons.IH [OF this] show ?thesis
    proof (elim disjE exE conjE)
      assume "g' = p_ticks p" "r' = i"
        and "\<forall>j < length ps. runnable (ps ! j) \<longrightarrow> p_ticks (ps ! j) \<le> p_ticks p"
      with True show ?thesis
        by (intro disjI2 exI [of _ 0]) (auto simp: runnable_def less_Suc_eq_0_disj)
    next
      fix j assume "j < length ps" "r' = Suc i + j" "runnable (ps ! j)" "p_ticks (ps ! j) = g'"
        "p_ticks p < g'" "\<forall>j' < length ps. runnable (ps ! j') \<longrightarrow> p_ticks (ps ! j') \<le> g'"
        "\<forall>j' < j. runnable (ps ! j') \<longrightarrow> p_ticks (ps ! j') < g'"
      with True show ?thesis
        by (intro disjI2 exI [of _ "Suc j"]) (auto simp: less_Suc_eq_0_disj)
    qed
  next
    case False
    then have "sched_pick ps (Suc i) (g, r) = (g', r')"
      using Cons.prems by auto
    from Cons.IH [OF this] show ?thesis
    proof (elim disjE exE conjE)
      assume "g' = g" "r' = r" "\<forall>j < length ps. runnable (ps ! j) \<longrightarrow> p_ticks (ps ! j) \<le> g"
      with False show ?thesis
        by (auto simp: runnable_def less_Suc_eq_0_disj)
    next
      fix j assume "j < length ps" "r' = Suc i + j" "runnable (ps ! j)" "p_ticks (ps ! j) = g'"
        "g < g'" "\<forall>j' < length ps. runnable (ps ! j') \<longrightarrow> p_ticks (ps ! j') \<le> g'"
        "\<forall>j' < j. runnable (ps ! j') \<longrightarrow> p_ticks (ps ! j') < g'"
      with False show ?thesis
        by (intro disjI2 exI [of _ "Suc j"]) (auto simp: less_Suc_eq_0_disj runnable_def)
    qed
  qed
qed

text \<open>The process chosen from a table: runnable, most ticks, first in the table.\<close>

definition best_choice :: "proc list \<Rightarrow> nat \<Rightarrow> bool" where
  "best_choice pt r \<longleftrightarrow> r < length pt \<and> runnable (pt ! r) \<and> 0 < p_ticks (pt ! r) \<and>
     (\<forall>j < length pt. runnable (pt ! j) \<longrightarrow> p_ticks (pt ! j) \<le> p_ticks (pt ! r)) \<and>
     (\<forall>j < r. runnable (pt ! j) \<longrightarrow> p_ticks (pt ! j) < p_ticks (pt ! r))"

lemma sched_pick_best:
  "fst (sched_pick pt 0 (0, r)) \<noteq> 0 \<Longrightarrow> best_choice pt (snd (sched_pick pt 0 (0, r)))"
  using sched_pick_spec [of pt 0 0 r "fst (sched_pick pt 0 (0, r))" "snd (sched_pick pt 0 (0, r))"]
  by (auto simp: best_choice_def)

lemma sched_pick_zero:
  "fst (sched_pick pt 0 (0, r)) = 0 \<longleftrightarrow> (\<forall>p \<in> set pt. runnable p \<longrightarrow> p_ticks p \<le> 0)"
  using sched_pick_spec [of pt 0 0 r "fst (sched_pick pt 0 (0, r))" "snd (sched_pick pt 0 (0, r))"]
  by (force simp: in_set_conv_nth)

section \<open>Refilling\<close>

lemma length_sched_refill [simp]: "length (sched_refill pt) = length pt"
  by (simp add: sched_refill_def)

lemma nth_sched_refill [simp]:
  "i < length pt \<Longrightarrow> sched_refill pt ! i =
     (pt ! i)\<lparr>p_ticks := if p_flags (pt ! i) = 0 then priority (pt ! i) else p_ticks (pt ! i)\<rparr>"
  by (simp add: sched_refill_def)

lemma runnable_refill_ticks:
  "(\<exists>p \<in> set (sched_refill pt). runnable p \<and> 0 < p_ticks p) \<longleftrightarrow>
   (\<exists>p \<in> set pt. runnable p \<and> 0 < priority p)"
proof -
  have *: "runnable (if p_flags p = 0 then p\<lparr>p_ticks := priority p\<rparr> else p) \<and>
      0 < p_ticks (if p_flags p = 0 then p\<lparr>p_ticks := priority p\<rparr> else p) \<longleftrightarrow>
      runnable p \<and> 0 < priority p" for p
    by (auto simp: runnable_def)
  show ?thesis by (simp only: sched_refill_def set_map bex_simps *)
qed

lemma runnable_refill:
  "(\<exists>p \<in> set (sched_refill pt). runnable p \<and> (0 < p_ticks p \<or> 0 < priority p)) \<longleftrightarrow>
   (\<exists>p \<in> set pt. runnable p \<and> 0 < priority p)"
proof -
  have *: "runnable (if p_flags p = 0 then p\<lparr>p_ticks := priority p\<rparr> else p) \<and>
      (0 < p_ticks (if p_flags p = 0 then p\<lparr>p_ticks := priority p\<rparr> else p) \<or>
       0 < priority (if p_flags p = 0 then p\<lparr>p_ticks := priority p\<rparr> else p)) \<longleftrightarrow>
      runnable p \<and> 0 < priority p" for p
    by (auto simp: runnable_def)
  show ?thesis by (simp only: sched_refill_def set_map bex_simps *)
qed

section \<open>The outer loop\<close>

lemma schedule_loop_first:
  "\<exists>p \<in> set pt. runnable p \<and> 0 < p_ticks p \<Longrightarrow>
     schedule_loop pt r = Some (pt, snd (sched_pick pt 0 (0, r)))"
  by (subst schedule_loop.simps) (force simp: Let_def sched_pick_zero)

lemma schedule_loop_second:
  assumes "\<forall>p \<in> set pt. runnable p \<longrightarrow> p_ticks p \<le> 0"
    and "\<exists>p \<in> set pt. runnable p \<and> 0 < priority p"
  shows "\<exists>r'. schedule_loop pt r = Some (sched_refill pt, r') \<and> best_choice (sched_refill pt) r'"
proof -
  let ?r = "snd (sched_pick pt 0 (0, r))"
  have "schedule_loop pt r = schedule_loop (sched_refill pt) ?r"
    using assms(1) by (subst schedule_loop.simps) (simp add: Let_def sched_pick_zero)
  moreover have ex: "\<exists>p \<in> set (sched_refill pt). runnable p \<and> 0 < p_ticks p"
    using assms(2) by (simp only: runnable_refill_ticks)
  moreover have "best_choice (sched_refill pt) (snd (sched_pick (sched_refill pt) 0 (0, ?r)))"
    using ex by (intro sched_pick_best) (force simp: sched_pick_zero)
  ultimately show ?thesis
    by (auto simp: schedule_loop_first)
qed

lemma schedule_loop_returns:
  assumes "schedule_loop pt r = Some x"
  shows "\<exists>p \<in> set pt. runnable p \<and> (0 < p_ticks p \<or> 0 < priority p)"
proof (rule schedule_loop.raw_induct
    [where P = "\<lambda>pt r x. \<exists>p \<in> set pt. runnable p \<and> (0 < p_ticks p \<or> 0 < priority p)", OF _ assms])
  fix f pt r x
  assume IH: "\<And>pt r x. f pt r = Some x \<Longrightarrow>
      \<exists>p \<in> set pt. runnable p \<and> (0 < p_ticks p \<or> 0 < priority p)"
    and eq: "(let r = sched_pick pt 0 (0, r) in
      if fst r \<noteq> 0 then Some (pt, snd r) else f (sched_refill pt) (snd r)) = Some x"
  show "\<exists>p \<in> set pt. runnable p \<and> (0 < p_ticks p \<or> 0 < priority p)"
  proof (cases "fst (sched_pick pt 0 (0, r)) = 0")
    case True
    with eq have "f (sched_refill pt) (snd (sched_pick pt 0 (0, r))) = Some x"
      by (simp add: Let_def)
    from IH [OF this] show ?thesis
      by (auto simp: runnable_refill)
  next
    case False
    then show ?thesis by (force simp: sched_pick_zero)
  qed
qed

section \<open>schedule\<close>

text \<open>The three ways \<open>schedule\<close> can go, as one case rule for the clients.\<close>

lemma schedule_cases:
  obtains (first) "\<exists>p \<in> set (proc_table k). runnable p \<and> 0 < p_ticks p"
      "schedule k = Inr (k\<lparr>p_proc_ready := snd (sched_pick (proc_table k) 0 (0, p_proc_ready k))\<rparr>)"
      "best_choice (proc_table k) (snd (sched_pick (proc_table k) 0 (0, p_proc_ready k)))"
  | (refill) r where "\<forall>p \<in> set (proc_table k). runnable p \<longrightarrow> p_ticks p \<le> 0"
      "schedule k = Inr (k\<lparr>proc_table := sched_refill (proc_table k), p_proc_ready := r\<rparr>)"
      "best_choice (sched_refill (proc_table k)) r"
  | (spins) "schedule k = Inl Spins"
      "\<forall>p \<in> set (proc_table k). runnable p \<longrightarrow> p_ticks p \<le> 0 \<and> priority p \<le> 0"
proof (cases "\<exists>p \<in> set (proc_table k). runnable p \<and> 0 < p_ticks p")
  case True
  then have "fst (sched_pick (proc_table k) 0 (0, p_proc_ready k)) \<noteq> 0"
    by (force simp: sched_pick_zero)
  then have "best_choice (proc_table k) (snd (sched_pick (proc_table k) 0 (0, p_proc_ready k)))"
    by (rule sched_pick_best)
  with True show ?thesis
    by (intro first) (auto simp: schedule_def schedule_loop_first)
next
  case no_ticks: False
  show ?thesis
  proof (cases "\<exists>p \<in> set (proc_table k). runnable p \<and> 0 < priority p")
    case True
    with no_ticks obtain r where
      "schedule_loop (proc_table k) (p_proc_ready k) = Some (sched_refill (proc_table k), r)"
      "best_choice (sched_refill (proc_table k)) r"
      using schedule_loop_second [of "proc_table k" "p_proc_ready k"] by force
    with no_ticks show ?thesis
      by (intro refill) (auto simp: schedule_def not_less)
  next
    case False
    with no_ticks have "schedule_loop (proc_table k) (p_proc_ready k) = None"
      using schedule_loop_returns by (cases "schedule_loop (proc_table k) (p_proc_ready k)") blast+
    with no_ticks False show ?thesis
      by (intro spins) (auto simp: schedule_def not_less)
  qed
qed

end
