(* ===== verification/Sending_Queue.thy ===== *)
theory Sending_Queue
  imports Proc
begin

text \<open>
  The sending queue of a process is a linked list threaded through \<^const>\<open>next_sending\<close>. The
  abstraction \<open>qpath nx p xs\<close> says that following \<open>nx\<close> from \<open>p\<close> visits \<open>xs\<close> and ends at the null
  pointer; the pointer loops of \<^verbatim>\<open>msg_send\<close> and \<^verbatim>\<open>msg_receive\<close> then compute list operations.
\<close>

section \<open>Linked lists\<close>

primrec qpath :: "(nat \<Rightarrow> nat option) \<Rightarrow> nat option \<Rightarrow> nat list \<Rightarrow> bool" where
  "qpath nx p [] \<longleftrightarrow> p = None"
| "qpath nx p (x # xs) \<longleftrightarrow> p = Some x \<and> qpath nx (nx x) xs"

abbreviation next_of :: "proc list \<Rightarrow> nat \<Rightarrow> nat option" where
  "next_of pt \<equiv> \<lambda>i. next_sending (pt ! i)"

lemma qpath_None [simp]: "qpath nx None xs \<longleftrightarrow> xs = []"
  by (cases xs) auto

lemma qpath_Some: "qpath nx (Some a) xs \<longleftrightarrow> (\<exists>ys. xs = a # ys \<and> qpath nx (nx a) ys)"
  by (cases xs) auto

lemma qpath_unique: "qpath nx p xs \<Longrightarrow> qpath nx p ys \<Longrightarrow> xs = ys"
  by (induction xs arbitrary: p ys) (auto simp: qpath_Some)

lemma qpath_suffix: "qpath nx p (xs @ y # ys) \<Longrightarrow> qpath nx (Some y) (y # ys)"
  by (induction xs arbitrary: p) auto

lemma qpath_distinct: "qpath nx p xs \<Longrightarrow> distinct xs"
proof (induction xs arbitrary: p)
  case (Cons x xs)
  have "x \<notin> set xs"
  proof
    assume "x \<in> set xs"
    then obtain us vs where xs: "xs = us @ x # vs" by (auto simp: in_set_conv_decomp)
    then have "qpath nx (Some x) (x # vs)"
      using Cons.prems qpath_suffix [of nx p "x # us" x vs] by simp
    moreover have "qpath nx (Some x) (x # xs)" using Cons.prems by simp
    ultimately have "x # vs = x # xs" by (rule qpath_unique)
    then have "length vs = length xs" by simp
    with xs show False by simp
  qed
  with Cons show ?case by auto
qed simp

lemma qpath_upd: "a \<notin> set xs \<Longrightarrow> qpath (nx(a := v)) p xs \<longleftrightarrow> qpath nx p xs"
  by (induction xs arbitrary: p) auto

lemma qpath_cong: "(\<And>x. x \<in> set xs \<Longrightarrow> nx x = nx' x) \<Longrightarrow> qpath nx p xs = qpath nx' p xs"
  by (induction xs arbitrary: p) auto

section \<open>Appending\<close>

lemma qpath_append_tail:
  assumes "qpath nx p (xs @ [t])" and "s \<notin> set (xs @ [t])"
  shows "qpath (nx(t := Some s, s := None)) p (xs @ [t, s])"
proof -
  have "t \<notin> set xs" using qpath_distinct [OF assms(1)] by simp
  with assms show ?thesis
    by (induction xs arbitrary: p) auto
qed

lemma queue_tail_last:
  assumes "qpath (next_of pt) (Some p) xs"
  shows "queue_tail pt p = Some (last xs)"
  using assms
proof (induction xs arbitrary: p)
  case (Cons x xs)
  then have [simp]: "x = p" and path: "qpath (next_of pt) (next_sending (pt ! p)) xs"
    by auto
  show ?case
  proof (cases "next_sending (pt ! p)")
    case None
    with path show ?thesis by (subst queue_tail.simps) simp
  next
    case (Some q)
    with path have "queue_tail pt q = Some (last xs)" and "xs \<noteq> []"
      using Cons.IH [of q] by auto
    with Some show ?thesis by (subst queue_tail.simps) simp
  qed
qed simp

section \<open>Finding and removing\<close>

lemma queue_find_split:
  assumes "qpath (next_of pt) p (ys @ f # zs)"
  shows "queue_find pt f p prev = Some (Some f, if ys = [] then prev else Some (last ys))"
proof -
  have "f \<notin> set ys" using qpath_distinct [OF assms] by simp
  with assms show ?thesis
  proof (induction ys arbitrary: p prev)
    case Nil
    then show ?case by (subst queue_find.simps) simp
  next
    case (Cons y ys)
    then have p: "p = Some y" and "y \<noteq> f" and rest: "qpath (next_of pt) (next_sending (pt ! y)) (ys @ f # zs)"
      by auto
    then have "queue_find pt f p prev = queue_find pt f (next_sending (pt ! y)) (Some y)"
      by (subst queue_find.simps) simp
    also have "\<dots> = Some (Some f, if ys = [] then Some y else Some (last ys))"
      using Cons.IH [OF rest] Cons.prems(2) by simp
    finally show ?case by simp
  qed
qed

lemma qpath_remove_first:
  "qpath nx p (f # zs) \<Longrightarrow> qpath (nx(f := None)) (nx f) zs"
  using qpath_distinct [of nx p "f # zs"] by (simp add: qpath_upd)

lemma qpath_remove_later:
  assumes "qpath nx p (ys @ [v] @ f # zs)"
  shows "qpath (nx(v := nx f, f := None)) p (ys @ [v] @ zs)"
proof -
  have "distinct (ys @ [v] @ f # zs)" by (rule qpath_distinct [OF assms])
  with assms show ?thesis
    by (induction ys arbitrary: p) (auto simp: qpath_upd)
qed

end
