(* ===== verification/Ipc_Invariant.thy ===== *)
theory Ipc_Invariant
  imports Scheduler Sending_Queue
begin

text \<open>
  The invariant of message passing: the flags of a process agree with its \<^verbatim>\<open>p_msg\<close>,
  \<^verbatim>\<open>p_recvfrom\<close> and \<^verbatim>\<open>p_sendto\<close>; the sending queue of a process holds exactly the processes
  blocked sending to it; and the graph of blocked senders has no cycle. Every routine of
  \<^verbatim>\<open>kernel/proc.c\<close> keeps it, and under it none of their assertions fails.
\<close>

section \<open>The invariant\<close>

definition proc_ok :: "nat \<Rightarrow> proc \<Rightarrow> bool" where
  "proc_ok i p \<longleftrightarrow>
     (has_flag p SENDING \<longrightarrow> p_flags p = SENDING \<and> p_msg p \<noteq> 0 \<and> p_recvfrom p = NO_TASK \<and>
        valid_proc_nr (p_sendto p) \<and> p_sendto p \<noteq> int i) \<and>
     (has_flag p RECEIVING \<longrightarrow> p_msg p \<noteq> 0 \<and> p_recvfrom p \<noteq> NO_TASK \<and> p_sendto p = NO_TASK) \<and>
     (p_flags p = 0 \<longrightarrow> p_msg p = 0 \<and> p_recvfrom p = NO_TASK \<and> p_sendto p = NO_TASK)"

definition send_edges :: "proc list \<Rightarrow> (nat \<times> nat) set" where
  "send_edges pt = {(i, j). i < length pt \<and> has_flag (pt ! i) SENDING \<and> p_sendto (pt ! i) = int j}"

definition is_queue :: "proc list \<Rightarrow> nat \<Rightarrow> nat list \<Rightarrow> bool" where
  "is_queue pt d xs \<longleftrightarrow> qpath (next_of pt) (q_sending (pt ! d)) xs"

definition queues_ok :: "proc list \<Rightarrow> bool" where
  "queues_ok pt \<longleftrightarrow>
     (\<forall>d < length pt. \<exists>xs. is_queue pt d xs \<and> set xs = {i. (i, d) \<in> send_edges pt})"

definition ipc_inv :: "proc list \<Rightarrow> bool" where
  "ipc_inv pt \<longleftrightarrow> length pt = NR_TASKS + NR_PROCS \<and> (\<forall>i < length pt. proc_ok i (pt ! i)) \<and>
     queues_ok pt \<and> acyclic (send_edges pt)"

section \<open>Flags\<close>

text \<open>
  The values of a flag test on a known flag word. They are not simp rules by default: with
  \<^const>\<open>proc_ok\<close> unfolded they would rewrite in circles.
\<close>

lemma flag_0: "p_flags p = 0 \<Longrightarrow> \<not> has_flag p f"
  by (simp add: has_flag_def)

lemma flag_SENDING:
  "p_flags p = SENDING \<Longrightarrow> has_flag p SENDING" "p_flags p = SENDING \<Longrightarrow> \<not> has_flag p RECEIVING"
  by (simp_all add: has_flag_def const_simps)

lemma flag_RECEIVING:
  "p_flags p = RECEIVING \<Longrightarrow> has_flag p RECEIVING" "p_flags p = RECEIVING \<Longrightarrow> \<not> has_flag p SENDING"
  by (simp_all add: has_flag_def const_simps)

lemmas flag_tests = flag_0 flag_SENDING flag_RECEIVING

lemma proc_ok_sending:
  assumes "proc_ok i p" and "has_flag p SENDING"
  shows "p_flags p = SENDING" "p_msg p \<noteq> 0" "p_recvfrom p = NO_TASK"
    "valid_proc_nr (p_sendto p)" "p_sendto p \<noteq> int i"
  using assms by (simp_all add: proc_ok_def)

lemma proc_ok_receiving:
  assumes "proc_ok i p" and "has_flag p RECEIVING"
  shows "p_msg p \<noteq> 0" "p_recvfrom p \<noteq> NO_TASK" "p_sendto p = NO_TASK"
  using assms by (simp_all add: proc_ok_def)

lemma proc_ok_idle: "proc_ok i p \<Longrightarrow> p_flags p = 0 \<Longrightarrow> ipc_idle p"
  by (simp add: proc_ok_def ipc_idle_def)

lemma proc_ok_idleI: "ipc_idle p \<Longrightarrow> proc_ok i p"
  by (simp add: proc_ok_def ipc_idle_def flag_0)

lemma flag_values [simp]: "SENDING \<noteq> 0" "RECEIVING \<noteq> 0" "0 \<noteq> SENDING" "0 \<noteq> RECEIVING"
  "SENDING \<noteq> RECEIVING" "RECEIVING \<noteq> SENDING"
  by (simp_all add: const_simps)

section \<open>Process tables that agree on the message-passing fields\<close>

text \<open>
  Scheduling and bookkeeping change ticks and other fields; the invariant only reads these.
\<close>

definition same_ipc :: "proc \<Rightarrow> proc \<Rightarrow> bool" where
  "same_ipc p q \<longleftrightarrow> p_flags p = p_flags q \<and> p_msg p = p_msg q \<and> p_recvfrom p = p_recvfrom q \<and>
     p_sendto p = p_sendto q \<and> q_sending p = q_sending q \<and> next_sending p = next_sending q"

lemma same_ipc_has_flag: "same_ipc p q \<Longrightarrow> has_flag p f = has_flag q f"
  by (simp add: same_ipc_def has_flag_def)

lemma same_ipc_proc_ok: "same_ipc p q \<Longrightarrow> proc_ok i p = proc_ok i q"
  by (simp add: same_ipc_def has_flag_def proc_ok_def)

lemma send_edges_cong:
  assumes len: "length pt = length pt'" and eq: "\<And>i. i < length pt \<Longrightarrow> same_ipc (pt ! i) (pt' ! i)"
  shows "send_edges pt' = send_edges pt"
proof -
  have "(i, j) \<in> send_edges pt' \<longleftrightarrow> (i, j) \<in> send_edges pt" for i j
  proof (cases "i < length pt")
    case True
    then show ?thesis
      using eq [OF True] same_ipc_has_flag [OF eq [OF True], of SENDING] len
      unfolding send_edges_def same_ipc_def by simp
  qed (simp add: send_edges_def len)
  then show ?thesis by auto
qed

lemma ipc_inv_cong:
  assumes len: "length pt = length pt'" and eq: "\<And>i. i < length pt \<Longrightarrow> same_ipc (pt ! i) (pt' ! i)"
    and inv: "ipc_inv pt"
  shows "ipc_inv pt'"
proof -
  have edges: "send_edges pt' = send_edges pt"
    by (rule send_edges_cong [OF len eq])
  have ok: "proc_ok i (pt' ! i)" if "i < length pt'" for i
    using inv same_ipc_proc_ok [OF eq, of i i] that len by (simp add: ipc_inv_def)
  have "queues_ok pt'"
    unfolding queues_ok_def
  proof (intro allI impI)
    fix d assume "d < length pt'"
    then obtain xs where xs: "is_queue pt d xs" "set xs = {i. (i, d) \<in> send_edges pt}"
      using inv len by (auto simp: ipc_inv_def queues_ok_def)
    have "next_of pt x = next_of pt' x" if "x \<in> set xs" for x
      using that xs(2) eq [of x] by (auto simp: send_edges_def same_ipc_def)
    then have "is_queue pt' d xs"
      using xs(1) eq [of d] \<open>d < length pt'\<close> len qpath_cong [of xs "next_of pt" "next_of pt'"]
      by (auto simp: is_queue_def same_ipc_def)
    with xs(2) edges show "\<exists>xs. is_queue pt' d xs \<and> set xs = {i. (i, d) \<in> send_edges pt'}"
      by auto
  qed
  with inv ok edges len show ?thesis by (simp add: ipc_inv_def)
qed

lemma ipc_inv_refill: "ipc_inv pt \<Longrightarrow> ipc_inv (sched_refill pt)"
  by (erule ipc_inv_cong [rotated 2]) (auto simp: same_ipc_def)

section \<open>deadlock\<close>

lemma ipc_invD:
  assumes "ipc_inv pt" and "i < length pt"
  shows "proc_ok i (pt ! i)"
  using assms by (simp add: ipc_inv_def)

lemma send_edge_target:
  assumes "ipc_inv pt" and "(i, j) \<in> send_edges pt"
  shows "j < length pt" "nat (p_sendto (pt ! i)) = j" "p_sendto (pt ! i) = int j"
proof -
  have "i < length pt" "has_flag (pt ! i) SENDING" "p_sendto (pt ! i) = int j"
    using assms(2) by (auto simp: send_edges_def)
  moreover have "valid_proc_nr (p_sendto (pt ! i))"
    using proc_ok_sending(4) [OF ipc_invD [OF assms(1)]] calculation by blast
  moreover have "length pt = NR_TASKS + NR_PROCS"
    using assms(1) by (simp add: ipc_inv_def)
  ultimately show "j < length pt" "nat (p_sendto (pt ! i)) = j" "p_sendto (pt ! i) = int j"
    by (simp_all add: valid_proc_nr_def)
qed

lemma send_edge_intro:
  assumes "ipc_inv pt" and "i < length pt" and "has_flag (pt ! i) SENDING"
  shows "(i, nat (p_sendto (pt ! i))) \<in> send_edges pt"
  using proc_ok_sending(4) [OF ipc_invD [OF assms(1,2)] assms(3)] assms
  by (simp add: send_edges_def valid_proc_nr_def)

lemma wf_send_edges:
  assumes "ipc_inv pt"
  shows "wf ((send_edges pt)\<inverse>)"
proof (rule finite_acyclic_wf_converse)
  have "send_edges pt \<subseteq> {..<length pt} \<times> {..<length pt}"
    using send_edge_target(1) [OF assms] by (auto simp: send_edges_def)
  then show "finite (send_edges pt)"
    by (rule finite_subset) simp
  show "acyclic (send_edges pt)"
    using assms by (simp add: ipc_inv_def)
qed

text \<open>The check ends, and finds exactly the chains of senders from \<open>dest\<close> back to \<open>src\<close>.\<close>

lemma deadlock_loop_iff:
  assumes inv: "ipc_inv pt" and "d < length pt"
  shows "deadlock_loop pt (int s) d = Some ((d, s) \<in> (send_edges pt)\<^sup>+)"
  using wf_send_edges [OF inv] assms(2)
proof (induction d rule: wf_induct_rule)
  case (less d)
  show ?case
  proof (cases "has_flag (pt ! d) SENDING")
    case False
    then have "(d, s) \<notin> (send_edges pt)\<^sup>+"
      by (auto simp: send_edges_def dest: tranclD)
    with False show ?thesis by (subst deadlock_loop.simps) simp
  next
    case True
    define e where "e = nat (p_sendto (pt ! d))"
    have edge: "(d, e) \<in> send_edges pt"
      using send_edge_intro [OF inv less.prems True] by (simp add: e_def)
    have to: "e < length pt" "p_sendto (pt ! d) = int e"
      using send_edge_target [OF inv edge] by auto
    have only: "e' = e" if "(d, e') \<in> send_edges pt" for e'
      using that to by (auto simp: send_edges_def)
    have step: "(d, s) \<in> (send_edges pt)\<^sup>+ \<longleftrightarrow> e = s \<or> (e, s) \<in> (send_edges pt)\<^sup>+"
      using edge only by (metis converse_tranclE r_into_trancl' trancl_into_trancl2)
    show ?thesis
    proof (cases "e = s")
      case True
      with to step \<open>has_flag (pt ! d) SENDING\<close> show ?thesis
        by (subst deadlock_loop.simps) simp
    next
      case False
      then have "deadlock_loop pt (int s) d = deadlock_loop pt (int s) e"
        using to \<open>has_flag (pt ! d) SENDING\<close> by (subst deadlock_loop.simps) simp
      also have "\<dots> = Some ((e, s) \<in> (send_edges pt)\<^sup>+)"
        using less.IH [of e] edge to by simp
      finally show ?thesis using step False by simp
    qed
  qed
qed

text \<open>When a chain is found, printing it ends as well, and no entry of it lacks a message.\<close>

lemma deadlock_chain_ok:
  assumes inv: "ipc_inv pt" and "d < length pt" and "(d, s) \<in> (send_edges pt)\<^sup>+"
  shows "\<exists>xs. deadlock_chain pt (int s) d = Some (Some xs)"
  using wf_send_edges [OF inv] assms(2,3)
proof (induction d rule: wf_induct_rule)
  case (less d)
  from less.prems(2) obtain e where edge: "(d, e) \<in> send_edges pt"
    and rest: "e = s \<or> (e, s) \<in> (send_edges pt)\<^sup>+"
    by (auto elim: converse_tranclE)
  have to: "e < length pt" "nat (p_sendto (pt ! d)) = e"
    using send_edge_target [OF inv edge] by auto
  have msg: "p_msg (pt ! d) \<noteq> 0"
    using proc_ok_sending(2) [OF ipc_invD [OF inv less.prems(1)]] edge by (simp add: send_edges_def)
  show ?case
  proof (cases "e = s")
    case True
    with to msg show ?thesis by (subst deadlock_chain.simps) simp
  next
    case False
    with rest less.IH [of e] edge to obtain xs where "deadlock_chain pt (int s) e = Some (Some xs)"
      by auto
    with False to msg show ?thesis by (subst deadlock_chain.simps) simp
  qed
qed

lemma deadlock_spec:
  assumes "ipc_inv (proc_table k)" and "d < NR_TASKS + NR_PROCS"
  shows "deadlock k (int s) d = Inr ((d, s) \<in> (send_edges (proc_table k))\<^sup>+)"
proof -
  have "d < length (proc_table k)" using assms by (simp add: ipc_inv_def)
  then show ?thesis
    using deadlock_loop_iff [OF assms(1), of d s] deadlock_chain_ok [OF assms(1), of d s]
    by (cases "(d, s) \<in> (send_edges (proc_table k))\<^sup>+") (auto simp: deadlock_def)
qed

end
