(* ===== verification/Ipc_Steps.thy ===== *)
theory Ipc_Steps
  imports Ipc_Invariant
begin

text \<open>
  The three ways a routine of \<^verbatim>\<open>kernel/proc.c\<close> changes the process table, each shown to keep
  \<^const>\<open>ipc_inv\<close>: a process that is not sending changes its state, a process is appended to a
  sending queue, and a sender is taken out of a queue. The sending queue is read as a list by
  \<open>send_queue\<close>.
\<close>

section \<open>Sending queues as lists\<close>

fun follow :: "nat \<Rightarrow> (nat \<Rightarrow> nat option) \<Rightarrow> nat option \<Rightarrow> nat list" where
  "follow (Suc n) nx (Some x) = x # follow n nx (nx x)"
| "follow n nx p = []"

definition send_queue :: "proc list \<Rightarrow> nat \<Rightarrow> nat list" where
  "send_queue pt d = follow (length pt) (next_of pt) (q_sending (pt ! d))"

lemma follow_qpath: "qpath nx p xs \<Longrightarrow> length xs \<le> n \<Longrightarrow> follow n nx p = xs"
proof (induction xs arbitrary: n p)
  case Nil
  then show ?case by (cases n) auto
next
  case (Cons x xs)
  then show ?case by (cases n) auto
qed

lemma length_queue_le:
  assumes "is_queue pt d xs" and "set xs \<subseteq> {..<length pt}"
  shows "length xs \<le> length pt"
proof -
  have "distinct xs" using assms(1) by (auto simp: is_queue_def dest: qpath_distinct)
  then have "length xs = card (set xs)" by (simp add: distinct_card)
  also have "\<dots> \<le> card {..<length pt}" using assms(2) by (intro card_mono) auto
  finally show ?thesis by simp
qed

lemma send_queue_eq:
  assumes "is_queue pt d xs" and "set xs \<subseteq> {..<length pt}"
  shows "send_queue pt d = xs"
  using assms length_queue_le [OF assms] follow_qpath [of "next_of pt" "q_sending (pt ! d)" xs]
  by (simp add: send_queue_def is_queue_def)

lemma send_edges_less: "(i, j) \<in> send_edges pt \<Longrightarrow> i < length pt"
  by (simp add: send_edges_def)

lemma send_queue_is_queue:
  assumes "ipc_inv pt" and "d < length pt"
  shows "is_queue pt d (send_queue pt d)" "set (send_queue pt d) = {i. (i, d) \<in> send_edges pt}"
    "distinct (send_queue pt d)"
proof -
  obtain xs where xs: "is_queue pt d xs" "set xs = {i. (i, d) \<in> send_edges pt}"
    using assms by (auto simp: ipc_inv_def queues_ok_def)
  moreover have "send_queue pt d = xs"
    using xs by (intro send_queue_eq) (auto dest: send_edges_less)
  ultimately show "is_queue pt d (send_queue pt d)" "set (send_queue pt d) = {i. (i, d) \<in> send_edges pt}"
    "distinct (send_queue pt d)"
    by (auto simp: is_queue_def dest: qpath_distinct)
qed

lemma queue_empty_iff:
  assumes "ipc_inv pt" and "d < length pt"
  shows "q_sending (pt ! d) = None \<longleftrightarrow> send_queue pt d = []"
  using send_queue_is_queue(1) [OF assms] by (cases "send_queue pt d") (auto simp: is_queue_def)

text \<open>The invariant from its parts, with the queues given as lists.\<close>

lemma ipc_invI:
  assumes "length pt = NR_TASKS + NR_PROCS" and "\<And>i. i < length pt \<Longrightarrow> proc_ok i (pt ! i)"
    and "\<And>d. d < length pt \<Longrightarrow> is_queue pt d (Q d)"
    and "\<And>d. d < length pt \<Longrightarrow> set (Q d) = {i. (i, d) \<in> send_edges pt}"
    and "acyclic (send_edges pt)"
  shows "ipc_inv pt" and "\<And>d. d < length pt \<Longrightarrow> send_queue pt d = Q d"
proof -
  have "queues_ok pt"
    unfolding queues_ok_def using assms(3,4) by blast
  then show "ipc_inv pt"
    using assms(1,2,5) by (simp add: ipc_inv_def)
  show "send_queue pt d = Q d" if "d < length pt" for d
    using assms(3,4) [OF that] by (intro send_queue_eq) (auto dest: send_edges_less)
qed

lemma is_queue_same:
  assumes "is_queue pt e xs" and "\<And>x. x \<in> set xs \<Longrightarrow> next_sending (pt' ! x) = next_sending (pt ! x)"
    and "q_sending (pt' ! e) = q_sending (pt ! e)"
  shows "is_queue pt' e xs"
  using assms qpath_cong [of xs "next_of pt'" "next_of pt"] by (simp add: is_queue_def)

text \<open>The state of a process as far as transfers are concerned.\<close>

definition same_state :: "proc \<Rightarrow> proc \<Rightarrow> bool" where
  "same_state p q \<longleftrightarrow> p_flags p = p_flags q \<and> p_msg p = p_msg q \<and> p_recvfrom p = p_recvfrom q \<and>
     p_sendto p = p_sendto q"

lemma same_state_has_flag: "same_state p q \<Longrightarrow> has_flag p f = has_flag q f"
  by (simp add: same_state_def has_flag_def)

lemma same_state_proc_ok: "same_state p q \<Longrightarrow> proc_ok i p = proc_ok i q"
  by (simp add: same_state_def has_flag_def proc_ok_def)

lemma same_state_edge:
  "same_state (pt ! i) (pt' ! i) \<Longrightarrow> length pt = length pt' \<Longrightarrow>
     (i, j) \<in> send_edges pt \<longleftrightarrow> (i, j) \<in> send_edges pt'"
  using same_state_has_flag [of "pt ! i" "pt' ! i" SENDING] by (simp add: send_edges_def same_state_def)

lemma no_edge_from: "\<not> has_flag (pt ! i) SENDING \<Longrightarrow> (i, j) \<notin> send_edges pt"
  by (simp add: send_edges_def)

lemma edge_unique: "(i, d) \<in> send_edges pt \<Longrightarrow> (i, e) \<in> send_edges pt \<Longrightarrow> d = e"
  by (simp add: send_edges_def)

section \<open>A process that is not sending changes its state\<close>

lemma ipc_inv_upd:
  assumes inv: "ipc_inv pt" and i: "i < length pt"
    and old: "\<not> has_flag (pt ! i) SENDING" and new: "\<not> has_flag q SENDING" "proc_ok i q"
    and q: "q_sending q = q_sending (pt ! i)"
  shows "ipc_inv (pt[i := q])" and "send_edges (pt[i := q]) = send_edges pt"
    and "\<And>d. d < length pt \<Longrightarrow> send_queue (pt[i := q]) d = send_queue pt d"
proof -
  let ?pt = "pt[i := q]"
  have edge: "(j, d) \<in> send_edges ?pt \<longleftrightarrow> (j, d) \<in> send_edges pt" for j d
    using i old new(1) by (cases "j = i") (simp_all add: send_edges_def)
  then show edges: "send_edges ?pt = send_edges pt" by auto
  have queue: "is_queue ?pt d (send_queue pt d)" if "d < length pt" for d
  proof (rule is_queue_same [OF send_queue_is_queue(1) [OF inv that]])
    fix x assume "x \<in> set (send_queue pt d)"
    then have "x \<noteq> i"
      using send_queue_is_queue(2) [OF inv that] old by (auto simp: no_edge_from)
    then show "next_sending (?pt ! x) = next_sending (pt ! x)" by simp
  next
    show "q_sending (?pt ! d) = q_sending (pt ! d)"
      using q i by (cases "d = i") simp_all
  qed
  have ok: "proc_ok j (?pt ! j)" if "j < length pt" for j
    using ipc_invD [OF inv that] new(2) i by (cases "j = i") simp_all
  have len: "length ?pt = NR_TASKS + NR_PROCS" and acyc: "acyclic (send_edges ?pt)"
    using inv edges by (simp_all add: ipc_inv_def)
  have sets: "set (send_queue pt d) = {i. (i, d) \<in> send_edges ?pt}" if "d < length pt" for d
    using send_queue_is_queue(2) [OF inv that] edges by simp
  note I = ipc_invI [of ?pt "send_queue pt", OF len]
  show "ipc_inv ?pt" by (rule I(1)) (use ok queue sets acyc in auto)
  show "send_queue ?pt d = send_queue pt d" if "d < length pt" for d
    by (rule I(2)) (use ok queue sets acyc that in auto)
qed

section \<open>Appending a sender\<close>

lemma is_queue_append:
  assumes q: "is_queue pt d xs" and s: "s < length pt" "s \<notin> set xs" and xs: "set xs \<subseteq> {..<length pt}"
    and qs: "q_sending (pt' ! d) = (if xs = [] then Some s else q_sending (pt ! d))"
    and nx: "\<And>i. i < length pt \<Longrightarrow>
      next_sending (pt' ! i) = (if i = s then None
        else if xs \<noteq> [] \<and> i = last xs then Some s else next_sending (pt ! i))"
  shows "is_queue pt' d (xs @ [s])"
proof (cases "xs = []")
  case True
  then show ?thesis using qs nx [OF s(1)] by (simp add: is_queue_def)
next
  case False
  then obtain ys t where ys: "xs = ys @ [t]" by (metis append_butlast_last_id)
  let ?nx = "(next_of pt)(t := Some s, s := None)"
  have "qpath ?nx (q_sending (pt ! d)) (ys @ [t, s])"
    using q s(2) ys by (intro qpath_append_tail) (auto simp: is_queue_def)
  moreover have "?nx x = next_of pt' x" if "x \<in> set (ys @ [t, s])" for x
    using nx [of x] that xs ys s(1) by auto
  ultimately have "qpath (next_of pt') (q_sending (pt ! d)) (ys @ [t, s])"
    using qpath_cong [of "ys @ [t, s]" ?nx "next_of pt'"] by metis
  with qs ys show ?thesis by (simp add: is_queue_def)
qed

lemma ipc_inv_append:
  assumes inv: "ipc_inv pt" and s: "s < length pt" "p_flags (pt ! s) = 0"
    and d: "d < length pt" "d \<noteq> s" and nodead: "(d, s) \<notin> (send_edges pt)\<^sup>+"
    and len: "length pt' = length pt"
    and new: "p_flags (pt' ! s) = SENDING" "p_sendto (pt' ! s) = int d" "p_msg (pt' ! s) \<noteq> 0"
      "p_recvfrom (pt' ! s) = NO_TASK"
    and others: "\<And>i. i < length pt \<Longrightarrow> i \<noteq> s \<Longrightarrow> same_state (pt' ! i) (pt ! i)"
    and qs: "\<And>i. i < length pt \<Longrightarrow>
      q_sending (pt' ! i) = (if i = d \<and> send_queue pt d = [] then Some s else q_sending (pt ! i))"
    and nx: "\<And>i. i < length pt \<Longrightarrow>
      next_sending (pt' ! i) = (if i = s then None
        else if send_queue pt d \<noteq> [] \<and> i = last (send_queue pt d) then Some s
        else next_sending (pt ! i))"
  shows "ipc_inv pt'" and "send_edges pt' = insert (s, d) (send_edges pt)"
    and "\<And>e. e < length pt \<Longrightarrow>
      send_queue pt' e = (if e = d then send_queue pt d @ [s] else send_queue pt e)"
proof -
  let ?Q = "\<lambda>e. if e = d then send_queue pt d @ [s] else send_queue pt e"
  note sq = send_queue_is_queue [OF inv]
  have s_free: "(s, e) \<notin> send_edges pt" for e
    using s(2) by (auto simp: send_edges_def flag_0)
  have edge: "(i, e) \<in> send_edges pt' \<longleftrightarrow> (i, e) \<in> insert (s, d) (send_edges pt)" for i e
  proof (cases "i = s")
    case True
    with new(1,2) s(1) len s_free show ?thesis
      by (auto simp: send_edges_def flag_SENDING)
  next
    case False
    then show ?thesis
      using same_state_edge [of pt' i pt e] others [of i] len
      by (cases "i < length pt") (auto dest: send_edges_less)
  qed
  then show edges: "send_edges pt' = insert (s, d) (send_edges pt)" by auto
  have in_range: "x < length pt" if "x \<in> set (send_queue pt e)" "e < length pt" for x e
    using that sq(2) by (auto dest: send_edges_less)
  have s_notin: "s \<notin> set (send_queue pt e)" if "e < length pt" for e
    using sq(2) [OF that] s_free by auto
  have queue: "is_queue pt' e (?Q e)" if e: "e < length pt" for e
  proof (cases "e = d")
    case True
    have "is_queue pt' d (send_queue pt d @ [s])"
      by (rule is_queue_append [OF sq(1) [OF d(1)] s(1)])
        (use s_notin in_range d(1) qs [OF d(1)] nx in auto)
    with True show ?thesis by simp
  next
    case False
    have "next_sending (pt' ! x) = next_sending (pt ! x)" if x: "x \<in> set (send_queue pt e)" for x
    proof -
      have "x \<notin> set (send_queue pt d)"
        using x sq(2) [OF e] sq(2) [OF d(1)] False edge_unique by blast
      moreover have "x \<noteq> s" using x s_notin [OF e] by auto
      ultimately show ?thesis using nx [OF in_range [OF x e]] by auto
    qed
    with qs [OF e] False have "is_queue pt' e (send_queue pt e)"
      by (intro is_queue_same [OF sq(1) [OF e]]) auto
    with False show ?thesis by simp
  qed
  have sets: "set (?Q e) = {i. (i, e) \<in> send_edges pt'}" if "e < length pt" for e
    using sq(2) [OF that] edges by auto
  have ok: "proc_ok i (pt' ! i)" if "i < length pt" for i
  proof (cases "i = s")
    case True
    with new s d inv show ?thesis
      by (simp add: proc_ok_def flag_SENDING valid_proc_nr_def ipc_inv_def)
  next
    case False
    with ipc_invD [OF inv that] same_state_proc_ok [OF others [OF that]] show ?thesis by simp
  qed
  have acyc: "acyclic (send_edges pt')"
    using inv nodead d(2) by (auto simp: edges ipc_inv_def rtrancl_eq_or_trancl)
  have len37: "length pt' = NR_TASKS + NR_PROCS" using inv len by (simp add: ipc_inv_def)
  note I = ipc_invI [of pt' ?Q, OF len37]
  show "ipc_inv pt'" by (rule I(1)) (use ok queue sets acyc len in auto)
  show "send_queue pt' e = ?Q e" if "e < length pt" for e
    by (rule I(2)) (use ok queue sets acyc len that in auto)
qed

section \<open>Removing a sender\<close>

lemma is_queue_remove:
  assumes q: "is_queue pt r (ys @ f # zs)" and range: "set (ys @ f # zs) \<subseteq> {..<length pt}"
    and qs: "q_sending (pt' ! r) = (if ys = [] then next_sending (pt ! f) else q_sending (pt ! r))"
    and nx: "\<And>i. i < length pt \<Longrightarrow>
      next_sending (pt' ! i) = (if i = f then None
        else if ys \<noteq> [] \<and> i = last ys then next_sending (pt ! f) else next_sending (pt ! i))"
  shows "is_queue pt' r (ys @ zs)"
proof -
  have dist: "distinct (ys @ f # zs)"
    using q unfolding is_queue_def by (rule qpath_distinct)
  show ?thesis
  proof (cases "ys = []")
    case True
    have "qpath ((next_of pt)(f := None)) (next_sending (pt ! f)) zs"
      using q True qpath_remove_first [of "next_of pt" "q_sending (pt ! r)" f zs]
      by (simp add: is_queue_def)
    moreover have "((next_of pt)(f := None)) x = next_of pt' x" if "x \<in> set zs" for x
      using nx [of x] that range True by auto
    ultimately show ?thesis
      using qs True qpath_cong [of zs "(next_of pt)(f := None)" "next_of pt'"]
      by (simp add: is_queue_def)
  next
    case False
    then obtain us v where ys: "ys = us @ [v]" by (metis append_butlast_last_id)
    let ?nx = "(next_of pt)(v := next_sending (pt ! f), f := None)"
    have "qpath ?nx (q_sending (pt ! r)) (us @ [v] @ zs)"
      using q ys by (intro qpath_remove_later) (simp add: is_queue_def)
    moreover have "?nx x = next_of pt' x" if "x \<in> set (us @ [v] @ zs)" for x
      using nx [of x] that range ys dist by auto
    ultimately show ?thesis
      using qs ys qpath_cong [of "us @ [v] @ zs" ?nx "next_of pt'"] by (simp add: is_queue_def)
  qed
qed

lemma ipc_inv_remove:
  assumes inv: "ipc_inv pt" and r: "r < length pt" and queue: "send_queue pt r = ys @ f # zs"
    and len: "length pt' = length pt" and idle: "ipc_idle (pt' ! f)"
    and others: "\<And>i. i < length pt \<Longrightarrow> i \<noteq> f \<Longrightarrow> same_state (pt' ! i) (pt ! i)"
    and qs: "\<And>i. i < length pt \<Longrightarrow>
      q_sending (pt' ! i) = (if i = r \<and> ys = [] then next_sending (pt ! f) else q_sending (pt ! i))"
    and nx: "\<And>i. i < length pt \<Longrightarrow>
      next_sending (pt' ! i) = (if i = f then None
        else if ys \<noteq> [] \<and> i = last ys then next_sending (pt ! f) else next_sending (pt ! i))"
  shows "ipc_inv pt'" and "send_edges pt' = send_edges pt - {(f, r)}"
    and "\<And>e. e < length pt \<Longrightarrow> send_queue pt' e = (if e = r then ys @ zs else send_queue pt e)"
proof -
  let ?Q = "\<lambda>e. if e = r then ys @ zs else send_queue pt e"
  note sq = send_queue_is_queue [OF inv]
  have dist: "distinct (ys @ f # zs)" using sq(3) [OF r] queue by simp
  have f_edge: "(f, r) \<in> send_edges pt" using sq(2) [OF r] queue by auto
  have in_range: "x < length pt" if "x \<in> set (send_queue pt e)" "e < length pt" for x e
    using that sq(2) by (auto dest: send_edges_less)
  have edge: "(i, e) \<in> send_edges pt' \<longleftrightarrow> (i, e) \<in> send_edges pt - {(f, r)}" for i e
  proof (cases "i = f")
    case True
    have "(f, e) \<notin> send_edges pt'" using idle by (simp add: send_edges_def flag_0 ipc_idle_def)
    then show ?thesis using True edge_unique [OF f_edge, of e] by auto
  next
    case False
    then show ?thesis
      using same_state_edge [of pt' i pt e] others [of i] len
      by (cases "i < length pt") (auto dest: send_edges_less)
  qed
  then show edges: "send_edges pt' = send_edges pt - {(f, r)}" by auto
  have is_q: "is_queue pt' e (?Q e)" if e: "e < length pt" for e
  proof (cases "e = r")
    case True
    have "is_queue pt' r (ys @ zs)"
      by (rule is_queue_remove [of pt r ys f zs])
        (use sq(1) [OF r] queue in_range [OF _ r] qs [OF r] nx in auto)
    with True show ?thesis by simp
  next
    case False
    have "next_sending (pt' ! x) = next_sending (pt ! x)" if x: "x \<in> set (send_queue pt e)" for x
    proof -
      have "x \<notin> set (ys @ f # zs)"
        using x sq(2) [OF e] sq(2) [OF r] queue False edge_unique by (metis mem_Collect_eq)
      then show ?thesis using nx [OF in_range [OF x e]] by (auto split: if_splits)
    qed
    with qs [OF e] False have "is_queue pt' e (send_queue pt e)"
      by (intro is_queue_same [OF sq(1) [OF e]]) auto
    with False show ?thesis by simp
  qed
  have sets: "set (?Q e) = {i. (i, e) \<in> send_edges pt'}" if "e < length pt" for e
  proof (cases "e = r")
    case True
    have "set (ys @ zs) = set (ys @ f # zs) - {f}" using dist by auto
    also have "\<dots> = {i. (i, r) \<in> send_edges pt} - {f}" using sq(2) [OF r] queue by metis
    finally show ?thesis using True edges by auto
  qed (use sq(2) [OF that] edges in auto)
  have ok: "proc_ok i (pt' ! i)" if "i < length pt" for i
    using ipc_invD [OF inv that] same_state_proc_ok [OF others [OF that]] proc_ok_idleI [OF idle]
    by (cases "i = f") simp_all
  have acyc: "acyclic (send_edges pt')"
    using inv by (auto simp: edges ipc_inv_def intro: acyclic_subset)
  have len37: "length pt' = NR_TASKS + NR_PROCS" using inv len by (simp add: ipc_inv_def)
  note I = ipc_invI [of pt' ?Q, OF len37]
  show "ipc_inv pt'" by (rule I(1)) (use ok is_q sets acyc len in auto)
  show "send_queue pt' e = ?Q e" if "e < length pt" for e
    by (rule I(2)) (use ok is_q sets acyc len that in auto)
qed

end
