(* ===== verification/Ipc.thy ===== *)
theory Ipc
  imports Ipc_Steps
begin

text \<open>
  Message passing against its specification. The abstract state gives every process a status and
  a FIFO list of the processes waiting to send to it; \<open>spec_send\<close>, \<open>spec_receive\<close> and
  \<open>spec_interrupt\<close> are the operations the kernel promises. Each routine of \<^verbatim>\<open>kernel/proc.c\<close> is
  shown to implement its operation from every state of the invariant \<open>kinv\<close>, to keep the invariant,
  and to fail none of its assertions.
\<close>

section \<open>The specification\<close>

datatype pstatus = Ready | SendsTo nat | ReceivesFrom int | Stopped u32

record ipc_state =
  status :: "pstatus list"
  waiting :: "nat list list"
  pending :: "bool list"

definition status_of :: "proc \<Rightarrow> pstatus" where
  "status_of p =
     (if p_flags p = 0 then Ready
      else if has_flag p SENDING then SendsTo (nat (p_sendto p))
      else if p_flags p = RECEIVING then ReceivesFrom (p_recvfrom p)
      else Stopped (p_flags p))"

definition abs_ipc :: "'a kernel_scheme \<Rightarrow> ipc_state" where
  "abs_ipc k =
     \<lparr>status = map status_of (proc_table k),
      waiting = map (send_queue (proc_table k)) [0..<length (proc_table k)],
      pending = map (\<lambda>p. has_int_msg p \<noteq> 0) (proc_table k)\<rparr>"

text \<open>Who waits for whom to receive.\<close>

definition waits_on :: "ipc_state \<Rightarrow> (nat \<times> nat) set" where
  "waits_on \<sigma> = {(i, j). i < length (status \<sigma>) \<and> status \<sigma> ! i = SendsTo j}"

definition accepts :: "pstatus \<Rightarrow> nat \<Rightarrow> bool" where
  "accepts st s \<longleftrightarrow> st = ReceivesFrom (int s) \<or> st = ReceivesFrom ANY"

definition spec_send :: "nat \<Rightarrow> nat \<Rightarrow> ipc_state \<Rightarrow> ipc_state option" where
  "spec_send s d \<sigma> =
     (if (d, s) \<in> (waits_on \<sigma>)\<^sup>+ then None
      else if accepts (status \<sigma> ! d) s then Some (\<sigma>\<lparr>status := (status \<sigma>)[d := Ready]\<rparr>)
      else Some (\<sigma>\<lparr>status := (status \<sigma>)[s := SendsTo d],
                  waiting := (waiting \<sigma>)[d := waiting \<sigma> ! d @ [s]]\<rparr>))"

text \<open>The sender a RECEIVE takes: the first one for \<^const>\<open>ANY\<close>, or the one that is named.\<close>

definition spec_pick :: "nat list \<Rightarrow> int \<Rightarrow> nat option" where
  "spec_pick ws src =
     (if src = ANY then (case ws of [] \<Rightarrow> None | w # _ \<Rightarrow> Some w)
      else if 0 \<le> src \<and> nat src \<in> set ws then Some (nat src) else None)"

definition spec_receive :: "nat \<Rightarrow> int \<Rightarrow> ipc_state \<Rightarrow> ipc_state" where
  "spec_receive r src \<sigma> =
     (if pending \<sigma> ! r \<and> (src = ANY \<or> src = INTERRUPT) then
        \<sigma>\<lparr>pending := (pending \<sigma>)[r := False]\<rparr>
      else (case spec_pick (waiting \<sigma> ! r) src of
        Some f \<Rightarrow> \<sigma>\<lparr>status := (status \<sigma>)[f := Ready],
                    waiting := (waiting \<sigma>)[r := remove1 f (waiting \<sigma> ! r)]\<rparr>
      | None \<Rightarrow> \<sigma>\<lparr>status := (status \<sigma>)[r := ReceivesFrom src]\<rparr>))"

definition spec_interrupt :: "nat \<Rightarrow> ipc_state \<Rightarrow> ipc_state" where
  "spec_interrupt t \<sigma> =
     (if status \<sigma> ! t = ReceivesFrom INTERRUPT \<or> status \<sigma> ! t = ReceivesFrom ANY then
        \<sigma>\<lparr>status := (status \<sigma>)[t := Ready], pending := (pending \<sigma>)[t := False]\<rparr>
      else \<sigma>\<lparr>pending := (pending \<sigma>)[t := True]\<rparr>)"

section \<open>The kernel invariant\<close>

definition seg_base :: "'a kernel_scheme \<Rightarrow> nat \<Rightarrow> u32" where
  "seg_base k i = ldt_seg_linear (proc_of k i) INDEX_LDT_RW"

definition linear :: "'a kernel_scheme \<Rightarrow> nat \<Rightarrow> u32 \<Rightarrow> u32" where
  "linear k i va = seg_base k i + va"

definition kinv :: "'a kernel_scheme \<Rightarrow> bool" where
  "kinv k \<longleftrightarrow> ipc_inv (proc_table k) \<and> (\<forall>i < NR_TASKS + NR_NATIVE_PROCS. seg_base k i = 0)"

text \<open>A receiving process is in no other state; \<^verbatim>\<open>mm\<close> adds flags only to its own clients.\<close>

definition plain_receiver :: "proc \<Rightarrow> bool" where
  "plain_receiver p \<longleftrightarrow> (has_flag p RECEIVING \<longrightarrow> p_flags p = RECEIVING)"

lemma kinvD:
  assumes "kinv k"
  shows "ipc_inv (proc_table k)" "length (proc_table k) = NR_TASKS + NR_PROCS"
  using assms by (simp_all add: kinv_def ipc_inv_def)

lemma va2la_linear: "kinv k \<Longrightarrow> va2la k i va = Inr (linear k i va)"
  by (simp add: va2la_def linear_def seg_base_def kinv_def Let_def)

lemma kinv_cong:
  assumes "kinv k" and "ipc_inv (proc_table k')"
    and "\<And>i. i < NR_TASKS + NR_NATIVE_PROCS \<Longrightarrow> ldts (proc_of k' i) = ldts (proc_of k i)"
  shows "kinv k'"
  using assms by (simp add: kinv_def seg_base_def ldt_seg_linear_def)

section \<open>Updating one process\<close>

lemma upd_proc_simps [simp]:
  "length (proc_table (upd_proc k i f)) = length (proc_table k)"
  "mem (upd_proc k i f) = mem k" "p_proc_ready (upd_proc k i f) = p_proc_ready k"
  "k_reenter (upd_proc k i f) = k_reenter k" "k_ticks (upd_proc k i f) = k_ticks k"
  "key_pressed (upd_proc k i f) = key_pressed k"
  by (simp_all add: upd_proc_def)

lemma proc_of_upd_proc [simp]:
  "i < length (proc_table k) \<Longrightarrow>
     proc_of (upd_proc k i f) j = (if j = i then f (proc_of k i) else proc_of k j)"
  by (simp add: upd_proc_def)

lemma proc_table_upd_proc:
  "proc_table (upd_proc k i f) = (proc_table k)[i := f (proc_of k i)]"
  by (simp add: upd_proc_def)

lemma status_nth [simp]:
  "i < length (proc_table k) \<Longrightarrow> status (abs_ipc k) ! i = status_of (proc_of k i)"
  by (simp add: abs_ipc_def)

lemma waiting_nth [simp]:
  "i < length (proc_table k) \<Longrightarrow> waiting (abs_ipc k) ! i = send_queue (proc_table k) i"
  by (simp add: abs_ipc_def)

lemma pending_nth [simp]:
  "i < length (proc_table k) \<Longrightarrow> pending (abs_ipc k) ! i \<longleftrightarrow> has_int_msg (proc_of k i) \<noteq> 0"
  by (simp add: abs_ipc_def)

lemma length_abs [simp]:
  "length (status (abs_ipc k)) = length (proc_table k)"
  "length (waiting (abs_ipc k)) = length (proc_table k)"
  "length (pending (abs_ipc k)) = length (proc_table k)"
  by (simp_all add: abs_ipc_def)

lemma ipc_state_eqI:
  fixes \<sigma> \<tau> :: ipc_state
  assumes "length (status \<sigma>) = n" "length (waiting \<sigma>) = n" "length (pending \<sigma>) = n"
    and "length (status \<tau>) = n" "length (waiting \<tau>) = n" "length (pending \<tau>) = n"
    and "\<And>i. i < n \<Longrightarrow> status \<sigma> ! i = status \<tau> ! i"
    and "\<And>i. i < n \<Longrightarrow> waiting \<sigma> ! i = waiting \<tau> ! i"
    and "\<And>i. i < n \<Longrightarrow> pending \<sigma> ! i = pending \<tau> ! i"
  shows "\<sigma> = \<tau>"
proof -
  have "status \<sigma> = status \<tau>" "waiting \<sigma> = waiting \<tau>" "pending \<sigma> = pending \<tau>"
    using assms by (auto intro: nth_equalityI)
  then show ?thesis by (cases \<sigma>; cases \<tau>) simp
qed

section \<open>Status and flags\<close>

lemma SendsTo_iff:
  "status_of p = SendsTo j \<longleftrightarrow> has_flag p SENDING \<and> nat (p_sendto p) = j"
  by (auto simp: status_of_def has_flag_def)

lemma status_of_receiving:
  assumes "plain_receiver p"
  shows "status_of p = ReceivesFrom x \<longleftrightarrow> has_flag p RECEIVING \<and> p_recvfrom p = x"
proof (cases "has_flag p RECEIVING")
  case True
  with assms have "p_flags p = RECEIVING" by (simp add: plain_receiver_def)
  then show ?thesis by (simp add: status_of_def flag_RECEIVING)
next
  case False
  then have "p_flags p \<noteq> RECEIVING" by (auto simp: flag_RECEIVING)
  with False show ?thesis by (simp add: status_of_def)
qed

lemma waits_on_abs:
  assumes "kinv k"
  shows "waits_on (abs_ipc k) = send_edges (proc_table k)"
proof -
  have "(i, j) \<in> waits_on (abs_ipc k) \<longleftrightarrow> (i, j) \<in> send_edges (proc_table k)" for i j
  proof (cases "i < length (proc_table k) \<and> has_flag (proc_of k i) SENDING")
    case True
    then have "0 \<le> p_sendto (proc_of k i)"
      using proc_ok_sending(4) [OF ipc_invD [OF kinvD(1) [OF assms]]] by (auto simp: valid_proc_nr_def)
    with True show ?thesis by (auto simp: waits_on_def send_edges_def SendsTo_iff)
  qed (auto simp: waits_on_def send_edges_def SendsTo_iff)
  then show ?thesis by auto
qed

lemma accepts_iff:
  "plain_receiver p \<Longrightarrow> accepts (status_of p) s \<longleftrightarrow>
     has_flag p RECEIVING \<and> (p_recvfrom p = int s \<or> p_recvfrom p = ANY)"
  by (auto simp: accepts_def status_of_receiving)

section \<open>Scheduling keeps the abstract state\<close>

lemma send_queue_same:
  assumes inv: "ipc_inv pt" and d: "d < length pt" and len: "length pt' = length pt"
    and links: "\<And>i. i < length pt \<Longrightarrow> q_sending (pt' ! i) = q_sending (pt ! i)"
      "\<And>i. i < length pt \<Longrightarrow> next_sending (pt' ! i) = next_sending (pt ! i)"
  shows "send_queue pt' d = send_queue pt d"
proof -
  note sq = send_queue_is_queue [OF inv d]
  have range: "set (send_queue pt d) \<subseteq> {..<length pt'}"
    using sq(2) len by (auto dest: send_edges_less)
  moreover have "is_queue pt' d (send_queue pt d)"
    using range len links d by (intro is_queue_same [OF sq(1)]) auto
  ultimately show ?thesis by (intro send_queue_eq)
qed

text \<open>Two kernel states that agree on everything message passing looks at.\<close>

lemma abs_cong:
  assumes inv: "ipc_inv (proc_table k)" and len: "length (proc_table k') = length (proc_table k)"
    and same: "\<And>i. i < length (proc_table k) \<Longrightarrow> same_ipc (proc_of k i) (proc_of k' i) \<and>
      has_int_msg (proc_of k' i) = has_int_msg (proc_of k i)"
  shows "ipc_inv (proc_table k')" "abs_ipc k' = abs_ipc k"
proof -
  show "ipc_inv (proc_table k')"
    using len same by (intro ipc_inv_cong [OF _ _ inv]) auto
  show "abs_ipc k' = abs_ipc k"
  proof (rule ipc_state_eqI [of _ "length (proc_table k)"])
    fix i assume i: "i < length (proc_table k)"
    show "waiting (abs_ipc k') ! i = waiting (abs_ipc k) ! i"
      using i len same send_queue_same [OF inv i len] by (simp add: same_ipc_def)
    show "status (abs_ipc k') ! i = status (abs_ipc k) ! i"
      using i len same [OF i] by (simp add: status_of_def has_flag_def same_ipc_def)
    show "pending (abs_ipc k') ! i = pending (abs_ipc k) ! i"
      using i len same [OF i] by simp
  qed (simp_all add: len)
qed

lemma ticks_same: "\<exists>t. p = (p :: proc)\<lparr>p_ticks := t\<rparr>"
  by (rule exI [of _ "p_ticks p"]) simp

text \<open>
  What a client may rely on when a routine ends in \<^const>\<open>schedule\<close>: either nothing can run, or
  the state is the one before as far as message passing is concerned, with the best process chosen.
\<close>

lemma schedule_outcome:
  assumes "kinv k"
  obtains (spins) "schedule k = Inl Spins"
      "\<forall>p \<in> set (proc_table k). runnable p \<longrightarrow> p_ticks p \<le> 0 \<and> priority p \<le> 0"
  | (chosen) k' where "schedule k = Inr k'" "kinv k'" "abs_ipc k' = abs_ipc k" "mem k' = mem k"
      "k_reenter k' = k_reenter k" "best_choice (proc_table k') (p_proc_ready k')"
      "\<And>i. i < length (proc_table k) \<Longrightarrow> \<exists>t. proc_of k' i = (proc_of k i)\<lparr>p_ticks := t\<rparr>"
proof (cases k rule: schedule_cases)
  case first
  then show thesis
    using assms by (intro chosen [OF first(2)])
      (auto simp: kinv_def seg_base_def abs_ipc_def ticks_same)
next
  case (refill r)
  let ?k = "k\<lparr>proc_table := sched_refill (proc_table k), p_proc_ready := r\<rparr>"
  have cong: "ipc_inv (proc_table ?k)" "abs_ipc ?k = abs_ipc k"
    by (rule abs_cong [OF kinvD(1) [OF assms]]; simp add: same_ipc_def)+
  have "kinv ?k"
    using kinvD(2) [OF assms] by (intro kinv_cong [OF assms cong(1)]) simp
  then show thesis
    using cong refill(3) by (intro chosen [OF refill(2)]) (auto simp: ticks_same)
next
  case spins
  then show thesis by (rule that(1))
qed

section \<open>msg_send\<close>

text \<open>The state after a message is handed to a waiting receiver.\<close>

definition delivered :: "'a kernel_scheme \<Rightarrow> nat \<Rightarrow> nat \<Rightarrow> u32 \<Rightarrow> 'a kernel_scheme" where
  "delivered k s d m =
     upd_proc (k\<lparr>mem := phys_copy (mem k) (linear k d (p_msg (proc_of k d))) (linear k s m) MESSAGE_SIZE\<rparr>)
       d (\<lambda>p. p\<lparr>p_msg := 0, p_flags := p_flags p AND NOT RECEIVING, p_recvfrom := NO_TASK\<rparr>)"

text \<open>The state after the sender is put into the queue of its destination.\<close>

definition enqueued :: "'a kernel_scheme \<Rightarrow> nat \<Rightarrow> nat \<Rightarrow> u32 \<Rightarrow> 'a kernel_scheme" where
  "enqueued k s d m =
     (let k2 = upd_proc k s (\<lambda>p. p\<lparr>p_flags := SENDING, p_sendto := int d, p_msg := m\<rparr>);
          k3 = (if send_queue (proc_table k) d = []
                then upd_proc k2 d (\<lambda>p. p\<lparr>q_sending := Some s\<rparr>)
                else upd_proc k2 (last (send_queue (proc_table k) d)) (\<lambda>p. p\<lparr>next_sending := Some s\<rparr>))
      in upd_proc k3 s (\<lambda>p. p\<lparr>next_sending := None\<rparr>))"

lemma msg_send_delivers:
  assumes k: "kinv k" and s: "s < NR_TASKS + NR_PROCS" "p_flags (proc_of k s) = 0" and m: "m \<noteq> 0"
    and d: "d < NR_TASKS + NR_PROCS" "d \<noteq> s" "plain_receiver (proc_of k d)"
    and acc: "accepts (status_of (proc_of k d)) s"
  shows "msg_send k s (int d) m = Inr (delivered k s d m)"
proof -
  have len: "length (proc_table k) = NR_TASKS + NR_PROCS" by (rule kinvD(2) [OF k])
  have recv: "has_flag (proc_of k d) RECEIVING"
    "p_recvfrom (proc_of k d) = int s \<or> p_recvfrom (proc_of k d) = ANY"
    using acc accepts_iff [OF d(3)] by blast+
  have fl: "p_flags (proc_of k d) = RECEIVING"
    using d(3) recv(1) by (simp add: plain_receiver_def)
  have ok: "p_msg (proc_of k d) \<noteq> 0" "p_sendto (proc_of k d) = NO_TASK"
    using proc_ok_receiving [OF ipc_invD [OF kinvD(1) [OF k]] recv(1)] d(1) len by auto
  have idle: "ipc_idle (proc_of k s)"
    using proc_ok_idle [OF ipc_invD [OF kinvD(1) [OF k]]] s len by simp
  have "(d, s) \<notin> (send_edges (proc_table k))\<^sup>+"
    using flag_RECEIVING(2) [OF fl] by (auto simp: send_edges_def dest: tranclD)
  then have dl: "deadlock k (int s) d = Inr False"
    using deadlock_spec [OF kinvD(1) [OF k] d(1), of s] by simp
  show ?thesis
    using dl d(1,2) recv fl ok m idle len
    by (simp add: msg_send_def valid_proc_nr_def va2la_linear [OF k] Let_def unblock_def ipc_idle_def
        delivered_def)
qed

lemma enqueued_spec:
  assumes k: "kinv k" and s: "s < NR_TASKS + NR_PROCS" "p_flags (proc_of k s) = 0" and m: "m \<noteq> 0"
    and d: "d < NR_TASKS + NR_PROCS" "d \<noteq> s"
    and nodead: "(d, s) \<notin> (send_edges (proc_table k))\<^sup>+"
  shows "kinv (enqueued k s d m)"
    and "send_edges (proc_table (enqueued k s d m)) = insert (s, d) (send_edges (proc_table k))"
    and "\<And>e. e < NR_TASKS + NR_PROCS \<Longrightarrow> send_queue (proc_table (enqueued k s d m)) e =
      (if e = d then send_queue (proc_table k) d @ [s] else send_queue (proc_table k) e)"
    and "\<And>i. proc_of (enqueued k s d m) i = (proc_of k i)\<lparr>
      p_flags := if i = s then SENDING else p_flags (proc_of k i),
      p_sendto := if i = s then int d else p_sendto (proc_of k i),
      p_msg := if i = s then m else p_msg (proc_of k i),
      q_sending := if i = d \<and> send_queue (proc_table k) d = [] then Some s else q_sending (proc_of k i),
      next_sending := if i = s then None
        else if send_queue (proc_table k) d \<noteq> [] \<and> i = last (send_queue (proc_table k) d) then Some s
        else next_sending (proc_of k i)\<rparr>"
proof -
  let ?k = "enqueued k s d m"
  note inv = kinvD(1) [OF k] and len = kinvD(2) [OF k]
  have idle: "ipc_idle (proc_of k s)"
    using proc_ok_idle [OF ipc_invD [OF inv]] s len by simp
  note sq = send_queue_is_queue [OF inv, of d]
  have last: "last (send_queue (proc_table k) d) < length (proc_table k)"
    "last (send_queue (proc_table k) d) \<noteq> s" if "send_queue (proc_table k) d \<noteq> []"
  proof -
    have "(last (send_queue (proc_table k) d), d) \<in> send_edges (proc_table k)"
      using sq(2) d(1) len last_in_set [OF that] by auto
    then show "last (send_queue (proc_table k) d) < length (proc_table k)"
      "last (send_queue (proc_table k) d) \<noteq> s"
      using s(2) by (auto simp: send_edges_def flag_0)
  qed
  show eq: "proc_of ?k i = (proc_of k i)\<lparr>
      p_flags := if i = s then SENDING else p_flags (proc_of k i),
      p_sendto := if i = s then int d else p_sendto (proc_of k i),
      p_msg := if i = s then m else p_msg (proc_of k i),
      q_sending := if i = d \<and> send_queue (proc_table k) d = [] then Some s else q_sending (proc_of k i),
      next_sending := if i = s then None
        else if send_queue (proc_table k) d \<noteq> [] \<and> i = last (send_queue (proc_table k) d) then Some s
        else next_sending (proc_of k i)\<rparr>" for i
    using s(1) d len last by (auto simp: enqueued_def Let_def)
  have len': "length (proc_table ?k) = length (proc_table k)"
    by (simp add: enqueued_def Let_def)
  note A = ipc_inv_append [OF inv _ s(2) _ d(2) nodead len']
  have I: "ipc_inv (proc_table ?k)"
    by (rule A(1)) (use s d len m idle eq in \<open>auto simp: same_state_def ipc_idle_def\<close>)
  show "send_edges (proc_table ?k) = insert (s, d) (send_edges (proc_table k))"
    by (rule A(2)) (use s d len m idle eq in \<open>auto simp: same_state_def ipc_idle_def\<close>)
  show "send_queue (proc_table ?k) e =
      (if e = d then send_queue (proc_table k) d @ [s] else send_queue (proc_table k) e)"
    if "e < NR_TASKS + NR_PROCS" for e
    by (rule A(3)) (use s d len m idle eq that in \<open>auto simp: same_state_def ipc_idle_def\<close>)
  show "kinv ?k"
    by (rule kinv_cong [OF k I]) (simp add: eq)
qed

lemma append_sending_enqueued:
  assumes k: "kinv k" and s: "s < NR_TASKS + NR_PROCS" "p_flags (proc_of k s) = 0"
    and d: "d < NR_TASKS + NR_PROCS" "d \<noteq> s"
  shows "append_sending (upd_proc k s (\<lambda>p. p\<lparr>p_flags := SENDING, p_sendto := int d, p_msg := m\<rparr>)) d s
    = Inr (enqueued k s d m)" (is "append_sending ?k d s = _")
proof -
  note inv = kinvD(1) [OF k] and len = kinvD(2) [OF k]
  have dl: "d < length (proc_table k)" using d(1) len by simp
  note sq = send_queue_is_queue [OF inv dl]
  show ?thesis
  proof (cases "send_queue (proc_table k) d")
    case Nil
    then have "q_sending (proc_of k d) = None"
      using queue_empty_iff [OF inv dl] by simp
    with Nil s(1) d len show ?thesis
      by (simp add: append_sending_def enqueued_def Let_def)
  next
    case (Cons x xs)
    then have first: "q_sending (proc_of k d) = Some x"
      using sq(1) by (simp add: is_queue_def)
    have notin: "s \<notin> set (x # xs)"
      using sq(2) Cons s(2) by (auto simp: send_edges_def flag_0)
    have "qpath (next_of (proc_table ?k)) (Some x) (x # xs) = qpath (next_of (proc_table k)) (Some x) (x # xs)"
      by (rule qpath_cong) (use s(1) len in simp)
    also have "\<dots>" using sq(1) Cons first by (simp add: is_queue_def)
    finally have "queue_tail (proc_table ?k) x = Some (last (x # xs))"
      by (rule queue_tail_last)
    with first Cons s(1) d len show ?thesis
      by (simp add: append_sending_def enqueued_def Let_def)
  qed
qed

lemma msg_send_blocks:
  assumes k: "kinv k" and s: "s < NR_TASKS + NR_PROCS" "p_flags (proc_of k s) = 0" and m: "m \<noteq> 0"
    and d: "d < NR_TASKS + NR_PROCS" "d \<noteq> s" "plain_receiver (proc_of k d)"
    and nacc: "\<not> accepts (status_of (proc_of k d)) s"
    and nodead: "(d, s) \<notin> (send_edges (proc_table k))\<^sup>+"
  shows "msg_send k s (int d) m = schedule (enqueued k s d m)"
proof -
  note inv = kinvD(1) [OF k] and len = kinvD(2) [OF k]
  let ?k = "enqueued k s d m"
  note E = enqueued_spec [OF k s m d(1,2) nodead]
  have idle: "ipc_idle (proc_of k s)"
    using proc_ok_idle [OF ipc_invD [OF inv]] s len by simp
  have dl: "deadlock k (int s) d = Inr False"
    using deadlock_spec [OF inv d(1), of s] nodead by simp
  have nrecv: "\<not> (has_flag (proc_of k d) RECEIVING \<and>
      (p_recvfrom (proc_of k d) = int s \<or> p_recvfrom (proc_of k d) = ANY))"
    using nacc accepts_iff [OF d(3)] by blast
  have upd: "upd_proc (upd_proc k s (\<lambda>p. p\<lparr>p_flags := p_flags p OR SENDING\<rparr>)) s
      (\<lambda>p. p\<lparr>p_sendto := int d, p_msg := m\<rparr>)
      = upd_proc k s (\<lambda>p. p\<lparr>p_flags := SENDING, p_sendto := int d, p_msg := m\<rparr>)"
    using s len by (simp add: upd_proc_def)
  have step: "msg_send k s (int d) m = res_bind (schedule ?k) (\<lambda>k4.
      kassert (p_flags (proc_of k4 s) = SENDING \<and> p_msg (proc_of k4 s) \<noteq> 0 \<and>
        p_recvfrom (proc_of k4 s) = NO_TASK \<and> p_sendto (proc_of k4 s) = int d)
        ''msg_send: blocked sender'' (Inr k4))"
    using dl d(1,2) nrecv s len E(4) append_sending_enqueued [OF k s d(1,2), of m]
    unfolding msg_send_def by (auto simp: valid_proc_nr_def Let_def upd block_def)
  have len': "length (proc_table ?k) = length (proc_table k)"
    by (simp add: enqueued_def Let_def)
  show ?thesis
  proof (cases ?k rule: schedule_outcome [case_names kinv spins chosen])
    case kinv
    show ?case by (rule E(1))
  next
    case spins
    with step show ?thesis by simp
  next
    case (chosen k')
    from chosen(7) [of s] obtain t where "proc_of k' s = (proc_of ?k s)\<lparr>p_ticks := t\<rparr>"
      using s(1) len len' by auto
    with E(4) [of s] step chosen(1) m idle show ?thesis
      by (simp add: ipc_idle_def)
  qed
qed

text \<open>A receiving process is woken up: the invariant and the abstract state.\<close>

lemma wake_spec:
  assumes k: "kinv k" and d: "d < NR_TASKS + NR_PROCS" "p_flags (proc_of k d) = RECEIVING"
    and k': "proc_table k' = (proc_table k)[d := q]"
    and q: "ipc_idle q" "q_sending q = q_sending (proc_of k d)" "ldts q = ldts (proc_of k d)"
  shows "kinv k'"
    and "abs_ipc k' = (abs_ipc k)\<lparr>status := (status (abs_ipc k))[d := Ready],
      pending := (pending (abs_ipc k))[d := has_int_msg q \<noteq> 0]\<rparr>"
proof -
  note inv = kinvD(1) [OF k] and len = kinvD(2) [OF k]
  have dl: "d < length (proc_table k)" using d(1) len by simp
  have fl: "\<not> has_flag q SENDING" "p_flags q = 0" using q(1) by (auto simp: ipc_idle_def flag_0)
  note U = ipc_inv_upd [OF inv dl flag_RECEIVING(2) [OF d(2)] fl(1) proc_ok_idleI [OF q(1)] q(2)]
  show "kinv k'"
    by (rule kinv_cong [OF k]) (use U(1) k' dl q(3) in \<open>auto simp: nth_list_update\<close>)
  show "abs_ipc k' = (abs_ipc k)\<lparr>status := (status (abs_ipc k))[d := Ready],
      pending := (pending (abs_ipc k))[d := has_int_msg q \<noteq> 0]\<rparr>"
    by (rule ipc_state_eqI [of _ "length (proc_table k)"])
      (use k' dl U(3) fl in \<open>simp_all add: nth_list_update status_of_def\<close>)
qed

lemma delivered_spec:
  assumes k: "kinv k" and d: "d < NR_TASKS + NR_PROCS" "p_flags (proc_of k d) = RECEIVING"
  shows "kinv (delivered k s d m)"
    and "abs_ipc (delivered k s d m) = (abs_ipc k)\<lparr>status := (status (abs_ipc k))[d := Ready]\<rparr>"
proof -
  note inv = kinvD(1) [OF k] and len = kinvD(2) [OF k]
  have dl: "d < length (proc_table k)" using d(1) len by simp
  let ?p = "(proc_of k d)\<lparr>p_msg := 0, p_flags := 0, p_recvfrom := NO_TASK\<rparr>"
  have pt: "proc_table (delivered k s d m) = (proc_table k)[d := ?p]"
    using d(2) by (simp add: delivered_def proc_table_upd_proc)
  have idle: "ipc_idle ?p"
    using proc_ok_receiving(3) [OF ipc_invD [OF inv dl] flag_RECEIVING(1) [OF d(2)]]
    by (simp add: ipc_idle_def)
  note W = wake_spec [OF k d pt idle]
  have "(pending (abs_ipc k))[d := has_int_msg ?p \<noteq> 0] = pending (abs_ipc k)"
    using dl by (intro list_update_same_conv [THEN iffD2]) simp_all
  with W show "kinv (delivered k s d m)"
    "abs_ipc (delivered k s d m) = (abs_ipc k)\<lparr>status := (status (abs_ipc k))[d := Ready]\<rparr>"
    by simp_all
qed

text \<open>Nobody can run: every ready process has used up its ticks and has no priority to refill them.\<close>

definition nobody_runs :: "'a kernel_scheme \<Rightarrow> ipc_state \<Rightarrow> bool" where
  "nobody_runs k \<sigma> \<longleftrightarrow> (\<forall>i < length (proc_table k). status \<sigma> ! i = Ready \<longrightarrow>
     p_ticks (proc_of k i) \<le> 0 \<and> priority (proc_of k i) \<le> 0)"

lemma Ready_iff: "status_of p = Ready \<longleftrightarrow> runnable p"
  by (simp add: status_of_def runnable_def)

text \<open>
  A routine takes the kernel from \<open>k\<close> to \<open>k'\<close> with abstract state \<open>\<sigma>\<close>: the invariant holds, and the
  process that runs next is the same and still ready, or one that was just chosen.
\<close>

definition cur_ok :: "'a kernel_scheme \<Rightarrow> bool" where
  "cur_ok k \<longleftrightarrow> p_proc_ready k < length (proc_table k) \<and> runnable (proc_of k (p_proc_ready k))"

definition ready_kept :: "ipc_state \<Rightarrow> ipc_state \<Rightarrow> bool" where
  "ready_kept \<sigma> \<tau> \<longleftrightarrow> (\<forall>i. status \<sigma> ! i = Ready \<longrightarrow> status \<tau> ! i = Ready)"

lemma nth_update_same: "xs ! i = v \<Longrightarrow> xs[d := v] ! i = v"
  by (cases "d < length xs"; cases "i = d") auto

lemma ready_kept_update [simp]:
  "ready_kept \<sigma> (\<sigma>\<lparr>status := (status \<sigma>)[d := Ready]\<rparr>)"
  "ready_kept \<sigma> (\<sigma>\<lparr>status := (status \<sigma>)[d := Ready], waiting := w\<rparr>)"
  "ready_kept \<sigma> (\<sigma>\<lparr>status := (status \<sigma>)[d := Ready], pending := q\<rparr>)"
  "ready_kept \<sigma> (\<sigma>\<lparr>pending := q\<rparr>)"
  by (auto simp: ready_kept_def nth_update_same)

definition step_ok :: "'a kernel_scheme \<Rightarrow> 'a kernel_scheme \<Rightarrow> ipc_state \<Rightarrow> bool" where
  "step_ok k k' \<sigma> \<longleftrightarrow> kinv k' \<and> abs_ipc k' = \<sigma> \<and> k_reenter k' = k_reenter k \<and>
     (p_proc_ready k' = p_proc_ready k \<and> ready_kept (abs_ipc k) \<sigma> \<or> cur_ok k')"

lemma best_choice_cur: "best_choice (proc_table k) (p_proc_ready k) \<Longrightarrow> cur_ok k"
  by (simp add: best_choice_def cur_ok_def)

text \<open>A routine that ends in \<^const>\<open>schedule\<close> after a change \<open>k'\<close> of the process table.\<close>

lemma schedule_after:
  assumes "kinv k'" and "k_reenter k' = k_reenter k"
    and len: "length (proc_table k') = length (proc_table k)"
    and ticks: "\<And>i. i < length (proc_table k) \<Longrightarrow> p_ticks (proc_of k' i) = p_ticks (proc_of k i)"
      "\<And>i. i < length (proc_table k) \<Longrightarrow> priority (proc_of k' i) = priority (proc_of k i)"
  shows "(\<exists>k''. schedule k' = Inr k'' \<and> step_ok k k'' (abs_ipc k')) \<or>
    schedule k' = Inl Spins \<and> nobody_runs k (abs_ipc k')"
proof (cases k' rule: schedule_outcome [case_names kinv spins chosen])
  case kinv
  show ?case by (rule assms(1))
next
  case spins
  have "p_ticks (proc_of k i) \<le> 0 \<and> priority (proc_of k i) \<le> 0"
    if "i < length (proc_table k)" "runnable (proc_of k' i)" for i
    using spins(2) that ticks [OF that(1)] len nth_mem [of i "proc_table k'"] by auto
  with spins(1) show ?thesis
    by (simp add: nobody_runs_def Ready_iff len)
next
  case (chosen k'')
  then show ?thesis using assms(2) best_choice_cur by (auto simp: step_ok_def)
qed

lemma enqueued_abs:
  assumes k: "kinv k" and s: "s < NR_TASKS + NR_PROCS" "p_flags (proc_of k s) = 0" and m: "m \<noteq> 0"
    and d: "d < NR_TASKS + NR_PROCS" "d \<noteq> s"
    and nodead: "(d, s) \<notin> (send_edges (proc_table k))\<^sup>+"
  shows "abs_ipc (enqueued k s d m) = (abs_ipc k)\<lparr>status := (status (abs_ipc k))[s := SendsTo d],
    waiting := (waiting (abs_ipc k))[d := waiting (abs_ipc k) ! d @ [s]]\<rparr>"
proof (rule ipc_state_eqI [of _ "length (proc_table k)"])
  note E = enqueued_spec [OF assms] and len = kinvD(2) [OF k]
  have len': "length (proc_table (enqueued k s d m)) = length (proc_table k)"
    by (simp add: enqueued_def Let_def)
  fix i assume i: "i < length (proc_table k)"
  show "waiting (abs_ipc (enqueued k s d m)) ! i = waiting ((abs_ipc k)\<lparr>
      status := (status (abs_ipc k))[s := SendsTo d],
      waiting := (waiting (abs_ipc k))[d := waiting (abs_ipc k) ! d @ [s]]\<rparr>) ! i"
    using i d(1) len len' E(3) by (simp add: nth_list_update)
  show "status (abs_ipc (enqueued k s d m)) ! i = status ((abs_ipc k)\<lparr>
      status := (status (abs_ipc k))[s := SendsTo d],
      waiting := (waiting (abs_ipc k))[d := waiting (abs_ipc k) ! d @ [s]]\<rparr>) ! i"
    using i s(1) len len' E(4) by (simp add: nth_list_update status_of_def has_flag_def)
  show "pending (abs_ipc (enqueued k s d m)) ! i = pending ((abs_ipc k)\<lparr>
      status := (status (abs_ipc k))[s := SendsTo d],
      waiting := (waiting (abs_ipc k))[d := waiting (abs_ipc k) ! d @ [s]]\<rparr>) ! i"
    using i len len' E(4) by simp
qed (simp_all add: enqueued_def Let_def)

lemma msg_send_correct:
  assumes k: "kinv k" and s: "s < NR_TASKS + NR_PROCS" "p_flags (proc_of k s) = 0" and m: "m \<noteq> 0"
    and d: "d < NR_TASKS + NR_PROCS" "d \<noteq> s" "plain_receiver (proc_of k d)"
  shows "case spec_send s d (abs_ipc k) of
      None \<Rightarrow> msg_send k s (int d) m = Inl (Panic ''>>DEADLOCK<<'')
    | Some \<sigma> \<Rightarrow> (\<exists>k'. msg_send k s (int d) m = Inr k' \<and> step_ok k k' \<sigma>) \<or>
        msg_send k s (int d) m = Inl Spins \<and> nobody_runs k \<sigma>"
proof -
  note inv = kinvD(1) [OF k] and len = kinvD(2) [OF k]
  have status: "status (abs_ipc k) ! d = status_of (proc_of k d)" using d(1) len by simp
  have dl: "deadlock k (int s) d = Inr ((d, s) \<in> (waits_on (abs_ipc k))\<^sup>+)"
    using deadlock_spec [OF inv d(1), of s] by (simp add: waits_on_abs [OF k])
  consider (dead) "(d, s) \<in> (waits_on (abs_ipc k))\<^sup>+"
    | (accepted) "(d, s) \<notin> (waits_on (abs_ipc k))\<^sup>+" "accepts (status_of (proc_of k d)) s"
    | (blocked) "(d, s) \<notin> (waits_on (abs_ipc k))\<^sup>+" "\<not> accepts (status_of (proc_of k d)) s"
    by blast
  then show ?thesis
  proof cases
    case dead
    with dl d(1,2) show ?thesis by (simp add: spec_send_def msg_send_def valid_proc_nr_def)
  next
    case accepted
    have fl: "p_flags (proc_of k d) = RECEIVING"
      using accepted(2) accepts_iff [OF d(3)] d(3) by (simp add: plain_receiver_def)
    from accepted show ?thesis
      using msg_send_delivers [OF k s m d accepted(2)] delivered_spec [OF k d(1) fl] status
      by (simp add: spec_send_def step_ok_def) (simp add: delivered_def)
  next
    case blocked
    note nodead = blocked(1) [unfolded waits_on_abs [OF k]]
    note E = enqueued_spec [OF k s m d(1,2) nodead]
    have "(\<exists>k'. schedule (enqueued k s d m) = Inr k' \<and> step_ok k k' (abs_ipc (enqueued k s d m))) \<or>
        schedule (enqueued k s d m) = Inl Spins \<and> nobody_runs k (abs_ipc (enqueued k s d m))"
      by (rule schedule_after [OF E(1)]) (simp_all add: E(4), simp_all add: enqueued_def Let_def)
    with blocked show ?thesis
      using msg_send_blocks [OF k s m d blocked(2) nodead] enqueued_abs [OF k s m d(1,2) nodead] status
      by (simp add: spec_send_def)
  qed
qed

section \<open>msg_receive\<close>

lemma va2la_cong: "ldts (proc_of k' i) = ldts (proc_of k i) \<Longrightarrow> va2la k' i va = va2la k i va"
  by (simp add: va2la_def ldt_seg_linear_def)

text \<open>The state after a pending interrupt is handed over.\<close>

definition int_taken :: "'a kernel_scheme \<Rightarrow> nat \<Rightarrow> u32 \<Rightarrow> 'a kernel_scheme" where
  "int_taken k r m =
     upd_proc (k\<lparr>mem := write_bytes (mem k) (linear k r m) int_msg_bytes\<rparr>) r (\<lambda>p. p\<lparr>has_int_msg := 0\<rparr>)"

text \<open>The state after sender \<open>f\<close> is unlinked and its message copied; \<open>ys\<close> are the senders before it.\<close>

definition unlinked :: "'a kernel_scheme \<Rightarrow> nat \<Rightarrow> nat list \<Rightarrow> nat \<Rightarrow> 'a kernel_scheme" where
  "unlinked k r ys f =
     upd_proc (if ys = [] then upd_proc k r (\<lambda>p. p\<lparr>q_sending := next_sending (proc_of k f)\<rparr>)
               else upd_proc k (last ys) (\<lambda>p. p\<lparr>next_sending := next_sending (proc_of k f)\<rparr>))
       f (\<lambda>p. p\<lparr>next_sending := None\<rparr>)"

definition taken :: "'a kernel_scheme \<Rightarrow> nat \<Rightarrow> nat list \<Rightarrow> nat \<Rightarrow> u32 \<Rightarrow> 'a kernel_scheme" where
  "taken k r ys f m =
     upd_proc ((unlinked k r ys f)\<lparr>mem :=
         phys_copy (mem k) (linear k r m) (linear k f (p_msg (proc_of k f))) MESSAGE_SIZE\<rparr>)
       f (\<lambda>p. p\<lparr>p_msg := 0, p_sendto := NO_TASK, p_flags := p_flags p AND NOT SENDING\<rparr>)"

text \<open>The state in which a receiver waits.\<close>

definition waits_for :: "'a kernel_scheme \<Rightarrow> nat \<Rightarrow> int \<Rightarrow> u32 \<Rightarrow> 'a kernel_scheme" where
  "waits_for k r src m =
     upd_proc k r (\<lambda>p. p\<lparr>p_flags := RECEIVING, p_msg := m, p_recvfrom := src\<rparr>)"

lemma pick_split:
  assumes "spec_pick ws src = Some f" and "distinct ws"
  obtains ys zs where "ws = ys @ f # zs" "remove1 f ws = ys @ zs" "src = ANY \<Longrightarrow> ys = []"
    "src \<noteq> ANY \<Longrightarrow> src = int f"
proof (cases "src = ANY")
  case True
  with assms(1) obtain zs where ws: "ws = [] @ f # zs"
    by (cases ws) (auto simp: spec_pick_def)
  show thesis by (rule that [OF ws]) (use ws True in auto)
next
  case False
  with assms(1) have f: "src = int f" "f \<in> set ws"
    by (auto simp: spec_pick_def split: if_splits)
  then obtain ys zs where ws: "ws = ys @ f # zs" by (auto simp: in_set_conv_decomp)
  with assms(2) have "remove1 f ws = ys @ zs" by (simp add: remove1_append)
  with ws show thesis by (rule that) (use f False in auto)
qed

text \<open>A sender in the queue satisfies the block of assertions.\<close>

lemma queued_sender:
  assumes k: "kinv k" and r: "r < NR_TASKS + NR_PROCS" "p_flags (proc_of k r) = 0"
    and f: "f \<in> set (send_queue (proc_table k) r)"
  shows "recv_asserts k r f" "f < NR_TASKS + NR_PROCS" "f \<noteq> r"
proof -
  note inv = kinvD(1) [OF k] and len = kinvD(2) [OF k]
  have rl: "r < length (proc_table k)" using r(1) len by simp
  have edge: "f < length (proc_table k)" "has_flag (proc_of k f) SENDING" "p_sendto (proc_of k f) = int r"
    using send_queue_is_queue(2) [OF inv rl] f by (auto simp: send_edges_def)
  have "ipc_idle (proc_of k r)" by (rule proc_ok_idle [OF ipc_invD [OF inv rl] r(2)])
  moreover have "q_sending (proc_of k r) \<noteq> None"
    using queue_empty_iff [OF inv rl] f by auto
  ultimately show "recv_asserts k r f"
    using proc_ok_sending [OF ipc_invD [OF inv edge(1)] edge(2)] edge(3) by (simp add: recv_asserts_def)
  show "f < NR_TASKS + NR_PROCS" using edge(1) len by simp
  show "f \<noteq> r" using edge(2) r(2) by (auto simp: flag_0)
qed

lemma recv_choose_picks:
  assumes k: "kinv k" and r: "r < NR_TASKS + NR_PROCS" "p_flags (proc_of k r) = 0"
    and split: "send_queue (proc_table k) r = ys @ f # zs"
    and src: "if src = ANY then ys = [] else src = int f"
  shows "recv_choose k r src = Inr (Some (f, if ys = [] then None else Some (last ys)))"
proof -
  note inv = kinvD(1) [OF k] and len = kinvD(2) [OF k]
  have rl: "r < length (proc_table k)" using r(1) len by simp
  have path: "qpath (next_of (proc_table k)) (q_sending (proc_of k r)) (ys @ f # zs)"
    using send_queue_is_queue(1) [OF inv rl] split by (simp add: is_queue_def)
  have q: "recv_asserts k r f" "f < NR_TASKS + NR_PROCS"
    using queued_sender [OF k r, of f] split by auto
  show ?thesis
  proof (cases "src = ANY")
    case True
    with src path q show ?thesis by (simp add: recv_choose_def)
  next
    case False
    then have [simp]: "src = int f" using src by simp
    have "has_flag (proc_of k f) SENDING" "p_sendto (proc_of k f) = int r"
      "q_sending (proc_of k r) \<noteq> None"
      using q(1) flag_SENDING(1) by (auto simp: recv_asserts_def)
    with q False queue_find_split [OF path, of None] show ?thesis
      by (auto simp: recv_choose_def valid_proc_nr_def)
  qed
qed

lemma recv_choose_none:
  assumes k: "kinv k" and r: "r < NR_TASKS + NR_PROCS"
    and none: "spec_pick (send_queue (proc_table k) r) src = None"
  shows "recv_choose k r src = Inr None"
proof -
  note inv = kinvD(1) [OF k] and len = kinvD(2) [OF k]
  have rl: "r < length (proc_table k)" using r len by simp
  show ?thesis
  proof (cases "src = ANY")
    case True
    with none have "send_queue (proc_table k) r = []"
      by (simp add: spec_pick_def split: list.splits)
    with True queue_empty_iff [OF inv rl] show ?thesis by (simp add: recv_choose_def)
  next
    case False
    have "\<not> (has_flag (proc_of k (nat src)) SENDING \<and> p_sendto (proc_of k (nat src)) = int r)"
      if valid: "valid_proc_nr src"
    proof -
      have "nat src \<notin> set (send_queue (proc_table k) r)" "nat src < length (proc_table k)"
        using none False valid len by (auto simp: spec_pick_def valid_proc_nr_def split: if_splits)
      then show ?thesis
        unfolding send_queue_is_queue(2) [OF inv rl] by (simp add: send_edges_def)
    qed
    with False show ?thesis by (auto simp: recv_choose_def)
  qed
qed

text \<open>The senders of a queue split at \<open>f\<close>: none of them is the receiver, and \<open>f\<close> occurs once.\<close>

lemma queue_parts:
  assumes k: "kinv k" and r: "r < NR_TASKS + NR_PROCS" "p_flags (proc_of k r) = 0"
    and split: "send_queue (proc_table k) r = ys @ f # zs"
  shows "ys \<noteq> [] \<Longrightarrow> last ys < length (proc_table k)" "ys \<noteq> [] \<Longrightarrow> last ys \<noteq> f"
    "q_sending (proc_of k r) = Some f \<longleftrightarrow> ys = []"
proof -
  note inv = kinvD(1) [OF k] and len = kinvD(2) [OF k]
  have rl: "r < length (proc_table k)" using r(1) len by simp
  note sq = send_queue_is_queue [OF inv rl]
  show "last ys < length (proc_table k)" if "ys \<noteq> []"
    using queued_sender(2) [OF k r, of "last ys"] split len last_in_set [OF that] by auto
  show "last ys \<noteq> f" if "ys \<noteq> []"
    using sq(3) split last_in_set [OF that] by auto
  have "distinct (ys @ f # zs)" using sq(3) split by simp
  then show "q_sending (proc_of k r) = Some f \<longleftrightarrow> ys = []"
    using sq(1) split by (cases ys) (auto simp: is_queue_def)
qed

lemma taken_eq:
  assumes k: "kinv k" and r: "r < NR_TASKS + NR_PROCS" "p_flags (proc_of k r) = 0"
    and split: "send_queue (proc_table k) r = ys @ f # zs"
  shows "proc_of (taken k r ys f m) i = (proc_of k i)\<lparr>
      p_flags := if i = f then 0 else p_flags (proc_of k i),
      p_msg := if i = f then 0 else p_msg (proc_of k i),
      p_sendto := if i = f then NO_TASK else p_sendto (proc_of k i),
      q_sending := if i = r \<and> ys = [] then next_sending (proc_of k f) else q_sending (proc_of k i),
      next_sending := if i = f then None
        else if ys \<noteq> [] \<and> i = last ys then next_sending (proc_of k f)
        else next_sending (proc_of k i)\<rparr>"
proof -
  note len = kinvD(2) [OF k] and Q = queue_parts [OF k r split]
  have f: "recv_asserts k r f" "f < NR_TASKS + NR_PROCS" "f \<noteq> r"
    using queued_sender [OF k r, of f] split by auto
  then have fl: "p_flags (proc_of k f) = SENDING" by (simp add: recv_asserts_def)
  show ?thesis
    using f(2,3) r(1) Q(1,2) len fl by (auto simp: taken_def unlinked_def)
qed

lemma taken_spec:
  assumes k: "kinv k" and r: "r < NR_TASKS + NR_PROCS" "p_flags (proc_of k r) = 0"
    and split: "send_queue (proc_table k) r = ys @ f # zs"
  shows "kinv (taken k r ys f m)"
    and "abs_ipc (taken k r ys f m) = (abs_ipc k)\<lparr>status := (status (abs_ipc k))[f := Ready],
      waiting := (waiting (abs_ipc k))[r := ys @ zs]\<rparr>"
proof -
  note inv = kinvD(1) [OF k] and len = kinvD(2) [OF k]
  note eq = taken_eq [OF k r split, of m]
  have rl: "r < length (proc_table k)" using r(1) len by simp
  have f: "recv_asserts k r f" "f < NR_TASKS + NR_PROCS"
    using queued_sender [OF k r, of f] split by auto
  have len': "length (proc_table (taken k r ys f m)) = length (proc_table k)"
    by (simp add: taken_def unlinked_def)
  note R = ipc_inv_remove [OF inv rl split len']
  have I: "ipc_inv (proc_table (taken k r ys f m))"
    by (rule R(1)) (use f in \<open>auto simp: eq ipc_idle_def same_state_def recv_asserts_def\<close>)
  have Q: "send_queue (proc_table (taken k r ys f m)) e = (if e = r then ys @ zs else send_queue (proc_table k) e)"
    if "e < length (proc_table k)" for e
    by (rule R(3)) (use f that in \<open>auto simp: eq ipc_idle_def same_state_def recv_asserts_def\<close>)
  show "kinv (taken k r ys f m)"
    by (rule kinv_cong [OF k I]) (simp add: eq)
  show "abs_ipc (taken k r ys f m) = (abs_ipc k)\<lparr>status := (status (abs_ipc k))[f := Ready],
      waiting := (waiting (abs_ipc k))[r := ys @ zs]\<rparr>"
    by (rule ipc_state_eqI [of _ "length (proc_table k)"])
      (use f(2) rl len len' Q in \<open>simp_all add: eq nth_list_update status_of_def has_flag_def\<close>)
qed

lemma remove_sending_unlinked:
  assumes k: "kinv k" and r: "r < NR_TASKS + NR_PROCS" "p_flags (proc_of k r) = 0"
    and split: "send_queue (proc_table k) r = ys @ f # zs"
  shows "remove_sending k r f (if ys = [] then None else Some (last ys)) = Inr (unlinked k r ys f)"
  using queue_parts(3) [OF k r split] by (auto simp: remove_sending_def unlinked_def)

lemma msg_receive_takes:
  assumes k: "kinv k" and r: "r < NR_TASKS + NR_PROCS" "p_flags (proc_of k r) = 0" and m: "m \<noteq> 0"
    and split: "send_queue (proc_table k) r = ys @ f # zs"
    and src: "if src = ANY then ys = [] else src = int f"
    and nopend: "\<not> (has_int_msg (proc_of k r) \<noteq> 0 \<and> (src = ANY \<or> src = INTERRUPT))"
  shows "msg_receive k r src m = Inr (taken k r ys f m)"
proof -
  note len = kinvD(2) [OF k] and Q = queue_parts [OF k r split]
  have f: "recv_asserts k r f" "f < NR_TASKS + NR_PROCS" "f \<noteq> r"
    using queued_sender [OF k r, of f] split by auto
  then have fl: "p_flags (proc_of k f) = SENDING" "p_msg (proc_of k f) \<noteq> 0"
    by (simp_all add: recv_asserts_def)
  let ?k = "unlinked k r ys f"
  have same: "ldts (proc_of ?k i) = ldts (proc_of k i)" "p_msg (proc_of ?k i) = p_msg (proc_of k i)"
    "p_flags (proc_of ?k i) = p_flags (proc_of k i)" for i
    using f(2) r(1) Q(1) len by (auto simp: unlinked_def)
  have mem: "mem ?k = mem k" "length (proc_table ?k) = length (proc_table k)"
    by (auto simp: unlinked_def)
  have va: "va2la ?k i a = Inr (linear k i a)" for i a
    using va2la_linear [OF k] va2la_cong [of ?k i k] same(1) by simp
  have "int r \<noteq> src" using src f(3) r(1) by (auto split: if_splits)
  then show ?thesis
    unfolding msg_receive_def
    using nopend recv_choose_picks [OF k r split src] remove_sending_unlinked [OF k r split] m fl f(2) len
    by (auto simp: va same mem Let_def unblock_def taken_def)
qed

lemma waits_for_spec:
  assumes k: "kinv k" and r: "r < NR_TASKS + NR_PROCS" "p_flags (proc_of k r) = 0" and m: "m \<noteq> 0"
    and src: "src \<noteq> NO_TASK"
  shows "kinv (waits_for k r src m)"
    and "abs_ipc (waits_for k r src m) = (abs_ipc k)\<lparr>status := (status (abs_ipc k))[r := ReceivesFrom src]\<rparr>"
proof -
  note inv = kinvD(1) [OF k] and len = kinvD(2) [OF k]
  have rl: "r < length (proc_table k)" using r(1) len by simp
  let ?p = "(proc_of k r)\<lparr>p_flags := RECEIVING, p_msg := m, p_recvfrom := src\<rparr>"
  have pt: "proc_table (waits_for k r src m) = (proc_table k)[r := ?p]"
    by (simp add: waits_for_def proc_table_upd_proc)
  have fl: "has_flag ?p RECEIVING" "\<not> has_flag ?p SENDING" by (simp_all add: flag_RECEIVING)
  have "p_sendto (proc_of k r) = NO_TASK"
    using proc_ok_idle [OF ipc_invD [OF inv rl] r(2)] by (simp add: ipc_idle_def)
  then have ok: "proc_ok r ?p" using m src fl by (simp add: proc_ok_def)
  note U = ipc_inv_upd [OF inv rl flag_0 [OF r(2)] fl(2) ok]
  have I: "ipc_inv (proc_table (waits_for k r src m))" unfolding pt by (rule U(1)) simp
  show "kinv (waits_for k r src m)"
    by (rule kinv_cong [OF k I]) (use pt rl in \<open>auto simp: nth_list_update\<close>)
  show "abs_ipc (waits_for k r src m) = (abs_ipc k)\<lparr>status := (status (abs_ipc k))[r := ReceivesFrom src]\<rparr>"
    by (rule ipc_state_eqI [of _ "length (proc_table k)"])
      (use pt rl U(3) in \<open>auto simp: nth_list_update status_of_def flag_RECEIVING\<close>)
qed

text \<open>When nothing can be received, the routine blocks; the assertions that follow read the new state.\<close>

lemma msg_receive_blocks:
  assumes k: "kinv k" and r: "r < NR_TASKS + NR_PROCS" "p_flags (proc_of k r) = 0" and m: "m \<noteq> 0"
    and src: "src \<noteq> int r" "src \<noteq> NO_TASK"
    and none: "spec_pick (send_queue (proc_table k) r) src = None"
    and nopend: "\<not> (has_int_msg (proc_of k r) \<noteq> 0 \<and> (src = ANY \<or> src = INTERRUPT))"
  shows "msg_receive k r src m = res_bind (schedule (waits_for k r src m)) (\<lambda>k2.
    kassert (has_int_msg (proc_of k r) = 0) ''msg_receive: blocked'' (Inr k2))"
proof -
  note inv = kinvD(1) [OF k] and len = kinvD(2) [OF k]
  have rl: "r < length (proc_table k)" using r(1) len by simp
  let ?k = "waits_for k r src m"
  have idle: "p_sendto (proc_of k r) = NO_TASK"
    using proc_ok_idle [OF ipc_invD [OF inv rl] r(2)] by (simp add: ipc_idle_def)
  have k1: "upd_proc k r (\<lambda>p. p\<lparr>p_flags := p_flags p OR RECEIVING, p_msg := m, p_recvfrom := src\<rparr>) = ?k"
    using r(2) by (simp add: waits_for_def upd_proc_def)
  have p: "proc_of ?k r = (proc_of k r)\<lparr>p_flags := RECEIVING, p_msg := m, p_recvfrom := src\<rparr>"
    "length (proc_table ?k) = length (proc_table k)"
    using rl by (simp_all add: waits_for_def)
  have step: "msg_receive k r src m = res_bind (schedule ?k) (\<lambda>k2.
      kassert (p_flags (proc_of k2 r) = RECEIVING \<and> p_msg (proc_of k2 r) \<noteq> 0 \<and>
          p_recvfrom (proc_of k2 r) \<noteq> NO_TASK \<and> p_sendto (proc_of k2 r) = NO_TASK \<and>
          has_int_msg (proc_of k2 r) = 0) ''msg_receive: blocked'' (Inr k2))"
    using src(1) nopend recv_choose_none [OF k r(1) none] p(1)
    unfolding msg_receive_def k1 by (auto simp: Let_def block_def)
  show ?thesis
  proof (cases ?k rule: schedule_outcome [case_names kinv spins chosen])
    case kinv
    show ?case by (rule waits_for_spec(1) [OF k r m src(2)])
  next
    case spins
    with step show ?thesis by simp
  next
    case (chosen k')
    from chosen(7) [of r] obtain t where "proc_of k' r = (proc_of ?k r)\<lparr>p_ticks := t\<rparr>"
      using rl p(2) by auto
    with p step chosen(1) m src(2) idle show ?thesis by simp
  qed
qed

lemma int_taken_spec:
  assumes k: "kinv k" and r: "r < NR_TASKS + NR_PROCS"
  shows "kinv (int_taken k r m)"
    and "abs_ipc (int_taken k r m) = (abs_ipc k)\<lparr>pending := (pending (abs_ipc k))[r := False]\<rparr>"
proof -
  note inv = kinvD(1) [OF k] and len = kinvD(2) [OF k]
  have rl: "r < length (proc_table k)" using r len by simp
  have p: "proc_of (int_taken k r m) i = (if i = r then (proc_of k r)\<lparr>has_int_msg := 0\<rparr> else proc_of k i)"
    "length (proc_table (int_taken k r m)) = length (proc_table k)" for i
    using rl by (simp_all add: int_taken_def)
  have I: "ipc_inv (proc_table (int_taken k r m))"
    using p by (intro ipc_inv_cong [OF _ _ inv]) (auto simp: same_ipc_def)
  have Q: "send_queue (proc_table (int_taken k r m)) e = send_queue (proc_table k) e"
    if "e < length (proc_table k)" for e
    using p by (intro send_queue_same [OF inv that]) auto
  show "kinv (int_taken k r m)" by (rule kinv_cong [OF k I]) (simp add: p)
  show "abs_ipc (int_taken k r m) = (abs_ipc k)\<lparr>pending := (pending (abs_ipc k))[r := False]\<rparr>"
    by (rule ipc_state_eqI [of _ "length (proc_table k)"])
      (use p rl Q in \<open>simp_all add: nth_list_update status_of_def has_flag_def\<close>)
qed

lemma msg_receive_int:
  assumes k: "kinv k" and r: "r < NR_TASKS + NR_PROCS" "p_flags (proc_of k r) = 0" and m: "m \<noteq> 0"
    and pend: "has_int_msg (proc_of k r) \<noteq> 0" "src = ANY \<or> src = INTERRUPT"
  shows "msg_receive k r src m = Inr (int_taken k r m)"
proof -
  note inv = kinvD(1) [OF k] and len = kinvD(2) [OF k]
  have rl: "r < length (proc_table k)" using r(1) len by simp
  have idle: "ipc_idle (proc_of k r)" by (rule proc_ok_idle [OF ipc_invD [OF inv rl] r(2)])
  have "int r \<noteq> src" using pend(2) r(1) by auto
  with pend m idle rl show ?thesis
    by (simp add: msg_receive_def va2la_linear [OF k] Let_def int_taken_def ipc_idle_def)
qed

lemma msg_receive_correct:
  assumes k: "kinv k" and r: "r < NR_TASKS + NR_PROCS" "p_flags (proc_of k r) = 0" and m: "m \<noteq> 0"
    and src: "src \<noteq> int r" "src \<noteq> NO_TASK"
    and int: "src = ANY \<or> src = INTERRUPT \<or> has_int_msg (proc_of k r) = 0 \<or>
      spec_pick (waiting (abs_ipc k) ! r) src \<noteq> None"
  shows "(\<exists>k'. msg_receive k r src m = Inr k' \<and> step_ok k k' (spec_receive r src (abs_ipc k))) \<or>
    msg_receive k r src m = Inl Spins \<and> nobody_runs k (spec_receive r src (abs_ipc k))"
proof -
  note inv = kinvD(1) [OF k] and len = kinvD(2) [OF k]
  have rl: "r < length (proc_table k)" using r(1) len by simp
  let ?ws = "send_queue (proc_table k) r"
  consider (pend) "has_int_msg (proc_of k r) \<noteq> 0" "src = ANY \<or> src = INTERRUPT"
    | (take) f where "\<not> (has_int_msg (proc_of k r) \<noteq> 0 \<and> (src = ANY \<or> src = INTERRUPT))"
        "spec_pick ?ws src = Some f"
    | (wait) "has_int_msg (proc_of k r) = 0" "spec_pick ?ws src = None"
    using int rl by (cases "spec_pick ?ws src") auto
  then show ?thesis
  proof cases
    case pend
    then have "spec_receive r src (abs_ipc k) = (abs_ipc k)\<lparr>pending := (pending (abs_ipc k))[r := False]\<rparr>"
      using rl by (auto simp: spec_receive_def)
    then show ?thesis
      using msg_receive_int [OF k r m pend] int_taken_spec [OF k r(1), of m]
      by (simp add: step_ok_def) (simp add: int_taken_def)
  next
    case (take f)
    then obtain ys zs where split: "?ws = ys @ f # zs" "remove1 f ?ws = ys @ zs"
      and "src = ANY \<Longrightarrow> ys = []" "src \<noteq> ANY \<Longrightarrow> src = int f"
      by (metis pick_split send_queue_is_queue(3) [OF inv rl])
    then have src': "if src = ANY then ys = [] else src = int f" by simp
    have "spec_receive r src (abs_ipc k) = (abs_ipc k)\<lparr>status := (status (abs_ipc k))[f := Ready],
      waiting := (waiting (abs_ipc k))[r := ys @ zs]\<rparr>"
      using take rl split(2) by (auto simp: spec_receive_def)
    then show ?thesis
      using msg_receive_takes [OF k r m split(1) src' take(1)] taken_spec [OF k r split(1), of m]
      by (simp add: step_ok_def) (simp add: taken_def unlinked_def)
  next
    case wait
    note W = waits_for_spec [OF k r m src(2)]
    have spec: "spec_receive r src (abs_ipc k) =
        (abs_ipc k)\<lparr>status := (status (abs_ipc k))[r := ReceivesFrom src]\<rparr>"
      using wait rl by (simp add: spec_receive_def)
    have blocks: "msg_receive k r src m = schedule (waits_for k r src m)"
      using msg_receive_blocks [OF k r m src wait(2)] wait(1)
      by (cases "schedule (waits_for k r src m)") simp_all
    show ?thesis
      unfolding blocks spec W(2) [symmetric]
      by (rule schedule_after [OF W(1)]) (use rl in \<open>simp_all add: waits_for_def\<close>)
  qed
qed

section \<open>inform_int\<close>

lemma ready_kept_interrupt: "ready_kept \<sigma> (spec_interrupt t \<sigma>)"
  by (simp add: spec_interrupt_def)

lemma inform_int_correct:
  assumes k: "kinv k" and t: "t < NR_TASKS + NR_PROCS" "plain_receiver (proc_of k t)"
  shows "\<exists>k'. inform_int t k = Inr k' \<and> step_ok k k' (spec_interrupt t (abs_ipc k)) \<and>
    p_proc_ready k' = p_proc_ready k"
proof -
  note inv = kinvD(1) [OF k] and len = kinvD(2) [OF k]
  have tl: "t < length (proc_table k)" using t(1) len by simp
  let ?p = "proc_of k t"
  show ?thesis
  proof (cases "has_flag ?p RECEIVING \<and> (p_recvfrom ?p = INTERRUPT \<or> p_recvfrom ?p = ANY)")
    case True
    let ?q = "?p\<lparr>p_msg := 0, has_int_msg := 0, p_flags := 0, p_recvfrom := NO_TASK\<rparr>"
    let ?k' = "upd_proc (k\<lparr>mem := write_int (write_int (mem k) (p_msg ?p) INTERRUPT) (p_msg ?p + 4) HARD_INT\<rparr>)
      t (\<lambda>_. ?q)"
    have fl: "p_flags ?p = RECEIVING" using True t(2) by (simp add: plain_receiver_def)
    have idle: "ipc_idle ?q"
      using proc_ok_receiving(3) [OF ipc_invD [OF inv tl]] True by (simp add: ipc_idle_def)
    have pt: "proc_table ?k' = (proc_table k)[t := ?q]" by (simp add: proc_table_upd_proc)
    note W = wake_spec [OF k t(1) fl pt idle]
    have "inform_int t k = Inr ?k'"
      using True fl idle tl
      by (auto simp: inform_int_def Let_def unblock_def ipc_idle_def upd_proc_def)
    moreover have "kinv ?k'" by (rule W(1)) simp_all
    moreover have "abs_ipc ?k' = spec_interrupt t (abs_ipc k)"
      using W(2) True tl by (auto simp: spec_interrupt_def status_of_receiving [OF t(2)])
    ultimately show ?thesis by (simp add: step_ok_def ready_kept_interrupt)
  next
    case False
    let ?k' = "upd_proc k t (\<lambda>p. p\<lparr>has_int_msg := 1\<rparr>)"
    have p: "proc_of ?k' i = (if i = t then (proc_of k t)\<lparr>has_int_msg := 1\<rparr> else proc_of k i)" for i
      using tl by simp
    have I: "ipc_inv (proc_table ?k')"
      using p by (intro ipc_inv_cong [OF _ _ inv]) (auto simp: same_ipc_def)
    have Q: "send_queue (proc_table ?k') e = send_queue (proc_table k) e"
      if "e < length (proc_table k)" for e
      using p by (intro send_queue_same [OF inv that]) auto
    have "kinv ?k'" by (rule kinv_cong [OF k I]) (simp add: p)
    moreover have "spec_interrupt t (abs_ipc k) = (abs_ipc k)\<lparr>pending := (pending (abs_ipc k))[t := True]\<rparr>"
      using False tl by (auto simp: spec_interrupt_def status_of_receiving [OF t(2)])
    then have "abs_ipc ?k' = spec_interrupt t (abs_ipc k)"
      by (intro ipc_state_eqI [of _ "length (proc_table k)"])
        (use p tl Q in \<open>simp_all add: nth_list_update status_of_def has_flag_def\<close>)
    moreover have "inform_int t k = Inr ?k'" using False by (auto simp: inform_int_def)
    ultimately show ?thesis by (simp add: step_ok_def ready_kept_interrupt)
  qed
qed

end
