(* ===== verification/Klib.thy ===== *)
theory Klib
  imports Prelude "HOL-Library.Signed_Division"
begin

text \<open>
  The library of the kernel and of the user processes: \<^verbatim>\<open>memcmp\<close>, \<^verbatim>\<open>strcmp\<close>, \<^verbatim>\<open>strcat\<close>
  (\<^verbatim>\<open>lib/misc.c\<close>) on memory, \<^verbatim>\<open>itoa\<close> (\<^verbatim>\<open>lib/klib.c\<close>), \<^verbatim>\<open>i2a\<close> and \<^verbatim>\<open>vsprintf\<close>
  (\<^verbatim>\<open>lib/vsprintf.c\<close>). Strings in memory end at the first zero byte; loops that look for it are
  \<^theory_text>\<open>partial_function (option)\<close>. The formatting routines are on HOL strings, without the
  terminating zero.
\<close>

section \<open>Comparing and joining strings in memory\<close>

text \<open>\<^verbatim>\<open>char\<close> is signed, so a difference of characters is a difference of signed bytes.\<close>

primrec memcmp_loop :: "memory \<Rightarrow> u32 \<Rightarrow> u32 \<Rightarrow> nat \<Rightarrow> int" where
  "memcmp_loop m p1 p2 0 = 0"
| "memcmp_loop m p1 p2 (Suc n) =
     (if m p1 \<noteq> m p2 then sint (m p1) - sint (m p2) else memcmp_loop m (p1 + 1) (p2 + 1) n)"

definition memcmp :: "memory \<Rightarrow> u32 \<Rightarrow> u32 \<Rightarrow> nat \<Rightarrow> int" where
  "memcmp m s1 s2 n = (if s1 = 0 \<or> s2 = 0 then sint (s1 - s2) else memcmp_loop m s1 s2 n)"

partial_function (option) strcmp_loop :: "memory \<Rightarrow> u32 \<Rightarrow> u32 \<Rightarrow> int option" where
  "strcmp_loop m p1 p2 =
     (if m p1 \<noteq> 0 \<and> m p2 \<noteq> 0 \<and> m p1 = m p2 then strcmp_loop m (p1 + 1) (p2 + 1)
      else Some (sint (m p1) - sint (m p2)))"

definition strcmp :: "memory \<Rightarrow> u32 \<Rightarrow> u32 \<Rightarrow> int option" where
  "strcmp m s1 s2 = (if s1 = 0 \<or> s2 = 0 then Some (sint (s1 - s2)) else strcmp_loop m s1 s2)"

text \<open>The first loop of \<^verbatim>\<open>strcat\<close> finds the end of a string, the second copies.\<close>

partial_function (option) str_end :: "memory \<Rightarrow> u32 \<Rightarrow> u32 option" where
  "str_end m p = (if m p = 0 then Some p else str_end m (p + 1))"

partial_function (option) strcat_copy :: "memory \<Rightarrow> u32 \<Rightarrow> u32 \<Rightarrow> memory option" where
  "strcat_copy m p1 p2 =
     (if m p2 = 0 then Some (m(p1 := 0)) else strcat_copy (m(p1 := m p2)) (p1 + 1) (p2 + 1))"

definition strcat :: "memory \<Rightarrow> u32 \<Rightarrow> u32 \<Rightarrow> (memory \<times> u32) option" where
  "strcat m s1 s2 =
     (if s1 = 0 \<or> s2 = 0 then Some (m, 0)
      else Option.bind (str_end m s1) (\<lambda>p1.
           Option.bind (strcat_copy m p1 s2) (\<lambda>m'. Some (m', s1))))"

section \<open>Numbers as text\<close>

text \<open>
  \<^verbatim>\<open>i2a\<close> with C's truncating division. The sources call it with base 10 and 16 only; for a base
  below 2 the C recursion has no end and the model stops.
\<close>

function i2a :: "int \<Rightarrow> int \<Rightarrow> string" where
  "i2a val base =
     (let m = val smod base; q = val sdiv base in
      (if q \<noteq> 0 \<and> 2 \<le> base then i2a q base else []) @
      [char_of (if m < 10 then m + 48 else m - 10 + 65)])"
  by auto

lemma sdiv_less:
  fixes v b :: int
  assumes "2 \<le> b" and "v sdiv b \<noteq> 0"
  shows "\<bar>v sdiv b\<bar> < \<bar>v\<bar>"
proof -
  have v: "v \<noteq> 0" using assms(2) by (auto simp: signed_divide_int_def)
  have "\<bar>v\<bar> div b < \<bar>v\<bar>" using v assms(1) by (intro int_div_less_self) auto
  moreover have "0 \<le> \<bar>v\<bar> div b" using assms(1) by (simp add: pos_imp_zdiv_nonneg_iff)
  moreover have "\<bar>v sdiv b\<bar> = \<bar>v\<bar> div b"
    using assms(1) v calculation(2) by (simp add: signed_divide_int_def abs_mult)
  ultimately show ?thesis by simp
qed

termination i2a
  by (relation "measure (\<lambda>(v, b). nat \<bar>v\<bar>)") (auto dest: sdiv_less)

declare i2a.simps [simp del]

text \<open>
  \<^verbatim>\<open>itoa\<close>: the nibbles from the top, leading zeros dropped (\<^verbatim>\<open>flag\<close> says a digit was printed).
\<close>

definition hex_digit :: "u32 \<Rightarrow> char" where
  "hex_digit n = (let ch = uint n + 48 in char_of (if ch > 57 then ch + 7 else ch))"

fun itoa_loop :: "u32 \<Rightarrow> nat list \<Rightarrow> bool \<Rightarrow> string" where
  "itoa_loop num [] flag = []"
| "itoa_loop num (i # is) flag =
     (let ch = drop_bit i num AND 0xF in
      if flag \<or> ch > 0 then hex_digit ch # itoa_loop num is True else itoa_loop num is flag)"

definition itoa :: "u32 \<Rightarrow> string" where
  "itoa num = ''0x'' @
     (if num = 0 then ''0'' else itoa_loop num [28, 24, 20, 16, 12, 8, 4, 0] False)"

section \<open>vsprintf\<close>

text \<open>The arguments on the stack: a word, or a pointer to a string.\<close>

datatype varg = VInt int | VStr string

definition STR_DEFAULT_LEN :: nat where "STR_DEFAULT_LEN = 1024"

definition is_digit :: "char \<Rightarrow> bool" where
  "is_digit c \<longleftrightarrow> 48 \<le> (of_char c :: nat) \<and> (of_char c :: nat) \<le> 57"

fun parse_align :: "string \<Rightarrow> int \<Rightarrow> int \<times> string" where
  "parse_align [] n = (n, [])"
| "parse_align (c # cs) n =
     (if is_digit c then parse_align cs (n * 10 + (of_char c - 48)) else (n, c # cs))"

text \<open>\<^verbatim>\<open>m * (-1)\<close> in 32 bits.\<close>

definition neg32 :: "int \<Rightarrow> int" where
  "neg32 v = sint (- word_of_int v :: u32)"

text \<open>
  One conversion: the contents of \<^verbatim>\<open>inner_buf\<close> and the remaining arguments. Reading past the
  arguments, a word as a string, or a string longer than the buffer is an access outside of the
  object.
\<close>

fun convert :: "char \<Rightarrow> varg list \<Rightarrow> (string \<times> varg list) res" where
  "convert c args =
     (if c = CHR ''c'' then (case args of VInt v # as \<Rightarrow> Inr ([char_of v], as) | _ \<Rightarrow> Inl (BadAccess ''args''))
      else if c = CHR ''x'' then (case args of VInt v # as \<Rightarrow> Inr (i2a v 16, as) | _ \<Rightarrow> Inl (BadAccess ''args''))
      else if c = CHR ''d'' then
        (case args of
           VInt v # as \<Rightarrow> Inr (if v < 0 then CHR ''-'' # i2a (neg32 v) 10 else i2a v 10, as)
         | _ \<Rightarrow> Inl (BadAccess ''args''))
      else if c = CHR ''s'' then
        (case args of
           VStr s # as \<Rightarrow> if length s < STR_DEFAULT_LEN then Inr (s, as) else Inl (BadAccess ''inner_buf'')
         | _ \<Rightarrow> Inl (BadAccess ''args''))
      else Inr ([], args))"

definition pad :: "char \<Rightarrow> int \<Rightarrow> string \<Rightarrow> string" where
  "pad cs align_nr inner =
     (let s = takeWhile (\<lambda>c. c \<noteq> CHR 0x00) inner in
      replicate (nat (align_nr - int (length s))) cs @ s)"

lemma parse_align_rest: "(n', d # ds) = parse_align cs n \<Longrightarrow> length ds < length cs"
proof (induction cs n rule: parse_align.induct)
  case (2 c cs n)
  then show ?case by (cases "is_digit c") auto
qed simp

function vsprintf :: "string \<Rightarrow> varg list \<Rightarrow> string res" where
  "vsprintf [] args = Inr []"
| "vsprintf (c # fmt) args =
     (if c \<noteq> CHR ''%'' then res_bind (vsprintf fmt args) (\<lambda>s. Inr (c # s))
      else case fmt of
        [] \<Rightarrow> Inl (BadAccess ''fmt'')
      | f # fs \<Rightarrow>
          if f = CHR ''%'' then res_bind (vsprintf fs args) (\<lambda>s. Inr (f # s))
          else
            let cs = (if f = CHR ''0'' then CHR ''0'' else CHR '' '');
                (align_nr, rest) = parse_align (if f = CHR ''0'' then fs else fmt) 0 in
            (case rest of
               [] \<Rightarrow> Inl (BadAccess ''fmt'')
             | d # ds \<Rightarrow>
                 res_bind (convert d args) (\<lambda>(inner, args').
                 res_bind (vsprintf ds args') (\<lambda>s. Inr (pad cs align_nr inner @ s)))))"
  by pat_completeness auto

termination vsprintf
  by (relation "measure (\<lambda>(fmt, args). length fmt)") (auto dest!: parse_align_rest split: if_splits)

section \<open>Strings in memory\<close>

definition cstring :: "memory \<Rightarrow> u32 \<Rightarrow> u8 list \<Rightarrow> bool" where
  "cstring m a s \<longleftrightarrow> read_bytes m a (Suc (length s)) = s @ [0] \<and> 0 \<notin> set s"

lemma read_bytes_Suc: "read_bytes m a (Suc n) = m a # read_bytes m (a + 1) n"
  by (rule nth_equalityI) (auto simp: nth_Cons add.assoc simp flip: of_nat_Suc split: nat.splits)

lemma cstring_Nil [simp]: "cstring m a [] \<longleftrightarrow> m a = 0"
  by (simp add: cstring_def read_bytes_def)

lemma cstring_Cons [simp]: "cstring m a (c # s) \<longleftrightarrow> m a = c \<and> c \<noteq> 0 \<and> cstring m (a + 1) s"
  by (auto simp: cstring_def read_bytes_Suc [of _ _ "Suc _"])

lemma cstring_cong:
  "cstring m a s \<Longrightarrow> (\<And>x. x \<in> block_addrs a (Suc (length s)) \<Longrightarrow> m' x = m x) \<Longrightarrow> cstring m' a s"
  unfolding cstring_def by (metis read_bytes_cong)

lemma sint_u8_eq: "sint (x :: u8) = sint y \<longleftrightarrow> x = y"
  by (metis word_eq_iff_signed)

lemma sint_diff_0: "sint (x :: u8) - sint y = 0 \<longleftrightarrow> x = y"
  by (simp add: sint_u8_eq)

lemma memcmp_loop_eq_0: "memcmp_loop m p1 p2 n = 0 \<longleftrightarrow> read_bytes m p1 n = read_bytes m p2 n"
proof (induction n arbitrary: p1 p2)
  case 0
  then show ?case by (simp add: read_bytes_def)
next
  case (Suc n)
  then show ?case by (simp add: read_bytes_Suc sint_u8_eq)
qed

lemma strcmp_loop_spec:
  assumes "cstring m a xs" and "cstring m b ys"
  shows "\<exists>v. strcmp_loop m a b = Some v \<and> (v = 0 \<longleftrightarrow> xs = ys)"
  using assms
proof (induction xs arbitrary: a b ys)
  case Nil
  then show ?case
    using sint_diff_0 [of 0 "m b"] by (subst strcmp_loop.simps) (cases ys; simp)
next
  case (Cons x xs)
  show ?case
  proof (cases ys)
    case Nil
    with Cons.prems show ?thesis
      using sint_diff_0 [of "m a" 0] by (subst strcmp_loop.simps) auto
  next
    case (Cons y ys')
    show ?thesis
    proof (cases "x = y")
      case True
      with Cons Cons.prems have "strcmp_loop m a b = strcmp_loop m (a + 1) (b + 1)"
        by (subst strcmp_loop.simps) simp
      with True Cons Cons.prems Cons.IH [of "a + 1" "b + 1" ys'] show ?thesis by simp
    next
      case False
      with Cons Cons.prems show ?thesis
        using sint_diff_0 [of "m a" "m b"] by (subst strcmp_loop.simps) simp
    qed
  qed
qed

lemma str_end_spec: "cstring m a s \<Longrightarrow> str_end m a = Some (a + of_nat (length s))"
proof (induction s arbitrary: a)
  case Nil
  then show ?case by (subst str_end.simps) simp
next
  case (Cons c s)
  then have "str_end m a = str_end m (a + 1)" by (subst str_end.simps) simp
  with Cons show ?case by (simp add: add.assoc)
qed

lemma strcat_copy_spec:
  assumes "cstring m b ys" and "disjoint_blocks p (Suc (length ys)) b (Suc (length ys))"
    and "length ys < 2 ^ 32"
  shows "\<exists>m'. strcat_copy m p b = Some m' \<and> cstring m' p ys \<and>
    (\<forall>x. x \<notin> block_addrs p (Suc (length ys)) \<longrightarrow> m' x = m x)"
  using assms
proof (induction ys arbitrary: m p b)
  case Nil
  then show ?case by (subst strcat_copy.simps) (auto simp: block_addrs_Suc)
next
  case (Cons y ys)
  let ?m = "m(p := y)"
  have dj: "disjoint_blocks (p + 1) (Suc (length ys)) (b + 1) (Suc (length ys))"
    and p: "p \<notin> block_addrs (b + 1) (Suc (length ys))"
    using Cons.prems(2) unfolding disjoint_blocks_def length_Cons block_addrs_Suc [of _ "Suc _"] by auto
  have "cstring m (b + 1) ys" using Cons.prems(1) by simp
  then have "cstring ?m (b + 1) ys"
    by (rule cstring_cong) (metis fun_upd_other p)
  moreover have "length ys < 2 ^ 32" using Cons.prems(3) by simp
  ultimately obtain m' where m': "strcat_copy ?m (p + 1) (b + 1) = Some m'"
    "cstring m' (p + 1) ys" "\<And>x. x \<notin> block_addrs (p + 1) (Suc (length ys)) \<Longrightarrow> m' x = ?m x"
    using Cons.IH [OF _ dj] by blast
  have notin: "p \<notin> block_addrs (p + 1) (Suc (length ys))"
    using Cons.prems(3) by (intro block_start_notin) simp
  have step: "strcat_copy m p b = Some m'"
    using m'(1) Cons.prems(1) by (subst strcat_copy.simps) simp
  have "cstring m' p (y # ys)" using m'(2,3) notin Cons.prems(1) by simp
  moreover have "m' x = m x" if "x \<notin> block_addrs p (Suc (length (y # ys)))" for x
    using m'(3) [of x] that unfolding length_Cons block_addrs_Suc [of p "Suc _"] by auto
  ultimately show ?case using step by blast
qed

section \<open>The value of a numeral\<close>

definition digit_val :: "char \<Rightarrow> int" where
  "digit_val c = (if of_char c < (65 :: int) then of_char c - 48 else of_char c - 55)"

definition digits_val :: "int \<Rightarrow> string \<Rightarrow> int" where
  "digits_val b s = foldl (\<lambda>acc c. acc * b + digit_val c) 0 s"

lemma digit_val_char:
  "0 \<le> n \<Longrightarrow> n < 16 \<Longrightarrow> digit_val (char_of (if n < 10 then n + 48 else n - 10 + 65)) = n"
  by (simp add: digit_val_def)

lemma digits_val_i2a:
  assumes "2 \<le> b" and "b \<le> 16" and "0 \<le> v"
  shows "digits_val b (i2a v b) = v"
  using assms
proof (induction v b rule: i2a.induct)
  case (1 v b)
  let ?q = "v sdiv b" and ?m = "v smod b"
  have qm: "?q = v div b" "?m = v mod b" "0 \<le> ?m" "?m < 16" "0 \<le> ?q"
    using 1(2-4) pos_mod_bound [of b v]
    by (auto simp: signed_divide_int_def signed_modulo_int_def sgn_if pos_imp_zdiv_nonneg_iff
        minus_div_mult_eq_mod intro: order.strict_trans2 [of _ b])
  have IH: "digits_val b (if ?q \<noteq> 0 \<and> 2 \<le> b then i2a ?q b else []) = ?q"
    using 1 qm(5) by (auto simp: digits_val_def)
  have "digits_val b (i2a v b) = ?q * b + ?m"
    using IH digit_val_char [OF qm(3,4)]
    by (subst i2a.simps) (simp add: Let_def digits_val_def)
  then show ?case using qm(1,2) by simp
qed

text \<open>No digit is the zero byte, so the copy out of \<^verbatim>\<open>inner_buf\<close> does not stop early.\<close>

lemma digit_val_neg: "digit_val (CHR 0x00) < 0" "digit_val (CHR ''-'') < 0"
  by (simp_all add: digit_val_def)

lemma i2a_digits:
  assumes "2 \<le> b" and "b \<le> 16" and "0 \<le> v" and "c \<in> set (i2a v b)"
  shows "c \<noteq> CHR 0x00" and "c \<noteq> CHR ''-''"
proof -
  have *: "(\<forall>c \<in> set (i2a v b). c \<noteq> CHR 0x00 \<and> c \<noteq> CHR ''-'')"
    using assms(1-3)
  proof (induction v b rule: i2a.induct)
    case (1 v b)
    let ?m = "v smod b"
    have qm: "0 \<le> ?m" "?m < 16" "0 \<le> v sdiv b"
      using 1(2-4) pos_mod_bound [of b v]
      by (auto simp: signed_divide_int_def signed_modulo_int_def sgn_if pos_imp_zdiv_nonneg_iff
          minus_div_mult_eq_mod intro: order.strict_trans2 [of _ b])
    have "digit_val (char_of (if ?m < 10 then ?m + 48 else ?m - 10 + 65)) \<ge> 0"
      using digit_val_char [OF qm(1,2)] qm(1) by simp
    then have "char_of (if ?m < 10 then ?m + 48 else ?m - 10 + 65) \<noteq> CHR 0x00"
      "char_of (if ?m < 10 then ?m + 48 else ?m - 10 + 65) \<noteq> CHR ''-''"
      using digit_val_neg by force+
    with 1 qm(3) show ?case by (subst i2a.simps) (auto simp: Let_def)
  qed
  with assms(4) show "c \<noteq> CHR 0x00" "c \<noteq> CHR ''-''" by auto
qed

lemma pad_plain:
  assumes "CHR 0x00 \<notin> set s"
  shows "pad cs n s = replicate (nat (n - int (length s))) cs @ s"
proof -
  have "takeWhile (\<lambda>c. c \<noteq> CHR 0x00) s = s"
    using assms by (intro takeWhile_eq_all_conv [THEN iffD2]) auto
  then show ?thesis by (simp only: pad_def Let_def)
qed

lemma pad_i2a: "2 \<le> b \<Longrightarrow> b \<le> 16 \<Longrightarrow> 0 \<le> v \<Longrightarrow>
  pad cs n (i2a v b) = replicate (nat (n - int (length (i2a v b)))) cs @ i2a v b"
  using i2a_digits(1) [of b v] by (intro pad_plain) auto

lemma sint_word_of_int: "- (2 ^ 31) \<le> v \<Longrightarrow> v < 2 ^ 31 \<Longrightarrow> sint (word_of_int v :: u32) = v"
  by (simp add: sint_sbintrunc' signed_take_bit_int_eq_self)

text \<open>The nibbles of a word, from position \<open>4 * k\<close> down.\<close>

lemma digit_val_hex: "digit_val (hex_digit (drop_bit i num AND 0xF)) = uint num div 2 ^ i mod 16"
proof -
  have ch: "uint (drop_bit i num AND 0xF) = uint num div 2 ^ i mod 16"
    using uint_bounded [of num]
    by (simp only: mask_simps unsigned_take_bit_eq unsigned_drop_bit_eq)
      (simp add: take_bit_eq_mod drop_bit_eq_div)
  have "0 \<le> uint num div 2 ^ i mod 16" "uint num div 2 ^ i mod 16 < 16" by simp_all
  then show ?thesis
    using digit_val_char [of "uint num div 2 ^ i mod 16"]
    by (simp add: hex_digit_def ch Let_def algebra_simps split: if_splits)
qed

lemma nibble_step:
  "uint (num :: u32) mod 16 ^ Suc k = uint num div 2 ^ (4 * k) mod 16 * 16 ^ k + uint num mod 16 ^ k"
proof -
  have "(2 :: int) ^ (4 * k) = 16 ^ k" by (simp add: power_mult)
  then show ?thesis
    using zmod_zmult2_eq [of 16 "uint num" "16 ^ k"] by (simp add: mult.commute)
qed

lemma itoa_loop_value:
  "foldl (\<lambda>acc c. acc * 16 + digit_val c) (if flag then a else 0)
     (itoa_loop num (map ((*) 4) (rev [0..<k])) flag)
   = (if flag then a * 16 ^ k else 0) + uint num mod 16 ^ k"
proof (induction k arbitrary: flag a)
  case 0
  then show ?case by simp
next
  case (Suc k)
  let ?n = "uint num div 2 ^ (4 * k) mod 16"
  have zero: "?n = 0" if "\<not> drop_bit (4 * k) num AND 0xF > 0"
    using that digit_val_hex [of "4 * k" num] by (simp add: word_gt_0 hex_digit_def digit_val_def)
  show ?case
  proof (cases "flag \<or> drop_bit (4 * k) num AND 0xF > 0")
    case True
    then show ?thesis
      using Suc.IH [of True "(if flag then a else 0) * 16 + ?n"] nibble_step [of num k]
      by (auto simp: Let_def digit_val_hex algebra_simps)
  next
    case False
    then show ?thesis
      using Suc.IH [of False a] nibble_step [of num k] zero by (simp add: Let_def)
  qed
qed

lemma itoa_value: "digits_val 16 (drop 2 (itoa num)) = uint num"
proof (cases "num = 0")
  case True
  then show ?thesis by (simp add: itoa_def digits_val_def digit_val_def)
next
  case False
  have "[28, 24, 20, 16, 12, 8, 4, 0] = map ((*) 4) (rev [0..<8])"
    by (simp add: upt_rec)
  then have "digits_val 16 (drop 2 (itoa num)) = uint num mod 16 ^ 8"
    using False itoa_loop_value [of False 0 num 8] by (simp add: itoa_def digits_val_def)
  also have "\<dots> = uint num" using uint_bounded [of num] by simp
  finally show ?thesis .
qed

section \<open>Properties\<close>

text \<open>
  \<^verbatim>\<open>strcmp\<close> on two strings in memory returns, and returns 0 exactly when they are equal.
\<close>

theorem strcmp_correct:
  assumes "cstring m a xs" and "cstring m b ys" and "a \<noteq> 0" and "b \<noteq> 0"
  shows "\<exists>v. strcmp m a b = Some v \<and> (v = 0 \<longleftrightarrow> xs = ys)"
  using strcmp_loop_spec [OF assms(1,2)] assms(3,4) by (simp add: strcmp_def)

text \<open>
  \<^verbatim>\<open>strcat\<close> leaves the concatenation at its first argument and changes nothing but the bytes
  it appends, when the target area does not overlap the second string.
\<close>

theorem strcat_correct:
  assumes "cstring m a xs" and "cstring m b ys" and "a \<noteq> 0" and "b \<noteq> 0"
    and "length xs + length ys < 2 ^ 32"
    and "disjoint_blocks (a + of_nat (length xs)) (Suc (length ys)) b (Suc (length ys))"
  shows "\<exists>m'. strcat m a b = Some (m', a) \<and> cstring m' a (xs @ ys) \<and>
    (\<forall>x. x \<notin> block_addrs (a + of_nat (length xs)) (Suc (length ys)) \<longrightarrow> m' x = m x)"
proof -
  let ?p = "a + of_nat (length xs)"
  obtain m' where m': "strcat_copy m ?p b = Some m'" "cstring m' ?p ys"
    "\<And>x. x \<notin> block_addrs ?p (Suc (length ys)) \<Longrightarrow> m' x = m x"
    using strcat_copy_spec [OF assms(2,6)] assms(5) by auto
  have "cstring m' a (xs @ ys)"
    using assms(1,5) m'(2,3)
  proof (induction xs arbitrary: a)
    case (Cons x xs)
    have "a \<notin> block_addrs (a + of_nat (length (x # xs))) (Suc (length ys))"
    proof
      assume "a \<in> block_addrs (a + of_nat (length (x # xs))) (Suc (length ys))"
      then obtain i where i: "i < Suc (length ys)" and "a = a + of_nat (length (x # xs)) + of_nat i"
        by (auto simp: block_addrs_def)
      then have "a + 1 + of_nat (length xs + i) = a" by simp
      moreover have "a + 1 + of_nat (length xs + i) \<in> block_addrs (a + 1) (Suc (length xs + i))"
        by (rule block_addrs_nth) simp
      moreover have "Suc (length xs + i) < 2 ^ 32" using i Cons.prems(2) by simp
      ultimately show False using block_start_notin [of "Suc (length xs + i)" a] by metis
    qed
    then show ?case
      using Cons.IH [of "a + 1"] Cons.prems by (simp add: add.assoc)
  qed simp
  with m' assms(3,4) str_end_spec [OF assms(1)] show ?thesis by (simp add: strcat_def)
qed

text \<open>
  The text \<^verbatim>\<open>itoa\<close> prints after the prefix is the hexadecimal numeral of its argument.
\<close>

theorem itoa_correct: "take 2 (itoa num) = ''0x'' \<and> digits_val 16 (drop 2 (itoa num)) = uint num"
  by (simp add: itoa_value) (simp add: itoa_def)


theorem strcmp_correct_witness:
  "\<exists>v. strcmp (write_bytes (\<lambda>_. 0) 8 [73, 78, 0, 73, 78, 0]) 8 11 = Some v \<and> (v = 0 \<longleftrightarrow> [73, 78 :: u8] = [73, 78])"
  by (rule strcmp_correct [of "write_bytes (\<lambda>_. 0) 8 [73, 78, 0, 73, 78, 0]" 8 "[73, 78]" 11 "[73, 78]"])
    simp_all

theorem strcat_correct_witness:
  "\<exists>m'. strcat (write_bytes (\<lambda>_. 0) 8 [97, 0, 0, 0, 98, 99]) 8 12 = Some (m', 8) \<and>
    cstring m' 8 ([97] @ [98, 99]) \<and>
    (\<forall>x. x \<notin> block_addrs (8 + of_nat (length [97 :: u8])) (Suc (length [98 :: u8, 99])) \<longrightarrow>
      m' x = write_bytes (\<lambda>_. 0) 8 [97, 0, 0, 0, 98, 99] x)"
  by (rule strcat_correct) (simp_all add: disjoint_blocks_def block_addrs_Suc)


text \<open>
  \<^verbatim>\<open>%x\<close> of a negative \<^verbatim>\<open>int\<close> does not print a hexadecimal numeral: \<^verbatim>\<open>i2a\<close> works on the signed
  value, and the remainder of \<open>-1\<close> gives the character before \<^verbatim>\<open>0\<close>.
\<close>

theorem hex_negative: "vsprintf ''%x'' [VInt (- 1)] = Inr ''/''"
  by (simp add: is_digit_def i2a.simps signed_divide_int_def signed_modulo_int_def pad_def Let_def
      char_of_def bit_iff_odd)

end
