(* ===== verification/Boot.thy ===== *)
theory Boot
  imports Ipc Klib
begin

text \<open>
  Start-up: the boot parameters (\<^verbatim>\<open>lib/klib.c\<close>), the process table left by \<^verbatim>\<open>init_prot\<close>
  (\<^verbatim>\<open>kernel/protect.c\<close>) and \<^verbatim>\<open>kernel_main\<close> (\<^verbatim>\<open>kernel/main.c\<close>). Addresses the linker chooses (the
  entry points of the tasks, the stack area, the literal \<^verbatim>\<open>ELFMAG\<close>) and the GDT the loader built
  are parameters.
\<close>

section \<open>Boot parameters\<close>

definition BOOT_PARAM_ADDR :: u32 where [const_simps]: "BOOT_PARAM_ADDR = 0x900"
definition BOOT_PARAM_MAGIC :: int where [const_simps]: "BOOT_PARAM_MAGIC = 0xB007"
definition BI_MAG :: u32 where [const_simps]: "BI_MAG = 0"
definition BI_MEM_SIZE :: u32 where [const_simps]: "BI_MEM_SIZE = 1"
definition BI_KERNEL_FILE :: u32 where [const_simps]: "BI_KERNEL_FILE = 2"
definition SELFMAG :: nat where [simp, const_simps]: "SELFMAG = 4"

record boot_params =
  mem_size :: int
  kernel_file :: u32

definition get_boot_params :: "memory \<Rightarrow> u32 \<Rightarrow> boot_params res" where
  "get_boot_params m elfmag =
     (let p = (\<lambda>i. BOOT_PARAM_ADDR + 4 * i) in
      kassert (read_int m (p BI_MAG) = BOOT_PARAM_MAGIC) ''get_boot_params: magic'' (
      let bp = \<lparr>mem_size = read_int m (p BI_MEM_SIZE), kernel_file = read_u32 m (p BI_KERNEL_FILE)\<rparr> in
      kassert (memcmp m (kernel_file bp) elfmag SELFMAG = 0) ''get_boot_params: ELFMAG'' (Inr bp)))"

text \<open>Fields of the ELF header and of a section header, at the offsets of the ELF-32 format.\<close>

definition read_u16 :: "memory \<Rightarrow> u32 \<Rightarrow> u16" where
  "read_u16 m a = ucast (m a) OR push_bit 8 (ucast (m (a + 1)))"

definition e_shoff :: "memory \<Rightarrow> u32 \<Rightarrow> u32" where "e_shoff m h = read_u32 m (h + 32)"
definition e_shentsize :: "memory \<Rightarrow> u32 \<Rightarrow> u16" where "e_shentsize m h = read_u16 m (h + 46)"
definition e_shnum :: "memory \<Rightarrow> u32 \<Rightarrow> u16" where "e_shnum m h = read_u16 m (h + 48)"
definition sh_flags :: "memory \<Rightarrow> u32 \<Rightarrow> u32" where "sh_flags m s = read_u32 m (s + 8)"
definition sh_addr :: "memory \<Rightarrow> u32 \<Rightarrow> u32" where "sh_addr m s = read_u32 m (s + 12)"
definition sh_size :: "memory \<Rightarrow> u32 \<Rightarrow> u32" where "sh_size m s = read_u32 m (s + 20)"

definition SHF_ALLOC :: u32 where [const_simps]: "SHF_ALLOC = 2"

text \<open>The loop over the section headers: \<open>(b, t)\<close> are \<^verbatim>\<open>*b\<close> and \<^verbatim>\<open>t\<close>.\<close>

fun kernel_sections :: "memory \<Rightarrow> u32 \<Rightarrow> nat list \<Rightarrow> u32 \<times> u32 \<Rightarrow> u32 \<times> u32" where
  "kernel_sections m h [] (b, t) = (b, t)"
| "kernel_sections m h (i # is) (b, t) =
     (let s = h + e_shoff m h + of_nat i * ucast (e_shentsize m h) in
      if sh_flags m s AND SHF_ALLOC \<noteq> 0 then
        let bottom = sh_addr m s; top = sh_addr m s + sh_size m s in
        kernel_sections m h is (if b > bottom then bottom else b, if t < top then top else t)
      else kernel_sections m h is (b, t))"

text \<open>
  \<^verbatim>\<open>get_kernel_map\<close> returns its result with \<^verbatim>\<open>*b\<close>, \<^verbatim>\<open>*l\<close> and the memory after the call; the
  test of the ELF magic number is a \<^verbatim>\<open>memcpy\<close>, which returns its first argument.
\<close>

definition get_kernel_map :: "memory \<Rightarrow> u32 \<Rightarrow> (int \<times> u32 \<times> u32 \<times> memory) res" where
  "get_kernel_map m elfmag =
     res_bind (get_boot_params m elfmag) (\<lambda>bp.
     let h = kernel_file bp; m' = memcpy m h elfmag SELFMAG in
     if h \<noteq> 0 then Inr (-1, 0, 0, m')
     else
       let (b, t) = kernel_sections m' h [0..<unat (e_shnum m' h)] (NOT 0, 0) in
       kassert (b < t) ''get_kernel_map'' (Inr (0, b, t - b - 1, m')))"

section \<open>The process table\<close>

definition zero_regs :: stackframe where
  "zero_regs = \<lparr>r_gs = 0, r_fs = 0, r_es = 0, r_ds = 0, r_edi = 0, r_esi = 0, r_ebp = 0,
     r_kernel_esp = 0, r_ebx = 0, r_edx = 0, r_ecx = 0, r_eax = 0, r_retaddr = 0, r_eip = 0,
     r_cs = 0, r_eflags = 0, r_esp = 0, r_ss = 0\<rparr>"

definition zero_descriptor :: descriptor where
  "zero_descriptor = \<lparr>limit_low = 0, base_low = 0, base_mid = 0, attr1 = 0, limit_high_attr2 = 0, base_high = 0\<rparr>"

text \<open>\<^verbatim>\<open>memset(&proc_table[i], 0, sizeof(struct proc))\<close> and the LDT selector.\<close>

definition zero_proc :: "nat \<Rightarrow> proc" where
  "zero_proc i =
     \<lparr>regs = zero_regs, ldt_sel = SELECTOR_LDT_FIRST + push_bit 3 (of_nat i),
      ldts = [zero_descriptor, zero_descriptor], p_ticks = 0, priority = 0, p_pid = 0, p_name = [],
      p_flags = 0, p_msg = 0, p_recvfrom = 0, p_sendto = 0, has_int_msg = 0, q_sending = None,
      next_sending = None, nr_tty = 0, p_parent = 0, exit_status = 0,
      filp = replicate NR_FILES None\<rparr>"

definition init_prot_procs :: "proc list" where
  "init_prot_procs = map zero_proc [0..<NR_TASKS + NR_PROCS]"

record boot_env =
  gdt :: "descriptor list"
  entry_point :: "nat \<Rightarrow> u32"
  task_stack :: u32

definition STACK_SIZE_DEFAULT :: u32 where [const_simps]: "STACK_SIZE_DEFAULT = 0x4000"
definition STACK_SIZE_TOTAL :: u32 where [const_simps]: "STACK_SIZE_TOTAL = 9 * STACK_SIZE_DEFAULT"
definition SA_TIL :: u32 where [const_simps]: "SA_TIL = 4"
definition SA_RPL_MASK :: u32 where [const_simps]: "SA_RPL_MASK = 0xFFFC"

text \<open>The names of \<^verbatim>\<open>task_table\<close> followed by those of \<^verbatim>\<open>user_proc_table\<close>; all stacks are equal.\<close>

definition task_names :: "string list" where
  "task_names = [''TTY'', ''SYS'', ''HD'', ''FS'', ''MM'', ''INIT'', ''TestA'', ''TestB'', ''TestC'']"

definition init_ldts :: "boot_env \<Rightarrow> (int \<times> u32 \<times> u32 \<times> memory) res \<Rightarrow> nat \<Rightarrow> u16 \<Rightarrow> descriptor list res" where
  "init_ldts env kmap i priv =
     (if task_names ! i \<noteq> ''INIT'' then
        Inr [(gdt env ! unat (drop_bit 3 SELECTOR_KERNEL_CS))\<lparr>attr1 := ucast (DA_C OR push_bit 5 priv)\<rparr>,
             (gdt env ! unat (drop_bit 3 SELECTOR_KERNEL_DS))\<lparr>attr1 := ucast (DA_DRW OR push_bit 5 priv)\<rparr>]
      else
        res_bind kmap (\<lambda>(ret, k_base, k_limit, m).
        kassert (ret = 0) ''kernel_main: get_kernel_map'' (
        Inr [init_descriptor 0 (drop_bit LIMIT_4K_SHIFT (k_base + k_limit))
               (DA_32 OR DA_LIMIT_4K OR DA_C OR push_bit 5 priv),
             init_descriptor 0 (drop_bit LIMIT_4K_SHIFT (k_base + k_limit))
               (DA_32 OR DA_LIMIT_4K OR DA_DRW OR push_bit 5 priv)])))"

definition init_proc ::
  "boot_env \<Rightarrow> (int \<times> u32 \<times> u32 \<times> memory) res \<Rightarrow> nat \<Rightarrow> u32 \<Rightarrow> u16 \<Rightarrow> proc \<Rightarrow> proc res" where
  "init_proc env kmap i stk selector_ldt p =
     (let task = i < NR_TASKS; priv = (if task then 1 else 3); rpl = (if task then 1 else 3);
          prio = (if task then 15 else 5);
          ds = push_bit 3 (of_nat INDEX_LDT_RW) OR SA_TIL OR rpl in
      res_bind (init_ldts env kmap i priv) (\<lambda>ds_ldts.
      Inr (p\<lparr>p_name := task_names ! i, p_parent := NO_TASK, ldts := ds_ldts,
             ldt_sel := selector_ldt,
             regs := (regs p)\<lparr>r_cs := push_bit 3 (of_nat INDEX_LDT_C) OR SA_TIL OR rpl,
               r_ds := ds, r_es := ds, r_fs := ds, r_ss := ds,
               r_gs := (ucast SELECTOR_KERNEL_GS AND SA_RPL_MASK) OR rpl,
               r_eip := entry_point env i, r_esp := stk,
               r_eflags := (if task then 0x1202 else 0x202)\<rparr>,
             p_ticks := prio, priority := prio,
             p_flags := 0, p_msg := 0, p_recvfrom := NO_TASK, p_sendto := NO_TASK,
             has_int_msg := 0, q_sending := None, next_sending := None,
             filp := replicate NR_FILES None\<rparr>)))"

text \<open>The \<^verbatim>\<open>for\<close> loop over the table.\<close>

primrec init_procs ::
  "boot_env \<Rightarrow> (int \<times> u32 \<times> u32 \<times> memory) res \<Rightarrow> proc list \<Rightarrow> nat \<Rightarrow> u32 \<Rightarrow> u16 \<Rightarrow> proc list res" where
  "init_procs env kmap [] i stk selector_ldt = Inr []"
| "init_procs env kmap (p # ps) i stk selector_ldt =
     (if i \<ge> NR_TASKS + NR_NATIVE_PROCS then
        res_bind (init_procs env kmap ps (Suc i) stk selector_ldt) (\<lambda>qs. Inr (p\<lparr>p_flags := FREE_SLOT\<rparr> # qs))
      else
        res_bind (init_proc env kmap i stk selector_ldt p) (\<lambda>q.
        res_bind (init_procs env kmap ps (Suc i) (stk - STACK_SIZE_DEFAULT) (selector_ldt + push_bit 3 1)) (\<lambda>qs.
        Inr (q # qs))))"

definition set_tty :: "proc list \<Rightarrow> proc list" where
  "set_tty pt =
     (let a = pt[NR_TASKS + 1 := (pt ! (NR_TASKS + 1))\<lparr>nr_tty := 2\<rparr>];
          b = a[NR_TASKS + 2 := (a ! (NR_TASKS + 2))\<lparr>nr_tty := 1\<rparr>]
      in b[NR_TASKS + 3 := (b ! (NR_TASKS + 3))\<lparr>nr_tty := 2\<rparr>])"

definition start_kernel :: "boot_env \<Rightarrow> (int \<times> u32 \<times> u32 \<times> memory) res \<Rightarrow> memory \<Rightarrow> kernel res" where
  "start_kernel env kmap m =
     res_bind (init_procs env kmap init_prot_procs 0 (task_stack env + STACK_SIZE_TOTAL) SELECTOR_LDT_FIRST) (\<lambda>pt.
     Inr \<lparr>proc_table = set_tty pt, p_proc_ready = 0, k_reenter = 0, k_ticks = 0, key_pressed = 0,
          mem = (case kmap of Inr (_, _, _, m') \<Rightarrow> m' | Inl _ \<Rightarrow> m)\<rparr>)"

definition kernel_main :: "boot_env \<Rightarrow> u32 \<Rightarrow> memory \<Rightarrow> kernel res" where
  "kernel_main env elfmag m = start_kernel env (get_kernel_map m elfmag) m"

section \<open>The state after a successful start\<close>

text \<open>What the loop leaves in slot \<open>i\<close>: a ready native process, or a free slot.\<close>

definition fresh_proc :: "nat \<Rightarrow> proc \<Rightarrow> bool" where
  "fresh_proc i q \<longleftrightarrow> q_sending q = None \<and> next_sending q = None \<and> has_int_msg q = 0 \<and> filp q = replicate NR_FILES None \<and>
     (if i < NR_TASKS + NR_NATIVE_PROCS
      then ipc_idle q \<and> ldt_seg_linear q INDEX_LDT_RW = 0 \<and>
        priority q = (if i < NR_TASKS then 15 else 5) \<and> p_ticks q = priority q
      else p_flags q = FREE_SLOT)"

lemma fresh_native:
  assumes "fresh_proc i q" and "i < NR_TASKS + NR_NATIVE_PROCS"
  shows "ipc_idle q" "p_flags q = 0" "ldt_seg_linear q INDEX_LDT_RW = 0"
    "priority q = (if i < NR_TASKS then 15 else 5)" "p_ticks q = priority q" "has_int_msg q = 0"
  using assms by (simp_all add: fresh_proc_def ipc_idle_def)

lemma fresh_free:
  assumes "fresh_proc i q" and "\<not> i < NR_TASKS + NR_NATIVE_PROCS"
  shows "p_flags q = FREE_SLOT"
  using assms by (simp add: fresh_proc_def)

definition flat_gdt :: "boot_env \<Rightarrow> bool" where
  "flat_gdt env \<longleftrightarrow> descriptor_base (gdt env ! 2) = 0"

lemma seg_linear_base: "ldt_seg_linear p i = descriptor_base (ldts p ! i)"
  by (simp add: ldt_seg_linear_def descriptor_base_def Let_def)

lemma descriptor_base_attr1 [simp]: "descriptor_base (d\<lparr>attr1 := a\<rparr>) = descriptor_base d"
  by (simp add: descriptor_base_def)

lemma init_ldts_flat:
  assumes "flat_gdt env"
  shows "\<exists>ds. init_ldts env (Inr (0, b, l, m)) i priv = Inr ds \<and> descriptor_base (ds ! INDEX_LDT_RW) = 0"
  using assms by (auto simp: init_ldts_def flat_gdt_def SELECTOR_KERNEL_DS_def)

lemma init_proc_fresh:
  assumes "flat_gdt env" and "i < NR_TASKS + NR_NATIVE_PROCS"
  shows "\<exists>q. init_proc env (Inr (0, b, l, m)) i stk sel p = Inr q \<and> fresh_proc i q"
proof -
  obtain ds where "init_ldts env (Inr (0, b, l, m)) i (if i < NR_TASKS then 1 else 3) = Inr ds"
    "descriptor_base (ds ! INDEX_LDT_RW) = 0"
    using init_ldts_flat [OF assms(1)] by blast
  with assms(2) show ?thesis
    by (auto simp: init_proc_def Let_def fresh_proc_def ipc_idle_def seg_linear_base)
qed

lemma init_procs_fresh:
  assumes "flat_gdt env"
    and "\<forall>p \<in> set ps. q_sending p = None \<and> next_sending p = None \<and> has_int_msg p = 0 \<and> filp p = replicate NR_FILES None"
  shows "\<exists>qs. init_procs env (Inr (0, b, l, m)) ps i stk sel = Inr qs \<and> length qs = length ps \<and>
    (\<forall>j < length ps. fresh_proc (i + j) (qs ! j))"
  using assms(2)
proof (induction ps arbitrary: i stk sel)
  case Nil
  then show ?case by simp
next
  case (Cons p ps)
  have step: "\<forall>j < length (p # ps). fresh_proc (i + j) ((q # qs) ! j)"
    if "fresh_proc i q" "\<forall>j < length ps. fresh_proc (Suc i + j) (qs ! j)" for q qs
    using that by (auto simp: less_Suc_eq_0_disj)
  show ?case
  proof (cases "i \<ge> NR_TASKS + NR_NATIVE_PROCS")
    case True
    obtain qs where qs: "init_procs env (Inr (0, b, l, m)) ps (Suc i) stk sel = Inr qs"
      "length qs = length ps" "\<forall>j < length ps. fresh_proc (Suc i + j) (qs ! j)"
      using Cons.IH Cons.prems by (metis list.set_intros(2))
    have "fresh_proc i (p\<lparr>p_flags := FREE_SLOT\<rparr>)" using True Cons.prems by (simp add: fresh_proc_def)
    from step [OF this qs(3)] True qs(1,2) show ?thesis by auto
  next
    case False
    obtain qs where qs: "init_procs env (Inr (0, b, l, m)) ps (Suc i) (stk - STACK_SIZE_DEFAULT) (sel + push_bit 3 1) = Inr qs"
      "length qs = length ps" "\<forall>j < length ps. fresh_proc (Suc i + j) (qs ! j)"
      using Cons.IH Cons.prems by (metis list.set_intros(2))
    obtain q where q: "init_proc env (Inr (0, b, l, m)) i stk sel p = Inr q" "fresh_proc i q"
      using init_proc_fresh [OF assms(1)] False by (metis not_le)
    from step [OF q(2) qs(3)] False q(1) qs(1,2) show ?thesis by auto
  qed
qed

lemma fresh_proc_tty [simp]: "fresh_proc i (q\<lparr>nr_tty := t\<rparr>) = fresh_proc i q"
  by (simp add: fresh_proc_def ipc_idle_def ldt_seg_linear_def)

text \<open>A table of fresh processes satisfies the kernel invariant: nobody sends, all queues are empty.\<close>

lemma fresh_ipc_inv:
  assumes "length pt = NR_TASKS + NR_PROCS" and "\<And>i. i < length pt \<Longrightarrow> fresh_proc i (pt ! i)"
  shows "ipc_inv pt" and "\<And>d. d < length pt \<Longrightarrow> send_queue pt d = []"
proof -
  have flags: "p_flags (pt ! i) = FREE_SLOT \<or> ipc_idle (pt ! i)" if "i < length pt" for i
    using fresh_native(1) [OF assms(2) [OF that]] fresh_free [OF assms(2) [OF that]] by blast
  have nosend: "\<not> has_flag (pt ! i) SENDING" "\<not> has_flag (pt ! i) RECEIVING" if "i < length pt" for i
    using flags [OF that] by (auto simp: ipc_idle_def has_flag_def const_simps)
  then have edges: "send_edges pt = {}" by (auto simp: send_edges_def)
  then have acyc: "acyclic (send_edges pt)" by (simp add: wf_acyclic)
  have ok: "proc_ok i (pt ! i)" if "i < length pt" for i
    using flags [OF that] nosend [OF that] by (auto simp: proc_ok_def ipc_idle_def FREE_SLOT_def)
  have queue: "is_queue pt d []" if "d < length pt" for d
    using assms(2) [OF that] by (simp add: is_queue_def fresh_proc_def)
  note I = ipc_invI [of pt "\<lambda>_. []", OF assms(1) ok queue]
  show "ipc_inv pt" by (rule I(1)) (use edges acyc in auto)
  show "send_queue pt d = []" if "d < length pt" for d by (rule I(2)) (use edges acyc that in auto)
qed

text \<open>When \<^verbatim>\<open>get_kernel_map\<close> succeeds, the loop ends and leaves fresh processes.\<close>

lemma start_kernel_fresh:
  assumes "flat_gdt env"
  shows "\<exists>k. start_kernel env (Inr (0, b, l, m')) m = Inr k \<and> mem k = m' \<and> k_reenter k = 0 \<and>
    k_ticks k = 0 \<and> p_proc_ready k = 0 \<and> length (proc_table k) = NR_TASKS + NR_PROCS \<and>
    (\<forall>i < NR_TASKS + NR_PROCS. fresh_proc i (proc_of k i))"
proof -
  have zero: "\<forall>p \<in> set init_prot_procs. q_sending p = None \<and> next_sending p = None \<and> has_int_msg p = 0 \<and> filp p = replicate NR_FILES None"
    by (auto simp: init_prot_procs_def zero_proc_def)
  obtain qs where qs: "init_procs env (Inr (0, b, l, m')) init_prot_procs 0 (task_stack env + STACK_SIZE_TOTAL)
      SELECTOR_LDT_FIRST = Inr qs" "length qs = NR_TASKS + NR_PROCS"
    "\<forall>j < NR_TASKS + NR_PROCS. fresh_proc j (qs ! j)"
    using init_procs_fresh [OF assms zero, of b l m' 0] by (fastforce simp: init_prot_procs_def)
  then have "fresh_proc i (set_tty qs ! i)" if "i < NR_TASKS + NR_PROCS" for i
    using that by (simp add: set_tty_def Let_def nth_list_update)
  with qs show ?thesis by (simp add: start_kernel_def set_tty_def)
qed

lemma fresh_kinv:
  assumes "length (proc_table k) = NR_TASKS + NR_PROCS"
    and "\<forall>i < NR_TASKS + NR_PROCS. fresh_proc i (proc_of k i)"
  shows "kinv k"
proof -
  have "seg_base k i = 0" if "i < NR_TASKS + NR_NATIVE_PROCS" for i
    using fresh_native(3) [of i "proc_of k i"] assms(2) that by (simp add: seg_base_def)
  with fresh_ipc_inv(1) [of "proc_table k"] assms show ?thesis by (simp add: kinv_def)
qed

text \<open>
  C29: A start with a flat kernel data segment whose \<^verbatim>\<open>get_kernel_map\<close> succeeds ends, with the
  kernel invariant established and all nine native processes ready.
\<close>

theorem start_kernel_kinv:
  assumes "descriptor_base (gdt env ! 2) = 0"
  shows "\<exists>k. start_kernel env (Inr (0, b, l, m')) m = Inr k \<and> kinv k \<and> k_reenter k = 0 \<and>
    (\<forall>i < NR_TASKS + NR_NATIVE_PROCS. status (abs_ipc k) ! i = Ready)"
proof -
  obtain k where k: "start_kernel env (Inr (0, b, l, m')) m = Inr k" "k_reenter k = 0"
    "length (proc_table k) = NR_TASKS + NR_PROCS" "\<forall>i < NR_TASKS + NR_PROCS. fresh_proc i (proc_of k i)"
    using start_kernel_fresh [of env b l m' m] assms by (auto simp: flat_gdt_def)
  then have "status (abs_ipc k) ! i = Ready" if "i < NR_TASKS + NR_NATIVE_PROCS" for i
    using that fresh_native(2) [of i "proc_of k i"] by (simp add: status_of_def)
  with k fresh_kinv [OF k(3,4)] show ?thesis by blast
qed

text \<open>The kernel map is never found: a magic number that is there makes the result -1.\<close>

lemma kernel_map_never:
  assumes "elfmag \<noteq> 0"
  shows "get_kernel_map m elfmag \<noteq> Inr (0, b, l, m')"
proof
  assume "get_kernel_map m elfmag = Inr (0, b, l, m')"
  then obtain bp where bp: "get_boot_params m elfmag = Inr bp" "kernel_file bp = 0"
    by (auto simp: get_kernel_map_def Let_def res_simps split: if_splits)
  then have "memcmp m 0 elfmag SELFMAG = 0"
    by (auto simp: get_boot_params_def Let_def res_simps)
  then have "sint (- elfmag) = sint (0 :: u32)" by (simp add: memcmp_def)
  with assms show False by (metis neg_equal_0_iff_equal word_eq_iff_signed)
qed

lemma init_procs_needs_map:
  assumes "\<And>b l m'. kmap \<noteq> Inr (0, b, l, m')" and "i \<le> INIT" and "INIT < i + length ps"
  shows "\<exists>f. init_procs env kmap ps i stk sel = Inl f"
  using assms(2,3)
proof (induction ps arbitrary: i stk sel)
  case (Cons p ps)
  show ?case
  proof (cases "i = INIT")
    case True
    have "\<exists>f. init_proc env kmap INIT stk sel p = Inl f"
    proof (cases kmap)
      case (Inr r)
      then have "fst r \<noteq> 0" using assms(1) by (cases r) auto
      with Inr show ?thesis
        by (cases r) (simp add: init_proc_def init_ldts_def task_names_def Let_def)
    qed (simp add: init_proc_def init_ldts_def task_names_def Let_def)
    with True show ?thesis by auto
  next
    case False
    with Cons.prems have i: "Suc i \<le> INIT" "INIT < Suc i + length ps" by auto
    with Cons.IH [of "Suc i" "stk - STACK_SIZE_DEFAULT" "sel + push_bit 3 1"] obtain f
      where "init_procs env kmap ps (Suc i) (stk - STACK_SIZE_DEFAULT) (sel + push_bit 3 1) = Inl f"
      by blast
    with i(1) show ?thesis by (cases "init_proc env kmap i stk sel p") simp_all
  qed
qed simp

text \<open>
  C30: As written, the start never succeeds. \<^verbatim>\<open>get_kernel_map\<close> tests the ELF magic number with
  \<^verbatim>\<open>memcpy\<close> instead of \<^verbatim>\<open>memcmp\<close>; \<^verbatim>\<open>memcpy\<close> returns the address of the header, so the
  function returns -1 and the assertion of \<^verbatim>\<open>kernel_main\<close> fails, whatever the memory holds.
\<close>

theorem kernel_main_never_starts:
  assumes "elfmag \<noteq> 0"
  shows "\<exists>f. kernel_main env elfmag m = Inl f"
proof -
  have "\<exists>f. init_procs env (get_kernel_map m elfmag) init_prot_procs 0
      (task_stack env + STACK_SIZE_TOTAL) SELECTOR_LDT_FIRST = Inl f"
    by (rule init_procs_needs_map) (use kernel_map_never [OF assms] in \<open>auto simp: init_prot_procs_def\<close>)
  then show ?thesis by (auto simp: kernel_main_def start_kernel_def)
qed

section \<open>A concrete start\<close>

text \<open>The GDT of \<^verbatim>\<open>boot/loader.asm\<close> in its first entries, and a start with an empty memory.\<close>

definition loader_env :: boot_env where
  "loader_env =
     \<lparr>gdt = [zero_descriptor, init_descriptor 0 0xFFFFF (0x9A OR DA_32 OR DA_LIMIT_4K),
             init_descriptor 0 0xFFFFF (DA_DRW OR DA_32 OR DA_LIMIT_4K)],
      entry_point = (\<lambda>i. 0x1000 + of_nat i), task_stack = 0x20000\<rparr>"

definition booted :: kernel where
  "booted = (case start_kernel loader_env (Inr (0, 0x1000, 0x8000, \<lambda>_. 0)) (\<lambda>_. 0) of Inr k \<Rightarrow> k)"

lemma loader_flat: "flat_gdt loader_env"
  by (simp add: flat_gdt_def loader_env_def)

lemma booted_fresh:
  "k_reenter booted = 0" "mem booted = (\<lambda>_. 0)" "p_proc_ready booted = 0"
  "length (proc_table booted) = NR_TASKS + NR_PROCS"
  "i < NR_TASKS + NR_PROCS \<Longrightarrow> fresh_proc i (proc_of booted i)"
  using start_kernel_fresh [OF loader_flat, of "0x1000" "0x8000" "\<lambda>_. 0" "\<lambda>_. 0"]
  by (auto simp: booted_def)

lemma booted_kinv: "kinv booted"
  by (rule fresh_kinv) (simp_all add: booted_fresh)

lemma booted_native:
  assumes "i < NR_TASKS + NR_NATIVE_PROCS"
  shows "p_flags (proc_of booted i) = 0" "plain_receiver (proc_of booted i)"
    "has_int_msg (proc_of booted i) = 0" "ipc_idle (proc_of booted i)"
    "0 < p_ticks (proc_of booted i)" "0 < priority (proc_of booted i)"
  using fresh_native [OF booted_fresh(5) [of i] assms] assms
  by (simp_all add: plain_receiver_def flag_0)

theorem start_kernel_kinv_witness:
  "\<exists>k. start_kernel loader_env (Inr (0, 0x1000, 0x8000, \<lambda>_. 0)) (\<lambda>_. 0) = Inr k \<and> kinv k \<and>
    k_reenter k = 0 \<and> (\<forall>i < NR_TASKS + NR_NATIVE_PROCS. status (abs_ipc k) ! i = Ready)"
  by (rule start_kernel_kinv) (simp add: loader_env_def)

theorem kernel_main_never_starts_witness: "\<exists>f. kernel_main loader_env 0x5000 (\<lambda>_. 0) = Inl f"
  by (rule kernel_main_never_starts) simp

end
