(* ===== verification/Hd.thy ===== *)
theory Hd
  imports Boot "HOL-Library.Signed_Division"
begin

text \<open>
  The hard disk driver \<^verbatim>\<open>kernel/hd.c\<close>. The state extends the kernel's by the driver's variables and
  by what the drive does: the samples of clock and status register a polling loop will see, the
  sectors that successive reads of the data port return, and how many interrupts will come. The
  bytes written to the ports are logged. \<^verbatim>\<open>hdbuf\<close> is the address of the static array.
\<close>

section \<open>Constants and data\<close>

definition SECTOR_SIZE :: nat where [simp, const_simps]: "SECTOR_SIZE = 512"
definition SECTOR_SIZE_SHIFT :: nat where [simp, const_simps]: "SECTOR_SIZE_SHIFT = 9"
definition MAX_DRIVES :: int where [simp, const_simps]: "MAX_DRIVES = 2"
definition NR_PART_PER_DRIVE :: nat where [simp, const_simps]: "NR_PART_PER_DRIVE = 4"
definition NR_SUB_PER_PART :: nat where [simp, const_simps]: "NR_SUB_PER_PART = 16"
definition NR_SUB_PER_DRIVE :: int where [simp, const_simps]: "NR_SUB_PER_DRIVE = int (NR_SUB_PER_PART * NR_PART_PER_DRIVE)"
definition NR_PRIM_PER_DRIVE :: int where [simp, const_simps]: "NR_PRIM_PER_DRIVE = int (NR_PART_PER_DRIVE + 1)"
definition MAX_PRIM :: int where [simp, const_simps]: "MAX_PRIM = MAX_DRIVES * NR_PRIM_PER_DRIVE - 1"
definition MINOR_hd1a :: int where [simp, const_simps]: "MINOR_hd1a = 0x10"
definition NO_PART :: u8 where [const_simps]: "NO_PART = 0x00"
definition EXT_PART :: u8 where [const_simps]: "EXT_PART = 0x05"
definition DIOCTL_GET_GEO :: int where [simp, const_simps]: "DIOCTL_GET_GEO = 1"

definition REG_DATA :: u16 where [const_simps]: "REG_DATA = 0x1F0"
definition REG_FEATURES :: u16 where [const_simps]: "REG_FEATURES = 0x1F1"
definition REG_NSECTOR :: u16 where [const_simps]: "REG_NSECTOR = 0x1F2"
definition REG_LBA_LOW :: u16 where [const_simps]: "REG_LBA_LOW = 0x1F3"
definition REG_LBA_MID :: u16 where [const_simps]: "REG_LBA_MID = 0x1F4"
definition REG_LBA_HIGH :: u16 where [const_simps]: "REG_LBA_HIGH = 0x1F5"
definition REG_DEVICE :: u16 where [const_simps]: "REG_DEVICE = 0x1F6"
definition REG_STATUS :: u16 where [const_simps]: "REG_STATUS = 0x1F7"
definition REG_CMD :: u16 where [const_simps]: "REG_CMD = REG_STATUS"
definition REG_DEV_CTRL :: u16 where [const_simps]: "REG_DEV_CTRL = 0x3F6"
definition STATUS_BSY :: u8 where [const_simps]: "STATUS_BSY = 0x80"
definition STATUS_DRQ :: u8 where [const_simps]: "STATUS_DRQ = 0x08"
definition HD_TIMEOUT :: int where [simp, const_simps]: "HD_TIMEOUT = 10000"
definition PARTITION_TABLE_OFFSET :: u32 where [const_simps]: "PARTITION_TABLE_OFFSET = 0x1BE"
definition ATA_IDENTIFY :: u8 where [const_simps]: "ATA_IDENTIFY = 0xEC"
definition ATA_READ :: u8 where [const_simps]: "ATA_READ = 0x20"
definition ATA_WRITE :: u8 where [const_simps]: "ATA_WRITE = 0x30"

record part_ent =
  boot_ind :: u8
  start_head :: u8
  start_sector :: u8
  start_cyl :: u8
  sys_id :: u8
  end_head :: u8
  end_sector :: u8
  end_cyl :: u8
  start_sect :: u32
  pe_nr_sects :: u32

record hd_cmd =
  features :: u8
  cmd_count :: u8
  lba_low :: u8
  lba_mid :: u8
  lba_high :: u8
  cmd_device :: u8
  command :: u8

record part_info =
  part_base :: u32
  part_size :: u32

record hd_info =
  open_cnt :: int
  primary :: "part_info list"
  logical :: "part_info list"

datatype hd_io = OutByte u16 u8 | OutData "u8 list"

record hd_state = kernel +
  hd_info :: hd_info
  hd_status :: u8
  hdbuf :: u32
  hd_polls :: "(int \<times> u8) list"
  hd_sect :: "nat \<Rightarrow> nat \<Rightarrow> u8"
  hd_nread :: nat
  hd_irqs :: nat
  hd_out :: "hd_io list"

definition MAKE_DEVICE_REG :: "u8 \<Rightarrow> u8 \<Rightarrow> u8 \<Rightarrow> u8" where
  "MAKE_DEVICE_REG lba drv lba_highest = push_bit 6 lba OR push_bit 4 drv OR (lba_highest AND 0xF) OR 0xA0"

definition DRV_OF_DEV :: "int \<Rightarrow> int" where
  "DRV_OF_DEV dev = (if dev \<le> MAX_PRIM then dev sdiv NR_PRIM_PER_DRIVE else (dev - MINOR_hd1a) sdiv NR_SUB_PER_DRIVE)"

section \<open>The controller\<close>

definition hd_write_port :: "u16 \<Rightarrow> u8 \<Rightarrow> hd_state \<Rightarrow> hd_state" where
  "hd_write_port p b s = s\<lparr>hd_out := hd_out s @ [OutByte p b]\<rparr>"

text \<open>
  The loop of \<^verbatim>\<open>waitfor\<close> for the clock value at its start: every turn asks SYS for the ticks and
  reads the status. The difference is never large enough to overflow, and a negative one counts as
  no time passed whichever way the division rounds.
\<close>

primrec wait_loop :: "int \<Rightarrow> u8 \<Rightarrow> u8 \<Rightarrow> int \<Rightarrow> (int \<times> u8) list \<Rightarrow> (bool \<times> (int \<times> u8) list) res" where
  "wait_loop t msk val timeout [] = Inl Spins"
| "wait_loop t msk val timeout (p # ps) =
     (if (fst p - t) * 1000 div 100 < timeout then
        if snd p AND msk = val then Inr (True, ps) else wait_loop t msk val timeout ps
      else Inr (False, ps))"

definition waitfor :: "u8 \<Rightarrow> u8 \<Rightarrow> int \<Rightarrow> hd_state \<Rightarrow> (bool \<times> hd_state) res" where
  "waitfor msk val timeout s =
     (case hd_polls s of
        [] \<Rightarrow> Inl Spins
      | p # ps \<Rightarrow> res_bind (wait_loop (fst p) msk val timeout ps) (\<lambda>(ok, rest). Inr (ok, s\<lparr>hd_polls := rest\<rparr>)))"

definition interrupt_wait :: "hd_state \<Rightarrow> hd_state res" where
  "interrupt_wait s = (if hd_irqs s = 0 then Inl Spins else Inr (s\<lparr>hd_irqs := hd_irqs s - 1\<rparr>))"

definition hd_cmd_out :: "hd_cmd \<Rightarrow> hd_state \<Rightarrow> hd_state res" where
  "hd_cmd_out cmd s =
     res_bind (waitfor STATUS_BSY 0 HD_TIMEOUT s) (\<lambda>(ok, s1).
     if \<not> ok then Inl (Panic ''hd error.'')
     else Inr (hd_write_port REG_CMD (command cmd) (hd_write_port REG_DEVICE (cmd_device cmd)
       (hd_write_port REG_LBA_HIGH (lba_high cmd) (hd_write_port REG_LBA_MID (lba_mid cmd)
       (hd_write_port REG_LBA_LOW (lba_low cmd) (hd_write_port REG_NSECTOR (cmd_count cmd)
       (hd_write_port REG_FEATURES (features cmd) (hd_write_port REG_DEV_CTRL 0 s1)))))))))"

definition port_read_sector :: "hd_state \<Rightarrow> hd_state" where
  "port_read_sector s = s\<lparr>mem := write_bytes (mem s) (hdbuf s) (map (hd_sect s (hd_nread s)) [0..<SECTOR_SIZE]),
     hd_nread := hd_nread s + 1\<rparr>"

definition hd_handler :: "u8 \<Rightarrow> hd_state \<Rightarrow> hd_state res" where
  "hd_handler st s = inform_int TASK_HD (s\<lparr>hd_status := st\<rparr>)"

text \<open>The command that moves \<open>n\<close> sectors from \<open>sect_nr\<close>.\<close>

definition rw_cmd :: "u8 \<Rightarrow> int \<Rightarrow> u8 \<Rightarrow> u32 \<Rightarrow> hd_cmd" where
  "rw_cmd com drive n sect_nr =
     \<lparr>features = 0, cmd_count = n, lba_low = ucast (sect_nr AND 0xFF),
      lba_mid = ucast (drop_bit 8 sect_nr AND 0xFF), lba_high = ucast (drop_bit 16 sect_nr AND 0xFF),
      cmd_device = MAKE_DEVICE_REG 1 (word_of_int drive) (ucast (drop_bit 24 sect_nr AND 0xF)), command = com\<rparr>"

section \<open>Partitions\<close>

definition read_part_ent :: "memory \<Rightarrow> u32 \<Rightarrow> part_ent" where
  "read_part_ent m a = \<lparr>boot_ind = m a, start_head = m (a + 1), start_sector = m (a + 2), start_cyl = m (a + 3),
     sys_id = m (a + 4), end_head = m (a + 5), end_sector = m (a + 6), end_cyl = m (a + 7),
     start_sect = read_u32 m (a + 8), pe_nr_sects = read_u32 m (a + 12)\<rparr>"

definition get_part_table :: "int \<Rightarrow> u32 \<Rightarrow> hd_state \<Rightarrow> (part_ent list \<times> hd_state) res" where
  "get_part_table drive sect_nr s =
     res_bind (hd_cmd_out (rw_cmd ATA_READ drive 1 sect_nr) s) (\<lambda>s1.
     res_bind (interrupt_wait s1) (\<lambda>s2.
     let s3 = port_read_sector s2 in
     Inr (map (\<lambda>i. read_part_ent (mem s3) (hdbuf s3 + PARTITION_TABLE_OFFSET + of_nat (16 * i))) [0..<NR_PART_PER_DRIVE], s3)))"

definition set_logical :: "nat \<Rightarrow> part_info \<Rightarrow> hd_state \<Rightarrow> hd_state" where
  "set_logical i p s = s\<lparr>hd_info := (hd_info s)\<lparr>logical := (logical (hd_info s))[i := p]\<rparr>\<rparr>"

definition set_primary :: "nat \<Rightarrow> part_info \<Rightarrow> hd_state \<Rightarrow> hd_state" where
  "set_primary i p s = s\<lparr>hd_info := (hd_info s)\<lparr>primary := (primary (hd_info s))[i := p]\<rparr>\<rparr>"

text \<open>The chain of an extended partition: the first argument counts the turns left.\<close>

primrec partition_extended :: "nat \<Rightarrow> int \<Rightarrow> u32 \<Rightarrow> u32 \<Rightarrow> nat \<Rightarrow> hd_state \<Rightarrow> hd_state res" where
  "partition_extended 0 drive ext_start_sect sect dev_nr s = Inr s"
| "partition_extended (Suc n) drive ext_start_sect sect dev_nr s =
     res_bind (get_part_table drive sect s) (\<lambda>(tbl, s1).
     let s2 = set_logical dev_nr \<lparr>part_base = sect + start_sect (tbl ! 0), part_size = pe_nr_sects (tbl ! 0)\<rparr> s1 in
     if sys_id (tbl ! 1) = NO_PART then Inr s2
     else partition_extended n drive ext_start_sect (ext_start_sect + start_sect (tbl ! 1)) (dev_nr + 1) s2)"

primrec partition_primary :: "nat list \<Rightarrow> part_ent list \<Rightarrow> nat \<Rightarrow> hd_state \<Rightarrow> (nat \<times> hd_state) res" where
  "partition_primary [] tbl nr s = Inr (nr, s)"
| "partition_primary (i # is) tbl nr s =
     (let e = tbl ! i; dev_nr = i + 1 in
      if sys_id e = NO_PART then partition_primary is tbl nr s
      else
        let s1 = set_primary dev_nr \<lparr>part_base = start_sect e, part_size = pe_nr_sects e\<rparr> s in
        res_bind (if sys_id e = EXT_PART
                  then partition_extended NR_SUB_PER_PART 0 (start_sect e) (start_sect e) (i * NR_SUB_PER_PART) s1
                  else Inr s1)
          (partition_primary is tbl (nr + 1)))"

text \<open>Partition tables of drive 0, the only one.\<close>

definition partition :: "hd_state \<Rightarrow> hd_state res" where
  "partition s =
     res_bind (get_part_table 0 0 s) (\<lambda>(tbl, s1).
     res_bind (partition_primary [0..<NR_PART_PER_DRIVE] tbl 0 s1) (\<lambda>(nr_prim_parts, s2).
     kassert (nr_prim_parts \<noteq> 0) ''partition'' (Inr s2)))"

text \<open>Only two registers of the IDENTIFY command are set, the rest of the structure is what the stack holds.\<close>

definition hd_identify :: "hd_cmd \<Rightarrow> hd_state \<Rightarrow> hd_state res" where
  "hd_identify junk s =
     res_bind (hd_cmd_out (junk\<lparr>cmd_device := MAKE_DEVICE_REG 0 0 0, command := ATA_IDENTIFY\<rparr>) s) (\<lambda>s1.
     res_bind (interrupt_wait s1) (\<lambda>s2.
     let s3 = port_read_sector s2 in
     Inr (set_primary 0 \<lparr>part_base = 0, part_size = read_u32 (mem s3) (hdbuf s3 + 120)\<rparr> s3)))"

section \<open>Requests\<close>

definition init_hd :: "hd_state \<Rightarrow> hd_state res" where
  "init_hd s =
     kassert (mem s 0x475 \<noteq> 0) ''init_hd'' (
     Inr (s\<lparr>hd_info := \<lparr>open_cnt = 0, primary = replicate (nat NR_PRIM_PER_DRIVE) \<lparr>part_base = 0, part_size = 0\<rparr>,
       logical = replicate (nat NR_SUB_PER_DRIVE) \<lparr>part_base = 0, part_size = 0\<rparr>\<rparr>\<rparr>))"

definition hd_open :: "hd_cmd \<Rightarrow> int \<Rightarrow> hd_state \<Rightarrow> hd_state res" where
  "hd_open junk device s =
     kassert (DRV_OF_DEV device = 0) ''hd_open'' (
     res_bind (hd_identify junk s) (\<lambda>s1.
     let c = open_cnt (hd_info s1); s2 = s1\<lparr>hd_info := (hd_info s1)\<lparr>open_cnt := c + 1\<rparr>\<rparr> in
     if c = 0 then partition s2 else Inr s2))"

definition hd_close :: "int \<Rightarrow> hd_state \<Rightarrow> hd_state res" where
  "hd_close device s =
     kassert (DRV_OF_DEV device = 0) ''hd_close'' (
     Inr (s\<lparr>hd_info := (hd_info s)\<lparr>open_cnt := open_cnt (hd_info s) - 1\<rparr>\<rparr>))"

text \<open>
  The entry of \<^verbatim>\<open>hd_info[drive]\<close> for a device; there is one drive, five primary and 64 logical
  entries.
\<close>

definition part_of :: "int \<Rightarrow> hd_state \<Rightarrow> part_info res" where
  "part_of device s =
     (let logidx = (device - MINOR_hd1a) smod NR_SUB_PER_DRIVE in
      if DRV_OF_DEV device \<noteq> 0 then Inl (BadAccess ''hd_info'')
      else if device < MAX_PRIM then
        if device < 0 \<or> device \<ge> NR_PRIM_PER_DRIVE then Inl (BadAccess ''hd_info: primary'')
        else Inr (primary (hd_info s) ! nat device)
      else if logidx < 0 then Inl (BadAccess ''hd_info: logical'')
      else Inr (logical (hd_info s) ! nat logidx))"

definition hd_ioctl :: "message \<Rightarrow> hd_state \<Rightarrow> hd_state res" where
  "hd_ioctl p s =
     kassert (m3i2 p = DIOCTL_GET_GEO) ''hd_ioctl'' (
     if \<not> valid_proc_nr (m3i3 p) then Inl (BadAccess ''va2la: proc_table'')
     else
       res_bind (va2la s (nat (m3i3 p)) (m3p2 p)) (\<lambda>dst.
       res_bind (part_of (m3i4 p) s) (\<lambda>g.
       Inr (s\<lparr>mem := write_bytes (mem s) dst (bytes_of_u32 (part_base g) @ bytes_of_u32 (part_size g))\<rparr>))))"

text \<open>
  The transfer. \<^verbatim>\<open>bytes_left\<close> becomes negative when the count is not a multiple of the sector
  size; the next turn would then copy a block of negative size.
\<close>

function hd_transfer :: "bool \<Rightarrow> u32 \<Rightarrow> int \<Rightarrow> hd_state \<Rightarrow> hd_state res" where
  "hd_transfer reading la bytes_left s =
     (if bytes_left = 0 then Inr s
      else if bytes_left < 0 then Inl (BadAccess ''hd_rdwt: negative size'')
      else
        let bytes = nat (min (int SECTOR_SIZE) bytes_left) in
        res_bind
          (if reading then
             res_bind (interrupt_wait s) (\<lambda>s1.
             let s2 = port_read_sector s1 in
             res_bind (va2la s2 TASK_HD (hdbuf s2)) (\<lambda>src.
             Inr (s2\<lparr>mem := phys_copy (mem s2) la src bytes\<rparr>)))
           else
             res_bind (waitfor STATUS_DRQ STATUS_DRQ HD_TIMEOUT s) (\<lambda>(ok, s1).
             if \<not> ok then Inl (Panic ''hd writing error.'')
             else interrupt_wait (s1\<lparr>hd_out := hd_out s1 @ [OutData (read_bytes (mem s1) la bytes)]\<rparr>)))
          (\<lambda>s'. hd_transfer reading (la + of_nat SECTOR_SIZE) (bytes_left - int SECTOR_SIZE) s'))"
  by pat_completeness auto

termination
  by (relation "measure (\<lambda>(reading, la, bytes_left, s). nat bytes_left)") auto

declare hd_transfer.simps [simp del]

text \<open>
  \<^verbatim>\<open>1 << 31\<close> is a negative \<^verbatim>\<open>int\<close>, which the comparison with the \<^verbatim>\<open>u64\<close> position extends with its
  sign.
\<close>

definition hd_rdwt :: "message \<Rightarrow> hd_state \<Rightarrow> hd_state res" where
  "hd_rdwt p s =
     (let drive = DRV_OF_DEV (m3i4 p); pos = m3l1 p in
      kassert (drop_bit SECTOR_SIZE_SHIFT pos < 0xFFFFFFFF80000000) ''hd_rdwt: pos'' (
      kassert (pos AND 0x1FF = 0) ''hd_rdwt: sector boundary'' (
      res_bind (part_of (m3i4 p) s) (\<lambda>part.
      let sect_nr = ucast (drop_bit SECTOR_SIZE_SHIFT pos) + part_base part;
          com = (if msg_type p = DEV_READ then ATA_READ else ATA_WRITE) in
      res_bind (hd_cmd_out (rw_cmd com drive (word_of_int ((m3i2 p + 511) sdiv 512)) sect_nr) s) (\<lambda>s1.
      if \<not> valid_proc_nr (m3i3 p) then Inl (BadAccess ''va2la: proc_table'')
      else res_bind (va2la s1 (nat (m3i3 p)) (m3p2 p)) (\<lambda>la.
      hd_transfer (msg_type p = DEV_READ) la (m3i2 p) s1))))))"

text \<open>One turn of \<^verbatim>\<open>task_hd\<close>; the message is sent back to its source.\<close>

definition task_hd :: "hd_cmd \<Rightarrow> message \<Rightarrow> hd_state \<Rightarrow> (hd_state \<times> int) res" where
  "task_hd junk msg s =
     res_bind
       (if msg_type msg = DEV_OPEN then hd_open junk (m3i4 msg) s
        else if msg_type msg = DEV_CLOSE then hd_close (m3i4 msg) s
        else if msg_type msg = DEV_READ \<or> msg_type msg = DEV_WRITE then hd_rdwt msg s
        else if msg_type msg = DEV_IOCTL then hd_ioctl msg s
        else Inl Spins)
       (\<lambda>s1. Inr (s1, msg_source msg))"

section \<open>Commands\<close>

text \<open>What the controller sees of a command, and the sector number it makes of it.\<close>

definition cmd_log :: "hd_cmd \<Rightarrow> hd_io list" where
  "cmd_log cmd = [OutByte REG_DEV_CTRL 0, OutByte REG_FEATURES (features cmd), OutByte REG_NSECTOR (cmd_count cmd),
     OutByte REG_LBA_LOW (lba_low cmd), OutByte REG_LBA_MID (lba_mid cmd), OutByte REG_LBA_HIGH (lba_high cmd),
     OutByte REG_DEVICE (cmd_device cmd), OutByte REG_CMD (command cmd)]"

definition lba_of :: "hd_cmd \<Rightarrow> u32" where
  "lba_of cmd = ucast (lba_low cmd) OR push_bit 8 (ucast (lba_mid cmd)) OR push_bit 16 (ucast (lba_high cmd)) OR
     push_bit 24 (ucast (cmd_device cmd AND 0xF))"

lemma device_reg_low: "MAKE_DEVICE_REG 1 0 x AND 0xF = x AND 0xF"
proof -
  have "MAKE_DEVICE_REG 1 0 x = (x AND 0xF) OR 0xE0"
    by (simp add: MAKE_DEVICE_REG_def or.commute or.left_commute)
  then show ?thesis by (simp add: bit.conj_disj_distrib2 and.assoc)
qed

lemma lba_rw_cmd: "lba_of (rw_cmd com 0 n sect_nr) = take_bit 28 sect_nr"
proof -
  have "cmd_device (rw_cmd com 0 n sect_nr) AND 0xF = ucast (drop_bit 24 sect_nr AND 0xF) AND 0xF"
    by (simp add: rw_cmd_def device_reg_low)
  then have eq: "lba_of (rw_cmd com 0 n sect_nr) =
      ucast (ucast (take_bit 8 sect_nr) :: u8) OR push_bit 8 (ucast (ucast (take_bit 8 (drop_bit 8 sect_nr)) :: u8)) OR
      push_bit 16 (ucast (ucast (take_bit 8 (drop_bit 16 sect_nr)) :: u8)) OR
      push_bit 24 (ucast (take_bit 4 (ucast (take_bit 4 (drop_bit 24 sect_nr)) :: u8)))"
    unfolding lba_of_def by (simp only: mask_simps) (simp add: rw_cmd_def and_0xFF)
  show ?thesis
  proof (rule bit_word_eqI)
    fix k assume "k < LENGTH(32)"
    then have "k < 8 \<or> (8 \<le> k \<and> k < 16) \<or> (16 \<le> k \<and> k < 24) \<or> (24 \<le> k \<and> k < 28) \<or> (28 \<le> k \<and> k < 32)" by auto
    then show "bit (lba_of (rw_cmd com 0 n sect_nr)) k = bit (take_bit 28 sect_nr) k"
      unfolding eq by (elim disjE) (auto simp: bit_simps)
  qed
qed

lemma waitfor_polls: "waitfor msk v t s = Inr (ok, s1) \<Longrightarrow> \<exists>ps. s1 = s\<lparr>hd_polls := ps\<rparr>"
  by (auto simp: waitfor_def res_simps split: list.splits)

lemma hd_cmd_out_ok:
  assumes "waitfor STATUS_BSY 0 HD_TIMEOUT s = Inr (True, s1)"
  shows "\<exists>ps. hd_cmd_out cmd s = Inr (s\<lparr>hd_polls := ps, hd_out := hd_out s @ cmd_log cmd\<rparr>)"
  using assms waitfor_polls [OF assms] by (auto simp: hd_cmd_out_def hd_write_port_def cmd_log_def)

section \<open>Reading\<close>

definition sector_bytes :: "hd_state \<Rightarrow> nat \<Rightarrow> u8 list" where
  "sector_bytes s i = map (hd_sect s i) [0..<SECTOR_SIZE]"

lemma length_sector_bytes [simp]: "length (sector_bytes s i) = 512"
  by (simp add: sector_bytes_def)

lemma sector_bytes_fields [simp]:
  "sector_bytes (s\<lparr>hd_polls := a\<rparr>) i = sector_bytes s i" "sector_bytes (s\<lparr>hd_out := b\<rparr>) i = sector_bytes s i"
  "sector_bytes (s\<lparr>hd_irqs := c\<rparr>) i = sector_bytes s i" "sector_bytes (s\<lparr>hd_nread := d\<rparr>) i = sector_bytes s i"
  "sector_bytes (s\<lparr>mem := m\<rparr>) i = sector_bytes s i"
  by (simp_all add: sector_bytes_def)

lemma kinv_hd_fields [simp]:
  "kinv (s\<lparr>hd_polls := a\<rparr>) = kinv s" "kinv (s\<lparr>hd_out := b\<rparr>) = kinv s" "kinv (s\<lparr>hd_irqs := c\<rparr>) = kinv s"
  "kinv (s\<lparr>hd_nread := d\<rparr>) = kinv s" "kinv (s\<lparr>mem := m\<rparr>) = kinv s"
  by (simp_all add: kinv_def seg_base_def)

lemma hd_buffer_address: "kinv s \<Longrightarrow> va2la s 2 a = Inr a"
  by (simp add: va2la_linear linear_def kinv_def)

lemma read_one:
  assumes k: "kinv s" and irq: "0 < hd_irqs s" and dj: "disjoint_blocks la 512 (hdbuf s) 512"
  obtains m where "hd_transfer True la (512 + int b) s =
      hd_transfer True (la + 512) (int b) (s\<lparr>hd_irqs := hd_irqs s - 1, hd_nread := hd_nread s + 1, mem := m\<rparr>)"
    "read_bytes m la 512 = sector_bytes s (hd_nread s)"
    "\<And>a. a \<notin> block_addrs la 512 \<Longrightarrow> a \<notin> block_addrs (hdbuf s) 512 \<Longrightarrow> m a = mem s a"
proof -
  let ?m1 = "write_bytes (mem s) (hdbuf s) (sector_bytes s (hd_nread s))"
  let ?m = "memcpy ?m1 la (hdbuf s) 512"
  have "hd_transfer True la (512 + int b) s =
      hd_transfer True (la + 512) (int b) (s\<lparr>hd_irqs := hd_irqs s - 1, hd_nread := hd_nread s + 1, mem := ?m\<rparr>)"
    using k irq by (subst hd_transfer.simps)
      (simp add: Let_def interrupt_wait_def port_read_sector_def hd_buffer_address phys_copy_def sector_bytes_def)
  moreover have "read_bytes ?m la 512 = sector_bytes s (hd_nread s)"
    using read_bytes_memcpy [OF dj] read_write_bytes [of "sector_bytes s (hd_nread s)" "mem s" "hdbuf s"] by simp
  moreover have "?m a = mem s a" if "a \<notin> block_addrs la 512" "a \<notin> block_addrs (hdbuf s) 512" for a
    using that by (simp add: memcpy_outside write_bytes_outside)
  ultimately show ?thesis using that by blast
qed

lemma hd_transfer_reads:
  assumes "kinv s" and "n \<le> hd_irqs s" and "disjoint_blocks la (512 * n) (hdbuf s) 512" and "512 * n \<le> 2 ^ 32"
  shows "\<exists>m. hd_transfer True la (512 * int n) s =
      Inr (s\<lparr>hd_irqs := hd_irqs s - n, hd_nread := hd_nread s + n, mem := m\<rparr>) \<and>
    read_bytes m la (512 * n) = concat (map (\<lambda>i. sector_bytes s (hd_nread s + i)) [0..<n]) \<and>
    (\<forall>a. a \<notin> block_addrs la (512 * n) \<and> a \<notin> block_addrs (hdbuf s) 512 \<longrightarrow> m a = mem s a)"
  using assms
proof (induction n arbitrary: la s)
  case 0
  have "s = s\<lparr>hd_irqs := hd_irqs s, hd_nread := hd_nread s, mem := mem s\<rparr>" by simp
  then show ?case by (intro exI [of _ "mem s"]) (simp add: hd_transfer.simps)
next
  case (Suc n)
  have blk: "block_addrs la (512 * Suc n) = block_addrs la 512 \<union> block_addrs (la + 512) (512 * n)"
    using block_addrs_add [of la 512 "512 * n"] by simp
  have dj: "disjoint_blocks la 512 (hdbuf s) 512" "disjoint_blocks (la + 512) (512 * n) (hdbuf s) 512"
    using Suc.prems(3) unfolding disjoint_blocks_def blk by auto
  have dj2: "disjoint_blocks la 512 (la + 512) (512 * n)"
    using block_split_disjoint [of 512 "512 * n" la] Suc.prems(4) by simp
  obtain m1 where m1: "hd_transfer True la (512 + int (512 * n)) s =
      hd_transfer True (la + 512) (int (512 * n)) (s\<lparr>hd_irqs := hd_irqs s - 1, hd_nread := hd_nread s + 1, mem := m1\<rparr>)"
    "read_bytes m1 la 512 = sector_bytes s (hd_nread s)"
    "\<And>a. a \<notin> block_addrs la 512 \<Longrightarrow> a \<notin> block_addrs (hdbuf s) 512 \<Longrightarrow> m1 a = mem s a"
    using read_one [OF Suc.prems(1) _ dj(1), of "512 * n"] Suc.prems(2) by auto
  let ?s = "s\<lparr>hd_irqs := hd_irqs s - 1, hd_nread := hd_nread s + 1, mem := m1\<rparr>"
  obtain m where m: "hd_transfer True (la + 512) (512 * int n) ?s =
      Inr (?s\<lparr>hd_irqs := hd_irqs ?s - n, hd_nread := hd_nread ?s + n, mem := m\<rparr>)"
    "read_bytes m (la + 512) (512 * n) = concat (map (\<lambda>i. sector_bytes ?s (hd_nread ?s + i)) [0..<n])"
    "\<forall>a. a \<notin> block_addrs (la + 512) (512 * n) \<and> a \<notin> block_addrs (hdbuf s) 512 \<longrightarrow> m a = m1 a"
  proof -
    have "n \<le> hd_irqs ?s" "kinv ?s" "disjoint_blocks (la + 512) (512 * n) (hdbuf ?s) 512" "512 * n \<le> 2 ^ 32"
      using Suc.prems dj(2) by simp_all
    from Suc.IH [OF this(2,1,3,4)] that show ?thesis by auto
  qed
  have "read_bytes m la 512 = read_bytes m1 la 512"
    by (rule read_bytes_cong) (use m(3) dj(1) dj2 in \<open>auto simp: disjoint_blocks_def\<close>)
  moreover have "read_bytes m la (512 * Suc n) = read_bytes m la 512 @ read_bytes m (la + 512) (512 * n)"
    using read_bytes_add [of m la 512 "512 * n"] by simp
  moreover have "map (\<lambda>i. sector_bytes s (hd_nread s + i)) [0..<Suc n] =
      sector_bytes s (hd_nread s) # map (\<lambda>i. sector_bytes s (hd_nread s + 1 + i)) [0..<n]"
    by (simp add: upt_conv_Cons map_Suc_upt [symmetric] del: upt_Suc)
  ultimately have "read_bytes m la (512 * Suc n) = concat (map (\<lambda>i. sector_bytes s (hd_nread s + i)) [0..<Suc n])"
    using m1(2) m(2) by simp
  moreover have "hd_transfer True la (512 * int (Suc n)) s =
      Inr (s\<lparr>hd_irqs := hd_irqs s - Suc n, hd_nread := hd_nread s + Suc n, mem := m\<rparr>)"
    using m1(1) m(1) by (simp add: algebra_simps)
  ultimately show ?case using m(3) m1(3) unfolding blk by (intro exI [of _ m]) auto
qed

text \<open>The first assertion of \<^verbatim>\<open>hd_rdwt\<close> cannot fail.\<close>

lemma sector_below: "drop_bit 9 (pos :: u64) < 0xFFFFFFFF80000000"
proof -
  have "unat (drop_bit 9 pos) = unat pos div 2 ^ 9" by (simp only: unat_drop_bit_eq) (simp add: drop_bit_eq_div)
  moreover have "unat pos < 2 ^ 64" using unsigned_less [of pos] by simp
  ultimately show ?thesis by (simp add: word_less_nat_alt)
qed

text \<open>
  A read request for \<open>n\<close> whole sectors at a sector boundary of a partition returns when the
  drive is ready and raises an interrupt per sector. The controller gets one READ command whose
  registers hold the sector number (partition base plus position) and the count; the sectors it
  delivers are in the caller's buffer in order, and nothing else changes but the driver's buffer.
\<close>

lemma hd_read_ok:
  assumes k: "kinv s" and msg: "msg_type p = DEV_READ" "m3i2 p = 512 * int n" "valid_proc_nr (m3i3 p)"
    and dev: "DRV_OF_DEV (m3i4 p) = 0" "part_of (m3i4 p) s = Inr part"
    and pos: "m3l1 p AND 0x1FF = 0" and n: "n \<le> 256"
    and ready: "waitfor STATUS_BSY 0 HD_TIMEOUT s = Inr (True, s1)" "n \<le> hd_irqs s"
    and dj: "disjoint_blocks (linear s (nat (m3i3 p)) (m3p2 p)) (512 * n) (hdbuf s) 512"
    and lba: "sect_nr = ucast (drop_bit 9 (m3l1 p)) + part_base part" "sect_nr < 2 ^ 28"
  shows "\<exists>s'. hd_rdwt p s = Inr s' \<and> hd_out s' = hd_out s @ cmd_log (rw_cmd ATA_READ 0 (of_nat n) sect_nr) \<and>
    read_bytes (mem s') (linear s (nat (m3i3 p)) (m3p2 p)) (512 * n) =
      concat (map (\<lambda>i. sector_bytes s (hd_nread s + i)) [0..<n]) \<and>
    (\<forall>a. a \<notin> block_addrs (linear s (nat (m3i3 p)) (m3p2 p)) (512 * n) \<and> a \<notin> block_addrs (hdbuf s) 512 \<longrightarrow>
      mem s' a = mem s a)"
proof -
  let ?la = "linear s (nat (m3i3 p)) (m3p2 p)"
  let ?cmd = "rw_cmd ATA_READ 0 (word_of_int ((m3i2 p + 511) sdiv 512)) sect_nr"
  have cnt: "(512 * int n + 511) sdiv 512 = int n" by (simp add: signed_divide_int_def sgn_if)
  obtain ps where ps: "hd_cmd_out ?cmd s = Inr (s\<lparr>hd_polls := ps, hd_out := hd_out s @ cmd_log ?cmd\<rparr>)"
    using hd_cmd_out_ok [OF ready(1)] by blast
  let ?s = "s\<lparr>hd_polls := ps, hd_out := hd_out s @ cmd_log ?cmd\<rparr>"
  have lin: "va2la ?s (nat (m3i3 p)) (m3p2 p) = Inr ?la" using k by (simp add: va2la_linear linear_def seg_base_def)
  obtain m where m: "hd_transfer True ?la (512 * int n) ?s =
      Inr (?s\<lparr>hd_irqs := hd_irqs ?s - n, hd_nread := hd_nread ?s + n, mem := m\<rparr>)"
    "read_bytes m ?la (512 * n) = concat (map (\<lambda>i. sector_bytes ?s (hd_nread s + i)) [0..<n])"
    "\<forall>a. a \<notin> block_addrs ?la (512 * n) \<and> a \<notin> block_addrs (hdbuf s) 512 \<longrightarrow> m a = mem s a"
    using hd_transfer_reads [of ?s n ?la] k ready(2) dj n by auto
  let ?s' = "?s\<lparr>hd_irqs := hd_irqs s - n, hd_nread := hd_nread s + n, mem := m\<rparr>"
  have "hd_rdwt p s = Inr ?s'"
    using dev msg pos sector_below ps lin m(1) by (simp add: hd_rdwt_def Let_def flip: lba(1))
  moreover have "?cmd = rw_cmd ATA_READ 0 (of_nat n) sect_nr" by (simp only: msg cnt of_int_of_nat_eq)
  ultimately show ?thesis using m(2,3) by (intro exI [of _ ?s']) (simp only: hd_state.simps kernel.simps simp_thms, simp)
qed

text \<open>
  A request whose count is not a multiple of the sector size never succeeds: the number of
  bytes left misses zero and the driver goes on with a block of negative size.
\<close>

theorem hd_rdwt_partial_sector:
  assumes "m3i2 p mod 512 \<noteq> 0"
  shows "hd_rdwt p s \<noteq> Inr s'"
proof -
  have loop: "b mod 512 \<noteq> 0 \<Longrightarrow> hd_transfer reading la b t \<noteq> Inr s'" for reading la b t
  proof (induction reading la b t rule: hd_transfer.induct)
    case (1 reading la b t)
    have "b \<noteq> 0" and nxt: "(b - 512) mod 512 \<noteq> 0" using 1(2) by auto
    show ?case
    proof (cases "b < 0")
      case True
      then show ?thesis by (subst hd_transfer.simps) simp
    next
      case False
      then have IH: "hd_transfer reading (la + 512) (b - 512) t' \<noteq> Inr s'" for t'
        using 1(1) [OF \<open>b \<noteq> 0\<close> False refl, of t'] nxt by simp
      show ?thesis using False \<open>b \<noteq> 0\<close> IH by (subst hd_transfer.simps) (auto simp: Let_def res_simps)
    qed
  qed
  show ?thesis using loop [OF assms] by (auto simp: hd_rdwt_def Let_def res_simps)
qed

section \<open>An example state\<close>

text \<open>The booted kernel with an idle drive whose first partition starts at sector 100.\<close>

definition hd_demo :: hd_state where
  "hd_demo = kernel.extend booted (hd_state.fields
     \<lparr>open_cnt = 1, primary = replicate 5 \<lparr>part_base = 100, part_size = 1000\<rparr>, logical = replicate 64 \<lparr>part_base = 0, part_size = 0\<rparr>\<rparr>
     0 0x40000 [(7, 0), (7, 0x80), (8, 0)] (\<lambda>i j. of_nat (i + j)) 0 2 [])"

definition demo_request :: "int \<Rightarrow> message" where
  "demo_request cnt = \<lparr>msg_source = 3, msg_type = DEV_READ, m3i1 = 0, m3i2 = cnt, m3i3 = 3, m3i4 = 1, m3l1 = 512, m3l2 = 0,
     m3p1 = 0, m3p2 = 0x20000\<rparr>"

lemma hd_demo_fields:
  "proc_table hd_demo = proc_table booted" "hd_irqs hd_demo = 2" "hdbuf hd_demo = 0x40000" "hd_out hd_demo = []" "hd_nread hd_demo = 0"
  "hd_polls hd_demo = [(7, 0), (7, 0x80), (8, 0)]" "primary (hd_info hd_demo) = replicate 5 \<lparr>part_base = 100, part_size = 1000\<rparr>"
  by (simp_all add: hd_demo_def kernel.extend_def hd_state.fields_def)

lemma hd_demo_kinv: "kinv hd_demo"
  using booted_kinv by (simp add: kinv_def seg_base_def hd_demo_fields)

lemma range_disjoint:
  fixes a b :: u32
  assumes "unat a + n \<le> unat b" and "unat b + k < 2 ^ 32"
  shows "disjoint_blocks a n b k"
proof -
  define d where "d = unat b - unat a"
  have b: "b = a + of_nat d" using assms(1) by (simp add: d_def of_nat_diff)
  have "disjoint_blocks a d (a + of_nat d) k"
    by (rule block_split_disjoint) (use assms in \<open>simp add: d_def\<close>)
  moreover have "n \<le> d" using assms(1) by (simp add: d_def)
  ultimately show ?thesis using block_addrs_mono [of n d a] unfolding b disjoint_blocks_def by blast
qed

theorem hd_rdwt_partial_sector_witness: "hd_rdwt (demo_request 100) hd_demo \<noteq> Inr hd_demo"
  by (rule hd_rdwt_partial_sector) (simp add: demo_request_def)

end
