(* ===== verification/Fs_Core.thy ===== *)
theory Fs_Core
  imports Hd
begin

text \<open>
  The file system task, first part (\<^verbatim>\<open>fs/main.c\<close>, \<^verbatim>\<open>include/sys/fs.h\<close>): its data, access to the
  disk through the driver, super blocks and the table of i-nodes. The state extends the kernel's.
  The contents of the devices are a function from device number and byte offset; theory Hd shows
  that the driver moves whole sectors between them and memory. \<^verbatim>\<open>fsbuf\<close> is the fixed buffer at 6 MB
  and structures are read from and written to it byte by byte. A pointer into a table is an index.
\<close>

section \<open>Constants and data\<close>

definition NR_FILE_DESC :: nat where [simp, const_simps]: "NR_FILE_DESC = 64"
definition NR_INODE :: nat where [simp, const_simps]: "NR_INODE = 64"
definition NR_SUPER_BLOCK :: nat where [simp, const_simps]: "NR_SUPER_BLOCK = 8"
definition NO_DEV :: int where [simp, const_simps]: "NO_DEV = 0"
definition DEV_HD :: int where [simp, const_simps]: "DEV_HD = 3"
definition DEV_CHAR_TTY :: int where [simp, const_simps]: "DEV_CHAR_TTY = 4"
definition INVALID_DRIVER :: int where [simp, const_simps]: "INVALID_DRIVER = -20"
definition MINOR_hd2a :: int where [simp, const_simps]: "MINOR_hd2a = 0x20"
definition INVALID_INODE :: int where [simp, const_simps]: "INVALID_INODE = 0"
definition ROOT_INODE :: int where [simp, const_simps]: "ROOT_INODE = 1"
definition MAGIC_V1 :: u32 where [const_simps]: "MAGIC_V1 = 0x111"
definition SUPER_BLOCK_SIZE :: nat where [simp, const_simps]: "SUPER_BLOCK_SIZE = 56"
definition INODE_SIZE :: nat where [simp, const_simps]: "INODE_SIZE = 32"
definition MAX_FILENAME_LEN :: nat where [simp, const_simps]: "MAX_FILENAME_LEN = 12"
definition DIR_ENTRY_SIZE :: nat where [simp, const_simps]: "DIR_ENTRY_SIZE = 16"
definition MAX_PATH :: int where [simp, const_simps]: "MAX_PATH = 128"
definition NR_DEFAULT_FILE_SECTS :: int where [simp, const_simps]: "NR_DEFAULT_FILE_SECTS = 2048"
definition I_TYPE_MASK :: u32 where [const_simps]: "I_TYPE_MASK = 0xF000"
definition I_REGULAR :: u32 where [const_simps]: "I_REGULAR = 0x8000"
definition I_DIRECTORY :: u32 where [const_simps]: "I_DIRECTORY = 0x4000"
definition I_CHAR_SPECIAL :: u32 where [const_simps]: "I_CHAR_SPECIAL = 0x2000"
definition O_CREAT :: u32 where [const_simps]: "O_CREAT = 1"
definition O_RDWR :: u32 where [const_simps]: "O_RDWR = 2"
definition SEEK_SET :: int where [simp, const_simps]: "SEEK_SET = 1"
definition SEEK_CUR :: int where [simp, const_simps]: "SEEK_CUR = 2"
definition SEEK_END :: int where [simp, const_simps]: "SEEK_END = 3"
definition fsbuf :: u32 where [const_simps]: "fsbuf = 0x600000"
definition FSBUF_SIZE :: int where [simp, const_simps]: "FSBUF_SIZE = 0x100000"

definition MAKE_DEV :: "int \<Rightarrow> int \<Rightarrow> int" where
  "MAKE_DEV a b = push_bit 8 a OR b"

definition MAJOR :: "int \<Rightarrow> int" where
  "MAJOR x = drop_bit 8 x AND 0xFF"

definition MINOR :: "int \<Rightarrow> int" where
  "MINOR x = x AND 0xFF"

definition ROOT_DEV :: int where
  "ROOT_DEV = MAKE_DEV DEV_HD MINOR_hd2a"

text \<open>The driver of each major device number.\<close>

definition dd_map :: "int list" where
  "dd_map = [INVALID_DRIVER, INVALID_DRIVER, INVALID_DRIVER, int TASK_HD, int TASK_TTY, INVALID_DRIVER]"

record super_block =
  magic :: u32
  nr_inodes :: u32
  nr_sects :: u32
  nr_imap_sects :: u32
  nr_smap_sects :: u32
  n_1st_sect :: u32
  nr_inode_sects :: u32
  sb_root_inode :: u32
  inode_size :: u32
  inode_isize_off :: u32
  inode_start_off :: u32
  dir_ent_size :: u32
  dir_ent_inode_off :: u32
  dir_ent_fname_off :: u32
  sb_dev :: int

record inode =
  i_mode :: u32
  i_size :: u32
  i_start_sect :: u32
  i_nr_sects :: u32
  i_dev :: int
  i_cnt :: int
  i_num :: int

record file_desc =
  fd_mode :: int
  fd_pos :: int
  fd_cnt :: int
  fd_inode :: "nat option"

text \<open>What FS sends besides the requests to the disk: \<^verbatim>\<open>DEV_OPEN\<close> for a minor device, a request to a driver, or a reply.\<close>

datatype fs_event = DevOpen int int | ToDriver int message | FsReply int message

record fs = kernel +
  disk :: "int \<Rightarrow> nat \<Rightarrow> u8"
  f_desc_table :: "file_desc list"
  inode_table :: "inode list"
  sb_table :: "super_block list"
  root_inode :: nat
  pcaller :: nat
  fs_msg :: message
  fs_sent :: "fs_event list"

abbreviation inode_of :: "fs \<Rightarrow> nat \<Rightarrow> inode" where
  "inode_of s i \<equiv> inode_table s ! i"

definition upd_inode :: "fs \<Rightarrow> nat \<Rightarrow> (inode \<Rightarrow> inode) \<Rightarrow> fs" where
  "upd_inode s i f = s\<lparr>inode_table := (inode_table s)[i := f (inode_of s i)]\<rparr>"

definition upd_desc :: "fs \<Rightarrow> nat \<Rightarrow> (file_desc \<Rightarrow> file_desc) \<Rightarrow> fs" where
  "upd_desc s d f = s\<lparr>f_desc_table := (f_desc_table s)[d := f (f_desc_table s ! d)]\<rparr>"

section \<open>The disk\<close>

definition driver_of :: "int \<Rightarrow> int res" where
  "driver_of dev =
     (if MAJOR dev \<ge> int (length dd_map) then Inl (BadAccess ''dd_map'')
      else kassert (dd_map ! nat (MAJOR dev) \<noteq> INVALID_DRIVER) ''rw_sector: driver'' (Inr (dd_map ! nat (MAJOR dev))))"

text \<open>
  \<^verbatim>\<open>rw_sector\<close> with what the disk driver does for the request: it asserts a position on a sector
  boundary and fails on a partial sector; it asks the controller for the number of sectors in a byte, so that with more than
  256 (for which the byte is 0) it waits for interrupts that do not come. Theory Disk_Driver proves that the driver does the
  rest. Positions are products of \<^verbatim>\<open>int\<close>s; one that would not fit is a fault.
\<close>

definition rw_sector :: "int \<Rightarrow> int \<Rightarrow> int \<Rightarrow> int \<Rightarrow> nat \<Rightarrow> u32 \<Rightarrow> fs \<Rightarrow> fs res" where
  "rw_sector io_type dev pos bytes proc_nr buf s =
     res_bind (driver_of dev) (\<lambda>drv.
     if drv \<noteq> int TASK_HD then Inl Spins
     else if pos < 0 \<or> pos \<ge> 2 ^ 31 then Inl (BadAccess ''rw_sector: position'')
     else if bytes < 0 \<or> bytes mod 512 \<noteq> 0 then Inl (BadAccess ''hd_rdwt: negative size'')
     else if bytes > 256 * 512 then Inl Spins
     else kassert (pos mod 512 = 0) ''hd_rdwt: sector boundary'' (
     res_bind (va2la s proc_nr buf) (\<lambda>la.
     let p = nat pos; n = nat bytes in
     if io_type = DEV_READ
     then Inr (s\<lparr>mem := write_bytes (mem s) la (map (disk s dev) [p..<p + n])\<rparr>)
     else Inr (s\<lparr>disk := (disk s)(dev := (\<lambda>i. if p \<le> i \<and> i < p + n then mem s (la + of_nat (i - p)) else disk s dev i))\<rparr>))))"

definition RD_SECT :: "int \<Rightarrow> int \<Rightarrow> fs \<Rightarrow> fs res" where
  "RD_SECT dev sect_nr s = rw_sector DEV_READ dev (sect_nr * int SECTOR_SIZE) (int SECTOR_SIZE) TASK_FS fsbuf s"

definition WR_SECT :: "int \<Rightarrow> int \<Rightarrow> fs \<Rightarrow> fs res" where
  "WR_SECT dev sect_nr s = rw_sector DEV_WRITE dev (sect_nr * int SECTOR_SIZE) (int SECTOR_SIZE) TASK_FS fsbuf s"

text \<open>Bytes of the buffer.\<close>

definition fb :: "fs \<Rightarrow> nat \<Rightarrow> u8" where
  "fb s i = mem s (fsbuf + of_nat i)"

definition set_fb :: "nat \<Rightarrow> u8 \<Rightarrow> fs \<Rightarrow> fs" where
  "set_fb i b s = s\<lparr>mem := (mem s)(fsbuf + of_nat i := b)\<rparr>"

section \<open>Super blocks\<close>

definition sb_fields :: "super_block \<Rightarrow> u32 list" where
  "sb_fields sb = [magic sb, nr_inodes sb, nr_sects sb, nr_imap_sects sb, nr_smap_sects sb, n_1st_sect sb, nr_inode_sects sb,
     sb_root_inode sb, inode_size sb, inode_isize_off sb, inode_start_off sb, dir_ent_size sb, dir_ent_inode_off sb, dir_ent_fname_off sb]"

definition read_sb :: "memory \<Rightarrow> u32 \<Rightarrow> int \<Rightarrow> super_block" where
  "read_sb m a dev = \<lparr>magic = read_u32 m a, nr_inodes = read_u32 m (a + 4), nr_sects = read_u32 m (a + 8),
     nr_imap_sects = read_u32 m (a + 12), nr_smap_sects = read_u32 m (a + 16), n_1st_sect = read_u32 m (a + 20),
     nr_inode_sects = read_u32 m (a + 24), sb_root_inode = read_u32 m (a + 28), inode_size = read_u32 m (a + 32),
     inode_isize_off = read_u32 m (a + 36), inode_start_off = read_u32 m (a + 40), dir_ent_size = read_u32 m (a + 44),
     dir_ent_inode_off = read_u32 m (a + 48), dir_ent_fname_off = read_u32 m (a + 52), sb_dev = dev\<rparr>"

primrec find_sb :: "int \<Rightarrow> super_block list \<Rightarrow> nat \<Rightarrow> nat option" where
  "find_sb dev [] i = None"
| "find_sb dev (sb # sbs) i = (if sb_dev sb = dev then Some i else find_sb dev sbs (Suc i))"

definition get_super_block :: "int \<Rightarrow> fs \<Rightarrow> super_block res" where
  "get_super_block dev s =
     (case find_sb dev (sb_table s) 0 of None \<Rightarrow> Inl (Panic ''super block of devie not found'') | Some i \<Rightarrow> Inr (sb_table s ! i))"

definition read_super_block :: "int \<Rightarrow> fs \<Rightarrow> fs res" where
  "read_super_block dev s =
     res_bind (rw_sector DEV_READ dev (int SECTOR_SIZE) (int SECTOR_SIZE) TASK_FS fsbuf s) (\<lambda>s1.
     case find_sb NO_DEV (sb_table s1) 0 of
       None \<Rightarrow> Inl (Panic ''super_bloc slots used up'')
     | Some i \<Rightarrow> kassert (i = 0) ''read_super_block'' (Inr (s1\<lparr>sb_table := (sb_table s1)[i := read_sb (mem s1) fsbuf dev]\<rparr>)))"

section \<open>The i-node table\<close>

text \<open>The loop of \<^verbatim>\<open>get_inode\<close>: the slot that holds the i-node, or the first free slot.\<close>

fun inode_scan :: "int \<Rightarrow> int \<Rightarrow> inode list \<Rightarrow> nat \<Rightarrow> nat option \<Rightarrow> nat option \<times> nat option" where
  "inode_scan dev num [] i q = (None, q)"
| "inode_scan dev num (p # ps) i q =
     (if i_cnt p \<noteq> 0 then
        if i_dev p = dev \<and> i_num p = num then (Some i, q) else inode_scan dev num ps (Suc i) q
      else inode_scan dev num ps (Suc i) (if q = None then Some i else q))"

text \<open>The sector of an i-node, in the \<^verbatim>\<open>u32\<close> arithmetic of the code, and its place there.\<close>

definition inode_blk :: "super_block \<Rightarrow> int \<Rightarrow> int" where
  "inode_blk sb num = sint (1 + 1 + nr_imap_sects sb + nr_smap_sects sb + word_of_int ((num - 1) sdiv 16))"

definition inode_addr :: "int \<Rightarrow> u32" where
  "inode_addr num = fsbuf + word_of_int ((num - 1) smod 16 * int INODE_SIZE)"

definition load_inode :: "memory \<Rightarrow> u32 \<Rightarrow> inode \<Rightarrow> inode" where
  "load_inode m a q = q\<lparr>i_mode := read_u32 m a, i_size := read_u32 m (a + 4), i_start_sect := read_u32 m (a + 8),
     i_nr_sects := read_u32 m (a + 12)\<rparr>"

definition store_inode :: "inode \<Rightarrow> u32 \<Rightarrow> memory \<Rightarrow> memory" where
  "store_inode p a m = write_u32 (write_u32 (write_u32 (write_u32 m a (i_mode p)) (a + 4) (i_size p)) (a + 8) (i_start_sect p))
     (a + 12) (i_nr_sects p)"

definition get_inode :: "int \<Rightarrow> int \<Rightarrow> fs \<Rightarrow> (nat option \<times> fs) res" where
  "get_inode dev num s =
     (if num = 0 then Inr (None, s)
      else
        case inode_scan dev num (inode_table s) 0 None of
          (Some p, _) \<Rightarrow> Inr (Some p, upd_inode s p (\<lambda>n. n\<lparr>i_cnt := i_cnt n + 1\<rparr>))
        | (None, None) \<Rightarrow> Inl (Panic ''the inode table is full'')
        | (None, Some q) \<Rightarrow>
            let s1 = upd_inode s q (\<lambda>n. n\<lparr>i_dev := dev, i_num := num, i_cnt := 1\<rparr>) in
            res_bind (get_super_block dev s1) (\<lambda>sb.
            res_bind (RD_SECT dev (inode_blk sb num) s1) (\<lambda>s2.
            Inr (Some q, upd_inode s2 q (load_inode (mem s2) (inode_addr num))))))"

definition put_inode :: "nat \<Rightarrow> fs \<Rightarrow> fs res" where
  "put_inode p s = kassert (i_cnt (inode_of s p) > 0) ''put_inode'' (Inr (upd_inode s p (\<lambda>n. n\<lparr>i_cnt := i_cnt n - 1\<rparr>)))"

definition sync_inode :: "nat \<Rightarrow> fs \<Rightarrow> fs res" where
  "sync_inode p s =
     (let n = inode_of s p in
      res_bind (get_super_block (i_dev n) s) (\<lambda>sb.
      let blk_nr = inode_blk sb (i_num n) in
      res_bind (RD_SECT (i_dev n) blk_nr s) (\<lambda>s1.
      WR_SECT (i_dev n) blk_nr (s1\<lparr>mem := store_inode n (inode_addr (i_num n)) (mem s1)\<rparr>))))"

section \<open>Sectors and the buffer\<close>

text \<open>
  FS runs in the flat address space of the tasks. \<open>load_sector\<close> and \<open>store_sector\<close> are what reading
  and writing one sector of a hard disk device do; \<open>buffered\<close> relates two states that differ in
  the disk and the first sector of the buffer only.
\<close>

definition fs_flat :: "fs \<Rightarrow> bool" where
  "fs_flat s \<longleftrightarrow> (\<forall>a. va2la s TASK_FS a = Inr a)"

definition load_sector :: "int \<Rightarrow> nat \<Rightarrow> fs \<Rightarrow> fs" where
  "load_sector dev q s = s\<lparr>mem := write_bytes (mem s) fsbuf (map (disk s dev) [q * 512..<q * 512 + 512])\<rparr>"

definition store_sector :: "int \<Rightarrow> nat \<Rightarrow> fs \<Rightarrow> fs" where
  "store_sector dev q s =
     s\<lparr>disk := (disk s)(dev := (\<lambda>i. if q * 512 \<le> i \<and> i < q * 512 + 512 then fb s (i - q * 512) else disk s dev i))\<rparr>"

definition buffered :: "fs \<Rightarrow> fs \<Rightarrow> bool" where
  "buffered s t \<longleftrightarrow> t\<lparr>mem := mem s, disk := disk s\<rparr> = s \<and> (\<forall>x. x \<notin> block_addrs fsbuf 512 \<longrightarrow> mem t x = mem s x)"

lemma fs_flatI: "kinv s \<Longrightarrow> fs_flat s"
  by (simp add: fs_flat_def va2la_linear linear_def) (simp add: kinv_def)

lemma fs_flat_cong: "proc_table t = proc_table s \<Longrightarrow> fs_flat t = fs_flat s"
  by (simp add: fs_flat_def va2la_def ldt_seg_linear_def)

lemma fs_flat_upd [simp]:
  "fs_flat (s\<lparr>mem := m\<rparr>) = fs_flat s" "fs_flat (s\<lparr>disk := d\<rparr>) = fs_flat s" "fs_flat (s\<lparr>inode_table := i\<rparr>) = fs_flat s"
  "fs_flat (s\<lparr>f_desc_table := f\<rparr>) = fs_flat s" "fs_flat (upd_inode s p g) = fs_flat s" "fs_flat (load_sector dev q s) = fs_flat s"
  "fs_flat (store_sector dev q s) = fs_flat s" "fs_flat (set_fb j b s) = fs_flat s"
  by (rule fs_flat_cong; simp add: upd_inode_def load_sector_def store_sector_def set_fb_def)+

lemma driver_of_hd: "MAJOR dev = 3 \<Longrightarrow> driver_of dev = Inr (int TASK_HD)"
  by (simp add: driver_of_def dd_map_def)

lemma sector_range:
  assumes "0 \<le> sect" and "sect < 2 ^ 22"
  shows "0 \<le> sect * 512" "sect * 512 < 2 ^ 31" "nat (sect * 512) = nat sect * 512"
  using assms by (simp_all add: nat_mult_distrib)

lemma RD_SECT_eq:
  assumes "fs_flat s" and "MAJOR dev = 3" and "0 \<le> sect" and "sect < 2 ^ 22"
  shows "RD_SECT dev sect s = Inr (load_sector dev (nat sect) s)"
  using assms sector_range [OF assms(3,4)]
  by (simp add: RD_SECT_def rw_sector_def driver_of_hd fs_flat_def load_sector_def Let_def)

lemma WR_SECT_eq:
  assumes "fs_flat s" and "MAJOR dev = 3" and "0 \<le> sect" and "sect < 2 ^ 22"
  shows "WR_SECT dev sect s = Inr (store_sector dev (nat sect) s)"
  using assms sector_range [OF assms(3,4)]
  by (simp add: WR_SECT_def rw_sector_def driver_of_hd fs_flat_def store_sector_def fb_def Let_def cong: if_cong)

lemma fsbuf_inj: "i < 2 ^ 32 \<Longrightarrow> j < 2 ^ 32 \<Longrightarrow> fsbuf + of_nat i = fsbuf + of_nat j \<longleftrightarrow> i = j"
  using of_nat_u32_inj [of i j] by simp

lemma fb_set_fb: "i < 512 \<Longrightarrow> j < 512 \<Longrightarrow> fb (set_fb i b s) j = (if i = j then b else fb s j)"
  using fsbuf_inj [of i j] by (auto simp: fb_def set_fb_def)

lemma fb_load_sector: "j < 512 \<Longrightarrow> fb (load_sector dev q s) j = disk s dev (q * 512 + j)"
  using write_bytes_inside [of "map (disk s dev) [q * 512..<q * 512 + 512]" j "mem s" fsbuf]
  by (simp add: fb_def load_sector_def)

lemma disk_load_sector [simp]: "disk (load_sector dev q s) = disk s"
  by (simp add: load_sector_def)

lemma disk_set_fb [simp]: "disk (set_fb j b s) = disk s"
  by (simp add: set_fb_def)

lemma fb_store_sector [simp]: "fb (store_sector dev q s) j = fb s j"
  by (simp add: fb_def store_sector_def)

lemma disk_store_sector:
  "disk (store_sector dev q s) d i = (if d = dev \<and> i div 512 = q then fb s (i mod 512) else disk s d i)"
proof -
  have "q * 512 \<le> i \<and> i < q * 512 + 512 \<longleftrightarrow> i div 512 = q" by auto
  moreover have "i - q * 512 = i mod 512" if "i div 512 = q"
    using that by (metis minus_div_mult_eq_mod)
  ultimately show ?thesis by (auto simp: store_sector_def)
qed

lemma buffered_refl [simp]: "buffered s s"
  by (simp add: buffered_def)

lemma buffered_trans:
  assumes "buffered s t" and "buffered t u"
  shows "buffered s u"
proof -
  have "u\<lparr>mem := mem s, disk := disk s\<rparr> = (u\<lparr>mem := mem t, disk := disk t\<rparr>)\<lparr>mem := mem s, disk := disk s\<rparr>" by simp
  also have "\<dots> = s" using assms by (simp add: buffered_def)
  finally show ?thesis using assms by (simp add: buffered_def)
qed

lemma buffered_load [simp]: "buffered s (load_sector dev q s)"
  by (simp add: buffered_def load_sector_def write_bytes_outside)

lemma buffered_store [simp]: "buffered s (store_sector dev q s)"
  by (simp add: buffered_def store_sector_def)

lemma buffered_set_fb: "j < 512 \<Longrightarrow> buffered s (set_fb j b s)"
  using block_addrs_nth [of j 512 fsbuf] by (auto simp: buffered_def set_fb_def)

lemma buffered_fields:
  assumes "buffered s t"
  shows "proc_table t = proc_table s" "inode_table t = inode_table s" "f_desc_table t = f_desc_table s"
    "sb_table t = sb_table s" "root_inode t = root_inode s" "pcaller t = pcaller s" "fs_msg t = fs_msg s"
    "fs_sent t = fs_sent s" "fs_flat t = fs_flat s"
proof -
  have e: "t\<lparr>mem := mem s, disk := disk s\<rparr> = s" using assms by (simp add: buffered_def)
  show "proc_table t = proc_table s" "inode_table t = inode_table s" "f_desc_table t = f_desc_table s"
    "sb_table t = sb_table s" "root_inode t = root_inode s" "pcaller t = pcaller s" "fs_msg t = fs_msg s"
    "fs_sent t = fs_sent s"
    by (subst e [symmetric]; simp)+
  then show "fs_flat t = fs_flat s" by (intro fs_flat_cong)
qed

lemma get_super_block_cong: "sb_table t = sb_table s \<Longrightarrow> get_super_block dev t = get_super_block dev s"
  by (simp add: get_super_block_def split: option.split)

lemma sint_of_int: "- (2 ^ 31) \<le> z \<Longrightarrow> z < 2 ^ 31 \<Longrightarrow> sint (word_of_int z :: u32) = z"
  by (simp add: sint_sbintrunc' signed_take_bit_int_eq_self)

lemma sint_sum:
  assumes "k + unat w < 2 ^ 31"
  shows "sint (word_of_int (int k) + w :: u32) = int (k + unat w)"
proof -
  have "int (k + unat w) < 2 ^ 31" using assms by (simp only: of_nat_less_numeral_power_cancel_iff)
  then have "sint (word_of_int (int (k + unat w)) :: u32) = int (k + unat w)" by (intro sint_of_int) linarith+
  then show ?thesis by simp
qed

lemma set_fb_same [simp]: "set_fb j (fb s j) s = s"
  by (simp add: set_fb_def fb_def)

text \<open>A structure written into the buffer.\<close>

lemma fb_write:
  assumes "l < 2 ^ 20" and "i + length bs \<le> 2 ^ 20"
  shows "fb (s\<lparr>mem := write_bytes (mem s) (fsbuf + of_nat i) bs\<rparr>) l = (if i \<le> l \<and> l < i + length bs then bs ! (l - i) else fb s l)"
proof (cases "i \<le> l \<and> l < i + length bs")
  case True
  then have "fsbuf + of_nat l = fsbuf + of_nat i + of_nat (l - i)" by simp
  then show ?thesis
    using True assms(2) write_bytes_inside [of bs "l - i" "mem s" "fsbuf + of_nat i"] by (auto simp: fb_def)
next
  case False
  have "fsbuf + of_nat l \<notin> block_addrs (fsbuf + of_nat i) (length bs)"
  proof
    assume "fsbuf + of_nat l \<in> block_addrs (fsbuf + of_nat i) (length bs)"
    then obtain k where k: "k < length bs" "fsbuf + of_nat l = fsbuf + of_nat (i + k)"
      by (auto simp: block_addrs_def add.assoc)
    then show False using False fsbuf_inj [of l "i + k"] assms by auto
  qed
  then show ?thesis using False by (auto simp: fb_def write_bytes_outside)
qed

lemma buffered_write:
  assumes "i + length bs \<le> 512"
  shows "buffered s (s\<lparr>mem := write_bytes (mem s) (fsbuf + of_nat i) bs\<rparr>)"
  using block_addrs_sub [OF assms, of fsbuf] by (auto simp: buffered_def intro!: write_bytes_outside)

lemma read_bytes_fb: "read_bytes (mem s) (fsbuf + of_nat i) n = map (\<lambda>k. fb s (i + k)) [0..<n]"
  by (simp add: read_bytes_def fb_def add.assoc)

section \<open>A small file system\<close>

text \<open>
  A device of 5000 sectors as \<^verbatim>\<open>mkfs\<close> leaves it (super block, maps, i-nodes of the root directory and of the first terminal,
  two entries of the root directory) and the state of FS with it mounted, for the instances of the theorems.
\<close>

definition demo_sb :: super_block where
  "demo_sb = \<lparr>magic = MAGIC_V1, nr_inodes = 4096, nr_sects = 5000, nr_imap_sects = 1, nr_smap_sects = 2, n_1st_sect = 261,
     nr_inode_sects = 256, sb_root_inode = 1, inode_size = 32, inode_isize_off = 4, inode_start_off = 8, dir_ent_size = 16,
     dir_ent_inode_off = 0, dir_ent_fname_off = 4, sb_dev = ROOT_DEV\<rparr>"

definition demo_inodes :: "u8 list" where
  "demo_inodes = [0, 0x40, 0, 0, 64, 0, 0, 0, 5, 1, 0, 0, 0, 8, 0, 0, 0, 0, 0, 0, 0, 0, 0, 0, 0, 0, 0, 0, 0, 0, 0, 0,
     0, 0x20, 0, 0, 0, 0, 0, 0, 0, 4, 0, 0, 0, 0, 0, 0, 0, 0, 0, 0, 0, 0, 0, 0, 0, 0, 0, 0, 0, 0, 0, 0]"

definition demo_dir :: "u8 list" where
  "demo_dir = [1, 0, 0, 0, 46, 0, 0, 0, 0, 0, 0, 0, 0, 0, 0, 0, 2, 0, 0, 0, 100, 101, 118, 95, 116, 116, 121, 48, 0, 0, 0, 0]"

definition demo_disk :: "int \<Rightarrow> nat \<Rightarrow> u8" where
  "demo_disk d i =
     (if i div 512 = 2 then if i = 1024 then 0x1F else 0
      else if i div 512 = 3 then if i < 1792 then 0xFF else if i = 1792 then 1 else 0
      else if i div 512 = 5 \<and> i mod 512 < 64 then demo_inodes ! (i mod 512)
      else if i div 512 = 261 \<and> i mod 512 < 32 then demo_dir ! (i mod 512)
      else 0)"

definition no_inode :: inode where
  "no_inode = \<lparr>i_mode = 0, i_size = 0, i_start_sect = 0, i_nr_sects = 0, i_dev = 0, i_cnt = 0, i_num = 0\<rparr>"

definition no_desc :: file_desc where
  "no_desc = \<lparr>fd_mode = 0, fd_pos = 0, fd_cnt = 0, fd_inode = None\<rparr>"

definition demo_root :: inode where
  "demo_root = \<lparr>i_mode = I_DIRECTORY, i_size = 64, i_start_sect = 261, i_nr_sects = 2048, i_dev = ROOT_DEV, i_cnt = 1, i_num = 1\<rparr>"

definition fs_demo :: fs where
  "fs_demo = kernel.extend booted (fs.fields demo_disk (replicate NR_FILE_DESC no_desc) (demo_root # replicate 63 no_inode)
     (demo_sb # replicate 7 (demo_sb\<lparr>sb_dev := NO_DEV\<rparr>)) 0 6 (read_msg (\<lambda>_. 0) 0) [])"

lemma fs_demo_fields [simp]:
  "proc_table fs_demo = proc_table booted" "disk fs_demo = demo_disk" "f_desc_table fs_demo = replicate NR_FILE_DESC no_desc"
  "inode_table fs_demo = demo_root # replicate 63 no_inode" "sb_table fs_demo = demo_sb # replicate 7 (demo_sb\<lparr>sb_dev := NO_DEV\<rparr>)"
  "root_inode fs_demo = 0" "pcaller fs_demo = 6" "fs_sent fs_demo = []" "mem fs_demo = mem booted"
  by (simp_all add: fs_demo_def kernel.extend_def fs.fields_def)

lemma fs_demo_kinv [simp]: "kinv fs_demo"
  using booted_kinv by (simp add: kinv_def seg_base_def)

lemma ROOT_DEV_eq: "ROOT_DEV = 0x320"
  by (simp add: ROOT_DEV_def MAKE_DEV_def push_bit_eq_mult)

lemma ROOT_DEV_major [simp]: "MAJOR ROOT_DEV = 3"
  by (simp add: ROOT_DEV_eq MAJOR_def)

lemma fs_demo_sb [simp]: "get_super_block ROOT_DEV fs_demo = Inr demo_sb"
  by (simp add: get_super_block_def demo_sb_def)

end
