(* ===== verification/Fs_Alloc.thy ===== *)
theory Fs_Alloc
  imports Fs_Core
begin

text \<open>
  Allocation in the two bit maps of a device (\<^verbatim>\<open>alloc_imap_bit\<close> and \<^verbatim>\<open>alloc_smap_bit\<close> of
  \<^verbatim>\<open>fs/open.c\<close>). The code scans sectors, bytes and bits in three nested loops and carries its
  progress from byte to byte; the theorems state the result on the map as one sequence of bits.
\<close>

section \<open>The i-node map\<close>

text \<open>The first clear bit of a byte, from bit \<open>k\<close>: the loop \<^verbatim>\<open>for (; (b >> k) & 1; k++)\<close>.\<close>

function free_bit :: "u8 \<Rightarrow> nat \<Rightarrow> nat" where
  "free_bit b k = (if bit b k then free_bit b (k + 1) else k)"
  by pat_completeness auto
termination
proof (relation "measure (\<lambda>(b, k). 8 - k)")
  fix b :: u8 and k assume "bit b k"
  then have "k < 8" by (rule contrapos_pp) simp
  then show "((b, k + 1), (b, k)) \<in> measure (\<lambda>(b, k). 8 - k)" by simp
qed simp

declare free_bit.simps [simp del]

function imap_byte :: "fs \<Rightarrow> nat \<Rightarrow> nat option" where
  "imap_byte s j = (if j < SECTOR_SIZE then if fb s j = 0xFF then imap_byte s (j + 1) else Some j else None)"
  by pat_completeness auto
termination by (relation "measure (\<lambda>(s, j). SECTOR_SIZE - j)") auto

declare imap_byte.simps [simp del]

text \<open>The \<^verbatim>\<open>return\<close> stands inside the loop over the sectors, so only the first one is searched.\<close>

definition alloc_imap_bit :: "int \<Rightarrow> fs \<Rightarrow> (int \<times> fs) res" where
  "alloc_imap_bit dev s =
     res_bind (get_super_block dev s) (\<lambda>sb.
     if nr_imap_sects sb = 0 then Inl (Panic ''inode-map is probably full'')
     else
       res_bind (RD_SECT dev 2 s) (\<lambda>s1.
       case imap_byte s1 0 of
         None \<Rightarrow> Inr (0, s1)
       | Some j \<Rightarrow>
           let k = free_bit (fb s1 j) 0 in
           res_bind (WR_SECT dev 2 (set_fb j (fb s1 j OR push_bit k 1) s1)) (\<lambda>s2. Inr (int (j * 8 + k), s2))))"

section \<open>The sector map\<close>

text \<open>
  \<open>fill_bits\<close> is the loop over the bits of a byte, \<open>smap_bytes\<close> over the bytes of a sector,
  \<open>smap_sects\<close> over the sectors of the map. The sector number is computed in the unsigned
  arithmetic of \<^verbatim>\<open>n_1st_sect\<close>.
\<close>

function fill_bits :: "nat \<Rightarrow> int \<Rightarrow> u8 \<Rightarrow> (int \<times> u8) res" where
  "fill_bits k n b =
     (if k < 8 then
        kassert (\<not> bit b k) ''alloc_smap_bit: bit in use'' (
        if n - 1 = 0 then Inr (0, b OR push_bit k 1) else fill_bits (k + 1) (n - 1) (b OR push_bit k 1))
      else Inr (n, b))"
  by pat_completeness auto
termination by (relation "measure (\<lambda>(k, n, b). 8 - k)") auto

definition smap_sect :: "super_block \<Rightarrow> nat \<Rightarrow> nat \<Rightarrow> nat \<Rightarrow> int" where
  "smap_sect sb i j k = sint (word_of_int (int ((i * SECTOR_SIZE + j) * 8 + k) - 1) + n_1st_sect sb)"

function smap_bytes :: "super_block \<Rightarrow> nat \<Rightarrow> nat \<Rightarrow> int \<Rightarrow> int \<Rightarrow> fs \<Rightarrow> (int \<times> int \<times> fs) res" where
  "smap_bytes sb i j free_sect_nr n s =
     (if j < SECTOR_SIZE \<and> n > 0 then
        if free_sect_nr = 0 \<and> fb s j = 0xFF then smap_bytes sb i (j + 1) free_sect_nr n s
        else
          let k = if free_sect_nr = 0 then free_bit (fb s j) 0 else 0;
              free' = if free_sect_nr = 0 then smap_sect sb i j k else free_sect_nr in
          res_bind (fill_bits k n (fb s j)) (\<lambda>(n', b). smap_bytes sb i (j + 1) free' n' (set_fb j b s))
      else Inr (free_sect_nr, n, s))"
  by pat_completeness auto
termination by (relation "measure (\<lambda>(sb, i, j, f, n, s). SECTOR_SIZE - j)") auto

function smap_sects :: "super_block \<Rightarrow> int \<Rightarrow> nat \<Rightarrow> int \<Rightarrow> int \<Rightarrow> fs \<Rightarrow> (int \<times> int \<times> fs) res" where
  "smap_sects sb dev i free_sect_nr n s =
     (if i < unat (nr_smap_sects sb) then
        let blk = sint (1 + 1 + nr_imap_sects sb) + int i in
        res_bind (RD_SECT dev blk s) (\<lambda>s1.
        res_bind (smap_bytes sb i 0 free_sect_nr n s1) (\<lambda>(free', n', s2).
        res_bind (if free' \<noteq> 0 then WR_SECT dev blk s2 else Inr s2) (\<lambda>s3.
        if n' = 0 then Inr (free', n', s3) else smap_sects sb dev (i + 1) free' n' s3)))
      else Inr (free_sect_nr, n, s))"
  by pat_completeness auto
termination by (relation "measure (\<lambda>(sb, dev, i, f, n, s). unat (nr_smap_sects sb) - i)") auto

declare fill_bits.simps [simp del] smap_bytes.simps [simp del] smap_sects.simps [simp del]

definition alloc_smap_bit :: "int \<Rightarrow> int \<Rightarrow> fs \<Rightarrow> (int \<times> fs) res" where
  "alloc_smap_bit dev nr_sects_to_alloc s =
     res_bind (get_super_block dev s) (\<lambda>sb.
     res_bind (smap_sects sb dev 0 0 nr_sects_to_alloc s) (\<lambda>(free_sect_nr, n, s1).
     kassert (n = 0) ''alloc_smap_bit'' (Inr (free_sect_nr, s1))))"

section \<open>Bits of a map\<close>

definition map_bit :: "fs \<Rightarrow> int \<Rightarrow> nat \<Rightarrow> nat \<Rightarrow> bool" where
  "map_bit s dev blk n = bit (disk s dev (blk * 512 + n div 8)) (n mod 8)"

lemma free_bit_le:
  "\<not> bit b m \<Longrightarrow> k \<le> m \<Longrightarrow> free_bit b k \<le> m"
proof (induction b k rule: free_bit.induct)
  case (1 b k)
  then have "k + 1 \<le> m" if "bit b k" using that by (cases "k = m") auto
  then show ?case using 1 by (subst free_bit.simps) simp
qed

lemma free_bit_clear: "\<not> bit b (free_bit b k)"
  by (induction b k rule: free_bit.induct) (subst free_bit.simps, simp)

lemma free_bit_least: "k \<le> m \<Longrightarrow> m < free_bit b k \<Longrightarrow> bit b m"
  using free_bit_le [of b m k] by linarith

lemma u8_full: "(b :: u8) = 0xFF \<longleftrightarrow> (\<forall>m < 8. bit b m)"
proof -
  have "(0xFF :: u8) = mask 8" by (simp add: mask_eq_exp_minus_1)
  then show ?thesis by (auto simp: bit_eq_iff bit_simps)
qed

lemma free_bit_byte: "b \<noteq> 0xFF \<Longrightarrow> free_bit b 0 < 8"
  using free_bit_le [of b _ 0] le_less_trans by (force simp: u8_full)

lemma free_bit_eqI: "\<not> bit b m \<Longrightarrow> (\<And>l. l < m \<Longrightarrow> bit b l) \<Longrightarrow> free_bit b 0 = m"
  by (meson free_bit_clear free_bit_le le0 le_neq_implies_less)

section \<open>Allocating an i-node\<close>

lemma imap_byte_skip: "(\<And>l. l < j \<Longrightarrow> fb s l = 0xFF) \<Longrightarrow> j \<le> 512 \<Longrightarrow> imap_byte s 0 = imap_byte s j"
proof (induction j)
  case (Suc j)
  then have "imap_byte s 0 = imap_byte s j" by simp
  also have "\<dots> = imap_byte s (Suc j)" using Suc.prems by (subst imap_byte.simps) simp
  finally show ?case .
qed simp

lemma imap_byte_eq: "(\<And>l. l < j \<Longrightarrow> fb s l = 0xFF) \<Longrightarrow> j < 512 \<Longrightarrow> fb s j \<noteq> 0xFF \<Longrightarrow> imap_byte s 0 = Some j"
  using imap_byte_skip [of j s] by (simp add: imap_byte.simps [of s j])

lemma imap_byte_full: "(\<And>l. l < 512 \<Longrightarrow> fb s l = 0xFF) \<Longrightarrow> imap_byte s 0 = None"
  using imap_byte_skip [of 512 s] by (simp add: imap_byte.simps [of s 512])

text \<open>Bytes of a map in which the first clear bit is \<open>f\<close>.\<close>

lemma byte_before:
  assumes "\<And>m. m < f \<Longrightarrow> map_bit s dev blk m" and "8 * (q + 1) \<le> f"
  shows "disk s dev (blk * 512 + q) = 0xFF"
proof -
  have "bit (disk s dev (blk * 512 + q)) m" if "m < 8" for m
    using assms(1) [of "8 * q + m"] assms(2) that by (simp add: map_bit_def)
  then show ?thesis by (simp add: u8_full)
qed

lemma first_free_byte:
  assumes "\<And>m. m < f \<Longrightarrow> map_bit s dev blk m" and "\<not> map_bit s dev blk f"
  shows "free_bit (disk s dev (blk * 512 + f div 8)) 0 = f mod 8"
proof (rule free_bit_eqI)
  show "\<not> bit (disk s dev (blk * 512 + f div 8)) (f mod 8)" using assms(2) by (simp add: map_bit_def)
  show "bit (disk s dev (blk * 512 + f div 8)) l" if "l < f mod 8" for l
  proof -
    have "l < 8" "f div 8 * 8 + l < f" using that div_mult_mod_eq [of f 8] by linarith+
    then show ?thesis using assms(1) [of "f div 8 * 8 + l"] by (simp add: map_bit_def)
  qed
qed

lemma bit_or_single: "k < 8 \<Longrightarrow> m < 8 \<Longrightarrow> bit ((b :: u8) OR push_bit k 1) m \<longleftrightarrow> bit b m \<or> m = k"
  by (auto simp: bit_simps)

lemma map_bit_sector:
  assumes "n < 4096"
  shows "map_bit (store_sector dev blk s) dev blk n = bit (fb s (n div 8)) (n mod 8)"
proof -
  have "n div 8 < 512" using assms by auto
  then have "(blk * 512 + n div 8) div 512 = blk" "(blk * 512 + n div 8) mod 512 = n div 8"
    by (simp_all add: div_mult_self3)
  then show ?thesis by (simp add: map_bit_def disk_store_sector)
qed

text \<open>
  \<^verbatim>\<open>alloc_imap_bit\<close> takes the first clear bit of the first sector of the i-node map: it returns the number of
  the bit, sets it on the disk and changes nothing else there. (The reserved bit 0 is set on every
  device, so the number is never 0, which means "no i-node".)
\<close>

theorem alloc_imap_bit_correct:
  assumes "kinv s" and "MAJOR dev = 3" and "get_super_block dev s = Inr sb" and "nr_imap_sects sb \<noteq> 0"
    and "f < 4096" and "\<And>m. m < f \<Longrightarrow> map_bit s dev 2 m" and "\<not> map_bit s dev 2 f"
  shows "\<exists>s'. alloc_imap_bit dev s = Inr (int f, s') \<and> buffered s s'
    \<and> (\<forall>m < 4096. map_bit s' dev 2 m \<longleftrightarrow> map_bit s dev 2 m \<or> m = f)
    \<and> (\<forall>d x. d \<noteq> dev \<or> x div 512 \<noteq> 2 \<longrightarrow> disk s' d x = disk s d x)"
proof -
  let ?s1 = "load_sector dev 2 s" and ?j = "f div 8" and ?k = "f mod 8"
  let ?s2 = "set_fb ?j (fb ?s1 ?j OR push_bit ?k 1) ?s1"
  have j: "?j < 512" using assms(5) by auto
  have fb1: "fb ?s1 l = disk s dev (2 * 512 + l)" if "l < 512" for l
    using fb_load_sector [OF that, of dev 2 s] by simp
  have k: "free_bit (fb ?s1 ?j) 0 = ?k"
    using first_free_byte [OF assms(6,7)] fb1 [OF j] by simp
  have "imap_byte ?s1 0 = Some ?j"
  proof (rule imap_byte_eq)
    show "fb ?s1 l = 0xFF" if "l < ?j" for l
      using byte_before [OF assms(6), where q = l] that j fb1 [of l] by simp
    show "fb ?s1 ?j \<noteq> 0xFF"
      using k free_bit_clear [of "fb ?s1 ?j" 0] by (auto simp: u8_full intro!: exI [of _ ?k])
  qed (rule j)
  moreover have "int ?j * 8 + int ?k = int f" by presburger
  ultimately have r: "alloc_imap_bit dev s = Inr (int f, store_sector dev 2 ?s2)"
    using assms(2-4) fs_flatI [OF assms(1)] k by (simp add: alloc_imap_bit_def RD_SECT_eq WR_SECT_eq Let_def)
  have bits: "map_bit (store_sector dev 2 ?s2) dev 2 m \<longleftrightarrow> map_bit s dev 2 m \<or> m = f" if "m < 4096" for m
  proof -
    have q: "m div 8 < 512" using that by auto
    have "m div 8 = ?j \<and> m mod 8 = ?k \<longleftrightarrow> m = f" by (metis div_mult_mod_eq)
    moreover have "map_bit s dev 2 m = bit (fb ?s1 (m div 8)) (m mod 8)" using fb1 [OF q] by (simp add: map_bit_def)
    ultimately show ?thesis
      using q j bit_or_single [of ?k "m mod 8" "fb ?s1 ?j"] by (auto simp: map_bit_sector [OF that] fb_set_fb)
  qed
  have "buffered s (store_sector dev 2 ?s2)"
    using buffered_trans [OF buffered_load buffered_trans [OF buffered_set_fb [OF j] buffered_store]] .
  then show ?thesis using r bits by (auto simp: disk_store_sector)
qed

text \<open>
  When every bit of that sector is set, \<^verbatim>\<open>alloc_imap_bit\<close> does not panic as its last statements
  intend: it returns 0 and leaves the disk as it was.
\<close>

theorem alloc_imap_bit_full:
  assumes "kinv s" and "MAJOR dev = 3" and "get_super_block dev s = Inr sb" and "nr_imap_sects sb \<noteq> 0"
    and "\<And>m. m < 4096 \<Longrightarrow> map_bit s dev 2 m"
  shows "\<exists>s'. alloc_imap_bit dev s = Inr (0, s') \<and> disk s' = disk s"
proof -
  have "fb (load_sector dev 2 s) l = 0xFF" if "l < 512" for l
    using byte_before [OF assms(5), where q = l] that fb_load_sector [OF that, of dev 2 s] by simp
  then have "imap_byte (load_sector dev 2 s) 0 = None" by (rule imap_byte_full)
  then show ?thesis
    using assms(2-4) fs_flatI [OF assms(1)] by (simp add: alloc_imap_bit_def RD_SECT_eq)
qed

section \<open>Allocating sectors\<close>

text \<open>
  A map with room for \<open>N\<close> bits from its first clear bit \<open>f\<close>, given by its bytes; the byte \<open>q\<close> of
  the map with its share of these bits set; and the values of \<^verbatim>\<open>free_sect_nr\<close> and of the number of
  bits still to be set when the loops come to byte \<open>q\<close>.
\<close>

definition room :: "(nat \<Rightarrow> u8) \<Rightarrow> nat \<Rightarrow> nat \<Rightarrow> bool" where
  "room D f N \<longleftrightarrow> (\<forall>q m. m < 8 \<longrightarrow> (8 * q + m < f \<longrightarrow> bit (D q) m) \<and> (f \<le> 8 * q + m \<and> 8 * q + m < f + N \<longrightarrow> \<not> bit (D q) m))"

definition mark_byte :: "nat \<Rightarrow> nat \<Rightarrow> nat \<Rightarrow> u8 \<Rightarrow> u8" where
  "mark_byte f N q b = b OR push_bit (f - 8 * q) (mask (if 8 * q \<le> f then N else f + N - 8 * q))"

definition progress :: "nat \<Rightarrow> nat \<Rightarrow> int \<Rightarrow> nat \<Rightarrow> int \<times> int" where
  "progress f N r q = (if 8 * q \<le> f then (0, int N) else (r, int (f + N - 8 * q)))"

lemma bit_mark_byte: "m < 8 \<Longrightarrow> bit (mark_byte f N q b) m \<longleftrightarrow> bit b m \<or> f \<le> 8 * q + m \<and> 8 * q + m < f + N"
  by (auto simp: mark_byte_def bit_simps)

lemma mark_byte_same:
  assumes "8 * (q + 1) \<le> f \<or> f + N \<le> 8 * q"
  shows "mark_byte f N q b = b"
proof (rule bit_word_eqI)
  fix m assume "m < LENGTH(8)"
  then have "m < 8" by simp
  then show "bit (mark_byte f N q b) m = bit b m" using assms by (auto simp: bit_mark_byte)
qed

lemma fill_bits_ok:
  "k \<le> 8 \<Longrightarrow> 0 < n \<Longrightarrow> (\<And>m. k \<le> m \<Longrightarrow> m < 8 \<Longrightarrow> m < k + n \<Longrightarrow> \<not> bit b m) \<Longrightarrow>
     fill_bits k (int n) b = Inr (int (n - (8 - k)), b OR push_bit k (mask n))"
proof (induction "8 - k" arbitrary: k n b)
  case 0
  have "b OR push_bit 8 (mask n) = b" by (rule bit_word_eqI) (auto simp: bit_simps)
  then show ?case using 0 by (subst fill_bits.simps) simp
next
  case (Suc l)
  have k: "k < 8" "l = 8 - (k + 1)" using Suc.hyps(2) by auto
  have one: "(b OR push_bit k 1) OR push_bit (k + 1) (mask (n - 1)) = b OR push_bit k (mask n)"
    using Suc.prems(2) by (intro bit_word_eqI) (auto simp: bit_simps simp del: push_bit_Suc)
  have clear: "\<not> bit b k" using Suc.prems k by simp
  show ?case
  proof (cases "n = 1")
    case True
    then show ?thesis using k clear by (subst fill_bits.simps) simp
  next
    case False
    have "fill_bits (k + 1) (int (n - 1)) (b OR push_bit k 1)
            = Inr (int (n - 1 - (8 - (k + 1))), (b OR push_bit k 1) OR push_bit (k + 1) (mask (n - 1)))"
      using Suc.prems False k by (intro Suc.hyps(1)) (auto simp: bit_simps)
    moreover have "int (n - 1) = int n - 1" "n - 1 - (8 - (k + 1)) = n - (8 - k)" using Suc.prems(2) k by auto
    ultimately show ?thesis using k clear False one by (subst fill_bits.simps) simp
  qed
qed

text \<open>One byte.\<close>

lemma smap_byte_step:
  assumes "room D f N" and "fb s j = D q" and "q = i * 512 + j" and "j < 512" and "0 < N"
    and "r = sint (word_of_int (int f - 1) + n_1st_sect sb)" and "r \<noteq> 0" and "8 * q < f + N"
  shows "smap_bytes sb i j (fst (progress f N r q)) (snd (progress f N r q)) s
    = smap_bytes sb i (j + 1) (fst (progress f N r (q + 1))) (snd (progress f N r (q + 1))) (set_fb j (mark_byte f N q (D q)) s)"
proof -
  have set: "bit (D q) m" if "m < 8" "8 * q + m < f" for m using assms(1) that by (simp add: room_def)
  have clear: "\<not> bit (D q) m" if "m < 8" "f \<le> 8 * q + m" "8 * q + m < f + N" for m using assms(1) that by (simp add: room_def)
  consider (skip) "8 * (q + 1) \<le> f" | (start) "8 * q \<le> f" "f < 8 * (q + 1)" | (go) "f < 8 * q" by linarith
  then show ?thesis
  proof cases
    case skip
    then have full: "D q = 0xFF" using set by (simp add: u8_full)
    have "mark_byte f N q (D q) = fb s j" using skip assms(2) by (simp add: mark_byte_same)
    then have "set_fb j (mark_byte f N q (D q)) s = s" by simp
    then show ?thesis using skip full assms(2,4,5) by (subst smap_bytes.simps) (simp add: progress_def)
  next
    case start
    define k where "k = f - 8 * q"
    have k: "f = 8 * q + k" "k < 8" using start by (simp_all add: k_def)
    have "free_bit (D q) 0 = k" using set clear [of k] k assms(5) by (intro free_bit_eqI) auto
    moreover have "D q \<noteq> 0xFF" using clear [of k] k assms(5) by (auto simp: u8_full)
    moreover have "fill_bits k (int N) (D q) = Inr (int (N - (8 - k)), D q OR push_bit k (mask N))"
      using clear k assms(5) by (intro fill_bits_ok) auto
    moreover have "smap_sect sb i j k = r" using k assms(3,6) by (simp add: smap_sect_def algebra_simps)
    moreover have "f + N - 8 * (q + 1) = N - (8 - k)" using k by arith
    moreover have "mark_byte f N q (D q) = D q OR push_bit k (mask N)" using k by (simp add: mark_byte_def)
    ultimately show ?thesis using k assms(2,4,5)
      by (subst smap_bytes.simps) (simp add: progress_def Let_def)
  next
    case go
    define n where "n = f + N - 8 * q"
    have n: "0 < n" "f + N = 8 * q + n" using assms(8) by (simp_all add: n_def)
    have "fill_bits 0 (int n) (D q) = Inr (int (n - (8 - 0)), D q OR push_bit 0 (mask n))"
      using clear n go by (intro fill_bits_ok) auto
    moreover have "mark_byte f N q (D q) = D q OR push_bit 0 (mask n)" using go by (simp add: mark_byte_def n_def)
    moreover have "f + N - 8 * (q + 1) = n - 8" by (simp add: n_def)
    ultimately show ?thesis using go n assms(2,4,7)
      by (subst smap_bytes.simps) (simp add: progress_def Let_def)
  qed
qed

lemma progress_done: "f + N \<le> 8 * q \<Longrightarrow> 0 < N \<Longrightarrow> progress f N r q = (r, 0)"
  by (simp add: progress_def)

lemma progress_zero: "0 < N \<Longrightarrow> snd (progress f N r q) = 0 \<longleftrightarrow> f + N \<le> 8 * q"
  by (auto simp: progress_def)

lemma progress_nonneg [simp]: "0 \<le> snd (progress f N r q)"
  by (simp add: progress_def)

text \<open>One sector: the loop over its bytes marks each of them.\<close>

lemma smap_bytes_ok:
  assumes "room D f N" and "\<And>l. j \<le> l \<Longrightarrow> l < 512 \<Longrightarrow> fb s l = D (i * 512 + l)" and "j \<le> 512" and "0 < N"
    and "r = sint (word_of_int (int f - 1) + n_1st_sect sb)" and "r \<noteq> 0"
  shows "\<exists>s'. smap_bytes sb i j (fst (progress f N r (i * 512 + j))) (snd (progress f N r (i * 512 + j))) s
      = Inr (fst (progress f N r (i * 512 + 512)), snd (progress f N r (i * 512 + 512)), s')
    \<and> buffered s s' \<and> disk s' = disk s
    \<and> (\<forall>l < 512. fb s' l = (if j \<le> l then mark_byte f N (i * 512 + l) (fb s l) else fb s l))"
  using assms(2,3)
proof (induction "512 - j" arbitrary: j s)
  case 0
  then have "j = 512" by simp
  then show ?case by (intro exI [of _ s]) (subst smap_bytes.simps, simp)
next
  case (Suc l)
  let ?q = "i * 512 + j"
  have j: "j < 512" "l = 512 - (j + 1)" using Suc.hyps(2) by auto
  show ?case
  proof (cases "f + N \<le> 8 * ?q")
    case True
    then have "progress f N r ?q = (r, 0)" "progress f N r (i * 512 + 512) = (r, 0)"
      using assms(4) j by (simp_all add: progress_done)
    moreover have "mark_byte f N (i * 512 + l) b = b" if "j \<le> l" for l b
      using that True by (intro mark_byte_same) simp
    ultimately show ?thesis by (intro exI [of _ s]) (subst smap_bytes.simps, simp)
  next
    case False
    let ?s1 = "set_fb j (mark_byte f N ?q (D ?q)) s"
    have step: "smap_bytes sb i j (fst (progress f N r ?q)) (snd (progress f N r ?q)) s
        = smap_bytes sb i (j + 1) (fst (progress f N r (?q + 1))) (snd (progress f N r (?q + 1))) ?s1"
      using assms(1,4,5,6) Suc.prems j False by (intro smap_byte_step) auto
    have "fb ?s1 l = D (i * 512 + l)" if "j + 1 \<le> l" "l < 512" for l
      using Suc.prems(1) [of l] that j by (simp add: fb_set_fb)
    from Suc.hyps(1) [OF j(2) this] j obtain s' where
      s': "smap_bytes sb i (j + 1) (fst (progress f N r (i * 512 + (j + 1)))) (snd (progress f N r (i * 512 + (j + 1)))) ?s1
            = Inr (fst (progress f N r (i * 512 + 512)), snd (progress f N r (i * 512 + 512)), s')"
      and b: "buffered ?s1 s'" "disk s' = disk ?s1"
      and f: "\<forall>l < 512. fb s' l = (if j + 1 \<le> l then mark_byte f N (i * 512 + l) (fb ?s1 l) else fb ?s1 l)"
      by auto
    have "\<forall>l < 512. fb s' l = (if j \<le> l then mark_byte f N (i * 512 + l) (fb s l) else fb s l)"
      using f j Suc.prems(1) [of j] by (auto simp: fb_set_fb Suc_le_eq)
    then show ?thesis
      using s' step buffered_trans [OF buffered_set_fb [OF j(1)] b(1)] b(2) by (auto simp: add.assoc)
  qed
qed

text \<open>A sector of the map at block \<open>B + i\<close>, read, marked and written back when a bit was taken.\<close>

definition mark_map :: "nat \<Rightarrow> nat \<Rightarrow> nat \<Rightarrow> nat \<Rightarrow> nat \<Rightarrow> int \<Rightarrow> (int \<Rightarrow> nat \<Rightarrow> u8) \<Rightarrow> int \<Rightarrow> nat \<Rightarrow> u8" where
  "mark_map f N B i k dev D d x =
     (if d = dev \<and> (B + i) * 512 \<le> x \<and> x < (B + k) * 512 then mark_byte f N (x - B * 512) (D d x) else D d x)"

lemma smap_sector_ok:
  assumes "fs_flat s" and "MAJOR dev = 3" and "room D f N" and "0 < N"
    and "r = sint (word_of_int (int f - 1) + n_1st_sect sb)" and "r \<noteq> 0"
    and "\<And>l. l < 512 \<Longrightarrow> disk s dev ((B + i) * 512 + l) = D (i * 512 + l)"
    and "B + i < 2 ^ 22"
  shows "\<exists>s2 s3. smap_bytes sb i 0 (fst (progress f N r (i * 512))) (snd (progress f N r (i * 512))) (load_sector dev (B + i) s)
      = Inr (fst (progress f N r (i * 512 + 512)), snd (progress f N r (i * 512 + 512)), s2)
    \<and> (if fst (progress f N r (i * 512 + 512)) \<noteq> 0 then WR_SECT dev (int (B + i)) s2 else Inr s2) = Inr s3
    \<and> buffered s s3 \<and> disk s3 = mark_map f N B i (i + 1) dev (disk s)"
proof -
  let ?s1 = "load_sector dev (B + i) s"
  let ?p = "progress f N r (i * 512 + 512)"
  have fb1: "fb ?s1 l = D (i * 512 + l)" if "l < 512" for l using assms(7) [OF that] fb_load_sector [OF that] by simp
  from smap_bytes_ok [where j = 0 and s = ?s1 and i = i, OF assms(3) _ _ assms(4-6)] fb1
  obtain s2 where s2: "smap_bytes sb i 0 (fst (progress f N r (i * 512))) (snd (progress f N r (i * 512))) ?s1 = Inr (fst ?p, snd ?p, s2)"
    and b: "buffered ?s1 s2" "disk s2 = disk s"
    and f: "\<And>l. l < 512 \<Longrightarrow> fb s2 l = mark_byte f N (i * 512 + l) (fb ?s1 l)" by auto
  let ?s3 = "if fst ?p \<noteq> 0 then store_sector dev (B + i) s2 else s2"
  have "fs_flat s2" using buffered_fields(9) [OF b(1)] assms(1) by simp
  then have w: "(if fst ?p \<noteq> 0 then WR_SECT dev (int (B + i)) s2 else Inr s2) = Inr ?s3"
    using WR_SECT_eq [of s2 dev "int (B + i)"] assms(2,8) by (simp add: nat_int_add)
  have bs: "buffered s ?s3"
    using buffered_trans [OF buffered_load buffered_trans [OF b(1)]] by simp
  have "disk ?s3 d x = mark_map f N B i (i + 1) dev (disk s) d x" for d x
  proof (cases "d = dev \<and> x div 512 = B + i")
    case True
    define l where "l = x mod 512"
    have l: "l < 512" "x = (B + i) * 512 + l" using True div_mult_mod_eq [of x 512] by (simp_all add: l_def)
    have m: "mark_map f N B i (i + 1) dev (disk s) d x = mark_byte f N (i * 512 + l) (D (i * 512 + l))"
      using l True assms(7) [OF l(1)] by (simp add: mark_map_def algebra_simps)
    show ?thesis
    proof (cases "fst ?p = 0")
      case True': True
      then have "8 * (i * 512 + 512) \<le> f" using assms(6) by (simp add: progress_def split: if_splits)
      then have "mark_byte f N (i * 512 + l) (D (i * 512 + l)) = D (i * 512 + l)" using l(1) by (intro mark_byte_same) simp
      then show ?thesis using True' m b(2) assms(7) [OF l(1)] l(2) True by simp
    next
      case False
      then show ?thesis using True f [OF l(1)] fb1 [OF l(1)] m by (simp add: disk_store_sector flip: l_def)
    qed
  next
    case False
    have "x div 512 = B + i" if "(B + i) * 512 \<le> x" "x < (B + (i + 1)) * 512" using that by auto
    then show ?thesis using False b(2) by (auto simp: mark_map_def disk_store_sector)
  qed
  then have "disk ?s3 = mark_map f N B i (i + 1) dev (disk s)" by blast
  then show ?thesis using s2 w bs by blast
qed

lemma mark_map_end: "f + N \<le> 8 * (i * 512) \<Longrightarrow> mark_map f N B i k dev D = D"
  by (intro ext) (auto simp: mark_map_def intro!: mark_byte_same)

lemma mark_map_comp:
  "i \<le> j \<Longrightarrow> j \<le> k \<Longrightarrow> mark_map f N B j k dev (mark_map f N B i j dev D) = mark_map f N B i k dev D"
  by (intro ext) (auto simp: mark_map_def)

lemma smap_sects_ok:
  assumes "MAJOR dev = 3" and "room D f N" and "0 < N"
    and "r = sint (word_of_int (int f - 1) + n_1st_sect sb)" and "r \<noteq> 0"
    and "nr = unat (nr_smap_sects sb)" and "sint (1 + 1 + nr_imap_sects sb) = int B" and "B + nr \<le> 2 ^ 22"
    and "f + N \<le> 8 * (nr * 512)"
    and "fs_flat s" and "8 * (i * 512) < f + N"
    and "\<And>q. i * 512 \<le> q \<Longrightarrow> q < nr * 512 \<Longrightarrow> disk s dev (B * 512 + q) = D q"
  shows "\<exists>s'. smap_sects sb dev i (fst (progress f N r (i * 512))) (snd (progress f N r (i * 512))) s = Inr (r, 0, s')
    \<and> buffered s s' \<and> disk s' = mark_map f N B i nr dev (disk s)"
  using assms(10-12)
proof (induction "nr - i" arbitrary: i s)
  case 0
  then have "8 * (nr * 512) \<le> 8 * (i * 512)" by simp
  then show ?case using 0 assms(9) by linarith
next
  case (Suc l)
  let ?q = "(i + 1) * 512"
  have i: "i < nr" "l = nr - (i + 1)" using Suc.hyps(2) by auto
  have D: "disk s dev ((B + i) * 512 + m) = D (i * 512 + m)" if "m < 512" for m
    using Suc.prems(3) [of "i * 512 + m"] that i by (simp add: algebra_simps)
  have "B + i < 2 ^ 22" using i assms(8) by linarith
  from smap_sector_ok [OF Suc.prems(1) assms(1-5) D this] obtain s2 s3 where
    bytes: "smap_bytes sb i 0 (fst (progress f N r (i * 512))) (snd (progress f N r (i * 512))) (load_sector dev (B + i) s)
          = Inr (fst (progress f N r ?q), snd (progress f N r ?q), s2)"
    and wr: "(if fst (progress f N r ?q) \<noteq> 0 then WR_SECT dev (int (B + i)) s2 else Inr s2) = Inr s3"
    and s3: "buffered s s3" "disk s3 = mark_map f N B i (i + 1) dev (disk s)" by (auto simp: algebra_simps)
  have "RD_SECT dev (int (B + i)) s = Inr (load_sector dev (B + i) s)"
    using RD_SECT_eq [of s dev "int (B + i)"] Suc.prems(1) assms(1) \<open>B + i < 2 ^ 22\<close> by (simp add: nat_int_add)
  then have step: "smap_sects sb dev i (fst (progress f N r (i * 512))) (snd (progress f N r (i * 512))) s
      = (if snd (progress f N r ?q) = 0 then Inr (fst (progress f N r ?q), snd (progress f N r ?q), s3)
         else smap_sects sb dev (i + 1) (fst (progress f N r ?q)) (snd (progress f N r ?q)) s3)"
    using i(1) assms(6,7) bytes wr [unfolded of_nat_add]
    by (subst smap_sects.simps) (simp add: Let_def split del: if_split cong: if_cong)
  show ?case
  proof (cases "f + N \<le> 8 * ?q")
    case True
    then have "progress f N r ?q = (r, 0)" using assms(3) by (simp add: progress_done)
    moreover have "mark_map f N B i nr dev (disk s) = disk s3"
      using mark_map_comp [of i "i + 1" nr f N B dev "disk s"] mark_map_end [OF True, of B nr dev "disk s3"] i(1) s3(2) by simp
    ultimately show ?thesis using step s3(1) by simp
  next
    case False
    have "fs_flat s3" using buffered_fields(9) [OF s3(1)] Suc.prems(1) by simp
    moreover have "disk s3 dev (B * 512 + q) = D q" if "?q \<le> q" "q < nr * 512" for q
      using that Suc.prems(3) [of q] s3(2) by (simp add: mark_map_def)
    ultimately obtain s' where s': "smap_sects sb dev (i + 1) (fst (progress f N r ?q)) (snd (progress f N r ?q)) s3 = Inr (r, 0, s')"
      "buffered s3 s'" "disk s' = mark_map f N B (i + 1) nr dev (disk s3)"
      using Suc.hyps(1) [of "i + 1" s3] i(2) False by auto
    have "snd (progress f N r ?q) \<noteq> 0" using False progress_zero [OF assms(3)] by simp
    then show ?thesis
      using step s' s3 mark_map_comp [of i "i + 1" nr f N B dev "disk s"] i(1) buffered_trans [OF s3(1) s'(2)] by auto
  qed
qed

lemma alloc_smap_ok:
  assumes "kinv s" and "MAJOR dev = 3" and "get_super_block dev s = Inr sb"
    and "B = 2 + unat (nr_imap_sects sb)" and "nr = unat (nr_smap_sects sb)" and "B + nr \<le> 2 ^ 22"
    and "1 < unat (n_1st_sect sb)" and "f + unat (n_1st_sect sb) \<le> 2 ^ 31"
    and "0 < N" and "f + N \<le> 4096 * nr"
    and "\<And>m. m < f \<Longrightarrow> map_bit s dev B m" and "\<And>m. f \<le> m \<Longrightarrow> m < f + N \<Longrightarrow> \<not> map_bit s dev B m"
  shows "\<exists>s'. alloc_smap_bit dev (int N) s = Inr (int f - 1 + int (unat (n_1st_sect sb)), s') \<and> buffered s s'
    \<and> (\<forall>m < 4096 * nr. map_bit s' dev B m \<longleftrightarrow> map_bit s dev B m \<or> f \<le> m \<and> m < f + N)
    \<and> (\<forall>d x. d \<noteq> dev \<or> x div 512 < B \<or> B + nr \<le> x div 512 \<longrightarrow> disk s' d x = disk s d x)"
proof -
  let ?D = "\<lambda>q. disk s dev (B * 512 + q)"
  define r where "r = sint (word_of_int (int f - 1) + n_1st_sect sb)"
  have e: "word_of_int (int f - 1) + n_1st_sect sb = (word_of_int (int f) + (n_1st_sect sb - 1) :: u32)" by simp
  have n: "unat (n_1st_sect sb - 1) = unat (n_1st_sect sb) - 1"
    using assms(7) by (intro unat_minus_one) auto
  have r: "r = int f - 1 + int (unat (n_1st_sect sb))"
  proof -
    have "f + (unat (n_1st_sect sb) - 1) < 2 ^ 31" using assms(7,8) by linarith
    then have "sint (word_of_int (int f) + (n_1st_sect sb - 1)) = int (f + (unat (n_1st_sect sb) - 1))"
      using sint_sum [of f "n_1st_sect sb - 1", unfolded n] by blast
    then show ?thesis unfolding r_def e using assms(7) by linarith
  qed
  have room: "room ?D f N"
    unfolding room_def
  proof (intro allI impI conjI)
    fix q m :: nat assume m: "m < 8"
    have mb: "map_bit s dev B (8 * q + m) = bit (?D q) m" using m by (simp add: map_bit_def)
    show "bit (?D q) m" if "8 * q + m < f" using assms(11) [OF that] mb by simp
    show "\<not> bit (?D q) m" if "f \<le> 8 * q + m \<and> 8 * q + m < f + N" using assms(12) that mb by blast
  qed
  have B: "sint (1 + 1 + nr_imap_sects sb) = int B"
    using sint_sum [of 2 "nr_imap_sects sb"] assms(4,6) by simp
  have "8 * (0 * 512) < f + N" "f + N \<le> 8 * (nr * 512)" "r \<noteq> 0" using assms(7,9,10) r by linarith+
  then obtain s' where s': "smap_sects sb dev 0 (fst (progress f N r (0 * 512))) (snd (progress f N r (0 * 512))) s = Inr (r, 0, s')"
    "buffered s s'" "disk s' = mark_map f N B 0 nr dev (disk s)"
    using smap_sects_ok [OF assms(2) room assms(9) r_def _ assms(5) B assms(6), of s 0] fs_flatI [OF assms(1)] by blast
  have alloc: "alloc_smap_bit dev (int N) s = Inr (r, s')"
    using s'(1) assms(3) by (simp add: alloc_smap_bit_def progress_def)
  have "map_bit s' dev B m \<longleftrightarrow> map_bit s dev B m \<or> f \<le> m \<and> m < f + N" if "m < 4096 * nr" for m
  proof -
    have q: "m div 8 < nr * 512" using that by auto
    then have "(B + 0) * 512 \<le> B * 512 + m div 8" "B * 512 + m div 8 < (B + nr) * 512" by (simp_all add: algebra_simps)
    then have "disk s' dev (B * 512 + m div 8) = mark_byte f N (m div 8) (?D (m div 8))"
      by (simp add: s'(3) mark_map_def)
    then show ?thesis by (simp add: map_bit_def bit_mark_byte)
  qed
  moreover have "disk s' d x = disk s d x" if "d \<noteq> dev \<or> x div 512 < B \<or> B + nr \<le> x div 512" for d x
  proof -
    have "x < B * 512 \<or> (B + nr) * 512 \<le> x \<or> d \<noteq> dev" using that by auto
    then show ?thesis by (auto simp: s'(3) mark_map_def)
  qed
  ultimately show ?thesis using alloc s'(2) r by blast
qed

text \<open>
  C18: \<^verbatim>\<open>alloc_smap_bit\<close> allocates \<open>N\<close> consecutive sectors. When the sector map has room for them from its first
  clear bit \<open>f\<close> on, the three nested loops set exactly the bits \<open>f\<close> to \<open>f + N - 1\<close>, across
  bytes and sectors of the map, and return the sector the first bit stands for. Nothing else on any
  device changes.
\<close>

theorem alloc_smap_bit_correct:
  assumes "kinv s" and "MAJOR dev = 3" and "get_super_block dev s = Inr sb"
    and "B = 2 + unat (nr_imap_sects sb)" and "nr = unat (nr_smap_sects sb)" and "B + nr \<le> 2 ^ 22"
    and "1 < unat (n_1st_sect sb)" and "f + unat (n_1st_sect sb) \<le> 2 ^ 31"
    and "0 < N" and "f + N \<le> 4096 * nr"
    and "\<And>m. m < f \<Longrightarrow> map_bit s dev B m" and "\<And>m. f \<le> m \<Longrightarrow> m < f + N \<Longrightarrow> \<not> map_bit s dev B m"
  shows "\<exists>s'. alloc_smap_bit dev (int N) s = Inr (int f - 1 + int (unat (n_1st_sect sb)), s') \<and> buffered s s'
    \<and> (\<forall>m < 4096 * nr. map_bit s' dev B m \<longleftrightarrow> map_bit s dev B m \<or> f \<le> m \<and> m < f + N)
    \<and> (\<forall>d x. d \<noteq> dev \<or> x div 512 < B \<or> B + nr \<le> x div 512 \<longrightarrow> disk s' d x = disk s d x)"
  using assms by (rule alloc_smap_ok)

section \<open>Instances\<close>

lemma demo_imap: "m < 4096 \<Longrightarrow> map_bit fs_demo dev 2 m \<longleftrightarrow> m < 5"
proof -
  assume "m < 4096"
  then have "m div 8 < 512" by auto
  then have sect: "(1024 + m div 8) div 512 = 2" by linarith
  show "map_bit fs_demo dev 2 m \<longleftrightarrow> m < 5"
  proof (cases "m < 8")
    case True
    then have "m \<in> {0, 1, 2, 3, 4, 5, 6, 7}" by auto
    then show ?thesis by (auto simp: map_bit_def demo_disk_def)
  next
    case False
    then show ?thesis using sect by (simp add: map_bit_def demo_disk_def)
  qed
qed

lemma demo_smap: "m < 4096 \<Longrightarrow> map_bit fs_demo dev 3 m \<longleftrightarrow> m < 2049"
proof -
  assume "m < 4096"
  then have "m div 8 < 512" by auto
  then have sect: "(1536 + m div 8) div 512 = 3" by linarith
  have full: "bit (0xFF :: u8) (m mod 8)" using u8_full [of "0xFF"] by simp
  have one: "bit (1 :: u8) (m mod 8) \<longleftrightarrow> m mod 8 = 0" by (auto simp: bit_simps)
  have "m < 2048 \<longleftrightarrow> m div 8 < 256" "m div 8 = 256 \<and> m mod 8 = 0 \<longleftrightarrow> m = 2048" by auto
  then show "map_bit fs_demo dev 3 m \<longleftrightarrow> m < 2049" using sect full one by (auto simp: map_bit_def demo_disk_def)
qed

theorem alloc_imap_bit_correct_witness: "\<exists>s'. alloc_imap_bit ROOT_DEV fs_demo = Inr (5, s')"
  using alloc_imap_bit_correct [of fs_demo ROOT_DEV demo_sb 5] by (auto simp: demo_imap) (auto simp: demo_sb_def)

theorem alloc_smap_bit_correct_witness: "\<exists>s'. alloc_smap_bit ROOT_DEV 2000 fs_demo = Inr (2309, s')"
  using alloc_smap_bit_correct [of fs_demo ROOT_DEV demo_sb 3 2 2049 2000] by (simp add: demo_smap) (auto simp: demo_sb_def)

theorem alloc_imap_bit_full_witness:
  "\<exists>s'. alloc_imap_bit ROOT_DEV (fs_demo\<lparr>disk := \<lambda>_ _. 0xFF\<rparr>) = Inr (0, s')"
proof -
  have "kinv (fs_demo\<lparr>disk := \<lambda>_ _. 0xFF\<rparr>)" using fs_demo_kinv by (simp add: kinv_def seg_base_def)
  moreover have "bit (0xFF :: u8) (m mod 8)" for m using u8_full [of "0xFF"] by simp
  ultimately show ?thesis
    using alloc_imap_bit_full [of "fs_demo\<lparr>disk := \<lambda>_ _. 0xFF\<rparr>" ROOT_DEV demo_sb] get_super_block_cong [of "fs_demo\<lparr>disk := \<lambda>_ _. 0xFF\<rparr>" fs_demo]
    by (auto simp: map_bit_def demo_sb_def)
qed

end
