(* ===== verification/Fs_Inode.thy ===== *)
theory Fs_Inode
  imports Fs_Core
begin

text \<open>
  The i-node table as a cache of the i-nodes on the disk: \<^verbatim>\<open>sync_inode\<close> writes an i-node through
  to its slot in the i-node array and touches no other, and \<^verbatim>\<open>get_inode\<close> reads back what was written.
\<close>

section \<open>The bytes of an i-node\<close>

definition inode_bytes :: "inode \<Rightarrow> u8 list" where
  "inode_bytes p = bytes_of_u32 (i_mode p) @ bytes_of_u32 (i_size p) @ bytes_of_u32 (i_start_sect p) @ bytes_of_u32 (i_nr_sects p)"

lemma length_inode_bytes [simp]: "length (inode_bytes p) = 16"
  by (simp add: inode_bytes_def)

lemma write_bytes_append: "write_bytes m a (xs @ ys) = write_bytes (write_bytes m a xs) (a + of_nat (length xs)) ys"
  by (induction xs arbitrary: m a) (simp_all add: add.assoc)

lemma store_inode_bytes: "store_inode p a m = write_bytes m a (inode_bytes p)"
  by (simp add: store_inode_def inode_bytes_def write_u32_def write_bytes_append add.assoc)

lemma read_u32_slice:
  assumes "read_bytes m a 16 = xs @ bytes_of_u32 v @ ys" and "length xs = i" and "i \<le> 12"
  shows "read_u32 m (a + of_nat i) = v"
proof -
  have "read_bytes m (a + of_nat i) 4 = take 4 (drop i (read_bytes m a 16))"
    using read_bytes_add [of m a i "4 + (12 - i)"] read_bytes_add [of m "a + of_nat i" 4 "12 - i"] assms(3) by simp
  also have "\<dots> = bytes_of_u32 v" using assms(1,2) by simp
  finally show ?thesis by (simp add: read_u32_def u32_bytes_roundtrip)
qed

lemma load_inode_bytes:
  assumes "read_bytes m a 16 = inode_bytes p"
  shows "load_inode m a q = q\<lparr>i_mode := i_mode p, i_size := i_size p, i_start_sect := i_start_sect p, i_nr_sects := i_nr_sects p\<rparr>"
proof -
  note b = assms [unfolded inode_bytes_def]
  have "read_u32 m a = i_mode p" using read_u32_slice [of m a "[]"] b by simp
  moreover have "read_u32 m (a + 4) = i_size p" using read_u32_slice [of m a "bytes_of_u32 (i_mode p)" "i_size p" _ 4] b by simp
  moreover have "read_u32 m (a + 8) = i_start_sect p"
    using read_u32_slice [of m a "bytes_of_u32 (i_mode p) @ bytes_of_u32 (i_size p)" "i_start_sect p" _ 8] b by simp
  moreover have "read_u32 m (a + 12) = i_nr_sects p"
    using read_u32_slice [of m a "bytes_of_u32 (i_mode p) @ bytes_of_u32 (i_size p) @ bytes_of_u32 (i_start_sect p)" "i_nr_sects p" "[]" 12] b
    by simp
  ultimately show ?thesis by (simp add: load_inode_def)
qed

section \<open>The i-node array\<close>

text \<open>The byte of the device at which i-node \<open>n + 1\<close> starts, and the 16 bytes there.\<close>

definition inode_off :: "super_block \<Rightarrow> nat \<Rightarrow> nat" where
  "inode_off sb n = (2 + unat (nr_imap_sects sb) + unat (nr_smap_sects sb)) * 512 + n * 32"

definition disk_inode :: "fs \<Rightarrow> int \<Rightarrow> super_block \<Rightarrow> nat \<Rightarrow> u8 list" where
  "disk_inode s dev sb n = map (\<lambda>i. disk s dev (inode_off sb n + i)) [0..<16]"

definition inodes_fit :: "super_block \<Rightarrow> nat \<Rightarrow> bool" where
  "inodes_fit sb n \<longleftrightarrow> 2 + unat (nr_imap_sects sb) + unat (nr_smap_sects sb) + n div 16 < 2 ^ 22"

lemma sector_split:
  assumes "i < (512 :: nat)"
  shows "(b * 512 + i) div 512 = b" "(b * 512 + i) mod 512 = i"
  using assms by simp_all

lemma inode_place:
  assumes "inodes_fit sb n"
  shows "inode_blk sb (int n + 1) = int (inode_off sb n div 512)" and "inode_addr (int n + 1) = fsbuf + of_nat (inode_off sb n mod 512)"
    and "inode_off sb n mod 512 = n mod 16 * 32" and "inode_off sb n div 512 < 2 ^ 22"
proof -
  let ?b = "2 + unat (nr_imap_sects sb) + unat (nr_smap_sects sb)"
  have off: "inode_off sb n = (?b + n div 16) * 512 + n mod 16 * 32"
  proof -
    have "k * 32 = a * 512 + b * 32" if "a * 16 + b = k" for a b k :: nat using that by simp
    then have "n * 32 = n div 16 * 512 + n mod 16 * 32" using div_mult_mod_eq by blast
    then show ?thesis unfolding inode_off_def add_mult_distrib by (simp only: add.assoc)
  qed
  have "n mod 16 * 32 < 512" by simp
  then have m: "inode_off sb n mod 512 = n mod 16 * 32" and d': "inode_off sb n div 512 = ?b + n div 16"
    unfolding off by (simp_all only: sector_split)
  then show "inode_off sb n mod 512 = n mod 16 * 32" and "inode_off sb n div 512 < 2 ^ 22"
    using assms by (simp_all only: inodes_fit_def)
  have sd: "(int n + 1 - 1) sdiv 16 = int (n div 16)" "(int n + 1 - 1) smod 16 = int (n mod 16)"
    by (cases "n = 0"; simp add: signed_divide_int_def signed_modulo_int_def zdiv_int zmod_int)+
  have "1 + 1 + nr_imap_sects sb + nr_smap_sects sb + word_of_int (int (n div 16)) = (word_of_int (int (?b + n div 16)) :: u32)"
    by simp
  moreover have "int (?b + n div 16) < 2 ^ 31"
  proof -
    have "?b + n div 16 < 2 ^ 31" using assms unfolding inodes_fit_def by (rule less_trans) simp
    then show ?thesis by (simp only: of_nat_less_numeral_power_cancel_iff)
  qed
  ultimately show "inode_blk sb (int n + 1) = int (inode_off sb n div 512)"
    unfolding inode_blk_def sd d' by (simp only:) (rule sint_of_int, linarith+)
  show "inode_addr (int n + 1) = fsbuf + of_nat (inode_off sb n mod 512)"
    unfolding inode_addr_def sd m by simp
qed

lemma sect_add:
  assumes "x mod 512 + k < (512 :: nat)"
  shows "(x + k) div 512 = x div 512" "(x + k) mod 512 = x mod 512 + k"
proof -
  have "x + k = x div 512 * 512 + (x mod 512 + k)" by simp
  then show "(x + k) div 512 = x div 512" "(x + k) mod 512 = x mod 512 + k"
    using assms by (metis add.commute div_mult_self1 div_less add_0 zero_neq_numeral, metis mod_less mod_mult_self3)
qed

lemma same_sector:
  assumes "x div 512 = y div (512 :: nat)"
  shows "y \<le> x \<longleftrightarrow> y mod 512 \<le> x mod 512" "x < y + k \<longleftrightarrow> x mod 512 < y mod 512 + k"
proof -
  have c: "b \<le> a \<longleftrightarrow> b' \<le> a'" "a < b + k \<longleftrightarrow> a' < b' + k" if "a = c * 512 + a'" "b = c * 512 + b'" for a b a' b' c :: nat
    using that by auto
  have "x = x div 512 * 512 + x mod 512" "y = x div 512 * 512 + y mod 512" unfolding assms by (metis assms div_mult_mod_eq)+
  from c [OF this] show "y \<le> x \<longleftrightarrow> y mod 512 \<le> x mod 512" "x < y + k \<longleftrightarrow> x mod 512 < y mod 512 + k" .
qed

lemma disk_inode_load:
  assumes "inodes_fit sb n"
  shows "read_bytes (mem (load_sector dev (inode_off sb n div 512) s)) (inode_addr (int n + 1)) 16 = disk_inode s dev sb n"
proof -
  let ?b = "inode_off sb n div 512" and ?i = "inode_off sb n mod 512"
  have "?i + k < 512" if "k < 16" for k using inode_place(3) [OF assms] that by simp
  moreover have "?b * 512 + (?i + k) = inode_off sb n + k" for k using div_mult_mod_eq [of "inode_off sb n" 512] by simp
  ultimately show ?thesis
    by (simp add: inode_place(2) [OF assms] read_bytes_fb fb_load_sector disk_inode_def)
qed

lemma sync_inode_ok:
  assumes "fs_flat s" and "MAJOR (i_dev (inode_of s p)) = 3" and "get_super_block (i_dev (inode_of s p)) s = Inr sb"
    and "i_num (inode_of s p) = int n + 1" and "inodes_fit sb n"
  shows "\<exists>s'. sync_inode p s = Inr s' \<and> buffered s s'
    \<and> disk_inode s' (i_dev (inode_of s p)) sb n = inode_bytes (inode_of s p)
    \<and> (\<forall>d x. \<not> (d = i_dev (inode_of s p) \<and> inode_off sb n \<le> x \<and> x < inode_off sb n + 16) \<longrightarrow> disk s' d x = disk s d x)"
proof -
  let ?dev = "i_dev (inode_of s p)" and ?b = "inode_off sb n div 512" and ?i = "inode_off sb n mod 512"
  let ?s1 = "load_sector ?dev ?b s"
  let ?s2 = "?s1\<lparr>mem := write_bytes (mem ?s1) (fsbuf + of_nat ?i) (inode_bytes (inode_of s p))\<rparr>"
  let ?s3 = "store_sector ?dev ?b ?s2"
  note pl = inode_place [OF assms(5)]
  have i: "?i + 16 \<le> 512" using pl(3) by simp
  have "int ?b < 2 ^ 22" using pl(4) by (simp only: of_nat_less_numeral_power_cancel_iff)
  then have rw: "RD_SECT ?dev (int ?b) s = Inr ?s1" "WR_SECT ?dev (int ?b) ?s2 = Inr ?s3"
    using RD_SECT_eq [OF assms(1,2), of "int ?b"] WR_SECT_eq [of ?s2 ?dev "int ?b"] assms(1,2) by simp_all
  have eq: "sync_inode p s = Inr ?s3"
    unfolding sync_inode_def Let_def assms(3,4) pl(1,2) res_bind_Inr rw(1) store_inode_bytes by (rule rw(2))
  have off: "inode_off sb n = ?b * 512 + ?i" by simp
  have fb2: "fb ?s2 l = (if ?i \<le> l \<and> l < ?i + 16 then inode_bytes (inode_of s p) ! (l - ?i) else disk s ?dev (?b * 512 + l))" if "l < 512" for l
    using fb_write [of l ?i "inode_bytes (inode_of s p)" ?s1] fb_load_sector [OF that] i that by simp
  have "disk_inode ?s3 ?dev sb n = inode_bytes (inode_of s p)"
  proof (rule nth_equalityI)
    fix k assume "k < length (disk_inode ?s3 ?dev sb n)"
    then have k: "k < 16" by (simp add: disk_inode_def)
    have "(inode_off sb n + k) div 512 = ?b" "(inode_off sb n + k) mod 512 = ?i + k"
      using i k by (intro sect_add, linarith)+
    then show "disk_inode ?s3 ?dev sb n ! k = inode_bytes (inode_of s p) ! k"
      using fb2 [of "?i + k"] i k by (simp add: disk_inode_def disk_store_sector)
  qed (simp add: disk_inode_def)
  moreover have "disk ?s3 d x = disk s d x" if "\<not> (d = ?dev \<and> inode_off sb n \<le> x \<and> x < inode_off sb n + 16)" for d x
  proof (cases "d = ?dev \<and> x div 512 = ?b")
    case True
    then have "\<not> (?i \<le> x mod 512 \<and> x mod 512 < ?i + 16)" using that same_sector [of x "inode_off sb n"] by simp
    then show ?thesis using True fb2 [of "x mod 512"] div_mult_mod_eq [of x 512] by (auto simp: disk_store_sector)
  next
    case False
    then show ?thesis by (auto simp: disk_store_sector)
  qed
  moreover have "buffered s ?s3"
    using buffered_trans [OF buffered_load buffered_trans [OF buffered_write buffered_store]] i by simp
  ultimately show ?thesis using eq by blast
qed

lemma get_inode_load:
  assumes "fs_flat s" and "MAJOR dev = 3" and "get_super_block dev s = Inr sb" and "inodes_fit sb n"
    and "inode_scan dev (int n + 1) (inode_table s) 0 None = (None, Some q)" and "q < length (inode_table s)"
    and "disk_inode s dev sb n = inode_bytes p"
  shows "\<exists>s'. get_inode dev (int n + 1) s = Inr (Some q, s')
    \<and> buffered (upd_inode s q (\<lambda>_. p\<lparr>i_dev := dev, i_cnt := 1, i_num := int n + 1\<rparr>)) s' \<and> disk s' = disk s"
proof -
  let ?b = "inode_off sb n div 512"
  let ?n = "\<lambda>n'. n'\<lparr>i_dev := dev, i_num := int n + 1, i_cnt := 1\<rparr>"
  let ?s1 = "upd_inode s q ?n"
  let ?s2 = "load_sector dev ?b ?s1"
  note pl = inode_place [OF assms(4)]
  have "int ?b < 2 ^ 22" using pl(4) by (simp only: of_nat_less_numeral_power_cancel_iff)
  then have rd: "RD_SECT dev (int ?b) ?s1 = Inr ?s2"
    using RD_SECT_eq [of ?s1 dev "int ?b"] assms(1,2) by simp
  have d1: "disk_inode ?s1 dev sb n = inode_bytes p" using assms(7) by (simp add: disk_inode_def upd_inode_def)
  then have ld: "load_inode (mem ?s2) (inode_addr (int n + 1)) = (\<lambda>x. x\<lparr>i_mode := i_mode p, i_size := i_size p, i_start_sect := i_start_sect p, i_nr_sects := i_nr_sects p\<rparr>)"
    using load_inode_bytes disk_inode_load [OF assms(4)] by (intro ext) simp
  have sb: "get_super_block dev ?s1 = Inr sb" using assms(3) get_super_block_cong [of ?s1 s] by (simp add: upd_inode_def)
  have all: "(?n x)\<lparr>i_mode := i_mode p, i_size := i_size p, i_start_sect := i_start_sect p, i_nr_sects := i_nr_sects p\<rparr>
      = p\<lparr>i_dev := dev, i_cnt := 1, i_num := int n + 1\<rparr>" for x
    by (rule inode.equality) simp_all
  have "get_inode dev (int n + 1) s = Inr (Some q, upd_inode ?s2 q (load_inode (mem ?s2) (inode_addr (int n + 1))))"
    unfolding get_inode_def using assms(5) sb rd pl(1) by (simp add: Let_def)
  moreover have "buffered (upd_inode s q (\<lambda>_. p\<lparr>i_dev := dev, i_cnt := 1, i_num := int n + 1\<rparr>)) (upd_inode ?s2 q (load_inode (mem ?s2) (inode_addr (int n + 1))))"
    unfolding ld using assms(6) by (simp add: all buffered_def upd_inode_def load_sector_def write_bytes_outside)
  ultimately show ?thesis by (simp add: upd_inode_def)
qed

text \<open>
  An i-node written by \<^verbatim>\<open>sync_inode\<close> is what \<^verbatim>\<open>get_inode\<close> reads back into a free slot later, from
  any state with the same disk and super blocks; every other byte of the disk is as before.
\<close>

theorem sync_get_inode:
  assumes "kinv s" and "MAJOR (i_dev (inode_of s p)) = 3" and "get_super_block (i_dev (inode_of s p)) s = Inr sb"
    and "i_num (inode_of s p) = int n + 1" and "inodes_fit sb n"
  shows "\<exists>s'. sync_inode p s = Inr s'
    \<and> (\<forall>d x. \<not> (d = i_dev (inode_of s p) \<and> inode_off sb n \<le> x \<and> x < inode_off sb n + 16) \<longrightarrow> disk s' d x = disk s d x)
    \<and> (\<forall>t q. kinv t \<and> disk t = disk s' \<and> sb_table t = sb_table s \<and> q < length (inode_table t)
         \<and> inode_scan (i_dev (inode_of s p)) (int n + 1) (inode_table t) 0 None = (None, Some q)
       \<longrightarrow> (\<exists>t'. get_inode (i_dev (inode_of s p)) (int n + 1) t = Inr (Some q, t') \<and> inode_of t' q = (inode_of s p)\<lparr>i_cnt := 1\<rparr>))"
proof -
  let ?dev = "i_dev (inode_of s p)"
  from sync_inode_ok [OF fs_flatI [OF assms(1)] assms(2-5)] obtain s' where
    s': "sync_inode p s = Inr s'" "disk_inode s' ?dev sb n = inode_bytes (inode_of s p)"
      "\<forall>d x. \<not> (d = ?dev \<and> inode_off sb n \<le> x \<and> x < inode_off sb n + 16) \<longrightarrow> disk s' d x = disk s d x" by blast
  have "\<exists>t'. get_inode ?dev (int n + 1) t = Inr (Some q, t') \<and> inode_of t' q = (inode_of s p)\<lparr>i_cnt := 1\<rparr>"
    if t: "kinv t" "disk t = disk s'" "sb_table t = sb_table s" "q < length (inode_table t)"
      "inode_scan ?dev (int n + 1) (inode_table t) 0 None = (None, Some q)" for t q
  proof -
    have "disk_inode t ?dev sb n = inode_bytes (inode_of s p)" using s'(2) t(2) by (simp add: disk_inode_def)
    moreover have "get_super_block ?dev t = Inr sb" using get_super_block_cong [OF t(3)] assms(3) by simp
    ultimately obtain t' where t': "get_inode ?dev (int n + 1) t = Inr (Some q, t')"
      "buffered (upd_inode t q (\<lambda>_. (inode_of s p)\<lparr>i_dev := ?dev, i_cnt := 1, i_num := int n + 1\<rparr>)) t'"
      using get_inode_load [OF fs_flatI [OF t(1)] assms(2) _ assms(5) t(5,4)] by blast
    have "inode_of t' q = (inode_of s p)\<lparr>i_dev := ?dev, i_cnt := 1, i_num := int n + 1\<rparr>"
      using buffered_fields(2) [OF t'(2)] t(4) by (simp add: upd_inode_def)
    also have "\<dots> = (inode_of s p)\<lparr>i_cnt := 1\<rparr>" by (rule inode.equality) (simp_all add: assms(4))
    finally show ?thesis using t'(1) by blast
  qed
  then show ?thesis using s'(1,3) by blast
qed

theorem sync_get_inode_witness:
  "\<exists>s' t'. sync_inode 0 fs_demo = Inr s'
     \<and> get_inode ROOT_DEV 1 (fs_demo\<lparr>disk := disk s', inode_table := [no_inode]\<rparr>) = Inr (Some 0, t') \<and> inode_of t' 0 = demo_root"
proof -
  have root: "i_dev demo_root = ROOT_DEV" "i_num demo_root = 1" "demo_root\<lparr>i_cnt := 1\<rparr> = demo_root" by (simp_all add: demo_root_def)
  have "inodes_fit demo_sb 0" by (simp add: inodes_fit_def demo_sb_def)
  then obtain s' where s': "sync_inode 0 fs_demo = Inr s'" and
    get: "\<And>t q. kinv t \<and> disk t = disk s' \<and> sb_table t = sb_table fs_demo \<and> q < length (inode_table t)
         \<and> inode_scan ROOT_DEV 1 (inode_table t) 0 None = (None, Some q)
       \<Longrightarrow> \<exists>t'. get_inode ROOT_DEV 1 t = Inr (Some q, t') \<and> inode_of t' q = demo_root"
    using sync_get_inode [of fs_demo 0 demo_sb 0] by (auto simp: root)
  have "kinv (fs_demo\<lparr>disk := disk s', inode_table := [no_inode]\<rparr>)" using booted_kinv by (simp add: kinv_def seg_base_def)
  then show ?thesis using s' get [of "fs_demo\<lparr>disk := disk s', inode_table := [no_inode]\<rparr>" 0] by (simp add: no_inode_def)
qed

end
