(* ===== verification/Fs_Dir.thy ===== *)
theory Fs_Dir
  imports Fs_Inode
begin

text \<open>
  Path names and the root directory (\<^verbatim>\<open>strip_path\<close> and \<^verbatim>\<open>search_file\<close> of \<^verbatim>\<open>fs/misc.c\<close>,
  \<^verbatim>\<open>new_dir_entry\<close> of \<^verbatim>\<open>fs/open.c\<close>). A path is the bytes copied from the caller, without the
  terminator FS adds; a name is what \<^verbatim>\<open>strip_path\<close> stores before its terminator. The directory is an
  array of entries of 16 bytes, an i-node number and a name of 12 bytes, spread over the sectors of
  the root's i-node.
\<close>

section \<open>Paths\<close>

text \<open>The loop of \<^verbatim>\<open>strip_path\<close> after \<open>n\<close> characters: it stops at the terminator, fails at a slash, and truncates.\<close>

fun strip_loop :: "nat \<Rightarrow> u8 list \<Rightarrow> u8 list option" where
  "strip_loop n [] = Some []"
| "strip_loop n (c # cs) =
     (if c = 0 then Some []
      else if c = 0x2F then None
      else if n + 1 \<ge> MAX_FILENAME_LEN then Some [c]
      else map_option ((#) c) (strip_loop (n + 1) cs))"

definition strip_path :: "u8 list \<Rightarrow> fs \<Rightarrow> (u8 list \<times> nat) option" where
  "strip_path pathname s =
     map_option (\<lambda>filename. (filename, root_inode s))
       (strip_loop 0 (if pathname \<noteq> [] \<and> hd pathname = 0x2F then tl pathname else pathname))"

section \<open>Directory entries in the buffer\<close>

definition de_inode_nr :: "fs \<Rightarrow> nat \<Rightarrow> int" where
  "de_inode_nr s j = read_int (mem s) (fsbuf + of_nat (j * DIR_ENTRY_SIZE))"

definition de_name :: "fs \<Rightarrow> nat \<Rightarrow> u8 list" where
  "de_name s j = read_bytes (mem s) (fsbuf + of_nat (j * DIR_ENTRY_SIZE + 4)) MAX_FILENAME_LEN"

definition pad_name :: "u8 list \<Rightarrow> u8 list" where
  "pad_name filename = filename @ replicate (MAX_FILENAME_LEN - length filename) 0"

text \<open>
  The number of sectors and of entries of a directory, in unsigned arithmetic. The callers differ in
  the rounding of the first.
\<close>

definition dir_blks :: "nat \<Rightarrow> inode \<Rightarrow> int" where
  "dir_blks r dir = sint ((i_size dir + of_nat r) div of_nat SECTOR_SIZE)"

definition dir_entries :: "inode \<Rightarrow> int" where
  "dir_entries dir = sint (i_size dir div of_nat DIR_ENTRY_SIZE)"

section \<open>Searching\<close>

text \<open>
  The loop over the entries of a sector from entry \<open>j\<close>, with the count \<open>m\<close> of entries seen: a hit, or
  the count.
\<close>

function search_block :: "u8 list \<Rightarrow> int \<Rightarrow> fs \<Rightarrow> nat \<Rightarrow> int \<Rightarrow> int option \<times> int" where
  "search_block name nr s j m =
     (if j < SECTOR_SIZE div DIR_ENTRY_SIZE then
        if de_name s j = name then (Some (de_inode_nr s j), m)
        else if m + 1 > nr then (None, m + 1)
        else search_block name nr s (j + 1) (m + 1)
      else (None, m))"
  by pat_completeness auto
termination by (relation "measure (\<lambda>(name, nr, s, j, m). SECTOR_SIZE div DIR_ENTRY_SIZE - j)") auto

function search_blocks :: "u8 list \<Rightarrow> inode \<Rightarrow> int \<Rightarrow> int \<Rightarrow> fs \<Rightarrow> (int \<times> fs) res" where
  "search_blocks name dir i m s =
     (if i < dir_blks 511 dir then
        res_bind (RD_SECT (i_dev dir) (sint (i_start_sect dir) + i) s) (\<lambda>s1.
        case search_block name (dir_entries dir) s1 0 m of
          (Some nr, _) \<Rightarrow> Inr (nr, s1)
        | (None, m') \<Rightarrow> if m' > dir_entries dir then Inr (0, s1) else search_blocks name dir (i + 1) m' s1)
      else Inr (0, s))"
  by pat_completeness auto
termination by (relation "measure (\<lambda>(name, dir, i, m, s). nat (dir_blks 511 dir - i))") auto

declare search_block.simps [simp del] search_blocks.simps [simp del]

definition search_file :: "u8 list \<Rightarrow> fs \<Rightarrow> (int \<times> fs) res" where
  "search_file path s =
     (case strip_path path s of
        None \<Rightarrow> Inr (0, s)
      | Some (filename, d) \<Rightarrow>
          if filename = [] then Inr (i_num (inode_of s d), s)
          else search_blocks (pad_name filename) (inode_of s d) 0 0 s)"

section \<open>Adding an entry\<close>

text \<open>
  The search for a slot: the loop over a sector gives whether a free entry was found, the entry \<^verbatim>\<open>pde\<close>
  points to and the count; the loop over the sectors adds the number of the sector. \<^verbatim>\<open>pde\<close> is never set
  for a directory of no sectors.
\<close>

function slot_block :: "int \<Rightarrow> fs \<Rightarrow> nat \<Rightarrow> int \<Rightarrow> bool \<times> nat \<times> int" where
  "slot_block nr s j m =
     (if j < SECTOR_SIZE div DIR_ENTRY_SIZE then
        if m + 1 > nr then (False, j, m + 1)
        else if de_inode_nr s j = 0 then (True, j, m + 1)
        else slot_block nr s (j + 1) (m + 1)
      else (False, j, m))"
  by pat_completeness auto
termination by (relation "measure (\<lambda>(nr, s, j, m). SECTOR_SIZE div DIR_ENTRY_SIZE - j)") auto

function slot_blocks :: "inode \<Rightarrow> int \<Rightarrow> nat option \<Rightarrow> int \<Rightarrow> fs \<Rightarrow> (bool \<times> int \<times> nat option \<times> fs) res" where
  "slot_blocks dir i pde m s =
     (if i < dir_blks 512 dir then
        res_bind (RD_SECT (i_dev dir) (sint (i_start_sect dir) + i) s) (\<lambda>s1.
        case slot_block (dir_entries dir) s1 0 m of
          (found, j, m') \<Rightarrow>
            if m' > dir_entries dir \<or> found then Inr (found, i, Some j, s1) else slot_blocks dir (i + 1) (Some j) m' s1)
      else Inr (False, i, pde, s))"
  by pat_completeness auto
termination by (relation "measure (\<lambda>(dir, i, pde, m, s). nat (dir_blks 512 dir - i))") auto

declare slot_block.simps [simp del] slot_blocks.simps [simp del]

text \<open>\<^verbatim>\<open>strcpy\<close> writes the terminator too, which for a name of 12 bytes is behind the entry.\<close>

definition write_entry :: "nat \<Rightarrow> int \<Rightarrow> u8 list \<Rightarrow> fs \<Rightarrow> fs" where
  "write_entry j inode_nr filename s =
     (let m1 = write_int (mem s) (fsbuf + of_nat (j * DIR_ENTRY_SIZE)) inode_nr in
      s\<lparr>mem := write_bytes m1 (fsbuf + of_nat (j * DIR_ENTRY_SIZE + 4)) (filename @ [0])\<rparr>)"

definition new_dir_entry :: "nat \<Rightarrow> int \<Rightarrow> u8 list \<Rightarrow> fs \<Rightarrow> fs res" where
  "new_dir_entry d inode_nr filename s =
     (let dir = inode_of s d in
      res_bind (slot_blocks dir 0 None 0 s) (\<lambda>(found, i, pde, s1).
      case pde of
        None \<Rightarrow> Inl (BadAccess ''new_dir_entry: pde'')
      | Some j \<Rightarrow>
          let s2 = if found then s1 else upd_inode s1 d (\<lambda>n. n\<lparr>i_size := i_size n + of_nat DIR_ENTRY_SIZE\<rparr>) in
          res_bind (WR_SECT (i_dev dir) (sint (i_start_sect dir) + i) (write_entry j inode_nr filename s2)) (\<lambda>s3.
          sync_inode d s3)))"

section \<open>The directory on the disk\<close>

text \<open>Entry \<open>n\<close> of a directory, wherever its sector is.\<close>

definition ent_at :: "inode \<Rightarrow> nat \<Rightarrow> nat" where
  "ent_at dir n = unat (i_start_sect dir) * 512 + n * 16"

definition ent_nr :: "fs \<Rightarrow> inode \<Rightarrow> nat \<Rightarrow> int" where
  "ent_nr s dir n = sint (u32_of_bytes (map (\<lambda>k. disk s (i_dev dir) (ent_at dir n + k)) [0..<4]))"

definition ent_name :: "fs \<Rightarrow> inode \<Rightarrow> nat \<Rightarrow> u8 list" where
  "ent_name s dir n = map (\<lambda>k. disk s (i_dev dir) (ent_at dir n + 4 + k)) [0..<12]"

text \<open>A directory on a hard disk whose sectors FS can address.\<close>

definition dir_ok :: "inode \<Rightarrow> bool" where
  "dir_ok dir \<longleftrightarrow> MAJOR (i_dev dir) = 3 \<and> unat (i_start_sect dir) + unat (i_size dir) div 512 + 1 < 2 ^ 22"

lemma sint_u32_small: "unat (w :: u32) < 2 ^ 31 \<Longrightarrow> sint w = int (unat w)"
  using sint_sum [of 0 w] by simp

lemma dir_ok_facts:
  assumes "dir_ok dir"
  shows "dir_entries dir = int (unat (i_size dir) div 16)"
    and "r \<le> 512 \<Longrightarrow> dir_blks r dir = int ((unat (i_size dir) + r) div 512)"
    and "sint (i_start_sect dir) = int (unat (i_start_sect dir))"
proof -
  have "a < 2 ^ 31 \<and> b < 2 ^ 22" if "a + b + 1 < 2 ^ 22" for a b :: nat using that by simp
  then have start: "unat (i_start_sect dir) < 2 ^ 31" and "unat (i_size dir) div 512 < 2 ^ 22"
    using assms unfolding dir_ok_def by blast+
  then have size: "unat (i_size dir) < 2 ^ 31" by (simp add: div_less_iff_less_mult)
  show "sint (i_start_sect dir) = int (unat (i_start_sect dir))" using sint_u32_small [OF start] .
  have "unat (i_size dir div 16) = unat (i_size dir) div 16" by (simp add: unat_div)
  then show "dir_entries dir = int (unat (i_size dir) div 16)"
    using sint_u32_small [of "i_size dir div 16"] size by (simp add: dir_entries_def)
  assume r: "r \<le> 512"
  then have "unat (i_size dir + of_nat r) = unat (i_size dir) + r"
    using size by (subst unat_add_lem [THEN iffD1]) (simp_all add: unat_of_nat)
  then have "unat ((i_size dir + of_nat r) div 512) = (unat (i_size dir) + r) div 512" by (simp add: unat_div)
  then show "dir_blks r dir = int ((unat (i_size dir) + r) div 512)"
    using sint_u32_small [of "(i_size dir + of_nat r) div 512"] size r by (simp add: dir_blks_def)
qed

lemma dir_sector:
  assumes "dir_ok dir" and "fs_flat s" and "i \<le> unat (i_size dir) div 512"
  shows "RD_SECT (i_dev dir) (sint (i_start_sect dir) + int i) s = Inr (load_sector (i_dev dir) (unat (i_start_sect dir) + i) s)"
    and "fs_flat t \<Longrightarrow> WR_SECT (i_dev dir) (sint (i_start_sect dir) + int i) t = Inr (store_sector (i_dev dir) (unat (i_start_sect dir) + i) t)"
proof -
  have "unat (i_start_sect dir) + i < 2 ^ 22" using assms(1,3) unfolding dir_ok_def by linarith
  then have "int (unat (i_start_sect dir) + i) < 2 ^ 22" by (simp only: of_nat_less_numeral_power_cancel_iff)
  then have *: "0 \<le> int (unat (i_start_sect dir)) + int i" "int (unat (i_start_sect dir)) + int i < 2 ^ 22"
    "nat (int (unat (i_start_sect dir)) + int i) = unat (i_start_sect dir) + i" by (linarith, linarith, simp only: nat_int_add)
  have d: "MAJOR (i_dev dir) = 3" using assms(1) by (simp add: dir_ok_def)
  show "RD_SECT (i_dev dir) (sint (i_start_sect dir) + int i) s = Inr (load_sector (i_dev dir) (unat (i_start_sect dir) + i) s)"
    using RD_SECT_eq [OF assms(2) d *(1,2)] unfolding dir_ok_facts(3) [OF assms(1)] *(3) .
  show "WR_SECT (i_dev dir) (sint (i_start_sect dir) + int i) t = Inr (store_sector (i_dev dir) (unat (i_start_sect dir) + i) t)" if "fs_flat t"
    using WR_SECT_eq [OF that d *(1,2)] unfolding dir_ok_facts(3) [OF assms(1)] *(3) .
qed

lemma loaded_entry:
  assumes "j < 32"
  shows "de_name (load_sector (i_dev dir) (unat (i_start_sect dir) + i) s) j = ent_name s dir (i * 32 + j)"
    and "de_inode_nr (load_sector (i_dev dir) (unat (i_start_sect dir) + i) s) j = ent_nr s dir (i * 32 + j)"
proof -
  let ?s1 = "load_sector (i_dev dir) (unat (i_start_sect dir) + i) s"
  have b: "fb ?s1 (j * 16 + l) = disk s (i_dev dir) (ent_at dir (i * 32 + j) + l)" if "l < 16" for l
    using fb_load_sector [of "j * 16 + l" "i_dev dir" "unat (i_start_sect dir) + i" s] assms that
    by (simp add: ent_at_def algebra_simps)
  show "de_name ?s1 j = ent_name s dir (i * 32 + j)"
    using b by (simp add: de_name_def ent_name_def read_bytes_fb add.assoc del: of_nat_add of_nat_mult)
  have "map (\<lambda>k. fb ?s1 (j * 16 + k)) [0..<4] = map (\<lambda>k. disk s (i_dev dir) (ent_at dir (i * 32 + j) + k)) [0..<4]"
    by (rule map_cong) (use b in auto)
  then show "de_inode_nr ?s1 j = ent_nr s dir (i * 32 + j)"
    unfolding de_inode_nr_def ent_nr_def read_int_def read_u32_def read_bytes_fb DIR_ENTRY_SIZE_def by (simp only:)
qed

section \<open>What a search returns\<close>

lemma find_upt_Cons: "a < b \<Longrightarrow> find P [a..<b] = (if P a then Some a else find P [Suc a..<b])"
  by (simp add: upt_conv_Cons)

lemma find_append: "find P (xs @ ys) = (case find P xs of None \<Rightarrow> find P ys | Some x \<Rightarrow> Some x)"
  by (induction xs) auto

lemma find_upt_append: "a \<le> b \<Longrightarrow> b \<le> c \<Longrightarrow> find P [a..<c] = (case find P [a..<b] of None \<Rightarrow> find P [b..<c] | Some x \<Rightarrow> Some x)"
  using upt_add_eq_append [of a b "c - b"] by (simp add: find_append)

lemma search_block_ok:
  fixes dir s i nr name
  defines "s1 \<equiv> load_sector (i_dev dir) (unat (i_start_sect dir) + i) s"
  assumes "j \<le> 32" and "i * 32 + j \<le> nr"
  shows "search_block name (int nr) s1 j (int (i * 32 + j))
    = (case find (\<lambda>n. ent_name s dir n = name) [i * 32 + j..<min (nr + 1) (i * 32 + 32)] of
         Some n \<Rightarrow> (Some (ent_nr s dir n), int n) | None \<Rightarrow> (None, int (min (nr + 1) (i * 32 + 32))))"
  using assms(2,3)
proof (induction "32 - j" arbitrary: j)
  case 0
  then have "j = 32" by simp
  then show ?case using 0 by (subst search_block.simps) simp
next
  case (Suc l)
  have j: "j < 32" "l = 32 - (j + 1)" using Suc.hyps(2) by auto
  have "i * 32 + j < min (nr + 1) (i * 32 + 32)" using j Suc.prems by simp
  note f = find_upt_Cons [OF this, of "\<lambda>n. ent_name s dir n = name"]
  note e = loaded_entry [OF j(1), of dir i s, folded s1_def]
  show ?case
  proof (cases "ent_name s dir (i * 32 + j) = name \<or> nr = i * 32 + j")
    case True
    then show ?thesis using j f e by (subst search_block.simps) auto
  next
    case False
    have "search_block name (int nr) s1 (j + 1) (int (i * 32 + (j + 1))) = (case find (\<lambda>n. ent_name s dir n = name) [i * 32 + (j + 1)..<min (nr + 1) (i * 32 + 32)] of
         Some n \<Rightarrow> (Some (ent_nr s dir n), int n) | None \<Rightarrow> (None, int (min (nr + 1) (i * 32 + 32))))"
      using Suc.hyps(1) [OF j(2)] j Suc.prems False by simp
    then show ?thesis using j f e False Suc.prems by (subst search_block.simps) (simp add: algebra_simps)
  qed
qed

text \<open>The entries a search looks at: one more than the directory has, within its last sector.\<close>

definition searched :: "inode \<Rightarrow> nat" where
  "searched dir = min (unat (i_size dir) div 16 + 1) ((unat (i_size dir) + 511) div 512 * 32)"

lemma ent_load [simp]: "ent_name (load_sector d q s) dir n = ent_name s dir n" "ent_nr (load_sector d q s) dir n = ent_nr s dir n"
  by (simp_all add: ent_name_def ent_nr_def)

lemma blk_entry:
  assumes "i < (a + 511) div (512 :: nat)"
  shows "i * 32 \<le> a div 16" "i \<le> a div 512" "i * 32 + 32 \<le> (a + 511) div 512 * 32"
proof -
  have "(i + 1) * 512 \<le> a + 511" using assms by (metis Suc_eq_plus1 Suc_leI less_eq_div_iff_mult_less_eq zero_less_numeral)
  then have "i * 512 \<le> a" by simp
  then show "i * 32 \<le> a div 16" "i \<le> a div 512" by (simp_all add: less_eq_div_iff_mult_less_eq)
  show "i * 32 + 32 \<le> (a + 511) div 512 * 32" using assms by linarith
qed

lemma search_blocks_ok:
  assumes "dir_ok dir" and "fs_flat s" and "i \<le> (unat (i_size dir) + 511) div 512" and "i * 32 \<le> searched dir"
  shows "\<exists>s'. search_blocks name dir (int i) (int (i * 32)) s
      = Inr (case find (\<lambda>n. ent_name s dir n = name) [i * 32..<searched dir] of Some n \<Rightarrow> ent_nr s dir n | None \<Rightarrow> 0, s')
    \<and> buffered s s' \<and> disk s' = disk s"
  using assms(2-4)
proof (induction "(unat (i_size dir) + 511) div 512 - i" arbitrary: i s)
  case 0
  then have "i = (unat (i_size dir) + 511) div 512" by simp
  moreover from this have "searched dir \<le> i * 32" by (simp add: searched_def)
  ultimately show ?case using dir_ok_facts(2) [OF assms(1), of 511] by (subst search_blocks.simps) simp
next
  case (Suc l)
  let ?b = "(unat (i_size dir) + 511) div 512" and ?nr = "unat (i_size dir) div 16"
  let ?s1 = "load_sector (i_dev dir) (unat (i_start_sect dir) + i) s"
  let ?e = "min (?nr + 1) (i * 32 + 32)"
  have i: "i < ?b" "l = ?b - (i + 1)" using Suc.hyps(2) by auto
  note be = blk_entry [OF i(1)]
  have sb: "search_block name (dir_entries dir) ?s1 0 (int (i * 32))
      = (case find (\<lambda>n. ent_name s dir n = name) [i * 32..<?e] of
           Some n \<Rightarrow> (Some (ent_nr s dir n), int n) | None \<Rightarrow> (None, int ?e))"
    using search_block_ok [of 0 i ?nr name dir s] be(1) by (simp add: dir_ok_facts(1) [OF assms(1)])
  have blks: "int i < dir_blks 511 dir" using i(1) dir_ok_facts(2) [OF assms(1), of 511] by simp
  have step: "search_blocks name dir (int i) (int (i * 32)) s
      = (case search_block name (dir_entries dir) ?s1 0 (int (i * 32)) of
          (Some nr, _) \<Rightarrow> Inr (nr, ?s1)
        | (None, m') \<Rightarrow> if m' > dir_entries dir then Inr (0, ?s1) else search_blocks name dir (int i + 1) m' ?s1)"
    using blks dir_sector(1) [OF assms(1) Suc.prems(1) be(2)] by (subst search_blocks.simps) simp
  have e: "i * 32 \<le> ?e" "?e \<le> searched dir" using be(1,3) by (auto simp: searched_def)
  note split = find_upt_append [OF e, of "\<lambda>n. ent_name s dir n = name"]
  show ?case
  proof (cases "find (\<lambda>n. ent_name s dir n = name) [i * 32..<?e]")
    case (Some n)
    then show ?thesis using step sb split by (intro exI [of _ ?s1]) simp
  next
    case none: None
    show ?thesis
    proof (cases "?nr + 1 \<le> i * 32 + 32")
      case True
      then have "?e = ?nr + 1" "searched dir = ?nr + 1" using be(3) by (auto simp: searched_def)
      then show ?thesis using step sb split none by (intro exI [of _ ?s1]) (simp add: dir_ok_facts(1) [OF assms(1)])
    next
      case False
      then have e': "?e = (i + 1) * 32" by simp
      have "fs_flat ?s1" "i + 1 \<le> ?b" "(i + 1) * 32 \<le> searched dir" using Suc.prems(1) i(1) e(2) e' by simp_all
      from Suc.hyps(1) [OF i(2) this, unfolded ent_load disk_load_sector] obtain s' where
        s': "search_blocks name dir (int (i + 1)) (int ((i + 1) * 32)) ?s1
          = Inr (case find (\<lambda>n. ent_name s dir n = name) [(i + 1) * 32..<searched dir] of Some n \<Rightarrow> ent_nr s dir n | None \<Rightarrow> 0, s')"
        "buffered ?s1 s'" "disk s' = disk s" by blast
      have "\<not> int ?e > dir_entries dir" using False dir_ok_facts(1) [OF assms(1)] by simp
      then have "search_blocks name dir (int i) (int (i * 32)) s = search_blocks name dir (int (i + 1)) (int ((i + 1) * 32)) ?s1"
        using step sb none e' by (simp add: add.commute)
      then show ?thesis using s' split none e' buffered_trans [OF buffered_load s'(2)] by auto
    qed
  qed
qed

text \<open>
  \<^verbatim>\<open>search_file\<close> on a valid path returns the i-node number of the first directory entry with that name, over all
  sectors of the directory, and 0 when there is none; the root itself for \<^verbatim>\<open>"/"\<close>. It looks at one
  entry behind the last one when that lies in the same sector. Neither the disk nor anything but the buffer
  changes.
\<close>

lemma search_file_ok:
  assumes "kinv s" and "dir_ok (inode_of s (root_inode s))" and "strip_path path s = Some (filename, d)"
  shows "\<exists>s'. search_file path s
      = Inr (if filename = [] then i_num (inode_of s (root_inode s))
             else case find (\<lambda>n. ent_name s (inode_of s (root_inode s)) n = pad_name filename) [0..<searched (inode_of s (root_inode s))] of
                    Some n \<Rightarrow> ent_nr s (inode_of s (root_inode s)) n | None \<Rightarrow> 0, s')
    \<and> buffered s s' \<and> disk s' = disk s"
proof -
  have d: "d = root_inode s" using assms(3) by (auto simp: strip_path_def)
  show ?thesis
    using search_blocks_ok [OF assms(2) fs_flatI [OF assms(1)], of 0 "pad_name filename"] assms(3) d
    by (cases "filename = []") (auto simp: search_file_def)
qed

section \<open>Where an entry goes\<close>

text \<open>The first unused entry, or the one behind the last.\<close>

definition slot_of :: "fs \<Rightarrow> inode \<Rightarrow> nat \<Rightarrow> bool \<times> nat" where
  "slot_of s dir a =
     (case find (\<lambda>n. ent_nr s dir n = 0) [a..<unat (i_size dir) div 16] of
        Some n \<Rightarrow> (True, n) | None \<Rightarrow> (False, unat (i_size dir) div 16))"

lemma slot_of_load [simp]: "slot_of (load_sector d q s) dir a = slot_of s dir a"
  unfolding slot_of_def ent_load ..

lemma slot_block_ok:
  fixes dir s i nr
  defines "s1 \<equiv> load_sector (i_dev dir) (unat (i_start_sect dir) + i) s"
  assumes "j \<le> 32" and "i * 32 + j \<le> nr"
  shows "slot_block (int nr) s1 j (int (i * 32 + j))
    = (case find (\<lambda>n. ent_nr s dir n = 0) [i * 32 + j..<min nr (i * 32 + 32)] of
         Some n \<Rightarrow> (True, n - i * 32, int (n + 1))
       | None \<Rightarrow> if nr < i * 32 + 32 then (False, nr - i * 32, int (nr + 1)) else (False, 32, int (i * 32 + 32)))"
  using assms(2,3)
proof (induction "32 - j" arbitrary: j)
  case 0
  then have "j = 32" by simp
  then show ?case using 0 by (subst slot_block.simps) simp
next
  case (Suc l)
  have j: "j < 32" "l = 32 - (j + 1)" using Suc.hyps(2) by auto
  note e = loaded_entry(2) [OF j(1), of dir i s, folded s1_def]
  show ?case
  proof (cases "nr = i * 32 + j")
    case True
    then show ?thesis using j by (subst slot_block.simps) simp
  next
    case False
    then have "i * 32 + j < min nr (i * 32 + 32)" using j Suc.prems by simp
    note f = find_upt_Cons [OF this, of "\<lambda>n. ent_nr s dir n = 0"]
    show ?thesis
    proof (cases "ent_nr s dir (i * 32 + j) = 0")
      case True
      then show ?thesis using False j f e Suc.prems by (subst slot_block.simps) simp
    next
      case used: False
      have "slot_block (int nr) s1 (j + 1) (int (i * 32 + (j + 1)))
        = (case find (\<lambda>n. ent_nr s dir n = 0) [i * 32 + (j + 1)..<min nr (i * 32 + 32)] of
             Some n \<Rightarrow> (True, n - i * 32, int (n + 1))
           | None \<Rightarrow> if nr < i * 32 + 32 then (False, nr - i * 32, int (nr + 1)) else (False, 32, int (i * 32 + 32)))"
        using Suc.hyps(1) [OF j(2)] j Suc.prems False by simp
      then show ?thesis using j f e False used Suc.prems by (subst slot_block.simps) (simp add: algebra_simps)
    qed
  qed
qed

lemma find_upt_bounds: "find P [a..<b] = Some n \<Longrightarrow> a \<le> n \<and> n < b"
  by (auto simp: find_Some_iff)

lemma blk_of_entry:
  assumes "i * 32 \<le> a div (16 :: nat)"
  shows "i \<le> a div 512" "i < (a + 512) div 512"
proof -
  have "i * 512 \<le> a" using assms by (simp add: less_eq_div_iff_mult_less_eq)
  then show "i \<le> a div 512" by (simp add: less_eq_div_iff_mult_less_eq)
  then show "i < (a + 512) div 512" by simp
qed

lemma slot_blocks_ok:
  assumes "dir_ok dir" and "fs_flat s" and "i * 32 \<le> unat (i_size dir) div 16" and "slot_of s dir (i * 32) = (found, n)"
  shows "\<exists>s1. slot_blocks dir (int i) pde (int (i * 32)) s = Inr (found, int (n div 32), Some (n mod 32), s1)
    \<and> buffered s s1 \<and> disk s1 = disk s
    \<and> (\<forall>l < 512. fb s1 l = disk s (i_dev dir) ((unat (i_start_sect dir) + n div 32) * 512 + l))"
  using assms(2-4)
proof (induction "unat (i_size dir) div 16 div 32 - i" arbitrary: i s pde rule: less_induct)
  case less
  let ?nr = "unat (i_size dir) div 16" and ?s1 = "load_sector (i_dev dir) (unat (i_start_sect dir) + i) s"
  let ?e = "min ?nr (i * 32 + 32)"
  note be = blk_of_entry [OF less.prems(2)]
  have sb: "slot_block (dir_entries dir) ?s1 0 (int (i * 32))
    = (case find (\<lambda>n. ent_nr s dir n = 0) [i * 32..<?e] of
         Some n \<Rightarrow> (True, n - i * 32, int (n + 1))
       | None \<Rightarrow> if ?nr < i * 32 + 32 then (False, ?nr - i * 32, int (?nr + 1)) else (False, 32, int (i * 32 + 32)))"
    using slot_block_ok [of 0 i ?nr dir s] less.prems(2) by (simp add: dir_ok_facts(1) [OF assms(1)])
  have "int i < dir_blks 512 dir" using be(2) dir_ok_facts(2) [OF assms(1), of 512] by simp
  then have step: "slot_blocks dir (int i) pde (int (i * 32)) s
      = (case slot_block (dir_entries dir) ?s1 0 (int (i * 32)) of (found, j, m') \<Rightarrow>
            if m' > dir_entries dir \<or> found then Inr (found, int i, Some j, ?s1) else slot_blocks dir (int i + 1) (Some j) m' ?s1)"
    using dir_sector(1) [OF assms(1) less.prems(1) be(1)] by (subst slot_blocks.simps) simp
  have e: "i * 32 \<le> ?e" "?e \<le> ?nr" using less.prems(2) by simp_all
  note split = find_upt_append [OF e, of "\<lambda>n. ent_nr s dir n = 0"]
  have here: ?case if "slot_blocks dir (int i) pde (int (i * 32)) s = Inr (found, int i, Some (n - i * 32), ?s1)" "i * 32 \<le> n" "n < i * 32 + 32"
  proof -
    have d: "n div 32 = i" using that(2,3) by auto
    moreover have "n mod 32 = n - i * 32" unfolding modulo_nat_def d ..
    ultimately show ?thesis using that(1) by (intro exI [of _ ?s1]) (simp add: fb_load_sector)
  qed
  show ?case
  proof (cases "find (\<lambda>n. ent_nr s dir n = 0) [i * 32..<?e]")
    case (Some k)
    then have fn: "found" "n = k" using less.prems(3) split by (simp_all add: slot_of_def)
    moreover have "i * 32 \<le> k" "k < i * 32 + 32" using find_upt_bounds [OF Some] by simp_all
    moreover have "slot_blocks dir (int i) pde (int (i * 32)) s = Inr (found, int i, Some (n - i * 32), ?s1)"
      using step sb Some fn by simp
    ultimately show ?thesis using here by blast
  next
    case none: None
    show ?thesis
    proof (cases "?nr < i * 32 + 32")
      case True
      then have "\<not> found" "n = ?nr" using less.prems(3) split none by (simp_all add: slot_of_def)
      moreover from this have "slot_blocks dir (int i) pde (int (i * 32)) s = Inr (found, int i, Some (n - i * 32), ?s1)"
        using step sb none True \<open>\<not> found\<close> by (simp add: dir_ok_facts(1) [OF assms(1)])
      moreover have "i * 32 \<le> n" "n < i * 32 + 32" using \<open>n = ?nr\<close> True less.prems(2) by simp_all
      ultimately show ?thesis using here by blast
    next
      case False
      then have e': "?e = (i + 1) * 32" by simp
      then have "slot_of ?s1 dir ((i + 1) * 32) = (found, n)" using less.prems(3) split none by (simp add: slot_of_def)
      moreover have "?nr div 32 - (i + 1) < ?nr div 32 - i"
        using False by (intro diff_less_mono2) (auto simp: less_eq_div_iff_mult_less_eq Suc_le_eq [symmetric])
      ultimately obtain s' where s': "slot_blocks dir (int (i + 1)) (Some 32) (int ((i + 1) * 32)) ?s1 = Inr (found, int (n div 32), Some (n mod 32), s')"
        "buffered ?s1 s'" "disk s' = disk s" "\<forall>l < 512. fb s' l = disk s (i_dev dir) ((unat (i_start_sect dir) + n div 32) * 512 + l)"
        using less.hyps [of "i + 1" ?s1 "Some 32"] less.prems(1) False by auto
      have "slot_blocks dir (int i) pde (int (i * 32)) s = slot_blocks dir (int (i + 1)) (Some 32) (int ((i + 1) * 32)) ?s1"
        using step sb none False by (simp add: dir_ok_facts(1) [OF assms(1)] add.commute)
      then show ?thesis using s' buffered_trans [OF buffered_load s'(2)] by auto
    qed
  qed
qed

section \<open>A new entry is found\<close>

definition entry_bytes :: "int \<Rightarrow> u8 list \<Rightarrow> u8 list" where
  "entry_bytes inode_nr filename = bytes_of_u32 (word_of_int inode_nr) @ filename @ [0]"

lemma length_entry_bytes [simp]: "length (entry_bytes inode_nr filename) = length filename + 5"
  by (simp add: entry_bytes_def)

lemma write_entry_bytes:
  "write_entry j inode_nr filename s = s\<lparr>mem := write_bytes (mem s) (fsbuf + of_nat (j * 16)) (entry_bytes inode_nr filename)\<rparr>"
  by (simp add: write_entry_def entry_bytes_def write_int_def write_u32_def write_bytes_append add.assoc)

text \<open>The directory after the addition: it grows when no entry was free.\<close>

definition grown :: "bool \<Rightarrow> inode \<Rightarrow> inode" where
  "grown found dir = (if found then dir else dir\<lparr>i_size := i_size dir + 16\<rparr>)"

lemma grown_fields [simp]:
  "i_dev (grown f dir) = i_dev dir" "i_num (grown f dir) = i_num dir" "i_start_sect (grown f dir) = i_start_sect dir"
  by (simp_all add: grown_def)

lemma entry_sector:
  "(unat (i_start_sect dir) + n div 32) * 512 + n mod 32 * 16 = ent_at dir n"
proof -
  have "(a + b) * 512 + c * 16 = a * 512 + m * 16" if "b * 32 + c = m" for a b c m :: nat using that by simp
  then show ?thesis unfolding ent_at_def using div_mult_mod_eq by blast
qed

lemma store_entry:
  assumes "\<And>l. l < 512 \<Longrightarrow> fb s l = disk s dev (q * 512 + l)" and "i + length bs \<le> 512"
  shows "disk (store_sector dev q (s\<lparr>mem := write_bytes (mem s) (fsbuf + of_nat i) bs\<rparr>)) d x
    = (if d = dev \<and> q * 512 + i \<le> x \<and> x < q * 512 + i + length bs then bs ! (x - (q * 512 + i)) else disk s d x)"
proof (cases "d = dev \<and> x div 512 = q")
  case True
  define l where "l = x mod 512"
  have l: "l < 512" "x = q * 512 + l" using True div_mult_mod_eq [of x 512] by (simp_all add: l_def)
  have "disk (store_sector dev q (s\<lparr>mem := write_bytes (mem s) (fsbuf + of_nat i) bs\<rparr>)) d x
      = (if i \<le> l \<and> l < i + length bs then bs ! (l - i) else fb s l)"
    using True fb_write [of l i bs s] l(1) assms(2) by (simp add: disk_store_sector flip: l_def)
  then show ?thesis using True assms(1) [OF l(1)] l(2) by auto
next
  case False
  moreover have "x div 512 = q" if "q * 512 + i \<le> x" "x < q * 512 + i + length bs" using that assms(2) by auto
  ultimately show ?thesis by (auto simp: disk_store_sector)
qed

lemma buffered_inode_table: "buffered s t \<Longrightarrow> buffered (s\<lparr>inode_table := f\<rparr>) (t\<lparr>inode_table := f\<rparr>)"
  by (cases s; cases t) (simp add: buffered_def)

lemma new_dir_entry_ok:
  assumes "fs_flat s" and "d < length (inode_table s)" and "dir = inode_of s d" and "dir_ok dir"
    and "get_super_block (i_dev dir) s = Inr sb" and "i_num dir = int k + 1" and "inodes_fit sb k"
    and "inode_off sb k + 16 \<le> unat (i_start_sect dir) * 512" and "length filename \<le> 11" and "slot_of s dir 0 = (found, n)"
  shows "\<exists>s'. new_dir_entry d inode_nr filename s = Inr s'
    \<and> buffered (s\<lparr>inode_table := (inode_table s)[d := grown found dir]\<rparr>) s'
    \<and> disk_inode s' (i_dev dir) sb k = inode_bytes (grown found dir)
    \<and> (\<forall>e x. disk s' e x =
         (if e = i_dev dir \<and> ent_at dir n \<le> x \<and> x < ent_at dir n + length filename + 5 then entry_bytes inode_nr filename ! (x - ent_at dir n)
          else if e = i_dev dir \<and> inode_off sb k \<le> x \<and> x < inode_off sb k + 16 then inode_bytes (grown found dir) ! (x - inode_off sb k)
          else disk s e x))"
proof -
  let ?nr = "unat (i_size dir) div 16" and ?q = "unat (i_start_sect dir) + n div 32" and ?i = "n mod 32 * 16"
  let ?bs = "entry_bytes inode_nr filename"
  from slot_blocks_ok [OF assms(4,1), of 0 found n None] assms(10) obtain s1 where
    s1: "slot_blocks dir 0 None 0 s = Inr (found, int (n div 32), Some (n mod 32), s1)" "buffered s s1" "disk s1 = disk s"
      "\<And>l. l < 512 \<Longrightarrow> fb s1 l = disk s (i_dev dir) (?q * 512 + l)" by auto
  let ?s2 = "upd_inode s1 d (grown found)"
  let ?s3 = "store_sector (i_dev dir) ?q (write_entry (n mod 32) inode_nr filename ?s2)"
  have it: "inode_table s1 = inode_table s" "fs_flat s1" using buffered_fields [OF s1(2)] assms(1) by simp_all
  have s2: "?s2 = (if found then s1 else upd_inode s1 d (\<lambda>n. n\<lparr>i_size := i_size n + 16\<rparr>))"
    by (simp add: upd_inode_def grown_def)
  have "n \<le> ?nr" using assms(10) by (auto simp: slot_of_def split: option.splits dest: find_upt_bounds)
  then have "n div 32 * 32 \<le> ?nr" by simp
  from blk_of_entry(1) [OF this] have nb: "n div 32 \<le> unat (i_size dir) div 512" .
  have flat2: "fs_flat (write_entry (n mod 32) inode_nr filename ?s2)" using it(2) by (simp add: write_entry_bytes)
  have wr: "WR_SECT (i_dev dir) (sint (i_start_sect dir) + int (n div 32)) (write_entry (n mod 32) inode_nr filename ?s2) = Inr ?s3"
    using dir_sector(2) [OF assms(4,1) nb flat2] .
  have i: "?i + length ?bs \<le> 512" using assms(9) by simp
  have d3: "disk ?s3 e x = (if e = i_dev dir \<and> ent_at dir n \<le> x \<and> x < ent_at dir n + length ?bs then ?bs ! (x - ent_at dir n) else disk s e x)" for e x
  proof -
    have "fb ?s2 l = disk ?s2 (i_dev dir) (?q * 512 + l)" if "l < 512" for l
      using s1(3) s1(4) [OF that] by (simp add: upd_inode_def fb_def)
    from store_entry [of ?s2 "i_dev dir" ?q ?i ?bs e x, OF this i] show ?thesis
      using s1(3) unfolding write_entry_bytes entry_sector by (simp add: upd_inode_def)
  qed
  have n3: "inode_of ?s3 d = grown found dir" "sb_table ?s3 = sb_table s" "fs_flat ?s3"
    using it(2) buffered_fields(2,4) [OF s1(2)] assms(2,3) flat2 by (simp_all add: store_sector_def upd_inode_def write_entry_bytes)
  have "get_super_block (i_dev dir) ?s3 = Inr sb" using get_super_block_cong [OF n3(2)] assms(5) by simp
  with sync_inode_ok [OF n3(3), of d sb k] n3(1) assms(4,6,7) obtain s' where
    s': "sync_inode d ?s3 = Inr s'" "buffered ?s3 s'" "disk_inode s' (i_dev dir) sb k = inode_bytes (grown found dir)"
      "\<forall>e x. \<not> (e = i_dev dir \<and> inode_off sb k \<le> x \<and> x < inode_off sb k + 16) \<longrightarrow> disk s' e x = disk ?s3 e x"
    by (auto simp: dir_ok_def)
  have "new_dir_entry d inode_nr filename s = Inr s'"
    using s1(1) wr s'(1) s2 assms(3) by (cases found) (simp_all add: new_dir_entry_def Let_def)
  moreover have "buffered (s\<lparr>inode_table := (inode_table s)[d := grown found dir]\<rparr>) s'"
  proof -
    have "buffered (s\<lparr>inode_table := (inode_table s)[d := grown found dir]\<rparr>) ?s2"
      using buffered_inode_table [OF s1(2)] it(1) assms(3) by (simp add: upd_inode_def)
    moreover have "buffered ?s2 (write_entry (n mod 32) inode_nr filename ?s2)" unfolding write_entry_bytes by (rule buffered_write [OF i])
    ultimately show ?thesis using buffered_trans [OF _ buffered_trans [OF _ buffered_trans [OF buffered_store s'(2)]]] by blast
  qed
  moreover have "disk s' e x =
         (if e = i_dev dir \<and> ent_at dir n \<le> x \<and> x < ent_at dir n + length filename + 5 then ?bs ! (x - ent_at dir n)
          else if e = i_dev dir \<and> inode_off sb k \<le> x \<and> x < inode_off sb k + 16 then inode_bytes (grown found dir) ! (x - inode_off sb k)
          else disk s e x)" for e x
  proof (cases "e = i_dev dir \<and> inode_off sb k \<le> x \<and> x < inode_off sb k + 16")
    case True
    then have "disk s' e x = disk_inode s' (i_dev dir) sb k ! (x - inode_off sb k)" by (auto simp: disk_inode_def)
    moreover have "\<not> ent_at dir n \<le> x" using True assms(8) by (simp add: ent_at_def)
    ultimately show ?thesis using True s'(3) by simp
  next
    case False
    then show ?thesis using s'(4) d3 [of e x] by auto
  qed
  ultimately show ?thesis using s'(3) by blast
qed

lemma searched_slot:
  assumes "n \<le> unat (i_size dir) div 16" and "unat (i_size dir) + 16 < 2 ^ 32" and "found \<longrightarrow> n < unat (i_size dir) div 16"
  shows "n < searched (grown found dir)"
proof -
  have upper: "b < (a + 511) div 512 * 32" if "b * 16 < a" for a b :: nat
  proof -
    have "a \<le> (a + 511) div 512 * 512" by linarith
    then show ?thesis using that by linarith
  qed
  show ?thesis
  proof (cases found)
    case True
    then have "n < unat (i_size dir) div 16" using assms(3) by simp
    moreover from this have "n * 16 < unat (i_size dir)" using div_times_less_eq_dividend [of "unat (i_size dir)" 16] by linarith
    ultimately show ?thesis using True upper by (simp add: searched_def grown_def)
  next
    case False
    have "unat (i_size dir + 16) = unat (i_size dir) + 16" using assms(2) by (subst unat_add_lem [THEN iffD1]) simp_all
    moreover have "n * 16 < unat (i_size dir) + 16" using assms(1) div_times_less_eq_dividend [of "unat (i_size dir)" 16] by linarith
    ultimately show ?thesis using False upper [of n "unat (i_size dir) + 16"] assms(1) by (simp add: searched_def grown_def)
  qed
qed

lemma strip_plain:
  "n + length cs \<le> 12 \<Longrightarrow> 0 \<notin> set cs \<Longrightarrow> 0x2F \<notin> set cs \<Longrightarrow> strip_loop n cs = Some cs"
proof (induction n cs rule: strip_loop.induct)
  case (2 n c cs)
  then show ?case by (cases cs) auto
qed simp

lemma strip_path_plain:
  "length name \<le> 12 \<Longrightarrow> 0 \<notin> set name \<Longrightarrow> 0x2F \<notin> set name \<Longrightarrow> strip_path name s = Some (name, root_inode s)"
  using strip_plain [of 0 name] by (cases name) (auto simp: strip_path_def)

lemma find_only: "P n \<Longrightarrow> n < b \<Longrightarrow> (\<And>m. m < b \<Longrightarrow> m \<noteq> n \<Longrightarrow> \<not> P m) \<Longrightarrow> find P [0..<b] = Some n"
  by (auto simp: find_Some_iff intro!: exI [of _ n])

lemma new_entry_bytes:
  assumes "length name \<le> 11" and "is_cint nr" and "ent_name s dir n = replicate 12 0"
    and "\<And>x. x < 16 \<Longrightarrow> disk t (i_dev dir) (ent_at dir n + x) = (if x < length name + 5 then entry_bytes nr name ! x else disk s (i_dev dir) (ent_at dir n + x))"
  shows "ent_nr t dir n = nr" and "ent_name t dir n = pad_name name"
proof -
  have "map (\<lambda>k. disk t (i_dev dir) (ent_at dir n + k)) [0..<4] = bytes_of_u32 (word_of_int nr)"
    by (rule nth_equalityI) (simp_all add: assms(4) entry_bytes_def nth_append)
  then show "ent_nr t dir n = nr"
    using assms(2) unfolding ent_nr_def u32_bytes_roundtrip is_cint_def by (simp add: sint_of_int u32_bytes_roundtrip)
  have old: "disk s (i_dev dir) (ent_at dir n + 4 + k) = 0" if "k < 12" for k
    using arg_cong [OF assms(3), of "\<lambda>xs. xs ! k"] that by (simp add: ent_name_def)
  show "ent_name t dir n = pad_name name"
  proof (rule nth_equalityI)
    fix k assume "k < length (ent_name t dir n)"
    then have k: "k < 12" by (simp add: ent_name_def)
    have "ent_name t dir n ! k = disk t (i_dev dir) (ent_at dir n + (4 + k))" using k by (simp add: ent_name_def add.assoc)
    also have "\<dots> = pad_name name ! k"
      using k old [OF k] assms(1,4) by (auto simp: entry_bytes_def pad_name_def nth_append add.assoc nth_Cons')
    finally show "ent_name t dir n ! k = pad_name name ! k" .
  qed (use assms(1) in \<open>simp add: ent_name_def pad_name_def\<close>)
qed

text \<open>
  Round trip of the directory. When a file with a new name of at most 11 characters is added and unused entries are blank, the entry
  goes to the first free slot or extends the directory, \<^verbatim>\<open>search_file\<close> then finds the name with the i-node number given, and every other entry
  keeps its name and number.
\<close>

theorem new_dir_entry_found:
  assumes "kinv s" and "root_inode s < length (inode_table s)" and "dir = inode_of s (root_inode s)" and "dir_ok dir" and "dir_ok (grown found dir)"
    and "get_super_block (i_dev dir) s = Inr sb" and "i_num dir = int k + 1" and "inodes_fit sb k"
    and "inode_off sb k + 16 \<le> unat (i_start_sect dir) * 512" and "slot_of s dir 0 = (found, n)"
    and "name \<noteq> []" and "length name \<le> 11" and "0 \<notin> set name" and "0x2F \<notin> set name" and "is_cint inode_nr"
    and "ent_name s dir n = replicate 12 0"
    and "\<And>m. m < searched (grown found dir) \<Longrightarrow> ent_name s dir m \<noteq> pad_name name"
  shows "\<exists>s' s''. new_dir_entry (root_inode s) inode_nr name s = Inr s' \<and> search_file name s' = Inr (inode_nr, s'')
    \<and> (\<forall>m. m \<noteq> n \<longrightarrow> ent_name s' dir m = ent_name s dir m \<and> ent_nr s' dir m = ent_nr s dir m)"
proof -
  from new_dir_entry_ok [OF fs_flatI [OF assms(1)] assms(2,3,4,6-9,12,10), of inode_nr] obtain s' where
    s': "new_dir_entry (root_inode s) inode_nr name s = Inr s'"
      "buffered (s\<lparr>inode_table := (inode_table s)[root_inode s := grown found dir]\<rparr>) s'"
    and d': "\<And>e x. disk s' e x =
         (if e = i_dev dir \<and> ent_at dir n \<le> x \<and> x < ent_at dir n + length name + 5 then entry_bytes inode_nr name ! (x - ent_at dir n)
          else if e = i_dev dir \<and> inode_off sb k \<le> x \<and> x < inode_off sb k + 16 then inode_bytes (grown found dir) ! (x - inode_off sb k)
          else disk s e x)" by blast
  have out: "\<not> ent_at dir m + x < inode_off sb k + 16" for m x using assms(9) by (simp add: ent_at_def)
  have at_n: "disk s' (i_dev dir) (ent_at dir n + x) = (if x < length name + 5 then entry_bytes inode_nr name ! x else disk s (i_dev dir) (ent_at dir n + x))" for x
    using d' [of "i_dev dir" "ent_at dir n + x"] out [of n x] by auto
  have at_m: "disk s' (i_dev dir) (ent_at dir m + x) = disk s (i_dev dir) (ent_at dir m + x)" if "m \<noteq> n" "x < 16" for m x
  proof -
    have "\<not> (ent_at dir n \<le> ent_at dir m + x \<and> ent_at dir m + x < ent_at dir n + length name + 5)"
      using that assms(12) by (auto simp: ent_at_def)
    then show ?thesis using d' [of "i_dev dir" "ent_at dir m + x"] out [of m x] by auto
  qed
  have others: "ent_name s' dir m = ent_name s dir m \<and> ent_nr s' dir m = ent_nr s dir m" if "m \<noteq> n" for m
    unfolding ent_name_def ent_nr_def using at_m [OF that] by (auto simp: add.assoc intro!: arg_cong [of _ _ "\<lambda>xs. sint (u32_of_bytes xs)"])
  note new = new_entry_bytes [OF assms(12,15,16) at_n]
  note bf = buffered_fields [OF s'(2)]
  have inode': "inode_of s' (root_inode s') = grown found dir" "kinv s'"
    using bf assms(1,2) by (simp_all add: kinv_def seg_base_def ldt_seg_linear_def)
  have size: "unat (i_size dir) + 16 < 2 ^ 32"
  proof -
    have "unat (i_size dir) div 512 < 2 ^ 22" using assms(4) by (simp add: dir_ok_def)
    then show ?thesis by (simp add: div_less_iff_less_mult)
  qed
  have "n < searched (grown found dir)"
    using assms(10) size by (intro searched_slot) (auto simp: slot_of_def split: option.splits dest: find_upt_bounds)
  moreover have ent': "ent_name s' (grown found dir) = ent_name s' dir" "ent_nr s' (grown found dir) = ent_nr s' dir"
    by (simp_all add: ent_name_def ent_nr_def ent_at_def fun_eq_iff)
  ultimately have "find (\<lambda>m. ent_name s' (grown found dir) m = pad_name name) [0..<searched (grown found dir)] = Some n"
    using new(2) others assms(17) by (intro find_only) auto
  moreover have "dir_ok (inode_of s' (root_inode s'))" using assms(5) inode'(1) by simp
  ultimately obtain s'' where "search_file name s' = Inr (inode_nr, s'')"
    using search_file_ok [OF inode'(2) _ strip_path_plain [of name s']] assms(11-14) inode'(1) new(1) ent' by auto
  then show ?thesis using s'(1) others by blast
qed

text \<open>A name of 12 bytes does not fit: its terminator overwrites the first byte of the next entry's i-node number.\<close>

theorem long_name_hits_next_entry:
  assumes "length name = 12" and "j < 31"
  shows "fb (write_entry j inode_nr name s) ((j + 1) * 16) = 0"
  using assms fb_write [of "(j + 1) * 16" "j * 16" "entry_bytes inode_nr name" s]
  by (simp add: write_entry_bytes entry_bytes_def nth_append)

section \<open>Instances\<close>

lemma upt_12: "[0..<12] = [0, 1, 2, 3, 4, 5, 6, 7, 8, 9, 10, 11 :: nat]"
  by (simp add: upt_conv_Cons)

lemma upt_4: "[0..<4] = [0, 1, 2, 3 :: nat]"
  by (simp add: upt_conv_Cons)

lemma replicate_12: "replicate 12 x = [x, x, x, x, x, x, x, x, x, x, x, x]" "replicate 4 x = [x, x, x, x]" "replicate 9 x = [x, x, x, x, x, x, x, x, x]"
  by (simp_all add: eval_nat_numeral)

lemma demo_entry_byte:
  assumes "n < 32" and "k < 16"
  shows "demo_disk d (133632 + n * 16 + k) = (if n < 2 then demo_dir ! (n * 16 + k) else 0)"
proof -
  have "133632 + n * 16 + k = 261 * 512 + (n * 16 + k)" "n * 16 + k < 512" using assms by simp_all
  then have s: "(133632 + n * 16 + k) div 512 = 261" "(133632 + n * 16 + k) mod 512 = n * 16 + k"
    using sector_split [of "n * 16 + k" 261] by (simp_all only:)
  have "n * 16 + k < 32 \<longleftrightarrow> n < 2" using assms by auto
  then show ?thesis unfolding demo_disk_def s by simp
qed

lemma demo_entry:
  assumes "n < 32"
  shows "ent_name fs_demo demo_root n = (if n < 2 then map (\<lambda>k. demo_dir ! (n * 16 + 4 + k)) [0..<12] else replicate 12 0)"
    and "ent_nr fs_demo demo_root n = (if n < 2 then sint (u32_of_bytes (map (\<lambda>k. demo_dir ! (n * 16 + k)) [0..<4])) else 0)"
proof -
  have at: "ent_at demo_root n = 133632 + n * 16" by (simp add: ent_at_def demo_root_def)
  have name: "demo_disk d (133632 + n * 16 + 4 + k) = (if n < 2 then demo_dir ! (n * 16 + 4 + k) else 0)" if "k < 12" for d k
    using demo_entry_byte [OF assms, of "4 + k" d] that by (simp add: add.assoc)
  show "ent_name fs_demo demo_root n = (if n < 2 then map (\<lambda>k. demo_dir ! (n * 16 + 4 + k)) [0..<12] else replicate 12 0)"
    unfolding ent_name_def at fs_demo_fields(2) by (rule nth_equalityI) (simp_all add: name [simplified])
  have nr: "demo_disk d (133632 + n * 16 + k) = (if n < 2 then demo_dir ! (n * 16 + k) else 0)" if "k < 4" for d k
    using demo_entry_byte [OF assms, of k d] that by simp
  have "map (\<lambda>k. demo_disk d (133632 + n * 16 + k)) [0..<4] = (if n < 2 then map (\<lambda>k. demo_dir ! (n * 16 + k)) [0..<4] else [0, 0, 0, 0])" for d
    using nr [of 0] nr [of 1] nr [of 2] nr [of 3] by (simp add: upt_4)
  then show "ent_nr fs_demo demo_root n = (if n < 2 then sint (u32_of_bytes (map (\<lambda>k. demo_dir ! (n * 16 + k)) [0..<4])) else 0)"
    unfolding ent_nr_def at fs_demo_fields(2) by (simp add: u32_of_bytes_def)
qed

lemma demo_blank: "2 \<le> n \<Longrightarrow> n < 32 \<Longrightarrow> ent_name fs_demo demo_root n = replicate 12 0 \<and> ent_nr fs_demo demo_root n = 0"
  by (simp add: demo_entry)

lemma demo_entries:
  "ent_name fs_demo demo_root 0 = [46, 0, 0, 0, 0, 0, 0, 0, 0, 0, 0, 0]" "ent_nr fs_demo demo_root 0 = 1"
  "ent_name fs_demo demo_root 1 = [100, 101, 118, 95, 116, 116, 121, 48, 0, 0, 0, 0]" "ent_nr fs_demo demo_root 1 = 2"
  by (simp_all add: demo_entry demo_dir_def upt_12 upt_4 u32_of_bytes_def)

lemma demo_dir_facts: "dir_ok demo_root" "searched demo_root = 5" "i_dev demo_root = ROOT_DEV" "i_num demo_root = 1" "i_size demo_root = 64"
  by (simp_all add: dir_ok_def searched_def demo_root_def)

theorem new_dir_entry_found_witness:
  "\<exists>s' s''. new_dir_entry 0 5 [97, 98, 99] fs_demo = Inr s' \<and> search_file [97, 98, 99] s' = Inr (5, s'')"
proof -
  have slot: "slot_of fs_demo demo_root 0 = (True, 2)"
    using demo_entries demo_blank [of 2] demo_dir_facts by (simp add: slot_of_def upt_4)
  have fit: "inodes_fit demo_sb 0" "inode_off demo_sb 0 + 16 \<le> unat (i_start_sect demo_root) * 512"
    by (simp_all add: inodes_fit_def inode_off_def demo_sb_def demo_root_def)
  have "ent_name fs_demo demo_root m \<noteq> pad_name [97, 98, 99]" if "m < 5" for m
  proof -
    have "m = 0 \<or> m = 1 \<or> 2 \<le> m \<and> m < 32" using that by auto
    then show ?thesis using demo_entries demo_blank [of m] by (auto simp: pad_name_def replicate_12)
  qed
  then show ?thesis
    using new_dir_entry_found [of fs_demo demo_root True demo_sb 0 2 "[97, 98, 99]" 5] slot fit demo_dir_facts demo_blank [of 2]
    by (simp add: grown_def is_cint_def) blast
qed

end
