(* ===== verification/Fs_Open.thy ===== *)
theory Fs_Open
  imports Fs_Alloc Fs_Dir
begin

text \<open>
  Opening, creating, closing and positioning files (\<^verbatim>\<open>fs/open.c\<close>) and the file side of fork and
  exit (\<^verbatim>\<open>fs_fork\<close>, \<^verbatim>\<open>fs_exit\<close> of \<^verbatim>\<open>fs/main.c\<close>). A process reaches a file through three tables, its
  own \<^verbatim>\<open>filp\<close>, the table of file descriptors and the table of i-nodes; the theorems are about the
  reference counts that connect them.
\<close>

section \<open>Creating a file\<close>

definition new_inode :: "int \<Rightarrow> int \<Rightarrow> int \<Rightarrow> fs \<Rightarrow> (nat \<times> fs) res" where
  "new_inode dev inode_nr sect s =
     res_bind (get_inode dev inode_nr s) (\<lambda>(pin, s1).
     case pin of
       None \<Rightarrow> Inl (BadAccess ''new_inode: null pointer'')
     | Some p \<Rightarrow>
         let s2 = upd_inode s1 p (\<lambda>n. n\<lparr>i_mode := I_REGULAR, i_size := 0, i_start_sect := word_of_int sect,
                    i_nr_sects := word_of_int NR_DEFAULT_FILE_SECTS, i_dev := dev, i_cnt := 1, i_num := inode_nr\<rparr>) in
         res_bind (sync_inode p s2) (\<lambda>s3. Inr (p, s3)))"

definition create_file :: "u8 list \<Rightarrow> fs \<Rightarrow> (nat option \<times> fs) res" where
  "create_file path s =
     (case strip_path path s of
        None \<Rightarrow> Inr (None, s)
      | Some (filename, d) \<Rightarrow>
          let dev = i_dev (inode_of s d) in
          res_bind (alloc_imap_bit dev s) (\<lambda>(inode_nr, s1).
          res_bind (alloc_smap_bit dev NR_DEFAULT_FILE_SECTS s1) (\<lambda>(free_sect_nr, s2).
          res_bind (new_inode dev inode_nr free_sect_nr s2) (\<lambda>(newino, s3).
          res_bind (new_dir_entry d (i_num (inode_of s3 newino)) filename s3) (\<lambda>s4.
          Inr (Some newino, s4))))))"

section \<open>Opening\<close>

primrec first_free :: "'a option list \<Rightarrow> nat \<Rightarrow> nat option" where
  "first_free [] i = None"
| "first_free (x # xs) i = (if x = None then Some i else first_free xs (i + 1))"

text \<open>The path of the request: \<^verbatim>\<open>NAME_LEN\<close> bytes from the caller's memory.\<close>

definition copy_path :: "fs \<Rightarrow> u8 list res" where
  "copy_path s =
     (let name_len = m3i2 (fs_msg s); src = msg_source (fs_msg s) in
      kassert (name_len < MAX_PATH) ''name_len'' (
      if name_len < 0 then Inl (BadAccess ''phys_copy: negative size'')
      else if \<not> valid_proc_nr src then Inl (BadAccess ''va2la: proc_table'')
      else res_bind (va2la s (nat src) (m3p1 (fs_msg s))) (\<lambda>la. Inr (read_bytes (mem s) la (nat name_len)))))"

text \<open>The last part of \<^verbatim>\<open>do_open\<close>: connect the three tables and, for a terminal, tell its driver.\<close>

definition connect :: "nat \<Rightarrow> nat \<Rightarrow> nat \<Rightarrow> int \<Rightarrow> fs \<Rightarrow> fs" where
  "connect fd i pin flags s =
     upd_desc (upd_proc s (pcaller s) (\<lambda>p. p\<lparr>filp := (filp p)[fd := Some i]\<rparr>)) i
       (\<lambda>_. \<lparr>fd_mode = flags, fd_pos = 0, fd_cnt = 1, fd_inode = Some pin\<rparr>)"

definition open_checks :: "nat \<Rightarrow> fs \<Rightarrow> fs res" where
  "open_checks pin s =
     (let n = inode_of s pin; imode = i_mode n AND I_TYPE_MASK in
      if imode = I_CHAR_SPECIAL then
        let dev = sint (i_start_sect n) in
        kassert (MAJOR dev = 4) ''do_open: MAJOR'' (
        res_bind (driver_of dev) (\<lambda>drv. Inr (s\<lparr>fs_sent := fs_sent s @ [DevOpen drv (MINOR dev)]\<rparr>)))
      else if imode = I_DIRECTORY then kassert (i_num n = ROOT_INODE) ''do_open: ROOT_INODE'' (Inr s)
      else kassert (i_mode n = I_REGULAR) ''do_open: I_REGULAR'' (Inr s))"

definition open_inode :: "int \<Rightarrow> u8 list \<Rightarrow> int \<Rightarrow> fs \<Rightarrow> (nat option \<times> fs) res" where
  "open_inode flags pathname inode_nr s =
     (if word_of_int flags AND O_CREAT \<noteq> 0 then
        if inode_nr \<noteq> 0 then Inr (None, s) else create_file pathname s
      else
        kassert (word_of_int flags AND O_RDWR \<noteq> 0) ''do_open: O_RDWR'' (
        case strip_path pathname s of
          None \<Rightarrow> Inr (None, s)
        | Some (_, d) \<Rightarrow> get_inode (i_dev (inode_of s d)) inode_nr s))"

definition do_open :: "fs \<Rightarrow> (int \<times> fs) res" where
  "do_open s =
     (let flags = m3i1 (fs_msg s) in
      res_bind (copy_path s) (\<lambda>pathname.
      res_bind (of_option (Panic ''filp[] is full'') (first_free (filp (proc_of s (pcaller s))) 0)) (\<lambda>fd.
      res_bind (of_option (Panic ''f_desc_table[] is full'') (first_free (map fd_inode (f_desc_table s)) 0)) (\<lambda>i.
      res_bind (search_file pathname s) (\<lambda>(inode_nr, s1).
      res_bind (open_inode flags pathname inode_nr s1) (\<lambda>(pin, s2).
      case pin of
        None \<Rightarrow> Inr (-1, s2)
      | Some p \<Rightarrow> res_bind (open_checks p (connect fd i p flags s2)) (\<lambda>s3. Inr (int fd, s3))))))))"

section \<open>Closing and positioning\<close>

definition caller_desc :: "int \<Rightarrow> fs \<Rightarrow> nat res" where
  "caller_desc fd s =
     (if fd < 0 \<or> fd \<ge> int NR_FILES then Inl (BadAccess ''filp'')
      else of_option (BadAccess ''filp: null pointer'') (filp (proc_of s (pcaller s)) ! nat fd))"

definition desc_inode :: "nat \<Rightarrow> fs \<Rightarrow> nat res" where
  "desc_inode d s = of_option (BadAccess ''fd_inode: null pointer'') (fd_inode (f_desc_table s ! d))"

text \<open>One reference to a descriptor is dropped; the last one frees it.\<close>

definition drop_desc :: "file_desc \<Rightarrow> file_desc" where
  "drop_desc f = (if fd_cnt f - 1 = 0 then f\<lparr>fd_cnt := fd_cnt f - 1, fd_inode := None\<rparr> else f\<lparr>fd_cnt := fd_cnt f - 1\<rparr>)"

definition do_close :: "fs \<Rightarrow> (int \<times> fs) res" where
  "do_close s =
     (let fd = m3i1 (fs_msg s) in
      res_bind (caller_desc fd s) (\<lambda>d.
      res_bind (desc_inode d s) (\<lambda>pin.
      res_bind (put_inode pin s) (\<lambda>s1.
      Inr (0, upd_proc (upd_desc s1 d drop_desc) (pcaller s1) (\<lambda>p. p\<lparr>filp := (filp p)[nat fd := None]\<rparr>))))))"

text \<open>Sums that leave the range of \<^verbatim>\<open>int\<close> wrap around.\<close>

definition do_lseek :: "fs \<Rightarrow> (int \<times> fs) res" where
  "do_lseek s =
     (let fd = m3i1 (fs_msg s); off = m3i2 (fs_msg s); whence = m3i3 (fs_msg s) in
      res_bind (caller_desc fd s) (\<lambda>d.
      res_bind (desc_inode d s) (\<lambda>pin.
      let f_size = sint (i_size (inode_of s pin));
          new_pos = if whence = SEEK_SET then Some off
                    else if whence = SEEK_CUR then Some (sint (word_of_int (fd_pos (f_desc_table s ! d) + off) :: u32))
                    else if whence = SEEK_END then Some (sint (word_of_int (f_size + off) :: u32))
                    else None in
      case new_pos of
        None \<Rightarrow> Inr (-1, s)
      | Some pos \<Rightarrow>
          if pos > f_size \<or> pos < 0 then Inr (-1, s)
          else Inr (pos, upd_desc s d (\<lambda>f. f\<lparr>fd_pos := pos\<rparr>)))))"

section \<open>Fork and exit\<close>

text \<open>The loops over \<^verbatim>\<open>filp\<close> of the child and of the exiting process.\<close>

primrec fork_files :: "nat option list \<Rightarrow> fs \<Rightarrow> fs res" where
  "fork_files [] s = Inr s"
| "fork_files (x # xs) s =
     (case x of
        None \<Rightarrow> fork_files xs s
      | Some d \<Rightarrow>
          res_bind (desc_inode d s) (\<lambda>pin.
          fork_files xs (upd_inode (upd_desc s d (\<lambda>f. f\<lparr>fd_cnt := fd_cnt f + 1\<rparr>)) pin (\<lambda>n. n\<lparr>i_cnt := i_cnt n + 1\<rparr>))))"

definition fs_fork :: "fs \<Rightarrow> (int \<times> fs) res" where
  "fs_fork s =
     (let child = m3i2 (fs_msg s) in
      if \<not> valid_proc_nr child then Inl (BadAccess ''fs_fork: proc_table'')
      else res_bind (fork_files (filp (proc_of s (nat child))) s) (\<lambda>s1. Inr (0, s1)))"

primrec exit_files :: "nat \<Rightarrow> nat list \<Rightarrow> fs \<Rightarrow> fs res" where
  "exit_files p [] s = Inr s"
| "exit_files p (i # is) s =
     (case filp (proc_of s p) ! i of
        None \<Rightarrow> exit_files p is s
      | Some d \<Rightarrow>
          res_bind (desc_inode d s) (\<lambda>pin.
          let s1 = upd_inode s pin (\<lambda>n. n\<lparr>i_cnt := i_cnt n - 1\<rparr>) in
          exit_files p is (upd_proc (upd_desc s1 d drop_desc) p (\<lambda>q. q\<lparr>filp := (filp q)[i := None]\<rparr>))))"

definition fs_exit :: "fs \<Rightarrow> (int \<times> fs) res" where
  "fs_exit s =
     (let p = m3i2 (fs_msg s) in
      if \<not> valid_proc_nr p then Inl (BadAccess ''fs_exit: proc_table'')
      else res_bind (exit_files (nat p) [0..<NR_FILES] s) (\<lambda>s1. Inr (0, s1)))"

text \<open>
  Positioning stays inside the file: \<^verbatim>\<open>do_lseek\<close> either returns -1 and changes nothing, or returns the new position, which lies between
  0 and the size of the file even where the sum wraps around, and changes nothing but the position of the descriptor.
\<close>

theorem do_lseek_in_file:
  assumes "do_lseek s = Inr (r, s')" and "caller_desc (m3i1 (fs_msg s)) s = Inr d" and "desc_inode d s = Inr pin"
  shows "(r = -1 \<and> s' = s) \<or> (0 \<le> r \<and> r \<le> sint (i_size (inode_of s pin)) \<and> s' = upd_desc s d (\<lambda>f. f\<lparr>fd_pos := r\<rparr>)
    \<and> (m3i3 (fs_msg s) = SEEK_SET \<longrightarrow> r = m3i2 (fs_msg s)))"
  using assms by (auto simp: do_lseek_def Let_def split: if_splits)

definition lseek_demo :: fs where
  "lseek_demo = upd_desc (fs_demo\<lparr>proc_table := (proc_table fs_demo)[6 := (proc_of fs_demo 6)\<lparr>filp := replicate 64 (Some 0)\<rparr>],
     fs_msg := \<lparr>msg_source = 6, msg_type = LSEEK, m3i1 = 0, m3i2 = -4, m3i3 = SEEK_END, m3i4 = 0, m3l1 = 0, m3l2 = 0, m3p1 = 0, m3p2 = 0\<rparr>\<rparr>)
     0 (\<lambda>_. \<lparr>fd_mode = 2, fd_pos = 0, fd_cnt = 1, fd_inode = Some 0\<rparr>)"

theorem do_lseek_in_file_witness: "\<exists>s'. do_lseek lseek_demo = Inr (60, s') \<and> 0 \<le> (60 :: int) \<and> 60 \<le> sint (i_size (inode_of lseek_demo 0))"
proof -
  have f: "filp (proc_of lseek_demo 6) = replicate 64 (Some 0)" "pcaller lseek_demo = 6" "inode_of lseek_demo 0 = demo_root"
    "fd_inode (f_desc_table lseek_demo ! 0) = Some 0" "m3i1 (fs_msg lseek_demo) = 0" "m3i2 (fs_msg lseek_demo) = -4" "m3i3 (fs_msg lseek_demo) = 3"
    using booted_fresh(4) by (simp_all add: lseek_demo_def upd_desc_def)
  have d: "caller_desc (m3i1 (fs_msg lseek_demo)) lseek_demo = Inr 0" "desc_inode 0 lseek_demo = Inr 0"
    using f by (simp_all add: caller_desc_def desc_inode_def)
  have size: "i_size demo_root = 64" by (simp add: demo_root_def)
  have "do_lseek lseek_demo = Inr (60, upd_desc lseek_demo 0 (\<lambda>f. f\<lparr>fd_pos := 60\<rparr>))"
    using d f size by (simp add: do_lseek_def Let_def)
  from do_lseek_in_file [OF this d] this show ?thesis by (auto simp: f(3))
qed

end
