(* ===== verification/Ring.thy ===== *)
theory Ring
  imports Prelude
begin

text \<open>
  Ring buffers. The kernel has two of them written out by hand: the scan codes between the keyboard
  interrupt and the TTY task (\<^verbatim>\<open>kb_in\<close>) and the keys of a TTY (\<^verbatim>\<open>in_buf\<close>). Both promise the same:
  a bounded queue that drops what does not fit. The promise is the locale \<open>ring_buffer\<close>, what its
  clients need is proved there once, and the lemmas on the array layout serve both interpretations.
\<close>

section \<open>The interface\<close>

primrec gets :: "('s \<Rightarrow> 'e \<times> 's) \<Rightarrow> nat \<Rightarrow> 's \<Rightarrow> 'e list \<times> 's" where
  "gets get 0 s = ([], s)"
| "gets get (Suc n) s = (let (x, s1) = get s; (xs, s2) = gets get n s1 in (x # xs, s2))"

locale ring_buffer =
  fixes put :: "'e \<Rightarrow> 's \<Rightarrow> 's" and get :: "'s \<Rightarrow> 'e \<times> 's"
    and items :: "'s \<Rightarrow> 'e list" and ok :: "'s \<Rightarrow> bool" and cap :: nat
  assumes put_ok: "ok s \<Longrightarrow> ok (put x s)"
    and get_ok: "ok s \<Longrightarrow> items s \<noteq> [] \<Longrightarrow> ok (snd (get s))"
    and items_put: "ok s \<Longrightarrow> items (put x s) = (if length (items s) < cap then items s @ [x] else items s)"
    and items_get: "ok s \<Longrightarrow> items s \<noteq> [] \<Longrightarrow> items s = fst (get s) # items (snd (get s))"
begin

lemma puts_ok: "ok s \<Longrightarrow> ok (fold put xs s)"
  by (induction xs arbitrary: s) (auto simp: put_ok)

lemma items_puts: "ok s \<Longrightarrow> items (fold put xs s) = items s @ take (cap - length (items s)) xs"
proof (induction xs arbitrary: s)
  case (Cons x xs)
  show ?case
  proof (cases "length (items s) < cap")
    case True
    then show ?thesis
      using Cons.IH [OF put_ok [OF Cons.prems, of x]] Cons.prems by (simp add: items_put take_Cons')
  next
    case False
    then show ?thesis
      using Cons.IH [OF put_ok [OF Cons.prems, of x]] Cons.prems by (simp add: items_put)
  qed
qed simp

lemma gets_items:
  "ok s \<Longrightarrow> n \<le> length (items s) \<Longrightarrow>
    fst (gets get n s) = take n (items s) \<and> items (snd (gets get n s)) = drop n (items s) \<and> ok (snd (gets get n s))"
proof (induction n arbitrary: s)
  case (Suc n)
  then have ne: "items s \<noteq> []" by auto
  obtain x s1 where g: "get s = (x, s1)" by fastforce
  have s1: "ok s1" "items s = x # items s1"
    using get_ok [OF Suc.prems(1) ne] items_get [OF Suc.prems(1) ne] g by simp_all
  have IH: "fst (gets get n s1) = take n (items s1)" "items (snd (gets get n s1)) = drop n (items s1)"
    "ok (snd (gets get n s1))"
    using Suc.IH [OF s1(1)] Suc.prems(2) s1(2) by simp_all
  obtain xs s2 where h: "gets get n s1 = (xs, s2)" by fastforce
  show ?case using IH s1(2) by (simp add: g h)
qed simp

text \<open>What is put comes out in order; what does not fit is lost at the end.\<close>

lemma fifo:
  assumes "ok s" and "n = length (items s) + min (cap - length (items s)) (length xs)"
  shows "fst (gets get n (fold put xs s)) = items s @ take (cap - length (items s)) xs"
  using gets_items [OF puts_ok [OF assms(1)], of n xs]
  by (simp add: items_puts assms min_def split: if_splits)

end

section \<open>The array layout\<close>

text \<open>
  Offsets into the array for the two pointers, with the reset at the end of the array as the code
  has it, and an \<^verbatim>\<open>int\<close> count.
\<close>

definition ring_next :: "nat \<Rightarrow> nat \<Rightarrow> nat" where
  "ring_next n i = (if Suc i = n then 0 else Suc i)"

definition ring_ok :: "nat \<Rightarrow> 'e list \<Rightarrow> nat \<Rightarrow> nat \<Rightarrow> int \<Rightarrow> bool" where
  "ring_ok n b head tail cnt \<longleftrightarrow> 0 < n \<and> length b = n \<and> tail < n \<and> 0 \<le> cnt \<and> cnt \<le> int n \<and>
     head = (tail + nat cnt) mod n"

definition ring_items :: "'e list \<Rightarrow> nat \<Rightarrow> int \<Rightarrow> 'e list" where
  "ring_items b tail cnt = map (\<lambda>i. b ! ((tail + i) mod length b)) [0..<nat cnt]"

lemma length_ring_items [simp]: "length (ring_items b tail cnt) = nat cnt"
  by (simp add: ring_items_def)

lemma ring_items_0 [simp]: "ring_items b tail 0 = []"
  by (simp add: ring_items_def)

lemma ring_items_empty [simp]: "ring_items b tail cnt = [] \<longleftrightarrow> cnt \<le> 0"
  by (metis length_0_conv length_ring_items nat_eq_iff2 nat_0_iff)

lemma ring_next_mod: "i < n \<Longrightarrow> ring_next n i = Suc i mod n"
  by (auto simp: ring_next_def)

lemma ring_put:
  assumes ok: "ring_ok n b head tail cnt" and room: "cnt < int n"
  shows "ring_ok n (b[head := x]) (ring_next n head) tail (cnt + 1)"
    and "ring_items (b[head := x]) tail (cnt + 1) = ring_items b tail cnt @ [x]"
proof -
  define c where "c = nat cnt"
  have c: "nat (cnt + 1) = Suc c" "nat cnt = c" "c < n" using ok room by (auto simp: c_def ring_ok_def)
  have n: "0 < n" "length b = n" "tail < n" "head = (tail + c) mod n" using ok by (auto simp: ring_ok_def c_def)
  have head: "head < n" using n by simp
  show "ring_ok n (b[head := x]) (ring_next n head) tail (cnt + 1)"
    using n ok room head by (simp add: ring_ok_def ring_next_mod c mod_Suc_eq nat_add_distrib)
  have diff: "(tail + i) mod n \<noteq> head" if "i < c" for i
  proof
    assume "(tail + i) mod n = head"
    then have "n dvd (tail + c) - (tail + i)"
      using that n(4) mod_eq_dvd_iff_nat [of "tail + i" "tail + c" n] by simp
    then have "n \<le> c - i" using that by (intro dvd_imp_le) simp_all
    then show False using c(3) that by simp
  qed
  show "ring_items (b[head := x]) tail (cnt + 1) = ring_items b tail cnt @ [x]"
    using n(1-3) head by (simp add: ring_items_def c) (metis atLeastLessThan_iff diff n(4) nth_list_update_eq nth_list_update_neq)
qed

lemma ring_get:
  assumes ok: "ring_ok n b head tail cnt" and ne: "0 < cnt"
  shows "ring_ok n b head (ring_next n tail) (cnt - 1)"
    and "ring_items b tail cnt = b ! tail # ring_items b (ring_next n tail) (cnt - 1)"
proof -
  define c where "c = nat (cnt - 1)"
  have c: "nat (cnt - 1) = c" "nat cnt = Suc c" using ne by (auto simp: c_def)
  have n: "0 < n" "length b = n" "tail < n" "head = (tail + Suc c) mod n" using ok c by (auto simp: ring_ok_def)
  have "(Suc tail mod n + i) mod n = (tail + Suc i) mod n" for i
    by (metis add_Suc_shift mod_add_left_eq)
  then show "ring_ok n b head (ring_next n tail) (cnt - 1)"
    "ring_items b tail cnt = b ! tail # ring_items b (ring_next n tail) (cnt - 1)"
    using n ok ne by (simp_all add: ring_ok_def ring_items_def ring_next_mod c upt_conv_Cons map_Suc_upt [symmetric]
        del: upt_Suc)
qed

end
