(* ===== verification/Keyboard.thy ===== *)
theory Keyboard
  imports Ring Kernel
begin

text \<open>
  The keyboard driver \<^verbatim>\<open>kernel/keyboard.c\<close> with the key codes of \<^verbatim>\<open>keyboard.h\<close> and the table of
  \<^verbatim>\<open>keymap.h\<close>. The driver's variables extend the kernel record. What the hardware answers is part of
  the state: the status bytes and the replies the controller will give, and the scan codes whose
  interrupts come in while the TTY task waits for a byte. \<^verbatim>\<open>keyboard_read\<close> is here up to the key it
  hands to \<^verbatim>\<open>in_process\<close>; theory Tty composes the two.
\<close>

section \<open>Key codes\<close>

named_theorems key_simps "values of the key codes"

definition KB_IN_BYTES :: nat where [simp]: "KB_IN_BYTES = 32"
definition MAP_COLS :: nat where [simp]: "MAP_COLS = 3"
definition NR_SCAN_CODES :: nat where [simp]: "NR_SCAN_CODES = 0x80"
definition KB_DATA :: u16 where [const_simps]: "KB_DATA = 0x60"
definition KB_CMD :: u16 where [const_simps]: "KB_CMD = 0x64"
definition LED_CODE :: u8 where [const_simps]: "LED_CODE = 0xED"
definition KB_ACK :: u8 where [const_simps]: "KB_ACK = 0xFA"

definition FLAG_BREAK :: u32 where [key_simps]: "FLAG_BREAK = 0x0080"
definition FLAG_EXT :: u32 where [key_simps]: "FLAG_EXT = 0x0100"
definition FLAG_SHIFT_L :: u32 where [key_simps]: "FLAG_SHIFT_L = 0x0200"
definition FLAG_SHIFT_R :: u32 where [key_simps]: "FLAG_SHIFT_R = 0x0400"
definition FLAG_CTRL_L :: u32 where [key_simps]: "FLAG_CTRL_L = 0x0800"
definition FLAG_CTRL_R :: u32 where [key_simps]: "FLAG_CTRL_R = 0x1000"
definition FLAG_ALT_L :: u32 where [key_simps]: "FLAG_ALT_L = 0x2000"
definition FLAG_ALT_R :: u32 where [key_simps]: "FLAG_ALT_R = 0x4000"
definition FLAG_PAD :: u32 where [key_simps]: "FLAG_PAD = 0x8000"
definition MASK_RAW :: u32 where [key_simps]: "MASK_RAW = 0x01FF"
definition ESC :: u32 where [key_simps]: "ESC = 0x01 + FLAG_EXT"
definition TAB :: u32 where [key_simps]: "TAB = 0x02 + FLAG_EXT"
definition ENTER :: u32 where [key_simps]: "ENTER = 0x03 + FLAG_EXT"
definition BACKSPACE :: u32 where [key_simps]: "BACKSPACE = 0x04 + FLAG_EXT"
definition GUI_L :: u32 where [key_simps]: "GUI_L = 0x05 + FLAG_EXT"
definition GUI_R :: u32 where [key_simps]: "GUI_R = 0x06 + FLAG_EXT"
definition APPS :: u32 where [key_simps]: "APPS = 0x07 + FLAG_EXT"
definition SHIFT_L :: u32 where [key_simps]: "SHIFT_L = 0x08 + FLAG_EXT"
definition SHIFT_R :: u32 where [key_simps]: "SHIFT_R = 0x09 + FLAG_EXT"
definition CTRL_L :: u32 where [key_simps]: "CTRL_L = 0x0A + FLAG_EXT"
definition CTRL_R :: u32 where [key_simps]: "CTRL_R = 0x0B + FLAG_EXT"
definition ALT_L :: u32 where [key_simps]: "ALT_L = 0x0C + FLAG_EXT"
definition ALT_R :: u32 where [key_simps]: "ALT_R = 0x0D + FLAG_EXT"
definition CAPS_LOCK :: u32 where [key_simps]: "CAPS_LOCK = 0x0E + FLAG_EXT"
definition NUM_LOCK :: u32 where [key_simps]: "NUM_LOCK = 0x0F + FLAG_EXT"
definition SCROLL_LOCK :: u32 where [key_simps]: "SCROLL_LOCK = 0x10 + FLAG_EXT"
definition F1 :: u32 where [key_simps]: "F1 = 0x11 + FLAG_EXT"
definition F2 :: u32 where [key_simps]: "F2 = 0x12 + FLAG_EXT"
definition F3 :: u32 where [key_simps]: "F3 = 0x13 + FLAG_EXT"
definition F4 :: u32 where [key_simps]: "F4 = 0x14 + FLAG_EXT"
definition F5 :: u32 where [key_simps]: "F5 = 0x15 + FLAG_EXT"
definition F6 :: u32 where [key_simps]: "F6 = 0x16 + FLAG_EXT"
definition F7 :: u32 where [key_simps]: "F7 = 0x17 + FLAG_EXT"
definition F8 :: u32 where [key_simps]: "F8 = 0x18 + FLAG_EXT"
definition F9 :: u32 where [key_simps]: "F9 = 0x19 + FLAG_EXT"
definition F10 :: u32 where [key_simps]: "F10 = 0x1A + FLAG_EXT"
definition F11 :: u32 where [key_simps]: "F11 = 0x1B + FLAG_EXT"
definition F12 :: u32 where [key_simps]: "F12 = 0x1C + FLAG_EXT"
definition PRINTSCREEN :: u32 where [key_simps]: "PRINTSCREEN = 0x1D + FLAG_EXT"
definition PAUSEBREAK :: u32 where [key_simps]: "PAUSEBREAK = 0x1E + FLAG_EXT"
definition INSERT :: u32 where [key_simps]: "INSERT = 0x1F + FLAG_EXT"
definition DELETE :: u32 where [key_simps]: "DELETE = 0x20 + FLAG_EXT"
definition HOME :: u32 where [key_simps]: "HOME = 0x21 + FLAG_EXT"
definition END :: u32 where [key_simps]: "END = 0x22 + FLAG_EXT"
definition PAGEUP :: u32 where [key_simps]: "PAGEUP = 0x23 + FLAG_EXT"
definition PAGEDOWN :: u32 where [key_simps]: "PAGEDOWN = 0x24 + FLAG_EXT"
definition UP :: u32 where [key_simps]: "UP = 0x25 + FLAG_EXT"
definition DOWN :: u32 where [key_simps]: "DOWN = 0x26 + FLAG_EXT"
definition LEFT :: u32 where [key_simps]: "LEFT = 0x27 + FLAG_EXT"
definition RIGHT :: u32 where [key_simps]: "RIGHT = 0x28 + FLAG_EXT"
definition POWER :: u32 where [key_simps]: "POWER = 0x29 + FLAG_EXT"
definition SLEEP :: u32 where [key_simps]: "SLEEP = 0x2A + FLAG_EXT"
definition WAKE :: u32 where [key_simps]: "WAKE = 0x2B + FLAG_EXT"
definition PAD_SLASH :: u32 where [key_simps]: "PAD_SLASH = 0x2C + FLAG_EXT"
definition PAD_STAR :: u32 where [key_simps]: "PAD_STAR = 0x2D + FLAG_EXT"
definition PAD_MINUS :: u32 where [key_simps]: "PAD_MINUS = 0x2E + FLAG_EXT"
definition PAD_PLUS :: u32 where [key_simps]: "PAD_PLUS = 0x2F + FLAG_EXT"
definition PAD_ENTER :: u32 where [key_simps]: "PAD_ENTER = 0x30 + FLAG_EXT"
definition PAD_DOT :: u32 where [key_simps]: "PAD_DOT = 0x31 + FLAG_EXT"
definition PAD_0 :: u32 where [key_simps]: "PAD_0 = 0x32 + FLAG_EXT"
definition PAD_1 :: u32 where [key_simps]: "PAD_1 = 0x33 + FLAG_EXT"
definition PAD_2 :: u32 where [key_simps]: "PAD_2 = 0x34 + FLAG_EXT"
definition PAD_3 :: u32 where [key_simps]: "PAD_3 = 0x35 + FLAG_EXT"
definition PAD_4 :: u32 where [key_simps]: "PAD_4 = 0x36 + FLAG_EXT"
definition PAD_5 :: u32 where [key_simps]: "PAD_5 = 0x37 + FLAG_EXT"
definition PAD_6 :: u32 where [key_simps]: "PAD_6 = 0x38 + FLAG_EXT"
definition PAD_7 :: u32 where [key_simps]: "PAD_7 = 0x39 + FLAG_EXT"
definition PAD_8 :: u32 where [key_simps]: "PAD_8 = 0x3A + FLAG_EXT"
definition PAD_9 :: u32 where [key_simps]: "PAD_9 = 0x3B + FLAG_EXT"
definition PAD_UP :: u32 where [key_simps]: "PAD_UP = PAD_8"
definition PAD_DOWN :: u32 where [key_simps]: "PAD_DOWN = PAD_2"
definition PAD_LEFT :: u32 where [key_simps]: "PAD_LEFT = PAD_4"
definition PAD_RIGHT :: u32 where [key_simps]: "PAD_RIGHT = PAD_6"
definition PAD_HOME :: u32 where [key_simps]: "PAD_HOME = PAD_7"
definition PAD_END :: u32 where [key_simps]: "PAD_END = PAD_1"
definition PAD_PAGEUP :: u32 where [key_simps]: "PAD_PAGEUP = PAD_9"
definition PAD_PAGEDOWN :: u32 where [key_simps]: "PAD_PAGEDOWN = PAD_3"
definition PAD_INS :: u32 where [key_simps]: "PAD_INS = PAD_0"
definition PAD_MID :: u32 where [key_simps]: "PAD_MID = PAD_5"
definition PAD_DEL :: u32 where [key_simps]: "PAD_DEL = PAD_DOT"

text \<open>The rows of \<^verbatim>\<open>keymap\<close>: unshifted, shifted, after 0xE0.\<close>

definition keyrows :: "u32 list list" where
  "keyrows =
    [[0, 0, 0], [ESC, ESC, 0], [49, 33, 0], [50, 64, 0],
     [51, 35, 0], [52, 36, 0], [53, 37, 0], [54, 94, 0],
     [55, 38, 0], [56, 42, 0], [57, 40, 0], [48, 41, 0],
     [45, 95, 0], [61, 43, 0], [BACKSPACE, BACKSPACE, 0], [TAB, TAB, 0],
     [113, 81, 0], [119, 87, 0], [101, 69, 0], [114, 82, 0],
     [116, 84, 0], [121, 89, 0], [117, 85, 0], [105, 73, 0],
     [111, 79, 0], [112, 80, 0], [91, 123, 0], [93, 125, 0],
     [ENTER, ENTER, PAD_ENTER], [CTRL_L, CTRL_L, CTRL_R], [97, 65, 0], [115, 83, 0],
     [100, 68, 0], [102, 70, 0], [103, 71, 0], [104, 72, 0],
     [106, 74, 0], [107, 75, 0], [108, 76, 0], [59, 58, 0],
     [39, 34, 0], [96, 126, 0], [SHIFT_L, SHIFT_L, 0], [92, 124, 0],
     [122, 90, 0], [120, 88, 0], [99, 67, 0], [118, 86, 0],
     [98, 66, 0], [110, 78, 0], [109, 77, 0], [44, 60, 0],
     [46, 62, 0], [47, 63, PAD_SLASH], [SHIFT_R, SHIFT_R, 0], [42, 42, 0],
     [ALT_L, ALT_L, ALT_R], [32, 32, 0], [CAPS_LOCK, CAPS_LOCK, 0], [F1, F1, 0],
     [F2, F2, 0], [F3, F3, 0], [F4, F4, 0], [F5, F5, 0],
     [F6, F6, 0], [F7, F7, 0], [F8, F8, 0], [F9, F9, 0],
     [F10, F10, 0], [NUM_LOCK, NUM_LOCK, 0], [SCROLL_LOCK, SCROLL_LOCK, 0], [PAD_HOME, 55, HOME],
     [PAD_UP, 56, UP], [PAD_PAGEUP, 57, PAGEUP], [PAD_MINUS, 45, 0], [PAD_LEFT, 52, LEFT],
     [PAD_MID, 53, 0], [PAD_RIGHT, 54, RIGHT], [PAD_PLUS, 43, 0], [PAD_END, 49, END],
     [PAD_DOWN, 50, DOWN], [PAD_PAGEDOWN, 51, PAGEDOWN], [PAD_INS, 48, INSERT], [PAD_DOT, 46, DELETE],
     [0, 0, 0], [0, 0, 0], [0, 0, 0], [F11, F11, 0],
     [F12, F12, 0], [0, 0, 0], [0, 0, 0], [0, 0, GUI_L],
     [0, 0, GUI_R], [0, 0, APPS], [0, 0, 0], [0, 0, 0],
     [0, 0, 0], [0, 0, 0], [0, 0, 0], [0, 0, 0],
     [0, 0, 0], [0, 0, 0], [0, 0, 0], [0, 0, 0],
     [0, 0, 0], [0, 0, 0], [0, 0, 0], [0, 0, 0],
     [0, 0, 0], [0, 0, 0], [0, 0, 0], [0, 0, 0],
     [0, 0, 0], [0, 0, 0], [0, 0, 0], [0, 0, 0],
     [0, 0, 0], [0, 0, 0], [0, 0, 0], [0, 0, 0],
     [0, 0, 0], [0, 0, 0], [0, 0, 0], [0, 0, 0],
     [0, 0, 0], [0, 0, 0], [0, 0, 0], [0, 0, 0]]"

definition keymap :: "u32 list" where
  "keymap = concat keyrows"

section \<open>State\<close>

record kb_inbuf =
  p_head :: nat
  p_tail :: nat
  count :: int
  buf :: "u8 list"

record kbd = kernel +
  kb_in :: kb_inbuf
  code_with_E0 :: int
  shift_l :: int
  shift_r :: int
  alt_l :: int
  alt_r :: int
  ctrl_l :: int
  ctrl_r :: int
  caps_lock :: int
  num_lock :: int
  scroll_lock :: int
  column :: int
  kb_status :: "u8 list"
  kb_replies :: "u8 list"
  kb_arriving :: "u8 list"
  kb_out :: "(u16 \<times> u8) list"

section \<open>The buffer\<close>

definition kb_store :: "u8 \<Rightarrow> kb_inbuf \<Rightarrow> kb_inbuf" where
  "kb_store scan_code kb =
     (if count kb < int KB_IN_BYTES
      then kb\<lparr>buf := (buf kb)[p_head kb := scan_code], p_head := ring_next KB_IN_BYTES (p_head kb),
              count := count kb + 1\<rparr>
      else kb)"

definition kb_fetch :: "kb_inbuf \<Rightarrow> u8 \<times> kb_inbuf" where
  "kb_fetch kb = (buf kb ! p_tail kb, kb\<lparr>p_tail := ring_next KB_IN_BYTES (p_tail kb), count := count kb - 1\<rparr>)"

text \<open>The interrupt handler, for the byte read from the data port.\<close>

definition keyboard_handler :: "u8 \<Rightarrow> 'a kbd_scheme \<Rightarrow> 'a kbd_scheme" where
  "keyboard_handler scan_code s = s\<lparr>kb_in := kb_store scan_code (kb_in s), key_pressed := 1\<rparr>"

text \<open>\<^verbatim>\<open>while (kb_in.count <= 0) {}\<close>: only an interrupt ends it.\<close>

primrec await_byte :: "u8 list \<Rightarrow> 'a kbd_scheme \<Rightarrow> 'a kbd_scheme res" where
  "await_byte [] s = (if count (kb_in s) \<le> 0 then Inl Spins else Inr (s\<lparr>kb_arriving := []\<rparr>))"
| "await_byte (c # cs) s =
     (if count (kb_in s) \<le> 0 then await_byte cs (keyboard_handler c s) else Inr (s\<lparr>kb_arriving := c # cs\<rparr>))"

definition get_byte_from_kbuf :: "'a kbd_scheme \<Rightarrow> (u8 \<times> 'a kbd_scheme) res" where
  "get_byte_from_kbuf s =
     res_bind (await_byte (kb_arriving s) s) (\<lambda>s1.
     let (b, kb) = kb_fetch (kb_in s1) in Inr (b, s1\<lparr>kb_in := kb\<rparr>))"

section \<open>LEDs\<close>

text \<open>Polling a port: what is left to read after the first byte that satisfies the condition.\<close>

primrec poll :: "(u8 \<Rightarrow> bool) \<Rightarrow> u8 list \<Rightarrow> u8 list res" where
  "poll P [] = Inl Spins"
| "poll P (b # bs) = (if P b then Inr bs else poll P bs)"

definition kb_wait :: "'a kbd_scheme \<Rightarrow> 'a kbd_scheme res" where
  "kb_wait s = res_bind (poll (\<lambda>b. b AND 0x02 = 0) (kb_status s)) (\<lambda>bs. Inr (s\<lparr>kb_status := bs\<rparr>))"

definition kb_ack :: "'a kbd_scheme \<Rightarrow> 'a kbd_scheme res" where
  "kb_ack s = res_bind (poll (\<lambda>b. b = KB_ACK) (kb_replies s)) (\<lambda>bs. Inr (s\<lparr>kb_replies := bs\<rparr>))"

definition kb_send :: "u8 \<Rightarrow> 'a kbd_scheme \<Rightarrow> 'a kbd_scheme" where
  "kb_send b s = s\<lparr>kb_out := kb_out s @ [(KB_DATA, b)]\<rparr>"

definition leds_byte :: "'a kbd_scheme \<Rightarrow> u8" where
  "leds_byte s = word_of_int (caps_lock s * 4) OR word_of_int (num_lock s * 2) OR word_of_int (scroll_lock s)"

definition set_leds :: "'a kbd_scheme \<Rightarrow> 'a kbd_scheme res" where
  "set_leds s =
     (let leds = leds_byte s in
      res_bind (kb_wait s) (\<lambda>s1.
      res_bind (kb_ack (kb_send LED_CODE s1)) (\<lambda>s2.
      res_bind (kb_wait s2) (\<lambda>s3.
      kb_ack (kb_send leds s3)))))"

definition init_keyboard :: "'a kbd_scheme \<Rightarrow> 'a kbd_scheme res" where
  "init_keyboard s =
     set_leds (s\<lparr>kb_in := (kb_in s)\<lparr>count := 0, p_head := 0, p_tail := 0\<rparr>,
       shift_l := 0, shift_r := 0, alt_l := 0, alt_r := 0, ctrl_l := 0, ctrl_r := 0,
       caps_lock := 0, num_lock := 1, scroll_lock := 0\<rparr>)"

section \<open>Reading a key\<close>

text \<open>The bytes after 0xE1 of Pause, read up to the first that differs.\<close>

primrec match_bytes :: "u8 list \<Rightarrow> 'a kbd_scheme \<Rightarrow> (bool \<times> 'a kbd_scheme) res" where
  "match_bytes [] s = Inr (True, s)"
| "match_bytes (c # cs) s =
     res_bind (get_byte_from_kbuf s) (\<lambda>(b, s1). if b = c then match_bytes cs s1 else Inr (False, s1))"

text \<open>The scan code left to decode and the key recognised so far, 0 if none.\<close>

definition scan_prefix :: "u8 \<Rightarrow> 'a kbd_scheme \<Rightarrow> (u8 \<times> u32 \<times> 'a kbd_scheme) res" where
  "scan_prefix scan_code s =
     (if scan_code = 0xE1 then
        res_bind (match_bytes [0x1D, 0x45, 0xE1, 0x9D, 0xC5] s) (\<lambda>(is_pausebreak, s1).
        Inr (scan_code, if is_pausebreak then PAUSEBREAK else 0, s1))
      else if scan_code = 0xE0 then
        res_bind (get_byte_from_kbuf s) (\<lambda>(sc, s1).
        res_bind (if sc = 0x2A then match_bytes [0xE0, 0x37] s1 else Inr (False, s1)) (\<lambda>(pressed, s2).
        res_bind (if sc = 0xB7 then match_bytes [0xE0, 0xAA] s2 else Inr (False, s2)) (\<lambda>(released, s3).
        if pressed \<or> released then Inr (sc, PRINTSCREEN, s3)
        else Inr (sc, 0, s3\<lparr>code_with_E0 := 1\<rparr>))))
      else Inr (scan_code, 0, s))"

definition map_column :: "u32 list \<Rightarrow> 'a kbd_scheme \<Rightarrow> nat" where
  "map_column keyrow s =
     (let caps = (shift_l s \<noteq> 0 \<or> shift_r s \<noteq> 0);
          caps' = (if caps_lock s \<noteq> 0 \<and> keyrow ! 0 \<ge> 97 \<and> keyrow ! 0 \<le> 122 then \<not> caps else caps);
          col = (if caps' then 1 else 0) in
      if code_with_E0 s \<noteq> 0 then 2 else col)"

definition toggle :: "int \<Rightarrow> int" where
  "toggle v = (if v = 0 then 1 else 0)"

text \<open>The \<^verbatim>\<open>switch\<close> on shift, control, alternate and lock keys.\<close>

definition track_modifiers :: "u32 \<Rightarrow> int \<Rightarrow> 'a kbd_scheme \<Rightarrow> 'a kbd_scheme res" where
  "track_modifiers key mk s =
     (if key = SHIFT_L then Inr (s\<lparr>shift_l := mk\<rparr>)
      else if key = SHIFT_R then Inr (s\<lparr>shift_r := mk\<rparr>)
      else if key = CTRL_L then Inr (s\<lparr>ctrl_l := mk\<rparr>)
      else if key = CTRL_R then Inr (s\<lparr>ctrl_r := mk\<rparr>)
      else if key = ALT_L then Inr (s\<lparr>alt_l := mk\<rparr>)
      else if key = ALT_R then Inr (s\<lparr>alt_l := mk\<rparr>)
      else if key = CAPS_LOCK then
        if mk \<noteq> 0 then set_leds (s\<lparr>caps_lock := toggle (caps_lock s)\<rparr>) else Inr s
      else if key = NUM_LOCK then
        if mk \<noteq> 0 then set_leds (s\<lparr>num_lock := toggle (num_lock s)\<rparr>) else Inr s
      else if key = SCROLL_LOCK then
        if mk \<noteq> 0 then set_leds (s\<lparr>scroll_lock := toggle (scroll_lock s)\<rparr>) else Inr s
      else Inr s)"

definition pad_key :: "int \<Rightarrow> u32 \<Rightarrow> u32" where
  "pad_key num key =
     (if key = PAD_SLASH then 47 else if key = PAD_STAR then 42 else if key = PAD_MINUS then 45
      else if key = PAD_PLUS then 43 else if key = PAD_ENTER then ENTER
      else if num \<noteq> 0 \<and> key \<ge> PAD_0 \<and> key \<le> PAD_9 then key - PAD_0 + 48
      else if num \<noteq> 0 \<and> key = PAD_DOT then 46
      else if key = PAD_HOME then HOME else if key = PAD_END then END
      else if key = PAD_PAGEUP then PAGEUP else if key = PAD_PAGEDOWN then PAGEDOWN
      else if key = PAD_INS then INSERT else if key = PAD_UP then UP else if key = PAD_DOWN then DOWN
      else if key = PAD_LEFT then LEFT else if key = PAD_RIGHT then RIGHT
      else if key = PAD_DOT then DELETE else key)"

definition flag_if :: "int \<Rightarrow> u32 \<Rightarrow> u32" where
  "flag_if v f = (if v \<noteq> 0 then f else 0)"

definition add_flags :: "u32 \<Rightarrow> int \<Rightarrow> 'a kbd_scheme \<Rightarrow> u32" where
  "add_flags key pad s =
     key OR flag_if (shift_l s) FLAG_SHIFT_L OR flag_if (shift_r s) FLAG_SHIFT_R
       OR flag_if (ctrl_l s) FLAG_CTRL_L OR flag_if (ctrl_r s) FLAG_CTRL_R
       OR flag_if (alt_l s) FLAG_ALT_L OR flag_if (alt_r s) FLAG_ALT_R OR flag_if pad FLAG_PAD"

text \<open>The key passed to \<^verbatim>\<open>in_process\<close>, if the code is a make code.\<close>

definition decode :: "u8 \<Rightarrow> 'a kbd_scheme \<Rightarrow> (u32 option \<times> 'a kbd_scheme) res" where
  "decode scan_code s =
     (let mk = (if ucast scan_code AND FLAG_BREAK \<noteq> 0 then 0 else 1);
          row = unat (scan_code AND 0x7F) * MAP_COLS;
          keyrow = take MAP_COLS (drop row keymap);
          col = map_column keyrow s;
          key = keyrow ! col in
      res_bind (track_modifiers key mk (s\<lparr>column := int col\<rparr>)) (\<lambda>s1.
      if mk = 0 then Inr (None, s1)
      else
        let pad = (if key \<ge> PAD_SLASH \<and> key \<le> PAD_9 then 1 else 0);
            key1 = (if pad = (0 :: int) then key else pad_key (num_lock s1) key) in
        Inr (Some (add_flags key1 pad s1), s1)))"

definition scan_key :: "'a kbd_scheme \<Rightarrow> (u32 option \<times> 'a kbd_scheme) res" where
  "scan_key s =
     (if count (kb_in s) > 0 then
        res_bind (get_byte_from_kbuf (s\<lparr>code_with_E0 := 0\<rparr>)) (\<lambda>(scan_code, s1).
        res_bind (scan_prefix scan_code s1) (\<lambda>(sc, key, s2).
        if key \<noteq> PAUSEBREAK \<and> key \<noteq> PRINTSCREEN then decode sc s2 else Inr (None, s2)))
      else Inr (None, s))"

section \<open>The buffer is a bounded queue\<close>

definition kb_ok :: "kb_inbuf \<Rightarrow> bool" where
  "kb_ok kb \<longleftrightarrow> ring_ok KB_IN_BYTES (buf kb) (p_head kb) (p_tail kb) (count kb)"

definition kb_items :: "kb_inbuf \<Rightarrow> u8 list" where
  "kb_items kb = ring_items (buf kb) (p_tail kb) (count kb)"

interpretation kb_ring: ring_buffer kb_store kb_fetch kb_items kb_ok 32
proof
  fix kb :: kb_inbuf and x
  assume ok: "kb_ok kb"
  then have r: "ring_ok KB_IN_BYTES (buf kb) (p_head kb) (p_tail kb) (count kb)" by (simp add: kb_ok_def)
  show "kb_ok (kb_store x kb)"
    using r ring_put(1) [OF r] by (simp add: kb_ok_def kb_store_def)
  have "0 \<le> count kb" "count kb \<le> 32" using r by (simp_all add: ring_ok_def)
  then show "kb_items (kb_store x kb) = (if length (kb_items kb) < 32 then kb_items kb @ [x] else kb_items kb)"
    using ring_put(2) [OF r, of x] by (auto simp: kb_items_def kb_store_def)
  assume ne: "kb_items kb \<noteq> []"
  then have "0 < count kb" by (simp add: kb_items_def)
  from ring_get [OF r this] show "kb_ok (snd (kb_fetch kb))" "kb_items kb = fst (kb_fetch kb) # kb_items (snd (kb_fetch kb))"
    by (simp_all add: kb_ok_def kb_items_def kb_fetch_def)
qed

text \<open>The bytes a reader will see: those in the buffer and those still to arrive.\<close>

definition avail :: "'a kbd_scheme \<Rightarrow> u8 list" where
  "avail s = kb_items (kb_in s) @ kb_arriving s"

lemma avail_fields [simp]: "avail (s\<lparr>column := c\<rparr>) = avail s" "avail (s\<lparr>code_with_E0 := e\<rparr>) = avail s"
  by (simp_all add: avail_def)

lemma kb_items_empty: "kb_items kb = [] \<longleftrightarrow> count kb \<le> 0"
  by (simp add: kb_items_def)

text \<open>Reading a byte changes the buffer, the arrivals and \<^verbatim>\<open>key_pressed\<close> only.\<close>

definition buffer_step :: "'a kbd_scheme \<Rightarrow> 'a kbd_scheme \<Rightarrow> bool" where
  "buffer_step s s' \<longleftrightarrow> (\<exists>kb a kp. s' = s\<lparr>kb_in := kb, kb_arriving := a, key_pressed := kp\<rparr>)"

lemma buffer_step_refl: "buffer_step s s"
  unfolding buffer_step_def
  by (rule exI [of _ "kb_in s"], rule exI [of _ "kb_arriving s"], rule exI [of _ "key_pressed s"]) simp

lemma buffer_step_trans: "buffer_step s s' \<Longrightarrow> buffer_step s' s'' \<Longrightarrow> buffer_step s s''"
  unfolding buffer_step_def by fastforce

lemma buffer_step_fields:
  assumes "buffer_step s s'"
  shows "kb_status s' = kb_status s" "kb_replies s' = kb_replies s" "shift_l s' = shift_l s"
    "shift_r s' = shift_r s" "caps_lock s' = caps_lock s" "alt_l s' = alt_l s" "alt_r s' = alt_r s"
    "code_with_E0 s' = code_with_E0 s" "mem s' = mem s" "proc_table s' = proc_table s" "ctrl_l s' = ctrl_l s"
    "ctrl_r s' = ctrl_r s"
  using assms by (auto simp: buffer_step_def)

lemma get_byte_avail:
  assumes ok: "kb_ok (kb_in s)" and av: "avail s = b # bs"
  obtains s' where "get_byte_from_kbuf s = Inr (b, s')" "kb_ok (kb_in s')" "avail s' = bs" "buffer_step s s'"
proof (cases "kb_items (kb_in s)")
  case Nil
  then have c: "count (kb_in s) \<le> 0" by (simp add: kb_items_empty)
  have arr: "kb_arriving s = b # bs" using av Nil by (simp add: avail_def)
  let ?kb = "kb_store b (kb_in s)"
  have kb: "kb_ok ?kb" "kb_items ?kb = [b]"
    using kb_ring.put_ok [OF ok] kb_ring.items_put [OF ok, of b] Nil by simp_all
  then have c': "\<not> count ?kb \<le> 0" using kb_items_empty [of ?kb] by simp
  have aw: "await_byte (b # bs) s = Inr ((keyboard_handler b s)\<lparr>kb_arriving := bs\<rparr>)"
    using c c' by (cases bs) (simp_all add: keyboard_handler_def)
  have f: "kb_ok (snd (kb_fetch ?kb))" "fst (kb_fetch ?kb) = b" "kb_items (snd (kb_fetch ?kb)) = []"
    using kb_ring.get_ok [OF kb(1)] kb_ring.items_get [OF kb(1)] kb(2) by simp_all
  show ?thesis
  proof (rule that [of "s\<lparr>kb_in := snd (kb_fetch ?kb), kb_arriving := bs, key_pressed := 1\<rparr>"])
    show "get_byte_from_kbuf s = Inr (b, s\<lparr>kb_in := snd (kb_fetch ?kb), kb_arriving := bs, key_pressed := 1\<rparr>)"
      using f(2) by (simp add: get_byte_from_kbuf_def arr aw Let_def split_beta keyboard_handler_def del: await_byte.simps)
    show "buffer_step s (s\<lparr>kb_in := snd (kb_fetch ?kb), kb_arriving := bs, key_pressed := 1\<rparr>)"
      unfolding buffer_step_def by blast
  qed (use f in \<open>simp_all add: avail_def\<close>)
next
  case (Cons x xs)
  then have c: "\<not> count (kb_in s) \<le> 0" using kb_items_empty [of "kb_in s"] by simp
  have x: "x = b" "xs @ kb_arriving s = bs" using av Cons by (simp_all add: avail_def)
  have aw: "await_byte (kb_arriving s) s = Inr s" using c by (cases "kb_arriving s") (simp_all add: kbd.surjective)
  have f: "kb_ok (snd (kb_fetch (kb_in s)))" "fst (kb_fetch (kb_in s)) = b" "kb_items (snd (kb_fetch (kb_in s))) = xs"
    using kb_ring.get_ok [OF ok] kb_ring.items_get [OF ok] Cons x by simp_all
  have "buffer_step s (s\<lparr>kb_in := snd (kb_fetch (kb_in s))\<rparr>)"
    unfolding buffer_step_def
    by (rule exI [of _ "snd (kb_fetch (kb_in s))"], rule exI [of _ "kb_arriving s"], rule exI [of _ "key_pressed s"]) simp
  then show ?thesis
    by (intro that [of "s\<lparr>kb_in := snd (kb_fetch (kb_in s))\<rparr>"])
      (use f x in \<open>auto simp: get_byte_from_kbuf_def aw Let_def split_beta avail_def\<close>)
qed

lemma match_bytes_avail:
  assumes "kb_ok (kb_in s)" and "length cs \<le> length (avail s)"
  shows "\<exists>r s' n. match_bytes cs s = Inr (r, s') \<and> kb_ok (kb_in s') \<and> n \<le> length cs \<and> avail s' = drop n (avail s) \<and>
    buffer_step s s' \<and> (r \<longleftrightarrow> take (length cs) (avail s) = cs) \<and> (r \<longrightarrow> n = length cs)"
  using assms
proof (induction cs arbitrary: s)
  case Nil
  then show ?case by (auto simp: buffer_step_refl intro: exI [of _ 0])
next
  case (Cons c cs)
  then obtain b bs where av: "avail s = b # bs" by (cases "avail s") auto
  obtain s1 where s1: "get_byte_from_kbuf s = Inr (b, s1)" "kb_ok (kb_in s1)" "avail s1 = bs" "buffer_step s s1"
    using get_byte_avail [OF Cons.prems(1) av] by blast
  show ?case
  proof (cases "b = c")
    case False
    then show ?thesis using s1 av by (auto intro!: exI [of _ 1])
  next
    case True
    have "length cs \<le> length (avail s1)" using Cons.prems(2) av s1(3) by simp
    from Cons.IH [OF s1(2) this] obtain r s' n where "match_bytes cs s1 = Inr (r, s')" "kb_ok (kb_in s')"
      "n \<le> length cs" "avail s' = drop n bs" "buffer_step s1 s'" "r \<longleftrightarrow> take (length cs) bs = cs" "r \<longrightarrow> n = length cs"
      unfolding s1(3) by blast
    then show ?thesis using s1 av True
      by (intro exI [of _ r] exI [of _ s'] exI [of _ "Suc n"]) (auto intro: buffer_step_trans)
  qed
qed

lemma handlers_items:
  "kb_in (fold keyboard_handler cs s) = fold kb_store cs (kb_in s) \<and>
   kb_arriving (fold keyboard_handler cs s) = kb_arriving s"
  by (induction cs arbitrary: s) (simp_all add: keyboard_handler_def)

text \<open>
  The scan codes the interrupt handler stores are read back by the TTY task in the same order,
  as long as they fit into the 32 bytes of the buffer, which is then empty again.
\<close>

theorem scan_codes_fifo:
  assumes "kb_ok (kb_in s)" and "kb_items (kb_in s) = []" and "length cs \<le> KB_IN_BYTES"
  shows "\<exists>s'. match_bytes cs (fold keyboard_handler cs s) = Inr (True, s') \<and> kb_ok (kb_in s') \<and>
    avail s' = kb_arriving s"
proof -
  let ?t = "fold keyboard_handler cs s"
  have ok: "kb_ok (kb_in ?t)" and items: "kb_items (kb_in ?t) = cs"
    using kb_ring.puts_ok [OF assms(1)] kb_ring.items_puts [OF assms(1)] assms(2,3) by (simp_all add: handlers_items)
  have av: "avail ?t = cs @ kb_arriving s" using items by (simp add: avail_def handlers_items)
  then show ?thesis using match_bytes_avail [OF ok, of cs] by auto
qed

section \<open>Decoding\<close>

lemma nth_concat_rows:
  assumes "\<forall>r \<in> set rows. length r = k" and "n < length rows"
  shows "take k (drop (n * k) (concat rows)) = rows ! n"
  using assms
proof (induction rows arbitrary: n)
  case (Cons r rows)
  then show ?case by (cases n) (simp_all add: add.commute)
qed simp

lemma keyrows_shape: "length keyrows = 128" "\<forall>r \<in> set keyrows. length r = 3"
  by (simp_all add: keyrows_def)

lemma keyrow_of_code:
  assumes "n < 128"
  shows "take MAP_COLS (drop (n * MAP_COLS) keymap) = keyrows ! n"
  using nth_concat_rows [OF keyrows_shape(2), of n] assms keyrows_shape(1) by (simp add: keymap_def)

definition is_letter :: "u32 \<Rightarrow> bool" where
  "is_letter k \<longleftrightarrow> 97 \<le> k \<and> k \<le> 122"

definition not_special :: "u32 \<Rightarrow> bool" where
  "not_special key \<longleftrightarrow> key < FLAG_EXT"

definition letter_row_ok :: "u32 list \<Rightarrow> bool" where
  "letter_row_ok r \<longleftrightarrow> not_special (r ! 0) \<and> not_special (r ! 1) \<and> r ! 0 AND FLAG_EXT = 0 \<and> r ! 1 AND FLAG_EXT = 0 \<and>
     (ucast (r ! 1) :: u8) = ucast (r ! 0) - 32"

lemma letter_rows: "list_all (\<lambda>r. is_letter (r ! 0) \<longrightarrow> letter_row_ok r) keyrows"
  by (simp add: keyrows_def is_letter_def key_simps letter_row_ok_def not_special_def)

lemma letter_row: "n < 128 \<Longrightarrow> is_letter (keyrows ! n ! 0) \<Longrightarrow> letter_row_ok (keyrows ! n)"
  using letter_rows keyrows_shape(1) by (simp add: list_all_length)

lemma letter_codes:
  "list_all (\<lambda>r. is_letter (r ! 0) \<longrightarrow> (32 :: u8) \<le> ucast (r ! 0) \<and> ucast (r ! 0) \<le> (126 :: u8) \<and> ucast (r ! 0) \<noteq> (10 :: u8) \<and>
     (32 :: u8) \<le> ucast (r ! 0) - 32 \<and> ucast (r ! 0) - 32 \<le> (126 :: u8) \<and> ucast (r ! 0) - 32 \<noteq> (10 :: u8)) keyrows"
  by (simp add: keyrows_def is_letter_def key_simps)

lemma keymap_first:
  assumes "n < 128"
  shows "keymap ! (n * MAP_COLS) = keyrows ! n ! 0"
proof -
  have "length keymap = 384" by (simp add: keymap_def keyrows_def)
  then have "take MAP_COLS (drop (n * MAP_COLS) keymap) ! 0 = keymap ! (n * MAP_COLS)" using assms by simp
  then show ?thesis by (simp only: keyrow_of_code [OF assms])
qed

lemma track_not_special:
  assumes "not_special key"
  shows "track_modifiers key mk s = Inr s"
proof -
  have "key \<notin> {SHIFT_L, SHIFT_R, CTRL_L, CTRL_R, ALT_L, ALT_R, CAPS_LOCK, NUM_LOCK, SCROLL_LOCK}"
    using assms by (auto simp: not_special_def key_simps)
  then show ?thesis by (simp add: track_modifiers_def)
qed

lemma not_special_pad:
  assumes "not_special key"
  shows "\<not> (key \<ge> PAD_SLASH \<and> key \<le> PAD_9)"
proof -
  have "key < 256" using assms by (simp add: not_special_def key_simps)
  then have "key < 300" by (rule less_trans) simp
  then show ?thesis by (simp add: key_simps not_le)
qed

lemma flag_if_low:
  "(ucast f :: u8) = 0 \<Longrightarrow> (ucast (flag_if v f) :: u8) = 0" "f AND 0x100 = 0 \<Longrightarrow> flag_if v f AND 0x100 = 0"
  by (simp_all add: flag_if_def)

lemma flags_low:
  "(ucast (add_flags key pad s) :: u8) = ucast key" "add_flags key pad s AND FLAG_EXT = key AND FLAG_EXT"
  unfolding add_flags_def
  by (simp_all add: unsigned_or_eq bit.conj_disj_distrib2 flag_if_low key_simps)

lemma make_code:
  assumes "(sc :: u8) < 0x80"
  shows "ucast sc AND FLAG_BREAK = 0" "sc AND 0x7F = sc" "unat sc < 128"
proof -
  show u: "unat sc < 128" using assms by (simp add: word_less_nat_alt)
  have m: "x AND 0x7F = take_bit 7 x" for x :: u8 by (simp add: take_bit_eq_mask mask_eq_exp_minus_1)
  show m': "sc AND 0x7F = sc"
    unfolding m by (rule unsigned_word_eqI [where ?'a = nat]) (use u in \<open>simp add: unsigned_take_bit_eq take_bit_nat_eq_self\<close>)
  have "\<not> bit (sc AND 0x7F) 7" unfolding m by (simp add: bit_take_bit_iff)
  then have "\<not> bit (ucast sc :: u32) 7" unfolding m' by (simp add: bit_simps)
  then show "ucast sc AND FLAG_BREAK = 0"
    using and_exp_eq_0_iff_not_bit [of "ucast sc :: u32" 7] by (simp add: key_simps)
qed

lemma code_row: "unat (sc AND 0x7F) < 128" for sc :: u8
proof -
  have "sc AND 0x7F = take_bit 7 sc" by (simp add: take_bit_eq_mask mask_eq_exp_minus_1)
  moreover have "unat (take_bit 7 sc) < 2 ^ 7" by (simp only: unsigned_take_bit_eq take_bit_nat_less_exp)
  ultimately show ?thesis by simp
qed

lemma decode_eq:
  "decode sc s =
     (let mk = (if ucast sc AND FLAG_BREAK \<noteq> 0 then 0 else 1);
          keyrow = keyrows ! unat (sc AND 0x7F); col = map_column keyrow s; key = keyrow ! col in
      res_bind (track_modifiers key mk (s\<lparr>column := int col\<rparr>)) (\<lambda>s1.
      if mk = 0 then Inr (None, s1)
      else
        let pad = (if key \<ge> PAD_SLASH \<and> key \<le> PAD_9 then 1 else 0);
            key1 = (if pad = (0 :: int) then key else pad_key (num_lock s1) key) in
        Inr (Some (add_flags key1 pad s1), s1)))"
  unfolding decode_def Let_def keyrow_of_code [OF code_row] by (rule refl)

lemma letter_printable:
  fixes sc :: u8
  assumes "sc < 0x80" and "is_letter (keymap ! (unat sc * MAP_COLS))"
  shows "(32 :: u8) \<le> ucast (keymap ! (unat sc * MAP_COLS)) \<and> ucast (keymap ! (unat sc * MAP_COLS)) \<le> (126 :: u8) \<and>
    ucast (keymap ! (unat sc * MAP_COLS)) \<noteq> (10 :: u8) \<and> (32 :: u8) \<le> ucast (keymap ! (unat sc * MAP_COLS)) - 32 \<and>
    ucast (keymap ! (unat sc * MAP_COLS)) - 32 \<le> (126 :: u8) \<and> ucast (keymap ! (unat sc * MAP_COLS)) - 32 \<noteq> (10 :: u8)"
  using assms(2) make_code(3) [OF assms(1)] unfolding keymap_first [OF make_code(3) [OF assms(1)]]
  by (intro letter_codes [unfolded list_all_length keyrows_shape(1), THEN spec, THEN mp, THEN mp])

lemma scan_key_plain:
  assumes "kb_ok (kb_in s)" and "kb_items (kb_in s) = sc # rest" and "sc \<noteq> 0xE0" and "sc \<noteq> 0xE1"
  obtains s1 where "scan_key s = decode sc s1" "kb_ok (kb_in s1)" "avail s1 = rest @ kb_arriving s"
    "buffer_step (s\<lparr>code_with_E0 := 0\<rparr>) s1"
proof -
  have c: "count (kb_in s) > 0" using assms(2) kb_items_empty [of "kb_in s"] by simp
  obtain s1 where s1: "get_byte_from_kbuf (s\<lparr>code_with_E0 := 0\<rparr>) = Inr (sc, s1)" "kb_ok (kb_in s1)"
    "avail s1 = rest @ kb_arriving s" "buffer_step (s\<lparr>code_with_E0 := 0\<rparr>) s1"
    using get_byte_avail [of "s\<lparr>code_with_E0 := 0\<rparr>" sc "rest @ kb_arriving s"] assms(1,2) by (auto simp: avail_def)
  have "scan_key s = decode sc s1"
    using c s1(1) assms(3,4) by (simp add: scan_key_def scan_prefix_def key_simps)
  with s1 show ?thesis by (intro that)
qed

lemma letter_key:
  assumes ok: "kb_ok (kb_in s)" and items: "kb_items (kb_in s) = sc # rest" and make: "sc < 0x80"
    and letter: "is_letter (keymap ! (unat sc * MAP_COLS))"
  shows "\<exists>key s'. scan_key s = Inr (Some key, s') \<and> kb_ok (kb_in s') \<and> avail s' = rest @ kb_arriving s \<and>
    key AND FLAG_EXT = 0 \<and> (\<exists>s1 c. buffer_step (s\<lparr>code_with_E0 := 0\<rparr>) s1 \<and> s' = s1\<lparr>column := c\<rparr>) \<and>
    (ucast key :: u8) = (if (shift_l s \<noteq> 0 \<or> shift_r s \<noteq> 0) \<noteq> (caps_lock s \<noteq> 0)
      then ucast (keymap ! (unat sc * MAP_COLS)) - 32 else ucast (keymap ! (unat sc * MAP_COLS)))"
proof -
  have ne: "sc \<noteq> 0xE0" "sc \<noteq> 0xE1" using make by auto
  obtain s1 where s1: "scan_key s = decode sc s1" "kb_ok (kb_in s1)" "avail s1 = rest @ kb_arriving s"
    "buffer_step (s\<lparr>code_with_E0 := 0\<rparr>) s1"
    using scan_key_plain [OF ok items ne] by blast
  note f = buffer_step_fields [OF s1(4)]
  note M = make_code [OF make]
  let ?row = "keyrows ! unat sc"
  have k0: "keymap ! (unat sc * MAP_COLS) = ?row ! 0" by (rule keymap_first [OF M(3)])
  define key where "key = ?row ! map_column ?row s1"
  define up where "up \<longleftrightarrow> ((shift_l s \<noteq> 0 \<or> shift_r s \<noteq> 0) \<noteq> (caps_lock s \<noteq> 0))"
  have col: "map_column ?row s1 = (if up then 1 else 0)"
    using letter unfolding k0 is_letter_def by (auto simp: map_column_def Let_def f up_def)
  have L: "letter_row_ok ?row" using letter_row [OF M(3)] letter by (simp only: k0)
  have key: "key = (if up then ?row ! 1 else ?row ! 0)" by (simp add: key_def col)
  have ns: "not_special key" and ext: "key AND FLAG_EXT = 0" and uc: "(ucast (?row ! 1) :: u8) = ucast (?row ! 0) - 32"
    using L by (simp_all add: letter_row_ok_def key)
  have d: "decode sc s1 = Inr (Some (add_flags key 0 (s1\<lparr>column := int (map_column ?row s1)\<rparr>)), s1\<lparr>column := int (map_column ?row s1)\<rparr>)"
    using M not_special_pad [OF ns] by (auto simp: decode_eq Let_def track_not_special [OF ns] simp flip: key_def)
  show ?thesis
    unfolding k0 up_def [symmetric] using s1(2-4) ext uc
    by (intro exI [of _ "add_flags key 0 (s1\<lparr>column := int (map_column ?row s1)\<rparr>)"]
        exI [of _ "s1\<lparr>column := int (map_column ?row s1)\<rparr>"])
      (auto simp: s1(1) d flags_low key)
qed

text \<open>
  The make code of a letter key gives the letter, in upper case exactly when one of a shift key
  and caps lock is on but not both, and consumes one byte.
\<close>

theorem letter_typed:
  assumes ok: "kb_ok (kb_in s)" and items: "kb_items (kb_in s) = sc # rest" and make: "sc < 0x80"
    and letter: "is_letter (keymap ! (unat sc * MAP_COLS))"
  shows "\<exists>key s'. scan_key s = Inr (Some key, s') \<and> kb_ok (kb_in s') \<and> avail s' = rest @ kb_arriving s \<and>
    key AND FLAG_EXT = 0 \<and>
    (ucast key :: u8) = (if (shift_l s \<noteq> 0 \<or> shift_r s \<noteq> 0) \<noteq> (caps_lock s \<noteq> 0)
      then ucast (keymap ! (unat sc * MAP_COLS)) - 32 else ucast (keymap ! (unat sc * MAP_COLS)))"
  using letter_key [OF assms] by blast

text \<open>
  Releasing the right Alt key while the left one is held clears the state of the left one: the
  scan codes 0xE0 0xB8 leave \<^verbatim>\<open>alt_l\<close> at 0 and \<^verbatim>\<open>alt_r\<close> as it was.
\<close>

theorem right_alt_releases_left:
  assumes "kb_ok (kb_in s)" and "kb_items (kb_in s) = [0xE0, 0xB8]"
  shows "\<exists>s'. scan_key s = Inr (None, s') \<and> alt_l s' = 0 \<and> alt_r s' = alt_r s"
proof -
  have c: "count (kb_in s) > 0" using assms(2) kb_items_empty [of "kb_in s"] by simp
  obtain s1 where s1: "get_byte_from_kbuf (s\<lparr>code_with_E0 := 0\<rparr>) = Inr (0xE0, s1)" "kb_ok (kb_in s1)"
    "avail s1 = 0xB8 # kb_arriving s" "buffer_step (s\<lparr>code_with_E0 := 0\<rparr>) s1"
    using get_byte_avail [of "s\<lparr>code_with_E0 := 0\<rparr>" "0xE0" "0xB8 # kb_arriving s"] assms by (auto simp: avail_def)
  obtain s2 where s2: "get_byte_from_kbuf s1 = Inr (0xB8, s2)" "buffer_step s1 s2"
    using get_byte_avail [OF s1(2,3)] by blast
  have alt: "alt_r s2 = alt_r s"
    using buffer_step_fields(7) [OF s1(4)] buffer_step_fields(7) [OF s2(2)] by simp
  show ?thesis
    using c s1(1) s2(1) alt
    by (simp add: scan_key_def scan_prefix_def decode_eq Let_def map_column_def track_modifiers_def keyrows_def key_simps)
qed

section \<open>A key event is always read\<close>

text \<open>The controller will report an empty input buffer and acknowledge at least n times.\<close>

definition kb_answers :: "nat \<Rightarrow> 'a kbd_scheme \<Rightarrow> bool" where
  "kb_answers n s \<longleftrightarrow> n \<le> length (filter (\<lambda>b. b AND 0x02 = 0) (kb_status s)) \<and>
     n \<le> length (filter (\<lambda>b. b = KB_ACK) (kb_replies s))"

lemma poll_returns: "Suc n \<le> length (filter P bs) \<Longrightarrow> \<exists>bs'. poll P bs = Inr bs' \<and> n \<le> length (filter P bs')"
  by (induction bs) (auto split: if_splits)

lemma set_leds_returns:
  assumes "kb_answers 2 s"
  shows "\<exists>st rp. set_leds s = Inr (s\<lparr>kb_status := st, kb_replies := rp,
    kb_out := kb_out s @ [(KB_DATA, LED_CODE), (KB_DATA, leds_byte s)]\<rparr>)"
proof -
  let ?P = "\<lambda>b :: u8. b AND 0x02 = 0" and ?A = "\<lambda>b. b = KB_ACK"
  obtain st1 st2 where st: "poll ?P (kb_status s) = Inr st1" "poll ?P st1 = Inr st2"
    using poll_returns [of 1 ?P "kb_status s"] poll_returns [of 0 ?P] assms
    unfolding kb_answers_def by (metis One_nat_def Suc_1)
  obtain rp1 rp2 where rp: "poll ?A (kb_replies s) = Inr rp1" "poll ?A rp1 = Inr rp2"
    using poll_returns [of 1 ?A "kb_replies s"] poll_returns [of 0 ?A] assms
    unfolding kb_answers_def by (metis One_nat_def Suc_1)
  have "set_leds s = Inr (s\<lparr>kb_status := st2, kb_replies := rp2,
      kb_out := kb_out s @ [(KB_DATA, LED_CODE), (KB_DATA, leds_byte s)]\<rparr>)"
    using st rp by (simp add: set_leds_def Let_def kb_wait_def kb_ack_def kb_send_def)
  then show ?thesis by blast
qed

lemma track_modifiers_returns:
  assumes "kb_answers 2 s"
  shows "\<exists>s'. track_modifiers key mk s = Inr s' \<and> kb_in s' = kb_in s \<and> kb_arriving s' = kb_arriving s"
proof -
  have "\<exists>s'. set_leds t = Inr s' \<and> kb_in s' = kb_in s \<and> kb_arriving s' = kb_arriving s"
    if "kb_answers 2 t" "kb_in t = kb_in s" "kb_arriving t = kb_arriving s" for t :: "'a kbd_scheme"
    using set_leds_returns [OF that(1)] that(2,3) by auto
  moreover have "kb_answers 2 (s\<lparr>caps_lock := a\<rparr>)" "kb_answers 2 (s\<lparr>num_lock := a\<rparr>)" "kb_answers 2 (s\<lparr>scroll_lock := a\<rparr>)" for a
    using assms by (simp_all add: kb_answers_def)
  ultimately show ?thesis by (simp add: track_modifiers_def)
qed

lemma scan_prefix_returns:
  assumes ok: "kb_ok (kb_in s)" and len: "5 \<le> length (avail s)"
  shows "\<exists>sc key s' n. scan_prefix b s = Inr (sc, key, s') \<and> kb_ok (kb_in s') \<and> n \<le> 5 \<and>
    avail s' = drop n (avail s) \<and> kb_status s' = kb_status s \<and> kb_replies s' = kb_replies s"
proof -
  note sf = buffer_step_fields(1,2)
  consider "b = 0xE1" | "b = 0xE0" | "b \<noteq> 0xE0" "b \<noteq> 0xE1" by blast
  then show ?thesis
  proof cases
    case 1
    define pb :: "u8 list" where "pb = [0x1D, 0x45, 0xE1, 0x9D, 0xC5]"
    have "length pb = 5" by (simp add: pb_def)
    then obtain r s' n where m: "match_bytes pb s = Inr (r, s')" "kb_ok (kb_in s')" "n \<le> 5"
      "avail s' = drop n (avail s)" "buffer_step s s'"
      using match_bytes_avail [OF ok, of pb] len by auto
    then show ?thesis using sf [OF m(5)] 1 by (simp add: scan_prefix_def flip: pb_def) blast
  next
    case 2
    obtain c cs where av: "avail s = c # cs" "4 \<le> length cs" using len by (cases "avail s") auto
    obtain s1 where s1: "get_byte_from_kbuf s = Inr (c, s1)" "kb_ok (kb_in s1)" "avail s1 = cs" "buffer_step s s1"
      using get_byte_avail [OF ok av(1)] by blast
    define ps :: "u8 list" where "ps = [0xE0, if c = 0x2A then 0x37 else 0xAA]"
    have "length ps = 2" by (simp add: ps_def)
    then have two: "\<exists>r s' n. match_bytes ps s1 = Inr (r, s') \<and> kb_ok (kb_in s') \<and> n \<le> 2 \<and>
        avail s' = drop n cs \<and> buffer_step s1 s'"
      using match_bytes_avail [OF s1(2), of ps] av(2) s1(3) by auto
    then obtain r s' n where m: "match_bytes ps s1 = Inr (r, s')" "kb_ok (kb_in s')"
      "n \<le> 2" "avail s' = drop n cs" "buffer_step s s'"
      using buffer_step_trans [OF s1(4)] by blast
    show ?thesis
    proof (cases "c = 0x2A \<or> c = 0xB7")
      case True
      then show ?thesis using 2 m s1(1) sf [OF m(5)] av(1)
        by (intro exI [of _ c] exI [of _ "if r then PRINTSCREEN else 0"]
            exI [of _ "if r then s' else s'\<lparr>code_with_E0 := 1\<rparr>"] exI [of _ "Suc n"])
          (auto simp: scan_prefix_def ps_def simp del: match_bytes.simps)
    next
      case False
      then show ?thesis using 2 s1 sf [OF s1(4)] av(1)
        by (intro exI [of _ c] exI [of _ 0] exI [of _ "s1\<lparr>code_with_E0 := 1\<rparr>"] exI [of _ 1])
          (auto simp: scan_prefix_def)
    qed
  next
    case 3
    then show ?thesis using ok by (auto simp: scan_prefix_def intro: exI [of _ 0])
  qed
qed

text \<open>
  C35: reading the keyboard returns whenever six bytes are in the buffer or about to arrive and the
  controller answers; it consumes at most six bytes, the longest key sequence.
\<close>

theorem keyboard_read_returns:
  assumes ok: "kb_ok (kb_in s)" and len: "6 \<le> length (avail s)" and ans: "kb_answers 2 s"
  shows "\<exists>r s' n. scan_key s = Inr (r, s') \<and> kb_ok (kb_in s') \<and> n \<le> 6 \<and> avail s' = drop n (avail s)"
proof (cases "count (kb_in s) > 0")
  case False
  then show ?thesis using ok by (auto simp: scan_key_def intro: exI [of _ 0])
next
  case True
  obtain c cs where av: "avail s = c # cs" "5 \<le> length cs" using len by (cases "avail s") auto
  obtain s1 where s1: "get_byte_from_kbuf (s\<lparr>code_with_E0 := 0\<rparr>) = Inr (c, s1)" "kb_ok (kb_in s1)" "avail s1 = cs"
    "buffer_step (s\<lparr>code_with_E0 := 0\<rparr>) s1"
    using get_byte_avail [of "s\<lparr>code_with_E0 := 0\<rparr>" c cs] ok av(1) by auto
  obtain sc key s2 n where s2: "scan_prefix c s1 = Inr (sc, key, s2)" "kb_ok (kb_in s2)" "n \<le> 5" "avail s2 = drop n cs"
    "kb_status s2 = kb_status s" "kb_replies s2 = kb_replies s"
    using scan_prefix_returns [OF s1(2), of c] av(2) s1(3) buffer_step_fields(1,2) [OF s1(4)] by auto
  have ans2: "kb_answers 2 (s2\<lparr>column := i\<rparr>)" for i using ans s2(5,6) by (simp add: kb_answers_def)
  obtain r s' where d: "(if key \<noteq> PAUSEBREAK \<and> key \<noteq> PRINTSCREEN then decode sc s2 else Inr (None, s2)) = Inr (r, s')"
    "kb_in s' = kb_in s2" "kb_arriving s' = kb_arriving s2"
  proof (cases "key \<noteq> PAUSEBREAK \<and> key \<noteq> PRINTSCREEN")
    case True
    let ?row = "keyrows ! unat (sc AND 0x7F)"
    obtain s' where "track_modifiers (?row ! map_column ?row s2) (if ucast sc AND FLAG_BREAK \<noteq> 0 then 0 else 1)
        (s2\<lparr>column := int (map_column ?row s2)\<rparr>) = Inr s'" "kb_in s' = kb_in s2" "kb_arriving s' = kb_arriving s2"
      using track_modifiers_returns [OF ans2] by fastforce
    then show ?thesis using that True unfolding decode_eq Let_def by (auto split: if_splits)
  qed (use that in auto)
  show ?thesis using True s1(1) s2(1-4) d av(1)
    by (intro exI [of _ r] exI [of _ s'] exI [of _ "Suc n"]) (simp add: scan_key_def avail_def)
qed

section \<open>An example state\<close>

text \<open>A keyboard with caps lock on, the given bytes in the buffer and a controller that answers.\<close>

definition kbd_with :: "u8 list \<Rightarrow> u8 list \<Rightarrow> kbd" where
  "kbd_with cs arr = \<lparr>proc_table = [], p_proc_ready = 0, k_reenter = 0, k_ticks = 0, key_pressed = 0, mem = (\<lambda>_. 0),
     kb_in = fold kb_store cs \<lparr>p_head = 0, p_tail = 0, count = 0, buf = replicate 32 0\<rparr>,
     code_with_E0 = 0, shift_l = 0, shift_r = 0, alt_l = 1, alt_r = 0, ctrl_l = 0, ctrl_r = 0,
     caps_lock = 1, num_lock = 1, scroll_lock = 0, column = 0,
     kb_status = [0, 2, 0], kb_replies = [0xFA, 0, 0xFA], kb_arriving = arr, kb_out = []\<rparr>"

lemma kbd_with_items:
  "kb_ok (kb_in (kbd_with cs arr))" "length cs \<le> 32 \<Longrightarrow> kb_items (kb_in (kbd_with cs arr)) = cs"
proof -
  let ?kb = "\<lparr>p_head = 0, p_tail = 0, count = 0, buf = replicate 32 0\<rparr> :: kb_inbuf"
  have ok: "kb_ok ?kb" by (simp add: kb_ok_def ring_ok_def)
  have e: "kb_items ?kb = []" by (simp add: kb_items_def)
  show "kb_ok (kb_in (kbd_with cs arr))" using kb_ring.puts_ok [OF ok] by (simp add: kbd_with_def)
  show "length cs \<le> 32 \<Longrightarrow> kb_items (kb_in (kbd_with cs arr)) = cs"
    using kb_ring.items_puts [OF ok] e by (simp add: kbd_with_def)
qed

lemma kbd_with_fields [simp]:
  "kb_arriving (kbd_with cs arr) = arr" "caps_lock (kbd_with cs arr) = 1" "shift_l (kbd_with cs arr) = 0"
  "shift_r (kbd_with cs arr) = 0" "alt_r (kbd_with cs arr) = 0" "kb_answers 2 (kbd_with cs arr)"
  by (simp_all add: kbd_with_def kb_answers_def KB_ACK_def)

theorem scan_codes_fifo_witness:
  "\<exists>s'. match_bytes [0x1E, 0x9E, 0xE0] (fold keyboard_handler [0x1E, 0x9E, 0xE0] (kbd_with [] [7])) = Inr (True, s') \<and>
    kb_ok (kb_in s') \<and> avail s' = [7]"
  using scan_codes_fifo [of "kbd_with [] [7]" "[0x1E, 0x9E, 0xE0]"] kbd_with_items
  by (simp del: match_bytes.simps fold_simps)

theorem letter_typed_witness:
  "\<exists>key s'. scan_key (kbd_with [0x1E, 0x9E] []) = Inr (Some key, s') \<and> kb_ok (kb_in s') \<and> avail s' = [0x9E] \<and>
    key AND FLAG_EXT = 0 \<and> (ucast key :: u8) = 65"
proof -
  have k: "keymap ! 90 = 97" using keymap_first [of 30] by (simp add: keyrows_def)
  then show ?thesis
    using letter_typed [of "kbd_with [0x1E, 0x9E] []" "0x1E" "[0x9E]"] kbd_with_items [of "[0x1E, 0x9E]"]
    by (simp add: is_letter_def)
qed

theorem right_alt_releases_left_witness:
  "alt_l (kbd_with [0xE0, 0xB8] []) = 1 \<and>
    (\<exists>s'. scan_key (kbd_with [0xE0, 0xB8] []) = Inr (None, s') \<and> alt_l s' = 0 \<and> alt_r s' = 0)"
  using right_alt_releases_left [of "kbd_with [0xE0, 0xB8] []"] kbd_with_items [of "[0xE0, 0xB8]"]
  by simp (simp add: kbd_with_def)

theorem keyboard_read_returns_witness:
  "\<exists>r s' n. scan_key (kbd_with [0xE1, 0x1D] [0x45, 0xE1, 0x9D, 0xC5, 0x1E]) = Inr (r, s') \<and> kb_ok (kb_in s') \<and> n \<le> 6 \<and>
    avail s' = drop n [0xE1, 0x1D, 0x45, 0xE1, 0x9D, 0xC5, 0x1E]"
  using keyboard_read_returns [of "kbd_with [0xE1, 0x1D] [0x45, 0xE1, 0x9D, 0xC5, 0x1E]"]
    kbd_with_items [of "[0xE1, 0x1D]" "[0x45, 0xE1, 0x9D, 0xC5, 0x1E]"]
  by (simp add: avail_def)

end
