(* ===== verification/Console.thy ===== *)
theory Console
  imports Prelude
begin

text \<open>
  The virtual consoles of \<^verbatim>\<open>kernel/console.c\<close>. A console is a slice of video memory with a cursor
  and a window on it; positions are counted in character cells and never leave the range of the
  video memory, so the \<^verbatim>\<open>unsigned int\<close> arithmetic does not wrap and the fields are integers. The
  bytes written to the CRT controller are kept as a list of port writes.
\<close>

section \<open>Data\<close>

definition NR_CONSOLES :: nat where [simp, const_simps]: "NR_CONSOLES = 3"
definition V_MEM_BASE :: u32 where [const_simps]: "V_MEM_BASE = 0xB8000"
definition V_MEM_SIZE :: int where [simp, const_simps]: "V_MEM_SIZE = 0x8000"
definition CRTC_ADDR_REG :: u16 where [const_simps]: "CRTC_ADDR_REG = 0x3D4"
definition CRTC_DATA_REG :: u16 where [const_simps]: "CRTC_DATA_REG = 0x3D5"
definition START_ADDR_H :: u8 where [const_simps]: "START_ADDR_H = 0xC"
definition START_ADDR_L :: u8 where [const_simps]: "START_ADDR_L = 0xD"
definition CURSOR_H :: u8 where [const_simps]: "CURSOR_H = 0xE"
definition CURSOR_L :: u8 where [const_simps]: "CURSOR_L = 0xF"
definition SCR_UP :: int where [const_simps]: "SCR_UP = 1"
definition SCR_DN :: int where [const_simps]: "SCR_DN = -1"
definition SCR_SIZE :: int where [simp, const_simps]: "SCR_SIZE = 80 * 25"
definition SCR_WIDTH :: int where [simp, const_simps]: "SCR_WIDTH = 80"
definition DEFAULT_CHAR_COLOR :: u8 where [const_simps]: "DEFAULT_CHAR_COLOR = push_bit 4 0x0 OR 0x7"

record console =
  current_start_addr :: int
  original_addr :: int
  v_mem_limit :: int
  con_size :: int
  cursor :: int
  is_full :: int

record screen =
  console_table :: "console list"
  nr_current_console :: int
  disp_pos :: int
  vmem :: memory
  ports :: "(u16 \<times> u8) list"

abbreviation con_of :: "screen \<Rightarrow> nat \<Rightarrow> console" where
  "con_of s c \<equiv> console_table s ! c"

definition upd_con :: "screen \<Rightarrow> nat \<Rightarrow> (console \<Rightarrow> console) \<Rightarrow> screen" where
  "upd_con s c f = s\<lparr>console_table := (console_table s)[c := f (con_of s c)]\<rparr>"

section \<open>Operations\<close>

definition is_current_console :: "nat \<Rightarrow> screen \<Rightarrow> bool" where
  "is_current_console c s \<longleftrightarrow> int c = nr_current_console s"

definition byte_at :: "int \<Rightarrow> nat \<Rightarrow> u8" where
  "byte_at v n = word_of_int (v div 2 ^ n)"

definition set_cursor :: "int \<Rightarrow> screen \<Rightarrow> screen" where
  "set_cursor position s = s\<lparr>ports := ports s @
     [(CRTC_ADDR_REG, CURSOR_H), (CRTC_DATA_REG, byte_at position 8),
      (CRTC_ADDR_REG, CURSOR_L), (CRTC_DATA_REG, byte_at position 0)]\<rparr>"

definition set_video_start_addr :: "int \<Rightarrow> screen \<Rightarrow> screen" where
  "set_video_start_addr addr s = s\<lparr>ports := ports s @
     [(CRTC_ADDR_REG, START_ADDR_H), (CRTC_DATA_REG, byte_at addr 8),
      (CRTC_ADDR_REG, START_ADDR_L), (CRTC_DATA_REG, byte_at addr 0)]\<rparr>"

definition flush :: "nat \<Rightarrow> screen \<Rightarrow> screen" where
  "flush c s =
     (if is_current_console c s
      then set_video_start_addr (current_start_addr (con_of s c)) (set_cursor (cursor (con_of s c)) s)
      else s)"

definition scroll_screen :: "nat \<Rightarrow> int \<Rightarrow> screen \<Rightarrow> screen" where
  "scroll_screen c direction s =
     (let p = con_of s c;
          s1 =
            (if direction = SCR_UP then
               if current_start_addr p > original_addr p
               then upd_con s c (\<lambda>p. p\<lparr>current_start_addr := current_start_addr p - SCR_WIDTH\<rparr>) else s
             else if direction = SCR_DN then
               if current_start_addr p + SCR_SIZE < original_addr p + v_mem_limit p
               then upd_con s c (\<lambda>p. p\<lparr>current_start_addr := current_start_addr p + SCR_WIDTH\<rparr>) else s
             else s)
      in flush c s1)"

definition put_cell :: "memory \<Rightarrow> int \<Rightarrow> u8 \<Rightarrow> memory" where
  "put_cell m pos ch =
     (let a = V_MEM_BASE + word_of_int (pos * 2) in m(a := ch, a + 1 := DEFAULT_CHAR_COLOR))"

text \<open>The \<^verbatim>\<open>switch\<close> of \<^verbatim>\<open>out_char\<close>; 10 is a newline, 8 a backspace.\<close>

definition type_char :: "nat \<Rightarrow> u8 \<Rightarrow> screen \<Rightarrow> screen" where
  "type_char c ch s =
     (let p = con_of s c in
      if ch = 10 then
        if cursor p < original_addr p + v_mem_limit p - SCR_WIDTH
        then upd_con s c (\<lambda>p. p\<lparr>cursor := original_addr p + SCR_WIDTH *
               ((cursor p - original_addr p) div SCR_WIDTH + 1)\<rparr>)
        else s
      else if ch = 8 then
        if cursor p > original_addr p
        then (upd_con s c (\<lambda>p. p\<lparr>cursor := cursor p - 1\<rparr>))\<lparr>vmem := put_cell (vmem s) (cursor p - 1) 32\<rparr>
        else s
      else
        if cursor p < original_addr p + v_mem_limit p - 1
        then (upd_con s c (\<lambda>p. p\<lparr>cursor := cursor p + 1\<rparr>))\<lparr>vmem := put_cell (vmem s) (cursor p) ch\<rparr>
        else s)"

partial_function (option) scroll_down :: "nat \<Rightarrow> screen \<Rightarrow> screen option" where
  "scroll_down c s =
     (if cursor (con_of s c) \<ge> current_start_addr (con_of s c) + SCR_SIZE
      then scroll_down c (scroll_screen c SCR_DN s) else Some s)"

definition out_char :: "nat \<Rightarrow> u8 \<Rightarrow> screen \<Rightarrow> screen res" where
  "out_char c ch s =
     res_bind (of_option Spins (scroll_down c (type_char c ch s))) (\<lambda>s1. Inr (flush c s1))"

definition select_console :: "int \<Rightarrow> screen \<Rightarrow> screen" where
  "select_console nr_console s =
     (if nr_console < 0 \<or> nr_console \<ge> int NR_CONSOLES then s
      else
        let s1 = s\<lparr>nr_current_console := nr_console\<rparr>; p = con_of s1 (nat nr_console) in
        set_video_start_addr (current_start_addr p) (set_cursor (cursor p) s1))"

primrec out_chars :: "nat \<Rightarrow> u8 list \<Rightarrow> screen \<Rightarrow> screen res" where
  "out_chars c [] s = Inr s"
| "out_chars c (ch # chs) s = res_bind (out_char c ch s) (out_chars c chs)"

text \<open>The prompt \<^verbatim>\<open>[TTY #?]\<close> with a newline, the question mark replaced.\<close>

definition prompt :: "nat \<Rightarrow> u8 list" where
  "prompt nr_tty = map (\<lambda>ch. if ch = 63 then of_nat nr_tty + 49 else ch)
     [91, 84, 84, 89, 32, 35, 63, 93, 10]"

definition init_screen :: "nat \<Rightarrow> screen \<Rightarrow> screen res" where
  "init_screen nr_tty s =
     (let con_v_mem_size = V_MEM_SIZE div 2 div int NR_CONSOLES;
          orig = int nr_tty * con_v_mem_size;
          s1 = upd_con s nr_tty (\<lambda>p. p\<lparr>original_addr := orig, v_mem_limit := con_v_mem_size,
                 current_start_addr := orig, cursor := orig\<rparr>) in
      res_bind
        (if nr_tty = 0
         then Inr ((upd_con s1 nr_tty (\<lambda>p. p\<lparr>cursor := disp_pos s div 2\<rparr>))\<lparr>disp_pos := 0\<rparr>)
         else out_chars nr_tty (prompt nr_tty) s1)
        (\<lambda>s2. Inr (set_cursor (cursor (con_of s2 nr_tty)) s2)))"

section \<open>The invariant\<close>

text \<open>
  The cursor stays in the console's slice, and the window starts at a whole line, at most 44 lines
  down. 44 lines are one more than fit: the last window ends 59 cells behind the slice.
\<close>

definition console_ok :: "nat \<Rightarrow> console \<Rightarrow> bool" where
  "console_ok c p \<longleftrightarrow> original_addr p = int c * 5461 \<and> v_mem_limit p = 5461 \<and>
     original_addr p \<le> cursor p \<and> cursor p < original_addr p + v_mem_limit p \<and>
     (current_start_addr p - original_addr p) mod 80 = 0 \<and>
     original_addr p \<le> current_start_addr p \<and> current_start_addr p \<le> original_addr p + 44 * 80"

definition screen_ok :: "screen \<Rightarrow> bool" where
  "screen_ok s \<longleftrightarrow> length (console_table s) = NR_CONSOLES \<and> (\<forall>c < NR_CONSOLES. console_ok c (con_of s c))"

lemma upd_con_simps [simp]:
  "vmem (upd_con s c f) = vmem s" "nr_current_console (upd_con s c f) = nr_current_console s"
  "ports (upd_con s c f) = ports s" "length (console_table (upd_con s c f)) = length (console_table s)"
  by (simp_all add: upd_con_def)

lemma con_of_upd_con [simp]:
  "c < length (console_table s) \<Longrightarrow> con_of (upd_con s c f) d = (if d = c then f (con_of s c) else con_of s d)"
  by (simp add: upd_con_def)

lemma flush_simps [simp]:
  "console_table (flush c s) = console_table s" "vmem (flush c s) = vmem s"
  "nr_current_console (flush c s) = nr_current_console s"
  by (simp_all add: flush_def set_cursor_def set_video_start_addr_def)

lemma screen_ok_upd:
  assumes "screen_ok s" and "c < NR_CONSOLES" and "console_ok c p" and "console_table s' = (console_table s)[c := p]"
  shows "screen_ok s'"
  using assms by (simp add: screen_ok_def nth_list_update)

lemma mod80: "(a + 80 - b) mod 80 = (a - b) mod (80 :: int)"
proof -
  have "a + 80 - b = (a - b) + 80" by simp
  then show ?thesis by (simp only: mod_add_self2)
qed

lemma line_bound:
  fixes d :: int
  assumes "d mod 80 = 0" and "d < 3461"
  shows "d \<le> 3440"
  using assms by presburger

lemma scroll_down_step:
  assumes "console_ok c (con_of s c)" and "c < length (console_table s)"
    and "cursor (con_of s c) \<ge> current_start_addr (con_of s c) + SCR_SIZE"
  shows "console_table (scroll_screen c SCR_DN s) =
      (console_table s)[c := (con_of s c)\<lparr>current_start_addr := current_start_addr (con_of s c) + 80\<rparr>]"
    and "console_ok c ((con_of s c)\<lparr>current_start_addr := current_start_addr (con_of s c) + 80\<rparr>)"
proof -
  let ?p = "con_of s c"
  have lt: "current_start_addr ?p + SCR_SIZE < original_addr ?p + v_mem_limit ?p"
    using assms(1,3) by (simp add: console_ok_def)
  then show "console_table (scroll_screen c SCR_DN s) =
      (console_table s)[c := ?p\<lparr>current_start_addr := current_start_addr ?p + 80\<rparr>]"
    by (simp add: scroll_screen_def Let_def upd_con_def SCR_UP_def SCR_DN_def)
  have "(current_start_addr ?p + 80 - original_addr ?p) mod 80 = (current_start_addr ?p - original_addr ?p) mod 80"
    by (rule mod80)
  moreover have "current_start_addr ?p - original_addr ?p \<le> 3440"
    using assms(1) lt by (intro line_bound) (auto simp: console_ok_def)
  ultimately show "console_ok c (?p\<lparr>current_start_addr := current_start_addr ?p + 80\<rparr>)"
    using assms(1) by (auto simp: console_ok_def)
qed

lemma scroll_vmem [simp]: "vmem (scroll_screen c d s) = vmem s"
  "nr_current_console (scroll_screen c d s) = nr_current_console s"
  by (simp_all add: scroll_screen_def Let_def)

text \<open>The scrolling loop ends with the cursor in or above the window.\<close>

lemma scroll_down_ends:
  assumes "screen_ok s" and "c < NR_CONSOLES"
  shows "\<exists>s'. scroll_down c s = Some s' \<and> screen_ok s' \<and> vmem s' = vmem s \<and>
    cursor (con_of s' c) < current_start_addr (con_of s' c) + SCR_SIZE \<and> cursor (con_of s' c) = cursor (con_of s c) \<and>
    (\<forall>d. d \<noteq> c \<longrightarrow> con_of s' d = con_of s d)"
  using assms
proof (induction "nat (original_addr (con_of s c) + 44 * 80 - current_start_addr (con_of s c))" arbitrary: s
    rule: less_induct)
  case less
  have ok: "console_ok c (con_of s c)" "c < length (console_table s)"
    using less.prems by (auto simp: screen_ok_def)
  show ?case
  proof (cases "cursor (con_of s c) \<ge> current_start_addr (con_of s c) + SCR_SIZE")
    case False
    with less.prems show ?thesis by (subst scroll_down.simps) auto
  next
    case True
    note S = scroll_down_step [OF ok True]
    let ?s = "scroll_screen c SCR_DN s"
    have con: "con_of ?s d = (if d = c then (con_of s c)\<lparr>current_start_addr := current_start_addr (con_of s c) + 80\<rparr>
        else con_of s d)" for d
      using ok(2) by (simp only: S(1)) (simp add: nth_list_update)
    have sok: "screen_ok ?s" by (rule screen_ok_upd [OF less.prems S(2) S(1)])
    have "nat (original_addr (con_of ?s c) + 44 * 80 - current_start_addr (con_of ?s c))
        < nat (original_addr (con_of s c) + 44 * 80 - current_start_addr (con_of s c))"
      using ok(1) S(2) by (simp add: con console_ok_def)
    from less.hyps [OF this sok less.prems(2)] show ?thesis
      using True by (subst scroll_down.simps) (auto simp: con)
  qed
qed

section \<open>Typing a character\<close>

definition con_area :: "nat \<Rightarrow> u32 set" where
  "con_area c = block_addrs (V_MEM_BASE + word_of_int (int c * 5461 * 2)) 10922"

lemma put_cell_outside:
  assumes "int c * 5461 \<le> pos" and "pos < int c * 5461 + 5461" and "a \<notin> con_area c"
  shows "put_cell m pos ch a = m a"
proof -
  define i where "i = nat (pos - int c * 5461)"
  have pos: "pos = int c * 5461 + int i" and i: "i < 5461" using assms(1,2) by (auto simp: i_def)
  have eq: "V_MEM_BASE + word_of_int (pos * 2) = V_MEM_BASE + word_of_int (int c * 5461 * 2) + of_nat (2 * i)"
    by (simp add: pos algebra_simps)
  have "V_MEM_BASE + word_of_int (pos * 2) \<in> con_area c"
    unfolding eq con_area_def by (rule block_addrs_nth) (use i in simp)
  moreover have "V_MEM_BASE + word_of_int (pos * 2) + 1 \<in> con_area c"
    using block_addrs_nth [of "Suc (2 * i)" 10922 "V_MEM_BASE + word_of_int (int c * 5461 * 2)"] i
    unfolding eq con_area_def by (simp add: algebra_simps)
  ultimately have "a \<noteq> V_MEM_BASE + word_of_int (pos * 2)" "a \<noteq> V_MEM_BASE + word_of_int (pos * 2) + 1"
    using assms(3) by auto
  then show ?thesis by (simp add: put_cell_def Let_def)
qed

lemma newline_bound:
  fixes d :: int
  assumes "0 \<le> d" and "d < 5381"
  shows "80 * (d div 80 + 1) < 5461" "0 \<le> 80 * (d div 80 + 1)"
  using assms by presburger+

lemma type_char_ok:
  assumes ok: "screen_ok s" and c: "c < NR_CONSOLES"
  shows "screen_ok (type_char c ch s)" and "a \<notin> con_area c \<Longrightarrow> vmem (type_char c ch s) a = vmem s a"
    and "d \<noteq> c \<Longrightarrow> con_of (type_char c ch s) d = con_of s d"
proof -
  let ?p = "con_of s c"
  have p: "console_ok c ?p" and len: "c < length (console_table s)" using ok c by (auto simp: screen_ok_def)
  have p': "original_addr ?p = int c * 5461" "v_mem_limit ?p = 5461" "original_addr ?p \<le> cursor ?p"
    "cursor ?p < original_addr ?p + 5461"
    using p by (auto simp: console_ok_def)
  have upd: "screen_ok (upd_con s c (\<lambda>p. p\<lparr>cursor := v\<rparr>))"
    if "original_addr ?p \<le> v" "v < original_addr ?p + 5461" for v
    by (rule screen_ok_upd [OF ok c, of "?p\<lparr>cursor := v\<rparr>"]) (use p that in \<open>auto simp: console_ok_def upd_con_def\<close>)
  have vm: "screen_ok (t\<lparr>vmem := m\<rparr>) = screen_ok t" for t m by (simp add: screen_ok_def)
  have nl: "screen_ok (upd_con s c (\<lambda>p. p\<lparr>cursor := original_addr ?p + 80 * ((cursor ?p - original_addr ?p) div 80 + 1)\<rparr>))"
    if "cursor ?p < original_addr ?p + 5381"
    using newline_bound [of "cursor ?p - original_addr ?p"] that p' by (intro upd) auto
  have nl_eq: "upd_con s c (\<lambda>p. p\<lparr>cursor := original_addr p + 80 * ((cursor p - original_addr p) div 80 + 1)\<rparr>)
      = upd_con s c (\<lambda>p. p\<lparr>cursor := original_addr ?p + 80 * ((cursor ?p - original_addr ?p) div 80 + 1)\<rparr>)"
    "upd_con s c (\<lambda>p. p\<lparr>cursor := cursor p - 1\<rparr>) = upd_con s c (\<lambda>p. p\<lparr>cursor := cursor ?p - 1\<rparr>)"
    "upd_con s c (\<lambda>p. p\<lparr>cursor := cursor p + 1\<rparr>) = upd_con s c (\<lambda>p. p\<lparr>cursor := cursor ?p + 1\<rparr>)"
    by (simp_all add: upd_con_def)
  have bs: "screen_ok (upd_con s c (\<lambda>p. p\<lparr>cursor := cursor p - 1\<rparr>))" if "original_addr ?p < cursor ?p"
    unfolding nl_eq using p' that by (intro upd) auto
  have pr: "screen_ok (upd_con s c (\<lambda>p. p\<lparr>cursor := cursor p + 1\<rparr>))" if "cursor ?p < original_addr ?p + 5460"
    unfolding nl_eq using p' that by (intro upd) auto
  show "screen_ok (type_char c ch s)"
    using ok nl [folded nl_eq] bs pr p'(2) unfolding type_char_def Let_def SCR_WIDTH_def vm
    by (auto simp only: vm split: if_split)
  show "vmem (type_char c ch s) a = vmem s a" if "a \<notin> con_area c"
    using put_cell_outside [of c "cursor ?p - 1" a] put_cell_outside [of c "cursor ?p" a] p' that
    by (simp add: type_char_def Let_def)
  show "con_of (type_char c ch s) d = con_of s d" if "d \<noteq> c"
    using that len by (simp add: type_char_def Let_def)
qed

lemma out_char_ok:
  assumes "screen_ok s" and "c < NR_CONSOLES"
  shows "\<exists>s'. out_char c ch s = Inr s' \<and> screen_ok s' \<and>
    cursor (con_of s' c) < current_start_addr (con_of s' c) + SCR_SIZE \<and>
    (\<forall>a. a \<notin> con_area c \<longrightarrow> vmem s' a = vmem s a) \<and> (\<forall>d. d \<noteq> c \<longrightarrow> con_of s' d = con_of s d)"
proof -
  note T = type_char_ok [OF assms]
  obtain s1 where s1: "scroll_down c (type_char c ch s) = Some s1" "screen_ok s1"
    "vmem s1 = vmem (type_char c ch s)" "cursor (con_of s1 c) < current_start_addr (con_of s1 c) + SCR_SIZE"
    "\<forall>d. d \<noteq> c \<longrightarrow> con_of s1 d = con_of (type_char c ch s) d"
    using scroll_down_ends [OF T(1) assms(2), of ch] by auto
  then have "out_char c ch s = Inr (flush c s1)" by (simp add: out_char_def)
  moreover have "screen_ok (flush c s1)" using s1(2) by (simp add: screen_ok_def)
  ultimately show ?thesis using s1 T(2,3) by auto
qed

lemma out_chars_ok:
  assumes "screen_ok s" and "c < NR_CONSOLES"
  shows "\<exists>s'. out_chars c chs s = Inr s' \<and> screen_ok s'"
  using assms(1)
proof (induction chs arbitrary: s)
  case (Cons ch chs)
  then obtain s1 where "out_char c ch s = Inr s1" "screen_ok s1" using out_char_ok [OF _ assms(2)] by blast
  with Cons.IH [of s1] show ?case by simp
qed simp

lemma out_chars_append: "out_chars c (xs @ ys) s = res_bind (out_chars c xs s) (out_chars c ys)"
proof (induction xs arbitrary: s)
  case (Cons x xs)
  then show ?case by (cases "out_char c x s") simp_all
qed simp

text \<open>
  C34: printing a character on a console always returns: the scrolling loop ends, the cursor and the
  window stay in range with the cursor not below the window, no byte outside of the console's
  slice of video memory changes and the other consoles are untouched.
\<close>

theorem out_char_correct:
  assumes "screen_ok s" and "c < NR_CONSOLES"
  shows "\<exists>s'. out_char c ch s = Inr s' \<and> screen_ok s' \<and>
    cursor (con_of s' c) < current_start_addr (con_of s' c) + SCR_SIZE \<and>
    (\<forall>a. a \<notin> con_area c \<longrightarrow> vmem s' a = vmem s a) \<and> (\<forall>d. d \<noteq> c \<longrightarrow> con_of s' d = con_of s d)"
  using assms by (rule out_char_ok)

text \<open>
  A backspace after a printable character undoes it: the cursor is back where it was and the
  cell is blank.
\<close>

theorem backspace_undoes:
  assumes "screen_ok s" and "c < NR_CONSOLES" and "ch \<noteq> 8" and "ch \<noteq> 10"
    and "cursor (con_of s c) < original_addr (con_of s c) + v_mem_limit (con_of s c) - 1"
  shows "cursor (con_of (type_char c 8 (type_char c ch s)) c) = cursor (con_of s c) \<and>
    vmem (type_char c 8 (type_char c ch s)) = put_cell (vmem s) (cursor (con_of s c)) 32"
proof -
  have len: "c < length (console_table s)" and p: "original_addr (con_of s c) \<le> cursor (con_of s c)"
    using assms(1,2) by (auto simp: screen_ok_def console_ok_def)
  have t: "type_char c ch s = (upd_con s c (\<lambda>p. p\<lparr>cursor := cursor p + 1\<rparr>))\<lparr>vmem := put_cell (vmem s) (cursor (con_of s c)) ch\<rparr>"
    using assms(3-5) by (simp add: type_char_def Let_def)
  show ?thesis
    unfolding t using len p by (simp add: type_char_def Let_def upd_con_def put_cell_def)
qed

text \<open>The screen with its three consoles just initialised and empty.\<close>

definition blank_screen :: screen where
  "blank_screen = \<lparr>console_table = map (\<lambda>c. \<lparr>current_start_addr = c * 5461, original_addr = c * 5461,
     v_mem_limit = 5461, con_size = 0, cursor = c * 5461, is_full = 0\<rparr>) [0, 1, 2],
     nr_current_console = 0, disp_pos = 0, vmem = (\<lambda>_. 0), ports = []\<rparr>"

lemma blank_screen_ok: "screen_ok blank_screen"
  by (auto simp: screen_ok_def blank_screen_def console_ok_def less_Suc_eq numeral_3_eq_3)

theorem out_char_correct_witness:
  "\<exists>s'. out_char 1 65 blank_screen = Inr s' \<and> screen_ok s' \<and>
    cursor (con_of s' 1) < current_start_addr (con_of s' 1) + SCR_SIZE \<and>
    (\<forall>a. a \<notin> con_area 1 \<longrightarrow> vmem s' a = vmem blank_screen a) \<and> (\<forall>d. d \<noteq> 1 \<longrightarrow> con_of s' d = con_of blank_screen d)"
  by (rule out_char_correct) (simp_all add: blank_screen_ok)

theorem backspace_undoes_witness:
  "cursor (con_of (type_char 1 8 (type_char 1 65 blank_screen)) 1) = cursor (con_of blank_screen 1) \<and>
    vmem (type_char 1 8 (type_char 1 65 blank_screen)) = put_cell (vmem blank_screen) (cursor (con_of blank_screen 1)) 32"
  by (rule backspace_undoes) (use blank_screen_ok in \<open>simp_all add: blank_screen_def\<close>)

end
