(* ===== verification/Tty.thy ===== *)
theory Tty
  imports Keyboard Console Boot
begin

text \<open>
  The terminals of \<^verbatim>\<open>kernel/tty.c\<close>: the keys of a TTY, echo and line editing for the process that
  reads, output, the \<^verbatim>\<open>printx\<close> system call and the turn of \<^verbatim>\<open>task_tty\<close>. The state extends the
  keyboard's, and with it the kernel's, by the screen, the table of TTYs and the messages sent.
  \<^verbatim>\<open>ch\<close> and \<^verbatim>\<open>buf\<close>, the locals that are passed by address, live at given addresses of the TTY task.
\<close>

section \<open>Data\<close>

definition TTY_IN_BYTES :: nat where [simp]: "TTY_IN_BYTES = 256"
definition TTY_OUT_BUF_LEN :: nat where [simp]: "TTY_OUT_BUF_LEN = 2"
definition MAG_CH_PANIC :: u8 where [const_simps]: "MAG_CH_PANIC = 2"
definition MAG_CH_ASSERT :: u8 where [const_simps]: "MAG_CH_ASSERT = 3"

record tty =
  in_buf :: "u32 list"
  inbuf_head :: nat
  inbuf_tail :: nat
  inbuf_count :: int
  tty_caller :: int
  tty_procnr :: int
  tty_req_buf :: u32
  tty_left_cnt :: int
  tty_trans_cnt :: int
  tty_con :: nat

text \<open>A message sent by the TTY task: receiver, type, \<^verbatim>\<open>PROC_NR\<close> and \<^verbatim>\<open>CNT\<close>.\<close>

datatype tty_event = TtySend int int int int

record tty_state = kbd +
  scr :: screen
  tty_table :: "tty list"
  tty_sent :: "tty_event list"

abbreviation tty_of :: "tty_state \<Rightarrow> nat \<Rightarrow> tty" where
  "tty_of s t \<equiv> tty_table s ! t"

definition upd_tty :: "tty_state \<Rightarrow> nat \<Rightarrow> (tty \<Rightarrow> tty) \<Rightarrow> tty_state" where
  "upd_tty s t f = s\<lparr>tty_table := (tty_table s)[t := f (tty_of s t)]\<rparr>"

definition tty_send :: "int \<Rightarrow> int \<Rightarrow> int \<Rightarrow> int \<Rightarrow> tty_state \<Rightarrow> tty_state" where
  "tty_send dest typ proc_nr cnt s = s\<lparr>tty_sent := tty_sent s @ [TtySend dest typ proc_nr cnt]\<rparr>"

definition tty_out :: "nat \<Rightarrow> u8 \<Rightarrow> tty_state \<Rightarrow> tty_state res" where
  "tty_out t ch s = res_bind (out_char (tty_con (tty_of s t)) ch (scr s)) (\<lambda>c. Inr (s\<lparr>scr := c\<rparr>))"

section \<open>Input\<close>

definition tty_put :: "u32 \<Rightarrow> tty \<Rightarrow> tty" where
  "tty_put key T =
     (if inbuf_count T < int TTY_IN_BYTES
      then T\<lparr>in_buf := (in_buf T)[inbuf_head T := key], inbuf_head := ring_next TTY_IN_BYTES (inbuf_head T),
             inbuf_count := inbuf_count T + 1\<rparr>
      else T)"

definition put_key :: "nat \<Rightarrow> u32 \<Rightarrow> tty_state \<Rightarrow> tty_state" where
  "put_key t key s = upd_tty s t (tty_put key)"

definition in_process :: "nat \<Rightarrow> u32 \<Rightarrow> tty_state \<Rightarrow> tty_state" where
  "in_process t key s =
     (if key AND FLAG_EXT = 0 then put_key t key s
      else
        let raw_code = key AND MASK_RAW; con = tty_con (tty_of s t);
            shifted = (key AND FLAG_SHIFT_L \<noteq> 0 \<or> key AND FLAG_SHIFT_R \<noteq> 0) in
        if raw_code = ENTER then put_key t 10 s
        else if raw_code = BACKSPACE then put_key t 8 s
        else if raw_code = UP then if shifted then s\<lparr>scr := scroll_screen con SCR_DN (scr s)\<rparr> else s
        else if raw_code = DOWN then if shifted then s\<lparr>scr := scroll_screen con SCR_UP (scr s)\<rparr> else s
        else if raw_code \<in> set [F1, F2, F3, F4, F5, F6, F7, F8, F9, F10, F11, F12] then
          if key AND FLAG_ALT_L \<noteq> 0 \<or> key AND FLAG_ALT_R \<noteq> 0
          then s\<lparr>scr := select_console (uint raw_code - uint F1) (scr s)\<rparr> else s
        else s)"

definition keyboard_read :: "nat \<Rightarrow> tty_state \<Rightarrow> tty_state res" where
  "keyboard_read t s =
     res_bind (scan_key s) (\<lambda>(key, s1).
     case key of None \<Rightarrow> Inr s1 | Some k \<Rightarrow> Inr (in_process t k s1))"

definition tty_dev_read :: "nat \<Rightarrow> tty_state \<Rightarrow> tty_state res" where
  "tty_dev_read t s = (if is_current_console (tty_con (tty_of s t)) (scr s) then keyboard_read t s else Inr s)"

section \<open>Echo and transfer\<close>

definition tty_get :: "tty \<Rightarrow> u32 \<times> tty" where
  "tty_get T = (in_buf T ! inbuf_tail T,
     T\<lparr>inbuf_tail := ring_next TTY_IN_BYTES (inbuf_tail T), inbuf_count := inbuf_count T - 1\<rparr>)"

text \<open>The character for the waiting process.\<close>

definition tty_transfer :: "u32 \<Rightarrow> nat \<Rightarrow> u8 \<Rightarrow> tty_state \<Rightarrow> tty_state res" where
  "tty_transfer ch_addr t ch s =
     (let T = tty_of s t in
      if 32 \<le> ch \<and> ch \<le> 126 then
        res_bind (tty_out t ch s) (\<lambda>s1.
        res_bind (va2la s1 TASK_TTY ch_addr) (\<lambda>la.
        let p = tty_req_buf T + word_of_int (tty_trans_cnt T) in
        Inr (upd_tty (s1\<lparr>mem := phys_copy (mem s1) p la 1\<rparr>) t
          (\<lambda>T. T\<lparr>tty_trans_cnt := tty_trans_cnt T + 1, tty_left_cnt := tty_left_cnt T - 1\<rparr>))))
      else if ch = 8 \<and> tty_trans_cnt T \<noteq> 0 then
        res_bind (tty_out t ch s) (\<lambda>s1.
        Inr (upd_tty s1 t (\<lambda>T. T\<lparr>tty_trans_cnt := tty_trans_cnt T - 1, tty_left_cnt := tty_left_cnt T + 1\<rparr>)))
      else Inr s)"

definition tty_resume :: "nat \<Rightarrow> u8 \<Rightarrow> tty_state \<Rightarrow> tty_state res" where
  "tty_resume t ch s =
     (if ch = 10 \<or> tty_left_cnt (tty_of s t) = 0 then
        res_bind (tty_out t 10 s) (\<lambda>s1.
        let T = tty_of s1 t in
        Inr (upd_tty (tty_send (tty_caller T) RESUME_PROC (tty_procnr T) (tty_trans_cnt T) s1) t
          (\<lambda>T. T\<lparr>tty_left_cnt := 0\<rparr>)))
      else Inr s)"

definition tty_write_one :: "u32 \<Rightarrow> nat \<Rightarrow> tty_state \<Rightarrow> tty_state res" where
  "tty_write_one ch_addr t s =
     (let (key, T) = tty_get (tty_of s t); ch = ucast key;
          s1 = (upd_tty s t (\<lambda>_. T))\<lparr>mem := (mem s)(ch_addr := ch)\<rparr> in
      if tty_left_cnt T \<noteq> 0
      then res_bind (tty_transfer ch_addr t ch s1) (tty_resume t ch)
      else Inr s1)"

text \<open>Every turn of the loop takes one key, so the number of keys bounds it.\<close>

primrec tty_write_loop :: "nat \<Rightarrow> u32 \<Rightarrow> nat \<Rightarrow> tty_state \<Rightarrow> tty_state res" where
  "tty_write_loop 0 ch_addr t s = (if inbuf_count (tty_of s t) = 0 then Inr s else Inl Spins)"
| "tty_write_loop (Suc n) ch_addr t s =
     (if inbuf_count (tty_of s t) = 0 then Inr s
      else res_bind (tty_write_one ch_addr t s) (tty_write_loop n ch_addr t))"

definition tty_dev_write :: "u32 \<Rightarrow> nat \<Rightarrow> tty_state \<Rightarrow> tty_state res" where
  "tty_dev_write ch_addr t s = tty_write_loop (nat (inbuf_count (tty_of s t))) ch_addr t s"

section \<open>Requests\<close>

definition tty_do_read :: "nat \<Rightarrow> message \<Rightarrow> tty_state \<Rightarrow> tty_state res" where
  "tty_do_read t msg s =
     (if \<not> valid_proc_nr (m3i3 msg) then Inl (BadAccess ''va2la: proc_table'')
      else
        res_bind (va2la s (nat (m3i3 msg)) (m3p2 msg)) (\<lambda>la.
        let s1 = upd_tty s t (\<lambda>T. T\<lparr>tty_caller := msg_source msg, tty_procnr := m3i3 msg, tty_req_buf := la,
                   tty_left_cnt := m3i2 msg, tty_trans_cnt := 0\<rparr>) in
        Inr (tty_send (msg_source msg) SUSPEND_PROC (m3i3 msg) (m3i2 msg) s1)))"

fun tty_write_chunks :: "u32 \<Rightarrow> nat \<Rightarrow> u32 \<Rightarrow> nat \<Rightarrow> tty_state \<Rightarrow> tty_state res" where
  "tty_write_chunks buf_addr t p i s =
     (if i = 0 then Inr s
      else
        let bytes = min TTY_OUT_BUF_LEN i in
        res_bind (va2la s TASK_TTY buf_addr) (\<lambda>la.
        let s1 = s\<lparr>mem := phys_copy (mem s) la p bytes\<rparr> in
        res_bind (out_chars (tty_con (tty_of s1 t)) (read_bytes (mem s1) buf_addr bytes) (scr s1)) (\<lambda>c.
        tty_write_chunks buf_addr t (p + of_nat bytes) (i - bytes) (s1\<lparr>scr := c\<rparr>))))"

text \<open>A negative count copies far more than the two bytes of \<^verbatim>\<open>buf\<close>.\<close>

definition tty_do_write :: "u32 \<Rightarrow> nat \<Rightarrow> message \<Rightarrow> tty_state \<Rightarrow> tty_state res" where
  "tty_do_write buf_addr t msg s =
     (if \<not> valid_proc_nr (m3i3 msg) then Inl (BadAccess ''va2la: proc_table'')
      else
        res_bind (va2la s (nat (m3i3 msg)) (m3p2 msg)) (\<lambda>p.
        if m3i2 msg < 0 then Inl (BadAccess ''tty_do_write: buf'')
        else
          res_bind (tty_write_chunks buf_addr t p (nat (m3i2 msg)) s) (\<lambda>s1.
          Inr (tty_send (msg_source msg) SYSCALL_RET (m3i3 msg) (m3i2 msg) s1))))"

section \<open>printx\<close>

partial_function (option) printx_loop :: "nat \<Rightarrow> u32 \<Rightarrow> tty_state \<Rightarrow> (tty_state res) option" where
  "printx_loop con p s =
     (let ch = mem s p in
      if ch = 0 then Some (Inr s)
      else if ch = MAG_CH_PANIC \<or> ch = MAG_CH_ASSERT then printx_loop con (p + 1) s
      else (case out_char con ch (scr s) of
              Inl e \<Rightarrow> Some (Inl e)
            | Inr c \<Rightarrow> printx_loop con (p + 1) (s\<lparr>scr := c\<rparr>)))"

text \<open>
  Called from Ring 1 to 3 the string is in the caller's space. A panic, and a failed assertion in a
  task, fill the screen and halt.
\<close>

definition sys_printx :: "u32 \<Rightarrow> nat \<Rightarrow> tty_state \<Rightarrow> tty_state res" where
  "sys_printx str caller s =
     res_bind (if k_reenter s = 0 then va2la s caller str else Inr str) (\<lambda>p.
     if mem s p = MAG_CH_PANIC \<or> (mem s p = MAG_CH_ASSERT \<and> p_proc_ready s < NR_TASKS)
     then Inl (Panic ''sys_printx: hlt'')
     else
       let t = nr_tty (proc_of s caller) in
       if t < 0 \<or> t \<ge> int NR_CONSOLES then Inl (BadAccess ''sys_printx: tty_table'')
       else res_bind (of_option Spins (printx_loop (tty_con (tty_of s (nat t))) p s)) id)"

section \<open>The task\<close>

definition init_tty :: "nat \<Rightarrow> tty_state \<Rightarrow> tty_state res" where
  "init_tty t s =
     (let s1 = upd_tty s t (\<lambda>T. T\<lparr>inbuf_count := 0, inbuf_head := 0, inbuf_tail := 0, tty_con := t\<rparr>) in
      res_bind (init_screen t (scr s1)) (\<lambda>c. Inr (s1\<lparr>scr := c\<rparr>)))"

definition task_tty_start :: "tty_state \<Rightarrow> tty_state res" where
  "task_tty_start s =
     res_bind (init_keyboard s) (\<lambda>s0.
     res_bind (init_tty 0 s0) (\<lambda>s1. res_bind (init_tty 1 s1) (\<lambda>s2. res_bind (init_tty 2 s2) (\<lambda>s3.
     Inr (s3\<lparr>scr := select_console 0 (scr s3)\<rparr>)))))"

partial_function (option) tty_poll :: "u32 \<Rightarrow> nat \<Rightarrow> tty_state \<Rightarrow> (tty_state res) option" where
  "tty_poll ch_addr t s =
     (case res_bind (tty_dev_read t s) (tty_dev_write ch_addr t) of
        Inl e \<Rightarrow> Some (Inl e)
      | Inr s1 \<Rightarrow> if inbuf_count (tty_of s1 t) \<noteq> 0 then tty_poll ch_addr t s1 else Some (Inr s1))"

primrec tty_poll_all :: "u32 \<Rightarrow> nat list \<Rightarrow> tty_state \<Rightarrow> tty_state res" where
  "tty_poll_all ch_addr [] s = Inr s"
| "tty_poll_all ch_addr (t # ts) s =
     res_bind (res_bind (of_option Spins (tty_poll ch_addr t s)) id) (tty_poll_all ch_addr ts)"

definition tty_handle :: "u32 \<Rightarrow> message \<Rightarrow> tty_state \<Rightarrow> tty_state res" where
  "tty_handle buf_addr msg s =
     (let src = msg_source msg; dev = m3i4 msg;
          on_tty = (\<lambda>f. if dev < 0 \<or> dev \<ge> int NR_CONSOLES then Inl (BadAccess ''task_tty: tty_table'') else f (nat dev)) in
      kassert (src \<noteq> int TASK_TTY) ''task_tty: src'' (
      if msg_type msg = DEV_OPEN then Inr (tty_send src SYSCALL_RET 0 0 s)
      else if msg_type msg = DEV_READ then on_tty (\<lambda>t. tty_do_read t msg s)
      else if msg_type msg = DEV_WRITE then on_tty (\<lambda>t. tty_do_write buf_addr t msg s)
      else if msg_type msg = HARD_INT then Inr (s\<lparr>key_pressed := 0\<rparr>)
      else Inr s))"

text \<open>One turn of the endless loop: poll the terminals, then serve the message received.\<close>

definition task_tty :: "u32 \<Rightarrow> u32 \<Rightarrow> message \<Rightarrow> tty_state \<Rightarrow> tty_state res" where
  "task_tty ch_addr buf_addr msg s =
     res_bind (tty_poll_all ch_addr [0..<NR_CONSOLES] s) (tty_handle buf_addr msg)"

section \<open>The keys of a TTY are a bounded queue\<close>

definition tty_ring_ok :: "tty \<Rightarrow> bool" where
  "tty_ring_ok T \<longleftrightarrow> ring_ok TTY_IN_BYTES (in_buf T) (inbuf_head T) (inbuf_tail T) (inbuf_count T)"

definition tty_items :: "tty \<Rightarrow> u32 list" where
  "tty_items T = ring_items (in_buf T) (inbuf_tail T) (inbuf_count T)"

interpretation tty_ring: ring_buffer tty_put tty_get tty_items tty_ring_ok 256
proof
  fix T :: tty and x
  assume "tty_ring_ok T"
  then have r: "ring_ok TTY_IN_BYTES (in_buf T) (inbuf_head T) (inbuf_tail T) (inbuf_count T)" by (simp add: tty_ring_ok_def)
  show "tty_ring_ok (tty_put x T)"
    using r ring_put(1) [OF r] by (simp add: tty_ring_ok_def tty_put_def)
  have "0 \<le> inbuf_count T" "inbuf_count T \<le> 256" using r by (simp_all add: ring_ok_def)
  then show "tty_items (tty_put x T) = (if length (tty_items T) < 256 then tty_items T @ [x] else tty_items T)"
    using ring_put(2) [OF r, of x] by (auto simp: tty_items_def tty_put_def)
  assume "tty_items T \<noteq> []"
  then have "0 < inbuf_count T" by (simp add: tty_items_def)
  from ring_get [OF r this] show "tty_ring_ok (snd (tty_get T))" "tty_items T = fst (tty_get T) # tty_items (snd (tty_get T))"
    by (simp_all add: tty_ring_ok_def tty_items_def tty_get_def)
qed

section \<open>Invariant\<close>

definition tty_ok :: "tty \<Rightarrow> bool" where
  "tty_ok T \<longleftrightarrow> tty_ring_ok T \<and> tty_con T < NR_CONSOLES \<and> 0 \<le> tty_left_cnt T \<and> 0 \<le> tty_trans_cnt T \<and>
     tty_trans_cnt T + tty_left_cnt T < 2 ^ 31"

definition ttys_ok :: "tty_state \<Rightarrow> bool" where
  "ttys_ok s \<longleftrightarrow> kinv s \<and> screen_ok (scr s) \<and> length (tty_table s) = NR_CONSOLES \<and> (\<forall>T \<in> set (tty_table s). tty_ok T)"

lemma ttys_okD:
  assumes "ttys_ok s" and "t < NR_CONSOLES"
  shows "kinv s" "screen_ok (scr s)" "t < length (tty_table s)" "tty_ok (tty_of s t)" "tty_con (tty_of s t) < NR_CONSOLES"
  using assms by (auto simp: ttys_ok_def tty_ok_def)

lemma kinv_fields [simp]:
  "kinv (s\<lparr>mem := m\<rparr>) = kinv s" "kinv (s\<lparr>key_pressed := kp\<rparr>) = kinv s"
  by (simp_all add: kinv_def seg_base_def)

lemma kinv_tty_fields [simp]:
  "kinv (s\<lparr>scr := c\<rparr>) = kinv s" "kinv (s\<lparr>tty_table := T\<rparr>) = kinv s" "kinv (s\<lparr>tty_sent := e\<rparr>) = kinv s"
  by (simp_all add: kinv_def seg_base_def)

lemma ttys_ok_upd:
  assumes "ttys_ok s" and "tty_ok T" and "screen_ok c"
    and "proc_table s' = proc_table s" and "scr s' = c" and "tty_table s' = (tty_table s)[t := T]"
  shows "ttys_ok s'"
proof -
  have "kinv s'" using assms(1,4) by (simp add: ttys_ok_def kinv_def seg_base_def)
  then show ?thesis
    using assms by (auto simp: ttys_ok_def dest!: set_update_subset_insert [THEN subsetD])
qed

section \<open>Line editing\<close>

text \<open>
  What the editing of a line means: the characters transferred so far, the room left and the
  lengths of the lines handed over.
\<close>

definition edit_key :: "u8 \<Rightarrow> u8 list \<times> nat \<times> nat list \<Rightarrow> u8 list \<times> nat \<times> nat list" where
  "edit_key ch = (\<lambda>(line, room, handed).
     if room = 0 then (line, room, handed)
     else
       let (line1, room1) =
         (if 32 \<le> ch \<and> ch \<le> 126 then (line @ [ch], room - 1)
          else if ch = 8 \<and> line \<noteq> [] then (butlast line, room + 1) else (line, room)) in
       if ch = 10 \<or> room1 = 0 then (line1, 0, handed @ [length line1]) else (line1, room1, handed))"

definition edit_state :: "tty_state \<Rightarrow> nat \<Rightarrow> u8 list \<times> nat" where
  "edit_state s t = (read_bytes (mem s) (tty_req_buf (tty_of s t)) (nat (tty_trans_cnt (tty_of s t))),
     nat (tty_left_cnt (tty_of s t)))"

text \<open>The addresses of the reader's buffer.\<close>

definition req_area :: "tty \<Rightarrow> u32 set" where
  "req_area T = block_addrs (tty_req_buf T) (nat (tty_trans_cnt T + tty_left_cnt T))"

definition same_request :: "tty \<Rightarrow> tty \<Rightarrow> bool" where
  "same_request T T' \<longleftrightarrow> tty_req_buf T' = tty_req_buf T \<and> tty_caller T' = tty_caller T \<and> tty_procnr T' = tty_procnr T \<and>
     tty_trans_cnt T' + tty_left_cnt T' \<le> tty_trans_cnt T + tty_left_cnt T"

lemma upd_tty_simps [simp]:
  "proc_table (upd_tty s t f) = proc_table s" "mem (upd_tty s t f) = mem s" "scr (upd_tty s t f) = scr s"
  "tty_sent (upd_tty s t f) = tty_sent s" "length (tty_table (upd_tty s t f)) = length (tty_table s)"
  "t < length (tty_table s) \<Longrightarrow> tty_of (upd_tty s t f) t = f (tty_of s t)"
  "kinv (upd_tty s t f) = kinv s"
  by (simp_all add: upd_tty_def)

lemma tty_out_ok:
  assumes "screen_ok (scr s)" and "tty_con (tty_of s t) < NR_CONSOLES"
  obtains c where "tty_out t ch s = Inr (s\<lparr>scr := c\<rparr>)" "screen_ok c"
  using out_char_ok [OF assms, of ch] by (auto simp: tty_out_def)

lemma task_address: "kinv s \<Longrightarrow> va2la s 0 a = Inr a"
  by (simp add: va2la_linear linear_def kinv_def)

text \<open>One of the two counters moves a character to the other; the rest of the TTY stays.\<close>

definition moved :: "int \<Rightarrow> tty \<Rightarrow> tty" where
  "moved d T = T\<lparr>tty_trans_cnt := tty_trans_cnt T + d, tty_left_cnt := tty_left_cnt T - d\<rparr>"

lemma moved_simps:
  "tty_items (moved d T) = tty_items T" "tty_req_buf (moved d T) = tty_req_buf T" "same_request T (moved d T)"
  "req_area (moved d T) = req_area T" "tty_trans_cnt (moved d T) = tty_trans_cnt T + d"
  "tty_left_cnt (moved d T) = tty_left_cnt T - d"
  by (simp_all add: moved_def tty_items_def same_request_def req_area_def)

lemma moved_ok: "tty_ok T \<Longrightarrow> 0 \<le> tty_trans_cnt T + d \<Longrightarrow> d \<le> tty_left_cnt T \<Longrightarrow> tty_ok (moved d T)"
  by (simp add: tty_ok_def moved_def tty_ring_ok_def)

definition edit_line :: "u8 \<Rightarrow> u8 list \<times> nat \<Rightarrow> u8 list \<times> nat" where
  "edit_line ch = (\<lambda>(line, room).
     if 32 \<le> ch \<and> ch \<le> 126 then (line @ [ch], room - 1)
     else if ch = 8 \<and> line \<noteq> [] then (butlast line, room + 1) else (line, room))"

lemma read_bytes_butlast: "0 < n \<Longrightarrow> read_bytes m a (n - Suc 0) = butlast (read_bytes m a n)"
  by (cases n) (simp_all add: read_bytes_snoc)

lemma tty_transfer_ok:
  assumes ok: "ttys_ok s" and t: "t < NR_CONSOLES" and left: "tty_left_cnt (tty_of s t) \<noteq> 0"
    and ch: "mem s ch_addr = ch" "ch_addr \<notin> req_area (tty_of s t)"
  shows "\<exists>s' d. tty_transfer ch_addr t ch s = Inr s' \<and> ttys_ok s' \<and> tty_table s' = (tty_table s)[t := moved d (tty_of s t)] \<and>
    edit_state s' t = edit_line ch (edit_state s t) \<and> tty_sent s' = tty_sent s \<and>
    (\<forall>a. a \<notin> req_area (tty_of s t) \<longrightarrow> mem s' a = mem s a)"
proof -
  let ?T = "tty_of s t"
  note D = ttys_okD [OF ok t]
  have T: "0 < tty_left_cnt ?T" "0 \<le> tty_trans_cnt ?T" "tty_trans_cnt ?T + tty_left_cnt ?T < 2 ^ 31"
    using D(4) left by (simp_all add: tty_ok_def)
  define n where "n = nat (tty_trans_cnt ?T)"
  have n: "tty_trans_cnt ?T = int n" "nat (tty_trans_cnt ?T + 1) = Suc n" "n < 2 ^ 32"
    "n < nat (tty_trans_cnt ?T + tty_left_cnt ?T)"
    using T by (auto simp: n_def)
  obtain c where c: "tty_out t ch s = Inr (s\<lparr>scr := c\<rparr>)" "screen_ok c"
    using tty_out_ok [OF D(2,5)] by blast
  have okd: "ttys_ok s'" if "tty_table s' = (tty_table s)[t := moved d ?T]" "proc_table s' = proc_table s"
      "scr s' = c" "tty_ok (moved d ?T)" for s' d
    by (rule ttys_ok_upd [OF ok that(4) c(2) that(2,3,1)])
  consider (prnt) "32 \<le> ch \<and> ch \<le> 126" | (bspace) "\<not> (32 \<le> ch \<and> ch \<le> 126)" "ch = 8 \<and> n \<noteq> 0"
    | (other) "\<not> (32 \<le> ch \<and> ch \<le> 126)" "\<not> (ch = 8 \<and> n \<noteq> 0)" by blast
  then show ?thesis
  proof cases
    case prnt
    let ?p = "tty_req_buf ?T + of_nat n"
    let ?s = "upd_tty (s\<lparr>scr := c, mem := (mem s)(?p := ch)\<rparr>) t
      (\<lambda>T. T\<lparr>tty_trans_cnt := tty_trans_cnt T + 1, tty_left_cnt := tty_left_cnt T - 1\<rparr>)"
    have tab: "tty_table ?s = (tty_table s)[t := moved 1 ?T]" by (simp add: upd_tty_def moved_def)
    have eq: "tty_transfer ch_addr t ch s = Inr ?s"
      using prnt D(1) ch(1) c(1) n(1) by (simp add: tty_transfer_def Let_def task_address phys_copy_def)
    have p: "?p \<in> req_area ?T" using n(4) by (auto simp: req_area_def intro: block_addrs_nth)
    have "read_bytes (mem ?s) (tty_req_buf ?T) n = read_bytes (mem s) (tty_req_buf ?T) n"
      by (rule read_bytes_cong) (use block_end_notin [OF n(3), of "tty_req_buf ?T"] in auto)
    then have ed: "edit_state ?s t = edit_line ch (edit_state s t)"
      using prnt D(3) n by (simp add: edit_state_def edit_line_def read_bytes_snoc nat_diff_distrib)
    have "tty_ok (moved 1 ?T)" using T by (intro moved_ok D(4)) auto
    then have "ttys_ok ?s" by (intro okd [OF tab]) simp_all
    with eq tab ed p show ?thesis by (intro exI [of _ ?s] exI [of _ 1]) auto
  next
    case bspace
    let ?s = "upd_tty (s\<lparr>scr := c\<rparr>) t
      (\<lambda>T. T\<lparr>tty_trans_cnt := tty_trans_cnt T - 1, tty_left_cnt := tty_left_cnt T + 1\<rparr>)"
    have tab: "tty_table ?s = (tty_table s)[t := moved (-1) ?T]" by (simp add: upd_tty_def moved_def)
    have eq: "tty_transfer ch_addr t ch s = Inr ?s"
      using bspace c(1) n(1) by (simp add: tty_transfer_def Let_def)
    have "nat (int n - 1) = n - 1" "nat (tty_left_cnt ?T + 1) = nat (tty_left_cnt ?T) + 1" using T by auto
    moreover have "read_bytes (mem s) (tty_req_buf ?T) n \<noteq> []" using bspace by (metis length_0_conv length_read_bytes)
    ultimately have ed: "edit_state ?s t = edit_line ch (edit_state s t)"
      using bspace D(3) n(1) by (simp add: edit_state_def edit_line_def read_bytes_butlast)
    have "tty_ok (moved (-1) ?T)" using T bspace(2) n(1) by (intro moved_ok D(4)) auto
    then have "ttys_ok ?s" by (intro okd [OF tab]) simp_all
    with eq tab ed show ?thesis by (intro exI [of _ ?s] exI [of _ "-1"]) auto
  next
    case other
    have eq: "tty_transfer ch_addr t ch s = Inr s"
      using other n(1) by (auto simp: tty_transfer_def Let_def)
    have ed: "edit_state s t = edit_line ch (edit_state s t)"
      using other n(1) by (auto simp: edit_state_def edit_line_def)
    have "moved 0 ?T = ?T" by (simp add: moved_def)
    with eq ed ok show ?thesis by (intro exI [of _ s] exI [of _ 0]) simp
  qed
qed

lemma tty_resume_ok:
  assumes ok: "ttys_ok s" and t: "t < NR_CONSOLES"
  shows "\<exists>s'. tty_resume t ch s = Inr s' \<and> ttys_ok s' \<and> mem s' = mem s \<and>
    (if ch = 10 \<or> tty_left_cnt (tty_of s t) = 0
     then tty_table s' = (tty_table s)[t := (tty_of s t)\<lparr>tty_left_cnt := 0\<rparr>] \<and>
       tty_sent s' = tty_sent s @ [TtySend (tty_caller (tty_of s t)) RESUME_PROC (tty_procnr (tty_of s t)) (tty_trans_cnt (tty_of s t))]
     else s' = s)"
proof (cases "ch = 10 \<or> tty_left_cnt (tty_of s t) = 0")
  case False
  then show ?thesis using ok by (simp add: tty_resume_def)
next
  case True
  note D = ttys_okD [OF ok t]
  obtain c where c: "tty_out t 10 s = Inr (s\<lparr>scr := c\<rparr>)" "screen_ok c"
    using tty_out_ok [OF D(2,5)] by blast
  let ?T = "tty_of s t"
  let ?s = "upd_tty (tty_send (tty_caller ?T) RESUME_PROC (tty_procnr ?T) (tty_trans_cnt ?T) (s\<lparr>scr := c\<rparr>)) t
      (\<lambda>T. T\<lparr>tty_left_cnt := 0\<rparr>)"
  have "tty_resume t ch s = Inr ?s" using True c(1) by (simp add: tty_resume_def Let_def)
  moreover have tab: "tty_table ?s = (tty_table s)[t := ?T\<lparr>tty_left_cnt := 0\<rparr>]" by (simp add: upd_tty_def tty_send_def)
  moreover have "tty_ok (?T\<lparr>tty_left_cnt := 0\<rparr>)" using D(4) by (simp add: tty_ok_def tty_ring_ok_def)
  then have "ttys_ok ?s" by (rule ttys_ok_upd [OF ok _ c(2) _ _ tab]) (simp_all add: tty_send_def)
  ultimately show ?thesis using True by (simp add: tty_send_def)
qed

text \<open>The messages that hand lines of the given lengths to the reader.\<close>

definition resumes :: "tty \<Rightarrow> nat list \<Rightarrow> tty_event list" where
  "resumes T = map (\<lambda>n. TtySend (tty_caller T) RESUME_PROC (tty_procnr T) (int n))"

text \<open>A step of the loop is a step of the editor.\<close>

definition edits :: "u32 \<Rightarrow> nat \<Rightarrow> tty_state \<Rightarrow> u8 list \<Rightarrow> tty_state \<Rightarrow> bool" where
  "edits ch_addr t s keys s' \<longleftrightarrow>
     (\<exists>handed. fold edit_key keys (fst (edit_state s t), snd (edit_state s t), []) =
        (fst (edit_state s' t), snd (edit_state s' t), handed) \<and>
      tty_sent s' = tty_sent s @ resumes (tty_of s t) handed) \<and>
     same_request (tty_of s t) (tty_of s' t) \<and> ttys_ok s' \<and>
     (\<forall>a. a \<notin> req_area (tty_of s t) \<and> a \<noteq> ch_addr \<longrightarrow> mem s' a = mem s a)"

lemma edit_key_alt:
  "edit_key ch (line, room, handed) =
     (if room = 0 then (line, room, handed)
      else let r = edit_line ch (line, room) in
        if ch = 10 \<or> snd r = 0 then (fst r, 0, handed @ [length (fst r)]) else (fst r, snd r, handed))"
  by (simp add: edit_key_def edit_line_def Let_def)

lemma tty_write_one_ok:
  assumes ok: "ttys_ok s" and t: "t < NR_CONSOLES" and items: "tty_items (tty_of s t) = key # ks"
    and ch: "ch_addr \<notin> req_area (tty_of s t)"
  shows "\<exists>s'. tty_write_one ch_addr t s = Inr s' \<and> edits ch_addr t s [ucast key] s' \<and> tty_items (tty_of s' t) = ks"
proof -
  let ?T0 = "tty_of s t" and ?ch = "ucast key :: u8"
  note D = ttys_okD [OF ok t]
  have ring: "tty_ring_ok ?T0" using D(4) by (simp add: tty_ok_def)
  obtain T where T: "tty_get ?T0 = (key, T)" "tty_items T = ks" "tty_ring_ok T"
    using tty_ring.items_get [OF ring] tty_ring.get_ok [OF ring] items by (cases "tty_get ?T0") auto
  have TT: "T = ?T0\<lparr>inbuf_tail := inbuf_tail T, inbuf_count := inbuf_count T\<rparr>"
    using T(1) by (auto simp: tty_get_def)
  let ?s1 = "(upd_tty s t (\<lambda>_. T))\<lparr>mem := (mem s)(ch_addr := ?ch)\<rparr>"
  have f: "tty_req_buf T = tty_req_buf ?T0" "tty_caller T = tty_caller ?T0" "tty_procnr T = tty_procnr ?T0"
    "tty_left_cnt T = tty_left_cnt ?T0" "tty_trans_cnt T = tty_trans_cnt ?T0" "tty_con T = tty_con ?T0"
    by (subst TT, simp)+
  have area: "req_area T = req_area ?T0" by (simp add: req_area_def f)
  have T1: "tty_of ?s1 t = T" using D(3) by simp
  have "tty_ok T" using D(4) T(3) by (simp add: tty_ok_def f)
  then have ok1: "ttys_ok ?s1" by (rule ttys_ok_upd [OF ok _ D(2), of T _ t]) (simp_all add: upd_tty_def)
  have "read_bytes (mem ?s1) (tty_req_buf T) (nat (tty_trans_cnt T)) = read_bytes (mem s) (tty_req_buf T) (nat (tty_trans_cnt T))"
  proof (rule read_bytes_cong)
    fix a assume "a \<in> block_addrs (tty_req_buf T) (nat (tty_trans_cnt T))"
    moreover have "nat (tty_trans_cnt T) \<le> nat (tty_trans_cnt T + tty_left_cnt T)"
      using \<open>tty_ok T\<close> by (auto simp: tty_ok_def)
    ultimately have "a \<in> req_area ?T0" using block_addrs_mono by (auto simp: req_area_def f)
    then show "mem ?s1 a = mem s a" using ch by auto
  qed
  then have ed1: "edit_state ?s1 t = edit_state s t" using D(3) by (simp add: edit_state_def f)
  have one: "tty_write_one ch_addr t s =
      (if tty_left_cnt T \<noteq> 0 then res_bind (tty_transfer ch_addr t ?ch ?s1) (tty_resume t ?ch) else Inr ?s1)"
    by (simp add: tty_write_one_def T(1) Let_def)
  have left: "tty_left_cnt T = 0 \<longleftrightarrow> snd (edit_state s t) = 0"
    using D(4) by (auto simp: edit_state_def f tty_ok_def)
  show ?thesis
  proof (cases "tty_left_cnt T = 0")
    case True
    then have "edits ch_addr t s [?ch] ?s1"
      using ok1 ed1 left T1
      by (auto simp: edits_def edit_key_alt resumes_def same_request_def f)
    then show ?thesis using True T(2) T1 by (simp add: one)
  next
    case False
    obtain s2 d where s2: "tty_transfer ch_addr t ?ch ?s1 = Inr s2" "ttys_ok s2" "tty_table s2 = (tty_table ?s1)[t := moved d T]"
      "edit_state s2 t = edit_line ?ch (edit_state s t)" "tty_sent s2 = tty_sent s"
      "\<forall>a. a \<notin> req_area T \<longrightarrow> mem s2 a = mem ?s1 a"
      using tty_transfer_ok [OF ok1 t, of ch_addr ?ch] False ch area ed1 unfolding T1 by auto
    have T2: "tty_of s2 t = moved d T" using s2(3) D(3) by simp
    obtain s3 where s3: "tty_resume t ?ch s2 = Inr s3" "ttys_ok s3" "mem s3 = mem s2"
      "if ?ch = 10 \<or> tty_left_cnt (moved d T) = 0
       then tty_table s3 = (tty_table s2)[t := (moved d T)\<lparr>tty_left_cnt := 0\<rparr>] \<and>
         tty_sent s3 = tty_sent s @ [TtySend (tty_caller T) RESUME_PROC (tty_procnr T) (tty_trans_cnt (moved d T))]
       else s3 = s2"
      using tty_resume_ok [OF s2(2) t, of ?ch] unfolding T2 s2(5) by (auto simp: moved_def)
    have ok2: "tty_ok (moved d T)" using ttys_okD(4) [OF s2(2) t] T2 by simp
    have z: "tty_left_cnt (moved d T) = 0 \<longleftrightarrow> snd (edit_line ?ch (edit_state s t)) = 0"
      using ok2 unfolding s2(4) [symmetric] by (auto simp: edit_state_def T2 tty_ok_def)
    have len: "tty_trans_cnt (moved d T) = int (length (fst (edit_line ?ch (edit_state s t))))"
      using ok2 unfolding s2(4) [symmetric] by (auto simp: edit_state_def T2 tty_ok_def)
    have sr: "same_request T0 (moved d T)" "same_request T0 ((moved d T)\<lparr>tty_left_cnt := 0\<rparr>)" if "T0 = ?T0" for T0
      using ok2 that by (simp_all add: same_request_def moved_def f tty_ok_def)
    have memok: "\<forall>a. a \<notin> req_area ?T0 \<and> a \<noteq> ch_addr \<longrightarrow> mem s3 a = mem s a"
      using s2(6) by (simp add: s3(3) area)
    have "edits ch_addr t s [?ch] s3 \<and> tty_items (tty_of s3 t) = ks"
    proof (cases "?ch = 10 \<or> tty_left_cnt (moved d T) = 0")
      case True
      then have t3: "tty_of s3 t = (moved d T)\<lparr>tty_left_cnt := 0\<rparr>" using s3(4) s2(3) D(3) by simp
      have "edit_state s3 t = (fst (edit_state s2 t), 0)" by (simp add: edit_state_def t3 T2 s3(3))
      moreover have "tty_sent s3 = tty_sent s @ resumes ?T0 [length (fst (edit_line ?ch (edit_state s t)))]"
        using True s3(4) len by (simp add: resumes_def f)
      moreover have "tty_items (tty_of s3 t) = ks" using T(2) by (simp add: t3 moved_def tty_items_def)
      moreover have "same_request ?T0 (tty_of s3 t)" unfolding t3 by (rule sr(2) [OF refl])
      ultimately show ?thesis using left False s3(2) memok z True
        by (auto simp: edits_def edit_key_alt Let_def s2(4))
    next
      case False
      with \<open>tty_left_cnt T \<noteq> 0\<close> s3(4) show ?thesis
        using left s3(2) sr(1) [OF refl] memok z T(2)
        by (auto simp: edits_def edit_key_alt Let_def s2(4) resumes_def T2 moved_simps(1) s2(5))
    qed
    then show ?thesis using False s2(1) s3(1) by (simp add: one)
  qed
qed

lemma edit_key_handed:
  "edit_key ch (line, room, h @ hs) = (case edit_key ch (line, room, hs) of (l, r, h') \<Rightarrow> (l, r, h @ h'))"
  by (simp add: edit_key_alt Let_def)

lemma fold_edit_handed:
  "fold edit_key chs (line, room, h @ hs) = (case fold edit_key chs (line, room, hs) of (l, r, h') \<Rightarrow> (l, r, h @ h'))"
proof (induction chs arbitrary: line room hs)
  case (Cons c chs)
  obtain l r h' where "edit_key c (line, room, hs) = (l, r, h')" by (cases "edit_key c (line, room, hs)")
  then show ?case using Cons.IH [of l r h'] by (simp add: edit_key_handed)
qed simp

lemma edits_Cons:
  assumes 1: "edits ch_addr t s [c] s1" and 2: "edits ch_addr t s1 cs s2"
  shows "edits ch_addr t s (c # cs) s2"
proof -
  let ?e = "\<lambda>s. (fst (edit_state s t), snd (edit_state s t), [])"
  have sr: "same_request (tty_of s t) (tty_of s1 t)" "same_request (tty_of s1 t) (tty_of s2 t)" "ttys_ok s2"
    using 1 2 by (simp_all add: edits_def)
  obtain h1 where h1: "edit_key c (?e s) = (fst (edit_state s1 t), snd (edit_state s1 t), h1)"
      "tty_sent s1 = tty_sent s @ resumes (tty_of s t) h1" using 1 by (auto simp: edits_def)
  obtain h2 where h2: "fold edit_key cs (?e s1) = (fst (edit_state s2 t), snd (edit_state s2 t), h2)"
      "tty_sent s2 = tty_sent s1 @ resumes (tty_of s1 t) h2" using 2 by (auto simp: edits_def)
  have "fold edit_key (c # cs) (?e s) = (fst (edit_state s2 t), snd (edit_state s2 t), h1 @ h2)"
    using h1(1) h2(1) fold_edit_handed [of cs _ _ h1 "[]"] by simp
  moreover have "tty_sent s2 = tty_sent s @ resumes (tty_of s t) (h1 @ h2)"
    using h1(2) h2(2) sr(1) by (simp add: resumes_def same_request_def)
  moreover have "req_area (tty_of s1 t) \<subseteq> req_area (tty_of s t)"
    using sr(1) by (auto simp: req_area_def same_request_def dest!: block_addrs_mono [OF nat_mono, THEN subsetD])
  then have "\<forall>a. a \<notin> req_area (tty_of s t) \<and> a \<noteq> ch_addr \<longrightarrow> mem s2 a = mem s a"
    using 1 2 unfolding edits_def by (metis subsetD)
  moreover have "same_request (tty_of s t) (tty_of s2 t)" using sr by (simp add: same_request_def)
  ultimately show ?thesis using sr(3) by (auto simp: edits_def)
qed

lemma edits_Nil: "ttys_ok s \<Longrightarrow> edits ch_addr t s [] s"
  by (simp add: edits_def resumes_def same_request_def)

lemma tty_write_loop_ok:
  assumes "ttys_ok s" and "t < NR_CONSOLES" and "ch_addr \<notin> req_area (tty_of s t)" and "tty_items (tty_of s t) = keys"
  shows "\<exists>s'. tty_write_loop (length keys) ch_addr t s = Inr s' \<and> edits ch_addr t s (map ucast keys) s' \<and>
    tty_items (tty_of s' t) = []"
  using assms
proof (induction keys arbitrary: s)
  case Nil
  have "tty_ring_ok (tty_of s t)" using ttys_okD(4) [OF Nil.prems(1,2)] by (simp add: tty_ok_def)
  then have "inbuf_count (tty_of s t) = 0" using Nil.prems(4) by (simp add: tty_items_def tty_ring_ok_def ring_ok_def)
  then show ?case using Nil.prems by (simp add: edits_Nil)
next
  case (Cons key keys)
  obtain s1 where s1: "tty_write_one ch_addr t s = Inr s1" "edits ch_addr t s [ucast key] s1" "tty_items (tty_of s1 t) = keys"
    using tty_write_one_ok [OF Cons.prems(1,2,4,3)] by blast
  have "req_area (tty_of s1 t) \<subseteq> req_area (tty_of s t)"
    using s1(2) by (auto simp: edits_def req_area_def same_request_def dest!: block_addrs_mono [OF nat_mono, THEN subsetD])
  then obtain s2 where "tty_write_loop (length keys) ch_addr t s1 = Inr s2" "edits ch_addr t s1 (map ucast keys) s2"
    "tty_items (tty_of s2 t) = []"
    using Cons.IH [of s1] s1 Cons.prems(2,3) by (auto simp: edits_def)
  moreover have "inbuf_count (tty_of s t) \<noteq> 0" using Cons.prems(4) by (auto simp: tty_items_def)
  ultimately show ?case using s1 edits_Cons [OF s1(2)] by simp
qed

lemma tty_dev_write_ok:
  assumes "ttys_ok s" and "t < NR_CONSOLES" and "ch_addr \<notin> req_area (tty_of s t)"
  shows "\<exists>s'. tty_dev_write ch_addr t s = Inr s' \<and> edits ch_addr t s (map ucast (tty_items (tty_of s t))) s' \<and>
    tty_items (tty_of s' t) = []"
  using tty_write_loop_ok [OF assms refl] by (simp add: tty_dev_write_def tty_items_def)

text \<open>
  C16: echoing and transferring the keys of a TTY returns and implements the line editor on them:
  printable characters go to the reader's buffer in order, a backspace takes the last one back, and
  when a newline comes or the buffer is full the reader is resumed with the number of characters.
  Nothing but the requested part of the reader's buffer and the local variable is written.
\<close>

theorem tty_dev_write_refines:
  assumes "ttys_ok s" and "t < NR_CONSOLES" and "ch_addr \<notin> req_area (tty_of s t)"
  shows "\<exists>s' handed. tty_dev_write ch_addr t s = Inr s' \<and> ttys_ok s' \<and> tty_items (tty_of s' t) = [] \<and>
    fold edit_key (map ucast (tty_items (tty_of s t))) (fst (edit_state s t), snd (edit_state s t), []) =
      (fst (edit_state s' t), snd (edit_state s' t), handed) \<and>
    tty_sent s' = tty_sent s @ resumes (tty_of s t) handed \<and>
    (\<forall>a. a \<notin> req_area (tty_of s t) \<and> a \<noteq> ch_addr \<longrightarrow> mem s' a = mem s a)"
  using tty_dev_write_ok [OF assms] unfolding edits_def by blast

section \<open>Output\<close>

text \<open>
  The chunks of two bytes print the whole text, as long as it does not overlap the local buffer,
  which is the only memory written.
\<close>

lemma tty_write_chunks_ok:
  assumes "kinv s" and "screen_ok (scr s)" and "tty_con (tty_of s t) < NR_CONSOLES" and "disjoint_blocks buf_addr 2 p i"
  shows "\<exists>c m. tty_write_chunks buf_addr t p i s = Inr (s\<lparr>mem := m, scr := c\<rparr>) \<and> screen_ok c \<and>
    out_chars (tty_con (tty_of s t)) (read_bytes (mem s) p i) (scr s) = Inr c \<and>
    (\<forall>a. a \<notin> block_addrs buf_addr 2 \<longrightarrow> m a = mem s a)"
  using assms
proof (induction i arbitrary: p s rule: less_induct)
  case (less i)
  show ?case
  proof (cases "i = 0")
    case True
    have "s = s\<lparr>mem := mem s, scr := scr s\<rparr>" by simp
    then show ?thesis using True less.prems(2) by (intro exI [of _ "scr s"] exI [of _ "mem s"]) auto
  next
    case False
    define b where "b = min TTY_OUT_BUF_LEN i"
    have b: "b \<le> 2" "b \<le> i" "0 < b" using False by (auto simp: b_def)
    define m where "m = memcpy (mem s) buf_addr p b"
    have dj: "disjoint_blocks buf_addr b p b"
      using less.prems(4) block_addrs_mono [OF b(1), of buf_addr] block_addrs_mono [OF b(2), of p]
      by (auto simp: disjoint_blocks_def)
    have rd: "read_bytes m buf_addr b = read_bytes (mem s) p b"
      unfolding m_def by (rule read_bytes_memcpy [OF dj]) (use b(1) in simp)
    have out: "m a = mem s a" if "a \<notin> block_addrs buf_addr 2" for a
      using memcpy_outside [of a buf_addr b "mem s" p] block_addrs_mono [OF b(1), of buf_addr] that
      by (auto simp: m_def)
    obtain c1 where c1: "out_chars (tty_con (tty_of s t)) (read_bytes (mem s) p b) (scr s) = Inr c1" "screen_ok c1"
      using out_chars_ok [OF less.prems(2,3)] by blast
    let ?s = "s\<lparr>mem := m, scr := c1\<rparr>" and ?p = "p + of_nat b"
    have sub: "block_addrs ?p (i - b) \<subseteq> block_addrs p i" by (rule block_addrs_sub) (use b(2) in simp)
    then have dj2: "disjoint_blocks buf_addr 2 ?p (i - b)"
      using less.prems(4) by (auto simp: disjoint_blocks_def)
    have rest: "read_bytes m ?p (i - b) = read_bytes (mem s) ?p (i - b)"
      by (rule read_bytes_cong) (use sub less.prems(4) in \<open>auto intro!: out simp: disjoint_blocks_def\<close>)
    obtain c m' where r: "tty_write_chunks buf_addr t ?p (i - b) ?s = Inr (?s\<lparr>mem := m', scr := c\<rparr>)" "screen_ok c"
      "out_chars (tty_con (tty_of s t)) (read_bytes (mem s) ?p (i - b)) c1 = Inr c"
      "\<forall>a. a \<notin> block_addrs buf_addr 2 \<longrightarrow> m' a = m a"
      using less.IH [of "i - b" ?s ?p] b less.prems(1,3) c1(2) dj2 rest by auto
    have "tty_write_chunks buf_addr t p i s = tty_write_chunks buf_addr t ?p (i - b) ?s"
      using False less.prems(1) c1(1) rd
      by (subst tty_write_chunks.simps) (simp add: Let_def task_address phys_copy_def flip: b_def [unfolded TTY_OUT_BUF_LEN_def] m_def
          del: tty_write_chunks.simps)
    moreover have "read_bytes (mem s) p i = read_bytes (mem s) p b @ read_bytes (mem s) ?p (i - b)"
      using read_bytes_add [of "mem s" p b "i - b"] b(2) by simp
    ultimately show ?thesis using r c1 out by (intro exI [of _ c] exI [of _ m']) (simp add: out_chars_append del: tty_write_chunks.simps)
  qed
qed

text \<open>
  C36: a write request to a TTY prints the CNT bytes of the writer's buffer in order on that TTY's
  console, however they are cut into chunks, writes no memory but the local buffer, and answers
  the caller.
\<close>

theorem tty_do_write_prints:
  assumes "ttys_ok s" and "t < NR_CONSOLES" and "valid_proc_nr (m3i3 msg)" and "0 \<le> m3i2 msg"
    and "disjoint_blocks buf_addr 2 (linear s (nat (m3i3 msg)) (m3p2 msg)) (nat (m3i2 msg))"
  shows "\<exists>s'. tty_do_write buf_addr t msg s = Inr s' \<and>
    out_chars (tty_con (tty_of s t)) (read_bytes (mem s) (linear s (nat (m3i3 msg)) (m3p2 msg)) (nat (m3i2 msg))) (scr s) =
      Inr (scr s') \<and>
    tty_sent s' = tty_sent s @ [TtySend (msg_source msg) SYSCALL_RET (m3i3 msg) (m3i2 msg)] \<and>
    (\<forall>a. a \<notin> block_addrs buf_addr 2 \<longrightarrow> mem s' a = mem s a)"
proof -
  note D = ttys_okD [OF assms(1,2)]
  show ?thesis
    using tty_write_chunks_ok [OF D(1,2,5) assms(5)] assms(3,4) D(1)
    by (auto simp: tty_do_write_def va2la_linear tty_send_def simp del: tty_write_chunks.simps)
qed

section \<open>printx\<close>

lemma printx_step:
  assumes "mem s p = ch" and "ch \<noteq> 0"
  shows "ch = MAG_CH_PANIC \<or> ch = MAG_CH_ASSERT \<Longrightarrow> printx_loop con p s = printx_loop con (p + 1) s"
    and "ch \<noteq> MAG_CH_PANIC \<Longrightarrow> ch \<noteq> MAG_CH_ASSERT \<Longrightarrow> out_char con ch (scr s) = Inr c \<Longrightarrow>
      printx_loop con p s = printx_loop con (p + 1) (s\<lparr>scr := c\<rparr>)"
  using assms by (subst printx_loop.simps, simp add: Let_def)+

lemma printx_loop_ok:
  assumes "screen_ok (scr s)" and "con < NR_CONSOLES" and "cstring (mem s) p cs"
  shows "\<exists>c. printx_loop con p s = Some (Inr (s\<lparr>scr := c\<rparr>)) \<and>
    out_chars con (filter (\<lambda>ch. ch \<noteq> MAG_CH_PANIC \<and> ch \<noteq> MAG_CH_ASSERT) cs) (scr s) = Inr c"
  using assms
proof (induction cs arbitrary: p s)
  case Nil
  then show ?case by (intro exI [of _ "scr s"]) (subst printx_loop.simps, simp)
next
  case (Cons ch cs)
  then have ch: "mem s p = ch" "ch \<noteq> 0" and rest: "cstring (mem s) (p + 1) cs" by simp_all
  show ?case
  proof (cases "ch = MAG_CH_PANIC \<or> ch = MAG_CH_ASSERT")
    case True
    then show ?thesis using Cons.IH [OF Cons.prems(1,2) rest] printx_step(1) [OF ch True, of con] by auto
  next
    case False
    obtain c1 where c1: "out_char con ch (scr s) = Inr c1" "screen_ok c1" using out_char_ok [OF Cons.prems(1,2)] by blast
    then show ?thesis
      using Cons.IH [of "s\<lparr>scr := c1\<rparr>" "p + 1"] Cons.prems(2) rest printx_step(2) [OF ch _ _ c1(1)] False by auto
  qed
qed

text \<open>
  C37: \<^verbatim>\<open>printx\<close> of a NUL-terminated string that does not start with a magic character returns and
  prints the string without magic characters on the console of the caller's TTY; a string that
  starts with the panic character halts.
\<close>

theorem sys_printx_prints:
  assumes "ttys_ok s" and "k_reenter s = 0" and "cstring (mem s) (linear s caller str) cs" and "0 \<le> nr_tty (proc_of s caller)"
    and "nr_tty (proc_of s caller) < int NR_CONSOLES"
  shows "if cs \<noteq> [] \<and> hd cs = MAG_CH_PANIC \<or> cs \<noteq> [] \<and> hd cs = MAG_CH_ASSERT \<and> p_proc_ready s < NR_TASKS
    then sys_printx str caller s = Inl (Panic ''sys_printx: hlt'')
    else \<exists>c. sys_printx str caller s = Inr (s\<lparr>scr := c\<rparr>) \<and>
      out_chars (tty_con (tty_of s (nat (nr_tty (proc_of s caller)))))
        (filter (\<lambda>ch. ch \<noteq> MAG_CH_PANIC \<and> ch \<noteq> MAG_CH_ASSERT) cs) (scr s) = Inr c"
proof -
  let ?t = "nat (nr_tty (proc_of s caller))"
  have t: "?t < NR_CONSOLES" using assms(4,5) by simp
  note D = ttys_okD [OF assms(1) t]
  have first: "mem s (linear s caller str) = (if cs = [] then 0 else hd cs)"
    using assms(3) by (cases cs) simp_all
  obtain c where c: "printx_loop (tty_con (tty_of s ?t)) (linear s caller str) s = Some (Inr (s\<lparr>scr := c\<rparr>))"
    "out_chars (tty_con (tty_of s ?t)) (filter (\<lambda>ch. ch \<noteq> MAG_CH_PANIC \<and> ch \<noteq> MAG_CH_ASSERT) cs) (scr s) = Inr c"
    using printx_loop_ok [OF D(2,5) assms(3)] by blast
  have eq: "sys_printx str caller s =
      (if (if cs = [] then 0 else hd cs) = MAG_CH_PANIC \<or> ((if cs = [] then 0 else hd cs) = MAG_CH_ASSERT \<and> p_proc_ready s < NR_TASKS)
       then Inl (Panic ''sys_printx: hlt'') else Inr (s\<lparr>scr := c\<rparr>))"
    using c(1) D(1) assms(2,4,5) by (simp add: sys_printx_def va2la_linear first)
  have z: "(0 :: u8) \<noteq> MAG_CH_PANIC" "(0 :: u8) \<noteq> MAG_CH_ASSERT" by (simp_all add: const_simps)
  show ?thesis using c(2) z by (cases "cs = []") (simp_all add: eq)
qed

section \<open>From the key to the reader\<close>

lemma in_process_plain: "key AND FLAG_EXT = 0 \<Longrightarrow> in_process t key s = put_key t key s"
  by (simp add: in_process_def)

lemma put_key_ok:
  assumes ok: "ttys_ok s" and t: "t < NR_CONSOLES" and items: "length (tty_items (tty_of s t)) < TTY_IN_BYTES"
  shows "ttys_ok (put_key t key s)" "tty_items (tty_of (put_key t key s) t) = tty_items (tty_of s t) @ [key]"
    "edit_state (put_key t key s) t = edit_state s t" "req_area (tty_of (put_key t key s) t) = req_area (tty_of s t)"
proof -
  note D = ttys_okD [OF ok t]
  have ring: "tty_ring_ok (tty_of s t)" using D(4) by (simp add: tty_ok_def)
  show "tty_items (tty_of (put_key t key s) t) = tty_items (tty_of s t) @ [key]"
    using tty_ring.items_put [OF ring] items D(3) by (simp add: put_key_def)
  have "tty_ok (tty_put key (tty_of s t))"
    using tty_ring.put_ok [OF ring] D(4) by (simp add: tty_ok_def tty_put_def)
  then show "ttys_ok (put_key t key s)"
    by (rule ttys_ok_upd [OF ok _ D(2), of _ _ t]) (simp_all add: put_key_def upd_tty_def)
  show "edit_state (put_key t key s) t = edit_state s t" "req_area (tty_of (put_key t key s) t) = req_area (tty_of s t)"
    using D(3) by (simp_all add: put_key_def edit_state_def req_area_def tty_put_def)
qed

text \<open>The polling loop runs once: the write empties the buffer of the TTY.\<close>

lemma tty_poll_once:
  assumes "tty_dev_read t s = Inr s1" and "ttys_ok s1" and "t < NR_CONSOLES" and "ch_addr \<notin> req_area (tty_of s1 t)"
  shows "\<exists>s'. tty_poll ch_addr t s = Some (Inr s') \<and> edits ch_addr t s1 (map ucast (tty_items (tty_of s1 t))) s'"
proof -
  obtain s' where s': "tty_dev_write ch_addr t s1 = Inr s'" "edits ch_addr t s1 (map ucast (tty_items (tty_of s1 t))) s'"
    "tty_items (tty_of s' t) = []"
    using tty_dev_write_ok [OF assms(2-4)] by blast
  have "ttys_ok s'" using s'(2) by (simp add: edits_def)
  then have "tty_ring_ok (tty_of s' t)" using ttys_okD(4) [OF _ assms(3)] by (simp add: tty_ok_def)
  then have "inbuf_count (tty_of s' t) = 0" using s'(3) by (simp add: tty_items_def tty_ring_ok_def ring_ok_def)
  then have "tty_poll ch_addr t s = Some (Inr s')"
    using assms(1) s'(1) by (subst tty_poll.simps) simp
  with s'(2) show ?thesis by blast
qed

text \<open>
  C26: a letter typed while a process reads from the current TTY with room for more than one
  character reaches that process in one polling of the TTY: the character, in the case that shift
  and caps lock give, is appended to the line in the reader's buffer and the reader is not resumed.
\<close>

theorem typed_letter_delivered:
  assumes ok: "ttys_ok s" and t: "t < NR_CONSOLES" and cur: "is_current_console (tty_con (tty_of s t)) (scr s)"
    and kb: "kb_ok (kb_in s)" "kb_items (kb_in s) = sc # rest" "sc < 0x80" "is_letter (keymap ! (unat sc * MAP_COLS))"
    and empty: "tty_items (tty_of s t) = []" and room: "1 < tty_left_cnt (tty_of s t)"
    and ch: "ch_addr \<notin> req_area (tty_of s t)"
  shows "\<exists>s'. tty_poll ch_addr t s = Some (Inr s') \<and> ttys_ok s' \<and> tty_sent s' = tty_sent s \<and>
    fst (edit_state s' t) = fst (edit_state s t) @ [if (shift_l s \<noteq> 0 \<or> shift_r s \<noteq> 0) \<noteq> (caps_lock s \<noteq> 0)
      then ucast (keymap ! (unat sc * MAP_COLS)) - 32 else ucast (keymap ! (unat sc * MAP_COLS))]"
proof -
  let ?k = "keymap ! (unat sc * MAP_COLS)" and ?up = "(shift_l s \<noteq> 0 \<or> shift_r s \<noteq> 0) \<noteq> (caps_lock s \<noteq> 0)"
  define chr :: u8 where "chr = (if ?up then ucast ?k - 32 else ucast ?k)"
  obtain key s0 s1 c where k: "scan_key s = Inr (Some key, s0)" "key AND FLAG_EXT = 0"
    "buffer_step (s\<lparr>code_with_E0 := 0\<rparr>) s1" "s0 = s1\<lparr>column := c\<rparr>" "(ucast key :: u8) = chr"
    using letter_key [OF kb] unfolding chr_def by blast
  have f: "proc_table s0 = proc_table s" "mem s0 = mem s" "scr s0 = scr s" "tty_table s0 = tty_table s" "tty_sent s0 = tty_sent s"
    using k(3) by (auto simp: k(4) buffer_step_def)
  have ok0: "ttys_ok s0" using ok by (simp add: ttys_ok_def f kinv_def seg_base_def)
  have room0: "length (tty_items (tty_of s0 t)) < TTY_IN_BYTES" by (simp add: f empty)
  note P = put_key_ok [OF ok0 t room0, of key]
  have read: "tty_dev_read t s = Inr (put_key t key s0)"
    using cur k by (simp add: tty_dev_read_def keyboard_read_def in_process_plain)
  have es0: "edit_state s0 t = edit_state s t" by (simp add: edit_state_def f)
  obtain s' where s': "tty_poll ch_addr t s = Some (Inr s')" "edits ch_addr t (put_key t key s0) [chr] s'"
    using tty_poll_once [OF read P(1) t, of ch_addr] ch P(2,4) k(5) empty f by auto
  have printable: "32 \<le> chr \<and> chr \<le> 126 \<and> chr \<noteq> 10"
    using letter_printable [of sc] kb(3,4) by (simp add: chr_def)
  have "snd (edit_state s t) > 1" using room by (simp add: edit_state_def)
  then have fold: "fold edit_key [chr] (fst (edit_state s t), snd (edit_state s t), []) =
      (fst (edit_state s t) @ [chr], snd (edit_state s t) - 1, [])"
    using printable by (simp add: edit_key_alt edit_line_def Let_def split_beta)
  then show ?thesis
    using s' unfolding chr_def [symmetric] edits_def P(3) es0 by (auto simp: resumes_def put_key_def f)
qed

section \<open>An example state\<close>

text \<open>
  The booted kernel with blank consoles. INIT reads up to ten characters at 0x20000 from the first
  TTY, which has the given keys; the text HI is at 0x30000.
\<close>

definition tty_with :: "u32 list \<Rightarrow> tty" where
  "tty_with keys = fold tty_put keys \<lparr>in_buf = replicate 256 0, inbuf_head = 0, inbuf_tail = 0, inbuf_count = 0,
     tty_caller = int TASK_FS, tty_procnr = int INIT, tty_req_buf = 0x20000, tty_left_cnt = 10, tty_trans_cnt = 0, tty_con = 0\<rparr>"

definition tty_demo :: "u32 list \<Rightarrow> u8 list \<Rightarrow> tty_state" where
  "tty_demo keys cs = kbd.extend (kbd_with cs []) (tty_state.fields blank_screen [tty_with keys, tty_with [], tty_with []] [])
     \<lparr>proc_table := map (\<lambda>p. p\<lparr>nr_tty := 0\<rparr>) (proc_table booted), mem := (\<lambda>_. 0)(0x30000 := 72, 0x30001 := 73)\<rparr>"

lemma tty_demo_fields [simp]:
  "proc_table (tty_demo keys cs) = map (\<lambda>p. p\<lparr>nr_tty := 0\<rparr>) (proc_table booted)" "scr (tty_demo keys cs) = blank_screen"
  "tty_table (tty_demo keys cs) = [tty_with keys, tty_with [], tty_with []]" "tty_sent (tty_demo keys cs) = []"
  "kb_in (tty_demo keys cs) = kb_in (kbd_with cs [])" "caps_lock (tty_demo keys cs) = 1" "shift_l (tty_demo keys cs) = 0"
  "shift_r (tty_demo keys cs) = 0" "k_reenter (tty_demo keys cs) = 0"
  "mem (tty_demo keys cs) = (\<lambda>_. 0)(0x30000 := 72, 0x30001 := 73)"
  by (simp_all add: tty_demo_def kbd.extend_def tty_state.fields_def kbd_with_def)

lemma tty_with_ok:
  "length keys \<le> 256 \<Longrightarrow> tty_items (tty_with keys) = keys" "tty_ok (tty_with keys)"
  "tty_left_cnt (tty_with keys) = 10" "tty_trans_cnt (tty_with keys) = 0" "tty_req_buf (tty_with keys) = 0x20000"
  "tty_con (tty_with keys) = 0" "tty_caller (tty_with keys) = 3" "tty_procnr (tty_with keys) = 5"
proof -
  let ?T = "\<lparr>in_buf = replicate 256 0, inbuf_head = 0, inbuf_tail = 0, inbuf_count = 0,
     tty_caller = int TASK_FS, tty_procnr = int INIT, tty_req_buf = 0x20000, tty_left_cnt = 10, tty_trans_cnt = 0, tty_con = 0\<rparr> :: tty"
  have ok: "tty_ring_ok ?T" by (simp add: tty_ring_ok_def ring_ok_def)
  have e: "tty_items ?T = []" by (simp add: tty_items_def)
  show "length keys \<le> 256 \<Longrightarrow> tty_items (tty_with keys) = keys"
    using tty_ring.items_puts [OF ok, of keys] e by (simp add: tty_with_def)
  have f: "tty_left_cnt (fold tty_put keys U) = tty_left_cnt U \<and> tty_trans_cnt (fold tty_put keys U) = tty_trans_cnt U \<and>
      tty_req_buf (fold tty_put keys U) = tty_req_buf U \<and> tty_con (fold tty_put keys U) = tty_con U \<and>
      tty_caller (fold tty_put keys U) = tty_caller U \<and> tty_procnr (fold tty_put keys U) = tty_procnr U" for U
    by (induction keys arbitrary: U) (simp_all add: tty_put_def)
  then show g: "tty_left_cnt (tty_with keys) = 10" "tty_trans_cnt (tty_with keys) = 0" "tty_req_buf (tty_with keys) = 0x20000"
    "tty_con (tty_with keys) = 0" "tty_caller (tty_with keys) = 3" "tty_procnr (tty_with keys) = 5"
    by (simp_all add: tty_with_def)
  show "tty_ok (tty_with keys)"
    using tty_ring.puts_ok [OF ok, of keys] g by (simp add: tty_ok_def tty_with_def)
qed

lemma booted_tty_kinv:
  "kinv (tty_demo keys cs)" "i < NR_TASKS + NR_PROCS \<Longrightarrow> nr_tty (proc_of (tty_demo keys cs) i) = 0"
  "i < NR_TASKS + NR_NATIVE_PROCS \<Longrightarrow> linear (tty_demo keys cs) i a = a"
proof -
  have len: "length (proc_table booted) = 37" using booted_fresh(4) by simp
  have fr: "fresh_proc i (proc_of (tty_demo keys cs) i)" if "i < NR_TASKS + NR_PROCS" for i
    using booted_fresh(5) [OF that] that len by (cases "i < 9") (auto simp: fresh_proc_def ipc_idle_def ldt_seg_linear_def)
  show k: "kinv (tty_demo keys cs)"
    by (rule fresh_kinv) (use len fr in simp_all)
  show "i < NR_TASKS + NR_PROCS \<Longrightarrow> nr_tty (proc_of (tty_demo keys cs) i) = 0" using len by simp
  show "i < NR_TASKS + NR_NATIVE_PROCS \<Longrightarrow> linear (tty_demo keys cs) i a = a" using k by (simp add: kinv_def linear_def)
qed

lemma tty_demo_ok: "ttys_ok (tty_demo keys cs)"
  using booted_tty_kinv(1) [of keys cs] blank_screen_ok by (simp add: ttys_ok_def tty_with_ok)

lemma demo_area: "req_area (tty_with keys) = block_addrs 0x20000 10"
  by (simp add: req_area_def tty_with_ok)

lemma far_address: "(0x40000 :: u32) \<notin> block_addrs 0x20000 10"
  by (simp add: block_addrs_def lessThan_nat_numeral lessThan_Suc)

theorem tty_dev_write_refines_witness:
  "\<exists>s'. tty_dev_write 0x40000 0 (tty_demo [72, 73, 8, 10] []) = Inr s' \<and> fst (edit_state s' 0) = [72] \<and>
    tty_sent s' = [TtySend 3 RESUME_PROC 5 1]"
proof -
  have e: "fold edit_key (map ucast [72 :: u32, 73, 8, 10]) ([], 10, []) = ([72], 0, [1])"
    by (simp add: edit_key_def)
  have es: "edit_state (tty_demo [72, 73, 8, 10] []) 0 = ([], 10)"
    by (simp add: edit_state_def tty_with_ok)
  show ?thesis
    using tty_dev_write_refines [OF tty_demo_ok [of "[72, 73, 8, 10]" "[]"], of 0 "0x40000"] e
    by (simp add: es demo_area far_address tty_with_ok resumes_def) auto
qed

theorem tty_do_write_prints_witness:
  "\<exists>s'. tty_do_write 0x40000 0 \<lparr>msg_source = 3, msg_type = DEV_WRITE, m3i1 = 0, m3i2 = 2, m3i3 = 5, m3i4 = 0, m3l1 = 0,
      m3l2 = 0, m3p1 = 0, m3p2 = 0x30000\<rparr> (tty_demo [] []) = Inr s' \<and>
    out_chars 0 [72, 73] blank_screen = Inr (scr s') \<and> tty_sent s' = [TtySend 3 SYSCALL_RET 5 2]"
proof -
  let ?m = "\<lparr>msg_source = 3, msg_type = DEV_WRITE, m3i1 = 0, m3i2 = 2, m3i3 = 5, m3i4 = 0, m3l1 = 0,
      m3l2 = 0, m3p1 = 0, m3p2 = 0x30000\<rparr>"
  have dj: "disjoint_blocks 0x40000 2 0x30000 2"
    by (simp add: disjoint_blocks_def block_addrs_def lessThan_nat_numeral lessThan_Suc)
  have rb: "read_bytes (mem (tty_demo [] [])) 0x30000 2 = [72, 73]"
    by (simp add: read_bytes_def numeral_2_eq_2)
  show ?thesis
    using tty_do_write_prints [OF tty_demo_ok [of "[]" "[]"], of 0 ?m "0x40000"] dj rb
    by (simp add: valid_proc_nr_def booted_tty_kinv tty_with_ok) blast
qed

theorem sys_printx_prints_witness:
  "\<exists>c. sys_printx 0x30000 5 (tty_demo [] []) = Inr ((tty_demo [] [])\<lparr>scr := c\<rparr>) \<and> out_chars 0 [72, 73] blank_screen = Inr c"
proof -
  have "cstring (mem (tty_demo [] [])) (linear (tty_demo [] []) 5 0x30000) [72, 73]"
    by (simp add: booted_tty_kinv)
  then show ?thesis
    using sys_printx_prints [OF tty_demo_ok [of "[]" "[]"], of 5 "0x30000" "[72, 73]"] booted_tty_kinv(2) [of 5]
    by (simp add: const_simps tty_with_ok)
qed

theorem typed_letter_delivered_witness:
  "\<exists>s'. tty_poll 0x40000 0 (tty_demo [] [0x1E]) = Some (Inr s') \<and> fst (edit_state s' 0) = [65]"
proof -
  have k: "keymap ! 90 = 97" using keymap_first [of 30] by (simp add: keyrows_def)
  have es: "edit_state (tty_demo [] [0x1E]) 0 = ([], 10)"
    by (simp add: edit_state_def tty_with_ok)
  show ?thesis
    using typed_letter_delivered [OF tty_demo_ok [of "[]" "[0x1E]"], of 0 "0x1E" "[]" "0x40000"] k kbd_with_items [of "[0x1E]" "[]"]
    by (simp add: es demo_area far_address tty_with_ok is_letter_def is_current_console_def blank_screen_def) blast
qed

end
