(* ===== verification/Fs_Rdwt.thy ===== *)
theory Fs_Rdwt
  imports Fs_Open Tty
begin

text \<open>
  Reading and writing (\<^verbatim>\<open>do_rdwt\<close> of \<^verbatim>\<open>fs/read_write.c\<close>). A terminal is handed to its driver, whose
  answer is the one of theory Tty; a file is moved through the buffer in chunks of at most 2048
  sectors.
\<close>

section \<open>The terminal's answer\<close>

text \<open>What \<^verbatim>\<open>tty_do_read\<close> and \<^verbatim>\<open>tty_do_write\<close> make of the message before they send it back.\<close>

definition tty_answer :: "message \<Rightarrow> message" where
  "tty_answer m = m\<lparr>msg_source := int TASK_TTY, msg_type := if msg_type m = DEV_READ then SUSPEND_PROC else SYSCALL_RET\<rparr>"

lemma tty_answer_sent:
  assumes "tty_handle buf_addr m s = Inr s'" and "msg_type m = DEV_READ \<or> msg_type m = DEV_WRITE"
  shows "\<exists>before. tty_sent s' = before @ [TtySend (msg_source m) (msg_type (tty_answer m)) (m3i3 (tty_answer m)) (m3i2 (tty_answer m))]"
  using assms by (auto simp: tty_handle_def tty_do_read_def tty_do_write_def tty_answer_def tty_send_def Let_def res_simps
      split: if_splits simp del: tty_write_chunks.simps)

section \<open>The transfer\<close>

text \<open>
  The loop over the chunks; \<open>left\<close> and \<open>rw\<close> are \<^verbatim>\<open>bytes_left\<close> and \<^verbatim>\<open>bytes_rw\<close>. A chunk is at least one
  sector whenever the loop is entered.
\<close>

function rdwt_loop :: "bool \<Rightarrow> nat \<Rightarrow> u32 \<Rightarrow> nat \<Rightarrow> int \<Rightarrow> int \<Rightarrow> int \<Rightarrow> int \<Rightarrow> int \<Rightarrow> int \<Rightarrow> int \<Rightarrow> fs \<Rightarrow> (int \<times> fs) res" where
  "rdwt_loop reading src buf_addr d dev chunk sect_max i off rw left s =
     (if i \<le> sect_max then
        if chunk \<le> 0 then Inl Spins
        else
          let bytes = min left (chunk * int SECTOR_SIZE - off) in
          res_bind (rw_sector DEV_READ dev (i * int SECTOR_SIZE) (chunk * int SECTOR_SIZE) TASK_FS fsbuf s) (\<lambda>s1.
          res_bind (va2la s1 src (buf_addr + word_of_int rw)) (\<lambda>ua.
          res_bind (va2la s1 TASK_FS (fsbuf + word_of_int off)) (\<lambda>fa.
          if bytes < 0 then Inl (BadAccess ''phys_copy: negative size'')
          else
            res_bind
              (if reading then Inr (s1\<lparr>mem := phys_copy (mem s1) ua fa (nat bytes)\<rparr>)
               else rw_sector DEV_WRITE dev (i * int SECTOR_SIZE) (chunk * int SECTOR_SIZE) TASK_FS fsbuf
                      (s1\<lparr>mem := phys_copy (mem s1) fa ua (nat bytes)\<rparr>)) (\<lambda>s2.
            rdwt_loop reading src buf_addr d dev chunk sect_max (i + chunk) 0 (rw + bytes) (left - bytes)
              (upd_desc s2 d (\<lambda>f. f\<lparr>fd_pos := fd_pos f + bytes\<rparr>))))))
      else Inr (rw, s))"
  by pat_completeness auto
termination
  by (relation "measure (\<lambda>(reading, src, buf_addr, d, dev, chunk, sect_max, i, off, rw, left, s). nat (sect_max - i + 1))") auto

declare rdwt_loop.simps [simp del]

text \<open>
  The end of the range, with the unsigned comparison of the macro \<^verbatim>\<open>min\<close>, and the sectors of a
  position, computed in the unsigned arithmetic of \<^verbatim>\<open>i_start_sect\<close>.
\<close>

definition pos_end :: "bool \<Rightarrow> int \<Rightarrow> int \<Rightarrow> inode \<Rightarrow> int" where
  "pos_end reading pos len n =
     sint (min (word_of_int (pos + len)) (if reading then i_size n else i_nr_sects n * of_nat SECTOR_SIZE) :: u32)"

definition file_sect :: "inode \<Rightarrow> int \<Rightarrow> int" where
  "file_sect n pos = sint (i_start_sect n + word_of_int (drop_bit SECTOR_SIZE_SHIFT pos))"

text \<open>The position is compared with the size as unsigned numbers.\<close>

definition update_size :: "nat \<Rightarrow> nat \<Rightarrow> fs \<Rightarrow> fs res" where
  "update_size d pin s =
     (let pos = word_of_int (fd_pos (f_desc_table s ! d)) in
      if pos > i_size (inode_of s pin) then sync_inode pin (upd_inode s pin (\<lambda>n. n\<lparr>i_size := pos\<rparr>)) else Inr s)"

definition rdwt_file :: "bool \<Rightarrow> nat \<Rightarrow> u32 \<Rightarrow> int \<Rightarrow> nat \<Rightarrow> nat \<Rightarrow> fs \<Rightarrow> (int \<times> fs) res" where
  "rdwt_file reading src buf_addr len d pin s =
     (let n = inode_of s pin; pos = fd_pos (f_desc_table s ! d);
          sect_min = file_sect n pos; sect_max = file_sect n (pos_end reading pos len n);
          chunk = min (sect_max - sect_min + 1) (drop_bit SECTOR_SIZE_SHIFT FSBUF_SIZE) in
      res_bind (rdwt_loop reading src buf_addr d (i_dev n) chunk sect_max sect_min (pos smod int SECTOR_SIZE) 0 len s) (\<lambda>(bytes_rw, s1).
      res_bind (update_size d pin s1) (\<lambda>s2. Inr (bytes_rw, s2))))"

definition rdwt_tty :: "nat \<Rightarrow> fs \<Rightarrow> (int \<times> fs) res" where
  "rdwt_tty pin s =
     (let m = fs_msg s; dev = sint (i_start_sect (inode_of s pin));
          m1 = m\<lparr>msg_type := if msg_type m = READ then DEV_READ else DEV_WRITE\<rparr> in
      kassert (MAJOR dev = 4) ''do_rdwt: MAJOR'' (
      let m2 = m1\<lparr>m3i4 := MINOR dev, m3i3 := msg_source m\<rparr> in
      res_bind (driver_of dev) (\<lambda>drv.
      let s1 = s\<lparr>fs_msg := tty_answer m2, fs_sent := fs_sent s @ [ToDriver drv m2]\<rparr> in
      kassert (m3i2 (fs_msg s1) = m3i2 m) ''do_rdwt: CNT'' (Inr (m3i2 (fs_msg s1), s1)))))"

definition do_rdwt :: "fs \<Rightarrow> (int \<times> fs) res" where
  "do_rdwt s =
     (let m = fs_msg s; fd = m3i1 m in
      if fd < 0 \<or> fd \<ge> int NR_FILES then Inl (BadAccess ''filp'')
      else
        res_bind (of_option (AssertionFailure ''do_rdwt: filp'') (filp (proc_of s (pcaller s)) ! nat fd)) (\<lambda>d.
        kassert (d < NR_FILE_DESC) ''do_rdwt: filp'' (
        if word_of_int (fd_mode (f_desc_table s ! d)) AND O_RDWR = 0 then Inr (-1, s)
        else
          res_bind (of_option (AssertionFailure ''do_rdwt: pin'') (fd_inode (f_desc_table s ! d))) (\<lambda>pin.
          kassert (pin < NR_INODE) ''do_rdwt: pin'' (
          if i_mode (inode_of s pin) AND I_TYPE_MASK = I_CHAR_SPECIAL then rdwt_tty pin s
          else
            kassert (i_mode (inode_of s pin) = I_REGULAR \<or> i_mode (inode_of s pin) = I_DIRECTORY) ''do_rdwt: i_mode'' (
            kassert (msg_type m = READ \<or> msg_type m = WRITE) ''do_rdwt: type'' (
            if \<not> valid_proc_nr (msg_source m) then Inl (BadAccess ''va2la: proc_table'')
            else rdwt_file (msg_type m = READ) (nat (msg_source m)) (m3p2 m) (m3i2 m) d pin s)))))))"

section \<open>Chunks in the buffer\<close>

definition load_chunk :: "int \<Rightarrow> nat \<Rightarrow> nat \<Rightarrow> fs \<Rightarrow> fs" where
  "load_chunk dev q c s = s\<lparr>mem := write_bytes (mem s) fsbuf (map (disk s dev) [q * 512..<q * 512 + c * 512])\<rparr>"

definition store_chunk :: "int \<Rightarrow> nat \<Rightarrow> nat \<Rightarrow> fs \<Rightarrow> fs" where
  "store_chunk dev q c s =
     s\<lparr>disk := (disk s)(dev := (\<lambda>i. if q * 512 \<le> i \<and> i < q * 512 + c * 512 then fb s (i - q * 512) else disk s dev i))\<rparr>"

lemma chunk_range:
  assumes "q < 2 ^ 22"
  shows "0 \<le> int q * 512" "int q * 512 < 2 ^ 31" "nat (int q * 512) = q * 512" "nat (int c * 512) = c * 512"
  using assms by (simp_all add: nat_mult_distrib)

lemma rw_sector_read:
  assumes "fs_flat s" and "MAJOR dev = 3" and "q < 2 ^ 22" and "c \<le> 256"
  shows "rw_sector DEV_READ dev (int q * 512) (int c * 512) TASK_FS fsbuf s = Inr (load_chunk dev q c s)"
  using assms chunk_range [OF assms(3)] by (simp add: rw_sector_def driver_of_hd fs_flat_def load_chunk_def Let_def)

lemma rw_sector_write:
  assumes "fs_flat s" and "MAJOR dev = 3" and "q < 2 ^ 22" and "c \<le> 256"
  shows "rw_sector DEV_WRITE dev (int q * 512) (int c * 512) TASK_FS fsbuf s = Inr (store_chunk dev q c s)"
  using assms chunk_range [OF assms(3)] by (simp add: rw_sector_def driver_of_hd fs_flat_def store_chunk_def fb_def Let_def cong: if_cong)

lemma fb_load_chunk: "l < c * 512 \<Longrightarrow> c \<le> 256 \<Longrightarrow> fb (load_chunk dev q c s) l = disk s dev (q * 512 + l)"
  using write_bytes_inside [of "map (disk s dev) [q * 512..<q * 512 + c * 512]" l "mem s" fsbuf]
  by (simp add: fb_def load_chunk_def)

lemma load_chunk_outside: "c \<le> 256 \<Longrightarrow> x \<notin> block_addrs fsbuf (2 ^ 20) \<Longrightarrow> mem (load_chunk dev q c s) x = mem s x"
  using block_addrs_mono [of "c * 512" "2 ^ 20" fsbuf] by (auto simp: load_chunk_def intro!: write_bytes_outside)

lemma fs_flat_chunk [simp]: "fs_flat (load_chunk dev q c s) = fs_flat s" "fs_flat (store_chunk dev q c s) = fs_flat s"
  by (rule fs_flat_cong; simp add: load_chunk_def store_chunk_def)+

text \<open>The sectors of a range that lies in the file and fits the buffer.\<close>

definition span :: "nat \<Rightarrow> nat \<Rightarrow> nat" where
  "span pos len = (pos + len) div 512 - pos div 512 + 1"

lemma span_covers: "pos mod 512 + len < span pos len * 512"
proof -
  have "pos div 512 \<le> (pos + len) div 512" by (simp add: div_le_mono)
  then have "span pos len * 512 = ((pos + len) div 512 + 1) * 512 - pos div 512 * 512" by (simp add: span_def algebra_simps)
  moreover have "pos + len < ((pos + len) div 512 + 1) * 512" using dividend_less_div_times [of 512 "pos + len"] by (simp add: algebra_simps)
  moreover have "pos div 512 * 512 + pos mod 512 = pos" by simp
  ultimately show ?thesis by linarith
qed

lemma file_sect_eq:
  assumes "unat (i_start_sect n) + p div 512 < 2 ^ 31"
  shows "file_sect n (int p) = int (unat (i_start_sect n) + p div 512)"
proof -
  have "drop_bit 9 (int p) = int (p div 512)" by (simp add: drop_bit_eq_div zdiv_int)
  then show ?thesis using sint_sum [of "p div 512" "i_start_sect n"] assms by (simp add: file_sect_def add.commute)
qed

lemma rdwt_loop_end: "i > sect_max \<Longrightarrow> rdwt_loop reading src b d dev chunk sect_max i off rw left s = Inr (rw, s)"
  by (subst rdwt_loop.simps) simp

lemma va2la_same: "proc_table t = proc_table s \<Longrightarrow> va2la t i a = va2la s i a"
  by (simp add: va2la_def ldt_seg_linear_def)

lemma rdwt_read_once:
  assumes "fs_flat s" and "MAJOR dev = 3" and "q < 2 ^ 22" and "1 \<le> c" and "k + l \<le> c * 512" and "va2la s src b = Inr ua" and "c \<le> 256"
  shows "rdwt_loop True src b d dev (int c) (int q + int c - 1) (int q) (int k) 0 (int l) s
    = Inr (int l, upd_desc ((load_chunk dev q c s)\<lparr>mem := memcpy (mem (load_chunk dev q c s)) ua (fsbuf + of_nat k) l\<rparr>) d (\<lambda>f. f\<lparr>fd_pos := fd_pos f + int l\<rparr>))"
proof -
  let ?s1 = "load_chunk dev q c s"
  have "va2la ?s1 src b = Inr ua" using va2la_same [of ?s1 s src b] assms(6) by (simp add: load_chunk_def)
  moreover have "va2la ?s1 3 a = Inr a" for a using assms(1) fs_flat_chunk(1) [of dev q c s] by (simp add: fs_flat_def)
  moreover have "min (int l) (int c * 512 - int k) = int l" using assms(5) by (simp add: min_def)
  ultimately show ?thesis
    using assms(4) rw_sector_read [OF assms(1-3,7)] by (subst rdwt_loop.simps) (simp add: rdwt_loop_end phys_copy_def Let_def)
qed

lemma rdwt_write_once:
  assumes "fs_flat s" and "MAJOR dev = 3" and "q < 2 ^ 22" and "1 \<le> c" and "k + l \<le> c * 512" and "va2la s src b = Inr ua" and "c \<le> 256"
  shows "rdwt_loop False src b d dev (int c) (int q + int c - 1) (int q) (int k) 0 (int l) s
    = Inr (int l, upd_desc (store_chunk dev q c ((load_chunk dev q c s)\<lparr>mem := memcpy (mem (load_chunk dev q c s)) (fsbuf + of_nat k) ua l\<rparr>)) d
        (\<lambda>f. f\<lparr>fd_pos := fd_pos f + int l\<rparr>))"
proof -
  let ?s1 = "load_chunk dev q c s"
  have "va2la ?s1 src b = Inr ua" using va2la_same [of ?s1 s src b] assms(6) by (simp add: load_chunk_def)
  moreover have "va2la ?s1 3 a = Inr a" for a using assms(1) fs_flat_chunk(1) [of dev q c s] by (simp add: fs_flat_def)
  moreover have "min (int l) (int c * 512 - int k) = int l" using assms(5) by (simp add: min_def)
  moreover have "fs_flat (?s1\<lparr>mem := m\<rparr>)" for m using assms(1) by simp
  ultimately show ?thesis
    using assms(4) rw_sector_read [OF assms(1-3,7)] rw_sector_write [OF _ assms(2,3,7)]
    by (subst rdwt_loop.simps) (simp add: rdwt_loop_end phys_copy_def Let_def)
qed

section \<open>Reading and writing a file\<close>

text \<open>What a transfer never touches: processes, request, super blocks, the root and the messages sent.\<close>

definition kept :: "fs \<Rightarrow> fs \<Rightarrow> bool" where
  "kept s t \<longleftrightarrow> proc_table t = proc_table s \<and> fs_msg t = fs_msg s \<and> pcaller t = pcaller s \<and> sb_table t = sb_table s
     \<and> root_inode t = root_inode s \<and> fs_sent t = fs_sent s"

text \<open>A request of the process \<open>src\<close> for \<open>l\<close> bytes at its buffer \<open>ua\<close>, on an open regular file at position \<open>p\<close>.\<close>

definition file_request_ok :: "fs \<Rightarrow> int \<Rightarrow> nat \<Rightarrow> nat \<Rightarrow> nat \<Rightarrow> nat \<Rightarrow> u32 \<Rightarrow> bool" where
  "file_request_ok s typ d pin p l ua \<longleftrightarrow>
     msg_type (fs_msg s) = typ \<and> valid_proc_nr (msg_source (fs_msg s)) \<and> m3i2 (fs_msg s) = int l
     \<and> 0 \<le> m3i1 (fs_msg s) \<and> m3i1 (fs_msg s) < 64 \<and> filp (proc_of s (pcaller s)) ! nat (m3i1 (fs_msg s)) = Some d
     \<and> d < 64 \<and> d < length (f_desc_table s) \<and> word_of_int (fd_mode (f_desc_table s ! d)) AND O_RDWR \<noteq> 0
     \<and> fd_inode (f_desc_table s ! d) = Some pin \<and> fd_pos (f_desc_table s ! d) = int p
     \<and> pin < 64 \<and> pin < length (inode_table s) \<and> i_mode (inode_of s pin) = I_REGULAR \<and> MAJOR (i_dev (inode_of s pin)) = 3
     \<and> va2la s (nat (msg_source (fs_msg s))) (m3p2 (fs_msg s)) = Inr ua \<and> disjoint_blocks ua l fsbuf (2 ^ 20)"

lemma do_rdwt_file:
  assumes "file_request_ok s typ d pin p l ua" and "typ = READ \<or> typ = WRITE"
  shows "do_rdwt s = rdwt_file (typ = READ) (nat (msg_source (fs_msg s))) (m3p2 (fs_msg s)) (int l) d pin s"
proof -
  have "I_REGULAR AND I_TYPE_MASK \<noteq> I_CHAR_SPECIAL" by (simp add: const_simps)
  then show ?thesis using assms by (auto simp: file_request_ok_def do_rdwt_def Let_def)
qed

lemma u32_of_nat_small: "k < 2 ^ 31 \<Longrightarrow> sint (word_of_int (int k) :: u32) = int k \<and> unat (word_of_int (int k) :: u32) = k"
proof -
  assume k: "k < 2 ^ 31"
  then have "int k < 2 ^ 31" by (simp only: of_nat_less_numeral_power_cancel_iff)
  then have "sint (word_of_int (int k) :: u32) = int k" by (intro sint_of_int) linarith+
  moreover have "unat (word_of_int (int k) :: u32) = k" using k by (simp add: unat_of_nat)
  ultimately show ?thesis by simp
qed

text \<open>\<open>e\<close> is the end of the range; the sectors from the one of \<open>p\<close> to the one of \<open>e\<close> are moved in one chunk.\<close>

lemma rdwt_file_once:
  assumes "file_request_ok s typ d pin p l ua" and "fs_flat s"
    and "pos_end (typ = READ) (int p) (int l) (inode_of s pin) = int e" and "p div 512 \<le> e div 512"
    and "c = e div 512 - p div 512 + 1" and "c \<le> 256" and "unat (i_start_sect (inode_of s pin)) + e div 512 < 2 ^ 22"
    and "p mod 512 + l \<le> c * 512" and "q = unat (i_start_sect (inode_of s pin)) + p div 512"
  shows "rdwt_file (typ = READ) (nat (msg_source (fs_msg s))) (m3p2 (fs_msg s)) (int l) d pin s
    = (let dev = i_dev (inode_of s pin); s1 = load_chunk dev q c s; fa = fsbuf + of_nat (p mod 512);
           s2 = (if typ = READ then s1\<lparr>mem := memcpy (mem s1) ua fa l\<rparr> else store_chunk dev q c (s1\<lparr>mem := memcpy (mem s1) fa ua l\<rparr>)) in
       res_bind (update_size d pin (upd_desc s2 d (\<lambda>f. f\<lparr>fd_pos := fd_pos f + int l\<rparr>))) (\<lambda>t. Inr (int l, t)))"
proof -
  let ?n = "inode_of s pin"
  note R = assms(1) [unfolded file_request_ok_def]
  have start: "unat (i_start_sect ?n) + e div 512 < 2 ^ 31" using assms(7) by (rule less_trans) simp
  have smin: "file_sect ?n (int p) = int q" using file_sect_eq [of ?n p] assms(4,9) start by simp
  have "file_sect ?n (int e) = int (unat (i_start_sect ?n) + e div 512)" using file_sect_eq [OF start] .
  also have "\<dots> = int q + int c - 1" using assms(4,5,9) by simp
  finally have smax: "file_sect ?n (int e) = int q + int c - 1" .
  have off: "int p smod 512 = int (p mod 512)" by (cases "p = 0") (simp_all add: signed_modulo_int_def signed_divide_int_def zmod_int)
  have "drop_bit 9 (0x100000 :: int) = 2048" by (simp add: drop_bit_eq_div)
  then have chunk: "min (int q + int c - 1 - int q + 1) (drop_bit 9 0x100000) = int c" using assms(6) by simp
  have q: "q < 2 ^ 22" "1 \<le> c" using assms(4,5,7,9) by linarith+
  have dev: "MAJOR (i_dev ?n) = 3" and va: "va2la s (nat (msg_source (fs_msg s))) (m3p2 (fs_msg s)) = Inr ua" and pos: "fd_pos (f_desc_table s ! d) = int p"
    using R by simp_all
  note once = rdwt_read_once [OF assms(2) dev q assms(8) va assms(6), of d] rdwt_write_once [OF assms(2) dev q assms(8) va assms(6), of d]
  show ?thesis
    using assms(3) smin smax off chunk pos once by (simp add: rdwt_file_def Let_def)
qed

lemma size_fits: "a + k div 512 < 2 ^ 22 \<Longrightarrow> k < 2 ^ 31" for a k :: nat
proof -
  assume "a + k div 512 < 2 ^ 22"
  then have "k div 512 < 2 ^ 22" by simp
  then show "k < 2 ^ 31" by (simp add: div_less_iff_less_mult)
qed

lemma pos_end_eq:
  assumes "p + l < 2 ^ 31" and "unat w < 2 ^ 31" and "w = (if reading then i_size n else i_nr_sects n * 512)"
  shows "pos_end reading (int p) (int l) n = int (min (p + l) (unat w))"
proof -
  note pl = u32_of_nat_small [OF assms(1)]
  have "sint w = int (unat w)" using sint_u32_small [OF assms(2)] .
  moreover have "(word_of_int (int (p + l)) \<le> w) = (p + l \<le> unat w)" using pl by (simp add: word_le_nat_alt)
  ultimately have "sint (min (word_of_int (int (p + l))) w) = int (min (p + l) (unat w))"
    using pl by (cases "p + l \<le> unat w") (simp_all add: min_def)
  then show ?thesis using assms(3) by (cases reading) (simp_all add: pos_end_def)
qed

lemma update_size_ok:
  assumes "fs_flat t" and "pin < length (inode_table t)" and "fd_pos (f_desc_table t ! d) = int m" and "m < 2 ^ 31"
    and "MAJOR (i_dev (inode_of t pin)) = 3" and "get_super_block (i_dev (inode_of t pin)) t = Inr sb"
    and "i_num (inode_of t pin) = int k + 1" and "inodes_fit sb k"
  shows "\<exists>t' w. update_size d pin t = Inr t' \<and> buffered (upd_inode t pin (\<lambda>n. n\<lparr>i_size := w\<rparr>)) t' \<and> unat w = max (unat (i_size (inode_of t pin))) m
    \<and> (\<forall>e x. \<not> (e = i_dev (inode_of t pin) \<and> inode_off sb k \<le> x \<and> x < inode_off sb k + 16) \<longrightarrow> disk t' e x = disk t e x)
    \<and> (disk_inode t' (i_dev (inode_of t pin)) sb k = inode_bytes ((inode_of t pin)\<lparr>i_size := w\<rparr>) \<or> w = i_size (inode_of t pin) \<and> disk t' = disk t)"
proof (cases "m > unat (i_size (inode_of t pin))")
  case True
  let ?w = "word_of_int (int m) :: u32"
  let ?u = "upd_inode t pin (\<lambda>n. n\<lparr>i_size := ?w\<rparr>)"
  have w: "unat ?w = m" using u32_of_nat_small [OF assms(4)] by simp
  then have big: "?w > i_size (inode_of t pin)" using True by (simp add: word_less_nat_alt)
  have u: "inode_of ?u pin = (inode_of t pin)\<lparr>i_size := ?w\<rparr>" "fs_flat ?u" "disk ?u = disk t" using assms(1,2) by (simp_all add: upd_inode_def)
  have "get_super_block (i_dev (inode_of t pin)) ?u = Inr sb" using assms(6) get_super_block_cong [of ?u t] by (simp add: upd_inode_def)
  then obtain t' where "sync_inode pin ?u = Inr t'" "buffered ?u t'"
    "\<forall>e x. \<not> (e = i_dev (inode_of t pin) \<and> inode_off sb k \<le> x \<and> x < inode_off sb k + 16) \<longrightarrow> disk t' e x = disk t e x"
    "disk_inode t' (i_dev (inode_of t pin)) sb k = inode_bytes ((inode_of t pin)\<lparr>i_size := ?w\<rparr>)"
    using sync_inode_ok [OF u(2), of pin sb k] assms(5,7,8) u by auto
  then show ?thesis using big w True assms(3) by (auto simp: update_size_def Let_def intro!: exI [of _ t'] exI [of _ ?w])
next
  case False
  have "unat (word_of_int (int m) :: u32) = m" using u32_of_nat_small [OF assms(4)] by simp
  then have "\<not> word_of_int (int m) > i_size (inode_of t pin)" using False by (simp add: word_less_nat_alt)
  then have "update_size d pin t = Inr t" using assms(3) by (simp add: update_size_def)
  moreover have "upd_inode t pin (\<lambda>n. n\<lparr>i_size := i_size (inode_of t pin)\<rparr>) = t" by (simp add: upd_inode_def)
  ultimately show ?thesis using False by (intro exI [of _ t] exI [of _ "i_size (inode_of t pin)"]) auto
qed

text \<open>The bytes of the chunk that are copied to the caller.\<close>

lemma chunk_to_user:
  fixes s dev q c k l ua
  defines "s1 \<equiv> load_chunk dev q c s"
  assumes "c \<le> 256" and "k + l \<le> c * 512" and "disjoint_blocks ua l fsbuf (2 ^ 20)"
  shows "read_bytes (memcpy (mem s1) ua (fsbuf + of_nat k) l) ua l = map (disk s dev) [q * 512 + k..<q * 512 + k + l]"
    and "x \<notin> block_addrs ua l \<Longrightarrow> x \<notin> block_addrs fsbuf (2 ^ 20) \<Longrightarrow> memcpy (mem s1) ua (fsbuf + of_nat k) l x = mem s x"
proof -
  have "block_addrs (fsbuf + of_nat k) l \<subseteq> block_addrs fsbuf (2 ^ 20)" using assms(2,3) by (intro block_addrs_sub) simp
  then have dj: "disjoint_blocks ua l (fsbuf + of_nat k) l" using assms(4) by (auto simp: disjoint_blocks_def)
  have "read_bytes (memcpy (mem s1) ua (fsbuf + of_nat k) l) ua l = read_bytes (mem s1) (fsbuf + of_nat k) l"
    using dj assms(2,3) by (intro read_bytes_memcpy) simp_all
  also have "\<dots> = map (disk s dev) [q * 512 + k..<q * 512 + k + l]"
    using assms(2,3) by (intro nth_equalityI) (simp_all add: read_bytes_fb s1_def fb_load_chunk add.assoc)
  finally show "read_bytes (memcpy (mem s1) ua (fsbuf + of_nat k) l) ua l = map (disk s dev) [q * 512 + k..<q * 512 + k + l]" .
  show "memcpy (mem s1) ua (fsbuf + of_nat k) l x = mem s x" if "x \<notin> block_addrs ua l" "x \<notin> block_addrs fsbuf (2 ^ 20)"
    using that load_chunk_outside [OF assms(2)] by (simp add: memcpy_outside s1_def)
qed

lemma file_at: "(a + p div 512) * 512 + p mod 512 = a * 512 + p" for a p :: nat
  by (simp add: add_mult_distrib)

text \<open>
  Reading inside a file. A READ request for \<open>l\<close> bytes that lie inside the file and span at most 256 sectors returns \<open>l\<close>; the caller's buffer
  holds exactly the bytes of the file at the position of the descriptor, which advances by \<open>l\<close>; the disk, the i-node and all memory but the
  caller's buffer and the buffer of FS are unchanged.
\<close>

lemma read_file_ok:
  assumes "kinv s" and "file_request_ok s READ d pin p l ua" and "p + l \<le> unat (i_size (inode_of s pin))"
    and "unat (i_start_sect (inode_of s pin)) + unat (i_size (inode_of s pin)) div 512 < 2 ^ 22" and "span p l \<le> 256"
  shows "\<exists>s'. do_rdwt s = Inr (int l, s')
    \<and> read_bytes (mem s') ua l = map (disk s (i_dev (inode_of s pin))) [unat (i_start_sect (inode_of s pin)) * 512 + p..<unat (i_start_sect (inode_of s pin)) * 512 + p + l]
    \<and> f_desc_table s' = (f_desc_table s)[d := (f_desc_table s ! d)\<lparr>fd_pos := int (p + l)\<rparr>]
    \<and> disk s' = disk s \<and> inode_table s' = inode_table s \<and> kept s s'
    \<and> (\<forall>x. x \<notin> block_addrs ua l \<and> x \<notin> block_addrs fsbuf (2 ^ 20) \<longrightarrow> mem s' x = mem s x)"
proof -
  let ?n = "inode_of s pin" and ?q = "unat (i_start_sect (inode_of s pin)) + p div 512"
  let ?s1 = "load_chunk (i_dev ?n) ?q (span p l) s"
  let ?s2 = "?s1\<lparr>mem := memcpy (mem ?s1) ua (fsbuf + of_nat (p mod 512)) l\<rparr>"
  let ?s3 = "upd_desc ?s2 d (\<lambda>f. f\<lparr>fd_pos := fd_pos f + int l\<rparr>)"
  note R = assms(2) [unfolded file_request_ok_def]
  have size: "unat (i_size ?n) < 2 ^ 31" using size_fits [OF assms(4)] .
  then have pl: "p + l < 2 ^ 31" using assms(3) by linarith
  have pe: "pos_end (READ = READ) (int p) (int l) ?n = int (p + l)" using pos_end_eq [OF pl size] assms(3) by simp
  have "(p + l) div 512 \<le> unat (i_size ?n) div 512" using assms(3) by (rule div_le_mono)
  then have fit: "unat (i_start_sect ?n) + (p + l) div 512 < 2 ^ 22" using assms(4) by linarith
  have "p div 512 \<le> (p + l) div 512" by (simp add: div_le_mono)
  from rdwt_file_once [OF assms(2) fs_flatI [OF assms(1)] pe this span_def [of p l] assms(5) fit less_imp_le [OF span_covers] refl]
  have run: "do_rdwt s = res_bind (update_size d pin ?s3) (\<lambda>t. Inr (int l, t))"
    using do_rdwt_file [OF assms(2)] by (simp add: Let_def)
  have fd: "f_desc_table ?s3 = (f_desc_table s)[d := (f_desc_table s ! d)\<lparr>fd_pos := int (p + l)\<rparr>]"
    using R by (simp add: upd_desc_def load_chunk_def)
  have "\<not> word_of_int (int (p + l)) > i_size ?n" using u32_of_nat_small [OF pl] assms(3) by (simp add: word_less_nat_alt)
  moreover have "fd_pos (f_desc_table ?s3 ! d) = int (p + l)" "inode_table ?s3 = inode_table s"
    using fd R by (simp, simp add: upd_desc_def load_chunk_def)
  ultimately have "update_size d pin ?s3 = Inr ?s3" by (simp add: update_size_def)
  then have "do_rdwt s = Inr (int l, ?s3)" using run by simp
  moreover have "mem ?s3 = memcpy (mem ?s1) ua (fsbuf + of_nat (p mod 512)) l" "disk ?s3 = disk s" "inode_table ?s3 = inode_table s" "kept s ?s3"
    by (simp_all add: upd_desc_def load_chunk_def kept_def)
  moreover note cu = chunk_to_user [where s = s and dev = "i_dev ?n" and q = ?q and ua = ua, OF assms(5) less_imp_le [OF span_covers]]
  moreover have "disjoint_blocks ua l fsbuf (2 ^ 20)" using R by simp
  ultimately show ?thesis using fd cu(1) [unfolded file_at] by (intro exI [of _ ?s3]) simp
qed

text \<open>The bytes of the chunk that come from the caller.\<close>

lemma chunk_from_user:
  fixes s dev q c k l ua
  defines "s1 \<equiv> load_chunk dev q c s"
  defines "s2 \<equiv> s1\<lparr>mem := memcpy (mem s1) (fsbuf + of_nat k) ua l\<rparr>"
  assumes "c \<le> 256" and "k + l \<le> c * 512" and dj: "disjoint_blocks ua l fsbuf (2 ^ 20)"
  shows "disk (store_chunk dev q c s2) e x
    = (if e = dev \<and> q * 512 + k \<le> x \<and> x < q * 512 + k + l then mem s (ua + of_nat (x - (q * 512 + k))) else disk s e x)"
proof -
  have sub: "block_addrs (fsbuf + of_nat k) l \<subseteq> block_addrs fsbuf (2 ^ 20)" using assms(3,4) by (intro block_addrs_sub) simp
  then have dj': "disjoint_blocks (fsbuf + of_nat k) l ua l" using dj by (auto simp: disjoint_blocks_def)
  have fb2: "fb s2 j = (if k \<le> j \<and> j < k + l then mem s (ua + of_nat (j - k)) else disk s dev (q * 512 + j))" if j: "j < c * 512" for j
  proof (cases "k \<le> j \<and> j < k + l")
    case True
    have "fsbuf + of_nat j = fsbuf + of_nat k + of_nat (j - k)" using True by simp
    moreover have "j - k < l" using True by (simp add: less_diff_conv2)
    ultimately have "fb s2 j = mem s1 (ua + of_nat (j - k))"
      using memcpy_inside [OF dj', of "j - k" "mem s1"] True assms(3,4) by (simp add: fb_def s2_def)
    moreover have "ua + of_nat (j - k) \<in> block_addrs ua l" using True by (intro block_addrs_nth) (simp add: less_diff_conv2)
    then have "ua + of_nat (j - k) \<notin> block_addrs fsbuf (2 ^ 20)" using dj unfolding disjoint_blocks_def by blast
    then have "mem s1 (ua + of_nat (j - k)) = mem s (ua + of_nat (j - k))"
      unfolding s1_def by (rule load_chunk_outside [OF assms(3)])
    ultimately show ?thesis using True by simp
  next
    case False
    have "fsbuf + of_nat j \<notin> block_addrs (fsbuf + of_nat k) l"
    proof
      assume "fsbuf + of_nat j \<in> block_addrs (fsbuf + of_nat k) l"
      then obtain i where i: "i < l" "fsbuf + of_nat j = fsbuf + of_nat (k + i)" by (auto simp: block_addrs_def add.assoc)
      then show False using False fsbuf_inj [of j "k + i"] j assms(3,4) by auto
    qed
    then show ?thesis using False fb_load_chunk [OF j assms(3)] by (auto simp: fb_def s2_def s1_def memcpy_outside)
  qed
  have "disk s2 = disk s" by (simp add: s2_def s1_def load_chunk_def)
  then show ?thesis using fb2 [of "x - q * 512"] assms(4) by (auto simp: store_chunk_def)
qed

text \<open>
  Writing inside a file. A WRITE request for \<open>l\<close> bytes that fit the sectors of the file and span at most 256 of them returns \<open>l\<close>;
  on the disk exactly the bytes at the position of the descriptor become the caller's (besides the i-node's own slot), the size becomes the larger of
  the old size and the end of the range, and the position advances by \<open>l\<close>.
\<close>

lemma write_file_ok:
  assumes "kinv s" and "file_request_ok s WRITE d pin p l ua" and "p + l \<le> unat (i_nr_sects (inode_of s pin)) * 512"
    and "unat (i_start_sect (inode_of s pin)) + unat (i_nr_sects (inode_of s pin)) < 2 ^ 22" and "span p l \<le> 256"
    and "get_super_block (i_dev (inode_of s pin)) s = Inr sb" and "i_num (inode_of s pin) = int k + 1" and "inodes_fit sb k"
  shows "\<exists>s'. do_rdwt s = Inr (int l, s')
    \<and> (\<forall>e x. \<not> (e = i_dev (inode_of s pin) \<and> inode_off sb k \<le> x \<and> x < inode_off sb k + 16) \<longrightarrow> disk s' e x =
        (if e = i_dev (inode_of s pin) \<and> unat (i_start_sect (inode_of s pin)) * 512 + p \<le> x \<and> x < unat (i_start_sect (inode_of s pin)) * 512 + p + l
         then mem s (ua + of_nat (x - (unat (i_start_sect (inode_of s pin)) * 512 + p))) else disk s e x))
    \<and> unat (i_size (inode_of s' pin)) = max (unat (i_size (inode_of s pin))) (p + l)
    \<and> inode_table s' = (inode_table s)[pin := (inode_of s pin)\<lparr>i_size := i_size (inode_of s' pin)\<rparr>] \<and> kept s s'
    \<and> f_desc_table s' = (f_desc_table s)[d := (f_desc_table s ! d)\<lparr>fd_pos := int (p + l)\<rparr>]
    \<and> (disk_inode s' (i_dev (inode_of s pin)) sb k = inode_bytes (inode_of s' pin) \<or> i_size (inode_of s' pin) = i_size (inode_of s pin)
        \<and> (\<forall>e x. \<not> (unat (i_start_sect (inode_of s pin)) * 512 + p \<le> x \<and> x < unat (i_start_sect (inode_of s pin)) * 512 + p + l) \<longrightarrow> disk s' e x = disk s e x))
    \<and> (\<forall>x. x \<notin> block_addrs fsbuf (2 ^ 20) \<longrightarrow> mem s' x = mem s x)"
proof -
  let ?n = "inode_of s pin" and ?q = "unat (i_start_sect (inode_of s pin)) + p div 512"
  let ?s1 = "load_chunk (i_dev ?n) ?q (span p l) s"
  let ?s2 = "store_chunk (i_dev ?n) ?q (span p l) (?s1\<lparr>mem := memcpy (mem ?s1) (fsbuf + of_nat (p mod 512)) ua l\<rparr>)"
  let ?s3 = "upd_desc ?s2 d (\<lambda>f. f\<lparr>fd_pos := fd_pos f + int l\<rparr>)"
  note R = assms(2) [unfolded file_request_ok_def]
  have ns: "unat (i_nr_sects ?n * 512) = unat (i_nr_sects ?n) * 512"
    using assms(4) by (simp add: unat_word_ariths)
  have cap: "unat (i_nr_sects ?n * 512) < 2 ^ 31" using assms(4) unfolding ns by simp
  have pl: "p + l < 2 ^ 31" using assms(3) cap unfolding ns by linarith
  have pe: "pos_end (WRITE = READ) (int p) (int l) ?n = int (p + l)" using pos_end_eq [OF pl cap, of False ?n] assms(3) ns by simp
  have "(p + l) div 512 \<le> unat (i_nr_sects ?n)" using div_le_mono [OF assms(3), of 512] by simp
  then have fit: "unat (i_start_sect ?n) + (p + l) div 512 < 2 ^ 22" using assms(4) by linarith
  have "p div 512 \<le> (p + l) div 512" by (simp add: div_le_mono)
  from rdwt_file_once [OF assms(2) fs_flatI [OF assms(1)] pe this span_def [of p l] assms(5) fit less_imp_le [OF span_covers] refl]
  have run: "do_rdwt s = res_bind (update_size d pin ?s3) (\<lambda>t. Inr (int l, t))"
    using do_rdwt_file [OF assms(2)] by (simp add: Let_def)
  have tabs: "inode_table ?s3 = inode_table s" "sb_table ?s3 = sb_table s" "proc_table ?s3 = proc_table s" "disk ?s3 = disk ?s2"
    by (simp_all add: upd_desc_def load_chunk_def store_chunk_def)
  have fd: "f_desc_table ?s3 = (f_desc_table s)[d := (f_desc_table s ! d)\<lparr>fd_pos := int (p + l)\<rparr>]"
    using R by (simp add: upd_desc_def load_chunk_def store_chunk_def)
  have "fs_flat ?s3" using fs_flat_cong [OF tabs(3)] fs_flatI [OF assms(1)] by simp
  moreover have "get_super_block (i_dev ?n) ?s3 = Inr sb" using get_super_block_cong [OF tabs(2)] assms(6) by simp
  moreover have "fd_pos (f_desc_table ?s3 ! d) = int (p + l)" using fd R by simp
  ultimately obtain t' w where t': "update_size d pin ?s3 = Inr t'" "buffered (upd_inode ?s3 pin (\<lambda>n. n\<lparr>i_size := w\<rparr>)) t'"
    "unat w = max (unat (i_size ?n)) (p + l)"
    "\<forall>e x. \<not> (e = i_dev ?n \<and> inode_off sb k \<le> x \<and> x < inode_off sb k + 16) \<longrightarrow> disk t' e x = disk ?s3 e x"
    "disk_inode t' (i_dev ?n) sb k = inode_bytes (?n\<lparr>i_size := w\<rparr>) \<or> w = i_size ?n \<and> disk t' = disk ?s3"
    using update_size_ok [of ?s3 pin d "p + l" sb k] R pl assms(7,8) tabs(1) by (simp only:) blast
  note bf = buffered_fields [OF t'(2)]
  have it: "inode_table t' = (inode_table s)[pin := ?n\<lparr>i_size := w\<rparr>]" "f_desc_table t' = f_desc_table ?s3"
    using bf(2,3) tabs(1) by (simp_all add: upd_inode_def)
  moreover have "inode_of t' pin = ?n\<lparr>i_size := w\<rparr>" using it(1) R by simp
  moreover have "kept s t'" using bf by (simp add: kept_def upd_inode_def upd_desc_def load_chunk_def store_chunk_def)
  moreover have "do_rdwt s = Inr (int l, t')" using run t'(1) by simp
  moreover note cf = chunk_from_user [where s = s and dev = "i_dev ?n" and q = ?q and ua = ua, OF assms(5) less_imp_le [OF span_covers]]
  moreover have "disjoint_blocks ua l fsbuf (2 ^ 20)" using R by simp
  moreover have "mem t' x = mem s x" if "x \<notin> block_addrs fsbuf (2 ^ 20)" for x
  proof -
    have "block_addrs (fsbuf + of_nat (p mod 512)) l \<subseteq> block_addrs fsbuf (2 ^ 20)" "block_addrs fsbuf 512 \<subseteq> block_addrs fsbuf (2 ^ 20)"
      "block_addrs fsbuf (span p l * 512) \<subseteq> block_addrs fsbuf (2 ^ 20)"
      using less_imp_le [OF span_covers, of p l] assms(5) block_addrs_sub [of "p mod 512" l "2 ^ 20" fsbuf] block_addrs_sub [of 0 512 "2 ^ 20" fsbuf]
        block_addrs_sub [of 0 "span p l * 512" "2 ^ 20" fsbuf] by auto
    then have out: "x \<notin> block_addrs (fsbuf + of_nat (p mod 512)) l" "x \<notin> block_addrs fsbuf 512" "x \<notin> block_addrs fsbuf (span p l * 512)" using that by auto
    have "mem t' x = mem ?s3 x" using t'(2) out(2) by (simp add: buffered_def upd_inode_def)
    also have "\<dots> = mem s x" using out(1,3) by (simp add: upd_desc_def store_chunk_def load_chunk_def memcpy_outside write_bytes_outside)
    finally show ?thesis .
  qed
  ultimately show ?thesis using t'(3-5) fd tabs(4) cf [unfolded file_at] by (intro exI [of _ t']) auto
qed

text \<open>
  C38: At the end of the file a read is not cut off. When the last sector of the file holds the range asked for, READ returns all \<open>l\<close> bytes although
  fewer are left, and then takes the position it reached for the new size of the file.
\<close>

theorem read_past_end_grows:
  assumes "kinv s" and "file_request_ok s READ d pin p l ua" and "p \<le> unat (i_size (inode_of s pin))" and "unat (i_size (inode_of s pin)) < p + l"
    and "p mod 512 + l \<le> (unat (i_size (inode_of s pin)) div 512 - p div 512 + 1) * 512"
    and "unat (i_size (inode_of s pin)) div 512 - p div 512 < 256"
    and "unat (i_start_sect (inode_of s pin)) + unat (i_size (inode_of s pin)) div 512 < 2 ^ 21"
    and "get_super_block (i_dev (inode_of s pin)) s = Inr sb" and "i_num (inode_of s pin) = int k + 1" and "inodes_fit sb k"
  shows "\<exists>s'. do_rdwt s = Inr (int l, s') \<and> unat (i_size (inode_of s' pin)) = p + l"
proof -
  let ?n = "inode_of s pin" and ?q = "unat (i_start_sect (inode_of s pin)) + p div 512" and ?c = "unat (i_size (inode_of s pin)) div 512 - p div 512 + 1"
  let ?s1 = "load_chunk (i_dev ?n) ?q ?c s"
  let ?s2 = "?s1\<lparr>mem := memcpy (mem ?s1) ua (fsbuf + of_nat (p mod 512)) l\<rparr>"
  let ?s3 = "upd_desc ?s2 d (\<lambda>f. f\<lparr>fd_pos := fd_pos f + int l\<rparr>)"
  note R = assms(2) [unfolded file_request_ok_def]
  have fit: "unat (i_start_sect ?n) + unat (i_size ?n) div 512 < 2 ^ 22" using assms(7) by (rule less_trans) simp
  have size: "unat (i_size ?n) < 2 ^ 31" using size_fits [OF fit] .
  have pd: "p div 512 \<le> unat (i_size ?n) div 512" using assms(3) by (rule div_le_mono)
  have "unat (i_size ?n) div 512 < 2 ^ 21" using assms(7) by simp
  then have "unat (i_size ?n) < 2 ^ 30" by (simp add: div_less_iff_less_mult)
  moreover have "l \<le> 2048 * 512" using assms(5,6) by (simp add: algebra_simps)
  ultimately have pl: "p + l < 2 ^ 31" using assms(3) by simp
  have pe: "pos_end (READ = READ) (int p) (int l) ?n = int (unat (i_size ?n))" using pos_end_eq [OF pl size] assms(4) by simp
  have c: "?c \<le> 256" using assms(6) by simp
  from rdwt_file_once [OF assms(2) fs_flatI [OF assms(1)] pe pd refl c fit assms(5) refl]
  have run: "do_rdwt s = res_bind (update_size d pin ?s3) (\<lambda>t. Inr (int l, t))"
    using do_rdwt_file [OF assms(2)] by (simp add: Let_def)
  have tabs: "inode_table ?s3 = inode_table s" "sb_table ?s3 = sb_table s" "proc_table ?s3 = proc_table s"
    by (simp_all add: upd_desc_def load_chunk_def)
  have "fs_flat ?s3" using fs_flat_cong [OF tabs(3)] fs_flatI [OF assms(1)] by simp
  moreover have "get_super_block (i_dev ?n) ?s3 = Inr sb" using get_super_block_cong [OF tabs(2)] assms(8) by simp
  moreover have "fd_pos (f_desc_table ?s3 ! d) = int (p + l)" using R by (simp add: upd_desc_def load_chunk_def)
  ultimately obtain t' w where t': "update_size d pin ?s3 = Inr t'" "buffered (upd_inode ?s3 pin (\<lambda>n. n\<lparr>i_size := w\<rparr>)) t'"
    "unat w = max (unat (i_size ?n)) (p + l)"
    using update_size_ok [of ?s3 pin d "p + l" sb k] R pl assms(9,10) tabs(1) by (simp only:) blast
  have "inode_of t' pin = ?n\<lparr>i_size := w\<rparr>" using buffered_fields(2) [OF t'(2)] tabs(1) R by (simp add: upd_inode_def)
  then show ?thesis using run t'(1,3) assms(4) by simp
qed

section \<open>Instances\<close>

lemma kinv_filp:
  fixes s :: "'a kernel_scheme"
  assumes "kinv s"
  shows "kinv (upd_proc s p (\<lambda>q. q\<lparr>filp := ys\<rparr>))"
proof (rule kinv_cong [OF assms])
  show "ipc_inv (proc_table (upd_proc s p (\<lambda>q. q\<lparr>filp := ys\<rparr>)))"
  proof (rule ipc_inv_cong [OF _ _ kinvD(1) [OF assms]])
    show "same_ipc (proc_of s i) (proc_of (upd_proc s p (\<lambda>q. q\<lparr>filp := ys\<rparr>)) i)" if "i < length (proc_table s)" for i
      using that by (cases "i = p") (simp_all add: upd_proc_def same_ipc_def)
  qed (simp add: upd_proc_def)
  show "ldts (proc_of (upd_proc s p (\<lambda>q. q\<lparr>filp := ys\<rparr>)) i) = ldts (proc_of s i)" if "i < NR_TASKS + NR_NATIVE_PROCS" for i
    using that kinvD(2) [OF assms] by (cases "i = p") (simp_all add: upd_proc_def)
qed

text \<open>A file of 100 bytes in sector 300, open in process 6 by 64 descriptors, and a request for \<open>l\<close> bytes at position \<open>p\<close>.\<close>

definition rdwt_demo :: "int \<Rightarrow> int \<Rightarrow> int \<Rightarrow> fs" where
  "rdwt_demo typ p l =
     (upd_proc fs_demo 6 (\<lambda>q. q\<lparr>filp := map Some [0..<64]\<rparr>))
       \<lparr>f_desc_table := replicate 64 \<lparr>fd_mode = 2, fd_pos = p, fd_cnt = 1, fd_inode = Some 1\<rparr>,
        inode_table := demo_root # replicate 63 \<lparr>i_mode = I_REGULAR, i_size = 100, i_start_sect = 300, i_nr_sects = 2048, i_dev = ROOT_DEV, i_cnt = 1, i_num = 6\<rparr>,
        fs_msg := \<lparr>msg_source = 6, msg_type = typ, m3i1 = 0, m3i2 = l, m3i3 = 0, m3i4 = 0, m3l1 = 0, m3l2 = 0, m3p1 = 0, m3p2 = 0x20000\<rparr>\<rparr>"

lemma rdwt_demo_kinv: "kinv (rdwt_demo typ p l)"
  using kinv_filp [OF fs_demo_kinv, of 6 "map Some [0..<64]"] by (simp add: rdwt_demo_def kinv_def seg_base_def)

lemma rdwt_demo_inode:
  "inode_of (rdwt_demo typ p l) 1 = \<lparr>i_mode = I_REGULAR, i_size = 100, i_start_sect = 300, i_nr_sects = 2048, i_dev = ROOT_DEV, i_cnt = 1, i_num = 6\<rparr>"
  by (simp add: rdwt_demo_def)

lemma rdwt_demo_sb: "get_super_block ROOT_DEV (rdwt_demo typ p l) = Inr demo_sb" "inodes_fit demo_sb 5"
  using get_super_block_cong [of "rdwt_demo typ p l" fs_demo ROOT_DEV] by (simp_all add: rdwt_demo_def upd_proc_def inodes_fit_def demo_sb_def)

lemma rdwt_demo_filp: "filp (proc_of (rdwt_demo typ p l) 6) = map Some [0..<64]"
  using booted_fresh(4) by (simp add: rdwt_demo_def upd_proc_def)

lemma rdwt_demo_ok:
  assumes "l \<le> 1000"
  shows "file_request_ok (rdwt_demo typ (int p) (int l)) typ 0 1 p l 0x20000"
proof -
  have "disjoint_blocks 0x20000 l fsbuf (2 ^ 20)" using assms by (intro range_disjoint) (simp_all add: fsbuf_def)
  moreover have "va2la (rdwt_demo typ (int p) (int l)) 6 0x20000 = Inr 0x20000"
    using rdwt_demo_kinv by (simp add: va2la_linear linear_def) (simp add: kinv_def)
  moreover note rdwt_demo_filp
  ultimately show ?thesis
    by (simp add: file_request_ok_def rdwt_demo_inode valid_proc_nr_def) (simp add: rdwt_demo_def upd_proc_def O_RDWR_def)
qed

theorem read_past_end_grows_witness: "\<exists>s'. do_rdwt (rdwt_demo READ 90 50) = Inr (50, s') \<and> unat (i_size (inode_of s' 1)) = 140"
  using read_past_end_grows [OF rdwt_demo_kinv rdwt_demo_ok [of 50 READ 90], of demo_sb 5] rdwt_demo_sb
  by (simp add: rdwt_demo_inode rdwt_demo_inode [unfolded One_nat_def])

end
