(* ===== verification/Fs_Unlink.thy ===== *)
theory Fs_Unlink
  imports Fs_Open
begin

text \<open>
  Removing a file (\<^verbatim>\<open>do_unlink\<close> of \<^verbatim>\<open>fs/link.c\<close>): its bit in the i-node map, its bits in the sector
  map, its i-node and its directory entry are cleared in turn.
\<close>

section \<open>The maps\<close>

definition free_imap_bit :: "int \<Rightarrow> int \<Rightarrow> fs \<Rightarrow> fs res" where
  "free_imap_bit dev inode_nr s =
     (if inode_nr < 0 then Inl (BadAccess ''do_unlink: fsbuf'')
      else
        let byte_idx = nat inode_nr div 8; bit_idx = nat inode_nr mod 8 in
        kassert (byte_idx < SECTOR_SIZE) ''do_unlink: byte_idx'' (
        res_bind (RD_SECT dev 2 s) (\<lambda>s1.
        kassert (bit (fb s1 byte_idx) bit_idx) ''do_unlink: i-map'' (
        WR_SECT dev 2 (set_fb byte_idx (fb s1 byte_idx AND NOT (push_bit bit_idx 1)) s1)))))"

text \<open>The first byte, from bit \<open>i\<close>; the bytes between, with a change of sector where one ends; and the last byte.\<close>

function clear_first :: "nat \<Rightarrow> nat \<Rightarrow> int \<Rightarrow> fs \<Rightarrow> (int \<times> fs) res" where
  "clear_first j i bits_left s =
     (if i < 8 \<and> bits_left \<noteq> 0 then
        kassert (bit (fb s j) i) ''do_unlink: first byte'' (
        clear_first j (i + 1) (bits_left - 1) (set_fb j (fb s j AND NOT (push_bit i 1)) s))
      else Inr (bits_left, s))"
  by pat_completeness auto
termination by (relation "measure (\<lambda>(j, i, b, s). 8 - i)") auto

declare clear_first.simps [simp del]

definition next_sector :: "int \<Rightarrow> nat \<times> int \<Rightarrow> fs \<Rightarrow> ((nat \<times> int) \<times> fs) res" where
  "next_sector dev p s =
     (case p of (i, sect) \<Rightarrow>
        if i = SECTOR_SIZE then
          res_bind (WR_SECT dev sect s) (\<lambda>s1.
          res_bind (RD_SECT dev (sect + 1) s1) (\<lambda>s2. Inr ((0, sect + 1), s2)))
        else Inr (p, s))"

primrec clear_bytes :: "nat \<Rightarrow> int \<Rightarrow> nat \<times> int \<Rightarrow> fs \<Rightarrow> ((nat \<times> int) \<times> fs) res" where
  "clear_bytes 0 dev p s = Inr (p, s)"
| "clear_bytes (Suc k) dev p s =
     res_bind (next_sector dev p s) (\<lambda>((i, sect), s1).
     kassert (fb s1 i = 0xFF) ''do_unlink: byte in use'' (
     clear_bytes k dev (i + 1, sect) (set_fb i 0 s1)))"

definition clear_last :: "int \<Rightarrow> int \<Rightarrow> nat \<times> int \<Rightarrow> fs \<Rightarrow> fs res" where
  "clear_last dev bits_left p s =
     res_bind (next_sector dev p s) (\<lambda>((i, sect), s1).
     if bits_left < 0 \<or> bits_left \<ge> 32 then Inl (BadAccess ''do_unlink: shift'')
     else
       let msk = NOT (push_bit (nat bits_left) (NOT 0)) :: u8 in
       kassert (fb s1 i AND msk = msk) ''do_unlink: last byte'' (
       WR_SECT dev sect (set_fb i (fb s1 i AND push_bit (nat bits_left) (NOT 0)) s1)))"

definition free_smap_bits :: "super_block \<Rightarrow> inode \<Rightarrow> fs \<Rightarrow> fs res" where
  "free_smap_bits sb n s =
     (let bit_idx = sint (i_start_sect n - n_1st_sect sb + 1);
          bits_left = sint (i_nr_sects n);
          byte_idx = bit_idx div 8;
          byte_cnt = (bits_left - (8 - bit_idx mod 8)) sdiv 8;
          sect = sint (2 + nr_imap_sects sb + word_of_int (byte_idx div int SECTOR_SIZE));
          j = nat (byte_idx mod int SECTOR_SIZE) in
      if bit_idx < 0 then Inl (BadAccess ''do_unlink: fsbuf'')
      else
        res_bind (RD_SECT (i_dev n) sect s) (\<lambda>s1.
        res_bind (clear_first j (nat (bit_idx mod 8)) bits_left s1) (\<lambda>(left, s2).
        res_bind (clear_bytes (nat byte_cnt) (i_dev n) (j + 1, sect) s2) (\<lambda>(p, s3).
        clear_last (i_dev n) (left - 8 * int (nat byte_cnt)) p s3))))"

section \<open>The directory entry\<close>

text \<open>
  The loops over the directory: whether the entry was found, the count of entries seen and the bytes of
  used entries before it. The entry found is blanked on the disk.
\<close>

function unlink_block :: "int \<Rightarrow> int \<Rightarrow> fs \<Rightarrow> nat \<Rightarrow> int \<Rightarrow> int \<Rightarrow> nat option \<times> int \<times> int" where
  "unlink_block inode_nr nr s j m dir_size =
     (if j < SECTOR_SIZE div DIR_ENTRY_SIZE then
        if m + 1 > nr then (None, m + 1, dir_size)
        else if de_inode_nr s j = inode_nr then (Some j, m + 1, dir_size)
        else unlink_block inode_nr nr s (j + 1) (m + 1) (if de_inode_nr s j \<noteq> INVALID_INODE then dir_size + int DIR_ENTRY_SIZE else dir_size)
      else (None, m, dir_size))"
  by pat_completeness auto
termination by (relation "measure (\<lambda>(inode_nr, nr, s, j, m, ds). SECTOR_SIZE div DIR_ENTRY_SIZE - j)") auto

function unlink_blocks :: "int \<Rightarrow> inode \<Rightarrow> int \<Rightarrow> int \<Rightarrow> int \<Rightarrow> fs \<Rightarrow> (bool \<times> int \<times> int \<times> fs) res" where
  "unlink_blocks inode_nr dir i m dir_size s =
     (if i < dir_blks 512 dir then
        let sect = sint (i_start_sect dir) + i in
        res_bind (RD_SECT (i_dev dir) sect s) (\<lambda>s1.
        case unlink_block inode_nr (dir_entries dir) s1 0 m dir_size of
          (Some j, m', ds) \<Rightarrow>
            res_bind (WR_SECT (i_dev dir) sect (s1\<lparr>mem := memset (mem s1) (fsbuf + of_nat (j * DIR_ENTRY_SIZE)) 0 DIR_ENTRY_SIZE\<rparr>)) (\<lambda>s2.
            Inr (True, m', ds, s2))
        | (None, m', ds) \<Rightarrow>
            if m' > dir_entries dir then Inr (False, m', ds, s1) else unlink_blocks inode_nr dir (i + 1) m' ds s1)
      else Inr (False, m, dir_size, s))"
  by pat_completeness auto
termination by (relation "measure (\<lambda>(inode_nr, dir, i, m, ds, s). nat (dir_blks 512 dir - i))") auto

declare unlink_block.simps [simp del] unlink_blocks.simps [simp del]

definition remove_entry :: "nat \<Rightarrow> int \<Rightarrow> fs \<Rightarrow> fs res" where
  "remove_entry d inode_nr s =
     res_bind (unlink_blocks inode_nr (inode_of s d) 0 0 0 s) (\<lambda>(flg, m, dir_size, s1).
     kassert flg ''do_unlink: flg'' (
     if m = dir_entries (inode_of s d) then sync_inode d (upd_inode s1 d (\<lambda>n. n\<lparr>i_size := word_of_int dir_size\<rparr>)) else Inr s1))"

section \<open>The handler\<close>

definition do_unlink :: "fs \<Rightarrow> (int \<times> fs) res" where
  "do_unlink s =
     res_bind (copy_path s) (\<lambda>pathname.
     if takeWhile (\<lambda>c. c \<noteq> 0) pathname = [0x2F] then Inr (-1, s)
     else
       res_bind (search_file pathname s) (\<lambda>(inode_nr, s1).
       if inode_nr = INVALID_INODE then Inr (-1, s1)
       else
         case strip_path pathname s1 of
           None \<Rightarrow> Inr (-1, s1)
         | Some (filename, d) \<Rightarrow>
             res_bind (get_inode (i_dev (inode_of s1 d)) inode_nr s1) (\<lambda>(pin, s2).
             case pin of
               None \<Rightarrow> Inl (BadAccess ''do_unlink: pin'')
             | Some p \<Rightarrow>
                 let n = inode_of s2 p in
                 if i_mode n \<noteq> I_REGULAR then Inr (-1, s2)
                 else if i_cnt n > 1 then Inr (-1, s2)
                 else
                   res_bind (get_super_block (i_dev n) s2) (\<lambda>sb.
                   res_bind (free_imap_bit (i_dev n) inode_nr s2) (\<lambda>s3.
                   res_bind (free_smap_bits sb n s3) (\<lambda>s4.
                   res_bind (sync_inode p (upd_inode s4 p (\<lambda>n. n\<lparr>i_mode := 0, i_size := 0, i_start_sect := 0, i_nr_sects := 0\<rparr>))) (\<lambda>s5.
                   res_bind (put_inode p s5) (\<lambda>s6.
                   res_bind (remove_entry d inode_nr s6) (\<lambda>s7. Inr (0, s7)))))))))) "

text \<open>
  An unlink of a file that is open is refused, but leaves the reference it took: the i-node counts one more and
  never leaves the table again.
\<close>

lemma unlink_open_leaks:
  assumes "copy_path s = Inr path" and "takeWhile (\<lambda>c. c \<noteq> 0) path \<noteq> [0x2F]" and "search_file path s = Inr (nr, s1)" and "nr \<noteq> INVALID_INODE"
    and "strip_path path s1 = Some (filename, d)" and "inode_scan (i_dev (inode_of s1 d)) nr (inode_table s1) 0 None = (Some p, q)"
    and "p < length (inode_table s1)" and "1 \<le> i_cnt (inode_of s1 p)"
  shows "do_unlink s = Inr (-1, upd_inode s1 p (\<lambda>n. n\<lparr>i_cnt := i_cnt n + 1\<rparr>))"
proof -
  have "get_inode (i_dev (inode_of s1 d)) nr s1 = Inr (Some p, upd_inode s1 p (\<lambda>n. n\<lparr>i_cnt := i_cnt n + 1\<rparr>))"
    using assms(4,6) by (simp add: get_inode_def)
  then show ?thesis using assms by (simp add: do_unlink_def upd_inode_def Let_def)
qed

section \<open>Freeing the sectors of a file\<close>

definition unmark_byte :: "nat \<Rightarrow> nat \<Rightarrow> nat \<Rightarrow> u8 \<Rightarrow> u8" where
  "unmark_byte f N q b = b AND NOT (mark_byte f N q 0)"

lemma bit_unmark_byte: "m < 8 \<Longrightarrow> bit (unmark_byte f N q b) m \<longleftrightarrow> bit b m \<and> \<not> (f \<le> 8 * q + m \<and> 8 * q + m < f + N)"
  by (simp add: unmark_byte_def bit_and_iff bit_not_iff bit_mark_byte)

lemma unmark_byte_same: "8 * (q + 1) \<le> f \<or> f + N \<le> 8 * q \<Longrightarrow> unmark_byte f N q b = b"
  by (simp add: unmark_byte_def mark_byte_same)

lemma u8_eqI: "(\<And>m. m < 8 \<Longrightarrow> bit (a :: u8) m = bit b m) \<Longrightarrow> a = b"
  by (rule bit_word_eqI) simp

lemma set_fb_set_fb [simp]: "set_fb j x (set_fb j y s) = set_fb j x s"
  by (simp add: set_fb_def)

lemma fb_set_fb_same [simp]: "fb (set_fb j x s) j = x"
  by (simp add: fb_def set_fb_def)

lemma clear_first_ok:
  "i \<le> 8 \<Longrightarrow> (\<And>m. i \<le> m \<Longrightarrow> m < 8 \<Longrightarrow> m < i + n \<Longrightarrow> bit (fb s j) m) \<Longrightarrow>
     clear_first j i (int n) s = Inr (int (n - (8 - i)), set_fb j (fb s j AND NOT (push_bit i (mask n))) s)"
proof (induction "8 - i" arbitrary: i n s)
  case 0
  have "fb s j AND NOT (push_bit 8 (mask n)) = fb s j" by (rule u8_eqI) (auto simp: bit_simps)
  then show ?case using 0 by (subst clear_first.simps) simp
next
  case (Suc l)
  have i: "i < 8" "l = 8 - (i + 1)" using Suc.hyps(2) by auto
  show ?case
  proof (cases "n = 0")
    case True
    then show ?thesis by (subst clear_first.simps) simp
  next
    case False
    let ?s1 = "set_fb j (fb s j AND NOT (push_bit i 1)) s"
    have "clear_first j (i + 1) (int (n - 1)) ?s1
        = Inr (int (n - 1 - (8 - (i + 1))), set_fb j (fb ?s1 j AND NOT (push_bit (i + 1) (mask (n - 1)))) ?s1)"
      using Suc.prems i False by (intro Suc.hyps(1)) (auto simp: bit_simps)
    moreover have "(fb s j AND NOT (push_bit i 1)) AND NOT (push_bit (i + 1) (mask (n - 1))) = fb s j AND NOT (push_bit i (mask n))"
      using False by (intro u8_eqI) (auto simp: bit_simps simp del: push_bit_Suc)
    moreover have "int (n - 1) = int n - 1" "n - 1 - (8 - (i + 1)) = n - (8 - i)" using False i by auto
    moreover have "bit (fb s j) i" using Suc.prems i False by simp
    ultimately show ?thesis using i False by (subst clear_first.simps) simp
  qed
qed

text \<open>
  The state when the bytes of the map before byte \<open>q\<close> are cleared and sector \<open>t\<close> of the map is in the buffer; \<open>D\<close> are the bytes at the start.
\<close>

definition clearing :: "(nat \<Rightarrow> u8) \<Rightarrow> nat \<Rightarrow> nat \<Rightarrow> int \<Rightarrow> nat \<Rightarrow> nat \<Rightarrow> nat \<Rightarrow> fs \<Rightarrow> fs \<Rightarrow> bool" where
  "clearing D f N dev B t q s0 s \<longleftrightarrow> buffered s0 s \<and> t * 512 \<le> q \<and> q \<le> t * 512 + 512
     \<and> (\<forall>l < 512. fb s l = (if t * 512 + l < q then unmark_byte f N (t * 512 + l) (D (t * 512 + l)) else D (t * 512 + l)))
     \<and> (\<forall>x. disk s dev (B * 512 + x) = (if x < t * 512 then unmark_byte f N x (D x) else D x))
     \<and> (\<forall>d x. d \<noteq> dev \<or> x < B * 512 \<longrightarrow> disk s d x = disk s0 d x)"

lemma store_map_sector:
  assumes "clearing D f N dev B t q s0 s"
  shows "disk (store_sector dev (B + t) s) dev (B * 512 + x)
      = (if x < t * 512 + 512 then if x < q then unmark_byte f N x (D x) else D x else D x)"
    and "d \<noteq> dev \<or> y < B * 512 \<Longrightarrow> disk (store_sector dev (B + t) s) d y = disk s0 d y"
proof -
  note C = assms [unfolded clearing_def]
  have sect: "(B * 512 + x) div 512 = B + x div 512" "(B * 512 + x) mod 512 = x mod 512" by simp_all
  show "disk (store_sector dev (B + t) s) dev (B * 512 + x)
      = (if x < t * 512 + 512 then if x < q then unmark_byte f N x (D x) else D x else D x)"
  proof (cases "x div 512 = t")
    case True
    then have x: "t * 512 + x mod 512 = x" "x < t * 512 + 512" using div_mult_mod_eq [of x 512] by auto
    then show ?thesis using True C sect by (auto simp: disk_store_sector)
  next
    case False
    then have "x < t * 512 \<or> t * 512 + 512 \<le> x" by auto
    then show ?thesis using False C sect by (auto simp: disk_store_sector)
  qed
  show "disk (store_sector dev (B + t) s) d y = disk s0 d y" if "d \<noteq> dev \<or> y < B * 512"
    using that C by (auto simp: disk_store_sector)
qed

lemma next_sector_ok:
  assumes C: "clearing D f N dev B t q s0 s" and "fs_flat s0" and "MAJOR dev = 3" and "B + q div 512 < 2 ^ 22"
  shows "\<exists>s1. next_sector dev (q - t * 512, int (B + t)) s = Inr ((q mod 512, int (B + q div 512)), s1)
    \<and> clearing D f N dev B (q div 512) q s0 s1"
proof (cases "q = t * 512 + 512")
  case True
  have flat: "fs_flat s" using buffered_fields(9) [of s0 s] C assms(2) by (simp add: clearing_def)
  let ?s1 = "store_sector dev (B + t) s"
  let ?s2 = "load_sector dev (B + (t + 1)) ?s1"
  have qd: "q div 512 = t + 1" "q mod 512 = 0" using True by simp_all
  have "int (B + (t + 1)) < 2 ^ 22" using assms(4) qd(1) by (simp only: of_nat_less_numeral_power_cancel_iff)
  then have "WR_SECT dev (int (B + t)) s = Inr ?s1" "RD_SECT dev (int (B + t) + 1) ?s1 = Inr ?s2"
    using WR_SECT_eq [OF flat assms(3), of "int (B + t)"] RD_SECT_eq [of ?s1 dev "int (B + t) + 1"] flat assms(3)
    by (simp_all add: nat_add_distrib)
  then have run: "next_sector dev (q - t * 512, int (B + t)) s = Inr ((q mod 512, int (B + q div 512)), ?s2)"
    using True qd by (simp add: next_sector_def)
  have "fb ?s2 l = D ((t + 1) * 512 + l)" if "l < 512" for l
    using fb_load_sector [OF that, of dev "B + (t + 1)" ?s1] store_map_sector(1) [OF C, of "(t + 1) * 512 + l"] that
    by (simp add: algebra_simps)
  moreover have "disk ?s2 dev (B * 512 + x) = (if x < (t + 1) * 512 then unmark_byte f N x (D x) else D x)" for x
    using store_map_sector(1) [OF C, of x] True by simp
  moreover have "disk ?s2 d y = disk s0 d y" if "d \<noteq> dev \<or> y < B * 512" for d y
    using store_map_sector(2) [OF C that] by simp
  moreover have "buffered s0 ?s2" using C buffered_trans [OF _ buffered_trans [OF buffered_store buffered_load]] by (simp add: clearing_def)
  ultimately have "clearing D f N dev B (q div 512) q s0 ?s2" using True qd by (simp add: clearing_def)
  then show ?thesis using run by blast
next
  case False
  then have "t * 512 \<le> q" "q < t * 512 + 512" using C by (simp_all add: clearing_def)
  then have qd: "q div 512 = t" by auto
  then have "q mod 512 = q - t * 512" unfolding modulo_nat_def by simp
  moreover from this have "q - t * 512 \<noteq> 512" using mod_less_divisor [of 512 q] by simp
  ultimately show ?thesis using False C qd by (intro exI [of _ s]) (simp add: next_sector_def)
qed

lemma clear_one:
  assumes C: "clearing D f N dev B (q div 512) q s0 s" and "b = unmark_byte f N q (D q)"
  shows "clearing D f N dev B (q div 512) (q + 1) s0 (set_fb (q mod 512) b s)"
proof -
  let ?t = "q div 512" and ?i = "q mod 512"
  have i: "?i < 512" "?t * 512 + ?i = q" by simp_all
  have "fb (set_fb ?i b s) l = (if ?t * 512 + l < q + 1 then unmark_byte f N (?t * 512 + l) (D (?t * 512 + l)) else D (?t * 512 + l))" if "l < 512" for l
  proof (cases "l = ?i")
    case True
    then show ?thesis using i assms(2) by simp
  next
    case False
    then have "?t * 512 + l < q + 1 \<longleftrightarrow> ?t * 512 + l < q" using i(2) by linarith
    then show ?thesis using False C that by (simp add: fb_set_fb clearing_def)
  qed
  moreover have "buffered s0 (set_fb ?i b s)" using C buffered_trans [OF _ buffered_set_fb [OF i(1)]] by (simp add: clearing_def)
  moreover have "?t * 512 \<le> q + 1" "q + 1 \<le> ?t * 512 + 512" using i by linarith+
  ultimately show ?thesis using C by (simp add: clearing_def)
qed

lemma clear_bytes_ok:
  "clearing D f N dev B t q s0 s \<Longrightarrow> fs_flat s0 \<Longrightarrow> MAJOR dev = 3 \<Longrightarrow> B + (q + k) div 512 < 2 ^ 22 \<Longrightarrow>
     (\<And>x. q \<le> x \<Longrightarrow> x < q + k \<Longrightarrow> D x = 0xFF) \<Longrightarrow> f \<le> 8 * q \<Longrightarrow> 8 * (q + k) \<le> f + N \<Longrightarrow>
     \<exists>t' s'. clear_bytes k dev (q - t * 512, int (B + t)) s = Inr ((q + k - t' * 512, int (B + t')), s') \<and> clearing D f N dev B t' (q + k) s0 s'"
proof (induction k arbitrary: t q s)
  case 0
  then show ?case by auto
next
  case (Suc k)
  have "q div 512 \<le> (q + Suc k) div 512" by (simp add: div_le_mono)
  then have "B + q div 512 < 2 ^ 22" using Suc.prems(4) by linarith
  from next_sector_ok [OF Suc.prems(1-3) this] obtain s1 where
    s1: "next_sector dev (q - t * 512, int (B + t)) s = Inr ((q mod 512, int (B + q div 512)), s1)" "clearing D f N dev B (q div 512) q s0 s1" by blast
  have q: "q div 512 * 512 + q mod 512 = q" by simp
  have "fb s1 (q mod 512) = D q" using s1(2) q by (simp add: clearing_def)
  then have full: "fb s1 (q mod 512) = 0xFF" using Suc.prems(5) [of q] by simp
  have "0 = unmark_byte f N q (D q)" by (rule u8_eqI) (use Suc.prems(6,7) in \<open>simp add: bit_unmark_byte\<close>)
  from clear_one [OF s1(2) this] have "clearing D f N dev B (q div 512) (q + 1) s0 (set_fb (q mod 512) 0 s1)" .
  then obtain t' s' where "clear_bytes k dev (q + 1 - q div 512 * 512, int (B + q div 512)) (set_fb (q mod 512) 0 s1)
      = Inr ((q + 1 + k - t' * 512, int (B + t')), s')" "clearing D f N dev B t' (q + 1 + k) s0 s'"
    using Suc.IH [of "q div 512" "q + 1" "set_fb (q mod 512) 0 s1"] Suc.prems by auto
  moreover have "q mod 512 + 1 = q + 1 - q div 512 * 512" using q by linarith
  ultimately show ?case using s1(1) full by auto
qed

lemma clear_last_ok:
  assumes C: "clearing D f N dev B t q s0 s" and "fs_flat s0" and "MAJOR dev = 3" and "B + q div 512 < 2 ^ 22"
    and room_end: "f \<le> 8 * q" "8 * q \<le> f + N" "f + N < 8 * q + 8" and set: "\<And>m. m < f + N - 8 * q \<Longrightarrow> bit (D q) m"
  shows "\<exists>s'. clear_last dev (int (f + N) - 8 * int q) (q - t * 512, int (B + t)) s = Inr s' \<and> buffered s0 s'
    \<and> (\<forall>x. disk s' dev (B * 512 + x) = unmark_byte f N x (D x)) \<and> (\<forall>d y. d \<noteq> dev \<or> y < B * 512 \<longrightarrow> disk s' d y = disk s0 d y)"
proof -
  let ?r = "f + N - 8 * q"
  from next_sector_ok [OF C assms(2-4)] obtain s1 where
    s1: "next_sector dev (q - t * 512, int (B + t)) s = Inr ((q mod 512, int (B + q div 512)), s1)" "clearing D f N dev B (q div 512) q s0 s1" by blast
  have q: "q div 512 * 512 + q mod 512 = q" by simp
  have r: "nat (int (f + N) - 8 * int q) = ?r" "?r < 8" using room_end by auto
  have fbq: "fb s1 (q mod 512) = D q" using s1(2) q by (simp add: clearing_def)
  have msk: "D q AND NOT (push_bit ?r (NOT 0)) = NOT (push_bit ?r (NOT 0))"
    by (rule u8_eqI) (use set in \<open>auto simp: bit_simps\<close>)
  have new: "D q AND push_bit ?r (NOT 0) = unmark_byte f N q (D q)"
    by (rule u8_eqI) (use room_end in \<open>auto simp: bit_simps bit_unmark_byte\<close>)
  let ?s2 = "set_fb (q mod 512) (D q AND push_bit ?r (NOT 0)) s1"
  let ?s3 = "store_sector dev (B + q div 512) ?s2"
  have cl2: "clearing D f N dev B (q div 512) (q + 1) s0 ?s2" using clear_one [OF s1(2) new] .
  then have "fs_flat ?s2" using buffered_fields(9) [of s0 ?s2] assms(2) by (simp add: clearing_def)
  moreover have "int (B + q div 512) < 2 ^ 22" using assms(4) by (simp only: of_nat_less_numeral_power_cancel_iff)
  ultimately have "WR_SECT dev (int (B + q div 512)) ?s2 = Inr ?s3"
    using WR_SECT_eq [of ?s2 dev "int (B + q div 512)"] assms(3) by (simp add: nat_int_add)
  then have "clear_last dev (int (f + N) - 8 * int q) (q - t * 512, int (B + t)) s = Inr ?s3"
    using s1(1) r fbq msk room_end by (simp add: clear_last_def Let_def)
  moreover have "buffered s0 ?s3" using cl2 buffered_trans [OF _ buffered_store] by (simp add: clearing_def)
  moreover have "disk ?s3 dev (B * 512 + x) = unmark_byte f N x (D x)" for x
  proof -
    have "unmark_byte f N x (D x) = D x" if "q < x" using that room_end by (intro unmark_byte_same) simp
    then show ?thesis using store_map_sector(1) [OF cl2, of x] q mod_less_divisor [of 512 q] by (auto simp: not_less)
  qed
  ultimately show ?thesis using store_map_sector(2) [OF cl2] by blast
qed

lemma smap_place:
  assumes "unat (i_start_sect n) + 1 = f + unat (n_1st_sect sb)" and "f < 2 ^ 31" and "B = 2 + unat (nr_imap_sects sb)"
    and "B + f div 8 div 512 < 2 ^ 22" and "N = unat (i_nr_sects n)" and "8 \<le> N" and "N < 2 ^ 31"
  shows "sint (i_start_sect n - n_1st_sect sb + 1) = int f"
    and "sint (2 + nr_imap_sects sb + word_of_int (int f div 8 div 512)) = int (B + f div 8 div 512)"
    and "sint (i_nr_sects n) = int N" and "nat ((int N - (8 - int f mod 8)) sdiv 8) = (N - (8 - f mod 8)) div 8"
proof -
  have "i_start_sect n + 1 = word_of_nat (unat (i_start_sect n) + 1)" by simp
  also have "\<dots> = word_of_nat f + n_1st_sect sb" unfolding assms(1) by simp
  finally have "i_start_sect n - n_1st_sect sb + 1 = word_of_int (int f) + 0" by (simp add: algebra_simps)
  then show "sint (i_start_sect n - n_1st_sect sb + 1) = int f" using sint_sum [of f 0] assms(2) by simp
  have "int f div 8 div 512 = int (f div 8 div 512)" by (simp add: zdiv_int)
  then have "2 + nr_imap_sects sb + word_of_int (int f div 8 div 512) = word_of_int (int (2 + f div 8 div 512)) + nr_imap_sects sb" by simp
  moreover have "2 + f div 8 div 512 + unat (nr_imap_sects sb) < 2 ^ 31" using assms(3,4) by simp
  ultimately show "sint (2 + nr_imap_sects sb + word_of_int (int f div 8 div 512)) = int (B + f div 8 div 512)"
    using sint_sum [of "2 + f div 8 div 512" "nr_imap_sects sb"] assms(3) by (simp add: ac_simps)
  show "sint (i_nr_sects n) = int N" using sint_u32_small [of "i_nr_sects n"] assms(5,7) by simp
  have "int N - (8 - int f mod 8) = int (N - (8 - f mod 8))" using assms(6) by (simp add: of_nat_diff zmod_int)
  then show "nat ((int N - (8 - int f mod 8)) sdiv 8) = (N - (8 - f mod 8)) div 8"
    by (cases "N - (8 - f mod 8) = 0") (simp_all add: signed_divide_int_def nat_div_distrib)
qed

lemma free_smap_ok:
  assumes "fs_flat s" and "MAJOR (i_dev n) = 3"
    and place: "unat (i_start_sect n) + 1 = f + unat (n_1st_sect sb)" "f < 2 ^ 31" "B = 2 + unat (nr_imap_sects sb)"
    and "B + (f + N) div 8 div 512 < 2 ^ 22" and N: "N = unat (i_nr_sects n)" "8 \<le> N" "N < 2 ^ 31"
    and set: "\<And>m. f \<le> m \<Longrightarrow> m < f + N \<Longrightarrow> map_bit s (i_dev n) B m"
  shows "\<exists>s'. free_smap_bits sb n s = Inr s' \<and> buffered s s'
    \<and> (\<forall>x. disk s' (i_dev n) (B * 512 + x) = unmark_byte f N x (disk s (i_dev n) (B * 512 + x)))
    \<and> (\<forall>d y. d \<noteq> i_dev n \<or> y < B * 512 \<longrightarrow> disk s' d y = disk s d y)"
proof -
  let ?dev = "i_dev n" and ?q = "f div 8" and ?t = "f div 8 div 512" and ?K = "(N - (8 - f mod 8)) div 8"
  define D where "D = (\<lambda>x. disk s ?dev (B * 512 + x))"
  let ?e = "?q + 1 + ?K"
  have bits: "bit (D x) m" if "f \<le> 8 * x + m" "8 * x + m < f + N" "m < 8" for x m
    using set [OF that(1,2)] that(3) by (simp add: map_bit_def D_def)
  have dm: "8 * ?q + f mod 8 = f" "f mod 8 < 8" by simp_all
  have e: "8 * ?e \<le> f + N" "f + N < 8 * ?e + 8" "f \<le> 8 * (?q + 1)"
  proof -
    have *: "8 * (a + 1 + k) \<le> f + N \<and> f + N < 8 * (a + 1 + k) + 8 \<and> f \<le> 8 * (a + 1)"
      if "8 * a + b = f" "b < 8" "k * 8 \<le> N - (8 - b)" "N - (8 - b) < 8 + k * 8" for a b k :: nat
      using that N(2) by auto
    have "N - (8 - f mod 8) < 8 + ?K * 8" by (rule dividend_less_div_times) simp
    from * [OF dm div_times_less_eq_dividend this]
    show "8 * ?e \<le> f + N" "f + N < 8 * ?e + 8" "f \<le> 8 * (?q + 1)" by blast+
  qed
  have le: "?q div 512 \<le> (f + N) div 8 div 512" "?e div 512 \<le> (f + N) div 8 div 512"
    using e(1) by (auto intro!: div_le_mono simp: less_eq_div_iff_mult_less_eq)
  have Bt: "B + ?t < 2 ^ 22" "B + ?e div 512 < 2 ^ 22" using le assms(6) by linarith+
  note pl = smap_place [OF place Bt(1) N]
  let ?s1 = "load_sector ?dev (B + ?t) s"
  have "int (B + ?t) < 2 ^ 22" using Bt(1) by (simp only: of_nat_less_numeral_power_cancel_iff)
  then have rd: "RD_SECT ?dev (int (B + ?t)) s = Inr ?s1"
    using RD_SECT_eq [OF assms(1,2), of "int (B + ?t)"] by (simp add: nat_int_add)
  have fb1: "fb ?s1 l = D (?t * 512 + l)" if "l < 512" for l
    using fb_load_sector [OF that, of ?dev "B + ?t" s] by (simp add: D_def algebra_simps)
  have before: "unmark_byte f N x (D x) = D x" if "x < ?q" for x
  proof -
    have "8 * (x + 1) \<le> k" if "x < a" "8 * a + b = k" for a b k :: nat using that by simp
    from this [OF that dm(1)] show ?thesis by (intro unmark_byte_same disjI1)
  qed
  have q: "?t * 512 + ?q mod 512 = ?q" by simp
  have cl1: "clearing D f N ?dev B ?t ?q s ?s1"
    using fb1 before q mod_less_divisor [of 512 ?q] by (auto simp: clearing_def D_def)
  have fbq: "fb ?s1 (?q mod 512) = D ?q" using fb1 [of "?q mod 512"] q by simp
  have first: "clear_first (?q mod 512) (f mod 8) (int N) ?s1
      = Inr (int (N - (8 - f mod 8)), set_fb (?q mod 512) (D ?q AND NOT (push_bit (f mod 8) (mask N))) ?s1)"
    using clear_first_ok [of "f mod 8" N ?s1 "?q mod 512"] bits dm fbq by simp
  have "D ?q AND NOT (push_bit (f mod 8) (mask N)) = unmark_byte f N ?q (D ?q)"
  proof -
    have "f - 8 * ?q = f mod 8" "8 * ?q \<le> f" using dm(1) by linarith+
    then show ?thesis by (simp add: unmark_byte_def mark_byte_def)
  qed
  from clear_one [OF cl1 this] have cl2: "clearing D f N ?dev B ?t (?q + 1) s (set_fb (?q mod 512) (D ?q AND NOT (push_bit (f mod 8) (mask N))) ?s1)"
    (is "clearing _ _ _ _ _ _ _ _ ?s2") .
  have full: "D x = 0xFF" if "?q + 1 \<le> x" "x < ?q + 1 + ?K" for x
    using bits [of x] that e by (auto simp: u8_full)
  from clear_bytes_ok [OF cl2 assms(1,2) Bt(2) full e(3,1)] obtain t' s3 where
    s3: "clear_bytes ?K ?dev (?q + 1 - ?t * 512, int (B + ?t)) ?s2 = Inr ((?e - t' * 512, int (B + t')), s3)" "clearing D f N ?dev B t' ?e s s3" by blast
  have "bit (D z) m" if "f \<le> 8 * z" "f + N < 8 * z + 8" "m < f + N - 8 * z" for z m using bits [of z m] that by linarith
  moreover have e3: "f \<le> 8 * ?e" using e(3) by (rule order_trans) simp
  ultimately have "bit (D ?e) m" if "m < f + N - 8 * ?e" for m using e(2) that by blast
  from clear_last_ok [OF s3(2) assms(1,2) Bt(2) _ e(1,2) this] obtain s' where
    s': "clear_last ?dev (int (f + N) - 8 * int ?e) (?e - t' * 512, int (B + t')) s3 = Inr s'" "buffered s s'"
      "\<forall>x. disk s' ?dev (B * 512 + x) = unmark_byte f N x (D x)" "\<forall>d y. d \<noteq> ?dev \<or> y < B * 512 \<longrightarrow> disk s' d y = disk s d y"
    using e3 by auto
  have left: "int (N - (8 - f mod 8)) - 8 * int ?K = int (f + N) - 8 * int ?e"
  proof -
    have "8 - f mod 8 \<le> N" using N(2) by simp
    then have "int (N - (8 - f mod 8)) = int N - (8 - int (f mod 8))" by (simp add: of_nat_diff)
    moreover have "int f = 8 * int ?q + int (f mod 8)" using dm(1) by linarith
    ultimately show ?thesis by simp
  qed
  have idx: "nat (int f mod 8) = f mod 8" "nat (int f div 8 mod 512) = ?q mod 512" "?q mod 512 + 1 = ?q + 1 - ?t * 512"
  proof -
    have "b + 1 = c + 1 - a" if "a + b = c" for a b c :: nat using that by simp
    from this [OF q] show "?q mod 512 + 1 = ?q + 1 - ?t * 512" .
  qed (simp_all add: nat_mod_distrib nat_div_distrib)
  have "free_smap_bits sb n s = Inr s'"
    unfolding free_smap_bits_def Let_def pl SECTOR_SIZE_def of_nat_numeral idx
    by (simp only: of_nat_less_0_iff if_False rd first res_bind_Inr prod.case s3(1) left s'(1))
  then show ?thesis using s'(2-4) by (auto simp: D_def)
qed

text \<open>
  C19: Deleting a file gives back exactly what creating it took. After \<^verbatim>\<open>alloc_smap_bit\<close> has allocated \<open>N\<close> sectors (at least one byte of the
  map), \<^verbatim>\<open>do_unlink\<close>'s passage through the sector map for an i-node with these sectors succeeds and leaves every byte of every device as it was before the
  allocation.
\<close>

theorem free_undoes_alloc:
  assumes "kinv s" and "MAJOR (i_dev n) = 3" and "get_super_block (i_dev n) s = Inr sb"
    and "B = 2 + unat (nr_imap_sects sb)" and "nr = unat (nr_smap_sects sb)" and "B + nr < 2 ^ 22"
    and "1 < unat (n_1st_sect sb)" and "f + unat (n_1st_sect sb) \<le> 2 ^ 31" and "8 \<le> N" and "f + N \<le> 4096 * nr"
    and "\<And>m. m < f \<Longrightarrow> map_bit s (i_dev n) B m" and "\<And>m. f \<le> m \<Longrightarrow> m < f + N \<Longrightarrow> \<not> map_bit s (i_dev n) B m"
    and start: "unat (i_start_sect n) + 1 = f + unat (n_1st_sect sb)" and N: "N = unat (i_nr_sects n)" "N < 2 ^ 31"
  shows "\<exists>s1 s2. alloc_smap_bit (i_dev n) (int N) s = Inr (int (unat (i_start_sect n)), s1) \<and> free_smap_bits sb n s1 = Inr s2 \<and> disk s2 = disk s"
proof -
  let ?dev = "i_dev n"
  have "0 < N" "B + nr \<le> 2 ^ 22" using assms(6,9) by simp_all
  from alloc_smap_ok [OF assms(1-5) this(2) assms(7,8) this(1) assms(10-12)] obtain s1 where
    s1: "alloc_smap_bit ?dev (int N) s = Inr (int f - 1 + int (unat (n_1st_sect sb)), s1)" "buffered s s1"
      "\<forall>m < 4096 * nr. map_bit s1 ?dev B m \<longleftrightarrow> map_bit s ?dev B m \<or> f \<le> m \<and> m < f + N"
      "\<forall>d x. d \<noteq> ?dev \<or> x div 512 < B \<or> B + nr \<le> x div 512 \<longrightarrow> disk s1 d x = disk s d x" by blast
  have f: "f < 2 ^ 31" using assms(7,8) by linarith
  have "(f + N) div 8 div 512 \<le> nr" using div_le_mono [OF assms(10), of 4096] by (simp add: div_mult2_eq [symmetric])
  then have fit: "B + (f + N) div 8 div 512 < 2 ^ 22" using assms(6) by linarith
  have flat: "fs_flat s1" using buffered_fields(9) [OF s1(2)] fs_flatI [OF assms(1)] by simp
  have "map_bit s1 ?dev B m" if "f \<le> m" "m < f + N" for m using s1(3) that assms(10) by auto
  from free_smap_ok [OF flat assms(2) start f assms(4) fit N(1) assms(9) N(2) this] obtain s2 where
    s2: "free_smap_bits sb n s1 = Inr s2" "\<forall>x. disk s2 ?dev (B * 512 + x) = unmark_byte f N x (disk s1 ?dev (B * 512 + x))"
      "\<forall>d y. d \<noteq> ?dev \<or> y < B * 512 \<longrightarrow> disk s2 d y = disk s1 d y" by blast
  have "disk s2 d y = disk s d y" for d y
  proof (cases "d \<noteq> ?dev \<or> y < B * 512")
    case True
    then show ?thesis using s1(4) s2(3) by (auto simp: div_less_iff_less_mult)
  next
    case False
    then have d: "d = ?dev" and y: "y = B * 512 + (y - B * 512)" by simp_all
    define x where "x = y - B * 512"
    show ?thesis
    proof (rule u8_eqI)
      fix m :: nat assume m: "m < 8"
      have mb: "map_bit t ?dev B (8 * x + m) = bit (disk t ?dev (B * 512 + x)) m" for t using m by (simp add: map_bit_def)
      have b2: "bit (disk s2 d y) m \<longleftrightarrow> map_bit s1 ?dev B (8 * x + m) \<and> \<not> (f \<le> 8 * x + m \<and> 8 * x + m < f + N)"
        using s2(2) d y m mb by (simp add: bit_unmark_byte x_def [symmetric])
      show "bit (disk s2 d y) m = bit (disk s d y) m"
      proof (cases "8 * x + m < 4096 * nr")
        case True
        then show ?thesis using b2 s1(3) assms(12) mb [of s] d y by (auto simp: x_def [symmetric])
      next
        case False
        then have "x \<ge> nr * 512" using m by linarith
        then have "B + nr \<le> y div 512" using y by (simp add: less_eq_div_iff_mult_less_eq x_def)
        then have "disk s1 ?dev (B * 512 + x) = disk s ?dev (B * 512 + x)" using s1(4) y by (simp add: x_def)
        then show ?thesis using b2 False assms(10) mb [of s1] d y by (auto simp: x_def [symmetric])
      qed
    qed
  qed
  moreover have "int f - 1 + int (unat (n_1st_sect sb)) = int (unat (i_start_sect n))" using start by linarith
  ultimately show ?thesis using s1(1) s2(1) by (auto simp: fun_eq_iff)
qed

section \<open>Instance\<close>

definition demo_file :: inode where
  "demo_file = \<lparr>i_mode = I_REGULAR, i_size = 0, i_start_sect = 2309, i_nr_sects = 2000, i_dev = ROOT_DEV, i_cnt = 1, i_num = 5\<rparr>"

theorem free_undoes_alloc_witness:
  "\<exists>s1 s2. alloc_smap_bit ROOT_DEV 2000 fs_demo = Inr (2309, s1) \<and> free_smap_bits demo_sb demo_file s1 = Inr s2 \<and> disk s2 = demo_disk"
proof -
  have sb: "unat (nr_imap_sects demo_sb) = 1" "unat (nr_smap_sects demo_sb) = 2" "unat (n_1st_sect demo_sb) = 261" by (simp_all add: demo_sb_def)
  have n: "i_dev demo_file = ROOT_DEV" "unat (i_start_sect demo_file) = 2309" "unat (i_nr_sects demo_file) = 2000" by (simp_all add: demo_file_def)
  have "\<exists>s1 s2. alloc_smap_bit (i_dev demo_file) (int 2000) fs_demo = Inr (int (unat (i_start_sect demo_file)), s1)
      \<and> free_smap_bits demo_sb demo_file s1 = Inr s2 \<and> disk s2 = disk fs_demo"
    by (rule free_undoes_alloc [where f = 2049 and B = 3 and nr = 2]) (simp_all add: sb n demo_smap)
  then show ?thesis unfolding n by simp
qed

end
