(* ===== verification/Fs_Refs.thy ===== *)
theory Fs_Refs
  imports Fs_Open
begin

text \<open>
  Reference counts of the file system. \<^verbatim>\<open>fd_cnt\<close> of a descriptor is the number of entries of all
  \<^verbatim>\<open>filp\<close> arrays that point to it and \<^verbatim>\<open>i_cnt\<close> of an i-node the sum of \<^verbatim>\<open>fd_cnt\<close> over the
  descriptors that point to it, one more for the root directory. Opening an existing file, closing,
  fork and exit keep both, and a descriptor is free exactly when nothing refers to it.
\<close>

definition refs :: "fs \<Rightarrow> nat \<Rightarrow> nat" where
  "refs s d = (\<Sum>p\<leftarrow>proc_table s. count_list (filp p) (Some d))"

definition share :: "nat \<Rightarrow> file_desc \<Rightarrow> int" where
  "share i f = (if fd_inode f = Some i then fd_cnt f else 0)"

definition inode_refs :: "fs \<Rightarrow> nat \<Rightarrow> int" where
  "inode_refs s i = (\<Sum>f\<leftarrow>f_desc_table s. share i f)"

definition desc_ok :: "file_desc \<Rightarrow> int \<Rightarrow> bool" where
  "desc_ok f c \<longleftrightarrow> fd_cnt f = c \<and> (fd_inode f = None \<longleftrightarrow> c = 0) \<and> (\<forall>i. fd_inode f = Some i \<longrightarrow> i < NR_INODE)"

text \<open>The invariant, while the files \<open>xs\<close> of a new process are not counted yet.\<close>

definition refs_inv :: "nat option list \<Rightarrow> fs \<Rightarrow> bool" where
  "refs_inv xs s \<longleftrightarrow>
     length (f_desc_table s) = NR_FILE_DESC \<and> length (inode_table s) = NR_INODE
     \<and> (\<forall>p \<in> set (proc_table s). length (filp p) = NR_FILES \<and> (\<forall>d. Some d \<in> set (filp p) \<longrightarrow> d < NR_FILE_DESC))
     \<and> (\<forall>d < NR_FILE_DESC. desc_ok (f_desc_table s ! d) (int (refs s d) - int (count_list xs (Some d))))
     \<and> (\<forall>i < NR_INODE. i_cnt (inode_of s i) = inode_refs s i + (if i = root_inode s then 1 else 0))"

abbreviation refs_ok :: "fs \<Rightarrow> bool" where
  "refs_ok \<equiv> refs_inv []"

section \<open>Sums and counts under updates\<close>

lemma count_list_None [simp]: "count_list (replicate n None) (Some d) = 0"
  by (induction n) auto

lemma sum_list_int_update: "i < length xs \<Longrightarrow> sum_list (xs[i := x]) = sum_list xs - xs ! i + (x :: int)"
  by (induction xs arbitrary: i) (auto split: nat.split)

lemma count_list_update: "i < length xs \<Longrightarrow> int (count_list (xs[i := x]) y) = int (count_list xs y) - (if xs ! i = y then 1 else 0) + (if x = y then 1 else 0)"
proof (induction xs arbitrary: i)
  case (Cons a xs)
  show ?case
  proof (cases i)
    case (Suc j)
    then show ?thesis using Cons.IH [of j] Cons.prems by (auto split: if_splits)
  qed simp
qed simp

lemma refs_upd_filp:
  assumes "p < length (proc_table s)"
  shows "int (refs (upd_proc s p (\<lambda>q. q\<lparr>filp := ys\<rparr>)) d)
    = int (refs s d) - int (count_list (filp (proc_of s p)) (Some d)) + int (count_list ys (Some d))"
proof -
  have "int (refs t d) = sum_list (map (\<lambda>p. int (count_list (filp p) (Some d))) (proc_table t))" for t
    by (simp add: refs_def sum_list_of_nat o_def flip: sum_list_of_nat)
  then show ?thesis using assms by (simp add: upd_proc_def map_update sum_list_int_update)
qed

lemma refs_set_slot:
  assumes "p < length (proc_table s)" and "f < length (filp (proc_of s p))"
  shows "int (refs (upd_proc s p (\<lambda>q. q\<lparr>filp := (filp q)[f := y]\<rparr>)) d)
    = int (refs s d) - (if filp (proc_of s p) ! f = Some d then 1 else 0) + (if y = Some d then 1 else 0)"
proof -
  have "upd_proc s p (\<lambda>q. q\<lparr>filp := (filp q)[f := y]\<rparr>) = upd_proc s p (\<lambda>q. q\<lparr>filp := (filp (proc_of s p))[f := y]\<rparr>)"
    by (simp add: upd_proc_def)
  then show ?thesis using refs_upd_filp [OF assms(1), of "(filp (proc_of s p))[f := y]" d] count_list_update [OF assms(2), of y "Some d"] by simp
qed

lemma inode_refs_upd_desc:
  assumes "d < length (f_desc_table s)"
  shows "inode_refs (upd_desc s d g) i = inode_refs s i - share i (f_desc_table s ! d) + share i (g (f_desc_table s ! d))"
  using assms by (simp add: inode_refs_def upd_desc_def map_update sum_list_int_update)

lemma sum_list_member_le: "i < length xs \<Longrightarrow> (\<And>x. x \<in> set xs \<Longrightarrow> 0 \<le> x) \<Longrightarrow> xs ! i \<le> (sum_list xs :: int)"
proof (induction xs arbitrary: i)
  case (Cons a xs)
  then have "0 \<le> sum_list xs" "0 \<le> a" by (auto intro: sum_list_nonneg)
  then show ?case using Cons.IH [of "i - 1"] Cons.prems by (cases i) force+
qed simp

section \<open>The tables\<close>

text \<open>What the invariant speaks about.\<close>

definition same_tables :: "fs \<Rightarrow> fs \<Rightarrow> bool" where
  "same_tables s t \<longleftrightarrow> proc_table t = proc_table s \<and> f_desc_table t = f_desc_table s \<and> inode_table t = inode_table s
     \<and> root_inode t = root_inode s \<and> pcaller t = pcaller s"

lemma refs_inv_cong: "same_tables s t \<Longrightarrow> refs_inv xs t = refs_inv xs s"
  unfolding same_tables_def refs_inv_def refs_def inode_refs_def by (auto simp only:)

lemma refs_invD:
  assumes "refs_inv xs s"
  shows "length (f_desc_table s) = 64" "length (inode_table s) = 64"
    and "p < length (proc_table s) \<Longrightarrow> length (filp (proc_of s p)) = 64"
    and "p < length (proc_table s) \<Longrightarrow> f < 64 \<Longrightarrow> filp (proc_of s p) ! f = Some d \<Longrightarrow> d < 64"
    and "d < 64 \<Longrightarrow> desc_ok (f_desc_table s ! d) (int (refs s d) - int (count_list xs (Some d)))"
    and "i < 64 \<Longrightarrow> i_cnt (inode_of s i) = inode_refs s i + (if i = root_inode s then 1 else 0)"
  using assms by (auto simp: refs_inv_def) (metis nth_mem)+

lemma refs_pos:
  assumes "p < length (proc_table s)" and "f < length (filp (proc_of s p))" and "filp (proc_of s p) ! f = Some d"
  shows "0 < refs s d"
proof -
  have "Some d \<in> set (filp (proc_of s p))" using assms(2,3) by (metis nth_mem)
  then have "0 < count_list (filp (proc_of s p)) (Some d)" by (metis count_list_0_iff gr0I)
  moreover have "count_list (filp (proc_of s p)) (Some d) \<le> refs s d"
    unfolding refs_def using assms(1) by (intro member_le_sum_list) auto
  ultimately show ?thesis by simp
qed

lemma share_le_inode_refs:
  assumes "refs_ok s" and "d < 64"
  shows "share i (f_desc_table s ! d) \<le> inode_refs s i"
proof -
  have "0 \<le> share i f" if "f \<in> set (f_desc_table s)" for f
  proof -
    obtain e where "e < 64" "f = f_desc_table s ! e" using \<open>f \<in> set _\<close> refs_invD(1) [OF assms(1)] by (auto simp: in_set_conv_nth)
    then show ?thesis using refs_invD(5) [OF assms(1), of e] by (simp add: desc_ok_def share_def)
  qed
  then show ?thesis
    using sum_list_member_le [of d "map (share i) (f_desc_table s)"] refs_invD(1) [OF assms(1)] assms(2) by (auto simp: inode_refs_def)
qed

section \<open>Dropping a reference\<close>

lemma share_drop: "share i (drop_desc f) = share i f - (if fd_inode f = Some i then 1 else 0)"
  by (simp add: share_def drop_desc_def)

lemma drop_step:
  assumes inv: "refs_ok s" and p: "p < length (proc_table s)" and f: "f < 64" and d: "filp (proc_of s p) ! f = Some d"
  shows "\<exists>pin. desc_inode d s = Inr pin \<and> 0 < i_cnt (inode_of s pin)
    \<and> refs_ok (upd_proc (upd_desc (upd_inode s pin (\<lambda>n. n\<lparr>i_cnt := i_cnt n - 1\<rparr>)) d drop_desc) p (\<lambda>q. q\<lparr>filp := (filp q)[f := None]\<rparr>))"
proof -
  note D = refs_invD [OF inv]
  have len: "f < length (filp (proc_of s p))" using D(3) [OF p] f by simp
  have d64: "d < 64" using D(4) [OF p f d] .
  have dok: "desc_ok (f_desc_table s ! d) (int (refs s d))" using D(5) [OF d64] by simp
  moreover have pos: "0 < refs s d" using refs_pos [OF p len d] .
  ultimately obtain pin where pin: "fd_inode (f_desc_table s ! d) = Some pin" "pin < 64" "fd_cnt (f_desc_table s ! d) = int (refs s d)"
    by (auto simp: desc_ok_def)
  let ?s1 = "upd_inode s pin (\<lambda>n. n\<lparr>i_cnt := i_cnt n - 1\<rparr>)"
  let ?s3 = "upd_proc (upd_desc ?s1 d drop_desc) p (\<lambda>q. q\<lparr>filp := (filp q)[f := None]\<rparr>)"
  have "share pin (f_desc_table s ! d) \<le> inode_refs s pin" using share_le_inode_refs [OF inv d64] .
  then have icnt: "0 < i_cnt (inode_of s pin)" using pin pos D(6) [OF pin(2)] by (auto simp: share_def)
  have tabs: "proc_table (upd_desc ?s1 d drop_desc) = proc_table s" "f_desc_table ?s1 = f_desc_table s"
    by (simp_all add: upd_desc_def upd_inode_def)
  have r3: "int (refs ?s3 e) = int (refs s e) - (if e = d then 1 else 0)" for e
  proof -
    have "refs (upd_desc ?s1 d drop_desc) e = refs s e" by (simp add: refs_def tabs)
    then show ?thesis using refs_set_slot [of p "upd_desc ?s1 d drop_desc" f None e] p len d tabs by auto
  qed
  have i3: "inode_refs ?s3 i = inode_refs s i - (if i = pin then 1 else 0)" for i
  proof -
    have "inode_refs ?s3 i = inode_refs (upd_desc ?s1 d drop_desc) i" by (simp add: inode_refs_def upd_proc_def)
    moreover have "inode_refs ?s1 i = inode_refs s i" by (simp add: inode_refs_def upd_inode_def)
    ultimately show ?thesis
      using inode_refs_upd_desc [of d ?s1 drop_desc i] D(1) d64 tabs(2) pin(1) by (auto simp: share_drop)
  qed
  have "desc_ok (f_desc_table ?s3 ! e) (int (refs ?s3 e))" if "e < 64" for e
  proof (cases "e = d")
    case True
    have "f_desc_table ?s3 ! e = drop_desc (f_desc_table s ! d)"
      using True D(1) d64 by (simp add: upd_proc_def upd_desc_def upd_inode_def)
    then show ?thesis using pin pos r3 [of e] True by (auto simp: desc_ok_def drop_desc_def)
  next
    case False
    then show ?thesis using D(5) [OF that] r3 [of e] by (simp add: upd_proc_def upd_desc_def upd_inode_def)
  qed
  moreover have "i_cnt (inode_of ?s3 i) = inode_refs ?s3 i + (if i = root_inode ?s3 then 1 else 0)" if "i < 64" for i
    using D(6) [OF that] D(2) i3 [of i] pin(2) that by (auto simp: upd_proc_def upd_desc_def upd_inode_def nth_list_update)
  moreover have "length (filp q) = 64 \<and> (\<forall>e. Some e \<in> set (filp q) \<longrightarrow> e < 64)" if "q \<in> set (proc_table ?s3)" for q
  proof -
    have all: "\<forall>q \<in> set (proc_table s). length (filp q) = 64 \<and> (\<forall>e. Some e \<in> set (filp q) \<longrightarrow> e < 64)" using inv by (simp add: refs_inv_def)
    have "q \<in> set (proc_table s) \<or> q = (proc_of s p)\<lparr>filp := (filp (proc_of s p))[f := None]\<rparr>"
      using that set_update_subset_insert [of "proc_table s" p] by (auto simp: upd_proc_def tabs)
    then show ?thesis
      using all nth_mem [OF p] set_update_subset_insert [of "filp (proc_of s p)" f None] by fastforce
  qed
  moreover have "length (f_desc_table ?s3) = 64" "length (inode_table ?s3) = 64"
    using D(1,2) by (simp_all add: upd_proc_def upd_desc_def upd_inode_def)
  ultimately have "refs_ok ?s3" by (simp add: refs_inv_def)
  then show ?thesis using pin(1) icnt by (auto simp: desc_inode_def)
qed

lemma drop_tables:
  fixes s d pin p f
  defines "t \<equiv> upd_proc (upd_desc (upd_inode s pin (\<lambda>n. n\<lparr>i_cnt := i_cnt n - 1\<rparr>)) d drop_desc) p (\<lambda>q. q\<lparr>filp := (filp q)[f := None]\<rparr>)"
  shows "length (proc_table t) = length (proc_table s)"
    and "p < length (proc_table s) \<Longrightarrow> filp (proc_of t p) = (filp (proc_of s p))[f := None]"
    and "q \<noteq> p \<Longrightarrow> proc_of t q = proc_of s q"
  by (simp_all add: t_def upd_proc_def upd_desc_def upd_inode_def)

text \<open>
  Closing an open file returns 0, removes the entry from the caller's \<^verbatim>\<open>filp\<close> and keeps the reference counts exact; the
  descriptor is released exactly when it was the last reference.
\<close>

lemma do_close_refs:
  assumes "refs_ok s" and "pcaller s < length (proc_table s)" and "0 \<le> m3i1 (fs_msg s)" and "m3i1 (fs_msg s) < 64"
    and "filp (proc_of s (pcaller s)) ! nat (m3i1 (fs_msg s)) = Some d"
  shows "\<exists>s'. do_close s = Inr (0, s') \<and> refs_ok s' \<and> filp (proc_of s' (pcaller s)) = (filp (proc_of s (pcaller s)))[nat (m3i1 (fs_msg s)) := None]
    \<and> (fd_inode (f_desc_table s' ! d) = None \<longleftrightarrow> refs s d = 1)"
proof -
  let ?f = "nat (m3i1 (fs_msg s))"
  have f: "?f < 64" using assms(4) by simp
  from drop_step [OF assms(1,2) f assms(5)] obtain pin where pin: "desc_inode d s = Inr pin" "0 < i_cnt (inode_of s pin)" and
    ok: "refs_ok (upd_proc (upd_desc (upd_inode s pin (\<lambda>n. n\<lparr>i_cnt := i_cnt n - 1\<rparr>)) d drop_desc) (pcaller s) (\<lambda>q. q\<lparr>filp := (filp q)[?f := None]\<rparr>))"
    (is "refs_ok ?t") by blast
  have "pcaller (upd_inode s pin (\<lambda>n. n\<lparr>i_cnt := i_cnt n - 1\<rparr>)) = pcaller s" by (simp add: upd_inode_def)
  then have run: "do_close s = Inr (0, ?t)"
    using assms(3-5) pin by (simp add: do_close_def caller_desc_def put_inode_def)
  have d: "d < 64" using refs_invD(4) [OF assms(1,2) f assms(5)] .
  have fi: "fd_inode (f_desc_table s ! d) \<noteq> None" "fd_cnt (f_desc_table s ! d) = int (refs s d)"
    using pin(1) refs_invD(5) [OF assms(1) d] by (auto simp: desc_inode_def desc_ok_def of_option_eq_Inr)
  have "f_desc_table ?t ! d = drop_desc (f_desc_table s ! d)"
    using refs_invD(1) [OF assms(1)] d by (simp add: upd_proc_def upd_desc_def upd_inode_def)
  then have "fd_inode (f_desc_table ?t ! d) = None \<longleftrightarrow> refs s d = 1" using fi by (auto simp: drop_desc_def)
  then show ?thesis using run ok drop_tables(2) [OF assms(2), of pin d ?f] by (intro exI [of _ ?t] conjI)
qed

lemma exit_files_ok:
  "refs_ok s \<Longrightarrow> p < length (proc_table s) \<Longrightarrow> (\<forall>i \<in> set is. i < 64) \<Longrightarrow>
     \<exists>s'. exit_files p is s = Inr s' \<and> refs_ok s' \<and> (\<forall>i < 64. filp (proc_of s' p) ! i = (if i \<in> set is then None else filp (proc_of s p) ! i))
       \<and> (\<forall>q. q \<noteq> p \<longrightarrow> proc_of s' q = proc_of s q)"
proof (induction "is" arbitrary: s)
  case (Cons i "is")
  show ?case
  proof (cases "filp (proc_of s p) ! i")
    case None
    obtain s' where "exit_files p is s = Inr s'" "refs_ok s'"
      "\<forall>j < 64. filp (proc_of s' p) ! j = (if j \<in> set is then None else filp (proc_of s p) ! j)" "\<forall>q. q \<noteq> p \<longrightarrow> proc_of s' q = proc_of s q"
      using Cons.IH [OF Cons.prems(1,2)] Cons.prems(3) by auto
    then show ?thesis using None Cons.prems(3) by (intro exI [of _ s']) auto
  next
    case (Some d)
    have i: "i < 64" using Cons.prems(3) by simp
    from drop_step [OF Cons.prems(1,2) i Some] obtain pin where pin: "desc_inode d s = Inr pin" and
      ok: "refs_ok (upd_proc (upd_desc (upd_inode s pin (\<lambda>n. n\<lparr>i_cnt := i_cnt n - 1\<rparr>)) d drop_desc) p (\<lambda>q. q\<lparr>filp := (filp q)[i := None]\<rparr>))"
      (is "refs_ok ?t") by blast
    note dt = drop_tables [where s = s and d = d and pin = pin and p = p and f = i]
    obtain s' where s': "exit_files p is ?t = Inr s'" "refs_ok s'"
      "\<forall>j < 64. filp (proc_of s' p) ! j = (if j \<in> set is then None else filp (proc_of ?t p) ! j)" "\<forall>q. q \<noteq> p \<longrightarrow> proc_of s' q = proc_of ?t q"
      using Cons.IH [OF ok] Cons.prems(2,3) dt(1) by auto
    have "exit_files p (i # is) s = Inr s'" using Some pin s'(1) by simp
    moreover have "\<forall>j < 64. filp (proc_of s' p) ! j = (if j \<in> set (i # is) then None else filp (proc_of s p) ! j)"
      using s'(3) dt(2) Cons.prems(2) i refs_invD(3) [OF Cons.prems(1,2)] by (auto simp: nth_list_update)
    ultimately show ?thesis using s'(2,4) dt(3) by auto
  qed
qed auto

text \<open>
  When a process exits, FS closes every file it has open: no descriptor or i-node keeps a count for it, the counts stay exact and
  the files of the other processes stay as they are.
\<close>

lemma fs_exit_refs:
  assumes "refs_ok s" and "length (proc_table s) = 37" and "valid_proc_nr (m3i2 (fs_msg s))"
  shows "\<exists>s'. fs_exit s = Inr (0, s') \<and> refs_ok s' \<and> (\<forall>i < 64. filp (proc_of s' (nat (m3i2 (fs_msg s)))) ! i = None)
    \<and> (\<forall>q. q \<noteq> nat (m3i2 (fs_msg s)) \<longrightarrow> proc_of s' q = proc_of s q)"
proof -
  have "nat (m3i2 (fs_msg s)) < length (proc_table s)" using assms(2,3) by (auto simp: valid_proc_nr_def)
  from exit_files_ok [OF assms(1) this, of "[0..<64]"] show ?thesis using assms(3) by (auto simp: fs_exit_def)
qed

section \<open>Sharing references\<close>

lemma share_add: "share i (f\<lparr>fd_cnt := fd_cnt f + 1\<rparr>) = share i f + (if fd_inode f = Some i then 1 else 0)"
  by (simp add: share_def)

lemma fork_step:
  assumes inv: "refs_inv (Some d # xs) s" and d: "d < 64" and held: "int (count_list (Some d # xs) (Some d)) < int (refs s d)"
  shows "\<exists>pin. desc_inode d s = Inr pin
    \<and> refs_inv xs (upd_inode (upd_desc s d (\<lambda>f. f\<lparr>fd_cnt := fd_cnt f + 1\<rparr>)) pin (\<lambda>n. n\<lparr>i_cnt := i_cnt n + 1\<rparr>))"
proof -
  note D = refs_invD [OF inv]
  have "desc_ok (f_desc_table s ! d) (int (refs s d) - int (count_list (Some d # xs) (Some d)))" using D(5) [OF d] .
  then obtain pin where pin: "fd_inode (f_desc_table s ! d) = Some pin" "pin < 64"
    "fd_cnt (f_desc_table s ! d) = int (refs s d) - int (count_list (Some d # xs) (Some d))"
    using held by (auto simp: desc_ok_def)
  let ?g = "\<lambda>f. f\<lparr>fd_cnt := fd_cnt f + 1\<rparr>"
  let ?t = "upd_inode (upd_desc s d ?g) pin (\<lambda>n. n\<lparr>i_cnt := i_cnt n + 1\<rparr>)"
  have rt: "refs ?t e = refs s e" for e by (simp add: refs_def upd_inode_def upd_desc_def)
  have it: "inode_refs ?t i = inode_refs s i + (if i = pin then 1 else 0)" for i
  proof -
    have "inode_refs ?t i = inode_refs (upd_desc s d ?g) i" by (simp add: inode_refs_def upd_inode_def)
    then show ?thesis using inode_refs_upd_desc [of d s ?g i] D(1) d pin(1) by (auto simp: share_add)
  qed
  have "desc_ok (f_desc_table ?t ! e) (int (refs ?t e) - int (count_list xs (Some e)))" if "e < 64" for e
    using D(5) [OF that] D(1) d pin held unfolding rt
    by (auto simp: desc_ok_def upd_inode_def upd_desc_def nth_list_update)
  moreover have "i_cnt (inode_of ?t i) = inode_refs ?t i + (if i = root_inode ?t then 1 else 0)" if "i < 64" for i
    using D(6) [OF that] D(2) it [of i] pin(2) that by (auto simp: upd_inode_def upd_desc_def nth_list_update)
  ultimately have "refs_inv xs ?t" using inv by (simp add: refs_inv_def upd_inode_def upd_desc_def)
  then show ?thesis using pin(1) by (auto simp: desc_inode_def)
qed

lemma fork_files_ok:
  "refs_inv xs s \<Longrightarrow> (\<And>d. Some d \<in> set xs \<Longrightarrow> d < 64 \<and> int (count_list xs (Some d)) < int (refs s d)) \<Longrightarrow>
     \<exists>s'. fork_files xs s = Inr s' \<and> refs_ok s' \<and> proc_table s' = proc_table s"
proof (induction xs arbitrary: s)
  case (Cons x xs)
  show ?case
  proof (cases x)
    case None
    have "refs_inv xs s" using Cons.prems(1) None by (simp add: refs_inv_def)
    then show ?thesis using Cons.IH [of s] Cons.prems(2) None by auto
  next
    case (Some d)
    have d: "d < 64" "int (count_list (Some d # xs) (Some d)) < int (refs s d)" using Cons.prems(2) [of d] Some by auto
    from fork_step [of d xs s] d Cons.prems(1) Some obtain pin where pin: "desc_inode d s = Inr pin"
      and ok: "refs_inv xs (upd_inode (upd_desc s d (\<lambda>f. f\<lparr>fd_cnt := fd_cnt f + 1\<rparr>)) pin (\<lambda>n. n\<lparr>i_cnt := i_cnt n + 1\<rparr>))"
      (is "refs_inv xs ?t") by auto
    have t: "proc_table ?t = proc_table s" "refs ?t e = refs s e" for e by (simp_all add: refs_def upd_inode_def upd_desc_def)
    have "e < 64 \<and> int (count_list xs (Some e)) < int (refs ?t e)" if "Some e \<in> set xs" for e
      using Cons.prems(2) [of e] that t(2) by (auto split: if_splits)
    from Cons.IH [OF ok this] obtain s' where "fork_files xs ?t = Inr s'" "refs_ok s'" "proc_table s' = proc_table s" using t(1) by auto
    then show ?thesis using Some pin by auto
  qed
qed simp

text \<open>
  Fork shares the open files. MM copies the parent's process entry to a free slot that has no files and then FS handles FORK:
  every copied reference is counted, so that the counts of descriptors and i-nodes are exact again.
\<close>

lemma fs_fork_refs:
  assumes "refs_ok s" and "length (proc_table s) = 37" and "parent < 37" and "child < 37" and "parent \<noteq> child"
    and "filp (proc_of s child) = replicate 64 None" and "m3i2 (fs_msg s) = int child"
  shows "\<exists>s'. fs_fork (upd_proc s child (\<lambda>p. p\<lparr>filp := filp (proc_of s parent)\<rparr>)) = Inr (0, s')
    \<and> refs_ok s' \<and> filp (proc_of s' child) = filp (proc_of s parent)"
proof -
  let ?xs = "filp (proc_of s parent)"
  let ?t = "upd_proc s child (\<lambda>p. p\<lparr>filp := ?xs\<rparr>)"
  note D = refs_invD [OF assms(1)]
  have "count_list (replicate n None) (Some d) = 0" for n d by (induction n) auto
  then have rt: "int (refs ?t d) = int (refs s d) + int (count_list ?xs (Some d))" for d
    using refs_upd_filp [of child s ?xs d] assms(2,4,6) by simp
  have files: "\<forall>q \<in> set (proc_table s). length (filp q) = 64 \<and> (\<forall>e. Some e \<in> set (filp q) \<longrightarrow> e < 64)" using assms(1) by (simp add: refs_inv_def)
  have par: "proc_of s parent \<in> set (proc_table s)" using assms(2,3) by simp
  have "length (filp q) = 64 \<and> (\<forall>e. Some e \<in> set (filp q) \<longrightarrow> e < 64)" if "q \<in> set (proc_table ?t)" for q
  proof -
    have "q \<in> set (proc_table s) \<or> q = (proc_of s child)\<lparr>filp := ?xs\<rparr>"
      using that set_update_subset_insert [of "proc_table s" child] by (auto simp: upd_proc_def)
    then show ?thesis using files par by auto
  qed
  moreover have "desc_ok (f_desc_table ?t ! d) (int (refs ?t d) - int (count_list ?xs (Some d)))" if "d < 64" for d
    using D(5) [OF that] rt [of d] by (simp add: upd_proc_def)
  ultimately have inv: "refs_inv ?xs ?t"
    using assms(1) by (simp add: refs_inv_def inode_refs_def upd_proc_def)
  have "d < 64 \<and> int (count_list ?xs (Some d)) < int (refs ?t d)" if mem: "Some d \<in> set ?xs" for d
  proof -
    obtain f where f: "f < length ?xs" "?xs ! f = Some d" using mem in_set_conv_nth [of "Some d" ?xs] by blast
    then have "0 < refs s d" using refs_pos [of parent s f d] assms(2,3) by simp
    then show ?thesis using rt [of d] files par mem by auto
  qed
  from fork_files_ok [OF inv this] obtain s' where "fork_files ?xs ?t = Inr s'" "refs_ok s'" "proc_table s' = proc_table ?t" by blast
  moreover have "filp (proc_of ?t child) = ?xs" "valid_proc_nr (int child)" using assms(2,4) by (simp_all add: upd_proc_def valid_proc_nr_def)
  moreover have "m3i2 (fs_msg ?t) = int child" using assms(7) by (simp add: upd_proc_def)
  ultimately show ?thesis by (simp add: fs_fork_def)
qed

section \<open>Opening a file that exists\<close>

lemma rw_sector_tables: "rw_sector io dev pos bytes p b s = Inr t \<Longrightarrow> same_tables s t"
  by (auto simp: rw_sector_def res_simps same_tables_def Let_def split: if_splits)

lemma RD_SECT_tables: "RD_SECT dev q s = Inr t \<Longrightarrow> same_tables s t"
  unfolding RD_SECT_def by (rule rw_sector_tables)

lemma same_tables_trans: "same_tables s t \<Longrightarrow> same_tables t u \<Longrightarrow> same_tables s u"
  by (simp add: same_tables_def)

lemma search_blocks_tables: "search_blocks name dir i m s = Inr (nr, t) \<Longrightarrow> same_tables s t"
proof (induction name dir i m s rule: search_blocks.induct)
  case (1 name dir i m s)
  show ?case
  proof (cases "i < dir_blks 511 dir")
    case True
    with 1(2) obtain s1 where s1: "RD_SECT (i_dev dir) (sint (i_start_sect dir) + i) s = Inr s1"
      by (subst (asm) search_blocks.simps) (auto simp: res_simps)
    obtain x m' where sb: "search_block name (dir_entries dir) s1 0 m = (x, m')" by force
    have "(case (x, m') of (Some nr, _) \<Rightarrow> Inr (nr, s1)
        | (None, m') \<Rightarrow> if m' > dir_entries dir then Inr (0, s1) else search_blocks name dir (i + 1) m' s1) = Inr (nr, t)"
      using 1(2) True s1 sb by (subst (asm) search_blocks.simps) simp
    then consider "t = s1" | "x = None" "\<not> m' > dir_entries dir" "search_blocks name dir (i + 1) m' s1 = Inr (nr, t)"
      by (auto split: option.splits if_splits)
    then show ?thesis
    proof cases
      case 2
      then have "same_tables s1 t" using 1(1) [OF True sb [symmetric]] by simp
      then show ?thesis using RD_SECT_tables [OF s1] same_tables_trans by blast
    qed (use RD_SECT_tables [OF s1] in simp)
  next
    case False
    then show ?thesis using 1(2) by (subst (asm) search_blocks.simps) (simp add: same_tables_def)
  qed
qed

lemma search_file_tables: "search_file path s = Inr (nr, t) \<Longrightarrow> same_tables s t"
  by (auto simp: search_file_def same_tables_def dest: search_blocks_tables [unfolded same_tables_def] split: option.splits if_splits)

lemma inode_scan_hit:
  "inode_scan dev num ps i q = (Some p, q') \<Longrightarrow> i \<le> p \<and> p < i + length ps"
  by (induction dev num ps i q rule: inode_scan.induct) (auto split: if_splits)

lemma inode_scan_free:
  "inode_scan dev num ps i q = (None, Some k) \<Longrightarrow> q = Some k \<or> (i \<le> k \<and> k < i + length ps \<and> i_cnt (ps ! (k - i)) = 0)"
proof (induction dev num ps i q rule: inode_scan.induct)
  case (2 dev num p ps i q)
  then show ?case by (cases "k = i") (auto split: if_splits simp: Suc_diff_le nth_Cons')
qed simp

text \<open>An i-node obtained has one more reference; nothing else changes in the tables.\<close>

lemma get_inode_count:
  assumes "get_inode dev num s = Inr (Some p, t)"
  shows "p < length (inode_table s) \<and> proc_table t = proc_table s \<and> f_desc_table t = f_desc_table s \<and> root_inode t = root_inode s
    \<and> pcaller t = pcaller s \<and> (\<exists>n. inode_table t = (inode_table s)[p := n] \<and> i_cnt n = i_cnt (inode_of s p) + 1)"
proof -
  have num: "num \<noteq> 0" using assms by (auto simp: get_inode_def)
  obtain h q where scan: "inode_scan dev num (inode_table s) 0 None = (h, q)" by force
  show ?thesis
  proof (cases h)
    case (Some r)
    then have "p = r" "t = upd_inode s p (\<lambda>n. n\<lparr>i_cnt := i_cnt n + 1\<rparr>)" using assms scan num by (auto simp: get_inode_def)
    then show ?thesis using inode_scan_hit [OF scan [unfolded Some]] by (auto simp: upd_inode_def)
  next
    case None
    then obtain k where k: "q = Some k" using assms scan num by (cases q) (auto simp: get_inode_def)
    let ?s1 = "upd_inode s k (\<lambda>n. n\<lparr>i_dev := dev, i_num := num, i_cnt := 1\<rparr>)"
    obtain sb s2 where s2: "RD_SECT dev (inode_blk sb num) ?s1 = Inr s2" and t: "p = k" "t = upd_inode s2 k (load_inode (mem s2) (inode_addr num))"
      using assms scan num None k by (auto simp: get_inode_def Let_def res_simps)
    have "k < length (inode_table s)" "i_cnt (inode_of s k) = 0"
      using inode_scan_free [OF scan [unfolded None k]] by auto
    then show ?thesis using RD_SECT_tables [OF s2] t by (auto simp: same_tables_def upd_inode_def load_inode_def intro!: exI)
  qed
qed

lemma first_free_Some: "first_free xs i = Some k \<Longrightarrow> i \<le> k \<and> k < i + length xs \<and> xs ! (k - i) = None"
proof (induction xs arbitrary: i)
  case (Cons x xs)
  then show ?case by (cases x) (force simp: nth_Cons' Suc_diff_le split: if_splits)+
qed simp

lemma connect_refs:
  assumes inv: "refs_ok s" and p: "pcaller s < length (proc_table s)" and f: "f < 64" "filp (proc_of s (pcaller s)) ! f = None"
    and d: "d < 64" "fd_inode (f_desc_table s ! d) = None" and pin: "pin < 64"
    and t: "proc_table t = proc_table s" "f_desc_table t = f_desc_table s" "root_inode t = root_inode s" "pcaller t = pcaller s"
    "inode_table t = (inode_table s)[pin := n]" "i_cnt n = i_cnt (inode_of s pin) + 1"
  shows "refs_ok (connect f d pin flags t)"
proof -
  note D = refs_invD [OF inv]
  let ?f = "\<lparr>fd_mode = flags, fd_pos = 0, fd_cnt = 1, fd_inode = Some pin\<rparr>"
  let ?t1 = "upd_proc t (pcaller t) (\<lambda>p. p\<lparr>filp := (filp p)[f := Some d]\<rparr>)"
  let ?u = "connect f d pin flags t"
  have r0: "refs s d = 0" "fd_cnt (f_desc_table s ! d) = 0" using D(5) [OF d(1)] d(2) by (auto simp: desc_ok_def)
  have ru: "int (refs ?u e) = int (refs s e) + (if e = d then 1 else 0)" for e
  proof -
    have "refs ?u e = refs ?t1 e" "refs t e = refs s e" by (simp_all add: refs_def connect_def upd_desc_def t)
    then show ?thesis using refs_set_slot [of "pcaller t" t f "Some d" e] p f D(3) [OF p] by (auto simp: t)
  qed
  have iu: "inode_refs ?u i = inode_refs s i + (if i = pin then 1 else 0)" for i
  proof -
    have "inode_refs ?t1 i = inode_refs s i" "f_desc_table ?t1 = f_desc_table s" by (simp_all add: inode_refs_def upd_proc_def t)
    then show ?thesis unfolding connect_def using inode_refs_upd_desc [of d ?t1 "\<lambda>_. ?f" i] D(1) d by (auto simp: share_def)
  qed
  have "desc_ok (f_desc_table ?u ! e) (int (refs ?u e))" if "e < 64" for e
    using D(5) [OF that] D(1) d r0 ru [of e] pin that by (auto simp: connect_def upd_desc_def upd_proc_def t desc_ok_def nth_list_update)
  moreover have "i_cnt (inode_of ?u i) = inode_refs ?u i + (if i = root_inode ?u then 1 else 0)" if "i < 64" for i
    using D(6) [OF that] D(2) iu [of i] pin that t(6) by (auto simp: connect_def upd_desc_def upd_proc_def t nth_list_update)
  moreover have "length (filp q) = 64 \<and> (\<forall>e. Some e \<in> set (filp q) \<longrightarrow> e < 64)" if "q \<in> set (proc_table ?u)" for q
  proof -
    have all: "\<forall>q \<in> set (proc_table s). length (filp q) = 64 \<and> (\<forall>e. Some e \<in> set (filp q) \<longrightarrow> e < 64)" using inv by (simp add: refs_inv_def)
    have "q \<in> set (proc_table s) \<or> q = (proc_of s (pcaller s))\<lparr>filp := (filp (proc_of s (pcaller s)))[f := Some d]\<rparr>"
      using that set_update_subset_insert [of "proc_table s" "pcaller s"] by (auto simp: connect_def upd_desc_def upd_proc_def t)
    then show ?thesis
      using all nth_mem [OF p] set_update_subset_insert [of "filp (proc_of s (pcaller s))" f "Some d"] d(1) by fastforce
  qed
  moreover have "length (f_desc_table ?u) = 64" "length (inode_table ?u) = 64"
    using D(1,2) by (simp_all add: connect_def upd_proc_def upd_desc_def t)
  ultimately show ?thesis by (simp add: refs_inv_def)
qed

lemma open_checks_tables: "open_checks p s = Inr t \<Longrightarrow> same_tables s t"
  by (auto simp: open_checks_def Let_def res_simps same_tables_def split: if_splits)

text \<open>
  Opening a file without \<^verbatim>\<open>O_CREAT\<close> keeps the reference counts exact, whether it succeeds or not.
\<close>

lemma do_open_refs:
  assumes "refs_ok s" and "pcaller s < length (proc_table s)" and "word_of_int (m3i1 (fs_msg s)) AND O_CREAT = 0"
    and "do_open s = Inr (r, s')"
  shows "refs_ok s' \<and> length (proc_table s') = length (proc_table s)"
proof -
  obtain path fd i nr s1 pin s2 where
    fd: "first_free (filp (proc_of s (pcaller s))) 0 = Some fd" and i: "first_free (map fd_inode (f_desc_table s)) 0 = Some i"
    and sf: "search_file path s = Inr (nr, s1)" and oi: "open_inode (m3i1 (fs_msg s)) path nr s1 = Inr (pin, s2)"
    and last: "(case pin of None \<Rightarrow> Inr (-1, s2) | Some p \<Rightarrow> res_bind (open_checks p (connect fd i p (m3i1 (fs_msg s)) s2)) (\<lambda>s3. Inr (int fd, s3))) = Inr (r, s')"
    using assms(4) by (auto simp: do_open_def Let_def res_simps)
  note D = refs_invD [OF assms(1)]
  have st: "same_tables s s1" using search_file_tables [OF sf] .
  have ok1: "refs_ok s1" using refs_inv_cong [OF st] assms(1) by simp
  have gi: "(pin = None \<and> s2 = s1) \<or> (\<exists>dev. get_inode dev nr s1 = Inr (pin, s2))"
    using oi assms(3) by (auto simp: open_inode_def res_simps split: option.splits)
  show ?thesis
  proof (cases pin)
    case None
    then have "s2 = s1" using gi by (auto simp: get_inode_def Let_def res_simps split: if_splits prod.splits option.splits)
    then show ?thesis using ok1 last None st by (simp add: same_tables_def)
  next
    case (Some p)
    then obtain dev where "get_inode dev nr s1 = Inr (Some p, s2)" using gi by auto
    note g = get_inode_count [OF this]
    obtain s3 where s3: "open_checks p (connect fd i p (m3i1 (fs_msg s)) s2) = Inr s3" "s' = s3" using last Some by (auto simp: res_simps)
    have "refs_ok (connect fd i p (m3i1 (fs_msg s)) s2)"
    proof -
      obtain n where n: "inode_table s2 = (inode_table s1)[p := n]" "i_cnt n = i_cnt (inode_of s1 p) + 1" using g by blast
      have "pcaller s1 < length (proc_table s1)" "fd < 64" "filp (proc_of s1 (pcaller s1)) ! fd = None" "i < 64" "fd_inode (f_desc_table s1 ! i) = None" "p < 64"
        using st g D(1,2) D(3) [OF assms(2)] assms(2) first_free_Some [OF fd] first_free_Some [OF i] by (auto simp: same_tables_def)
      then show ?thesis using connect_refs [OF ok1, of fd i p s2 n] g n by blast
    qed
    moreover have "length (proc_table (connect fd i p (m3i1 (fs_msg s)) s2)) = length (proc_table s)"
      using g st by (auto simp: connect_def upd_desc_def same_tables_def)
    ultimately show ?thesis
      using refs_inv_cong [OF open_checks_tables [OF s3(1)]] open_checks_tables [OF s3(1)] s3(2) by (simp add: same_tables_def)
  qed
qed

end
