(* ===== verification/Fs_Mkfs.thy ===== *)
theory Fs_Mkfs
  imports Fs_Refs Console
begin

text \<open>
  The start of the file system task (\<^verbatim>\<open>init_fs\<close> and \<^verbatim>\<open>mkfs\<close> of \<^verbatim>\<open>fs/main.c\<close>): it makes a new file
  system on the root device, loads its super block and the i-node of the root directory. The
  geometry of the device is what the driver answers to \<^verbatim>\<open>DEV_IOCTL\<close> (theory Hd). The theorem says what is on the
  disk afterwards, that the three terminals are found under their names and that the reference counts of
  the tables start out exact.
\<close>

section \<open>Making the file system\<close>

text \<open>The super block of a device of the given size. \<^verbatim>\<open>sb_dev\<close> is not part of what is written.\<close>

definition mkfs_sb :: "part_info \<Rightarrow> super_block" where
  "mkfs_sb geo =
     (let bits_per_sect = of_nat (SECTOR_SIZE * 8);
          nr_inode_sects = bits_per_sect * of_nat INODE_SIZE div of_nat SECTOR_SIZE;
          nr_smap_sects = part_size geo div bits_per_sect + 1 in
      \<lparr>magic = MAGIC_V1, nr_inodes = bits_per_sect, nr_sects = part_size geo, nr_imap_sects = 1, nr_smap_sects = nr_smap_sects,
       n_1st_sect = 1 + 1 + 1 + nr_smap_sects + nr_inode_sects, nr_inode_sects = nr_inode_sects,
       sb_root_inode = word_of_int ROOT_INODE, inode_size = of_nat INODE_SIZE, inode_isize_off = 4, inode_start_off = 8,
       dir_ent_size = of_nat DIR_ENTRY_SIZE, dir_ent_inode_off = 0, dir_ent_fname_off = 4, sb_dev = NO_DEV\<rparr>)"

definition clear_fsbuf :: "u8 \<Rightarrow> fs \<Rightarrow> fs" where
  "clear_fsbuf b s = s\<lparr>mem := memset (mem s) fsbuf b SECTOR_SIZE\<rparr>"

definition mkfs_super :: "super_block \<Rightarrow> fs \<Rightarrow> fs res" where
  "mkfs_super sb s =
     (let s1 = clear_fsbuf 0x90 s in
      WR_SECT ROOT_DEV 1 (s1\<lparr>mem := write_bytes (mem s1) fsbuf (concat (map bytes_of_u32 (sb_fields sb)))\<rparr>))"

text \<open>The loops that set single bits of one byte of the buffer.\<close>

definition set_bits :: "nat \<Rightarrow> nat \<Rightarrow> fs \<Rightarrow> fs" where
  "set_bits i n s = fold (\<lambda>j t. set_fb i (fb t i OR push_bit j 1) t) [0..<n] s"

definition mkfs_imap :: "fs \<Rightarrow> fs res" where
  "mkfs_imap s =
     (let s1 = set_bits 0 (NR_CONSOLES + 2) (clear_fsbuf 0 s) in
      kassert (fb s1 0 = 0x1F) ''mkfs: fsbuf[0] == 0x1F'' (WR_SECT ROOT_DEV 2 s1))"

definition fill_smap :: "fs \<Rightarrow> fs" where
  "fill_smap s =
     (let nr_sects = nat NR_DEFAULT_FILE_SECTS + 1 in
      set_bits (nr_sects div 8) (nr_sects mod 8) (fold (\<lambda>i. set_fb i 0xFF) [0..<nr_sects div 8] s))"

primrec zero_smap :: "super_block \<Rightarrow> nat list \<Rightarrow> fs \<Rightarrow> fs res" where
  "zero_smap sb [] s = Inr s"
| "zero_smap sb (i # is) s =
     res_bind (WR_SECT ROOT_DEV (uint (2 + nr_imap_sects sb + of_nat i)) s) (zero_smap sb is)"

definition mkfs_smap :: "super_block \<Rightarrow> fs \<Rightarrow> fs res" where
  "mkfs_smap sb s =
     res_bind (WR_SECT ROOT_DEV (uint (2 + nr_imap_sects sb)) (fill_smap (clear_fsbuf 0 s))) (\<lambda>s1.
     zero_smap sb [1..<unat (nr_smap_sects sb)] (clear_fsbuf 0 s1))"

definition root_dir_inode :: "super_block \<Rightarrow> inode" where
  "root_dir_inode sb = no_inode\<lparr>i_mode := I_DIRECTORY, i_size := of_nat (DIR_ENTRY_SIZE * 4), i_start_sect := n_1st_sect sb,
     i_nr_sects := word_of_int NR_DEFAULT_FILE_SECTS\<rparr>"

definition tty_inode :: "nat \<Rightarrow> inode" where
  "tty_inode i = no_inode\<lparr>i_mode := I_CHAR_SPECIAL, i_size := 0, i_start_sect := word_of_int (MAKE_DEV DEV_CHAR_TTY (int i)), i_nr_sects := 0\<rparr>"

definition put_fsbuf_inode :: "nat \<Rightarrow> inode \<Rightarrow> fs \<Rightarrow> fs" where
  "put_fsbuf_inode i p s = s\<lparr>mem := store_inode p (fsbuf + of_nat (INODE_SIZE * i)) (mem s)\<rparr>"

definition mkfs_inodes :: "super_block \<Rightarrow> fs \<Rightarrow> fs res" where
  "mkfs_inodes sb s =
     WR_SECT ROOT_DEV (uint (2 + nr_imap_sects sb + nr_smap_sects sb))
       (fold (\<lambda>i. put_fsbuf_inode (i + 1) (tty_inode i)) [0..<NR_CONSOLES] (put_fsbuf_inode 0 (root_dir_inode sb) (clear_fsbuf 0 s)))"

text \<open>The bytes of a C string.\<close>

definition str_bytes :: "string \<Rightarrow> u8 list" where
  "str_bytes t = map of_char t"

primrec tty_entries :: "nat list \<Rightarrow> fs \<Rightarrow> fs res" where
  "tty_entries [] s = Inr s"
| "tty_entries (i # is) s =
     res_bind (vsprintf ''dev_tty%d'' [VInt (int i)]) (\<lambda>name. tty_entries is (write_entry (i + 1) (int i + 2) (str_bytes name) s))"

definition mkfs_root :: "super_block \<Rightarrow> fs \<Rightarrow> fs res" where
  "mkfs_root sb s =
     res_bind (tty_entries [0..<NR_CONSOLES] (write_entry 0 1 (str_bytes ''.'') (clear_fsbuf 0 s))) (WR_SECT ROOT_DEV (uint (n_1st_sect sb)))"

definition mkfs :: "part_info \<Rightarrow> fs \<Rightarrow> fs res" where
  "mkfs geo s =
     res_bind (driver_of ROOT_DEV) (\<lambda>_.
     let sb = mkfs_sb geo in
     res_bind (mkfs_super sb s) (\<lambda>s1.
     res_bind (mkfs_imap s1) (\<lambda>s2.
     res_bind (mkfs_smap sb s2) (\<lambda>s3.
     res_bind (mkfs_inodes sb s3) (mkfs_root sb)))))"

definition init_fs :: "part_info \<Rightarrow> fs \<Rightarrow> fs res" where
  "init_fs geo s =
     (let s1 = s\<lparr>f_desc_table := replicate NR_FILE_DESC no_desc, inode_table := replicate NR_INODE no_inode,
                 sb_table := map (\<lambda>sb. sb\<lparr>sb_dev := NO_DEV\<rparr>) (sb_table s)\<rparr> in
      res_bind (driver_of ROOT_DEV) (\<lambda>drv.
      res_bind (mkfs geo (s1\<lparr>fs_sent := fs_sent s1 @ [DevOpen drv (MINOR ROOT_DEV)]\<rparr>)) (\<lambda>s2.
      res_bind (read_super_block ROOT_DEV s2) (\<lambda>s3.
      res_bind (get_super_block ROOT_DEV s3) (\<lambda>sb.
      kassert (magic sb = MAGIC_V1) ''init_fs: magic'' (
      res_bind (get_inode ROOT_DEV ROOT_INODE s3) (\<lambda>(p, s4).
      case p of None \<Rightarrow> Inl (BadAccess ''root_inode'') | Some r \<Rightarrow> Inr (s4\<lparr>root_inode := r\<rparr>))))))))"

section \<open>The image\<close>

text \<open>
  What \<^verbatim>\<open>mkfs\<close> leaves in the sectors it writes, byte by byte, and the whole device: super block, i-node map, sector map, i-nodes,
  root directory.
\<close>

definition sb_img :: "super_block \<Rightarrow> nat \<Rightarrow> u8" where
  "sb_img sb l = (if l < 56 then concat (map bytes_of_u32 (sb_fields sb)) ! l else 0x90)"

definition imap_img :: "nat \<Rightarrow> u8" where
  "imap_img l = (if l = 0 then 0x1F else 0)"

definition smap_img :: "nat \<Rightarrow> u8" where
  "smap_img l = (if l < 256 then 0xFF else if l = 256 then 1 else 0)"

definition made_inode :: "super_block \<Rightarrow> nat \<Rightarrow> inode" where
  "made_inode sb i = (if i = 0 then root_dir_inode sb else tty_inode (i - 1))"

text \<open>The first \<open>n\<close> records of width \<open>w\<close>.\<close>

definition records_img :: "nat \<Rightarrow> (nat \<Rightarrow> u8 list) \<Rightarrow> nat \<Rightarrow> nat \<Rightarrow> u8" where
  "records_img w f n l = (if l < w * n \<and> l mod w < length (f (l div w)) then f (l div w) ! (l mod w) else 0)"

definition made_entry :: "nat \<Rightarrow> u8 list" where
  "made_entry i = entry_bytes (int i + 1) (if i = 0 then [0x2E] else [0x64, 0x65, 0x76, 0x5F, 0x74, 0x74, 0x79, of_nat (47 + i)])"

definition inode_img :: "super_block \<Rightarrow> nat \<Rightarrow> u8" where
  "inode_img sb = records_img 32 (\<lambda>i. inode_bytes (made_inode sb i)) 4"

definition dir_img :: "nat \<Rightarrow> u8" where
  "dir_img = records_img 16 made_entry 4"

definition fs_image :: "super_block \<Rightarrow> (nat \<Rightarrow> u8) \<Rightarrow> nat \<Rightarrow> u8" where
  "fs_image sb D x =
     (let q = x div 512; l = x mod 512; n = unat (nr_smap_sects sb) in
      if q = 1 then sb_img sb l else if q = 2 then imap_img l else if q = 3 then smap_img l
      else if 3 < q \<and> q < 3 + n then 0 else if q = 3 + n then inode_img sb l else if q = 259 + n then dir_img l else D x)"

lemma fs_image_at:
  assumes "l < 512"
  shows "fs_image sb D (q * 512 + l) =
    (if q = 1 then sb_img sb l else if q = 2 then imap_img l else if q = 3 then smap_img l
     else if 3 < q \<and> q < 3 + unat (nr_smap_sects sb) then 0 else if q = 3 + unat (nr_smap_sects sb) then inode_img sb l
     else if q = 259 + unat (nr_smap_sects sb) then dir_img l else D (q * 512 + l))"
  unfolding fs_image_def Let_def sector_split [OF assms] ..

section \<open>Filling the buffer\<close>

text \<open>\<open>shows_img s img t\<close>: the buffer of \<open>t\<close> holds \<open>img\<close> and nothing else of \<open>s\<close> was changed.\<close>

definition shows_img :: "fs \<Rightarrow> (nat \<Rightarrow> u8) \<Rightarrow> fs \<Rightarrow> bool" where
  "shows_img s img t \<longleftrightarrow> buffered s t \<and> disk t = disk s \<and> (\<forall>l<512. fb t l = img l)"

lemma shows_clear [simp]: "shows_img s (\<lambda>_. b) (clear_fsbuf b s)"
  by (simp add: shows_img_def clear_fsbuf_def buffered_def memset_outside fb_def memset_inside)

lemma shows_set:
  "shows_img s img t \<Longrightarrow> i < 512 \<Longrightarrow> shows_img s (img(i := b)) (set_fb i b t)"
  using buffered_trans [OF _ buffered_set_fb] by (auto simp: shows_img_def fb_set_fb)

lemma shows_write:
  assumes "shows_img s img t" and "i + length bs \<le> 512"
  shows "shows_img s (\<lambda>l. if i \<le> l \<and> l < i + length bs then bs ! (l - i) else img l) (t\<lparr>mem := write_bytes (mem t) (fsbuf + of_nat i) bs\<rparr>)"
  using assms buffered_trans [OF _ buffered_write [OF assms(2), of t], of s] fb_write [of _ i bs t] by (simp add: shows_img_def)

lemma shows_cong: "shows_img s img t \<Longrightarrow> (\<And>l. l < 512 \<Longrightarrow> img l = img' l) \<Longrightarrow> shows_img s img' t"
  by (simp add: shows_img_def)

lemma shows_fill:
  "n \<le> 512 \<Longrightarrow> shows_img s img t \<Longrightarrow> shows_img s (\<lambda>l. if l < n then b else img l) (fold (\<lambda>i. set_fb i b) [0..<n] t)"
proof (induction n)
  case (Suc n)
  then show ?case
    using shows_set [of s "\<lambda>l. if l < n then b else img l" "fold (\<lambda>i. set_fb i b) [0..<n] t" n b]
    by (auto elim!: shows_cong)
qed simp

lemma shows_bits:
  assumes "shows_img s img t" and "i < 512"
  shows "shows_img s (img(i := img i OR mask n)) (set_bits i n t)"
  unfolding set_bits_def
proof (induction n)
  case (Suc n)
  let ?t = "fold (\<lambda>j t. set_fb i (fb t i OR push_bit j 1) t) [0..<n] t"
  have "fb ?t i = img i OR mask n" using Suc assms(2) by (simp add: shows_img_def)
  moreover have "(img i OR mask n) OR push_bit n 1 = img i OR mask (Suc n)"
    by (rule bit_eqI) (auto simp: bit_simps less_Suc_eq)
  ultimately show ?case using shows_set [OF Suc assms(2), of "fb ?t i OR push_bit n 1"] by (auto elim!: shows_cong)
qed (use assms in simp)

section \<open>Writing the sectors\<close>

definition wrote :: "nat \<Rightarrow> (nat \<Rightarrow> u8) \<Rightarrow> fs \<Rightarrow> fs \<Rightarrow> bool" where
  "wrote q img s s' \<longleftrightarrow> buffered s s' \<and> (\<forall>l<512. fb s' l = img l)
     \<and> (\<forall>d x. disk s' d x = (if d = ROOT_DEV \<and> x div 512 = q then img (x mod 512) else disk s d x))"

lemma write_image:
  assumes "fs_flat s" and "shows_img s img t" and "q < 2 ^ 22"
  shows "\<exists>s'. WR_SECT ROOT_DEV (int q) t = Inr s' \<and> wrote q img s s'"
proof -
  have "fs_flat t" using assms(1,2) buffered_fields(9) [of s t] by (simp add: shows_img_def)
  then have "WR_SECT ROOT_DEV (int q) t = Inr (store_sector ROOT_DEV q t)" using assms(3) WR_SECT_eq [of t ROOT_DEV "int q"] by simp
  moreover have "wrote q img s (store_sector ROOT_DEV q t)"
    using assms(2) buffered_trans [OF _ buffered_store [of t ROOT_DEV q], of s]
    by (auto simp: wrote_def shows_img_def disk_store_sector)
  ultimately show ?thesis by blast
qed

lemma mkfs_super_ok:
  assumes "fs_flat s"
  shows "\<exists>s'. mkfs_super sb s = Inr s' \<and> wrote 1 (sb_img sb) s s'"
proof -
  have len: "length (concat (map bytes_of_u32 (sb_fields sb))) = 56" by (simp add: sb_fields_def)
  have "shows_img s (sb_img sb) ((clear_fsbuf 0x90 s)\<lparr>mem := write_bytes (mem (clear_fsbuf 0x90 s)) (fsbuf + of_nat 0)
      (concat (map bytes_of_u32 (sb_fields sb)))\<rparr>)"
    by (rule shows_cong [OF shows_write [OF shows_clear]]) (simp_all add: len sb_img_def)
  from write_image [OF assms this, of 1] show ?thesis by (simp add: mkfs_super_def Let_def)
qed

lemma mkfs_imap_ok:
  assumes "fs_flat s"
  shows "\<exists>s'. mkfs_imap s = Inr s' \<and> wrote 2 imap_img s s'"
proof -
  have "shows_img s imap_img (set_bits 0 5 (clear_fsbuf 0 s))"
    by (rule shows_cong [OF shows_bits [OF shows_clear]]) (simp_all add: imap_img_def mask_eq_exp_minus_1)
  from write_image [OF assms this, of 2] this show ?thesis by (auto simp: mkfs_imap_def Let_def shows_img_def imap_img_def)
qed

lemma fill_smap_ok: "shows_img s smap_img (fill_smap (clear_fsbuf 0 s))"
proof -
  have "shows_img s (\<lambda>l. if l < 256 then 0xFF else 0) (fold (\<lambda>i. set_fb i 0xFF) [0..<256] (clear_fsbuf 0 s))"
    by (rule shows_fill) simp_all
  from shows_bits [OF this, of 256 1] show ?thesis
    by (simp add: fill_smap_def Let_def) (auto elim!: shows_cong simp: smap_img_def)
qed

lemma uint_u32_of_nat: "n < 2 ^ 32 \<Longrightarrow> uint (of_nat n :: u32) = int n"
  by (simp add: unsigned_of_nat take_bit_nat_eq_self)

lemma zero_smap_ok:
  assumes "fs_flat s" and "nr_imap_sects sb = 1" and "\<forall>i \<in> set is. i < 2 ^ 21" and "\<forall>l<512. fb s l = 0"
  shows "\<exists>s'. zero_smap sb is s = Inr s' \<and> buffered s s'
    \<and> (\<forall>d x. disk s' d x = (if d = ROOT_DEV \<and> x div 512 \<in> (\<lambda>i. 3 + i) ` set is then 0 else disk s d x))"
  using assms(1,3,4)
proof (induction "is" arbitrary: s)
  case (Cons i rest)
  have "uint (2 + nr_imap_sects sb + of_nat i) = int (3 + i)"
    using Cons.prems(2) assms(2) uint_u32_of_nat [of "3 + i"] by simp
  moreover have "shows_img s (\<lambda>_. 0) s" using Cons.prems(3) by (simp add: shows_img_def)
  ultimately obtain s1 where s1: "WR_SECT ROOT_DEV (uint (2 + nr_imap_sects sb + of_nat i)) s = Inr s1" "wrote (3 + i) (\<lambda>_. 0) s s1"
    using write_image [OF Cons.prems(1), of "\<lambda>_. 0" s "3 + i"] Cons.prems(2) by auto
  then have "fs_flat s1" using Cons.prems(1) buffered_fields(9) [of s s1] by (simp add: wrote_def)
  from Cons.IH [OF this] obtain s2 where "zero_smap sb rest s1 = Inr s2" "buffered s1 s2"
    "\<forall>d x. disk s2 d x = (if d = ROOT_DEV \<and> x div 512 \<in> (\<lambda>i. 3 + i) ` set rest then 0 else disk s1 d x)"
    using Cons.prems(2) s1(2) by (auto simp: wrote_def)
  then show ?case using s1 buffered_trans [of s s1 s2] by (auto simp: wrote_def)
qed simp

lemma mkfs_smap_ok:
  assumes "fs_flat s" and "nr_imap_sects sb = 1" and "unat (nr_smap_sects sb) \<le> 2 ^ 21"
  shows "\<exists>s'. mkfs_smap sb s = Inr s' \<and> buffered s s' \<and> (\<forall>d x. disk s' d x =
    (if d = ROOT_DEV \<and> x div 512 = 3 then smap_img (x mod 512)
     else if d = ROOT_DEV \<and> 3 < x div 512 \<and> x div 512 < 3 + unat (nr_smap_sects sb) then 0 else disk s d x))"
proof -
  obtain s1 where s1: "WR_SECT ROOT_DEV 3 (fill_smap (clear_fsbuf 0 s)) = Inr s1" "wrote 3 smap_img s s1"
    using write_image [OF assms(1) fill_smap_ok, of 3] by auto
  have c: "shows_img s1 (\<lambda>_. 0) (clear_fsbuf 0 s1)" by simp
  then have b: "buffered s (clear_fsbuf 0 s1)" using s1(2) buffered_trans [of s s1] by (simp add: shows_img_def wrote_def)
  then have "fs_flat (clear_fsbuf 0 s1)" using assms(1) buffered_fields(9) by blast
  from zero_smap_ok [OF this assms(2), of "[1..<unat (nr_smap_sects sb)]"] obtain s2 where
    s2: "zero_smap sb [1..<unat (nr_smap_sects sb)] (clear_fsbuf 0 s1) = Inr s2" "buffered (clear_fsbuf 0 s1) s2"
    "\<forall>d x. disk s2 d x = (if d = ROOT_DEV \<and> x div 512 \<in> (\<lambda>i. 3 + i) ` set [1..<unat (nr_smap_sects sb)] then 0
      else disk (clear_fsbuf 0 s1) d x)"
    using c assms(3) by (auto simp: shows_img_def)
  have "x \<in> (\<lambda>i. 3 + i) ` set [1..<n] \<longleftrightarrow> 3 < x \<and> x < 3 + n" for x n :: nat
    by (auto simp: image_iff intro!: bexI [of _ "x - 3"])
  with s2(3) have "disk s2 d x = (if d = ROOT_DEV \<and> x div 512 = 3 then smap_img (x mod 512)
     else if d = ROOT_DEV \<and> 3 < x div 512 \<and> x div 512 < 3 + unat (nr_smap_sects sb) then 0 else disk s d x)" for d x
    using c s1(2) by (simp add: shows_img_def wrote_def)
  then show ?thesis using s1(1) s2(1) buffered_trans [OF b s2(2)] assms(2) by (auto simp: mkfs_smap_def)
qed

lemma shows_record:
  assumes "shows_img s (records_img w f n) t" and "length (f n) \<le> w" and "w * n + w \<le> 512" and "0 < w"
  shows "shows_img s (records_img w f (Suc n)) (t\<lparr>mem := write_bytes (mem t) (fsbuf + of_nat (w * n)) (f n)\<rparr>)"
proof (rule shows_cong [OF shows_write [OF assms(1)]])
  show "w * n + length (f n) \<le> 512" using assms(2,3) by simp
  fix l
  show "(if w * n \<le> l \<and> l < w * n + length (f n) then f n ! (l - w * n) else records_img w f n l) = records_img w f (Suc n) l"
  proof (cases "w * n \<le> l \<and> l < w * n + w")
    case True
    then obtain k where "l = w * n + k" "k < w" by (auto simp: le_iff_add)
    then show ?thesis using assms(4) by (simp add: records_img_def)
  next
    case False
    then show ?thesis using assms(2) by (auto simp: records_img_def)
  qed
qed

lemma shows_no_record: "shows_img s (records_img w f 0) (clear_fsbuf 0 s)"
  using shows_clear [of s 0] by (rule shows_cong) (simp add: records_img_def)

lemma put_fsbuf_inode_bytes:
  "put_fsbuf_inode i p s = s\<lparr>mem := write_bytes (mem s) (fsbuf + of_nat (32 * i)) (inode_bytes p)\<rparr>"
  by (simp add: put_fsbuf_inode_def store_inode_bytes)

lemma mkfs_inodes_ok:
  assumes "fs_flat s" and "nr_imap_sects sb = 1" and "unat (nr_smap_sects sb) \<le> 2 ^ 21"
  shows "\<exists>s'. mkfs_inodes sb s = Inr s' \<and> wrote (3 + unat (nr_smap_sects sb)) (inode_img sb) s s'"
proof -
  note put = shows_record [of s 32 "\<lambda>i. inode_bytes (made_inode sb i)", folded put_fsbuf_inode_bytes]
  have "shows_img s (inode_img sb) (fold (\<lambda>i. put_fsbuf_inode (i + 1) (tty_inode i)) [0..<3] (put_fsbuf_inode 0 (root_dir_inode sb) (clear_fsbuf 0 s)))"
    using put [OF put [OF put [OF put [OF shows_no_record]]]] by (simp add: inode_img_def made_inode_def upt_conv_Cons numeral_eq_Suc)
  moreover have "uint (2 + nr_imap_sects sb + nr_smap_sects sb) = int (3 + unat (nr_smap_sects sb))"
    using assms(2,3) uint_u32_of_nat [of "3 + unat (nr_smap_sects sb)"] by simp
  ultimately show ?thesis
    using write_image [OF assms(1), of "inode_img sb" _ "3 + unat (nr_smap_sects sb)"] assms(3) by (simp add: mkfs_inodes_def)
qed

lemma tty_names:
  "vsprintf ''dev_tty%d'' [VInt 0] = Inr ''dev_tty0''" "vsprintf ''dev_tty%d'' [VInt 1] = Inr ''dev_tty1''"
  "vsprintf ''dev_tty%d'' [VInt 2] = Inr ''dev_tty2''"
  by code_simp+

lemma mkfs_root_ok:
  assumes "fs_flat s" and "unat (n_1st_sect sb) < 2 ^ 22"
  shows "\<exists>s'. mkfs_root sb s = Inr s' \<and> wrote (unat (n_1st_sect sb)) dir_img s s'"
proof -
  note put = shows_record [of s 16 made_entry]
  have e: "write_entry i (int i + 1) name t = t\<lparr>mem := write_bytes (mem t) (fsbuf + of_nat (16 * i)) (made_entry i)\<rparr>"
    if "made_entry i = entry_bytes (int i + 1) name" for i name t
    using that by (simp add: write_entry_bytes mult.commute)
  have n: "made_entry 0 = entry_bytes (int 0 + 1) (str_bytes ''.'')" "made_entry 1 = entry_bytes (int 1 + 1) (str_bytes ''dev_tty0'')"
    "made_entry 2 = entry_bytes (int 2 + 1) (str_bytes ''dev_tty1'')" "made_entry 3 = entry_bytes (int 3 + 1) (str_bytes ''dev_tty2'')"
    by (simp_all add: made_entry_def str_bytes_def)
  have "length (made_entry i) \<le> 16" for i by (simp add: made_entry_def)
  then obtain t where t: "tty_entries [0..<3] (write_entry 0 1 (str_bytes ''.'') (clear_fsbuf 0 s)) = Inr t" "shows_img s dir_img t"
    using put [OF put [OF put [OF put [OF shows_no_record]]]] tty_names e [OF n(1)] e [OF n(2)] e [OF n(3)] e [OF n(4)]
    by (simp add: dir_img_def upt_conv_Cons numeral_eq_Suc)
  then show ?thesis
    using write_image [OF assms(1) t(2) assms(2)] by (simp add: mkfs_root_def)
qed

lemma mkfs_sb_fields [simp]:
  "magic (mkfs_sb geo) = MAGIC_V1" "nr_imap_sects (mkfs_sb geo) = 1" "nr_inodes (mkfs_sb geo) = 4096" "nr_sects (mkfs_sb geo) = part_size geo"
  by (simp_all add: mkfs_sb_def Let_def)

lemma mkfs_sb_layout:
  "unat (nr_smap_sects (mkfs_sb geo)) = unat (part_size geo) div 4096 + 1"
  "unat (n_1st_sect (mkfs_sb geo)) = 260 + unat (part_size geo) div 4096"
  "unat (part_size geo) div 4096 < 2 ^ 20"
proof -
  have u: "unat (part_size geo div 4096) = unat (part_size geo) div 4096" by (simp add: unat_div)
  show b: "unat (part_size geo) div 4096 < 2 ^ 20" using unsigned_less [of "part_size geo", where 'a = nat] by (simp add: less_mult_imp_div_less)
  have small: "unat (w + of_nat k) = unat w + k" if "unat w < 2 ^ 20" "k < 2 ^ 20" for w :: u32 and k
    using that unat_add_lem [of w "of_nat k"] by (simp add: unsigned_of_nat take_bit_nat_eq_self)
  show "unat (nr_smap_sects (mkfs_sb geo)) = unat (part_size geo) div 4096 + 1"
    using small [of "part_size geo div 4096" 1] u b by (simp add: mkfs_sb_def Let_def)
  have "n_1st_sect (mkfs_sb geo) = part_size geo div 4096 + of_nat 260" by (simp add: mkfs_sb_def Let_def)
  then show "unat (n_1st_sect (mkfs_sb geo)) = 260 + unat (part_size geo) div 4096"
    using small [of "part_size geo div 4096" 260] u b by simp
qed

lemma mkfs_ok:
  assumes "fs_flat s"
  shows "\<exists>s'. mkfs geo s = Inr s' \<and> buffered s s'
    \<and> disk s' = (disk s)(ROOT_DEV := fs_image (mkfs_sb geo) (disk s ROOT_DEV))"
proof -
  let ?sb = "mkfs_sb geo" and ?n = "unat (nr_smap_sects (mkfs_sb geo))"
  have n: "?n \<le> 2 ^ 21" "unat (n_1st_sect ?sb) < 2 ^ 22" "unat (n_1st_sect ?sb) = 259 + ?n" "0 < ?n" using mkfs_sb_layout [of geo] by simp_all
  have flat: "buffered s t \<Longrightarrow> fs_flat t" for t using assms buffered_fields(9) by blast
  obtain s1 where s1: "mkfs_super ?sb s = Inr s1" "wrote 1 (sb_img ?sb) s s1" using mkfs_super_ok [OF assms] by blast
  then have b1: "buffered s s1" by (simp add: wrote_def)
  obtain s2 where s2: "mkfs_imap s1 = Inr s2" "wrote 2 imap_img s1 s2" using mkfs_imap_ok [OF flat [OF b1]] by blast
  then have b2: "buffered s s2" using buffered_trans [OF b1] by (simp add: wrote_def)
  obtain s3 where s3: "mkfs_smap ?sb s2 = Inr s3" "buffered s2 s3" and d3: "\<forall>d x. disk s3 d x =
    (if d = ROOT_DEV \<and> x div 512 = 3 then smap_img (x mod 512)
     else if d = ROOT_DEV \<and> 3 < x div 512 \<and> x div 512 < 3 + ?n then 0 else disk s2 d x)"
    using mkfs_smap_ok [OF flat [OF b2] _ n(1)] by auto
  then have b3: "buffered s s3" using buffered_trans [OF b2] by simp
  obtain s4 where s4: "mkfs_inodes ?sb s3 = Inr s4" "wrote (3 + ?n) (inode_img ?sb) s3 s4"
    using mkfs_inodes_ok [OF flat [OF b3] _ n(1)] by auto
  then have b4: "buffered s s4" using buffered_trans [OF b3] by (simp add: wrote_def)
  obtain s5 where s5: "mkfs_root ?sb s4 = Inr s5" "wrote (259 + ?n) dir_img s4 s5"
    using mkfs_root_ok [OF flat [OF b4] n(2)] n(3) by auto
  then have b5: "buffered s s5" using buffered_trans [OF b4] by (simp add: wrote_def)
  have "disk s5 = (disk s)(ROOT_DEV := fs_image ?sb (disk s ROOT_DEV))"
    using n(4) s1(2) s2(2) d3 s4(2) s5(2) by (auto simp: wrote_def fs_image_def Let_def fun_eq_iff)
  then show ?thesis using s1(1) s2(1) s3(1) s4(1) s5(1) b5 by (simp add: mkfs_def Let_def driver_of_hd)
qed

section \<open>Starting the file system\<close>

lemma read_u32_list:
  "read_bytes m a (4 * length ws) = concat (map bytes_of_u32 ws) \<Longrightarrow> i < length ws \<Longrightarrow> read_u32 m (a + of_nat (4 * i)) = ws ! i"
proof (induction ws arbitrary: a i)
  case (Cons w ws)
  have "read_bytes m a (4 + 4 * length ws) = bytes_of_u32 w @ concat (map bytes_of_u32 ws)" using Cons.prems(1) by simp
  then have "read_bytes m a 4 = bytes_of_u32 w" "read_bytes m (a + of_nat 4) (4 * length ws) = concat (map bytes_of_u32 ws)"
    unfolding read_bytes_add by simp_all
  then show ?case using Cons.IH [of "a + of_nat 4" "i - 1"] Cons.prems(2)
    by (cases i) (simp_all add: read_u32_def u32_bytes_roundtrip add.assoc)
qed simp

lemma read_sb_bytes:
  assumes "read_bytes m a 56 = concat (map bytes_of_u32 (sb_fields sb))"
  shows "read_sb m a dev = sb\<lparr>sb_dev := dev\<rparr>"
proof -
  have "i < 14 \<Longrightarrow> read_u32 m (a + of_nat (4 * i)) = sb_fields sb ! i" for i
    using read_u32_list [of m a "sb_fields sb" i] assms by (simp add: sb_fields_def)
  from this [of 0] this [of 1] this [of 2] this [of 3] this [of 4] this [of 5] this [of 6] this [of 7] this [of 8] this [of 9]
    this [of 10] this [of 11] this [of 12] this [of 13]
  show ?thesis by (cases sb) (simp add: read_sb_def sb_fields_def)
qed

lemma scan_free: "inode_scan dev num (replicate n no_inode) i (Some q) = (None, Some q)"
  by (induction n arbitrary: i) (simp_all add: no_inode_def)

lemma image_inode:
  assumes "disk s ROOT_DEV = fs_image sb D" and "nr_imap_sects sb = 1" and "i < 4" and "0 < unat (nr_smap_sects sb)"
  shows "disk_inode s ROOT_DEV sb i = inode_bytes (made_inode sb i)"
proof (rule nth_equalityI)
  fix k assume "k < length (disk_inode s ROOT_DEV sb i)"
  then have k: "k < 16" by (simp add: disk_inode_def)
  let ?n = "unat (nr_smap_sects sb)"
  have l: "i * 32 + k < 512" "i * 32 + k < 128" using k assms(3) by simp_all
  have "inode_off sb i + k = (3 + ?n) * 512 + (i * 32 + k)" by (simp add: inode_off_def assms(2))
  then have "fs_image sb D (inode_off sb i + k) = inode_img sb (i * 32 + k)"
    using fs_image_at [OF l(1), of sb D "3 + ?n"] assms(4) by (simp add: add.assoc)
  also have "\<dots> = inode_bytes (made_inode sb i) ! k" using k l by (simp add: inode_img_def records_img_def)
  finally show "disk_inode s ROOT_DEV sb i ! k = inode_bytes (made_inode sb i) ! k" using k by (simp add: disk_inode_def assms(1))
qed (simp add: disk_inode_def)

lemma image_sb:
  assumes "disk s ROOT_DEV = fs_image sb D"
  shows "read_sb (mem (load_sector ROOT_DEV 1 s)) fsbuf dev = sb\<lparr>sb_dev := dev\<rparr>"
proof (rule read_sb_bytes)
  have "length (concat (map bytes_of_u32 (sb_fields sb))) = 56" by (simp add: sb_fields_def)
  moreover have "fb (load_sector ROOT_DEV 1 s) k = concat (map bytes_of_u32 (sb_fields sb)) ! k" if "k < 56" for k
    using that fb_load_sector [of k ROOT_DEV 1 s] fs_image_at [of k sb D 1] by (simp add: assms sb_img_def)
  ultimately show "read_bytes (mem (load_sector ROOT_DEV 1 s)) fsbuf 56 = concat (map bytes_of_u32 (sb_fields sb))"
    using read_bytes_fb [of "load_sector ROOT_DEV 1 s" 0 56] by (intro nth_equalityI) simp_all
qed

definition fresh_root :: "super_block \<Rightarrow> inode" where
  "fresh_root sb = (root_dir_inode sb)\<lparr>i_dev := ROOT_DEV, i_cnt := 1, i_num := 1\<rparr>"

lemma read_super_block_ok:
  assumes "fs_flat s" and "disk s ROOT_DEV = fs_image sb D" and "sb_table s = b # bs" and "sb_dev b = NO_DEV"
  shows "read_super_block ROOT_DEV s = Inr ((load_sector ROOT_DEV 1 s)\<lparr>sb_table := sb\<lparr>sb_dev := ROOT_DEV\<rparr> # bs\<rparr>)"
proof -
  have "rw_sector DEV_READ ROOT_DEV 512 512 TASK_FS fsbuf s = Inr (load_sector ROOT_DEV 1 s)"
    using RD_SECT_eq [OF assms(1) ROOT_DEV_major, of 1] by (simp add: RD_SECT_def)
  then show ?thesis
    using image_sb [OF assms(2)] assms(3,4) by (simp add: read_super_block_def load_sector_def)
qed

lemma init_fs_ok:
  assumes "fs_flat s" and "sb_table s \<noteq> []"
  shows "\<exists>s'. init_fs geo s = Inr s' \<and> proc_table s' = proc_table s
    \<and> get_super_block ROOT_DEV s' = Inr ((mkfs_sb geo)\<lparr>sb_dev := ROOT_DEV\<rparr>)
    \<and> root_inode s' = 0 \<and> inode_table s' = fresh_root (mkfs_sb geo) # replicate 63 no_inode
    \<and> f_desc_table s' = replicate NR_FILE_DESC no_desc
    \<and> disk s' = (disk s)(ROOT_DEV := fs_image (mkfs_sb geo) (disk s ROOT_DEV))"
proof -
  let ?sb = "mkfs_sb geo"
  obtain b bs where bs: "map (\<lambda>sb. sb\<lparr>sb_dev := NO_DEV\<rparr>) (sb_table s) = b # bs" "sb_dev b = NO_DEV"
    using assms(2) by (cases "sb_table s") auto
  define s1 where "s1 = s\<lparr>f_desc_table := replicate NR_FILE_DESC no_desc, inode_table := replicate NR_INODE no_inode,
    sb_table := b # bs, fs_sent := fs_sent s @ [DevOpen (int TASK_HD) (MINOR ROOT_DEV)]\<rparr>"
  have "fs_flat s1" using assms(1) fs_flat_cong [of s1 s] by (simp add: s1_def)
  then obtain s2 where s2: "mkfs geo s1 = Inr s2" "buffered s1 s2" "disk s2 = (disk s1)(ROOT_DEV := fs_image ?sb (disk s1 ROOT_DEV))"
    using mkfs_ok by blast
  note f = buffered_fields [OF s2(2)]
  have fl: "fs_flat s2" using f(9) \<open>fs_flat s1\<close> by simp
  define s3 where "s3 = (load_sector ROOT_DEV 1 s2)\<lparr>sb_table := ?sb\<lparr>sb_dev := ROOT_DEV\<rparr> # bs\<rparr>"
  have r: "read_super_block ROOT_DEV s2 = Inr s3"
    unfolding s3_def by (rule read_super_block_ok [OF fl]) (use s2(3) f(4) bs in \<open>simp_all add: s1_def\<close>)
  have g: "get_super_block ROOT_DEV s3 = Inr (?sb\<lparr>sb_dev := ROOT_DEV\<rparr>)" by (simp add: get_super_block_def s3_def)
  have fl3: "fs_flat s3" using fl fs_flat_cong [of s3 s2] by (simp add: s3_def load_sector_def)
  have "disk_inode s3 ROOT_DEV (?sb\<lparr>sb_dev := ROOT_DEV\<rparr>) 0 = inode_bytes (root_dir_inode ?sb)"
    using image_inode [of s3 ?sb _ 0] s2(3) mkfs_sb_layout(1) [of geo]
    by (simp add: s3_def disk_inode_def inode_off_def made_inode_def)
  moreover have it: "inode_table s3 = replicate 64 no_inode" using f(2) by (simp add: s3_def load_sector_def s1_def)
  moreover have "inode_scan ROOT_DEV (int 0 + 1) (inode_table s3) 0 None = (None, Some 0)"
    using scan_free [of ROOT_DEV 1 63 1 0] it by (simp add: no_inode_def numeral_eq_Suc)
  moreover have "inodes_fit (?sb\<lparr>sb_dev := ROOT_DEV\<rparr>) 0" using mkfs_sb_layout [of geo] by (simp add: inodes_fit_def)
  ultimately obtain s4 where s4: "get_inode ROOT_DEV 1 s3 = Inr (Some 0, s4)" "disk s4 = disk s3"
    "buffered (upd_inode s3 0 (\<lambda>_. fresh_root ?sb)) s4"
    using get_inode_load [OF fl3 ROOT_DEV_major g, of 0 0 "root_dir_inode ?sb"] by (auto simp: fresh_root_def)
  note f4 = buffered_fields [OF s4(3)]
  have "init_fs geo s = Inr (s4\<lparr>root_inode := 0\<rparr>)"
    using s2(1) r g s4(1) bs(1) by (simp add: init_fs_def Let_def driver_of_hd s1_def)
  moreover have "get_super_block ROOT_DEV (s4\<lparr>root_inode := 0\<rparr>) = Inr (?sb\<lparr>sb_dev := ROOT_DEV\<rparr>)"
    using g f4(4) get_super_block_cong [of "s4\<lparr>root_inode := 0\<rparr>" s3] by (simp add: upd_inode_def)
  moreover have "inode_table s4 = fresh_root ?sb # replicate 63 no_inode"
  proof -
    have "replicate 64 no_inode = no_inode # replicate 63 no_inode" by (simp flip: replicate_Suc)
    then show ?thesis using f4(2) it by (simp add: upd_inode_def)
  qed
  moreover have "proc_table s4 = proc_table s" using f4(1) f(1) by (simp add: upd_inode_def s3_def load_sector_def s1_def)
  moreover have "f_desc_table s4 = replicate NR_FILE_DESC no_desc" using f4(3) f(3) by (simp add: upd_inode_def s3_def load_sector_def s1_def)
  moreover have "disk s4 = (disk s)(ROOT_DEV := fs_image ?sb (disk s ROOT_DEV))" using s4(2) s2(3) by (simp add: s3_def s1_def)
  ultimately show ?thesis by simp
qed

lemma imap_bits:
  assumes "disk s ROOT_DEV = fs_image sb D" and "k < 4096"
  shows "map_bit s ROOT_DEV 2 k \<longleftrightarrow> k < 5"
proof -
  have "bit (0x1F :: u8) i \<longleftrightarrow> i < 5" for i using bit_mask_iff [of 5 i, where 'a = "8 word"] by (auto simp: mask_eq_exp_minus_1)
  moreover have "k div 8 < 512" using assms(2) by auto
  ultimately show ?thesis
    using fs_image_at [of "k div 8" sb D 2] by (auto simp: map_bit_def assms(1) imap_img_def div_eq_0_iff)
qed

lemma smap_bits:
  assumes "disk s ROOT_DEV = fs_image sb D" and "k < 4096 * unat (nr_smap_sects sb)"
  shows "map_bit s ROOT_DEV 3 k \<longleftrightarrow> k \<le> 2048"
proof -
  define q l where "q = k div 4096" and "l = k div 8 mod 512"
  have l: "l < 512" by (simp add: l_def)
  have "3 * 512 + k div 8 = (3 + q) * 512 + l"
    using div_mult_mod_eq [of "k div 8" 512] by (simp add: q_def l_def div_mult2_eq [symmetric])
  moreover have "q < unat (nr_smap_sects sb)" using assms(2) by (simp add: q_def less_mult_imp_div_less mult.commute)
  ultimately have "fs_image sb D (3 * 512 + k div 8) = (if q = 0 then smap_img l else 0)"
    using fs_image_at [OF l, of sb D "3 + q"] by (auto simp: add.assoc)
  moreover have "bit (0xFF :: u8) (k mod 8)" using bit_mask_iff [of 8 "k mod 8", where 'a = "8 word"] by (simp add: mask_eq_exp_minus_1)
  moreover have "k < 4096 \<Longrightarrow> k div 8 < 512" by auto
  moreover have "k div 8 = 256 \<and> k mod 8 = 0 \<longleftrightarrow> k = 2048" by auto
  ultimately show ?thesis by (auto simp: map_bit_def assms(1) smap_img_def div_eq_0_iff bit_1_iff q_def l_def)
qed

lemma fresh_refs:
  assumes "f_desc_table s = replicate NR_FILE_DESC no_desc" and "inode_table s = r # replicate 63 no_inode" and "root_inode s = 0"
    and "i_cnt r = 1" and "\<forall>p \<in> set (proc_table s). filp p = replicate NR_FILES None"
  shows "refs_ok s"
proof -
  have "i_cnt (inode_of s i) = (if i = 0 then 1 else 0)" if "i < 64" for i
    using that assms(2,4) by (simp add: nth_Cons' no_inode_def)
  moreover have "map (\<lambda>p. count_list (filp p) (Some d)) (proc_table s) = map (\<lambda>_. 0) (proc_table s)" for d
    using assms(5) by (intro map_cong) simp_all
  then have "refs s d = 0" for d by (simp add: refs_def map_replicate_const sum_list_replicate)
  moreover have "inode_refs s i = 0" for i by (simp add: inode_refs_def assms(1) share_def no_desc_def sum_list_replicate)
  ultimately show ?thesis
    using assms by (auto simp: refs_inv_def desc_ok_def no_desc_def)
qed

definition tty_name :: "nat \<Rightarrow> u8 list" where
  "tty_name i = [0x64, 0x65, 0x76, 0x5F, 0x74, 0x74, 0x79, of_nat (48 + i)]"

definition made_name :: "nat \<Rightarrow> u8 list" where
  "made_name i = (if i = 0 then [0x2E] else if i < 4 then tty_name (i - 1) else [])"

text \<open>The five entries of the root directory that a search looks at.\<close>

lemma image_entry:
  assumes "disk s ROOT_DEV = fs_image sb D" and "unat (n_1st_sect sb) = 259 + unat (nr_smap_sects sb)" and "i < 5"
    and "0 < unat (nr_smap_sects sb)"
  shows "ent_name s (fresh_root sb) i = pad_name (made_name i)"
    and "i < 4 \<Longrightarrow> ent_nr s (fresh_root sb) i = int i + 1"
proof -
  let ?f = "\<lambda>k. if i < 4 \<and> k < length (made_entry i) then made_entry i ! k else 0"
  have byte: "disk s ROOT_DEV (ent_at (fresh_root sb) i + k) = ?f k" if "k < 16" for k
  proof -
    have l: "i * 16 + k < 512" "(i * 16 + k) div 16 = i" "(i * 16 + k) mod 16 = k" using that assms(3) by auto
    have "ent_at (fresh_root sb) i + k = (259 + unat (nr_smap_sects sb)) * 512 + (i * 16 + k)"
      by (simp add: ent_at_def fresh_root_def root_dir_inode_def assms(2))
    then have "disk s ROOT_DEV (ent_at (fresh_root sb) i + k) = dir_img (i * 16 + k)"
      using fs_image_at [OF l(1), of sb D "259 + unat (nr_smap_sects sb)"] assms(1,4) by (simp add: add.assoc)
    moreover have "i * 16 + k < 16 * 4 \<longleftrightarrow> i < 4" using that by auto
    ultimately show ?thesis unfolding dir_img_def records_img_def l(2,3) by simp
  qed
  have dev: "i_dev (fresh_root sb) = ROOT_DEV" by (simp add: fresh_root_def)
  have "ent_name s (fresh_root sb) i = map (\<lambda>k. ?f (4 + k)) [0..<12]"
    using byte [of "4 + _"] by (simp add: ent_name_def dev add.assoc)
  also have "\<dots> = pad_name (made_name i)"
    using assms(3) by (auto simp: upt_12 pad_name_def made_name_def tty_name_def made_entry_def entry_bytes_def replicate_12 bytes_of_u32_def less_Suc_eq numeral_eq_Suc)
  finally show "ent_name s (fresh_root sb) i = pad_name (made_name i)" .
  assume i: "i < 4"
  have "map (\<lambda>k. disk s ROOT_DEV (ent_at (fresh_root sb) i + k)) [0..<4] = bytes_of_u32 (word_of_int (int i + 1))"
    using i byte by (intro nth_equalityI) (simp_all add: made_entry_def entry_bytes_def nth_append)
  then show "ent_nr s (fresh_root sb) i = int i + 1"
    using i sint_of_int [of "int i + 1"] by (simp add: ent_nr_def dev u32_bytes_roundtrip)
qed

lemma fresh_root_dir:
  assumes "unat (n_1st_sect sb) + 1 < 2 ^ 22"
  shows "dir_ok (fresh_root sb)" "searched (fresh_root sb) = 5"
  using assms by (simp_all add: dir_ok_def searched_def fresh_root_def root_dir_inode_def)

lemma made_name_tty:
  assumes "n < 5" and "i < 3"
  shows "pad_name (made_name n) = pad_name (tty_name i) \<longleftrightarrow> n = i + 1"
proof -
  have "n = 0 \<or> n = 1 \<or> n = 2 \<or> n = 3 \<or> n = 4" and "i = 0 \<or> i = 1 \<or> i = 2" using assms by linarith+
  then show ?thesis by (elim disjE) (simp_all add: made_name_def pad_name_def tty_name_def replicate_12)
qed

lemma find_tty:
  assumes "disk s ROOT_DEV = fs_image sb D" and "unat (n_1st_sect sb) = 259 + unat (nr_smap_sects sb)" and "0 < unat (nr_smap_sects sb)"
    and "kinv s" and "inode_of s (root_inode s) = fresh_root sb" and "unat (n_1st_sect sb) + 1 < 2 ^ 22" and "i < NR_CONSOLES"
  shows "\<exists>t. search_file (0x2F # tty_name i) s = Inr (int i + 2, t)"
proof -
  have i: "i = 0 \<or> i = 1 \<or> i = 2" using assms(7) by (simp add: NR_CONSOLES_def) linarith
  note root = fresh_root_dir [OF assms(6)]
  have "strip_path (0x2F # tty_name i) s = Some (tty_name i, root_inode s)"
    using i strip_plain [of 0 "tty_name i"] by (auto simp: strip_path_def tty_name_def)
  moreover have "ent_name s (fresh_root sb) n = pad_name (tty_name i) \<longleftrightarrow> n = i + 1" if "n < 5" for n
    using image_entry(1) [OF assms(1,2) that assms(3)] made_name_tty [OF that] assms(7) by simp
  then have "find (\<lambda>n. ent_name s (fresh_root sb) n = pad_name (tty_name i)) [0..<5] = Some (i + 1)"
    using i by (intro find_only) auto
  moreover have "ent_nr s (fresh_root sb) (i + 1) = int i + 2" using i image_entry(2) [OF assms(1,2) _ assms(3), of "i + 1"] by auto
  ultimately show ?thesis
    using search_file_ok [OF assms(4), of "0x2F # tty_name i"] root assms(5) by (auto simp: tty_name_def)
qed

text \<open>
  C9: \<^verbatim>\<open>init_fs\<close> succeeds on every device, whatever its size and contents, and mounts an empty file system: the super
  block in the table has the size of the device and a layout without overlaps, the i-node map has exactly the bits of the reserved number, the root
  directory and the three terminals, the sector map exactly the bits of the reserved number and the root directory, the
  i-node of the root directory in the table is the one on the disk, each \<^verbatim>\<open>/dev_tty0\<close> to \<^verbatim>\<open>/dev_tty2\<close>
  is found with an i-node that names its terminal, all sectors behind the first of the root directory keep their contents, and the
  reference counts are exact when no process has a file.
\<close>

theorem init_fs_correct:
  assumes "kinv s" and "sb_table s \<noteq> []" and "\<forall>p \<in> set (proc_table s). filp p = replicate NR_FILES None"
  shows "\<exists>s' sb. init_fs geo s = Inr s' \<and> get_super_block ROOT_DEV s' = Inr sb \<and> nr_sects sb = part_size geo
    \<and> unat (n_1st_sect sb) = 2 + unat (nr_imap_sects sb) + unat (nr_smap_sects sb) + unat (nr_inodes sb) * 32 div 512
    \<and> unat (part_size geo) < 4096 * unat (nr_smap_sects sb)
    \<and> (\<forall>k < unat (nr_inodes sb). map_bit s' ROOT_DEV 2 k \<longleftrightarrow> k < 5)
    \<and> (\<forall>k < 4096 * unat (nr_smap_sects sb). map_bit s' ROOT_DEV 3 k \<longleftrightarrow> k \<le> 2048)
    \<and> disk_inode s' ROOT_DEV sb 0 = inode_bytes (inode_of s' (root_inode s')) \<and> i_start_sect (inode_of s' (root_inode s')) = n_1st_sect sb
    \<and> (\<forall>i < NR_CONSOLES. (\<exists>t. search_file (0x2F # tty_name i) s' = Inr (int i + 2, t))
        \<and> disk_inode s' ROOT_DEV sb (i + 1) = inode_bytes (tty_inode i))
    \<and> (\<forall>x \<ge> (unat (n_1st_sect sb) + 1) * 512. disk s' ROOT_DEV x = disk s ROOT_DEV x)
    \<and> refs_ok s'"
proof -
  let ?sb = "(mkfs_sb geo)\<lparr>sb_dev := ROOT_DEV\<rparr>" and ?D = "disk s ROOT_DEV"
  obtain s' where s': "init_fs geo s = Inr s'" "proc_table s' = proc_table s" "get_super_block ROOT_DEV s' = Inr ?sb" "root_inode s' = 0"
    and tabs: "inode_table s' = fresh_root (mkfs_sb geo) # replicate 63 no_inode" "f_desc_table s' = replicate NR_FILE_DESC no_desc"
    and d: "disk s' = (disk s)(ROOT_DEV := fs_image (mkfs_sb geo) ?D)"
    using init_fs_ok [OF fs_flatI [OF assms(1)] assms(2)] by blast
  note L = mkfs_sb_layout [of geo]
  have im: "disk s' ROOT_DEV = fs_image (mkfs_sb geo) ?D" using d by simp
  have kinv: "kinv s'" using assms(1) s'(2) by (simp add: kinv_def seg_base_def)
  have lay: "unat (n_1st_sect (mkfs_sb geo)) = 259 + unat (nr_smap_sects (mkfs_sb geo))" "0 < unat (nr_smap_sects (mkfs_sb geo))"
    "unat (n_1st_sect (mkfs_sb geo)) + 1 < 2 ^ 22" using L by simp_all
  have size: "unat (part_size geo) < 4096 * unat (nr_smap_sects (mkfs_sb geo))" unfolding L(1) using dividend_less_times_div [of 4096 "unat (part_size geo)"] by simp
  have inodes: "disk_inode s' ROOT_DEV ?sb i = inode_bytes (made_inode (mkfs_sb geo) i)" if "i < 4" for i
    using image_inode [OF im _ that lay(2)] by (simp add: disk_inode_def inode_off_def)
  have "disk s' ROOT_DEV x = ?D x" if "(unat (n_1st_sect ?sb) + 1) * 512 \<le> x" for x
  proof -
    have "259 + unat (nr_smap_sects (mkfs_sb geo)) < x div 512" using that lay(1) by (simp add: less_eq_div_iff_mult_less_eq flip: Suc_le_eq)
    then show ?thesis by (simp add: im fs_image_def Let_def)
  qed
  moreover have "refs_ok s'" by (rule fresh_refs [OF tabs(2,1) s'(4)]) (use s'(2) assms(3) in \<open>simp_all add: fresh_root_def\<close>)
  moreover have "\<exists>t. search_file (0x2F # tty_name i) s' = Inr (int i + 2, t)" if "i < NR_CONSOLES" for i
    using find_tty [OF im lay(1,2) kinv _ lay(3) that] tabs s'(4) by simp
  moreover have "disk_inode s' ROOT_DEV ?sb (i + 1) = inode_bytes (tty_inode i)" if "i < NR_CONSOLES" for i
    using inodes [of "i + 1"] that by (simp add: made_inode_def)
  moreover have "disk_inode s' ROOT_DEV ?sb 0 = inode_bytes (inode_of s' (root_inode s'))"
    using inodes [of 0] tabs(1) s'(4) by (simp add: made_inode_def fresh_root_def inode_bytes_def)
  ultimately show ?thesis
    using s' tabs(1) size L lay imap_bits [OF im] smap_bits [OF im]
    by (intro exI [of _ s'] exI [of _ ?sb]) (simp add: fresh_root_def root_dir_inode_def)
qed

theorem init_fs_correct_witness:
  "\<exists>s' t. init_fs \<lparr>part_base = 0x3F, part_size = 5000\<rparr> fs_demo = Inr s' \<and> refs_ok s' \<and> search_file (0x2F # tty_name 2) s' = Inr (4, t)"
proof -
  have "\<forall>p \<in> set (proc_table fs_demo). filp p = replicate NR_FILES None"
    using booted_fresh(4,5) by (auto simp: fresh_proc_def in_set_conv_nth)
  then obtain s' where "init_fs \<lparr>part_base = 0x3F, part_size = 5000\<rparr> fs_demo = Inr s'" "refs_ok s'"
    "\<forall>i < NR_CONSOLES. \<exists>t. search_file (0x2F # tty_name i) s' = Inr (int i + 2, t)"
    using init_fs_correct [of fs_demo "\<lparr>part_base = 0x3F, part_size = 5000\<rparr>"] by auto
  moreover from this(3) [rule_format, of 2] obtain t where "search_file (0x2F # tty_name 2) s' = Inr (4, t)" by auto
  ultimately show ?thesis by blast
qed

end
