(* ===== verification/Fs_Task.thy ===== *)
theory Fs_Task
  imports Fs_Rdwt Fs_Unlink Fs_Mkfs
begin

text \<open>
  The main loop of the file system task (\<^verbatim>\<open>task_fs\<close> of \<^verbatim>\<open>fs/main.c\<close>) and the functions of the user
  library that call it (\<^verbatim>\<open>lib/open.c\<close>, \<^verbatim>\<open>lib/close.c\<close>, \<^verbatim>\<open>lib/read.c\<close>, \<^verbatim>\<open>lib/write.c\<close>,
  \<^verbatim>\<open>lib/unlink.c\<close>). The theorems are about whole calls: what a process gets back from the library when its
  message has gone through the dispatcher, the operation, and back.
\<close>

section \<open>The dispatcher\<close>

text \<open>FS takes a message: \<^verbatim>\<open>fs_msg\<close> and \<^verbatim>\<open>pcaller\<close> are set.\<close>

definition received :: "message \<Rightarrow> fs \<Rightarrow> fs" where
  "received m s = s\<lparr>fs_msg := m, pcaller := nat (msg_source m)\<rparr>"

text \<open>
  The results go into \<^verbatim>\<open>FD\<close> and \<^verbatim>\<open>RETVAL\<close> (the same field) or \<^verbatim>\<open>CNT\<close> of the request.
\<close>

definition ret_i1 :: "(int \<times> fs) res \<Rightarrow> fs res" where
  "ret_i1 r = res_bind r (\<lambda>(v, s). Inr (s\<lparr>fs_msg := (fs_msg s)\<lparr>m3i1 := v\<rparr>\<rparr>))"

definition ret_i2 :: "(int \<times> fs) res \<Rightarrow> fs res" where
  "ret_i2 r = res_bind r (\<lambda>(v, s). Inr (s\<lparr>fs_msg := (fs_msg s)\<lparr>m3i2 := v\<rparr>\<rparr>))"

definition fs_dispatch :: "fs \<Rightarrow> fs res" where
  "fs_dispatch s =
     (let t = msg_type (fs_msg s) in
      if t = OPEN then ret_i1 (do_open s)
      else if t = CLOSE then ret_i1 (do_close s)
      else if t = READ \<or> t = WRITE then ret_i2 (do_rdwt s)
      else if t = UNLINK then ret_i1 (do_unlink s)
      else if t = RESUME_PROC then Inr s
      else if t = FORK then ret_i1 (fs_fork s)
      else if t = EXIT then ret_i1 (fs_exit s)
      else Inl (AssertionFailure ''FS::unknown message''))"

text \<open>
  The answer goes to the caller, or for \<^verbatim>\<open>RESUME_PROC\<close> to the process named in the message; after
  \<^verbatim>\<open>SUSPEND_PROC\<close>, the terminal's answer to a read, nobody is answered. The kernel puts the sender into a message on its way.
\<close>

definition fs_answer :: "int \<Rightarrow> fs \<Rightarrow> fs" where
  "fs_answer src s =
     (if msg_type (fs_msg s) \<noteq> SUSPEND_PROC then
        let m = (fs_msg s)\<lparr>msg_type := SYSCALL_RET, msg_source := int TASK_FS\<rparr> in
        s\<lparr>fs_msg := m, fs_sent := fs_sent s @ [FsReply src m]\<rparr>
      else s)"

definition task_fs :: "message \<Rightarrow> fs \<Rightarrow> fs res" where
  "task_fs m s =
     (let src = (if msg_type m = RESUME_PROC then m3i3 m else msg_source m) in
      if \<not> valid_proc_nr (msg_source m) then Inl (BadAccess ''task_fs: proc_table'')
      else res_bind (fs_dispatch (received m s)) (\<lambda>s1. Inr (fs_answer src s1)))"

section \<open>The user library\<close>

text \<open>
  A call of process \<open>p\<close>: \<^verbatim>\<open>send_recv(BOTH, TASK_FS, &msg)\<close>. The answer is \<open>None\<close> when FS does not send one in this
  turn; the process then stays blocked. \<open>m0\<close> is the uninitialised message on the caller's stack.
\<close>

definition reply_to :: "nat \<Rightarrow> fs_event list \<Rightarrow> message option" where
  "reply_to p evs = (case rev evs of FsReply q r # _ \<Rightarrow> if q = int p then Some r else None | _ \<Rightarrow> None)"

definition fs_call :: "nat \<Rightarrow> message \<Rightarrow> fs \<Rightarrow> (message option \<times> fs) res" where
  "fs_call p m s =
     res_bind (task_fs (m\<lparr>msg_source := int p\<rparr>) s) (\<lambda>s1. Inr (reply_to p (drop (length (fs_sent s)) (fs_sent s1)), s1))"

definition fs_return :: "(message \<Rightarrow> int) \<Rightarrow> (message option \<times> fs) res \<Rightarrow> (int option \<times> fs) res" where
  "fs_return f r = res_bind r (\<lambda>(m, s). Inr (map_option f m, s))"

definition read_msg_of :: "message \<Rightarrow> int \<Rightarrow> u32 \<Rightarrow> int \<Rightarrow> message" where
  "read_msg_of m0 fd buf_addr cnt = m0\<lparr>msg_type := READ, m3i1 := fd, m3p2 := buf_addr, m3i2 := cnt\<rparr>"

definition write_msg_of :: "message \<Rightarrow> int \<Rightarrow> u32 \<Rightarrow> int \<Rightarrow> message" where
  "write_msg_of m0 fd buf_addr cnt = m0\<lparr>msg_type := WRITE, m3i1 := fd, m3p2 := buf_addr, m3i2 := cnt\<rparr>"

definition read_file :: "message \<Rightarrow> nat \<Rightarrow> int \<Rightarrow> u32 \<Rightarrow> int \<Rightarrow> fs \<Rightarrow> (int option \<times> fs) res" where
  "read_file m0 p fd buf_addr cnt s = fs_return m3i2 (fs_call p (read_msg_of m0 fd buf_addr cnt) s)"

definition write_file :: "message \<Rightarrow> nat \<Rightarrow> int \<Rightarrow> u32 \<Rightarrow> int \<Rightarrow> fs \<Rightarrow> (int option \<times> fs) res" where
  "write_file m0 p fd buf_addr cnt s = fs_return m3i2 (fs_call p (write_msg_of m0 fd buf_addr cnt) s)"

text \<open>\<open>len\<close> is \<^verbatim>\<open>strlen(pathname)\<close>.\<close>

definition open_file :: "message \<Rightarrow> nat \<Rightarrow> u32 \<Rightarrow> int \<Rightarrow> int \<Rightarrow> fs \<Rightarrow> (int option \<times> fs) res" where
  "open_file m0 p pathname len flags s =
     res_bind (fs_call p (m0\<lparr>msg_type := OPEN, m3p1 := pathname, m3i1 := flags, m3i2 := len\<rparr>) s) (\<lambda>(r, s1).
     case r of
       None \<Rightarrow> Inr (None, s1)
     | Some m \<Rightarrow> kassert (msg_type m = SYSCALL_RET) ''open'' (Inr (Some (m3i1 m), s1)))"

definition close_file :: "message \<Rightarrow> nat \<Rightarrow> int \<Rightarrow> fs \<Rightarrow> (int option \<times> fs) res" where
  "close_file m0 p fd s = fs_return m3i1 (fs_call p (m0\<lparr>msg_type := CLOSE, m3i1 := fd\<rparr>) s)"

definition unlink_file :: "message \<Rightarrow> nat \<Rightarrow> u32 \<Rightarrow> int \<Rightarrow> fs \<Rightarrow> (int option \<times> fs) res" where
  "unlink_file m0 p pathname len s = fs_return m3i1 (fs_call p (m0\<lparr>msg_type := UNLINK, m3p1 := pathname, m3i2 := len\<rparr>) s)"

section \<open>A call on a file\<close>

text \<open>The turn of FS for a read or a write that does not go to a terminal: one answer, to the caller.\<close>

lemma fs_call_rdwt:
  assumes "do_rdwt (received (m\<lparr>msg_source := int p\<rparr>) s) = Inr (v, s1)" and "kept (received (m\<lparr>msg_source := int p\<rparr>) s) s1"
    and "msg_type m = READ \<or> msg_type m = WRITE" and "valid_proc_nr (int p)"
  shows "\<exists>s' r. fs_call p m s = Inr (Some r, s') \<and> m3i2 r = v \<and> msg_type r = SYSCALL_RET \<and> fs_sent s' = fs_sent s @ [FsReply (int p) r]
    \<and> s' = s1\<lparr>fs_msg := r, fs_sent := fs_sent s'\<rparr>"
proof -
  let ?m = "m\<lparr>msg_source := int p\<rparr>"
  have f: "fs_msg s1 = ?m" "fs_sent s1 = fs_sent s" using assms(2) by (simp_all add: kept_def received_def)
  let ?r = "?m\<lparr>m3i2 := v, msg_type := SYSCALL_RET, msg_source := int TASK_FS\<rparr>"
  have ty: "msg_type m \<noteq> RESUME_PROC" "msg_type m \<noteq> SUSPEND_PROC" using assms(3) by auto
  have "fs_dispatch (received ?m s) = Inr (s1\<lparr>fs_msg := ?m\<lparr>m3i2 := v\<rparr>\<rparr>)"
    using assms(1,3) f(1) by (auto simp: fs_dispatch_def received_def ret_i2_def Let_def)
  then have "task_fs ?m s = Inr (s1\<lparr>fs_msg := ?r, fs_sent := fs_sent s @ [FsReply (int p) ?r]\<rparr>)"
    using assms(4) f(2) ty by (simp add: task_fs_def fs_answer_def Let_def)
  then show ?thesis by (simp add: fs_call_def reply_to_def)
qed

lemma kinv_received: "kinv (received m s) = kinv s"
  by (simp add: received_def kinv_def seg_base_def)

lemma received_fields [simp]:
  "proc_table (received m s) = proc_table s" "inode_table (received m s) = inode_table s" "f_desc_table (received m s) = f_desc_table s"
  "sb_table (received m s) = sb_table s" "disk (received m s) = disk s" "mem (received m s) = mem s" "fs_msg (received m s) = m"
  "pcaller (received m s) = nat (msg_source m)" "fs_sent (received m s) = fs_sent s" "root_inode (received m s) = root_inode s"
  by (simp_all add: received_def)

text \<open>The request of a library call as FS receives it.\<close>

abbreviation read_received :: "message \<Rightarrow> nat \<Rightarrow> int \<Rightarrow> u32 \<Rightarrow> nat \<Rightarrow> fs \<Rightarrow> fs" where
  "read_received m0 p fd buf_addr l \<equiv> received ((read_msg_of m0 fd buf_addr (int l))\<lparr>msg_source := int p\<rparr>)"

abbreviation write_received :: "message \<Rightarrow> nat \<Rightarrow> int \<Rightarrow> u32 \<Rightarrow> nat \<Rightarrow> fs \<Rightarrow> fs" where
  "write_received m0 p fd buf_addr l \<equiv> received ((write_msg_of m0 fd buf_addr (int l))\<lparr>msg_source := int p\<rparr>)"

lemma read_call_ok:
  assumes "kinv s" and "file_request_ok (read_received m0 p fd buf_addr l s) READ d pin pos l ua"
    and "pos + l \<le> unat (i_size (inode_of s pin))"
    and "unat (i_start_sect (inode_of s pin)) + unat (i_size (inode_of s pin)) div 512 < 2 ^ 22" and "span pos l \<le> 256"
  shows "\<exists>s'. read_file m0 p fd buf_addr (int l) s = Inr (Some (int l), s')
    \<and> read_bytes (mem s') ua l = map (disk s (i_dev (inode_of s pin)))
        [unat (i_start_sect (inode_of s pin)) * 512 + pos..<unat (i_start_sect (inode_of s pin)) * 512 + pos + l]
    \<and> f_desc_table s' = (f_desc_table s)[d := (f_desc_table s ! d)\<lparr>fd_pos := int (pos + l)\<rparr>]
    \<and> disk s' = disk s \<and> inode_table s' = inode_table s \<and> proc_table s' = proc_table s
    \<and> (\<exists>r. fs_sent s' = fs_sent s @ [FsReply (int p) r])
    \<and> (\<forall>x. x \<notin> block_addrs ua l \<and> x \<notin> block_addrs fsbuf (2 ^ 20) \<longrightarrow> mem s' x = mem s x) \<and> root_inode s' = root_inode s \<and> sb_table s' = sb_table s"
proof -
  let ?t = "read_received m0 p fd buf_addr l s"
  obtain s1 where s1: "do_rdwt ?t = Inr (int l, s1)" "kept ?t s1"
    "read_bytes (mem s1) ua l = map (disk s (i_dev (inode_of s pin)))
        [unat (i_start_sect (inode_of s pin)) * 512 + pos..<unat (i_start_sect (inode_of s pin)) * 512 + pos + l]"
    "f_desc_table s1 = (f_desc_table s)[d := (f_desc_table s ! d)\<lparr>fd_pos := int (pos + l)\<rparr>]" "disk s1 = disk s" "inode_table s1 = inode_table s"
    "\<forall>x. x \<notin> block_addrs ua l \<and> x \<notin> block_addrs fsbuf (2 ^ 20) \<longrightarrow> mem s1 x = mem s x"
    using read_file_ok [OF _ assms(2)] assms(1,3-5) kinv_received by (simp only: received_fields) blast
  have "valid_proc_nr (int p)" using assms(2) by (simp add: file_request_ok_def)
  then obtain s' r where s': "fs_call p (read_msg_of m0 fd buf_addr (int l)) s = Inr (Some r, s')" "m3i2 r = int l"
    "fs_sent s' = fs_sent s @ [FsReply (int p) r]" "s' = s1\<lparr>fs_msg := r, fs_sent := fs_sent s'\<rparr>"
    using fs_call_rdwt [OF s1(1,2)] by (auto simp: read_msg_of_def)
  have "mem s' = mem s1" "f_desc_table s' = f_desc_table s1" "disk s' = disk s1" "inode_table s' = inode_table s1" "proc_table s' = proc_table s1"
    "root_inode s' = root_inode s1" "sb_table s' = sb_table s1"
    by (subst s'(4); simp)+
  moreover have "proc_table s1 = proc_table s" "root_inode s1 = root_inode s" "sb_table s1 = sb_table s" using s1(2) by (simp_all add: kept_def)
  ultimately show ?thesis using s1 s'(1-3) by (simp add: read_file_def fs_return_def)
qed

lemma write_call_ok:
  assumes "kinv s" and "file_request_ok (write_received m0 p fd buf_addr l s) WRITE d pin pos l ua"
    and "pos + l \<le> unat (i_nr_sects (inode_of s pin)) * 512"
    and "unat (i_start_sect (inode_of s pin)) + unat (i_nr_sects (inode_of s pin)) < 2 ^ 22" and "span pos l \<le> 256"
    and "get_super_block (i_dev (inode_of s pin)) s = Inr sb" and "i_num (inode_of s pin) = int k + 1" and "inodes_fit sb k"
  shows "\<exists>s'. write_file m0 p fd buf_addr (int l) s = Inr (Some (int l), s')
    \<and> (\<forall>e x. \<not> (e = i_dev (inode_of s pin) \<and> inode_off sb k \<le> x \<and> x < inode_off sb k + 16) \<longrightarrow> disk s' e x =
        (if e = i_dev (inode_of s pin) \<and> unat (i_start_sect (inode_of s pin)) * 512 + pos \<le> x
            \<and> x < unat (i_start_sect (inode_of s pin)) * 512 + pos + l
         then mem s (ua + of_nat (x - (unat (i_start_sect (inode_of s pin)) * 512 + pos))) else disk s e x))
    \<and> unat (i_size (inode_of s' pin)) = max (unat (i_size (inode_of s pin))) (pos + l)
    \<and> inode_table s' = (inode_table s)[pin := (inode_of s pin)\<lparr>i_size := i_size (inode_of s' pin)\<rparr>] \<and> proc_table s' = proc_table s
    \<and> f_desc_table s' = (f_desc_table s)[d := (f_desc_table s ! d)\<lparr>fd_pos := int (pos + l)\<rparr>]
    \<and> (\<exists>r. fs_sent s' = fs_sent s @ [FsReply (int p) r])
    \<and> (disk_inode s' (i_dev (inode_of s pin)) sb k = inode_bytes (inode_of s' pin) \<or> i_size (inode_of s' pin) = i_size (inode_of s pin)
        \<and> (\<forall>e x. \<not> (unat (i_start_sect (inode_of s pin)) * 512 + pos \<le> x \<and> x < unat (i_start_sect (inode_of s pin)) * 512 + pos + l) \<longrightarrow> disk s' e x = disk s e x))
    \<and> (\<forall>x. x \<notin> block_addrs fsbuf (2 ^ 20) \<longrightarrow> mem s' x = mem s x) \<and> root_inode s' = root_inode s \<and> sb_table s' = sb_table s"
proof -
  let ?t = "write_received m0 p fd buf_addr l s"
  have "get_super_block (i_dev (inode_of s pin)) ?t = Inr sb" using assms(6) get_super_block_cong [of ?t s] by simp
  then obtain s1 where s1: "do_rdwt ?t = Inr (int l, s1)" "kept ?t s1"
    "\<forall>e x. \<not> (e = i_dev (inode_of s pin) \<and> inode_off sb k \<le> x \<and> x < inode_off sb k + 16) \<longrightarrow> disk s1 e x =
        (if e = i_dev (inode_of s pin) \<and> unat (i_start_sect (inode_of s pin)) * 512 + pos \<le> x
            \<and> x < unat (i_start_sect (inode_of s pin)) * 512 + pos + l
         then mem s (ua + of_nat (x - (unat (i_start_sect (inode_of s pin)) * 512 + pos))) else disk s e x)"
    "unat (i_size (inode_of s1 pin)) = max (unat (i_size (inode_of s pin))) (pos + l)"
    "inode_table s1 = (inode_table s)[pin := (inode_of s pin)\<lparr>i_size := i_size (inode_of s1 pin)\<rparr>]"
    "f_desc_table s1 = (f_desc_table s)[d := (f_desc_table s ! d)\<lparr>fd_pos := int (pos + l)\<rparr>]"
    "disk_inode s1 (i_dev (inode_of s pin)) sb k = inode_bytes (inode_of s1 pin) \<or> i_size (inode_of s1 pin) = i_size (inode_of s pin)
        \<and> (\<forall>e x. \<not> (unat (i_start_sect (inode_of s pin)) * 512 + pos \<le> x \<and> x < unat (i_start_sect (inode_of s pin)) * 512 + pos + l) \<longrightarrow> disk s1 e x = disk s e x)"
    "\<forall>x. x \<notin> block_addrs fsbuf (2 ^ 20) \<longrightarrow> mem s1 x = mem s x"
    using write_file_ok [OF _ assms(2)] assms(1,3-5,7,8) kinv_received by (simp only: received_fields) blast
  have "valid_proc_nr (int p)" using assms(2) by (simp add: file_request_ok_def)
  then obtain s' r where s': "fs_call p (write_msg_of m0 fd buf_addr (int l)) s = Inr (Some r, s')" "m3i2 r = int l"
    "fs_sent s' = fs_sent s @ [FsReply (int p) r]" "s' = s1\<lparr>fs_msg := r, fs_sent := fs_sent s'\<rparr>"
    using fs_call_rdwt [OF s1(1,2)] by (auto simp: write_msg_of_def)
  have "mem s' = mem s1" "f_desc_table s' = f_desc_table s1" "disk s' = disk s1" "inode_table s' = inode_table s1" "proc_table s' = proc_table s1"
    "root_inode s' = root_inode s1" "sb_table s' = sb_table s1"
    by (subst s'(4); simp)+
  moreover have "proc_table s1 = proc_table s" "root_inode s1 = root_inode s" "sb_table s1 = sb_table s" using s1(2) by (simp_all add: kept_def)
  ultimately show ?thesis using s1 s'(1-3) by (simp add: write_file_def fs_return_def disk_inode_def)
qed

text \<open>
  C13: A process that calls \<^verbatim>\<open>read\<close> for \<open>l\<close> bytes of an open file that lie inside the file and span at most 256 sectors gets \<open>l\<close> back, and
  exactly one answer; its buffer holds exactly the bytes of the file at the position of the descriptor, which advances by \<open>l\<close>; the
  disk, the i-nodes, the processes and all memory but the caller's buffer and the buffer of FS are unchanged.
\<close>

theorem read_call_correct:
  assumes "kinv s" and "file_request_ok (read_received m0 p fd buf_addr l s) READ d pin pos l ua"
    and "pos + l \<le> unat (i_size (inode_of s pin))"
    and "unat (i_start_sect (inode_of s pin)) + unat (i_size (inode_of s pin)) div 512 < 2 ^ 22" and "span pos l \<le> 256"
  shows "\<exists>s'. read_file m0 p fd buf_addr (int l) s = Inr (Some (int l), s')
    \<and> read_bytes (mem s') ua l = map (disk s (i_dev (inode_of s pin)))
        [unat (i_start_sect (inode_of s pin)) * 512 + pos..<unat (i_start_sect (inode_of s pin)) * 512 + pos + l]
    \<and> f_desc_table s' = (f_desc_table s)[d := (f_desc_table s ! d)\<lparr>fd_pos := int (pos + l)\<rparr>]
    \<and> disk s' = disk s \<and> inode_table s' = inode_table s \<and> proc_table s' = proc_table s
    \<and> (\<exists>r. fs_sent s' = fs_sent s @ [FsReply (int p) r])
    \<and> (\<forall>x. x \<notin> block_addrs ua l \<and> x \<notin> block_addrs fsbuf (2 ^ 20) \<longrightarrow> mem s' x = mem s x)"
  using read_call_ok [OF assms] by blast

text \<open>
  C14: A process that calls \<^verbatim>\<open>write\<close> for \<open>l\<close> bytes that fit the sectors of the file and span at most 256 of them gets \<open>l\<close> back; on
  the disk exactly the bytes at the position of the descriptor become the caller's (besides the i-node's own slot), the size becomes the larger of the
  old size and the end of the range, and the position advances by \<open>l\<close>.
\<close>

theorem write_call_correct:
  assumes "kinv s" and "file_request_ok (write_received m0 p fd buf_addr l s) WRITE d pin pos l ua"
    and "pos + l \<le> unat (i_nr_sects (inode_of s pin)) * 512"
    and "unat (i_start_sect (inode_of s pin)) + unat (i_nr_sects (inode_of s pin)) < 2 ^ 22" and "span pos l \<le> 256"
    and "get_super_block (i_dev (inode_of s pin)) s = Inr sb" and "i_num (inode_of s pin) = int k + 1" and "inodes_fit sb k"
  shows "\<exists>s'. write_file m0 p fd buf_addr (int l) s = Inr (Some (int l), s')
    \<and> (\<forall>e x. \<not> (e = i_dev (inode_of s pin) \<and> inode_off sb k \<le> x \<and> x < inode_off sb k + 16) \<longrightarrow> disk s' e x =
        (if e = i_dev (inode_of s pin) \<and> unat (i_start_sect (inode_of s pin)) * 512 + pos \<le> x
            \<and> x < unat (i_start_sect (inode_of s pin)) * 512 + pos + l
         then mem s (ua + of_nat (x - (unat (i_start_sect (inode_of s pin)) * 512 + pos))) else disk s e x))
    \<and> unat (i_size (inode_of s' pin)) = max (unat (i_size (inode_of s pin))) (pos + l)
    \<and> f_desc_table s' = (f_desc_table s)[d := (f_desc_table s ! d)\<lparr>fd_pos := int (pos + l)\<rparr>]"
  using write_call_ok [OF assms] by blast

text \<open>
  C4: What one process writes another reads. When process \<open>p\<close> writes \<open>l\<close> bytes at a position of a file, and process \<open>q\<close> has the same file open in
  a descriptor of its own at the same position, a \<^verbatim>\<open>read\<close> of \<open>q\<close> after the \<^verbatim>\<open>write\<close> of \<open>p\<close> returns \<open>l\<close> and leaves exactly the
  bytes of \<open>p\<close>'s buffer in \<open>q\<close>'s buffer. The data of the file lie behind the slot of its i-node.
\<close>

theorem write_read_back:
  assumes "kinv s" and "file_request_ok (write_received m0 p fd buf_addr l s) WRITE d pin pos l ua"
    and "file_request_ok (read_received m1 q fd' buf' l s) READ d' pin pos l ub" and "d' \<noteq> d"
    and "max (unat (i_size (inode_of s pin))) (pos + l) \<le> unat (i_nr_sects (inode_of s pin)) * 512"
    and "unat (i_start_sect (inode_of s pin)) + unat (i_nr_sects (inode_of s pin)) < 2 ^ 22" and "span pos l \<le> 256"
    and "get_super_block (i_dev (inode_of s pin)) s = Inr sb" and "i_num (inode_of s pin) = int k + 1" and "inodes_fit sb k"
    and "inode_off sb k + 16 \<le> unat (i_start_sect (inode_of s pin)) * 512"
  shows "\<exists>s1 s2. write_file m0 p fd buf_addr (int l) s = Inr (Some (int l), s1) \<and> read_file m1 q fd' buf' (int l) s1 = Inr (Some (int l), s2)
    \<and> read_bytes (mem s2) ub l = read_bytes (mem s) ua l"
proof -
  let ?n = "inode_of s pin" and ?a = "unat (i_start_sect (inode_of s pin)) * 512 + pos"
  have "pos + l \<le> unat (i_nr_sects ?n) * 512" using assms(5) by simp
  from write_call_ok [OF assms(1,2) this assms(6-10)] obtain s1 where
    s1: "write_file m0 p fd buf_addr (int l) s = Inr (Some (int l), s1)" "proc_table s1 = proc_table s"
    "unat (i_size (inode_of s1 pin)) = max (unat (i_size ?n)) (pos + l)"
    "inode_table s1 = (inode_table s)[pin := ?n\<lparr>i_size := i_size (inode_of s1 pin)\<rparr>]"
    "f_desc_table s1 = (f_desc_table s)[d := (f_desc_table s ! d)\<lparr>fd_pos := int (pos + l)\<rparr>]"
    and dsk: "\<forall>e x. \<not> (e = i_dev ?n \<and> inode_off sb k \<le> x \<and> x < inode_off sb k + 16) \<longrightarrow>
      disk s1 e x = (if e = i_dev ?n \<and> ?a \<le> x \<and> x < ?a + l then mem s (ua + of_nat (x - ?a)) else disk s e x)" by blast
  have pin: "pin < length (inode_table s)" using assms(2) by (simp add: file_request_ok_def)
  then have n1: "inode_of s1 pin = ?n\<lparr>i_size := i_size (inode_of s1 pin)\<rparr>" using arg_cong [OF s1(4), of "\<lambda>t. t ! pin"] by simp
  then have same: "i_start_sect (inode_of s1 pin) = i_start_sect ?n" "i_dev (inode_of s1 pin) = i_dev ?n" "i_mode (inode_of s1 pin) = i_mode ?n"
    by (metis inode.select_convs inode.update_convs inode.surjective)+
  have "va2la s1 r a = va2la s r a" for r a using s1(2) by (simp add: va2la_def)
  then have req: "file_request_ok (read_received m1 q fd' buf' l s1) READ d' pin pos l ub"
    using assms(3,4) same s1(2,5) pin arg_cong [OF s1(4), of length] by (simp add: file_request_ok_def va2la_def)
  have "kinv s1" using assms(1) s1(2) by (simp add: kinv_def seg_base_def)
  moreover have "unat (i_start_sect (inode_of s1 pin)) + unat (i_size (inode_of s1 pin)) div 512 < 2 ^ 22"
    using div_le_mono [OF assms(5), of 512] assms(6) unfolding same s1(3) by simp
  ultimately obtain s2 where s2: "read_file m1 q fd' buf' (int l) s1 = Inr (Some (int l), s2)"
    "read_bytes (mem s2) ub l = map (disk s1 (i_dev ?n)) [?a..<?a + l]"
    using read_call_ok [OF _ req _ _ assms(7)] s1(3) same by auto
  have "disk s1 (i_dev ?n) (?a + j) = mem s (ua + of_nat j)" if "j < l" for j using dsk that assms(11) by simp
  then have "map (disk s1 (i_dev ?n)) [?a..<?a + l] = read_bytes (mem s) ua l" by (intro nth_equalityI) simp_all
  then show ?thesis using s1(1) s2 by simp
qed

section \<open>A read from a terminal\<close>

text \<open>
  C28: A read from a terminal is answered when the terminal resumes it. FS passes a \<^verbatim>\<open>read\<close> of process \<open>p\<close> on an open terminal to the terminal
  driver, with the minor device, the process and its buffer in the message, and does not answer: \<^verbatim>\<open>read\<close> does not return, and nothing but the
  log of messages and \<^verbatim>\<open>fs_msg\<close> changes. When the driver sends \<^verbatim>\<open>RESUME_PROC\<close> for \<open>p\<close>, in whatever state FS is then, FS sends the
  count in that message to \<open>p\<close> and to nobody else.
\<close>

theorem terminal_read_resumes:
  assumes "valid_proc_nr (int p)" and "0 \<le> fd" and "fd < int NR_FILES" and "filp (proc_of s p) ! nat fd = Some d" and "d < NR_FILE_DESC"
    and "word_of_int (fd_mode (f_desc_table s ! d)) AND O_RDWR \<noteq> 0" and "fd_inode (f_desc_table s ! d) = Some pin" and "pin < NR_INODE"
    and "i_mode (inode_of s pin) = I_CHAR_SPECIAL" and "sint (i_start_sect (inode_of s pin)) = dev" and "MAJOR dev = 4"
    and "msg_type r = RESUME_PROC" and "m3i3 r = int p" and "msg_source r = int TASK_TTY"
  shows "(\<exists>s' m. read_file m0 p fd buf_addr n s = Inr (None, s') \<and> fs_sent s' = fs_sent s @ [ToDriver (int TASK_TTY) m]
      \<and> msg_type m = DEV_READ \<and> m3i4 m = MINOR dev \<and> m3i3 m = int p \<and> m3p2 m = buf_addr \<and> m3i2 m = n
      \<and> s' = s\<lparr>fs_msg := fs_msg s', pcaller := p, fs_sent := fs_sent s'\<rparr>)
    \<and> (\<forall>t. \<exists>t' m. task_fs r t = Inr t' \<and> fs_sent t' = fs_sent t @ [FsReply (int p) m] \<and> msg_type m = SYSCALL_RET \<and> m3i2 m = m3i2 r)"
proof
  let ?m = "(read_msg_of m0 fd buf_addr n)\<lparr>msg_source := int p\<rparr>"
  let ?m2 = "?m\<lparr>msg_type := DEV_READ, m3i4 := MINOR dev, m3i3 := int p\<rparr>"
  let ?s = "(received ?m s)\<lparr>fs_msg := tty_answer ?m2, fs_sent := fs_sent s @ [ToDriver (int TASK_TTY) ?m2]\<rparr>"
  have "driver_of dev = Inr (int TASK_TTY)" using assms(11) by (simp add: driver_of_def dd_map_def)
  then have "rdwt_tty pin (received ?m s) = Inr (n, ?s)"
    using assms(10,11) by (simp add: rdwt_tty_def read_msg_of_def tty_answer_def Let_def)
  moreover have "I_CHAR_SPECIAL AND I_TYPE_MASK = I_CHAR_SPECIAL" by (simp add: const_simps)
  ultimately have "do_rdwt (received ?m s) = Inr (n, ?s)"
    using assms(2-9) by (simp add: do_rdwt_def read_msg_of_def)
  then have "fs_dispatch (received ?m s) = Inr (?s\<lparr>fs_msg := tty_answer ?m2\<lparr>m3i2 := n\<rparr>\<rparr>)"
    by (simp add: fs_dispatch_def ret_i2_def read_msg_of_def Let_def)
  then have "task_fs ?m s = Inr (?s\<lparr>fs_msg := tty_answer ?m2\<lparr>m3i2 := n\<rparr>\<rparr>)"
    using assms(1) by (simp add: task_fs_def fs_answer_def tty_answer_def read_msg_of_def)
  then show "\<exists>s' m. read_file m0 p fd buf_addr n s = Inr (None, s') \<and> fs_sent s' = fs_sent s @ [ToDriver (int TASK_TTY) m]
      \<and> msg_type m = DEV_READ \<and> m3i4 m = MINOR dev \<and> m3i3 m = int p \<and> m3p2 m = buf_addr \<and> m3i2 m = n
      \<and> s' = s\<lparr>fs_msg := fs_msg s', pcaller := p, fs_sent := fs_sent s'\<rparr>"
    by (simp add: read_file_def fs_return_def fs_call_def reply_to_def read_msg_of_def received_def)
  show "\<forall>t. \<exists>t' m. task_fs r t = Inr t' \<and> fs_sent t' = fs_sent t @ [FsReply (int p) m] \<and> msg_type m = SYSCALL_RET \<and> m3i2 m = m3i2 r"
    using assms(12-14) by (simp add: task_fs_def fs_dispatch_def fs_answer_def valid_proc_nr_def Let_def)
qed

section \<open>Instances\<close>

lemma rdwt_demo_call:
  assumes "msg_source m = 6" and "msg_type m = typ" and "m3i1 m = int fd" and "fd < 64" and "m3i2 m = int l" and "m3p2 m = a"
    and "disjoint_blocks a l fsbuf (2 ^ 20)"
  shows "file_request_ok (received m (rdwt_demo typ' (int p) l')) typ fd 1 p l a"
proof -
  have "kinv (received m (rdwt_demo typ' (int p) l'))" using rdwt_demo_kinv kinv_received by blast
  then have "va2la (received m (rdwt_demo typ' (int p) l')) 6 a = Inr a"
    by (simp add: va2la_linear linear_def) (simp add: kinv_def)
  then show ?thesis
    using assms rdwt_demo_filp [of typ' "int p" l']
    by (simp add: file_request_ok_def rdwt_demo_inode valid_proc_nr_def) (simp add: rdwt_demo_def upd_proc_def O_RDWR_def)
qed

lemmas rdwt_demo_facts = rdwt_demo_inode rdwt_demo_inode [unfolded One_nat_def] rdwt_demo_sb span_def

definition blank_msg :: message where
  "blank_msg = read_msg (\<lambda>_. 0) 0"

lemma demo_area_free: "l \<le> 1000 \<Longrightarrow> disjoint_blocks 0x20000 l fsbuf (2 ^ 20)" "l \<le> 1000 \<Longrightarrow> disjoint_blocks 0x40000 l fsbuf (2 ^ 20)"
  by (rule range_disjoint; simp add: fsbuf_def)+

lemma demo_read:
  assumes "fd < 64" and "l \<le> 1000" and "a = 0x20000 \<or> a = 0x40000"
  shows "file_request_ok (read_received blank_msg 6 (int fd) a l (rdwt_demo 0 (int p) 0)) READ fd 1 p l a"
  using assms demo_area_free by (intro rdwt_demo_call) (auto simp: read_msg_of_def)

lemma demo_write:
  assumes "fd < 64" and "l \<le> 1000" and "a = 0x20000 \<or> a = 0x40000"
  shows "file_request_ok (write_received blank_msg 6 (int fd) a l (rdwt_demo 0 (int p) 0)) WRITE fd 1 p l a"
  using assms demo_area_free by (intro rdwt_demo_call) (auto simp: write_msg_of_def)

theorem read_call_correct_witness:
  "\<exists>s'. read_file blank_msg 6 (int 0) 0x20000 (int 50) (rdwt_demo 0 (int 10) 0) = Inr (Some (int 50), s')
    \<and> read_bytes (mem s') 0x20000 50 = map (demo_disk ROOT_DEV) [153610..<153660]"
proof -
  have "disk (rdwt_demo 0 (int 10) 0) = demo_disk" by (simp add: rdwt_demo_def upd_proc_def)
  then show ?thesis
    using read_call_correct [OF rdwt_demo_kinv demo_read [of 0 50 "0x20000" 10]] by (auto simp: rdwt_demo_facts)
qed

theorem write_call_correct_witness:
  "\<exists>s'. write_file blank_msg 6 (int 0) 0x20000 (int 20) (rdwt_demo 0 (int 90) 0) = Inr (Some (int 20), s') \<and> unat (i_size (inode_of s' 1)) = 110"
  using write_call_correct [OF rdwt_demo_kinv demo_write [of 0 20 "0x20000" 90], of demo_sb 5] by (auto simp: rdwt_demo_facts)

theorem write_read_back_witness:
  "\<exists>s1 s2. write_file blank_msg 6 (int 0) 0x20000 (int 20) (rdwt_demo 0 (int 90) 0) = Inr (Some (int 20), s1)
    \<and> read_file blank_msg 6 (int 1) 0x40000 (int 20) s1 = Inr (Some (int 20), s2)
    \<and> read_bytes (mem s2) 0x40000 20 = read_bytes (mem (rdwt_demo 0 (int 90) 0)) 0x20000 20"
  by (rule write_read_back [OF rdwt_demo_kinv demo_write demo_read, where sb = demo_sb and k = 5])
    (simp_all add: rdwt_demo_facts inode_off_def inodes_fit_def demo_sb_def)

definition terminal_demo :: fs where
  "terminal_demo = (rdwt_demo 0 0 0)\<lparr>inode_table := replicate 64 (tty_inode 1)\<rparr>"

theorem terminal_read_resumes_witness:
  "\<exists>s' m. read_file blank_msg 6 0 0x20000 70 terminal_demo = Inr (None, s') \<and> fs_sent s' = [ToDriver (int TASK_TTY) m] \<and> m3i4 m = 1"
proof -
  have dev: "sint (i_start_sect (inode_of terminal_demo 1)) = 1025" and maj: "MAJOR 1025 = 4" "MINOR 1025 = 1"
    by (simp_all add: terminal_demo_def tty_inode_def MAKE_DEV_def push_bit_eq_mult MAJOR_def MINOR_def)
  have "filp (proc_of terminal_demo 6) = map Some [0..<64]" using rdwt_demo_filp by (simp add: terminal_demo_def)
  moreover have "word_of_int (fd_mode (f_desc_table terminal_demo ! 0)) AND O_RDWR \<noteq> 0" "fd_inode (f_desc_table terminal_demo ! 0) = Some 1"
    "i_mode (inode_of terminal_demo 1) = I_CHAR_SPECIAL" "fs_sent terminal_demo = []"
    by (simp_all add: terminal_demo_def rdwt_demo_def upd_proc_def O_RDWR_def tty_inode_def)
  ultimately show ?thesis
    using terminal_read_resumes [of 6 0 terminal_demo 0 1 1025 "blank_msg\<lparr>msg_type := RESUME_PROC, m3i3 := 6, msg_source := int TASK_TTY\<rparr>" blank_msg "0x20000" 70]
      dev maj by (auto simp: valid_proc_nr_def)
qed

end
