(* ===== verification/Clock.thy ===== *)
theory Clock
  imports Ipc
begin

text \<open>
  The clock interrupt of \<^verbatim>\<open>kernel/clock.c\<close>: it counts ticks, charges the running process, passes a
  key press on to the TTY task and reschedules when the time slice is used up.
\<close>

definition HZ :: int where [simp, const_simps]: "HZ = 100"
definition TIMER_FREQ :: int where [simp, const_simps]: "TIMER_FREQ = 1193182"

definition count_tick :: "'a kernel_scheme \<Rightarrow> 'a kernel_scheme" where
  "count_tick k = k\<lparr>k_ticks := if k_ticks k + 1 \<ge> MAX_TICKS then 0 else k_ticks k + 1\<rparr>"

definition charge :: "'a kernel_scheme \<Rightarrow> 'a kernel_scheme" where
  "charge k =
     (if p_ticks (proc_of k (p_proc_ready k)) \<noteq> 0
      then upd_proc k (p_proc_ready k) (\<lambda>p. p\<lparr>p_ticks := p_ticks p - 1\<rparr>) else k)"

definition clock_handler :: "'a kernel_scheme \<Rightarrow> 'a kernel_scheme res" where
  "clock_handler k =
     (let k1 = charge (count_tick k) in
      res_bind (if key_pressed k1 \<noteq> 0 then inform_int TASK_TTY k1 else Inr k1) (\<lambda>k2.
      if k_reenter k2 \<noteq> 0 then Inr k2
      else if p_ticks (proc_of k2 (p_proc_ready k2)) > 0 then Inr k2
      else schedule k2))"

section \<open>Ticks\<close>

definition ticks_ok :: "'a kernel_scheme \<Rightarrow> bool" where
  "ticks_ok k \<longleftrightarrow> 0 \<le> k_ticks k \<and> k_ticks k < MAX_TICKS"

lemma count_tick_ok: "ticks_ok k \<Longrightarrow> ticks_ok (count_tick k)"
  by (auto simp: ticks_ok_def count_tick_def)

lemma count_tick_simps [simp]:
  "proc_table (count_tick k) = proc_table k" "p_proc_ready (count_tick k) = p_proc_ready k"
  "k_reenter (count_tick k) = k_reenter k" "key_pressed (count_tick k) = key_pressed k"
  by (simp_all add: count_tick_def)

lemma charge_simps [simp]:
  "k_ticks (charge k) = k_ticks k" "p_proc_ready (charge k) = p_proc_ready k"
  "k_reenter (charge k) = k_reenter k" "key_pressed (charge k) = key_pressed k"
  "length (proc_table (charge k)) = length (proc_table k)"
  by (simp_all add: charge_def)

lemma proc_of_charge:
  "p_proc_ready k < length (proc_table k) \<Longrightarrow> proc_of (charge k) i =
     (if i = p_proc_ready k \<and> p_ticks (proc_of k i) \<noteq> 0
      then (proc_of k i)\<lparr>p_ticks := p_ticks (proc_of k i) - 1\<rparr> else proc_of k i)"
  by (auto simp: charge_def)

text \<open>Counting and charging are invisible to message passing.\<close>

lemma charge_same:
  assumes k: "kinv k" and "p_proc_ready k < length (proc_table k)"
  shows "kinv (charge (count_tick k))" "abs_ipc (charge (count_tick k)) = abs_ipc k"
proof -
  let ?k = "charge (count_tick k)"
  have p: "\<exists>t. proc_of ?k i = (proc_of k i)\<lparr>p_ticks := t\<rparr>" for i
    using assms(2) proc_of_charge [of "count_tick k" i] ticks_same [of "proc_of k i"]
    by (auto simp: count_tick_def)
  have same: "same_ipc (proc_of k i) (proc_of ?k i) \<and> has_int_msg (proc_of ?k i) = has_int_msg (proc_of k i)"
    "ldts (proc_of ?k i) = ldts (proc_of k i)" for i
    using p [of i] by (auto simp: same_ipc_def)
  note cong = abs_cong [OF kinvD(1) [OF k], of ?k]
  show "abs_ipc ?k = abs_ipc k"
    by (rule cong(2)) (use same in \<open>auto simp: count_tick_def\<close>)
  have "ipc_inv (proc_table ?k)"
    by (rule cong(1)) (use same in \<open>auto simp: count_tick_def\<close>)
  then show "kinv ?k" by (rule kinv_cong [OF k]) (use same in simp)
qed

lemma runnable_charge:
  "p_proc_ready k < length (proc_table k) \<Longrightarrow> runnable (proc_of (charge k) i) = runnable (proc_of k i)"
  by (simp add: proc_of_charge runnable_def)

end
