(* ===== verification/Kernel_Steps.thy ===== *)
theory Kernel_Steps
  imports Boot Clock
begin

text \<open>
  The kernel as a state machine. A step is a system call of the running process, a hardware
  interrupt, a clock interrupt, or work of a process in its own memory. The invariant is proved
  once, in a locale for state machines, and holds in every state reachable from a start.
\<close>

section \<open>State machines\<close>

inductive reach :: "('s \<Rightarrow> bool) \<Rightarrow> ('s \<Rightarrow> 's \<Rightarrow> bool) \<Rightarrow> 's \<Rightarrow> bool" for start step where
  reach_init: "start s \<Longrightarrow> reach start step s"
| reach_step: "reach start step s \<Longrightarrow> step s s' \<Longrightarrow> reach start step s'"

locale state_machine =
  fixes start :: "'s \<Rightarrow> bool" and step :: "'s \<Rightarrow> 's \<Rightarrow> bool" and inv :: "'s \<Rightarrow> bool"
  assumes init_inv: "start s \<Longrightarrow> inv s"
    and step_inv: "inv s \<Longrightarrow> step s s' \<Longrightarrow> inv s'"
begin

lemma reach_inv: "reach start step s \<Longrightarrow> inv s"
  by (induction rule: reach.induct) (auto intro: init_inv step_inv)

lemma reach_steps_inv: "reach start step s \<Longrightarrow> step\<^sup>*\<^sup>* s s' \<Longrightarrow> inv s'"
  by (rule reach_inv) (rotate_tac, induction rule: rtranclp_induct, auto intro: reach_step)

end

section \<open>System calls\<close>

lemma kinv_mem [simp]: "kinv (k\<lparr>mem := x\<rparr>) = kinv k"
  by (simp add: kinv_def seg_base_def)

lemma abs_mem [simp]: "abs_ipc (k\<lparr>mem := x\<rparr>) = abs_ipc k"
  by (simp add: abs_ipc_def)

lemma nobody_runs_mem [simp]: "nobody_runs (k\<lparr>mem := x\<rparr>) \<sigma> = nobody_runs k \<sigma>"
  by (simp add: nobody_runs_def)

lemma step_ok_mem [simp]: "step_ok (k\<lparr>mem := x\<rparr>) k' \<sigma> = step_ok k k' \<sigma>"
  by (simp add: step_ok_def)

text \<open>The kernel first writes the caller's number into the message.\<close>

definition stamp :: "'a kernel_scheme \<Rightarrow> nat \<Rightarrow> u32 \<Rightarrow> 'a kernel_scheme" where
  "stamp k c m = k\<lparr>mem := write_int (mem k) (linear k c m) (int c)\<rparr>"

lemma sys_sendrec_send:
  assumes "kinv k" and "k_reenter k = 0" and "d < NR_TASKS + NR_PROCS" and "d \<noteq> c"
  shows "sys_sendrec SEND (int d) m c k = msg_send (stamp k c m) c (int d) m"
  using assms by (simp add: sys_sendrec_def va2la_linear valid_proc_nr_def stamp_def Let_def)

lemma sys_sendrec_receive:
  assumes "kinv k" and "k_reenter k = 0" and "valid_proc_nr src \<or> src = ANY \<or> src = INTERRUPT"
    and "int c \<noteq> src"
  shows "sys_sendrec RECEIVE src m c k = msg_receive (stamp k c m) c src m"
  using assms by (simp add: sys_sendrec_def va2la_linear stamp_def Let_def)

text \<open>A system call that returns went through one of the two routines.\<close>

lemma sys_sendrec_returns:
  assumes "kinv k" and "sys_sendrec func sd m c k = Inr k'"
  obtains (send) d where "func = SEND" "sd = int d" "d < NR_TASKS + NR_PROCS" "d \<noteq> c" "k_reenter k = 0"
      "msg_send (stamp k c m) c (int d) m = Inr k'"
  | (receive) "func = RECEIVE" "valid_proc_nr sd \<or> sd = ANY \<or> sd = INTERRUPT" "sd \<noteq> int c"
      "k_reenter k = 0" "msg_receive (stamp k c m) c sd m = Inr k'"
proof -
  from assms have g: "k_reenter k = 0" "valid_proc_nr sd \<or> sd = ANY \<or> sd = INTERRUPT" "int c \<noteq> sd"
    and call: "(if func = SEND then msg_send (stamp k c m) c sd m
      else if func = RECEIVE then msg_receive (stamp k c m) c sd m
      else Inl (Panic ''sys_sendrec: invalid function'')) = Inr k'"
    by (auto simp: sys_sendrec_def va2la_linear stamp_def Let_def res_simps split: if_splits)
  show thesis
  proof (cases "func = SEND")
    case True
    with call have "msg_send (stamp k c m) c sd m = Inr k'" by simp
    moreover from this have "valid_proc_nr sd" by (auto simp: msg_send_def res_simps split: if_splits)
    ultimately show thesis
      using True g send [of "nat sd"] by (auto simp: valid_proc_nr_def)
  next
    case False
    with call g receive show thesis by (auto split: if_splits)
  qed
qed

section \<open>The steps\<close>

inductive kstep :: "'a kernel_scheme \<Rightarrow> 'a kernel_scheme \<Rightarrow> bool" where
  syscall: "m \<noteq> 0 \<Longrightarrow> sys_sendrec func src_dest m (p_proc_ready k) k = Inr k' \<Longrightarrow> kstep k k'"
| hwint: "t < NR_TASKS + NR_PROCS \<Longrightarrow> inform_int t k = Inr k' \<Longrightarrow> kstep k k'"
| clock: "clock_handler k = Inr k' \<Longrightarrow> kstep k k'"
| compute: "kstep k (k\<lparr>mem := m'\<rparr>)"

inductive_cases kstepE: "kstep k k'"

text \<open>The states the kernel starts in: what \<^const>\<open>start_kernel\<close> leaves.\<close>

definition kstart :: "kernel \<Rightarrow> bool" where
  "kstart k \<longleftrightarrow> (\<exists>env b l m m'. descriptor_base (gdt env ! 2) = 0 \<and>
     start_kernel env (Inr (0, b, l, m')) m = Inr k)"

definition plain_status :: "ipc_state \<Rightarrow> bool" where
  "plain_status \<sigma> \<longleftrightarrow> (\<forall>st \<in> set (status \<sigma>). \<forall>f. st = Stopped f \<longrightarrow> f = FREE_SLOT)"

definition kernel_ok :: "'a kernel_scheme \<Rightarrow> bool" where
  "kernel_ok k \<longleftrightarrow> kinv k \<and> cur_ok k \<and> plain_status (abs_ipc k)"

lemma plain_status_update:
  "plain_status \<sigma> \<Longrightarrow> (\<And>f. st \<noteq> Stopped f) \<Longrightarrow> plain_status (\<sigma>\<lparr>status := (status \<sigma>)[i := st]\<rparr>)"
  by (auto simp: plain_status_def dest!: set_update_subset_insert [THEN subsetD])

lemma plain_status_cong: "status \<tau> = status \<sigma> \<Longrightarrow> plain_status \<tau> = plain_status \<sigma>"
  by (simp add: plain_status_def)

lemma plain_spec_send: "plain_status \<sigma> \<Longrightarrow> spec_send s d \<sigma> = Some \<tau> \<Longrightarrow> plain_status \<tau>"
  using plain_status_update [of \<sigma> Ready d] plain_status_update [of \<sigma> "SendsTo d" s]
  by (auto simp: spec_send_def plain_status_def split: if_splits)

lemma plain_spec_receive: "plain_status \<sigma> \<Longrightarrow> plain_status (spec_receive r src \<sigma>)"
  using plain_status_update [of \<sigma> "ReceivesFrom src" r] plain_status_update [of \<sigma> Ready]
  by (auto simp: spec_receive_def plain_status_def split: option.splits)

lemma plain_spec_interrupt: "plain_status \<sigma> \<Longrightarrow> plain_status (spec_interrupt t \<sigma>)"
  using plain_status_update [of \<sigma> Ready t] by (auto simp: spec_interrupt_def plain_status_def)

lemma plain_receiverI:
  assumes "kinv k" and "plain_status (abs_ipc k)" and "i < length (proc_table k)"
  shows "plain_receiver (proc_of k i)"
proof -
  have "status_of (proc_of k i) \<in> set (status (abs_ipc k))"
    using assms(3) by (simp add: abs_ipc_def)
  then have st: "\<forall>f. status_of (proc_of k i) = Stopped f \<longrightarrow> f = FREE_SLOT"
    using assms(2) by (simp add: plain_status_def)
  have "\<not> has_flag (proc_of k i) SENDING" if "has_flag (proc_of k i) RECEIVING"
    using that proc_ok_sending(1) [OF ipc_invD [OF kinvD(1) [OF assms(1)] assms(3)]] flag_SENDING(2) by blast
  with st show ?thesis
    by (auto simp: plain_receiver_def status_of_def has_flag_def const_simps split: if_splits)
qed

section \<open>The invariant is kept\<close>

lemma stamp_simps [simp]:
  "kinv (stamp k c m) = kinv k" "abs_ipc (stamp k c m) = abs_ipc k" "proc_table (stamp k c m) = proc_table k"
  "k_reenter (stamp k c m) = k_reenter k" "p_proc_ready (stamp k c m) = p_proc_ready k"
  "step_ok (stamp k c m) k' \<sigma> = step_ok k k' \<sigma>" "nobody_runs (stamp k c m) \<sigma> = nobody_runs k \<sigma>"
  by (simp_all add: stamp_def)

lemma step_ok_kernel_ok:
  assumes "kernel_ok k" and "step_ok k k' \<sigma>" and "plain_status \<sigma>"
  shows "kernel_ok k'"
proof -
  have k': "kinv k'" "abs_ipc k' = \<sigma>" "p_proc_ready k' = p_proc_ready k \<and> ready_kept (abs_ipc k) \<sigma> \<or> cur_ok k'"
    using assms(2) by (auto simp: step_ok_def)
  have "cur_ok k'" if same: "p_proc_ready k' = p_proc_ready k" "ready_kept (abs_ipc k) (abs_ipc k')"
  proof -
    let ?c = "p_proc_ready k"
    have c: "?c < length (proc_table k)" "?c < length (proc_table k')" "runnable (proc_of k ?c)"
      using assms(1) kinvD(2) [OF k'(1)] kinvD(2) [of k] by (auto simp: kernel_ok_def cur_ok_def)
    then have "status (abs_ipc k) ! ?c = Ready" by (simp add: Ready_iff)
    then have "status (abs_ipc k') ! ?c = Ready" using same(2) unfolding ready_kept_def by blast
    with c(2) same(1) show ?thesis by (simp add: cur_ok_def Ready_iff)
  qed
  with k' assms(3) show ?thesis by (auto simp: kernel_ok_def)
qed

lemma kernel_okD:
  assumes "kernel_ok k"
  shows "kinv k" "p_proc_ready k < NR_TASKS + NR_PROCS" "p_flags (proc_of k (p_proc_ready k)) = 0"
    "plain_status (abs_ipc k)" "\<And>i. i < NR_TASKS + NR_PROCS \<Longrightarrow> plain_receiver (proc_of k i)"
  using assms kinvD(2) [of k] plain_receiverI [of k]
  by (auto simp: kernel_ok_def cur_ok_def runnable_def)

lemma syscall_keeps:
  assumes ok: "kernel_ok k" and m: "m \<noteq> 0"
    and call: "sys_sendrec func sd m (p_proc_ready k) k = Inr k'"
  shows "kernel_ok k'"
proof -
  let ?c = "p_proc_ready k" and ?k = "stamp k (p_proc_ready k) m"
  note K = kernel_okD [OF ok]
  from K(1) call show ?thesis
  proof (cases rule: sys_sendrec_returns)
    case (send d)
    then have "case spec_send ?c d (abs_ipc k) of None \<Rightarrow> False | Some \<sigma> \<Rightarrow> step_ok k k' \<sigma>"
      using msg_send_correct [of ?k ?c m d] K m by (auto split: option.splits)
    then show ?thesis
      using step_ok_kernel_ok [OF ok] plain_spec_send [OF K(4)] by (auto split: option.splits)
  next
    case receive
    have src: "sd \<noteq> NO_TASK" using receive(2) by (auto simp: valid_proc_nr_def)
    have "step_ok k k' (spec_receive ?c sd (abs_ipc k))"
    proof (cases "sd = ANY \<or> sd = INTERRUPT \<or> has_int_msg (proc_of k ?c) = 0 \<or>
        spec_pick (waiting (abs_ipc k) ! ?c) sd \<noteq> None")
      case True
      then show ?thesis
        using msg_receive_correct [of ?k ?c m sd] K m receive(3,5) src by auto
    next
      case False
      then have "\<not> msg_receive ?k ?c sd m = Inr k'"
        using msg_receive_blocks [of ?k ?c m sd] K(1-3) kinvD(2) [OF K(1)] m receive(3) src
        by (auto simp: res_simps)
      with receive(5) show ?thesis by simp
    qed
    then show ?thesis
      using step_ok_kernel_ok [OF ok] plain_spec_receive [OF K(4)] by blast
  qed
qed

lemma inform_int_keeps:
  assumes ok: "kernel_ok k" and t: "t < NR_TASKS + NR_PROCS" and call: "inform_int t k = Inr k'"
  shows "kernel_ok k'" "p_proc_ready k' = p_proc_ready k" "k_reenter k' = k_reenter k"
proof -
  note K = kernel_okD [OF ok]
  have s: "step_ok k k' (spec_interrupt t (abs_ipc k))" "p_proc_ready k' = p_proc_ready k"
    using inform_int_correct [OF K(1) t K(5) [OF t]] call by auto
  then show "kernel_ok k'" "p_proc_ready k' = p_proc_ready k" "k_reenter k' = k_reenter k"
    using step_ok_kernel_ok [OF ok s(1) plain_spec_interrupt [OF K(4)]] by (auto simp: step_ok_def)
qed

lemma charge_keeps: "kernel_ok k \<Longrightarrow> kernel_ok (charge (count_tick k))"
  using charge_same [of k] runnable_charge [of "count_tick k"]
  by (auto simp: kernel_ok_def cur_ok_def count_tick_def)

lemma schedule_keeps:
  assumes ok: "kernel_ok k" and "schedule k = Inr k'"
  shows "kernel_ok k'"
proof (cases k rule: schedule_outcome [case_names kinv spins chosen])
  case kinv
  show ?case by (rule kernel_okD(1) [OF ok])
next
  case (chosen k'')
  with assms show ?thesis
    using best_choice_cur [OF chosen(6)] by (auto simp: kernel_ok_def)
qed (use assms in simp)

lemma clock_keeps:
  assumes ok: "kernel_ok k" and call: "clock_handler k = Inr k'"
  shows "kernel_ok k'"
proof -
  let ?k1 = "charge (count_tick k)"
  have k1: "kernel_ok ?k1" by (rule charge_keeps [OF ok])
  obtain k2 where k2: "(if key_pressed ?k1 \<noteq> 0 then inform_int TASK_TTY ?k1 else Inr ?k1) = Inr k2"
    and k': "k' = k2 \<or> schedule k2 = Inr k'"
    using call by (auto simp: clock_handler_def Let_def res_simps split: if_splits)
  have "kernel_ok k2"
    using k2 k1 inform_int_keeps(1) [OF k1, of TASK_TTY k2] by (simp split: if_splits)
  with k' show ?thesis using schedule_keeps by blast
qed

lemma kernel_ok_mem [simp]: "kernel_ok (k\<lparr>mem := x\<rparr>) = kernel_ok k"
  by (simp add: kernel_ok_def cur_ok_def)

lemma kstep_keeps: "kernel_ok k \<Longrightarrow> kstep k k' \<Longrightarrow> kernel_ok k'"
  by (auto elim!: kstepE intro: syscall_keeps inform_int_keeps(1) clock_keeps)

lemma kstart_ok:
  assumes "kstart k"
  shows "kernel_ok k"
proof -
  obtain env b l m m' where env: "flat_gdt env" and k: "start_kernel env (Inr (0, b, l, m')) m = Inr k"
    using assms by (auto simp: kstart_def flat_gdt_def)
  have f: "length (proc_table k) = NR_TASKS + NR_PROCS" "p_proc_ready k = 0"
    "\<forall>i < NR_TASKS + NR_PROCS. fresh_proc i (proc_of k i)"
    using start_kernel_fresh [OF env, of b l m' m] k by auto
  have "\<forall>f. status_of (proc_of k i) = Stopped f \<longrightarrow> f = FREE_SLOT" if "i < NR_TASKS + NR_PROCS" for i
    using f(3) that fresh_native(2) [of i "proc_of k i"] fresh_free [of i "proc_of k i"]
    by (auto simp: status_of_def split: if_splits)
  then have "plain_status (abs_ipc k)"
    using f(1) by (auto simp: plain_status_def abs_ipc_def in_set_conv_nth)
  moreover have "cur_ok k"
    using f fresh_native(2) [of 0 "proc_of k 0"] by (simp add: cur_ok_def runnable_def)
  ultimately show ?thesis using fresh_kinv [OF f(1,3)] by (simp add: kernel_ok_def)
qed

interpretation kernel_machine: state_machine kstart kstep kernel_ok
  by unfold_locales (auto intro: kstart_ok kstep_keeps)

end
