(* ===== verification/Fs_Steps.thy ===== *)
theory Fs_Steps
  imports Fs_Task Kernel_Steps
begin

text \<open>
  The file system task as a state machine. A step serves one request, or lets the rest of the
  system run. In every state reached from a start the reference counts of the descriptors and
  the i-nodes are exact.
\<close>

section \<open>What the counts depend on\<close>

definition same_counts :: "fs \<Rightarrow> fs \<Rightarrow> bool" where
  "same_counts s t \<longleftrightarrow> map filp (proc_table t) = map filp (proc_table s) \<and> root_inode t = root_inode s
     \<and> map (\<lambda>f. (fd_cnt f, fd_inode f)) (f_desc_table t) = map (\<lambda>f. (fd_cnt f, fd_inode f)) (f_desc_table s)
     \<and> map i_cnt (inode_table t) = map i_cnt (inode_table s)"

lemma same_counts_refl [simp]: "same_counts s s"
  by (simp add: same_counts_def)

lemma same_counts_trans: "same_counts s t \<Longrightarrow> same_counts t u \<Longrightarrow> same_counts s u"
  by (simp add: same_counts_def)

lemma same_tables_counts: "same_tables s t \<Longrightarrow> same_counts s t"
  by (simp add: same_tables_def same_counts_def)

lemma same_counts_refs:
  assumes "same_counts s t"
  shows "refs t d = refs s d" and "inode_refs t i = inode_refs s i"
proof -
  have "refs u d = (\<Sum>fs\<leftarrow>map filp (proc_table u). count_list fs (Some d))" for u :: fs by (simp add: refs_def comp_def)
  then show "refs t d = refs s d" using assms by (simp only: same_counts_def)
  have "inode_refs u i = (\<Sum>(c, n)\<leftarrow>map (\<lambda>f. (fd_cnt f, fd_inode f)) (f_desc_table u). if n = Some i then c else 0)" for u :: fs
    by (simp add: inode_refs_def share_def comp_def)
  then show "inode_refs t i = inode_refs s i" using assms by (simp only: same_counts_def)
qed

lemma same_counts_inv:
  assumes "same_counts s t" and "refs_ok s"
  shows "refs_ok t"
proof -
  note e = assms(1) [unfolded same_counts_def]
  have len: "length (proc_table t) = length (proc_table s)" "length (f_desc_table t) = length (f_desc_table s)"
    "length (inode_table t) = length (inode_table s)"
    using e by (metis length_map)+
  note D = assms(2) [unfolded refs_inv_def]
  have files: "length (filp p) = NR_FILES \<and> (\<forall>d. Some d \<in> set (filp p) \<longrightarrow> d < NR_FILE_DESC)" if "p \<in> set (proc_table t)" for p
  proof -
    have "filp p \<in> set (map filp (proc_table t))" using that by simp
    then have "filp p \<in> set (map filp (proc_table s))" using e by simp
    then obtain q where "q \<in> set (proc_table s)" "filp p = filp q" by auto
    then show ?thesis using D by simp
  qed
  have desc: "desc_ok (f_desc_table t ! d) (int (refs t d) - int (count_list [] (Some d)))" if "d < NR_FILE_DESC" for d
  proof -
    have d: "d < length (f_desc_table s)" using that D by simp
    then have "(fd_cnt (f_desc_table t ! d), fd_inode (f_desc_table t ! d)) = (fd_cnt (f_desc_table s ! d), fd_inode (f_desc_table s ! d))"
      using e len(2) nth_map [of d "f_desc_table t" "\<lambda>f. (fd_cnt f, fd_inode f)"] nth_map [of d "f_desc_table s" "\<lambda>f. (fd_cnt f, fd_inode f)"] by simp
    moreover have "desc_ok (f_desc_table s ! d) (int (refs s d) - int (count_list [] (Some d)))" using D that by blast
    ultimately show ?thesis using same_counts_refs(1) [OF assms(1)] by (simp add: desc_ok_def)
  qed
  have inode: "i_cnt (inode_of t i) = inode_refs t i + (if i = root_inode t then 1 else 0)" if "i < NR_INODE" for i
  proof -
    have "i < length (inode_table s)" using that D by simp
    then have "i_cnt (inode_of t i) = i_cnt (inode_of s i)"
      using e len(3) nth_map [of i "inode_table t" i_cnt] nth_map [of i "inode_table s" i_cnt] by simp
    moreover have "i_cnt (inode_of s i) = inode_refs s i + (if i = root_inode s then 1 else 0)" using D that by blast
    ultimately show ?thesis using same_counts_refs(2) [OF assms(1)] e by simp
  qed
  show ?thesis unfolding refs_inv_def using len D files desc inode by simp
qed

section \<open>Reading and writing\<close>

lemma upd_desc_counts:
  assumes "\<And>f. fd_cnt (g f) = fd_cnt f" and "\<And>f. fd_inode (g f) = fd_inode f"
  shows "same_counts s (upd_desc s d g)"
proof -
  have "map (\<lambda>f. (fd_cnt f, fd_inode f)) ((f_desc_table s)[d := g (f_desc_table s ! d)]) = map (\<lambda>f. (fd_cnt f, fd_inode f)) (f_desc_table s)"
    using assms by (cases "d < length (f_desc_table s)") (simp_all add: map_update list_update_same_conv list_update_beyond not_less)
  then show ?thesis by (simp add: same_counts_def upd_desc_def)
qed

lemma upd_inode_counts:
  assumes "\<And>n. i_cnt (g n) = i_cnt n"
  shows "same_counts s (upd_inode s p g)"
proof -
  have "map i_cnt ((inode_table s)[p := g (inode_of s p)]) = map i_cnt (inode_table s)"
    using assms by (cases "p < length (inode_table s)") (simp_all add: map_update list_update_same_conv list_update_beyond not_less)
  then show ?thesis by (simp add: same_counts_def upd_inode_def)
qed

lemma rdwt_loop_counts:
  "rdwt_loop reading src b d dev chunk sect_max i off rw left s = Inr (v, t) \<Longrightarrow> same_counts s t"
proof (induction reading src b d dev chunk sect_max i off rw left s rule: rdwt_loop.induct)
  case (1 reading src b d dev chunk sect_max i off rw left s)
  show ?case
  proof (cases "i \<le> sect_max")
    case True
    let ?bytes = "min left (chunk * int SECTOR_SIZE - off)"
    from 1(2) True have ch: "\<not> chunk \<le> 0" by (subst (asm) rdwt_loop.simps) (auto split: if_splits)
    from 1(2) True ch obtain s1 ua fa s2 where
      s1: "rw_sector DEV_READ dev (i * int SECTOR_SIZE) (chunk * int SECTOR_SIZE) TASK_FS fsbuf s = Inr s1"
      and ua: "va2la s1 src (b + word_of_int rw) = Inr ua" and fa: "va2la s1 TASK_FS (fsbuf + word_of_int off) = Inr fa" and nn: "\<not> ?bytes < 0"
      and s2: "(if reading then Inr (s1\<lparr>mem := phys_copy (mem s1) ua fa (nat ?bytes)\<rparr>)
               else rw_sector DEV_WRITE dev (i * int SECTOR_SIZE) (chunk * int SECTOR_SIZE) TASK_FS fsbuf
                      (s1\<lparr>mem := phys_copy (mem s1) fa ua (nat ?bytes)\<rparr>)) = Inr s2"
      and rest: "rdwt_loop reading src b d dev chunk sect_max (i + chunk) 0 (rw + ?bytes) (left - ?bytes)
              (upd_desc s2 d (\<lambda>f. f\<lparr>fd_pos := fd_pos f + ?bytes\<rparr>)) = Inr (v, t)"
      by (subst (asm) rdwt_loop.simps) (simp only: if_True if_False Let_def res_bind_eq_Inr, auto simp: res_simps split: if_splits)
    have "same_counts s1 s2"
      using s2 rw_sector_tables [of DEV_WRITE dev _ _ _ _ "s1\<lparr>mem := phys_copy (mem s1) fa ua (nat ?bytes)\<rparr>" s2]
      by (auto simp: same_counts_def same_tables_def split: if_splits)
    moreover have "same_counts s s1" using same_tables_counts [OF rw_sector_tables [OF s1]] .
    moreover have "same_counts s2 (upd_desc s2 d (\<lambda>f. f\<lparr>fd_pos := fd_pos f + ?bytes\<rparr>))" by (rule upd_desc_counts) simp_all
    moreover have "same_counts (upd_desc s2 d (\<lambda>f. f\<lparr>fd_pos := fd_pos f + ?bytes\<rparr>)) t"
      using 1(1) [OF True ch refl nn rest] .
    ultimately show ?thesis using same_counts_trans by blast
  next
    case False
    then show ?thesis using 1(2) by (subst (asm) rdwt_loop.simps) simp
  qed
qed

lemma sync_inode_tables: "sync_inode p s = Inr t \<Longrightarrow> same_counts s t"
  unfolding sync_inode_def Let_def RD_SECT_def WR_SECT_def res_bind_eq_Inr
  by (elim exE conjE, drule rw_sector_tables, drule rw_sector_tables) (simp add: same_tables_def same_counts_def)

lemma do_rdwt_counts:
  assumes "do_rdwt s = Inr (v, t)"
  shows "same_counts s t"
proof -
  have size: "same_counts u w" if "update_size d pin u = Inr w" for d pin u w
    using that sync_inode_tables upd_inode_counts [of "\<lambda>n. n\<lparr>i_size := x\<rparr>" u pin for x] same_counts_trans
    by (auto simp: update_size_def Let_def split: if_splits) blast
  have fl: "same_counts s t" if "rdwt_file reading src b l d pin s = Inr (v, t)" for reading src b l d pin
    using that by (auto simp: rdwt_file_def Let_def res_simps dest!: rdwt_loop_counts size intro: same_counts_trans)
  have "same_counts s t" if "rdwt_tty pin s = Inr (v, t)" for pin
    using that by (auto simp: rdwt_tty_def Let_def res_simps same_counts_def)
  with fl show ?thesis
    using assms by (auto simp: do_rdwt_def Let_def res_simps split: if_splits)
qed

section \<open>Steps\<close>

text \<open>
  The requests of the relation: all but \<^verbatim>\<open>OPEN\<close> with \<^verbatim>\<open>O_CREAT\<close> and \<^verbatim>\<open>UNLINK\<close>, whose early returns
  leave counts too high (theory Fs_Unlink). A \<^verbatim>\<open>FORK\<close> comes from MM, which has given the files of the parent to a child
  that had none. Between two requests other tasks and processes change everything but the files of
  the processes and the tables of FS.
\<close>

definition plain_request :: "message \<Rightarrow> bool" where
  "plain_request m \<longleftrightarrow> msg_type m \<in> {CLOSE, READ, WRITE, RESUME_PROC, EXIT}
     \<or> msg_type m = OPEN \<and> word_of_int (m3i1 m) AND O_CREAT = 0"

inductive fs_step :: "fs \<Rightarrow> fs \<Rightarrow> bool" where
  serve: "plain_request m \<Longrightarrow> task_fs m s = Inr s' \<Longrightarrow> fs_step s s'"
| fork: "msg_type m = FORK \<Longrightarrow> m3i2 m = int child \<Longrightarrow> parent < NR_TASKS + NR_PROCS \<Longrightarrow> child < NR_TASKS + NR_PROCS \<Longrightarrow> parent \<noteq> child \<Longrightarrow>
    filp (proc_of s child) = replicate NR_FILES None \<Longrightarrow>
    task_fs m (upd_proc s child (\<lambda>p. p\<lparr>filp := filp (proc_of s parent)\<rparr>)) = Inr s' \<Longrightarrow> fs_step s s'"
| other: "same_counts s s' \<Longrightarrow> fs_step s s'"

lemma answer_counts: "same_counts s (fs_answer src s)"
  by (simp add: fs_answer_def same_counts_def Let_def)

lemma ret_counts: "ret_i1 r = Inr t \<Longrightarrow> \<exists>v u. r = Inr (v, u) \<and> same_counts u t" "ret_i2 r = Inr t \<Longrightarrow> \<exists>v u. r = Inr (v, u) \<and> same_counts u t"
  by (auto simp: ret_i1_def ret_i2_def res_simps same_counts_def)

lemma same_counts_length: "same_counts s t \<Longrightarrow> length (proc_table t) = length (proc_table s)"
  unfolding same_counts_def by (metis length_map)

text \<open>The state of FS: exact counts and the full process table.\<close>

definition fs_ok :: "fs \<Rightarrow> bool" where
  "fs_ok s \<longleftrightarrow> refs_ok s \<and> length (proc_table s) = NR_TASKS + NR_PROCS"

lemma same_counts_ok: "same_counts s t \<Longrightarrow> fs_ok s \<Longrightarrow> fs_ok t"
  by (auto simp: fs_ok_def same_counts_length intro: same_counts_inv)

lemma received_counts: "same_counts s (received m s)"
  by (simp add: same_counts_def)

lemma close_ok:
  assumes "fs_ok s" and "pcaller s < NR_TASKS + NR_PROCS" and "do_close s = Inr (v, t)"
  shows "fs_ok t"
proof -
  obtain d where "0 \<le> m3i1 (fs_msg s)" "m3i1 (fs_msg s) < 64" "filp (proc_of s (pcaller s)) ! nat (m3i1 (fs_msg s)) = Some d"
    using assms(3) by (auto simp: do_close_def caller_desc_def Let_def res_simps not_le split: if_splits)
  then have "refs_ok t" using do_close_refs [of s d] assms by (auto simp: fs_ok_def)
  moreover have "length (proc_table t) = length (proc_table s)"
    using assms(3) by (auto simp: do_close_def Let_def res_simps put_inode_def upd_inode_def upd_desc_def)
  ultimately show ?thesis using assms(1) by (simp add: fs_ok_def)
qed

lemma open_ok:
  assumes "fs_ok s" and "pcaller s < NR_TASKS + NR_PROCS" and "word_of_int (m3i1 (fs_msg s)) AND O_CREAT = 0" and "do_open s = Inr (v, t)"
  shows "fs_ok t"
proof -
  have "refs_ok t \<and> length (proc_table t) = length (proc_table s)" using do_open_refs [OF _ _ assms(3,4)] assms(1,2) by (simp add: fs_ok_def)
  then show ?thesis using assms(1) by (simp add: fs_ok_def)
qed

lemma exit_files_length: "exit_files p is s = Inr t \<Longrightarrow> length (proc_table t) = length (proc_table s)"
proof (induction "is" arbitrary: s)
  case (Cons i is')
  then show ?case by (cases "filp (proc_of s p) ! i") (fastforce simp: res_simps upd_inode_def upd_desc_def Let_def)+
qed simp

lemma fork_files_procs: "fork_files xs s = Inr t \<Longrightarrow> proc_table t = proc_table s"
proof (induction xs arbitrary: s)
  case (Cons x xs)
  then show ?case by (cases x) (fastforce simp: res_simps upd_inode_def upd_desc_def)+
qed simp

lemma exit_ok:
  assumes "fs_ok s" and "fs_exit s = Inr (v, t)"
  shows "fs_ok t"
proof -
  have "valid_proc_nr (m3i2 (fs_msg s))" using assms(2) by (auto simp: fs_exit_def Let_def split: if_splits)
  then have "refs_ok t" using fs_exit_refs [of s] assms by (auto simp: fs_ok_def)
  moreover have "length (proc_table t) = length (proc_table s)"
    using assms(2) exit_files_length by (auto simp: fs_exit_def Let_def res_simps split: if_splits)
  ultimately show ?thesis using assms(1) by (simp add: fs_ok_def)
qed

text \<open>A request that the task has served keeps the counts, when the operation does.\<close>

lemma task_fs_ok:
  assumes "task_fs m s = Inr s'" and "\<And>t. pcaller (received m s) < NR_TASKS + NR_PROCS \<Longrightarrow> fs_dispatch (received m s) = Inr t \<Longrightarrow> fs_ok t"
  shows "fs_ok s'"
proof -
  obtain t src where t: "fs_dispatch (received m s) = Inr t" "s' = fs_answer src t" "valid_proc_nr (msg_source m)"
    using assms(1) by (auto simp: task_fs_def Let_def res_simps split: if_splits)
  then have "fs_ok t" by (intro assms(2)) (auto simp: valid_proc_nr_def)
  then show ?thesis using same_counts_ok [OF answer_counts] t(2) by simp
qed

lemma dispatch_ok:
  assumes "fs_ok s" and "plain_request (fs_msg s)" and "pcaller s < NR_TASKS + NR_PROCS" and "fs_dispatch s = Inr t"
  shows "fs_ok t"
proof -
  note ret = same_counts_ok [OF _ close_ok [OF assms(1,3)]] same_counts_ok [OF _ exit_ok [OF assms(1)]]
    same_counts_ok [OF _ same_counts_ok [OF do_rdwt_counts assms(1)]] same_counts_ok [OF _ open_ok [OF assms(1,3)]]
  from assms(2) consider "msg_type (fs_msg s) = CLOSE" | "msg_type (fs_msg s) = READ \<or> msg_type (fs_msg s) = WRITE"
    | "msg_type (fs_msg s) = RESUME_PROC" | "msg_type (fs_msg s) = EXIT"
    | "msg_type (fs_msg s) = OPEN" "word_of_int (m3i1 (fs_msg s)) AND O_CREAT = 0" by (auto simp: plain_request_def)
  then show ?thesis
  proof cases
    case 1
    then show ?thesis using assms(4) ret(1) ret_counts(1) by (fastforce simp: fs_dispatch_def)
  next
    case 2
    then have "ret_i2 (do_rdwt s) = Inr t" using assms(4) by (auto simp: fs_dispatch_def)
    then show ?thesis using ret(3) ret_counts(2) by blast
  next
    case 3
    then show ?thesis using assms(1,4) by (simp add: fs_dispatch_def)
  next
    case 4
    then show ?thesis using assms(4) ret(2) ret_counts(1) by (fastforce simp: fs_dispatch_def)
  next
    case 5
    then show ?thesis using assms(4) ret(4) ret_counts(1) by (fastforce simp: fs_dispatch_def)
  qed
qed

lemma step_ok:
  assumes "fs_step s s'" and "fs_ok s"
  shows "fs_ok s'"
  using assms(1)
proof cases
  case (serve m)
  show ?thesis
  proof (rule task_fs_ok [OF serve(2)])
    fix t assume "pcaller (received m s) < NR_TASKS + NR_PROCS" "fs_dispatch (received m s) = Inr t"
    then show "fs_ok t" using dispatch_ok [OF same_counts_ok [OF received_counts assms(2)]] serve(1) by simp
  qed
next
  case (fork m child parent)
  let ?s = "received m s"
  have "received m (upd_proc s child (\<lambda>p. p\<lparr>filp := filp (proc_of s parent)\<rparr>)) = upd_proc ?s child (\<lambda>p. p\<lparr>filp := filp (proc_of ?s parent)\<rparr>)"
    by (simp add: received_def upd_proc_def)
  moreover have "refs_ok ?s" "length (proc_table ?s) = 37" using same_counts_ok [OF received_counts assms(2)] by (simp_all add: fs_ok_def)
  ultimately obtain t where t: "fs_fork (received m (upd_proc s child (\<lambda>p. p\<lparr>filp := filp (proc_of s parent)\<rparr>))) = Inr (0, t)" "refs_ok t"
    using fs_fork_refs [of ?s parent child] fork(2-6) by auto
  have "length (proc_table t) = length (proc_table s)"
    using t(1) fork_files_procs by (auto simp: fs_fork_def Let_def res_simps received_def split: if_splits)
  then have "fs_ok t" using t(2) assms(2) by (simp add: fs_ok_def)
  show ?thesis
  proof (rule task_fs_ok [OF fork(7)])
    fix u assume "fs_dispatch (received m (upd_proc s child (\<lambda>p. p\<lparr>filp := filp (proc_of s parent)\<rparr>))) = Inr u"
    then have "ret_i1 (Inr (0, t)) = Inr u" using t(1) fork(1) by (simp add: fs_dispatch_def)
    then show "fs_ok u" using ret_counts(1) same_counts_ok [OF _ \<open>fs_ok t\<close>] by fastforce
  qed
next
  case other
  then show ?thesis using same_counts_ok assms(2) by blast
qed

section \<open>Reachable states\<close>

lemma init_fs_fs_ok:
  assumes "kinv s" and "sb_table s \<noteq> []" and "\<forall>p \<in> set (proc_table s). filp p = replicate NR_FILES None" and "init_fs geo s = Inr s'"
  shows "fs_ok s'"
proof -
  obtain t where "init_fs geo s = Inr t" "proc_table t = proc_table s" "root_inode t = 0"
    "inode_table t = fresh_root (mkfs_sb geo) # replicate 63 no_inode" "f_desc_table t = replicate NR_FILE_DESC no_desc"
    using init_fs_ok [OF fs_flatI [OF assms(1)] assms(2), of geo] by blast
  then have "refs_ok s'" "proc_table s' = proc_table s"
    using assms(3,4) by (auto intro: fresh_refs simp: fresh_root_def)
  then show ?thesis using kinvD(2) [OF assms(1)] by (simp add: fs_ok_def)
qed

text \<open>A start: \<^verbatim>\<open>init_fs\<close> on some device, before any process has opened a file.\<close>

definition fs_start :: "fs \<Rightarrow> bool" where
  "fs_start s \<longleftrightarrow> (\<exists>geo s0. kinv s0 \<and> sb_table s0 \<noteq> [] \<and> (\<forall>p \<in> set (proc_table s0). filp p = replicate NR_FILES None) \<and> init_fs geo s0 = Inr s)"

interpretation fs_machine: state_machine fs_start fs_step fs_ok
  by unfold_locales (auto simp: fs_start_def intro: init_fs_fs_ok step_ok)



end
