(* ===== verification/Mm.thy ===== *)
theory Mm
  imports Boot
begin

text \<open>
  The memory manager, \<^verbatim>\<open>mm/main.c\<close> and \<^verbatim>\<open>mm/forkexit.c\<close>: memory for forked processes, \<^verbatim>\<open>fork\<close>,
  \<^verbatim>\<open>exit\<close> and \<^verbatim>\<open>wait\<close>. A handler is a function from the request and the kernel state to the new
  state and the messages it sends, in order; what a message does to its receiver is the business of
  the message passing theories. A handler is taken as one step: the process table is changed by MM
  alone between its sends.
\<close>

section \<open>Memory\<close>

definition PROCS_BASE :: int where [simp, const_simps]: "PROCS_BASE = 0xA00000"
definition PROC_IMAGE_SIZE_DEFAULT :: int where [simp, const_simps]: "PROC_IMAGE_SIZE_DEFAULT = 0x100000"

definition alloc_mem :: "int \<Rightarrow> int \<Rightarrow> int \<Rightarrow> int res" where
  "alloc_mem memory_size pid memsize =
     kassert (pid \<ge> int (NR_TASKS + NR_NATIVE_PROCS)) ''alloc_mem'' (
     if memsize > PROC_IMAGE_SIZE_DEFAULT then Inl (Panic ''unsupported memory request'')
     else
       let base = PROCS_BASE + (pid - int (NR_TASKS + NR_NATIVE_PROCS)) * PROC_IMAGE_SIZE_DEFAULT in
       if base + memsize \<ge> memory_size then Inl (Panic ''memory allocation failed'') else Inr base)"

definition free_mem :: "int \<Rightarrow> int" where
  "free_mem pid = 0"

definition init_mm :: "memory \<Rightarrow> u32 \<Rightarrow> int res" where
  "init_mm m elfmag = res_bind (get_boot_params m elfmag) (\<lambda>bp. Inr (mem_size bp))"

section \<open>Messages\<close>

text \<open>
  What MM sends: a request to FS (type and PID), or a SYSCALL_RET with the first two words of the
  message (\<^verbatim>\<open>RETVAL\<close> and \<^verbatim>\<open>STATUS\<close> are the first, \<^verbatim>\<open>PID\<close> is the second); \<^const>\<open>None\<close> where the
  sender leaves the word of its local variable unset.
\<close>

datatype mm_event = TellFs int int | SysRet int "int option" int

section \<open>fork\<close>

primrec find_free :: "proc list \<Rightarrow> nat \<Rightarrow> nat" where
  "find_free [] i = i"
| "find_free (p # ps) i = (if p_flags p = FREE_SLOT then i else find_free ps (Suc i))"

text \<open>The segments of the caller, with their bases, limits and sizes as \<^verbatim>\<open>int\<close>.\<close>

definition seg_base_of :: "descriptor \<Rightarrow> u32" where
  "seg_base_of d = reassembly (ucast (base_high d)) 24 (ucast (base_mid d)) 16 (ucast (base_low d))"

definition child_ldts :: "int \<Rightarrow> descriptor list" where
  "child_ldts child_base =
     (let limit = drop_bit LIMIT_4K_SHIFT (word_of_int (PROC_IMAGE_SIZE_DEFAULT - 1)) in
      [init_descriptor (word_of_int child_base) limit (DA_LIMIT_4K OR DA_32 OR DA_C OR push_bit 5 3),
       init_descriptor (word_of_int child_base) limit (DA_LIMIT_4K OR DA_32 OR DA_DRW OR push_bit 5 3)])"

text \<open>
  \<^verbatim>\<open>do_fork\<close> returns its result, the state, the events and the child's number for \<^verbatim>\<open>mm_msg.PID\<close>.
  The limit of the data segment is written with the high part in the first place of the macro,
  which gives the same value.
\<close>

definition do_fork ::
  "int \<Rightarrow> nat \<Rightarrow> 'a kernel_scheme \<Rightarrow> (int \<times> nat option \<times> 'a kernel_scheme \<times> mm_event list) res" where
  "do_fork memory_size pid k =
     (let i = find_free (proc_table k) 0 in
      kassert (i \<ge> NR_TASKS + NR_NATIVE_PROCS) ''do_fork: child_pid'' (
      if i = NR_TASKS + NR_PROCS then Inr (-1, None, k, [])
      else
        let p = proc_of k pid;
            k1 = upd_proc k i (\<lambda>c. p\<lparr>ldt_sel := ldt_sel c, p_parent := int pid\<rparr>);
            t = ldts p ! INDEX_LDT_C; ds = ldts p ! INDEX_LDT_RW;
            t_base = seg_base_of t; t_limit = descriptor_limit t; t_size = descriptor_size t_limit t;
            d_base = seg_base_of ds;
            d_limit = reassembly (ucast (limit_high_attr2 ds AND 0xF)) 16 0 0 (ucast (limit_low ds));
            d_size = descriptor_size t_limit ds in
        kassert (t_base = d_base \<and> t_limit = d_limit \<and> t_size = d_size) ''do_fork: segments'' (
        res_bind (alloc_mem memory_size (int i) (sint t_size)) (\<lambda>child_base.
        let k2 = k1\<lparr>mem := phys_copy (mem k1) (word_of_int child_base) t_base (unat t_size)\<rparr>;
            k3 = upd_proc k2 i (\<lambda>c. c\<lparr>ldts := child_ldts child_base\<rparr>) in
        Inr (0, Some i, k3, [TellFs FORK (int i), SysRet (int i) (Some 0) 0])))))"

section \<open>exit and wait\<close>

definition cleanup :: "'a kernel_scheme \<Rightarrow> nat \<Rightarrow> 'a kernel_scheme \<times> mm_event list" where
  "cleanup k i =
     (upd_proc k i (\<lambda>p. p\<lparr>p_flags := FREE_SLOT\<rparr>),
      [SysRet (p_parent (proc_of k i)) (Some (exit_status (proc_of k i))) (int i)])"

text \<open>The loop that hands the children of a dying process to INIT.\<close>

primrec reparent :: "nat list \<Rightarrow> nat \<Rightarrow> 'a kernel_scheme \<times> mm_event list \<Rightarrow> 'a kernel_scheme \<times> mm_event list" where
  "reparent [] pid s = s"
| "reparent (i # is) pid s =
     (let (k, ev) = s in
      if p_parent (proc_of k i) = int pid then
        let k1 = upd_proc k i (\<lambda>p. p\<lparr>p_parent := int INIT\<rparr>) in
        if has_flag (proc_of k1 INIT) WAITING \<and> has_flag (proc_of k1 i) HANGING then
          let k2 = upd_proc k1 INIT (\<lambda>p. p\<lparr>p_flags := p_flags p AND NOT WAITING\<rparr>);
              (k3, e) = cleanup k2 i in
          reparent is pid (k3, ev @ e)
        else reparent is pid (k1, ev)
      else reparent is pid (k, ev))"

definition do_exit :: "int \<Rightarrow> nat \<Rightarrow> 'a kernel_scheme \<Rightarrow> ('a kernel_scheme \<times> mm_event list) res" where
  "do_exit stat pid k =
     (let parent = p_parent (proc_of k pid);
          k1 = upd_proc k pid (\<lambda>p. p\<lparr>exit_status := stat\<rparr>) in
      if \<not> valid_proc_nr parent then Inl (BadAccess ''do_exit: proc_table'')
      else
        let (k2, ev) =
          (if has_flag (proc_of k1 (nat parent)) WAITING then
             cleanup (upd_proc k1 (nat parent) (\<lambda>p. p\<lparr>p_flags := p_flags p AND NOT WAITING\<rparr>)) pid
           else (upd_proc k1 pid (\<lambda>p. p\<lparr>p_flags := p_flags p OR HANGING\<rparr>), [])) in
        Inr (reparent [0..<NR_TASKS + NR_PROCS] pid (k2, TellFs EXIT (int pid) # ev)))"

text \<open>The loop of \<^verbatim>\<open>do_wait\<close>: the first hanging child, and the number of children before it.\<close>

fun wait_scan :: "proc list \<Rightarrow> nat \<Rightarrow> int \<Rightarrow> int \<Rightarrow> nat option \<times> int" where
  "wait_scan [] i pid children = (None, children)"
| "wait_scan (p # ps) i pid children =
     (if p_parent p = pid then
        if has_flag p HANGING then (Some i, children + 1) else wait_scan ps (Suc i) pid (children + 1)
      else wait_scan ps (Suc i) pid children)"

definition do_wait :: "nat \<Rightarrow> 'a kernel_scheme \<Rightarrow> 'a kernel_scheme \<times> mm_event list" where
  "do_wait pid k =
     (case wait_scan (proc_table k) 0 (int pid) 0 of
        (Some i, _) \<Rightarrow> cleanup k i
      | (None, children) \<Rightarrow>
          if children \<noteq> 0 then (upd_proc k pid (\<lambda>p. p\<lparr>p_flags := p_flags p OR WAITING\<rparr>), [])
          else (k, [SysRet (int pid) None NO_TASK]))"

section \<open>The main loop\<close>

text \<open>One turn of \<^verbatim>\<open>task_mm\<close> on a received message; the reply to a fork carries \<^verbatim>\<open>mm_msg.PID\<close>.\<close>

definition task_mm :: "int \<Rightarrow> message \<Rightarrow> 'a kernel_scheme \<Rightarrow> ('a kernel_scheme \<times> mm_event list) res" where
  "task_mm memory_size mm_msg k =
     (let src = msg_source mm_msg in
      if \<not> valid_proc_nr src then Inl (BadAccess ''task_mm: proc_table'')
      else if msg_type mm_msg = FORK then
        res_bind (do_fork memory_size (nat src) k) (\<lambda>(ret, child, k', ev).
        Inr (k', ev @ [SysRet src (Some ret) (case child of None \<Rightarrow> m3i2 mm_msg | Some c \<Rightarrow> int c)]))
      else if msg_type mm_msg = EXIT then do_exit (m3i1 mm_msg) (nat src) k
      else if msg_type mm_msg = WAIT then Inr (do_wait (nat src) k)
      else Inl (AssertionFailure ''task_mm: unknown msg''))"

section \<open>Memory of forked processes\<close>

text \<open>
  C33: The blocks \<^verbatim>\<open>alloc_mem\<close> gives to different processes lie in the memory above PROCS_BASE
  and below the memory size, and do not overlap.
\<close>

theorem alloc_mem_disjoint:
  assumes "alloc_mem ms pid sz = Inr a" and "alloc_mem ms pid' sz' = Inr b" and "pid \<noteq> pid'"
  shows "PROCS_BASE \<le> a \<and> a + sz < ms \<and> {a..<a + sz} \<inter> {b..<b + sz'} = {}"
proof -
  have a: "9 \<le> pid" "sz \<le> 0x100000" "a = 0xA00000 + (pid - 9) * 0x100000" "a + sz < ms"
    and b: "9 \<le> pid'" "sz' \<le> 0x100000" "b = 0xA00000 + (pid' - 9) * 0x100000"
    using assms(1,2) by (auto simp: alloc_mem_def Let_def res_simps split: if_splits)
  have "a + sz \<le> b \<or> b + sz' \<le> a"
    using a(2,3) b(2,3) assms(3) by (cases "pid < pid'") auto
  then show ?thesis using a by auto
qed

theorem alloc_mem_disjoint_witness:
  "PROCS_BASE \<le> 0xA00000 \<and> 0xA00000 + 0x100000 < (0x2000000 :: int) \<and>
    {0xA00000..<0xA00000 + 0x100000} \<inter> {0xB00000..<0xB00000 + 0x100000 :: int} = {}"
  by (rule alloc_mem_disjoint [of "0x2000000" 9 "0x100000" _ 10]) (simp_all add: alloc_mem_def Let_def)

section \<open>fork\<close>

lemma find_free_first:
  assumes "\<exists>p \<in> set ps. p_flags p = FREE_SLOT"
  obtains j where "find_free ps i = i + j" "j < length ps" "p_flags (ps ! j) = FREE_SLOT"
    "\<forall>j' < j. p_flags (ps ! j') \<noteq> FREE_SLOT"
  using assms
proof (induction ps arbitrary: i thesis)
  case (Cons p ps)
  show ?case
  proof (cases "p_flags p = FREE_SLOT")
    case True
    then show ?thesis using Cons.prems(1) [of 0] by simp
  next
    case False
    with Cons.prems(2) have "\<exists>p \<in> set ps. p_flags p = FREE_SLOT" by auto
    then obtain j where "find_free ps (Suc i) = Suc i + j" "j < length ps" "p_flags (ps ! j) = FREE_SLOT"
      "\<forall>j' < j. p_flags (ps ! j') \<noteq> FREE_SLOT"
      using Cons.IH [of "Suc i"] by blast
    with False show ?thesis
      by (intro Cons.prems(1) [of "Suc j"]) (auto simp: less_Suc_eq_0_disj)
  qed
qed simp

lemma seg_base_of_eq: "seg_base_of d = descriptor_base d"
  by (simp add: seg_base_of_def reassembly_base)

lemma limit_either_place:
  "reassembly (ucast (limit_high_attr2 d AND 0xF)) 16 0 0 (ucast (limit_low d)) = descriptor_limit d"
  by (simp add: reassembly_def descriptor_limit_def)

text \<open>A process whose two segments have the same base, limit and granularity.\<close>

definition one_space :: "proc \<Rightarrow> bool" where
  "one_space p \<longleftrightarrow> (let t = ldts p ! INDEX_LDT_C; d = ldts p ! INDEX_LDT_RW in
     descriptor_base t = descriptor_base d \<and> descriptor_limit t = descriptor_limit d \<and>
     descriptor_size (descriptor_limit t) t = descriptor_size (descriptor_limit t) d)"

definition image_size :: "proc \<Rightarrow> u32" where
  "image_size p = descriptor_size (descriptor_limit (ldts p ! INDEX_LDT_C)) (ldts p ! INDEX_LDT_C)"

text \<open>The state after a fork: the child's entry and its memory.\<close>

definition forked :: "'a kernel_scheme \<Rightarrow> nat \<Rightarrow> nat \<Rightarrow> int \<Rightarrow> 'a kernel_scheme" where
  "forked k pid c base =
     (upd_proc k c (\<lambda>q. (proc_of k pid)\<lparr>ldt_sel := ldt_sel q, p_parent := int pid, ldts := child_ldts base\<rparr>))
       \<lparr>mem := phys_copy (mem k) (word_of_int base) (descriptor_base (ldts (proc_of k pid) ! INDEX_LDT_C)) (unat (image_size (proc_of k pid)))\<rparr>"

lemma do_fork_ok:
  assumes len: "length (proc_table k) = NR_TASKS + NR_PROCS" and "pid < NR_TASKS + NR_PROCS"
    and native: "\<forall>i < NR_TASKS + NR_NATIVE_PROCS. p_flags (proc_of k i) \<noteq> FREE_SLOT"
    and free: "\<exists>i < NR_TASKS + NR_PROCS. p_flags (proc_of k i) = FREE_SLOT"
    and space: "one_space (proc_of k pid)" and size: "0 \<le> sint (image_size (proc_of k pid))"
      "sint (image_size (proc_of k pid)) \<le> PROC_IMAGE_SIZE_DEFAULT"
    and memory: "PROCS_BASE + 28 * PROC_IMAGE_SIZE_DEFAULT < memory_size"
  obtains c where "do_fork memory_size pid k = Inr (0, Some c, forked k pid c (PROCS_BASE + (int c - 9) * PROC_IMAGE_SIZE_DEFAULT),
      [TellFs FORK (int c), SysRet (int c) (Some 0) 0])"
    "NR_TASKS + NR_NATIVE_PROCS \<le> c" "c < NR_TASKS + NR_PROCS" "p_flags (proc_of k c) = FREE_SLOT"
proof -
  obtain c where c: "find_free (proc_table k) 0 = c" "c < NR_TASKS + NR_PROCS" "p_flags (proc_of k c) = FREE_SLOT"
    using find_free_first [of "proc_table k" 0] free len by (metis add_0 nth_mem)
  have c9: "NR_TASKS + NR_NATIVE_PROCS \<le> c" using c(3) native by (meson not_le)
  let ?p = "proc_of k pid" and ?base = "PROCS_BASE + (int c - 9) * PROC_IMAGE_SIZE_DEFAULT"
  have sp: "descriptor_base (ldts ?p ! INDEX_LDT_C) = descriptor_base (ldts ?p ! INDEX_LDT_RW)"
    "descriptor_limit (ldts ?p ! INDEX_LDT_C) = descriptor_limit (ldts ?p ! INDEX_LDT_RW)"
    "descriptor_size (descriptor_limit (ldts ?p ! INDEX_LDT_C)) (ldts ?p ! INDEX_LDT_C) =
      descriptor_size (descriptor_limit (ldts ?p ! INDEX_LDT_C)) (ldts ?p ! INDEX_LDT_RW)"
    using space unfolding one_space_def Let_def by blast+
  have alloc: "alloc_mem memory_size (int c) (sint (image_size ?p)) = Inr ?base"
    using c9 c(2) size memory by (simp add: alloc_mem_def Let_def algebra_simps)
  let ?k1 = "upd_proc k c (\<lambda>d. ?p\<lparr>ldt_sel := ldt_sel d, p_parent := int pid\<rparr>)"
  let ?k2 = "?k1\<lparr>mem := phys_copy (mem ?k1) (word_of_int ?base) (descriptor_base (ldts ?p ! INDEX_LDT_C))
      (unat (image_size ?p))\<rparr>"
  let ?k3 = "upd_proc ?k2 c (\<lambda>d. d\<lparr>ldts := child_ldts ?base\<rparr>)"
  have "do_fork memory_size pid k = Inr (0, Some c, ?k3, [TellFs FORK (int c), SysRet (int c) (Some 0) 0])"
    using c c9 sp alloc unfolding do_fork_def image_size_def Let_def
    by (simp add: seg_base_of_eq limit_either_place)
  moreover have "?k3 = forked k pid c ?base" using c(2) len by (simp add: forked_def upd_proc_def)
  ultimately show thesis using that c c9 by metis
qed

lemma forked_procs:
  assumes "length (proc_table k) = NR_TASKS + NR_PROCS" and "c < NR_TASKS + NR_PROCS"
  shows "proc_of (forked k pid c base) c = (proc_of k pid)\<lparr>ldt_sel := ldt_sel (proc_of k c), p_parent := int pid, ldts := child_ldts base\<rparr>"
    and "j \<noteq> c \<Longrightarrow> proc_of (forked k pid c base) j = proc_of k j" and "length (proc_table (forked k pid c base)) = NR_TASKS + NR_PROCS"
  using assms by (simp_all add: forked_def upd_proc_def)


text \<open>A user process at the first block, its slot followed by free ones.\<close>

definition forker :: kernel where
  "forker = upd_proc booted 5 (\<lambda>p. p\<lparr>ldts := [init_descriptor 0 0xFF (DA_LIMIT_4K OR DA_32 OR DA_C),
     init_descriptor 0 0xFF (DA_LIMIT_4K OR DA_32 OR DA_DRW)]\<rparr>)"

lemma forker_proc:
  "length (proc_table forker) = NR_TASKS + NR_PROCS"
  "i < NR_TASKS + NR_NATIVE_PROCS \<Longrightarrow> p_flags (proc_of forker i) = 0"
  "p_flags (proc_of forker 9) = FREE_SLOT"
  "ldts (proc_of forker 5) = [init_descriptor 0 0xFF (DA_LIMIT_4K OR DA_32 OR DA_C),
     init_descriptor 0 0xFF (DA_LIMIT_4K OR DA_32 OR DA_DRW)]"
  using booted_native(1) [of i] booted_fresh(4) fresh_free [OF booted_fresh(5), of 9]
  by (auto simp: forker_def)

lemma forker_space:
  "one_space (proc_of forker 5)" "image_size (proc_of forker 5) = 0x100000"
proof -
  have lim: "take_bit 20 (0xFF :: u32) = 0xFF" by (simp add: take_bit_eq_mod)
  have "descriptor_size 0xFF (init_descriptor 0 0xFF (DA_LIMIT_4K OR DA_32 OR DA_C)) = 0x100000"
    "descriptor_size 0xFF (init_descriptor 0 0xFF (DA_LIMIT_4K OR DA_32 OR DA_DRW)) = 0x100000"
    by (simp_all add: descriptor_size_def init_descriptor_def const_simps)
  then show "one_space (proc_of forker 5)" "image_size (proc_of forker 5) = 0x100000"
    by (simp_all add: one_space_def image_size_def forker_proc descriptor_limit_init lim Let_def)
qed


text \<open>
  When no slot is free, \<^verbatim>\<open>do_fork\<close> returns -1 and changes nothing.
\<close>

theorem do_fork_full:
  assumes "length (proc_table k) = NR_TASKS + NR_PROCS" and "\<forall>i < NR_TASKS + NR_PROCS. p_flags (proc_of k i) \<noteq> FREE_SLOT"
  shows "do_fork memory_size pid k = Inr (-1, None, k, [])"
proof -
  have none: "find_free ps i = i + length ps" if "\<forall>p \<in> set ps. p_flags p \<noteq> FREE_SLOT" for ps i
    using that by (induction ps arbitrary: i) auto
  have "\<forall>p \<in> set (proc_table k). p_flags p \<noteq> FREE_SLOT"
    using assms by (auto simp: in_set_conv_nth)
  with none [of "proc_table k" 0] assms(1) show ?thesis by (simp add: do_fork_def)
qed

section \<open>exit and wait\<close>

lemma reparent_none:
  "\<forall>i \<in> set is. p_parent (proc_of k i) \<noteq> int pid \<Longrightarrow> reparent is pid (k, ev) = (k, ev)"
  by (induction "is") simp_all

lemma wait_scan_none:
  "\<forall>p \<in> set ps. p_parent p \<noteq> pid \<Longrightarrow> wait_scan ps i pid n = (None, n)"
  by (induction ps arbitrary: i) simp_all

text \<open>The scan when there is exactly one child.\<close>

lemma wait_scan_one:
  assumes "c < length ps" and "p_parent (ps ! c) = pid"
    and "\<forall>j < length ps. j \<noteq> c \<longrightarrow> p_parent (ps ! j) \<noteq> pid"
  shows "wait_scan ps i pid n = (if has_flag (ps ! c) HANGING then Some (i + c) else None, n + 1)"
  using assms
proof (induction ps arbitrary: c i)
  case (Cons p ps)
  show ?case
  proof (cases c)
    case 0
    with Cons.prems(3) have "\<forall>q \<in> set ps. p_parent q \<noteq> pid" by (force simp: in_set_conv_nth)
    with 0 Cons.prems(2) show ?thesis by (simp add: wait_scan_none)
  next
    case (Suc d)
    have "p_parent p \<noteq> pid" using Cons.prems(3) Suc by force
    moreover have "\<forall>j < length ps. j \<noteq> d \<longrightarrow> p_parent (ps ! j) \<noteq> pid"
      using Cons.prems(3) Suc by force
    ultimately show ?thesis using Cons.IH [of d "Suc i"] Cons.prems(1,2) Suc by simp
  qed
qed simp

text \<open>\<open>c\<close> is the only child of \<open>p\<close> and has no child itself.\<close>

definition only_child :: "'a kernel_scheme \<Rightarrow> nat \<Rightarrow> nat \<Rightarrow> bool" where
  "only_child k p c \<longleftrightarrow> length (proc_table k) = NR_TASKS + NR_PROCS \<and> p < NR_TASKS + NR_PROCS \<and>
     c < NR_TASKS + NR_PROCS \<and> p \<noteq> c \<and> p_parent (proc_of k c) = int p \<and>
     (\<forall>j < NR_TASKS + NR_PROCS. j \<noteq> c \<longrightarrow> p_parent (proc_of k j) \<noteq> int p) \<and>
     (\<forall>j < NR_TASKS + NR_PROCS. p_parent (proc_of k j) \<noteq> int c)"

lemma do_wait_only_child:
  assumes "only_child k p c"
  shows "do_wait p k = (if has_flag (proc_of k c) HANGING then cleanup k c
    else (upd_proc k p (\<lambda>q. q\<lparr>p_flags := p_flags q OR WAITING\<rparr>), []))"
  using assms wait_scan_one [of c "proc_table k" "int p" 0 0] by (auto simp: only_child_def do_wait_def)

lemma do_exit_only_child:
  assumes "only_child k p c"
  shows "do_exit stat c k = Inr (
    if has_flag (proc_of k p) WAITING then
      (upd_proc (upd_proc k c (\<lambda>q. q\<lparr>exit_status := stat, p_flags := FREE_SLOT\<rparr>)) p
         (\<lambda>q. q\<lparr>p_flags := p_flags q AND NOT WAITING\<rparr>),
       [TellFs EXIT (int c), SysRet (int p) (Some stat) (int c)])
    else (upd_proc k c (\<lambda>q. q\<lparr>exit_status := stat, p_flags := p_flags q OR HANGING\<rparr>), [TellFs EXIT (int c)]))"
proof -
  have facts: "length (proc_table k) = 37" "p < 37" "c < 37" "p \<noteq> c" "p_parent (proc_of k c) = int p"
    "\<And>j. j < 37 \<Longrightarrow> p_parent (proc_of k j) \<noteq> int c"
    using assms by (simp_all add: only_child_def)
  let ?k1 = "upd_proc k c (\<lambda>q. q\<lparr>exit_status := stat\<rparr>)"
  show ?thesis
  proof (cases "has_flag (proc_of k p) WAITING")
    case True
    let ?k2 = "fst (cleanup (upd_proc ?k1 p (\<lambda>q. q\<lparr>p_flags := p_flags q AND NOT WAITING\<rparr>)) c)"
    have "?k2 = upd_proc (upd_proc k c (\<lambda>q. q\<lparr>exit_status := stat, p_flags := FREE_SLOT\<rparr>)) p
         (\<lambda>q. q\<lparr>p_flags := p_flags q AND NOT WAITING\<rparr>)"
      using facts(1-4) by (simp add: cleanup_def upd_proc_def list_update_swap)
    moreover have "reparent [0..<NR_TASKS + NR_PROCS] c (?k2, ev) = (?k2, ev)" for ev
      by (rule reparent_none) (use facts in \<open>auto simp: cleanup_def\<close>)
    ultimately show ?thesis
      using True facts by (simp add: do_exit_def Let_def valid_proc_nr_def cleanup_def)
  next
    case False
    let ?k2 = "upd_proc ?k1 c (\<lambda>q. q\<lparr>p_flags := p_flags q OR HANGING\<rparr>)"
    have "?k2 = upd_proc k c (\<lambda>q. q\<lparr>exit_status := stat, p_flags := p_flags q OR HANGING\<rparr>)"
      using facts(1,3) by (simp add: upd_proc_def)
    moreover have "reparent [0..<NR_TASKS + NR_PROCS] c (?k2, ev) = (?k2, ev)" for ev
      by (rule reparent_none) (use facts in auto)
    ultimately show ?thesis
      using False facts by (simp add: do_exit_def Let_def valid_proc_nr_def)
  qed
qed

text \<open>Setting and clearing a flag that was clear.\<close>

lemma waiting_cleared: "\<not> has_flag p WAITING \<Longrightarrow> (p_flags p OR WAITING) AND NOT WAITING = p_flags p"
proof -
  assume "\<not> has_flag p WAITING"
  then have "p_flags p AND WAITING = 0" by (simp add: has_flag_def)
  then have "\<not> (bit (p_flags p) n \<and> bit WAITING n)" for n by (metis bit_and_iff bit_0_eq bot_apply bot_bool_def)
  then show ?thesis by (intro bit_word_eqI) (auto simp: bit_simps)
qed

lemma update_back: "p \<noteq> c \<Longrightarrow> xs[c := v, p := xs ! p] = xs[c := v]"
  by (metis list_update_id nth_list_update_neq)

lemma has_flag_set: "p_flags q = p_flags p OR f \<Longrightarrow> f \<noteq> 0 \<Longrightarrow> has_flag q f"
  by (simp add: has_flag_def bit.conj_disj_distrib2)

text \<open>
  C25: \<^verbatim>\<open>exit\<close> and \<^verbatim>\<open>wait\<close> meet in either order. Whether the only child exits before its parent waits
  or the parent waits first, FS is told once, the parent is answered once, with the child's number
  and its exit status, the child's slot is free afterwards and the parent is left as it was.
\<close>

theorem exit_wait_either_order:
  assumes "only_child k p c" and "\<not> has_flag (proc_of k p) WAITING" and "\<not> has_flag (proc_of k c) HANGING"
  shows "res_bind (do_exit stat c k) (\<lambda>(k1, e1). let (k2, e2) = do_wait p k1 in Inr (k2, e1 @ e2)) =
      Inr (upd_proc k c (\<lambda>q. q\<lparr>exit_status := stat, p_flags := FREE_SLOT\<rparr>),
           [TellFs EXIT (int c), SysRet (int p) (Some stat) (int c)]) \<and>
    (let (k1, e1) = do_wait p k in res_bind (do_exit stat c k1) (\<lambda>(k2, e2). Inr (k2, e1 @ e2))) =
      Inr (upd_proc k c (\<lambda>q. q\<lparr>exit_status := stat, p_flags := FREE_SLOT\<rparr>),
           [TellFs EXIT (int c), SysRet (int p) (Some stat) (int c)])"
proof (rule conjI)
  have facts: "length (proc_table k) = 37" "p < 37" "c < 37" "p \<noteq> c" "p_parent (proc_of k c) = int p"
    using assms(1) by (simp_all add: only_child_def)
  let ?k1 = "upd_proc k c (\<lambda>q. q\<lparr>exit_status := stat, p_flags := p_flags q OR HANGING\<rparr>)"
  let ?w = "upd_proc k p (\<lambda>q. q\<lparr>p_flags := p_flags q OR WAITING\<rparr>)"
  have oc1: "only_child ?k1 p c" and ocw: "only_child ?w p c"
    using assms(1) by (auto simp: only_child_def)
  have hang: "has_flag (proc_of ?k1 c) HANGING"
    by (rule has_flag_set [of _ "proc_of k c"]) (use facts in \<open>simp_all add: HANGING_def\<close>)
  have wait: "has_flag (proc_of ?w p) WAITING"
    by (rule has_flag_set [of _ "proc_of k p"]) (use facts in \<open>simp_all add: WAITING_def\<close>)
  have "cleanup ?k1 c = (upd_proc k c (\<lambda>q. q\<lparr>exit_status := stat, p_flags := FREE_SLOT\<rparr>), [SysRet (int p) (Some stat) (int c)])"
    using facts by (simp add: cleanup_def upd_proc_def)
  then show "res_bind (do_exit stat c k) (\<lambda>(k1, e1). let (k2, e2) = do_wait p k1 in Inr (k2, e1 @ e2)) =
      Inr (upd_proc k c (\<lambda>q. q\<lparr>exit_status := stat, p_flags := FREE_SLOT\<rparr>),
           [TellFs EXIT (int c), SysRet (int p) (Some stat) (int c)])"
    using assms(2) hang by (simp add: do_exit_only_child [OF assms(1)] do_wait_only_child [OF oc1])
  have "upd_proc (upd_proc ?w c (\<lambda>q. q\<lparr>exit_status := stat, p_flags := FREE_SLOT\<rparr>)) p
      (\<lambda>q. q\<lparr>p_flags := p_flags q AND NOT WAITING\<rparr>) =
      upd_proc k c (\<lambda>q. q\<lparr>exit_status := stat, p_flags := FREE_SLOT\<rparr>)"
    using facts(1-4) waiting_cleared [OF assms(2)]
    by (simp add: upd_proc_def list_update_swap [of p c] update_back)
  then show "(let (k1, e1) = do_wait p k in res_bind (do_exit stat c k1) (\<lambda>(k2, e2). Inr (k2, e1 @ e2))) =
      Inr (upd_proc k c (\<lambda>q. q\<lparr>exit_status := stat, p_flags := FREE_SLOT\<rparr>),
           [TellFs EXIT (int c), SysRet (int p) (Some stat) (int c)])"
    using assms(3) wait by (simp add: do_wait_only_child [OF assms(1)] do_exit_only_child [OF ocw])
qed

text \<open>
  \<^verbatim>\<open>wait\<close> counts freed slots as children. A process whose only child was reaped keeps a slot
  that still names it as parent; a further \<^verbatim>\<open>wait\<close> marks it WAITING and sends no answer,
  although it has no child left that could exit.
\<close>

theorem wait_counts_freed_child:
  assumes "only_child k p c" and "p_flags (proc_of k c) = FREE_SLOT"
  shows "do_wait p k = (upd_proc k p (\<lambda>q. q\<lparr>p_flags := p_flags q OR WAITING\<rparr>), [])"
  using assms by (simp add: do_wait_only_child has_flag_def FREE_SLOT_def HANGING_def)

lemma reparent_parents:
  assumes "length (proc_table k) = NR_TASKS + NR_PROCS" and "set is \<subseteq> {..<NR_TASKS + NR_PROCS}" and "pid \<noteq> INIT"
  shows "\<forall>i < NR_TASKS + NR_PROCS. p_parent (proc_of (fst (reparent is pid (k, ev))) i) =
    (if i \<in> set is \<and> p_parent (proc_of k i) = int pid then int INIT else p_parent (proc_of k i))"
  using assms
proof (induction "is" arbitrary: k ev)
  case (Cons j js)
  let ?k1 = "upd_proc k j (\<lambda>p. p\<lparr>p_parent := int INIT\<rparr>)"
  let ?k2 = "upd_proc ?k1 INIT (\<lambda>p. p\<lparr>p_flags := p_flags p AND NOT WAITING\<rparr>)"
  have j: "j < 37" "set js \<subseteq> {..<NR_TASKS + NR_PROCS}" using Cons.prems(2) by auto
  have k1: "p_parent (proc_of ?k1 i) = (if i = j then int INIT else p_parent (proc_of k i))"
    "p_parent (proc_of (fst (cleanup ?k2 j)) i) = p_parent (proc_of ?k1 i)" for i
    using j Cons.prems(1) by (auto simp: cleanup_def)
  have len: "length (proc_table ?k1) = NR_TASKS + NR_PROCS" "length (proc_table (fst (cleanup ?k2 j))) = NR_TASKS + NR_PROCS"
    using Cons.prems(1) by (simp_all add: cleanup_def)
  show ?case
  proof (cases "p_parent (proc_of k j) = int pid")
    case True
    have "\<exists>k' ev'. reparent (j # js) pid (k, ev) = reparent js pid (k', ev') \<and>
        (k' = ?k1 \<or> k' = fst (cleanup ?k2 j))"
      using True by (auto simp: Let_def cleanup_def)
    then obtain k' ev' where k': "reparent (j # js) pid (k, ev) = reparent js pid (k', ev')"
      "k' = ?k1 \<or> k' = fst (cleanup ?k2 j)" by blast
    have "length (proc_table k') = NR_TASKS + NR_PROCS"
      "p_parent (proc_of k' i) = (if i = j then int INIT else p_parent (proc_of k i))" for i
      using k'(2) len k1 by auto
    then show ?thesis
      using Cons.IH [of k' ev', OF _ j(2) Cons.prems(3)] Cons.prems(3) True unfolding k'(1) by auto
  next
    case False
    then show ?thesis using Cons.IH [OF Cons.prems(1) j(2) Cons.prems(3), of ev] by auto
  qed
qed simp

text \<open>
  After \<^verbatim>\<open>exit\<close> no slot of the process table names the dead process as parent, its children
  belong to INIT, and every other process keeps its parent.
\<close>

theorem exit_reparents:
  assumes "length (proc_table k) = NR_TASKS + NR_PROCS" and "pid < NR_TASKS + NR_PROCS" and "pid \<noteq> INIT"
    and "do_exit stat pid k = Inr (k', ev)" and "i < NR_TASKS + NR_PROCS"
  shows "p_parent (proc_of k' i) = (if p_parent (proc_of k i) = int pid then int INIT else p_parent (proc_of k i))"
proof -
  let ?par = "nat (p_parent (proc_of k pid))" and ?k1 = "upd_proc k pid (\<lambda>p. p\<lparr>exit_status := stat\<rparr>)"
  let ?r = "if has_flag (proc_of ?k1 ?par) WAITING
    then cleanup (upd_proc ?k1 ?par (\<lambda>p. p\<lparr>p_flags := p_flags p AND NOT WAITING\<rparr>)) pid
    else (upd_proc ?k1 pid (\<lambda>p. p\<lparr>p_flags := p_flags p OR HANGING\<rparr>), [])"
  have valid: "valid_proc_nr (p_parent (proc_of k pid))"
    using assms(4) by (rule_tac ccontr) (simp add: do_exit_def)
  define L where "L = [0..<NR_TASKS + NR_PROCS]"
  have "do_exit stat pid k = Inr (reparent L pid (fst ?r, TellFs EXIT (int pid) # snd ?r))"
    using valid unfolding do_exit_def Let_def L_def by (simp only: split_def not_True_eq_False if_False)
  with assms(4) have k': "reparent L pid (fst ?r, TellFs EXIT (int pid) # snd ?r) = (k', ev)" by simp
  have par: "?par < length (proc_table k)" using valid assms(1) by (auto simp: valid_proc_nr_def)
  have "length (proc_table (fst ?r)) = NR_TASKS + NR_PROCS" "p_parent (proc_of (fst ?r) i) = p_parent (proc_of k i)"
    using par assms(1,2) by (auto simp: cleanup_def)
  then show ?thesis
    using reparent_parents [of "fst ?r" L pid "TellFs EXIT (int pid) # snd ?r"] assms(3,5)
    unfolding k' by (auto simp: L_def atLeast0LessThan)
qed

text \<open>INIT with one forked child, living or reaped.\<close>

definition family :: "u32 \<Rightarrow> kernel" where
  "family flags = booted\<lparr>proc_table :=
     map (\<lambda>i. (proc_of booted i)\<lparr>p_parent := (if i = 9 then 5 else NO_TASK), p_flags := (if i = 9 then flags else 0)\<rparr>)
       [0..<NR_TASKS + NR_PROCS]\<rparr>"

lemma family_only: "only_child (family f) 5 9" "p_flags (proc_of (family f) 9) = f" "p_flags (proc_of (family f) 5) = 0"
  by (simp_all add: only_child_def family_def)

theorem exit_wait_either_order_witness:
  "res_bind (do_exit 7 9 (family RECEIVING)) (\<lambda>(k1, e1). let (k2, e2) = do_wait 5 k1 in Inr (k2, e1 @ e2)) =
      Inr (upd_proc (family RECEIVING) 9 (\<lambda>q. q\<lparr>exit_status := 7, p_flags := FREE_SLOT\<rparr>),
           [TellFs EXIT (int 9), SysRet (int 5) (Some 7) (int 9)]) \<and>
    (let (k1, e1) = do_wait 5 (family RECEIVING) in res_bind (do_exit 7 9 k1) (\<lambda>(k2, e2). Inr (k2, e1 @ e2))) =
      Inr (upd_proc (family RECEIVING) 9 (\<lambda>q. q\<lparr>exit_status := 7, p_flags := FREE_SLOT\<rparr>),
           [TellFs EXIT (int 9), SysRet (int 5) (Some 7) (int 9)])"
  by (rule exit_wait_either_order)
    (simp_all add: family_only flag_0 has_flag_def RECEIVING_def HANGING_def)

theorem wait_counts_freed_child_witness:
  "do_wait 5 (family FREE_SLOT) = (upd_proc (family FREE_SLOT) 5 (\<lambda>q. q\<lparr>p_flags := p_flags q OR WAITING\<rparr>), [])"
  by (rule wait_counts_freed_child) (rule family_only)+

theorem exit_reparents_witness:
  "\<exists>k' ev. do_exit 7 9 (family RECEIVING) = Inr (k', ev) \<and>
    p_parent (proc_of k' 9) = (if p_parent (proc_of (family RECEIVING) 9) = int 9 then int INIT
      else p_parent (proc_of (family RECEIVING) 9))"
proof -
  obtain r where "do_exit 7 9 (family RECEIVING) = Inr r"
    using do_exit_only_child [OF family_only(1), of 7 RECEIVING] by blast
  then obtain k' ev where call: "do_exit 7 9 (family RECEIVING) = Inr (k', ev)" by (cases r) simp
  have len: "length (proc_table (family RECEIVING)) = NR_TASKS + NR_PROCS" by (simp add: family_def)
  from exit_reparents [OF len _ _ call, of 9] call show ?thesis by simp
qed

theorem do_fork_full_witness: "do_fork 0x4000000 5 (family 0) = Inr (-1, None, family 0, [])"
  by (rule do_fork_full) (simp_all add: family_def FREE_SLOT_def)

end
