(* ===== verification/Process_Calls.thy ===== *)
theory Process_Calls
  imports Fs_Steps Mm
begin

text \<open>
  Whole process calls: \<^verbatim>\<open>fork\<close>, \<^verbatim>\<open>exit\<close> and \<^verbatim>\<open>wait\<close> of the user library (\<^verbatim>\<open>lib/fork.c\<close>, \<^verbatim>\<open>lib/exit.c\<close>,
  \<^verbatim>\<open>lib/wait.c\<close>) with the turn of the memory manager and the turn of the file system that the memory manager asks for. A turn of
  the memory manager with its request to the file system is one step: the memory manager waits for the answer.
\<close>

section \<open>A turn of MM together with FS\<close>

text \<open>\<open>m0\<close> is the uninitialised message \<^verbatim>\<open>msg2fs\<close> on the stack of the handler.\<close>

definition tell_fs :: "message \<Rightarrow> int \<Rightarrow> int \<Rightarrow> fs \<Rightarrow> fs res" where
  "tell_fs m0 ty pid s = task_fs (m0\<lparr>msg_source := int TASK_MM, msg_type := ty, m3i2 := pid\<rparr>) s"

primrec tell_all :: "message \<Rightarrow> mm_event list \<Rightarrow> fs \<Rightarrow> fs res" where
  "tell_all m0 [] s = Inr s"
| "tell_all m0 (e # es) s =
     res_bind (case e of TellFs ty pid \<Rightarrow> tell_fs m0 ty pid s | SysRet _ _ _ \<Rightarrow> Inr s) (tell_all m0 es)"

text \<open>
  FS is told of an exit before MM changes anything, of a fork after the child's entry is complete and before the two answers.
\<close>

definition mm_turn :: "int \<Rightarrow> message \<Rightarrow> message \<Rightarrow> fs \<Rightarrow> (fs \<times> mm_event list) res" where
  "mm_turn memory_size m0 m s =
     (if msg_type m = EXIT then
        res_bind (tell_fs m0 EXIT (msg_source m) s) (task_mm memory_size m)
      else
        res_bind (task_mm memory_size m s) (\<lambda>(s1, ev). res_bind (tell_all m0 ev s1) (\<lambda>s2. Inr (s2, ev))))"

section \<open>The user library\<close>

definition fork_msg :: "message \<Rightarrow> nat \<Rightarrow> message" where
  "fork_msg m0 p = m0\<lparr>msg_source := int p, msg_type := FORK\<rparr>"

definition wait_msg :: "message \<Rightarrow> nat \<Rightarrow> message" where
  "wait_msg m0 p = m0\<lparr>msg_source := int p, msg_type := WAIT\<rparr>"

definition exit_msg :: "message \<Rightarrow> int \<Rightarrow> nat \<Rightarrow> message" where
  "exit_msg m0 stat p = m0\<lparr>msg_source := int p, msg_type := EXIT, m3i1 := stat\<rparr>"

text \<open>The answers a process gets in a turn: \<^verbatim>\<open>RETVAL\<close> or \<^verbatim>\<open>STATUS\<close>, and \<^verbatim>\<open>PID\<close>.\<close>

primrec answers :: "nat \<Rightarrow> mm_event list \<Rightarrow> (int option \<times> int) list" where
  "answers p [] = []"
| "answers p (e # es) = (case e of TellFs _ _ \<Rightarrow> [] | SysRet q v pid \<Rightarrow> if q = int p then [(v, pid)] else []) @ answers p es"

definition fork_return :: "int option \<times> int \<Rightarrow> int res" where
  "fork_return r = kassert (fst r = Some 0) ''fork'' (Inr (snd r))"

definition wait_return :: "int option \<times> int \<Rightarrow> int option \<times> int" where
  "wait_return r = (fst r, if snd r = NO_TASK then -1 else snd r)"

section \<open>FS in the middle of a fork and of an exit\<close>

lemma tell_fs_fork:
  assumes "fs_ok s" and "p < 37" and "c < 37" and "p \<noteq> c" and "filp (proc_of s c) = replicate 64 None"
  shows "\<exists>t. tell_fs m0 FORK (int c) (forked s p c b) = Inr t \<and> fs_ok t \<and> proc_table t = proc_table (forked s p c b)"
proof -
  have len: "length (proc_table s) = 37" using assms(1) by (simp add: fs_ok_def)
  let ?m = "m0\<lparr>msg_source := int TASK_MM, msg_type := FORK, m3i2 := int c\<rparr>"
  let ?s0 = "(received ?m (forked s p c b))\<lparr>proc_table := (proc_table s)[c := (proc_of (forked s p c b) c)\<lparr>filp := filp (proc_of s c)\<rparr>]\<rparr>"
  have "map filp ((proc_table s)[c := q\<lparr>filp := filp (proc_of s c)\<rparr>]) = map filp (proc_table s)" for q
    using len assms(3) by (simp add: map_update list_update_same_conv)
  then have "same_counts s ?s0" by (simp add: same_counts_def received_def forked_def upd_proc_def)
  then have "refs_ok ?s0" using assms(1) same_counts_ok by (auto simp: fs_ok_def)
  then have "\<exists>t. fs_fork (upd_proc ?s0 c (\<lambda>q. q\<lparr>filp := filp (proc_of ?s0 p)\<rparr>)) = Inr (0, t) \<and> refs_ok t \<and> filp (proc_of t c) = filp (proc_of ?s0 p)"
    using len assms(2-5) by (intro fs_fork_refs) simp_all
  moreover have "upd_proc ?s0 c (\<lambda>q. q\<lparr>filp := filp (proc_of ?s0 p)\<rparr>) = received ?m (forked s p c b)"
    using len assms(2-4) by (simp add: upd_proc_def received_def forked_def)
  ultimately obtain t where t: "fs_fork (received ?m (forked s p c b)) = Inr (0, t)" "refs_ok t" by auto
  have "proc_table t = proc_table (forked s p c b)"
    using t(1) fork_files_procs by (auto simp: fs_fork_def Let_def res_simps split: if_splits)
  moreover have "task_fs ?m (forked s p c b) = Inr (fs_answer (int TASK_MM) (t\<lparr>fs_msg := (fs_msg t)\<lparr>m3i1 := 0\<rparr>\<rparr>))"
    using t(1) by (simp add: task_fs_def fs_dispatch_def ret_i1_def valid_proc_nr_def Let_def)
  moreover have "fs_ok t" using t(2) calculation(1) len by (simp add: fs_ok_def forked_def)
  moreover have "same_counts t (fs_answer (int TASK_MM) (t\<lparr>fs_msg := (fs_msg t)\<lparr>m3i1 := 0\<rparr>\<rparr>))"
    "proc_table (fs_answer (int TASK_MM) (t\<lparr>fs_msg := (fs_msg t)\<lparr>m3i1 := 0\<rparr>\<rparr>)) = proc_table t"
    by (simp_all add: same_counts_def fs_answer_def Let_def)
  ultimately show ?thesis unfolding tell_fs_def using same_counts_ok by metis
qed

lemma exit_files_procs: "exit_files p is s = Inr t \<Longrightarrow> p < length (proc_table s) \<Longrightarrow> \<exists>xs. proc_table t = (proc_table s)[p := (proc_of s p)\<lparr>filp := xs\<rparr>]"
proof (induction "is" arbitrary: s)
  case Nil
  then show ?case by (intro exI [of _ "filp (proc_of s p)"]) simp
next
  case (Cons i is')
  show ?case
  proof (cases "filp (proc_of s p) ! i")
    case None
    then show ?thesis using Cons by simp
  next
    case (Some d)
    with Cons.prems obtain pin where
      "exit_files p is' (upd_proc (upd_desc (upd_inode s pin (\<lambda>n. n\<lparr>i_cnt := i_cnt n - 1\<rparr>)) d drop_desc) p (\<lambda>q. q\<lparr>filp := (filp q)[i := None]\<rparr>)) = Inr t"
      by (auto simp: res_simps Let_def)
    from Cons.IH [OF this] Cons.prems(2) show ?thesis by (auto simp: upd_proc_def upd_desc_def upd_inode_def)
  qed
qed

lemma tell_fs_exit:
  assumes "fs_ok s" and "c < 37"
  shows "\<exists>t. tell_fs m0 EXIT (int c) s = Inr t \<and> fs_ok t \<and> proc_table t = (proc_table s)[c := (proc_of s c)\<lparr>filp := replicate 64 None\<rparr>]"
proof -
  have len: "length (proc_table s) = 37" using assms(1) by (simp add: fs_ok_def)
  let ?m = "m0\<lparr>msg_source := int TASK_MM, msg_type := EXIT, m3i2 := int c\<rparr>"
  have ok: "fs_ok (received ?m s)" using same_counts_ok [OF received_counts assms(1)] .
  then obtain t where t: "fs_exit (received ?m s) = Inr (0, t)" "refs_ok t" "\<forall>i < 64. filp (proc_of t c) ! i = None"
    using fs_exit_refs [of "received ?m s"] assms(2) by (auto simp: fs_ok_def valid_proc_nr_def)
  from t(1) obtain xs where xs: "proc_table t = (proc_table s)[c := (proc_of s c)\<lparr>filp := xs\<rparr>]"
    using exit_files_procs [of c "[0..<NR_FILES]" "received ?m s" t] len assms(2)
    by (auto simp: fs_exit_def Let_def res_simps split: if_splits)
  have "length (filp (proc_of t c)) = 64" using refs_invD(3) [OF t(2), of c] len assms(2) xs by simp
  then have "filp (proc_of t c) = replicate 64 None" using t(3) by (intro nth_equalityI) simp_all
  then have pt: "proc_table t = (proc_table s)[c := (proc_of s c)\<lparr>filp := replicate 64 None\<rparr>]" using xs len assms(2) by simp
  have "task_fs ?m s = Inr (fs_answer (int TASK_MM) (t\<lparr>fs_msg := (fs_msg t)\<lparr>m3i1 := 0\<rparr>\<rparr>))"
    using t(1) by (simp add: task_fs_def fs_dispatch_def ret_i1_def valid_proc_nr_def Let_def)
  moreover have "fs_ok t" using t(2) pt len by (simp add: fs_ok_def)
  moreover have "same_counts t (fs_answer (int TASK_MM) (t\<lparr>fs_msg := (fs_msg t)\<lparr>m3i1 := 0\<rparr>\<rparr>))"
    "proc_table (fs_answer (int TASK_MM) (t\<lparr>fs_msg := (fs_msg t)\<lparr>m3i1 := 0\<rparr>\<rparr>)) = proc_table t"
    by (simp_all add: same_counts_def fs_answer_def Let_def)
  ultimately show ?thesis unfolding tell_fs_def using same_counts_ok pt by metis
qed

section \<open>The three turns\<close>

lemma fork_turn:
  assumes "fs_ok s" and p: "p < NR_TASKS + NR_PROCS" "p_flags (proc_of s p) \<noteq> FREE_SLOT"
    and native: "\<forall>i < NR_TASKS + NR_NATIVE_PROCS. p_flags (proc_of s i) \<noteq> FREE_SLOT"
    and free: "\<exists>i < NR_TASKS + NR_PROCS. p_flags (proc_of s i) = FREE_SLOT"
    and space: "one_space (proc_of s p)" "0 \<le> sint (image_size (proc_of s p))" "sint (image_size (proc_of s p)) \<le> PROC_IMAGE_SIZE_DEFAULT"
    and memory: "PROCS_BASE + 28 * PROC_IMAGE_SIZE_DEFAULT < memory_size"
    and files: "\<forall>i < NR_TASKS + NR_PROCS. p_flags (proc_of s i) = FREE_SLOT \<longrightarrow> filp (proc_of s i) = replicate NR_FILES None"
  obtains c t b where "mm_turn memory_size m0 (fork_msg m1 p) s = Inr (t, [TellFs FORK (int c), SysRet (int c) (Some 0) 0, SysRet (int p) (Some 0) (int c)])"
    "fs_ok t" "proc_table t = proc_table (forked s p c b)" "c < NR_TASKS + NR_PROCS" "p_flags (proc_of s c) = FREE_SLOT" "p \<noteq> c"
proof -
  have len: "length (proc_table s) = NR_TASKS + NR_PROCS" using assms(1) by (simp add: fs_ok_def)
  obtain c where c: "do_fork memory_size p s = Inr (0, Some c, forked s p c (PROCS_BASE + (int c - 9) * PROC_IMAGE_SIZE_DEFAULT),
      [TellFs FORK (int c), SysRet (int c) (Some 0) 0])" "c < NR_TASKS + NR_PROCS" "p_flags (proc_of s c) = FREE_SLOT"
    using do_fork_ok [OF len p(1) native free space memory] by blast
  let ?f = "forked s p c (PROCS_BASE + (int c - 9) * PROC_IMAGE_SIZE_DEFAULT)"
  have ne: "p \<noteq> c" using c(3) p(2) by auto
  have "filp (proc_of s c) = replicate 64 None" using files c(2,3) by simp
  then obtain t where t: "tell_fs m0 FORK (int c) ?f = Inr t" "fs_ok t" "proc_table t = proc_table ?f"
    using tell_fs_fork [OF assms(1), of p c] p(1) c(2) ne by (simp del: PROCS_BASE_def PROC_IMAGE_SIZE_DEFAULT_def) blast
  have "task_mm memory_size (fork_msg m1 p) s = Inr (?f, [TellFs FORK (int c), SysRet (int c) (Some 0) 0, SysRet (int p) (Some 0) (int c)])"
    using c(1) p(1) by (simp add: task_mm_def fork_msg_def valid_proc_nr_def Let_def del: PROCS_BASE_def PROC_IMAGE_SIZE_DEFAULT_def)
  then have "mm_turn memory_size m0 (fork_msg m1 p) s = Inr (t, [TellFs FORK (int c), SysRet (int c) (Some 0) 0, SysRet (int p) (Some 0) (int c)])"
    using t(1) by (simp add: mm_turn_def fork_msg_def del: PROCS_BASE_def PROC_IMAGE_SIZE_DEFAULT_def)
  then show thesis using that t(2,3) c(2,3) ne by blast
qed

lemma upd_proc_counts:
  assumes "\<And>q. filp (g q) = filp q"
  shows "same_counts s (upd_proc s p g)"
proof -
  have "map filp ((proc_table s)[p := g (proc_of s p)]) = map filp (proc_table s)"
    using assms by (cases "p < length (proc_table s)") (simp_all add: map_update list_update_same_conv list_update_beyond not_less)
  then show ?thesis by (simp add: same_counts_def upd_proc_def)
qed

lemma wait_turn:
  assumes "only_child s p c" and "\<not> has_flag (proc_of s c) HANGING"
  shows "mm_turn memory_size m0 (wait_msg m1 p) s = Inr (upd_proc s p (\<lambda>q. q\<lparr>p_flags := p_flags q OR WAITING\<rparr>), [])"
proof -
  have "valid_proc_nr (int p)" using assms(1) by (auto simp: only_child_def valid_proc_nr_def)
  then show ?thesis using assms(2) do_wait_only_child [OF assms(1)] by (simp add: mm_turn_def task_mm_def wait_msg_def Let_def)
qed

lemma exit_turn:
  assumes "fs_ok s" and "only_child s p c" and "has_flag (proc_of s p) WAITING"
  obtains t where "mm_turn memory_size m0 (exit_msg m1 stat c) s = Inr (t, [TellFs EXIT (int c), SysRet (int p) (Some stat) (int c)])" "fs_ok t"
    "proc_table t = (proc_table s)[c := (proc_of s c)\<lparr>filp := replicate 64 None, exit_status := stat, p_flags := FREE_SLOT\<rparr>,
       p := (proc_of s p)\<lparr>p_flags := p_flags (proc_of s p) AND NOT WAITING\<rparr>]"
proof -
  have f: "length (proc_table s) = 37" "p < 37" "c < 37" "p \<noteq> c" using assms(2) by (simp_all add: only_child_def)
  obtain u where u: "tell_fs m0 EXIT (int c) s = Inr u" "fs_ok u" "proc_table u = (proc_table s)[c := (proc_of s c)\<lparr>filp := replicate 64 None\<rparr>]"
    using tell_fs_exit [OF assms(1) f(3)] by blast
  have "only_child u p c" using assms(2) f u(3) by (simp add: only_child_def nth_list_update)
  moreover have "has_flag (proc_of u p) WAITING" using assms(3) u(3) f by simp
  ultimately have ex: "do_exit stat c u = Inr (upd_proc (upd_proc u c (\<lambda>q. q\<lparr>exit_status := stat, p_flags := FREE_SLOT\<rparr>)) p
       (\<lambda>q. q\<lparr>p_flags := p_flags q AND NOT WAITING\<rparr>), [TellFs EXIT (int c), SysRet (int p) (Some stat) (int c)])" (is "_ = Inr (?t, _)")
    by (simp add: do_exit_only_child)
  have "mm_turn memory_size m0 (exit_msg m1 stat c) s = Inr (?t, [TellFs EXIT (int c), SysRet (int p) (Some stat) (int c)])"
    using u(1) ex f(3) by (simp add: mm_turn_def task_mm_def exit_msg_def valid_proc_nr_def Let_def)
  moreover have "same_counts u ?t" using same_counts_trans [OF upd_proc_counts upd_proc_counts] by simp
  then have "fs_ok ?t" using same_counts_ok u(2) by blast
  moreover have "proc_table ?t = (proc_table s)[c := (proc_of s c)\<lparr>filp := replicate 64 None, exit_status := stat, p_flags := FREE_SLOT\<rparr>,
       p := (proc_of s p)\<lparr>p_flags := p_flags (proc_of s p) AND NOT WAITING\<rparr>]"
    using f u(3) by (simp add: upd_proc_def)
  ultimately show thesis using that by blast
qed

lemma same_files_counts:
  assumes "fs_ok s" and "fs_ok t" and "map filp (proc_table t) = map filp (proc_table s)" and "d < NR_FILE_DESC"
  shows "fd_cnt (f_desc_table t ! d) = fd_cnt (f_desc_table s ! d)"
proof -
  have "refs u d = (\<Sum>fs\<leftarrow>map filp (proc_table u). count_list fs (Some d))" for u :: fs by (simp add: refs_def comp_def)
  then have "refs t d = refs s d" using assms(3) by (simp only:)
  moreover have "fd_cnt (f_desc_table u ! d) = int (refs u d)" if "fs_ok u" for u
    using that assms(4) by (auto simp: fs_ok_def refs_inv_def desc_ok_def)
  ultimately show ?thesis using assms(1,2) by simp
qed

text \<open>
  When no slot is free MM answers -1, and the assertion of the library's \<^verbatim>\<open>fork\<close> fails in the caller.
\<close>

lemma fork_full_asserts:
  assumes "fs_ok s" and "p < NR_TASKS + NR_PROCS" and "\<forall>i < NR_TASKS + NR_PROCS. p_flags (proc_of s i) \<noteq> FREE_SLOT"
  shows "\<exists>e. mm_turn memory_size m0 (fork_msg m1 p) s = Inr (s, e) \<and> map fork_return (answers p e) = [Inl (AssertionFailure ''fork'')]"
proof -
  have "length (proc_table s) = NR_TASKS + NR_PROCS" using assms(1) by (simp add: fs_ok_def)
  from do_fork_full [OF this assms(3)] show ?thesis using assms(2)
    by (simp add: mm_turn_def task_mm_def fork_msg_def valid_proc_nr_def fork_return_def kassert_def)
qed


text \<open>A state after the start of FS in which the first user process has asked for a fork.\<close>

definition life_demo :: fs where
  "life_demo = fs_demo\<lparr>proc_table := (map (\<lambda>q. q\<lparr>p_parent := NO_TASK\<rparr>) (proc_table booted))
     [5 := (proc_of forker 5)\<lparr>p_parent := NO_TASK, p_flags := RECEIVING\<rparr>]\<rparr>"

lemma life_demo_procs:
  "length (proc_table life_demo) = 37" "p_flags (proc_of life_demo 5) = RECEIVING" "ldts (proc_of life_demo 5) = ldts (proc_of forker 5)"
  "i < 37 \<Longrightarrow> p_parent (proc_of life_demo i) = NO_TASK" "i < 37 \<Longrightarrow> filp (proc_of life_demo i) = replicate NR_FILES None"
  "i < 37 \<Longrightarrow> i \<noteq> 5 \<Longrightarrow> p_flags (proc_of life_demo i) = p_flags (proc_of booted i)"
  using booted_fresh(4) booted_fresh(5) [of i] forker_proc(1)
  by (auto simp: life_demo_def nth_list_update fresh_proc_def forker_def)

lemma life_demo_ok: "fs_ok life_demo"
proof -
  have "\<forall>p \<in> set (proc_table life_demo). filp p = replicate NR_FILES None"
    using life_demo_procs(1,5) by (metis in_set_conv_nth)
  then have "refs_ok life_demo" by (intro fresh_refs [of _ demo_root]) (simp_all add: life_demo_def demo_root_def)
  then show ?thesis using life_demo_procs(1) by (simp add: fs_ok_def)
qed


end
