(* ===== verification/Disk_Driver.thy ===== *)
theory Disk_Driver
  imports Fs_Core
begin

text \<open>
  The disk driver behind the file system. \<^verbatim>\<open>rw_sector\<close> of the file system is modelled by its effect on the bytes of a device; here
  the message it sends is given to \<^verbatim>\<open>hd_rdwt\<close> of the driver, what the driver writes to the ports is given to an ATA controller, and the
  effect is proved to be the same. The controller is modelled from its data sheet: a READ or WRITE command takes the sector number
  and the number of sectors from the registers (0 stands for 256), and every sector that is written to the data port goes to the next sector.
\<close>

section \<open>The controller\<close>

record ata =
  reg_count :: u8
  reg_low :: u8
  reg_mid :: u8
  reg_high :: u8
  reg_device :: u8
  ata_sect :: nat
  ata_left :: nat
  ata_bytes :: "nat \<Rightarrow> u8"

definition ata_lba :: "ata \<Rightarrow> u32" where
  "ata_lba a = ucast (reg_low a) OR push_bit 8 (ucast (reg_mid a)) OR push_bit 16 (ucast (reg_high a)) OR
     push_bit 24 (ucast (reg_device a AND 0xF))"

definition ata_port :: "u16 \<Rightarrow> u8 \<Rightarrow> ata \<Rightarrow> ata" where
  "ata_port p b a =
     (if p = REG_NSECTOR then a\<lparr>reg_count := b\<rparr>
      else if p = REG_LBA_LOW then a\<lparr>reg_low := b\<rparr>
      else if p = REG_LBA_MID then a\<lparr>reg_mid := b\<rparr>
      else if p = REG_LBA_HIGH then a\<lparr>reg_high := b\<rparr>
      else if p = REG_DEVICE then a\<lparr>reg_device := b\<rparr>
      else if p = REG_CMD \<and> (b = ATA_READ \<or> b = ATA_WRITE) then
        a\<lparr>ata_sect := unat (ata_lba a), ata_left := if reg_count a = 0 then 256 else unat (reg_count a)\<rparr>
      else a)"

fun ata_out :: "hd_io \<Rightarrow> ata \<Rightarrow> ata" where
  "ata_out (OutByte p b) a = ata_port p b a"
| "ata_out (OutData bs) a =
     (if ata_left a = 0 then a
      else a\<lparr>ata_bytes := (\<lambda>x. if ata_sect a * 512 \<le> x \<and> x < ata_sect a * 512 + length bs then bs ! (x - ata_sect a * 512) else ata_bytes a x),
             ata_sect := ata_sect a + 1, ata_left := ata_left a - 1\<rparr>)"

text \<open>What the controller has seen of the driver between two states of the driver.\<close>

definition ata_after :: "hd_state \<Rightarrow> hd_state \<Rightarrow> ata \<Rightarrow> ata" where
  "ata_after h h' a = fold ata_out (drop (length (hd_out h)) (hd_out h')) a"

text \<open>The sectors it returns for a READ command, and that it asks for every sector of a WRITE command in time.\<close>

definition drive_returns :: "hd_state \<Rightarrow> ata \<Rightarrow> nat \<Rightarrow> bool" where
  "drive_returns h a n \<longleftrightarrow> (\<forall>i < n. \<forall>j < 512. hd_sect h (hd_nread h + i) j = ata_bytes a ((ata_sect a + i) * 512 + j))"

primrec drive_asks :: "nat \<Rightarrow> hd_state \<Rightarrow> bool" where
  "drive_asks 0 h = True"
| "drive_asks (Suc n) h = (case waitfor STATUS_DRQ STATUS_DRQ HD_TIMEOUT h of Inr (True, h1) \<Rightarrow> drive_asks n h1 | _ \<Rightarrow> False)"

section \<open>The request\<close>

definition driver_msg :: "message \<Rightarrow> int \<Rightarrow> int \<Rightarrow> int \<Rightarrow> int \<Rightarrow> nat \<Rightarrow> u32 \<Rightarrow> message" where
  "driver_msg m0 io_type dev pos bytes proc_nr buf =
     m0\<lparr>msg_type := io_type, m3i4 := MINOR dev, m3l1 := word_of_int pos, m3p2 := buf, m3i2 := bytes, m3i3 := int proc_nr\<rparr>"

section \<open>A command and its data\<close>

lemma ata_port_simps:
  "ata_port REG_DEV_CTRL b a = a" "ata_port REG_FEATURES b a = a" "ata_port REG_NSECTOR b a = a\<lparr>reg_count := b\<rparr>"
  "ata_port REG_LBA_LOW b a = a\<lparr>reg_low := b\<rparr>" "ata_port REG_LBA_MID b a = a\<lparr>reg_mid := b\<rparr>" "ata_port REG_LBA_HIGH b a = a\<lparr>reg_high := b\<rparr>"
  "ata_port REG_DEVICE b a = a\<lparr>reg_device := b\<rparr>"
  by (simp_all add: ata_port_def const_simps)

lemma ata_port_cmd:
  "b = ATA_READ \<or> b = ATA_WRITE \<Longrightarrow>
    ata_port REG_CMD b a = a\<lparr>ata_sect := unat (ata_lba a), ata_left := if reg_count a = 0 then 256 else unat (reg_count a)\<rparr>"
  by (auto simp: ata_port_def const_simps)

lemma ata_cmd_log:
  assumes "command cmd = ATA_READ \<or> command cmd = ATA_WRITE"
  shows "fold ata_out (cmd_log cmd) a = a\<lparr>reg_count := cmd_count cmd, reg_low := lba_low cmd, reg_mid := lba_mid cmd, reg_high := lba_high cmd,
    reg_device := cmd_device cmd, ata_sect := unat (lba_of cmd), ata_left := if cmd_count cmd = 0 then 256 else unat (cmd_count cmd)\<rparr>"
  using assms by (simp add: cmd_log_def ata_port_simps ata_port_cmd ata_lba_def lba_of_def)

lemma ata_command:
  assumes "com = ATA_READ \<or> com = ATA_WRITE" and "sect_nr < 2 ^ 28" and "0 < n" and "n \<le> 256"
  shows "ata_sect (fold ata_out (cmd_log (rw_cmd com 0 (of_nat n) sect_nr)) a) = unat sect_nr"
    and "ata_left (fold ata_out (cmd_log (rw_cmd com 0 (of_nat n) sect_nr)) a) = n"
    and "ata_bytes (fold ata_out (cmd_log (rw_cmd com 0 (of_nat n) sect_nr)) a) = ata_bytes a"
proof -
  have c: "command (rw_cmd com 0 (of_nat n) sect_nr) = com" "cmd_count (rw_cmd com 0 (of_nat n) sect_nr) = of_nat n" by (simp_all add: rw_cmd_def)
  have l: "lba_of (rw_cmd com 0 (of_nat n) sect_nr) = sect_nr" using assms(2) unfolding lba_rw_cmd by (metis less_mask_eq take_bit_eq_mask)
  have "unat (of_nat n :: u8) = n mod 256" by (simp add: unsigned_of_nat take_bit_eq_mod)
  then have "((of_nat n :: u8) = 0 \<longrightarrow> n = 256) \<and> ((of_nat n :: u8) \<noteq> 0 \<longrightarrow> unat (of_nat n :: u8) = n)"
    using assms(3,4) by (cases "n = 256") (auto simp: unat_eq_0 [symmetric] simp del: unsigned_0)
  then show "ata_sect (fold ata_out (cmd_log (rw_cmd com 0 (of_nat n) sect_nr)) a) = unat sect_nr"
    "ata_left (fold ata_out (cmd_log (rw_cmd com 0 (of_nat n) sect_nr)) a) = n"
    "ata_bytes (fold ata_out (cmd_log (rw_cmd com 0 (of_nat n) sect_nr)) a) = ata_bytes a"
    using ata_cmd_log [of "rw_cmd com 0 (of_nat n) sect_nr"] assms(1) c l by simp_all
qed

lemma drive_asks_cong: "hd_polls h = hd_polls k \<Longrightarrow> drive_asks n h = drive_asks n k"
proof (induction n arbitrary: h k)
  case (Suc n)
  have w: "waitfor a b t x = (case hd_polls x of [] \<Rightarrow> Inl Spins | p # ps \<Rightarrow> res_bind (wait_loop (fst p) a b t ps) (\<lambda>(ok, rest). Inr (ok, x\<lparr>hd_polls := rest\<rparr>)))"
    for a b t x by (simp add: waitfor_def)
  have "drive_asks n (h\<lparr>hd_polls := ps\<rparr>) = drive_asks n (k\<lparr>hd_polls := ps\<rparr>)" for ps using Suc.IH by simp
  then show ?case using Suc.prems
    by (cases "hd_polls k"; cases "wait_loop (fst (hd (hd_polls k))) STATUS_DRQ STATUS_DRQ HD_TIMEOUT (tl (hd_polls k))") (auto simp: w split: bool.splits)
qed simp

lemma hd_transfer_writes:
  assumes "drive_asks n h" and "n \<le> hd_irqs h"
  shows "\<exists>ps. hd_transfer False la (512 * int n) h =
    Inr (h\<lparr>hd_polls := ps, hd_out := hd_out h @ map (\<lambda>i. OutData (read_bytes (mem h) (la + of_nat (512 * i)) 512)) [0..<n],
      hd_irqs := hd_irqs h - n\<rparr>)"
  using assms
proof (induction n arbitrary: la h)
  case 0
  have "h = h\<lparr>hd_polls := hd_polls h, hd_out := hd_out h, hd_irqs := hd_irqs h\<rparr>" by simp
  then show ?case by (intro exI [of _ "hd_polls h"]) (simp add: hd_transfer.simps)
next
  case (Suc n)
  obtain h1 where w: "waitfor STATUS_DRQ STATUS_DRQ HD_TIMEOUT h = Inr (True, h1)" "drive_asks n h1"
    using Suc.prems(1) by (auto split: sum.splits prod.splits bool.splits)
  obtain ps where ps: "h1 = h\<lparr>hd_polls := ps\<rparr>" using waitfor_polls [OF w(1)] by blast
  let ?h = "h\<lparr>hd_polls := ps, hd_out := hd_out h @ [OutData (read_bytes (mem h) la 512)], hd_irqs := hd_irqs h - 1\<rparr>"
  have step: "hd_transfer False la (512 * int (Suc n)) h = hd_transfer False (la + 512) (512 * int n) ?h"
    using w(1) Suc.prems(2) ps by (subst hd_transfer.simps) (simp add: Let_def interrupt_wait_def)
  have "drive_asks n ?h" using w(2) drive_asks_cong [of ?h h1] ps by simp
  moreover have "n \<le> hd_irqs ?h" using Suc.prems(2) by simp
  ultimately obtain qs where "hd_transfer False (la + 512) (512 * int n) ?h = Inr (?h\<lparr>hd_polls := qs,
      hd_out := hd_out ?h @ map (\<lambda>i. OutData (read_bytes (mem ?h) (la + 512 + of_nat (512 * i)) 512)) [0..<n], hd_irqs := hd_irqs ?h - n\<rparr>)"
    using Suc.IH by blast
  moreover have "map (\<lambda>i. OutData (read_bytes (mem h) (la + of_nat (512 * i)) 512)) [0..<Suc n] =
      OutData (read_bytes (mem h) la 512) # map (\<lambda>i. OutData (read_bytes (mem h) (la + 512 + of_nat (512 * i)) 512)) [0..<n]"
    by (simp add: upt_conv_Cons map_Suc_upt [symmetric] algebra_simps del: upt_Suc)
  ultimately show ?case using step by (intro exI [of _ qs]) simp
qed

lemma ata_stores:
  assumes "n \<le> ata_left a"
  shows "ata_bytes (fold ata_out (map (\<lambda>i. OutData (read_bytes m (la + of_nat (512 * i)) 512)) [0..<n]) a) =
    (\<lambda>x. if ata_sect a * 512 \<le> x \<and> x < (ata_sect a + n) * 512 then m (la + of_nat (x - ata_sect a * 512)) else ata_bytes a x)"
    and "ata_sect (fold ata_out (map (\<lambda>i. OutData (read_bytes m (la + of_nat (512 * i)) 512)) [0..<n]) a) = ata_sect a + n"
    and "ata_left (fold ata_out (map (\<lambda>i. OutData (read_bytes m (la + of_nat (512 * i)) 512)) [0..<n]) a) = ata_left a - n"
proof -
  let ?f = "\<lambda>n. fold ata_out (map (\<lambda>i. OutData (read_bytes m (la + of_nat (512 * i)) 512)) [0..<n]) a"
  let ?b = "\<lambda>n. (\<lambda>x. if ata_sect a * 512 \<le> x \<and> x < (ata_sect a + n) * 512 then m (la + of_nat (x - ata_sect a * 512)) else ata_bytes a x)"
  have "ata_bytes (?f n) = ?b n \<and> ata_sect (?f n) = ata_sect a + n \<and> ata_left (?f n) = ata_left a - n" using assms
  proof (induction n)
    case 0
    then show ?case by (auto simp: fun_eq_iff)
  next
    case (Suc n)
    then have IH: "ata_bytes (?f n) = ?b n" "ata_sect (?f n) = ata_sect a + n" "ata_left (?f n) = ata_left a - n" by simp_all
    have nth: "read_bytes m (la + of_nat (512 * n)) 512 ! (x - (ata_sect a + n) * 512) = m (la + of_nat (x - ata_sect a * 512))"
      if "(ata_sect a + n) * 512 \<le> x" "x < (ata_sect a + n) * 512 + 512" for x
    proof -
      have "x - ata_sect a * 512 = 512 * n + (x - (ata_sect a + n) * 512)" using that by (simp add: algebra_simps)
      then show ?thesis using that by (simp add: read_bytes_def add.assoc)
    qed
    have "?f (Suc n) = ata_out (OutData (read_bytes m (la + of_nat (512 * n)) 512)) (?f n)" by simp
    then show ?case using IH Suc.prems nth by (auto simp: fun_eq_iff algebra_simps)
  qed
  then show "ata_bytes (?f n) = ?b n" "ata_sect (?f n) = ata_sect a + n" "ata_left (?f n) = ata_left a - n" by simp_all
qed

section \<open>Reading through the driver\<close>

lemma concat_sectors:
  assumes "\<forall>i < n. \<forall>j < 512. f i j = g (b + i * 512 + j)"
  shows "concat (map (\<lambda>i. map (f i) [0..<512]) [0..<n]) = map g [b..<b + 512 * n]"
  using assms
proof (induction n)
  case (Suc n)
  have "map (f n) [0..<512] = map g [b + n * 512..<b + n * 512 + 512]"
    using Suc.prems by (intro nth_equalityI) simp_all
  moreover have "[b..<b + 512 * Suc n] = [b..<b + 512 * n] @ [b + n * 512..<b + n * 512 + 512]"
    using upt_add_eq_append [of b "b + 512 * n" 512] by (simp add: algebra_simps)
  ultimately show ?case using Suc by simp
qed simp

lemma written_bytes:
  assumes "read_bytes m a (length bs) = bs" and "x \<notin> block_addrs a (length bs) \<Longrightarrow> m x = m0 x" and "length bs \<le> 2 ^ 32"
  shows "m x = write_bytes m0 a bs x"
proof (cases "x \<in> block_addrs a (length bs)")
  case True
  then obtain i where i: "i < length bs" "x = a + of_nat i" by (auto simp: block_addrs_def)
  then have "m x = read_bytes m a (length bs) ! i" by (simp add: read_bytes_def)
  also have "\<dots> = write_bytes m0 a bs x" using assms(1,3) i by (simp add: write_bytes_inside)
  finally show ?thesis .
next
  case False
  then show ?thesis using assms(2) by (simp add: write_bytes_outside)
qed

section \<open>The two sides agree\<close>

text \<open>
  The file system and the driver see the same processes and memory, and the bytes of the device are those of the drive from the
  start of the partition on.
\<close>

definition same_disk :: "fs \<Rightarrow> int \<Rightarrow> hd_state \<Rightarrow> ata \<Rightarrow> part_info \<Rightarrow> bool" where
  "same_disk s dev h a part \<longleftrightarrow> proc_table s = proc_table h \<and> mem s = mem h
     \<and> (\<forall>i. disk s dev i = ata_bytes a (unat (part_base part) * 512 + i))"

text \<open>A request for \<open>n\<close> sectors from sector \<open>q\<close> of a partition, and a drive that is ready for it.\<close>

definition driver_ready :: "int \<Rightarrow> int \<Rightarrow> nat \<Rightarrow> nat \<Rightarrow> nat \<Rightarrow> u32 \<Rightarrow> part_info \<Rightarrow> hd_state \<Rightarrow> ata \<Rightarrow> bool" where
  "driver_ready io dev q n p b part h a \<longleftrightarrow>
     kinv h \<and> MAJOR dev = 3 \<and> part_of (MINOR dev) h = Inr part \<and> 0 < n \<and> n \<le> 256 \<and> q < 2 ^ 22
     \<and> unat (part_base part) + q < 2 ^ 28 \<and> p < NR_TASKS + NR_PROCS \<and> disjoint_blocks (linear h p b) (512 * n) (hdbuf h) 512 \<and> n \<le> hd_irqs h
     \<and> (case waitfor STATUS_BSY 0 HD_TIMEOUT h of
          Inr (True, h1) \<Rightarrow>
            if io = DEV_READ then drive_returns h (fold ata_out (cmd_log (rw_cmd ATA_READ 0 (of_nat n) (part_base part + of_nat q))) a) n
            else io = DEV_WRITE \<and> drive_asks n h1
        | _ \<Rightarrow> False)"

lemma driver_readyD:
  assumes "driver_ready io dev q n p b part h a"
  shows "kinv h" "MAJOR dev = 3" "part_of (MINOR dev) h = Inr part" "0 < n" "n \<le> 256" "q < 2 ^ 22" "unat (part_base part) + q < 2 ^ 28"
    "p < NR_TASKS + NR_PROCS" "disjoint_blocks (linear h p b) (512 * n) (hdbuf h) 512" "n \<le> hd_irqs h"
    "\<exists>h1. waitfor STATUS_BSY 0 HD_TIMEOUT h = Inr (True, h1) \<and> (if io = DEV_READ
        then drive_returns h (fold ata_out (cmd_log (rw_cmd ATA_READ 0 (of_nat n) (part_base part + of_nat q))) a) n else io = DEV_WRITE \<and> drive_asks n h1)"
  using assms unfolding driver_ready_def by (auto split: sum.splits prod.splits bool.splits)

lemma sector_word:
  assumes "unat (base :: u32) + q < 2 ^ 28"
  shows "unat (base + of_nat q) = unat base + q" "base + of_nat q < 2 ^ 28"
proof -
  have "unat (of_nat q :: u32) = q" using assms by (simp add: unsigned_of_nat take_bit_nat_eq_self)
  then show u: "unat (base + of_nat q) = unat base + q" using assms by (simp add: unat_word_ariths)
  show "base + of_nat q < 2 ^ 28" using assms by (simp add: word_less_nat_alt u)
qed

lemma position_word:
  assumes "q < 2 ^ 22"
  shows "(word_of_int (int q * 512) :: u64) AND 0x1FF = 0" "ucast (drop_bit 9 (word_of_int (int q * 512) :: u64)) = (of_nat q :: u32)"
proof -
  let ?w = "word_of_int (int q * 512) :: u64"
  have "x AND 0x1FF = take_bit 9 x" for x :: u64 by (simp add: take_bit_eq_mask mask_eq_exp_minus_1)
  moreover have "?w = push_bit 9 (of_nat q)" by (simp add: push_bit_eq_mult)
  ultimately show "?w AND 0x1FF = 0" by (simp add: take_bit_push_bit)
  have "?w = of_nat (q * 512)" by simp
  then have "unat ?w = q * 512" using assms by (simp only: unsigned_of_nat) (simp add: take_bit_nat_eq_self)
  then have "unat (drop_bit 9 ?w) = q" by (simp only: unat_drop_bit_eq) (simp add: drop_bit_eq_div)
  then have "of_nat (unat (drop_bit 9 ?w)) = (of_nat q :: u32)" by (simp only:)
  then show "ucast (drop_bit 9 ?w) = (of_nat q :: u32)" by simp
qed

lemma hd_write_ok:
  assumes k: "kinv s" and msg: "msg_type p = DEV_WRITE" "m3i2 p = 512 * int n" "valid_proc_nr (m3i3 p)"
    and dev: "DRV_OF_DEV (m3i4 p) = 0" "part_of (m3i4 p) s = Inr part"
    and pos: "m3l1 p AND 0x1FF = 0"
    and ready: "waitfor STATUS_BSY 0 HD_TIMEOUT s = Inr (True, s1)" "drive_asks n s1" "n \<le> hd_irqs s"
    and lba: "sect_nr = ucast (drop_bit 9 (m3l1 p)) + part_base part"
  shows "\<exists>s'. hd_rdwt p s = Inr s' \<and> mem s' = mem s \<and> hd_out s' = hd_out s @ cmd_log (rw_cmd ATA_WRITE 0 (of_nat n) sect_nr)
    @ map (\<lambda>i. OutData (read_bytes (mem s) (linear s (nat (m3i3 p)) (m3p2 p) + of_nat (512 * i)) 512)) [0..<n]"
proof -
  let ?la = "linear s (nat (m3i3 p)) (m3p2 p)" and ?cmd = "rw_cmd ATA_WRITE 0 (of_nat n) sect_nr"
  have cnt: "word_of_int ((m3i2 p + 511) sdiv 512) = (of_nat n :: u8)" unfolding msg(2) by (simp add: signed_divide_int_def sgn_if)
  obtain ps where ps: "s1 = s\<lparr>hd_polls := ps\<rparr>" using waitfor_polls [OF ready(1)] by blast
  let ?s = "s\<lparr>hd_polls := ps, hd_out := hd_out s @ cmd_log ?cmd\<rparr>"
  have out: "hd_cmd_out ?cmd s = Inr ?s" using ready(1) ps by (simp add: hd_cmd_out_def hd_write_port_def cmd_log_def)
  have lin: "va2la ?s (nat (m3i3 p)) (m3p2 p) = Inr ?la" using k by (simp add: va2la_linear linear_def seg_base_def)
  have "drive_asks n ?s" using ready(2) drive_asks_cong [of ?s s1] ps by simp
  then obtain qs where "hd_transfer False ?la (512 * int n) ?s = Inr (?s\<lparr>hd_polls := qs,
      hd_out := hd_out ?s @ map (\<lambda>i. OutData (read_bytes (mem ?s) (?la + of_nat (512 * i)) 512)) [0..<n], hd_irqs := hd_irqs ?s - n\<rparr>)"
    using hd_transfer_writes [of n ?s ?la] ready(3) by auto
  then show ?thesis using dev msg pos sector_below out lin cnt by (simp add: hd_rdwt_def Let_def flip: lba)
qed

lemma driver_request:
  fixes m0 io dev q n p b
  defines "m \<equiv> driver_msg m0 io dev (int q * 512) (int n * 512) p b"
  assumes "driver_ready io dev q n p b part h a"
  shows "m3i2 m = 512 * int n" "valid_proc_nr (m3i3 m)" "m3l1 m AND 0x1FF = 0" "part_base part + of_nat q = ucast (drop_bit 9 (m3l1 m)) + part_base part"
    "nat (m3i3 m) = p" "m3p2 m = b" "DRV_OF_DEV (m3i4 m) = 0" "part_of (m3i4 m) h = Inr part" "msg_type m = io"
proof -
  note R = driver_readyD [OF assms(2)]
  show "m3i2 m = 512 * int n" "valid_proc_nr (m3i3 m)" "m3l1 m AND 0x1FF = 0" "part_base part + of_nat q = ucast (drop_bit 9 (m3l1 m)) + part_base part"
    "nat (m3i3 m) = p" "m3p2 m = b" "part_of (m3i4 m) h = Inr part" "msg_type m = io"
    using R(3,8) position_word [OF R(6)] by (simp_all add: m_def driver_msg_def valid_proc_nr_def)
  then show "DRV_OF_DEV (m3i4 m) = 0" by (auto simp: part_of_def Let_def split: if_splits)
qed

lemma driver_reads:
  assumes "same_disk s dev h a part" and "driver_ready DEV_READ dev q n p b part h a"
  shows "\<exists>h'. hd_rdwt (driver_msg m0 DEV_READ dev (int q * 512) (int n * 512) p b) h = Inr h' \<and> ata_bytes (ata_after h h' a) = ata_bytes a
    \<and> (\<forall>x. x \<notin> block_addrs (hdbuf h) 512 \<longrightarrow>
         mem h' x = write_bytes (mem s) (linear h p b) (map (disk s dev) [q * 512..<q * 512 + 512 * n]) x)"
proof -
  note S = assms(1) [unfolded same_disk_def] and R = driver_readyD [OF assms(2)] and M = driver_request [OF assms(2), of m0]
  note sw = sector_word [OF R(7)]
  let ?L = "part_base part + of_nat q" and ?la = "linear h p b"
  let ?A = "fold ata_out (cmd_log (rw_cmd ATA_READ 0 (of_nat n) ?L)) a"
  obtain h1 where h1: "waitfor STATUS_BSY 0 HD_TIMEOUT h = Inr (True, h1)" "drive_returns h ?A n" using R(11) by auto
  have A: "ata_sect ?A = unat (part_base part) + q" "ata_bytes ?A = ata_bytes a"
    using ata_command [of ATA_READ ?L n a] sw R(4,5) by simp_all
  obtain h' where h': "hd_rdwt (driver_msg m0 DEV_READ dev (int q * 512) (int n * 512) p b) h = Inr h'"
    "hd_out h' = hd_out h @ cmd_log (rw_cmd ATA_READ 0 (of_nat n) ?L)"
    "read_bytes (mem h') ?la (512 * n) = concat (map (\<lambda>i. sector_bytes h (hd_nread h + i)) [0..<n])"
    "\<forall>x. x \<notin> block_addrs ?la (512 * n) \<and> x \<notin> block_addrs (hdbuf h) 512 \<longrightarrow> mem h' x = mem h x"
    using hd_read_ok [OF R(1) M(9,1,2,7,8,3) R(5) h1(1) R(10) _ M(4) sw(2)] R(9) M(5,6) by auto
  have "hd_sect h (hd_nread h + i) j = disk s dev (q * 512 + i * 512 + j)" if "i < n" "j < 512" for i j
    using h1(2) that S A by (simp add: drive_returns_def algebra_simps)
  then have "read_bytes (mem h') ?la (512 * n) = map (disk s dev) [q * 512..<q * 512 + 512 * n]"
    unfolding h'(3) sector_bytes_def SECTOR_SIZE_def by (intro concat_sectors) simp
  then have "mem h' x = write_bytes (mem s) ?la (map (disk s dev) [q * 512..<q * 512 + 512 * n]) x" if "x \<notin> block_addrs (hdbuf h) 512" for x
    using h'(4) that S R(5) by (intro written_bytes) simp_all
  moreover have "ata_after h h' a = ?A" using h'(2) by (simp add: ata_after_def)
  ultimately show ?thesis using h'(1) A(2) by metis
qed

lemma driver_writes:
  assumes "driver_ready DEV_WRITE dev q n p b part h a"
  shows "\<exists>h'. hd_rdwt (driver_msg m0 DEV_WRITE dev (int q * 512) (int n * 512) p b) h = Inr h' \<and> mem h' = mem h
    \<and> ata_bytes (ata_after h h' a) = (\<lambda>x. if (unat (part_base part) + q) * 512 \<le> x \<and> x < (unat (part_base part) + q + n) * 512
        then mem h (linear h p b + of_nat (x - (unat (part_base part) + q) * 512)) else ata_bytes a x)"
proof -
  note R = driver_readyD [OF assms] and M = driver_request [OF assms, of m0]
  note sw = sector_word [OF R(7)]
  let ?L = "part_base part + of_nat q" and ?la = "linear h p b"
  let ?A = "fold ata_out (cmd_log (rw_cmd ATA_WRITE 0 (of_nat n) ?L)) a"
  let ?data = "map (\<lambda>i. OutData (read_bytes (mem h) (?la + of_nat (512 * i)) 512)) [0..<n]"
  obtain h1 where h1: "waitfor STATUS_BSY 0 HD_TIMEOUT h = Inr (True, h1)" "drive_asks n h1" using R(11) by auto
  have A: "ata_sect ?A = unat (part_base part) + q" "ata_bytes ?A = ata_bytes a" "ata_left ?A = n"
    using ata_command [of ATA_WRITE ?L n a] sw R(4,5) by simp_all
  obtain h' where h': "hd_rdwt (driver_msg m0 DEV_WRITE dev (int q * 512) (int n * 512) p b) h = Inr h'" "mem h' = mem h"
    "hd_out h' = hd_out h @ cmd_log (rw_cmd ATA_WRITE 0 (of_nat n) ?L) @ ?data"
    using hd_write_ok [OF R(1) M(9,1,2,7,8,3) h1 R(10) M(4)] M(5,6) by auto
  have "ata_after h h' a = fold ata_out ?data ?A" using h'(3) by (simp add: ata_after_def)
  then show ?thesis using h'(1,2) ata_stores(1) [of n ?A "mem h" ?la] A by (intro exI [of _ h']) (simp only: simp_thms order_refl)
qed

text \<open>
  C15: The disk driver implements what the file system relies on. When the drive is ready, the message that \<^verbatim>\<open>rw_sector\<close> sends for
  1 to 256 sectors of a partition makes \<^verbatim>\<open>hd_rdwt\<close> return, and the outcome is that of \<^verbatim>\<open>rw_sector\<close>: the same
  memory but for the driver's own buffer, and after a write the bytes of the drive, as the controller has stored them on the driver's commands, are
  the bytes of the device.
\<close>

theorem driver_implements_rw_sector:
  assumes "same_disk s dev h a part" and "driver_ready io dev q n p b part h a"
  shows "\<exists>s' h'. rw_sector io dev (int q * 512) (int n * 512) p b s = Inr s'
    \<and> hd_rdwt (driver_msg m0 io dev (int q * 512) (int n * 512) p b) h = Inr h'
    \<and> (\<forall>x. x \<notin> block_addrs (hdbuf h) 512 \<longrightarrow> mem h' x = mem s' x)
    \<and> (\<forall>i. disk s' dev i = ata_bytes (ata_after h h' a) (unat (part_base part) * 512 + i))"
proof -
  note S = assms(1) [unfolded same_disk_def] and R = driver_readyD [OF assms(2)]
  let ?la = "linear h p b"
  have lin: "va2la s p b = Inr ?la" using S va2la_linear [OF R(1), of p b] by (simp add: va2la_def ldt_seg_linear_def)
  have bytes: "nat (int n * 512) = 512 * n" "nat (int q * 512) = q * 512" "int q * 512 < 2 ^ 31" using R(6) by (simp_all add: nat_mult_distrib)
  have rw: "rw_sector io dev (int q * 512) (int n * 512) p b s = Inr (if io = DEV_READ
      then s\<lparr>mem := write_bytes (mem s) ?la (map (disk s dev) [q * 512..<q * 512 + 512 * n])\<rparr>
      else s\<lparr>disk := (disk s)(dev := (\<lambda>i. if q * 512 \<le> i \<and> i < q * 512 + 512 * n then mem s (?la + of_nat (i - q * 512)) else disk s dev i))\<rparr>)"
    using R(2,5) bytes lin by (simp add: rw_sector_def driver_of_hd Let_def cong: if_cong)
  show ?thesis
  proof (cases "io = DEV_READ")
    case True
    obtain h' where "hd_rdwt (driver_msg m0 DEV_READ dev (int q * 512) (int n * 512) p b) h = Inr h'" "ata_bytes (ata_after h h' a) = ata_bytes a"
      "\<forall>x. x \<notin> block_addrs (hdbuf h) 512 \<longrightarrow> mem h' x = write_bytes (mem s) ?la (map (disk s dev) [q * 512..<q * 512 + 512 * n]) x"
      using driver_reads [OF assms(1)] assms(2) True by metis
    then show ?thesis using rw S True
      by (intro exI [of _ "s\<lparr>mem := write_bytes (mem s) ?la (map (disk s dev) [q * 512..<q * 512 + 512 * n])\<rparr>"] exI [of _ h']) simp
  next
    case False
    then have w: "io = DEV_WRITE" using R(11) by auto
    obtain h' where h': "hd_rdwt (driver_msg m0 DEV_WRITE dev (int q * 512) (int n * 512) p b) h = Inr h'" "mem h' = mem h"
      "ata_bytes (ata_after h h' a) = (\<lambda>x. if (unat (part_base part) + q) * 512 \<le> x \<and> x < (unat (part_base part) + q + n) * 512
        then mem h (?la + of_nat (x - (unat (part_base part) + q) * 512)) else ata_bytes a x)"
      using driver_writes [OF assms(2) [unfolded w]] by blast
    have "(if q * 512 \<le> i \<and> i < q * 512 + 512 * n then mem s (?la + of_nat (i - q * 512)) else disk s dev i)
        = ata_bytes (ata_after h h' a) (unat (part_base part) * 512 + i)" for i
      unfolding h'(3) using S by (auto simp: algebra_simps)
    then show ?thesis using rw S False w h'(1,2)
      by (intro exI [of _ "s\<lparr>disk := (disk s)(dev := (\<lambda>i. if q * 512 \<le> i \<and> i < q * 512 + 512 * n then mem s (?la + of_nat (i - q * 512)) else disk s dev i))\<rparr>"]
          exI [of _ h']) simp
  qed
qed

section \<open>An instance\<close>

text \<open>A drive that holds the number of each byte, and the file system that sees its first partition.\<close>

definition ata_demo :: ata where
  "ata_demo = \<lparr>reg_count = 0, reg_low = 0, reg_mid = 0, reg_high = 0, reg_device = 0, ata_sect = 0, ata_left = 0, ata_bytes = of_nat\<rparr>"

definition driver_demo :: hd_state where
  "driver_demo = hd_demo\<lparr>hd_sect := (\<lambda>i j. of_nat ((101 + i) * 512 + j))\<rparr>"

definition fs_of_drive :: fs where
  "fs_of_drive = kernel.extend (kernel.truncate driver_demo) (fs.fields (\<lambda>_ i. of_nat (100 * 512 + i)) [] [] [] 0 0 (demo_request 0) [])"

theorem driver_implements_rw_sector_witness:
  "\<exists>s' h'. rw_sector DEV_READ 0x301 512 512 3 0x20000 fs_of_drive = Inr s'
    \<and> hd_rdwt (driver_msg (demo_request 0) DEV_READ 0x301 512 512 3 0x20000) driver_demo = Inr h' \<and> mem h' 0x20007 = mem s' 0x20007"
proof -
  let ?part = "\<lparr>part_base = 100, part_size = 1000\<rparr>"
  have f: "proc_table driver_demo = proc_table booted" "hd_irqs driver_demo = 2" "hdbuf driver_demo = 0x40000" "hd_nread driver_demo = 0"
    "hd_polls driver_demo = [(7, 0), (7, 0x80), (8, 0)]" "primary (hd_info driver_demo) = replicate 5 ?part"
    "hd_sect driver_demo = (\<lambda>i j. of_nat ((101 + i) * 512 + j))"
    by (simp_all add: driver_demo_def hd_demo_fields)
  have k: "kinv driver_demo" using hd_demo_kinv by (simp add: driver_demo_def kinv_def seg_base_def)
  have dev: "MAJOR 0x301 = 3" "MINOR 0x301 = 1" by (simp_all add: MAJOR_def MINOR_def drop_bit_eq_div)
  have part: "part_of 1 driver_demo = Inr ?part" by (simp add: part_of_def DRV_OF_DEV_def signed_divide_int_def f)
  have w: "waitfor STATUS_BSY 0 HD_TIMEOUT driver_demo = Inr (True, driver_demo\<lparr>hd_polls := []\<rparr>)" by (simp add: waitfor_def f const_simps)
  have lin: "linear driver_demo 3 0x20000 = 0x20000" using k by (simp add: kinv_def linear_def)
  have dj: "disjoint_blocks 0x20000 512 0x40000 512" by (rule range_disjoint) simp_all
  have "drive_returns driver_demo (fold ata_out (cmd_log (rw_cmd ATA_READ 0 (of_nat 1) (100 + of_nat 1))) ata_demo) 1"
    using ata_command [of ATA_READ "100 + of_nat 1" 1 ata_demo] by (simp add: drive_returns_def f ata_demo_def)
  then have "driver_ready DEV_READ 0x301 1 1 3 0x20000 ?part driver_demo ata_demo"
    unfolding driver_ready_def using k dev part w lin dj f by simp
  moreover have "same_disk fs_of_drive 0x301 driver_demo ata_demo ?part"
    by (simp add: same_disk_def fs_of_drive_def ata_demo_def kernel.extend_def kernel.truncate_def fs.fields_def)
  ultimately obtain s' h' where "rw_sector DEV_READ 0x301 (int 1 * 512) (int 1 * 512) 3 0x20000 fs_of_drive = Inr s'"
    "hd_rdwt (driver_msg (demo_request 0) DEV_READ 0x301 (int 1 * 512) (int 1 * 512) 3 0x20000) driver_demo = Inr h'"
    "\<forall>x. x \<notin> block_addrs (hdbuf driver_demo) 512 \<longrightarrow> mem h' x = mem s' x"
    using driver_implements_rw_sector [of fs_of_drive "0x301" driver_demo ata_demo ?part DEV_READ 1 1 3 "0x20000" "demo_request 0"] by blast
  moreover have "0x20007 \<in> block_addrs 0x20000 512" unfolding block_addrs_def by (intro image_eqI [of _ _ 7]) simp_all
  ultimately show ?thesis using dj f(3) unfolding disjoint_blocks_def by (intro exI [of _ s'] exI [of _ h']) auto
qed

end
