(* ===== verification/Interrupts.thy ===== *)
theory Interrupts
  imports Boot Clock
begin

text \<open>
  Interrupt routing: the two 8259A controllers (\<^verbatim>\<open>kernel/i8259.c\<close>, \<^verbatim>\<open>disable_irq\<close> and \<^verbatim>\<open>enable_irq\<close> of
  \<^verbatim>\<open>lib/kliba.asm\<close>), the table of interrupt handlers, the tables built by \<^verbatim>\<open>init_prot\<close> and \<^verbatim>\<open>cstart\<close>
  (\<^verbatim>\<open>kernel/protect.c\<close>, \<^verbatim>\<open>kernel/start.c\<close>) and the timer (\<^verbatim>\<open>init_clock\<close> of \<^verbatim>\<open>kernel/clock.c\<close>). A controller is
  modelled from its data sheet: three initialisation words after ICW1, then the interrupt mask. The addresses of the
  assembly entry points and of the tables are parameters.
\<close>

section \<open>Constants\<close>

definition INT_M_CTL :: u16 where [const_simps]: "INT_M_CTL = 0x20"
definition INT_M_CTLMASK :: u16 where [const_simps]: "INT_M_CTLMASK = 0x21"
definition INT_S_CTL :: u16 where [const_simps]: "INT_S_CTL = 0xA0"
definition INT_S_CTLMASK :: u16 where [const_simps]: "INT_S_CTLMASK = 0xA1"
definition TIMER0 :: u16 where [const_simps]: "TIMER0 = 0x40"
definition TIMER_MODE :: u16 where [const_simps]: "TIMER_MODE = 0x43"
definition RATE_GENERATOR :: u8 where [const_simps]: "RATE_GENERATOR = 0x34"
definition NR_IRQ :: nat where [simp, const_simps]: "NR_IRQ = 16"
definition CLOCK_IRQ :: nat where [simp, const_simps]: "CLOCK_IRQ = 0"
definition KEYBOARD_IRQ :: nat where [simp, const_simps]: "KEYBOARD_IRQ = 1"
definition CASCADE_IRQ :: nat where [simp, const_simps]: "CASCADE_IRQ = 2"
definition AT_WINI_IRQ :: nat where [simp, const_simps]: "AT_WINI_IRQ = 14"
definition INT_VECTOR_IRQ0 :: nat where [simp, const_simps]: "INT_VECTOR_IRQ0 = 0x20"
definition INT_VECTOR_IRQ8 :: nat where [simp, const_simps]: "INT_VECTOR_IRQ8 = 0x28"
definition INT_VECTOR_SYS_CALL :: nat where [simp, const_simps]: "INT_VECTOR_SYS_CALL = 0x90"
definition PRIVILEGE_KRNL :: u8 where [const_simps]: "PRIVILEGE_KRNL = 0"
definition PRIVILEGE_USER :: u8 where [const_simps]: "PRIVILEGE_USER = 3"
definition INDEX_TSS :: nat where [simp, const_simps]: "INDEX_TSS = 4"
definition INDEX_LDT_FIRST :: nat where [simp, const_simps]: "INDEX_LDT_FIRST = 5"
definition DA_LDT :: u16 where [const_simps]: "DA_LDT = 0x82"
definition DA_386TSS :: u16 where [const_simps]: "DA_386TSS = 0x89"
definition GDT_SIZE :: nat where [simp, const_simps]: "GDT_SIZE = 128"
definition IDT_SIZE :: nat where [simp, const_simps]: "IDT_SIZE = 256"

section \<open>The controllers\<close>

text \<open>\<open>icw\<close> counts the initialisation words still expected; \<open>imr\<close> is the interrupt mask.\<close>

record pic =
  icw :: nat
  vector_base :: u8
  cascade :: u8
  imr :: u8

definition pic_cmd :: "u8 \<Rightarrow> pic \<Rightarrow> pic" where
  "pic_cmd b p = (if bit b 4 then p\<lparr>icw := 3, imr := 0\<rparr> else p)"

definition pic_data :: "u8 \<Rightarrow> pic \<Rightarrow> pic" where
  "pic_data b p =
     (if icw p = 3 then p\<lparr>icw := 2, vector_base := b AND 0xF8\<rparr>
      else if icw p = 2 then p\<lparr>icw := 1, cascade := b\<rparr>
      else if icw p = 1 then p\<lparr>icw := 0\<rparr>
      else p\<lparr>imr := b\<rparr>)"

text \<open>The functions whose addresses the kernel puts into \<^verbatim>\<open>irq_table\<close>.\<close>

datatype irq_handler = SpuriousIrq | ClockHandler | KeyboardHandler | HdHandler

record irqs =
  master :: pic
  slave :: pic
  timer_out :: "(u16 \<times> u8) list"
  irq_table :: "irq_handler list"

definition out_byte :: "u16 \<Rightarrow> u8 \<Rightarrow> irqs \<Rightarrow> irqs" where
  "out_byte port b s =
     (if port = INT_M_CTL then s\<lparr>master := pic_cmd b (master s)\<rparr>
      else if port = INT_M_CTLMASK then s\<lparr>master := pic_data b (master s)\<rparr>
      else if port = INT_S_CTL then s\<lparr>slave := pic_cmd b (slave s)\<rparr>
      else if port = INT_S_CTLMASK then s\<lparr>slave := pic_data b (slave s)\<rparr>
      else s\<lparr>timer_out := timer_out s @ [(port, b)]\<rparr>)"

definition init_8259A_bytes :: "(u16 \<times> u8) list" where
  "init_8259A_bytes = [(INT_M_CTL, 0x11), (INT_S_CTL, 0x11), (INT_M_CTLMASK, of_nat INT_VECTOR_IRQ0), (INT_S_CTLMASK, of_nat INT_VECTOR_IRQ8),
     (INT_M_CTLMASK, 0x4), (INT_S_CTLMASK, 0x2), (INT_M_CTLMASK, 0x1), (INT_S_CTLMASK, 0x1), (INT_M_CTLMASK, 0xFE), (INT_S_CTLMASK, 0xFF)]"

definition init_8259A :: "irqs \<Rightarrow> irqs" where
  "init_8259A s = (fold (\<lambda>(port, b). out_byte port b) init_8259A_bytes s)\<lparr>irq_table := replicate NR_IRQ SpuriousIrq\<rparr>"

text \<open>
  \<open>rol\<close> of a byte that has one bit, or all but one bit, set: the bit of the line in its controller.
\<close>

definition line_bit :: "nat \<Rightarrow> u8" where
  "line_bit irq = push_bit (irq mod 8) 1"

definition disable_irq :: "nat \<Rightarrow> irqs \<Rightarrow> irqs" where
  "disable_irq irq s =
     (if irq < 8 then
        if imr (master s) AND line_bit irq \<noteq> 0 then s else out_byte INT_M_CTLMASK (imr (master s) OR line_bit irq) s
      else
        if imr (slave s) AND line_bit irq \<noteq> 0 then s else out_byte INT_S_CTLMASK (imr (slave s) OR line_bit irq) s)"

definition enable_irq :: "nat \<Rightarrow> irqs \<Rightarrow> irqs" where
  "enable_irq irq s =
     (if irq < 8 then out_byte INT_M_CTLMASK (imr (master s) AND NOT (line_bit irq)) s
      else out_byte INT_S_CTLMASK (imr (slave s) AND NOT (line_bit irq)) s)"

definition put_irq_handler :: "nat \<Rightarrow> irq_handler \<Rightarrow> irqs \<Rightarrow> irqs res" where
  "put_irq_handler irq handler s =
     (let s1 = disable_irq irq s in
      if irq < NR_IRQ then Inr (s1\<lparr>irq_table := (irq_table s1)[irq := handler]\<rparr>) else Inl (BadAccess ''irq_table''))"

section \<open>Who installs handlers\<close>

definition init_clock :: "irqs \<Rightarrow> irqs res" where
  "init_clock s =
     (let s1 = out_byte TIMER_MODE RATE_GENERATOR s;
          s2 = out_byte TIMER0 (word_of_int (TIMER_FREQ sdiv HZ)) s1;
          s3 = out_byte TIMER0 (word_of_int (drop_bit 8 (TIMER_FREQ sdiv HZ))) s2 in
      res_bind (put_irq_handler CLOCK_IRQ ClockHandler s3) (\<lambda>s4. Inr (enable_irq CLOCK_IRQ s4)))"

text \<open>The last two lines of \<^verbatim>\<open>init_keyboard\<close> and the part of \<^verbatim>\<open>init_hd\<close> that deals with interrupts.\<close>

definition keyboard_irq :: "irqs \<Rightarrow> irqs res" where
  "keyboard_irq s = res_bind (put_irq_handler KEYBOARD_IRQ KeyboardHandler s) (\<lambda>s1. Inr (enable_irq KEYBOARD_IRQ s1))"

definition hd_irq :: "irqs \<Rightarrow> irqs res" where
  "hd_irq s = res_bind (put_irq_handler AT_WINI_IRQ HdHandler s) (\<lambda>s1. Inr (enable_irq AT_WINI_IRQ (enable_irq CASCADE_IRQ s1)))"

section \<open>The descriptor tables\<close>

text \<open>The gates of \<^verbatim>\<open>init_prot\<close>: vector, entry point, privilege.\<close>

definition idt_gates :: "(nat \<times> string \<times> u8) list" where
  "idt_gates =
    [(0x0, ''divide_error'', PRIVILEGE_KRNL), (0x1, ''single_step_exception'', PRIVILEGE_KRNL), (0x2, ''nmi'', PRIVILEGE_KRNL),
     (0x3, ''breakpoint_exception'', PRIVILEGE_USER), (0x4, ''overflow'', PRIVILEGE_USER), (0x5, ''bounds_check'', PRIVILEGE_KRNL),
     (0x6, ''inval_opcode'', PRIVILEGE_KRNL), (0x7, ''copr_not_available'', PRIVILEGE_KRNL), (0x8, ''double_fault'', PRIVILEGE_KRNL),
     (0x9, ''copr_seg_overrun'', PRIVILEGE_KRNL), (0xA, ''inval_tss'', PRIVILEGE_KRNL), (0xB, ''segment_not_present'', PRIVILEGE_KRNL),
     (0xC, ''stack_exception'', PRIVILEGE_KRNL), (0xD, ''general_protection'', PRIVILEGE_KRNL), (0xE, ''page_fault'', PRIVILEGE_KRNL),
     (0x10, ''copr_error'', PRIVILEGE_KRNL),
     (INT_VECTOR_IRQ0 + 0, ''hwint00'', PRIVILEGE_KRNL), (INT_VECTOR_IRQ0 + 1, ''hwint01'', PRIVILEGE_KRNL),
     (INT_VECTOR_IRQ0 + 2, ''hwint02'', PRIVILEGE_KRNL), (INT_VECTOR_IRQ0 + 3, ''hwint03'', PRIVILEGE_KRNL),
     (INT_VECTOR_IRQ0 + 4, ''hwint04'', PRIVILEGE_KRNL), (INT_VECTOR_IRQ0 + 5, ''hwint05'', PRIVILEGE_KRNL),
     (INT_VECTOR_IRQ0 + 6, ''hwint06'', PRIVILEGE_KRNL), (INT_VECTOR_IRQ0 + 7, ''hwint07'', PRIVILEGE_KRNL),
     (INT_VECTOR_IRQ8 + 0, ''hwint08'', PRIVILEGE_KRNL), (INT_VECTOR_IRQ8 + 1, ''hwint09'', PRIVILEGE_KRNL),
     (INT_VECTOR_IRQ8 + 2, ''hwint10'', PRIVILEGE_KRNL), (INT_VECTOR_IRQ8 + 3, ''hwint11'', PRIVILEGE_KRNL),
     (INT_VECTOR_IRQ8 + 4, ''hwint12'', PRIVILEGE_KRNL), (INT_VECTOR_IRQ8 + 5, ''hwint13'', PRIVILEGE_KRNL),
     (INT_VECTOR_IRQ8 + 6, ''hwint14'', PRIVILEGE_KRNL), (INT_VECTOR_IRQ8 + 7, ''hwint15'', PRIVILEGE_KRNL),
     (INT_VECTOR_SYS_CALL, ''sys_call'', PRIVILEGE_USER)]"

definition init_idt :: "(string \<Rightarrow> u32) \<Rightarrow> gate list \<Rightarrow> gate list" where
  "init_idt addr idt = fold (\<lambda>(v, h, priv) t. t[v := init_idt_desc DA_386IGate (addr h) priv]) idt_gates idt"

text \<open>
  The task state segment as \<^verbatim>\<open>struct tss\<close> lays it out, 24 words and two halfwords; only the two fields the code sets are
  kept here.
\<close>

definition TSS_SIZE :: nat where [simp]: "TSS_SIZE = 24 * 4 + 2 * 2"

record tss =
  ss0 :: u32
  iobase :: u16

record prot =
  prot_gdt :: "descriptor list"
  prot_idt :: "gate list"
  prot_tss :: tss
  prot_procs :: "proc list"

text \<open>
  The loop over the process table; \<open>ldts_addr\<close> gives the address of \<^verbatim>\<open>proc_table[i].ldts\<close>.
\<close>

primrec init_ldt_descs :: "(nat \<Rightarrow> u32) \<Rightarrow> nat list \<Rightarrow> descriptor list \<Rightarrow> descriptor list res" where
  "init_ldt_descs ldts_addr [] g = Inr g"
| "init_ldt_descs ldts_addr (i # is) g =
     kassert (INDEX_LDT_FIRST + i < GDT_SIZE) ''init_prot: GDT_SIZE'' (
     init_ldt_descs ldts_addr is
       (g[INDEX_LDT_FIRST + i := init_descriptor (makelinear g SELECTOR_KERNEL_DS (ldts_addr i)) (of_nat (LDT_SIZE * 8 - 1)) DA_LDT]))"

definition init_prot :: "(string \<Rightarrow> u32) \<Rightarrow> u32 \<Rightarrow> (nat \<Rightarrow> u32) \<Rightarrow> irqs \<times> prot \<Rightarrow> (irqs \<times> prot) res" where
  "init_prot addr tss_addr ldts_addr s =
     (let s1 = init_8259A (fst s); p = snd s; g = prot_gdt p;
          g1 = g[INDEX_TSS := init_descriptor (makelinear g (ucast (seg2phys g SELECTOR_KERNEL_DS)) tss_addr) (of_nat (TSS_SIZE - 1)) DA_386TSS] in
      res_bind (init_ldt_descs ldts_addr [0..<NR_TASKS + NR_PROCS] g1) (\<lambda>g2.
      Inr (s1, p\<lparr>prot_gdt := g2, prot_idt := init_idt addr (prot_idt p), prot_tss := \<lparr>ss0 = ucast SELECTOR_KERNEL_DS, iobase = of_nat TSS_SIZE\<rparr>,
                prot_procs := init_prot_procs\<rparr>)))"

text \<open>
  \<^verbatim>\<open>cstart\<close>: the loader's GDT, whose limit is \<open>old_limit\<close>, is copied over the first bytes of the kernel's, and \<^verbatim>\<open>gdt_ptr\<close> and
  \<^verbatim>\<open>idt_ptr\<close> are set. The copy is of whole descriptors when the limit is one less than a multiple of eight, as the loader has it.
\<close>

definition cstart :: "(string \<Rightarrow> u32) \<Rightarrow> u32 \<Rightarrow> (nat \<Rightarrow> u32) \<Rightarrow> descriptor list \<Rightarrow> irqs \<times> prot \<Rightarrow> ((u16 \<times> u16) \<times> irqs \<times> prot) res" where
  "cstart addr tss_addr ldts_addr old_gdt s =
     (let p = snd s in
      if length old_gdt > length (prot_gdt p) then Inl (BadAccess ''cstart: memcpy'')
      else
        res_bind (init_prot addr tss_addr ldts_addr (fst s, p\<lparr>prot_gdt := old_gdt @ drop (length old_gdt) (prot_gdt p)\<rparr>)) (\<lambda>s'.
        Inr ((of_nat (GDT_SIZE * 8 - 1), of_nat (IDT_SIZE * 8 - 1)), s')))"

section \<open>Controllers and masks\<close>

definition line_enabled :: "nat \<Rightarrow> irqs \<Rightarrow> bool" where
  "line_enabled n s \<longleftrightarrow> (if n < 8 then \<not> bit (imr (master s)) n else \<not> bit (imr (slave s)) (n - 8) \<and> \<not> bit (imr (master s)) CASCADE_IRQ)"

text \<open>The vector the processor gets for a line.\<close>

definition irq_vector :: "nat \<Rightarrow> irqs \<Rightarrow> nat" where
  "irq_vector n s = (if n < 8 then unat (vector_base (master s)) + n else unat (vector_base (slave s)) + (n - 8))"

text \<open>A state in which both controllers have been initialised.\<close>

definition pics_ready :: "irqs \<Rightarrow> bool" where
  "pics_ready s \<longleftrightarrow> icw (master s) = 0 \<and> icw (slave s) = 0"

lemma init_8259A_state:
  "pics_ready (init_8259A s)" "vector_base (master (init_8259A s)) = 0x20" "vector_base (slave (init_8259A s)) = 0x28"
  "imr (master (init_8259A s)) = 0xFE" "imr (slave (init_8259A s)) = 0xFF" "irq_table (init_8259A s) = replicate NR_IRQ SpuriousIrq"
  "timer_out (init_8259A s) = timer_out s"
  by (simp_all add: init_8259A_def init_8259A_bytes_def out_byte_def pic_cmd_def pic_data_def pics_ready_def const_simps)

lemma out_mask:
  assumes "pics_ready s"
  shows "out_byte INT_M_CTLMASK b s = s\<lparr>master := (master s)\<lparr>imr := b\<rparr>\<rparr>" "out_byte INT_S_CTLMASK b s = s\<lparr>slave := (slave s)\<lparr>imr := b\<rparr>\<rparr>"
  using assms by (simp_all add: out_byte_def pic_data_def pics_ready_def const_simps)

text \<open>Changing the mask of the controller of a line.\<close>

definition set_line :: "nat \<Rightarrow> (u8 \<Rightarrow> u8) \<Rightarrow> irqs \<Rightarrow> irqs" where
  "set_line irq f s =
     (if irq < 8 then s\<lparr>master := (master s)\<lparr>imr := f (imr (master s))\<rparr>\<rparr> else s\<lparr>slave := (slave s)\<lparr>imr := f (imr (slave s))\<rparr>\<rparr>)"

lemma pics_ready_simps [simp]:
  "pics_ready (set_line irq f s) = pics_ready s" "pics_ready (s\<lparr>irq_table := t\<rparr>) = pics_ready s" "pics_ready (s\<lparr>timer_out := l\<rparr>) = pics_ready s"
  by (simp_all add: pics_ready_def set_line_def)

lemma mask_set: "m AND line_bit irq \<noteq> 0 \<Longrightarrow> m OR line_bit irq = m"
proof -
  assume "m AND line_bit irq \<noteq> 0"
  then have "bit m (irq mod 8)" by (rule contrapos_np) (auto intro!: bit_eqI simp: line_bit_def bit_simps)
  then show ?thesis by (auto intro!: bit_eqI simp: line_bit_def bit_simps)
qed

lemma put_irq_ok:
  assumes "pics_ready s" and "irq < NR_IRQ"
  shows "put_irq_handler irq h s = Inr ((set_line irq (\<lambda>m. m OR line_bit irq) s)\<lparr>irq_table := (irq_table s)[irq := h]\<rparr>)"
  using assms out_mask [OF assms(1)] mask_set [of "imr (master s)" irq] mask_set [of "imr (slave s)" irq]
  by (auto simp: put_irq_handler_def disable_irq_def set_line_def Let_def)

lemma enable_irq_ok: "pics_ready s \<Longrightarrow> enable_irq irq s = set_line irq (\<lambda>m. m AND NOT (line_bit irq)) s"
  using out_mask [of s] by (simp add: enable_irq_def set_line_def)

text \<open>The three drivers after each other, on freshly initialised controllers.\<close>

definition install_handlers :: "irqs \<Rightarrow> irqs res" where
  "install_handlers s = res_bind (init_clock s) (\<lambda>s1. res_bind (keyboard_irq s1) hd_irq)"

lemma install_handlers_ok:
  "\<exists>s'. install_handlers (init_8259A s) = Inr s' \<and> imr (master s') = 0xF8 \<and> imr (slave s') = 0xBF
    \<and> vector_base (master s') = 0x20 \<and> vector_base (slave s') = 0x28
    \<and> irq_table s' = (replicate NR_IRQ SpuriousIrq)[CLOCK_IRQ := ClockHandler, KEYBOARD_IRQ := KeyboardHandler, AT_WINI_IRQ := HdHandler]
    \<and> timer_out s' = timer_out s @ [(TIMER_MODE, RATE_GENERATOR), (TIMER0, 0x9B), (TIMER0, 0x2E)]"
proof -
  define s3 where "s3 = (init_8259A s)\<lparr>timer_out := timer_out s @ [(TIMER_MODE, RATE_GENERATOR), (TIMER0, 11931), (TIMER0, 0x2E)]\<rparr>"
  have "(1193182 :: int) sdiv 100 = 11931" by (simp add: signed_divide_int_def)
  then have c: "init_clock (init_8259A s) = res_bind (put_irq_handler CLOCK_IRQ ClockHandler s3) (\<lambda>s4. Inr (enable_irq CLOCK_IRQ s4))"
    using init_8259A_state(7) [of s] by (simp add: init_clock_def s3_def out_byte_def const_simps drop_bit_eq_div Let_def)
  have r: "pics_ready s3" using init_8259A_state(1) [of s] by (simp add: s3_def)
  then show ?thesis
    unfolding install_handlers_def c using init_8259A_state [of s]
    by (simp add: put_irq_ok enable_irq_ok keyboard_irq_def hd_irq_def) (simp add: set_line_def s3_def line_bit_def push_bit_eq_mult)
qed

section \<open>Gates and descriptors\<close>

definition gate_offset :: "gate \<Rightarrow> u32" where
  "gate_offset g = push_bit 16 (ucast (offset_high g)) OR ucast (offset_low g)"

text \<open>The privilege level from which a gate may be called.\<close>

definition gate_dpl :: "gate \<Rightarrow> u8" where
  "gate_dpl g = take_bit 2 (drop_bit 5 (attr g))"

lemma gate_offset_init [simp]: "gate_offset (init_idt_desc ty base priv) = base"
proof (rule bit_word_eqI)
  fix n assume "n < LENGTH(32)"
  then have "n < 16 \<or> 16 \<le> n \<and> n < 32" by auto
  then show "bit (gate_offset (init_idt_desc ty base priv)) n = bit base n"
    by (auto simp: gate_offset_def init_idt_desc_def mask_simps bit_simps)
qed

lemma gate_dpl_init: "gate_dpl (init_idt_desc DA_386IGate base PRIVILEGE_KRNL) = 0" "gate_dpl (init_idt_desc DA_386IGate base PRIVILEGE_USER) = 3"
  by (simp_all add: gate_dpl_def init_idt_desc_def const_simps push_bit_eq_mult drop_bit_eq_div take_bit_eq_mod)

lemma fold_updates:
  "distinct (map fst es) \<Longrightarrow> \<forall>e \<in> set es. fst e < length t \<Longrightarrow>
    fold (\<lambda>(v, h, priv) t. t[v := init_idt_desc DA_386IGate (addr h) priv]) es t ! v
      = (case map_of es v of None \<Rightarrow> t ! v | Some (h, priv) \<Rightarrow> init_idt_desc DA_386IGate (addr h) priv)
    \<and> length (fold (\<lambda>(v, h, priv) t. t[v := init_idt_desc DA_386IGate (addr h) priv]) es t) = length t"
proof (induction es arbitrary: t)
  case (Cons e es)
  obtain a h priv where e: "e = (a, h, priv)" by (cases e)
  have "map_of es a = None" using Cons.prems(1) e by (simp add: map_of_eq_None_iff)
  then show ?case using Cons.IH [of "t[a := init_idt_desc DA_386IGate (addr h) priv]"] Cons.prems e by (cases "v = a") (simp_all split: option.split)
qed simp

lemma idt_gates_distinct: "distinct (map fst idt_gates)" "\<forall>e \<in> set idt_gates. fst e < 256"
  by (simp_all add: idt_gates_def)

lemma init_idt_nth:
  assumes "length idt = IDT_SIZE"
  shows "init_idt addr idt ! v = (case map_of idt_gates v of None \<Rightarrow> idt ! v | Some (h, priv) \<Rightarrow> init_idt_desc DA_386IGate (addr h) priv)"
  using fold_updates [OF idt_gates_distinct(1), of idt addr v] idt_gates_distinct(2) assms by (simp add: init_idt_def)

definition hwint_names :: "string list" where
  "hwint_names = [''hwint00'', ''hwint01'', ''hwint02'', ''hwint03'', ''hwint04'', ''hwint05'', ''hwint06'', ''hwint07'',
     ''hwint08'', ''hwint09'', ''hwint10'', ''hwint11'', ''hwint12'', ''hwint13'', ''hwint14'', ''hwint15'']"

lemma irq_gates: "n < 16 \<Longrightarrow> map_of idt_gates (0x20 + n) = Some (hwint_names ! n, PRIVILEGE_KRNL)"
proof -
  have "\<forall>n \<in> set [0..<16]. map_of idt_gates (0x20 + n) = Some (hwint_names ! n, PRIVILEGE_KRNL)"
    by (simp add: idt_gates_def hwint_names_def upt_conv_Cons)
  then show "n < 16 \<Longrightarrow> ?thesis" by simp
qed

lemma user_gates: "map_of idt_gates v = Some (h, priv) \<Longrightarrow> priv = (if v \<in> {3, 4, INT_VECTOR_SYS_CALL} then PRIVILEGE_USER else PRIVILEGE_KRNL)"
proof -
  have "\<forall>(v, h, priv) \<in> set idt_gates. priv = (if v \<in> {3, 4, INT_VECTOR_SYS_CALL} then PRIVILEGE_USER else PRIVILEGE_KRNL)"
    by (simp add: idt_gates_def)
  moreover assume "map_of idt_gates v = Some (h, priv)"
  ultimately show ?thesis using map_of_SomeD by fastforce
qed

lemma user_gates_present: "v \<in> {3, 4, INT_VECTOR_SYS_CALL} \<Longrightarrow> map_of idt_gates v \<noteq> None"
  by (auto simp: idt_gates_def)

text \<open>Which bits are clear in the two masks.\<close>

lemma irq_masks:
  assumes "n < 16"
  shows "(if n < 8 then \<not> bit (0xF8 :: u8) n else \<not> bit (0xBF :: u8) (n - 8) \<and> \<not> bit (0xF8 :: u8) 2) \<longleftrightarrow> n \<in> {0, 1, 2, 14}"
proof -
  have "\<forall>n \<in> set [0..<16]. (if n < 8 then \<not> bit (0xF8 :: u8) n else \<not> bit (0xBF :: u8) (n - 8) \<and> \<not> bit (0xF8 :: u8) 2) \<longleftrightarrow> n \<in> {0, 1, 2, 14}"
    by code_simp
  then show ?thesis using assms by simp
qed

lemma init_ldt_descs_ok:
  assumes "length g = GDT_SIZE" and "\<forall>i \<in> set is. i < 123" and "distinct is"
  shows "\<exists>g'. init_ldt_descs la is g = Inr g' \<and> length g' = GDT_SIZE
    \<and> (\<forall>j. g' ! j = (if 5 \<le> j \<and> j - 5 \<in> set is then init_descriptor (seg2phys g SELECTOR_KERNEL_DS + la (j - 5)) 15 DA_LDT else g ! j))"
  using assms
proof (induction "is" arbitrary: g)
  case (Cons i rest)
  let ?g = "g[5 + i := init_descriptor (seg2phys g SELECTOR_KERNEL_DS + la i) 15 DA_LDT]"
  have ds: "seg2phys ?g SELECTOR_KERNEL_DS = seg2phys g SELECTOR_KERNEL_DS" by (simp add: seg2phys_def const_simps drop_bit_eq_div)
  obtain g' where "init_ldt_descs la rest ?g = Inr g'" "length g' = GDT_SIZE"
    "\<forall>j. g' ! j = (if 5 \<le> j \<and> j - 5 \<in> set rest then init_descriptor (seg2phys ?g SELECTOR_KERNEL_DS + la (j - 5)) 15 DA_LDT else ?g ! j)"
    using Cons.IH [of ?g] Cons.prems by auto
  then show ?case using Cons.prems unfolding ds by (auto simp: makelinear_def nth_list_update)
qed simp

lemma ldt_selector: "i < 100 \<Longrightarrow> unat (drop_bit 3 (SELECTOR_LDT_FIRST + push_bit 3 (of_nat i))) = 5 + i"
proof -
  assume i: "i < 100"
  have "SELECTOR_LDT_FIRST + push_bit 3 (of_nat i) = of_nat (40 + i * 8)" by (simp add: const_simps push_bit_eq_mult)
  moreover have "unat (of_nat (40 + i * 8) :: u16) = 40 + i * 8" using i by (simp add: unsigned_of_nat take_bit_nat_eq_self del: of_nat_add of_nat_mult)
  ultimately show ?thesis by (simp add: unsigned_drop_bit_eq drop_bit_eq_div unat_div)
qed

text \<open>
  C27: Interrupts are routed to their handlers. After \<^verbatim>\<open>init_prot\<close> and the start of the three drivers, on a machine with a flat
  kernel data segment: a request on line \<open>n\<close> reaches the processor exactly for the clock, the keyboard, the cascade and the first hard disk; its vector
  has an interrupt gate to the entry point \<^verbatim>\<open>hwint\<close>\<open>n\<close>, which jumps through \<^verbatim>\<open>irq_table[n]\<close>, and there stands the
  handler of that driver; a process of privilege 3 may call no gate but those of breakpoint, overflow and the system call; the
  selector of every process' LDT finds a descriptor with the address of that table; and the timer divides its clock by 11931.
\<close>

theorem interrupts_routed:
  assumes "length (prot_idt p) = IDT_SIZE" and "\<forall>v < IDT_SIZE. gate_dpl (prot_idt p ! v) = 0" and "length (prot_gdt p) = GDT_SIZE"
    and "seg2phys (prot_gdt p) SELECTOR_KERNEL_DS = 0" and "seg2phys (prot_gdt p) 0 = 0"
  shows "\<exists>s1 p' s'. init_prot addr tss_addr ldts_addr (s, p) = Inr (s1, p') \<and> install_handlers s1 = Inr s'
    \<and> (\<forall>n < NR_IRQ. line_enabled n s' \<longleftrightarrow> n \<in> {CLOCK_IRQ, KEYBOARD_IRQ, CASCADE_IRQ, AT_WINI_IRQ})
    \<and> (\<forall>n < NR_IRQ. gate_offset (prot_idt p' ! irq_vector n s') = addr (hwint_names ! n))
    \<and> irq_table s' ! CLOCK_IRQ = ClockHandler \<and> irq_table s' ! KEYBOARD_IRQ = KeyboardHandler \<and> irq_table s' ! AT_WINI_IRQ = HdHandler
    \<and> (\<forall>v < IDT_SIZE. gate_dpl (prot_idt p' ! v) = 3 \<longleftrightarrow> v \<in> {3, 4, INT_VECTOR_SYS_CALL})
    \<and> (\<forall>i < NR_TASKS + NR_PROCS. seg2phys (prot_gdt p') (ldt_sel (prot_procs p' ! i)) = ldts_addr i)
    \<and> descriptor_base (prot_gdt p' ! INDEX_TSS) = tss_addr
    \<and> timer_out s' = timer_out s @ [(TIMER_MODE, RATE_GENERATOR), (TIMER0, 0x9B), (TIMER0, 0x2E)]"
proof -
  let ?s1 = "init_8259A s" and ?g = "(prot_gdt p)[4 := init_descriptor tss_addr 99 DA_386TSS]"
  obtain s' where s': "install_handlers ?s1 = Inr s'" "imr (master s') = 0xF8" "imr (slave s') = 0xBF" "vector_base (master s') = 0x20"
    "vector_base (slave s') = 0x28" "irq_table s' = (replicate NR_IRQ SpuriousIrq)[CLOCK_IRQ := ClockHandler, KEYBOARD_IRQ := KeyboardHandler, AT_WINI_IRQ := HdHandler]"
    "timer_out s' = timer_out s @ [(TIMER_MODE, RATE_GENERATOR), (TIMER0, 0x9B), (TIMER0, 0x2E)]" using install_handlers_ok by blast
  have ds: "seg2phys ?g SELECTOR_KERNEL_DS = 0" using assms(4) by (simp add: seg2phys_def const_simps drop_bit_eq_div)
  obtain g' where g': "init_ldt_descs ldts_addr [0..<37] ?g = Inr g'" "\<forall>j. g' ! j = (if 5 \<le> j \<and> j - 5 < 37 then init_descriptor (ldts_addr (j - 5)) 15 DA_LDT else ?g ! j)"
    using init_ldt_descs_ok [of ?g "[0..<37]" ldts_addr] assms(3) ds by auto
  let ?p = "p\<lparr>prot_gdt := g', prot_idt := init_idt addr (prot_idt p), prot_tss := \<lparr>ss0 = ucast SELECTOR_KERNEL_DS, iobase = of_nat TSS_SIZE\<rparr>, prot_procs := init_prot_procs\<rparr>"
  have run: "init_prot addr tss_addr ldts_addr (s, p) = Inr (?s1, ?p)"
    using g'(1) assms(4,5) by (simp add: init_prot_def Let_def makelinear_def)
  have "line_enabled n s' \<longleftrightarrow> n \<in> {CLOCK_IRQ, KEYBOARD_IRQ, CASCADE_IRQ, AT_WINI_IRQ}" if "n < NR_IRQ" for n
    using irq_masks [of n] that unfolding line_enabled_def s'(2,3) NR_IRQ_def CLOCK_IRQ_def KEYBOARD_IRQ_def CASCADE_IRQ_def AT_WINI_IRQ_def
    by blast
  moreover have "gate_offset (prot_idt ?p ! irq_vector n s') = addr (hwint_names ! n)" if "n < NR_IRQ" for n
  proof -
    have "irq_vector n s' = 0x20 + n" using s'(4,5) that by (simp add: irq_vector_def)
    then show ?thesis using init_idt_nth [OF assms(1), of addr "0x20 + n"] irq_gates [of n] that by simp
  qed
  moreover have "gate_dpl (prot_idt ?p ! v) = 3 \<longleftrightarrow> v \<in> {3, 4, INT_VECTOR_SYS_CALL}" if "v < IDT_SIZE" for v
    using init_idt_nth [OF assms(1), of addr v] user_gates [of v] user_gates_present [of v] assms(2) that
    by (auto simp: gate_dpl_init split: option.splits if_splits)
  moreover have "seg2phys (prot_gdt ?p) (ldt_sel (prot_procs ?p ! i)) = ldts_addr i" if "i < NR_TASKS + NR_PROCS" for i
    using that g'(2) ldt_selector [of i] by (simp add: seg2phys_def init_prot_procs_def zero_proc_def)
  moreover have "descriptor_base (prot_gdt ?p ! INDEX_TSS) = tss_addr" using g'(2) assms(3) by simp
  ultimately show ?thesis using run s' by (intro exI conjI) (assumption | simp)+
qed

definition flat_prot :: prot where
  "flat_prot = \<lparr>prot_gdt = replicate GDT_SIZE zero_descriptor, prot_idt = replicate IDT_SIZE \<lparr>offset_low = 0, selector = 0, dcount = 0, attr = 0, offset_high = 0\<rparr>,
     prot_tss = \<lparr>ss0 = 0, iobase = 0\<rparr>, prot_procs = []\<rparr>"

definition reset_irqs :: irqs where
  "reset_irqs = \<lparr>master = \<lparr>icw = 0, vector_base = 0, cascade = 0, imr = 0\<rparr>, slave = \<lparr>icw = 0, vector_base = 0, cascade = 0, imr = 0\<rparr>,
     timer_out = [], irq_table = []\<rparr>"

lemma interrupts_routed_witness:
  "\<exists>s1 p' s'. init_prot (\<lambda>h. of_nat (length h)) 0x5000 (\<lambda>i. 0x6000 + of_nat i) (reset_irqs, flat_prot) = Inr (s1, p')
    \<and> install_handlers s1 = Inr s' \<and> irq_table s' ! AT_WINI_IRQ = HdHandler"
proof -
  have "seg2phys (prot_gdt flat_prot) SELECTOR_KERNEL_DS = 0" "seg2phys (prot_gdt flat_prot) 0 = 0"
    by (simp_all add: flat_prot_def seg2phys_def zero_descriptor_def descriptor_base_def const_simps drop_bit_eq_div)
  moreover have "length (prot_idt flat_prot) = IDT_SIZE" "\<forall>v < IDT_SIZE. gate_dpl (prot_idt flat_prot ! v) = 0" "length (prot_gdt flat_prot) = GDT_SIZE"
    by (simp_all add: flat_prot_def gate_dpl_def)
  ultimately show ?thesis using interrupts_routed [where p = flat_prot and addr = "\<lambda>h. of_nat (length h)" and s = reset_irqs and ldts_addr = "\<lambda>i. 0x6000 + of_nat i" and tss_addr = "0x5000"] by blast
qed

end
