(* ===== verification/Message_Passing.thy ===== *)
theory Message_Passing
  imports Kernel_Steps
begin

text \<open>
  The properties of scheduling and message passing that a client of the kernel relies on, stated
  for the system call \<^verbatim>\<open>sys_sendrec\<close>, for \<^verbatim>\<open>inform_int\<close>, the scheduler and the clock, and for
  every reachable state.
\<close>

section \<open>Messages in memory\<close>

lemma disjoint_offset:
  assumes "n \<le> i" and "i + k \<le> 2 ^ 32"
  shows "disjoint_blocks a n (a + of_nat i) k"
proof -
  have False if "x < n" "y < k" "a + of_nat x = a + of_nat i + of_nat y" for x y
    using that assms of_nat_u32_inj [of x "i + y"] by (simp add: add.assoc)
  then show ?thesis by (auto simp: disjoint_blocks_def block_addrs_def)
qed

lemma read_u32_write_other:
  assumes "4 \<le> i" and "i + 4 \<le> 2 ^ 32"
  shows "read_u32 (write_u32 m a v) (a + of_nat i) = read_u32 m (a + of_nat i)"
  using read_write_bytes_other [of a "bytes_of_u32 v" "a + of_nat i" 4 m] disjoint_offset [of 4 i 4 a] assms
  by (simp add: read_u32_def write_u32_def)

lemma read_msg_stamp:
  assumes "is_cint v"
  shows "read_msg (write_int m a v) a = (read_msg m a)\<lparr>msg_source := v\<rparr>"
proof -
  have w: "read_u32 (write_int m a v) (a + of_nat i) = read_u32 m (a + of_nat i)" if "4 \<le> i" "i \<le> 44" for i
    using that read_u32_write_other [of i m a "word_of_int v"] by (simp add: write_int_def)
  show ?thesis
    using w [of 4] w [of 8] w [of 12] w [of 16] w [of 20] w [of 24] w [of 28] w [of 32] w [of 36]
      w [of 40] w [of 44] read_write_int [OF assms, of m a]
    by (simp add: read_msg_def read_int_def read_u64_def add.assoc)
qed

lemma pid_cint: "c < NR_TASKS + NR_PROCS \<Longrightarrow> is_cint (int c)"
  by (simp add: is_cint_def)

text \<open>A copied message reads the same at its new place.\<close>

lemma read_msg_copy:
  assumes "disjoint_blocks dst MESSAGE_SIZE src MESSAGE_SIZE"
  shows "read_msg (phys_copy m dst src MESSAGE_SIZE) dst = read_msg m src"
  using read_bytes_memcpy [OF assms] by (intro read_msg_cong) (simp add: phys_copy_def)

lemma linear_stamp [simp]: "linear (stamp k c m) i a = linear k i a"
  by (simp add: linear_def seg_base_def)

section \<open>Sending and receiving\<close>

text \<open>
  C1: SEND implements its specification. From a state of the kernel invariant, a ready process that
  sends to another process gets the panic of the deadlock check exactly when the destination is, through a
  chain of blocked senders, waiting for the caller; otherwise the call hands the message to a
  destination that accepts it, or appends the caller at the end of the destination's queue and
  schedules another process. No assertion fails. The call does not return only if no process can run.
\<close>

theorem sendrec_send_refines:
  assumes "kinv k" and "k_reenter k = 0" and "s < NR_TASKS + NR_PROCS" and "p_flags (proc_of k s) = 0"
    and "m \<noteq> 0" and "d < NR_TASKS + NR_PROCS" and "d \<noteq> s"
    and "has_flag (proc_of k d) RECEIVING \<longrightarrow> p_flags (proc_of k d) = RECEIVING"
  shows "case spec_send s d (abs_ipc k) of
      None \<Rightarrow> sys_sendrec SEND (int d) m s k = Inl (Panic ''>>DEADLOCK<<'')
    | Some \<sigma> \<Rightarrow> (\<exists>k'. sys_sendrec SEND (int d) m s k = Inr k' \<and> kinv k' \<and> abs_ipc k' = \<sigma>) \<or>
        sys_sendrec SEND (int d) m s k = Inl Spins \<and> nobody_runs k \<sigma>"
  using msg_send_correct [of "stamp k s m" s m d] assms
  unfolding sys_sendrec_send [OF assms(1,2,6,7)]
  by (auto simp: plain_receiver_def step_ok_def split: option.splits)

theorem sendrec_send_refines_witness:
  "case spec_send 5 6 (abs_ipc booted) of
      None \<Rightarrow> sys_sendrec SEND (int 6) 0x4000 5 booted = Inl (Panic ''>>DEADLOCK<<'')
    | Some \<sigma> \<Rightarrow> (\<exists>k'. sys_sendrec SEND (int 6) 0x4000 5 booted = Inr k' \<and> kinv k' \<and> abs_ipc k' = \<sigma>) \<or>
        sys_sendrec SEND (int 6) 0x4000 5 booted = Inl Spins \<and> nobody_runs booted \<sigma>"
  by (rule sendrec_send_refines) (simp_all add: booted_kinv booted_fresh booted_native flag_0)



section \<open>The message itself\<close>

lemma delivery:
  assumes "kinv k" and "k_reenter k = 0" and "s < NR_TASKS + NR_PROCS" and "p_flags (proc_of k s) = 0"
    and "m \<noteq> 0" and "d < NR_TASKS + NR_PROCS" and "d \<noteq> s"
    and recv: "p_flags (proc_of k d) = RECEIVING" "p_recvfrom (proc_of k d) = int s \<or> p_recvfrom (proc_of k d) = ANY"
    and disj: "disjoint_blocks (linear k d (p_msg (proc_of k d))) MESSAGE_SIZE (linear k s m) MESSAGE_SIZE"
  obtains k' where "sys_sendrec SEND (int d) m s k = Inr k'" "kinv k'"
    "proc_table k' = (proc_table k)[d := (proc_of k d)\<lparr>p_msg := 0, p_flags := 0, p_recvfrom := NO_TASK\<rparr>]"
    "k_reenter k' = k_reenter k" "p_proc_ready k' = p_proc_ready k"
    "read_msg (mem k') (linear k d (p_msg (proc_of k d))) = (read_msg (mem k) (linear k s m))\<lparr>msg_source := int s\<rparr>"
    "\<And>a. a \<notin> block_addrs (linear k d (p_msg (proc_of k d))) MESSAGE_SIZE \<Longrightarrow> a \<notin> block_addrs (linear k s m) 4 \<Longrightarrow> mem k' a = mem k a"
proof -
  let ?dst = "linear k d (p_msg (proc_of k d))" and ?src = "linear k s m"
  let ?k' = "delivered (stamp k s m) s d m"
  have plain: "plain_receiver (proc_of k d)" "accepts (status_of (proc_of k d)) s"
    using recv by (auto simp: plain_receiver_def accepts_def status_of_def flag_RECEIVING)
  have call: "sys_sendrec SEND (int d) m s k = Inr ?k'"
    using msg_send_delivers [of "stamp k s m" s m d] assms(1-7) plain
    unfolding sys_sendrec_send [OF assms(1,2,6,7)] by simp
  have inv: "kinv ?k'" by (rule delivered_spec(1)) (use assms(1,6) recv(1) in simp_all)
  have pt: "proc_table ?k' = (proc_table k)[d := (proc_of k d)\<lparr>p_msg := 0, p_flags := 0, p_recvfrom := NO_TASK\<rparr>]"
    using recv(1) by (simp add: delivered_def proc_table_upd_proc)
  have mem': "mem ?k' = phys_copy (write_int (mem k) ?src (int s)) ?dst ?src MESSAGE_SIZE"
    by (simp add: delivered_def) (simp add: stamp_def)
  have copied: "read_msg (mem ?k') ?dst = (read_msg (mem k) ?src)\<lparr>msg_source := int s\<rparr>"
    unfolding mem' read_msg_copy [OF disj] by (rule read_msg_stamp) (use assms(3) pid_cint in simp)
  have frame: "mem ?k' a = mem k a" if "a \<notin> block_addrs ?dst MESSAGE_SIZE" "a \<notin> block_addrs ?src 4" for a
    unfolding mem' phys_copy_def memcpy_outside [OF that(1)] write_int_def by (rule write_u32_outside [OF that(2)])
  have same: "k_reenter ?k' = k_reenter k" "p_proc_ready ?k' = p_proc_ready k" by (simp_all add: delivered_def)
  show thesis by (rule that [OF call inv pt same copied frame])
qed

text \<open>
  A SEND to a process that waits for it copies the whole message: the receiver finds it in its
  buffer with the sender's number as source, no other byte of memory changes apart from the source
  field of the sender's own copy, and the receiver is ready.
\<close>

theorem sendrec_send_copies:
  assumes "kinv k" and "k_reenter k = 0" and "s < NR_TASKS + NR_PROCS" and "p_flags (proc_of k s) = 0"
    and "m \<noteq> 0" and "d < NR_TASKS + NR_PROCS" and "d \<noteq> s"
    and recv: "p_flags (proc_of k d) = RECEIVING" "p_recvfrom (proc_of k d) = int s \<or> p_recvfrom (proc_of k d) = ANY"
    and disj: "disjoint_blocks (linear k d (p_msg (proc_of k d))) MESSAGE_SIZE (linear k s m) MESSAGE_SIZE"
  shows "\<exists>k'. sys_sendrec SEND (int d) m s k = Inr k' \<and>
    read_msg (mem k') (linear k d (p_msg (proc_of k d))) = (read_msg (mem k) (linear k s m))\<lparr>msg_source := int s\<rparr> \<and>
    (\<forall>a. a \<notin> block_addrs (linear k d (p_msg (proc_of k d))) MESSAGE_SIZE \<longrightarrow>
       a \<notin> block_addrs (linear k s m) 4 \<longrightarrow> mem k' a = mem k a) \<and>
    p_flags (proc_of k' d) = 0"
proof -
  obtain k' where k': "sys_sendrec SEND (int d) m s k = Inr k'"
    "proc_table k' = (proc_table k)[d := (proc_of k d)\<lparr>p_msg := 0, p_flags := 0, p_recvfrom := NO_TASK\<rparr>]"
    "read_msg (mem k') (linear k d (p_msg (proc_of k d))) = (read_msg (mem k) (linear k s m))\<lparr>msg_source := int s\<rparr>"
    "\<And>a. a \<notin> block_addrs (linear k d (p_msg (proc_of k d))) MESSAGE_SIZE \<Longrightarrow> a \<notin> block_addrs (linear k s m) 4 \<Longrightarrow> mem k' a = mem k a"
    using delivery [OF assms] by metis
  have "p_flags (proc_of k' d) = 0" using k'(2) assms(6) kinvD(2) [OF assms(1)] by simp
  with k' show ?thesis by blast
qed

text \<open>
  A RECEIVE that finds a waiting sender copies that sender's message to the receiver's buffer,
  the first of the queue for ANY, and leaves the rest of memory alone apart from the source field
  the kernel stamps into the receiver's buffer before.
\<close>

theorem sendrec_receive_copies:
  assumes "kinv k" and "k_reenter k = 0" and "r < NR_TASKS + NR_PROCS" and "p_flags (proc_of k r) = 0"
    and "m \<noteq> 0" and queue: "waiting (abs_ipc k) ! r = f # zs" and "has_int_msg (proc_of k r) = 0"
    and disj: "disjoint_blocks (linear k r m) MESSAGE_SIZE (linear k f (p_msg (proc_of k f))) MESSAGE_SIZE"
  shows "\<exists>k'. sys_sendrec RECEIVE ANY m r k = Inr k' \<and>
    read_msg (mem k') (linear k r m) = read_msg (mem k) (linear k f (p_msg (proc_of k f))) \<and>
    (\<forall>a. a \<notin> block_addrs (linear k r m) MESSAGE_SIZE \<longrightarrow> mem k' a = mem k a) \<and>
    waiting (abs_ipc k') ! r = zs \<and> p_flags (proc_of k' f) = 0"
proof -
  let ?dst = "linear k r m" and ?src = "linear k f (p_msg (proc_of k f))"
  let ?k = "stamp k r m" and ?k' = "taken (stamp k r m) r [] f m"
  have len: "length (proc_table k) = NR_TASKS + NR_PROCS" by (rule kinvD(2) [OF assms(1)])
  have split: "send_queue (proc_table ?k) r = [] @ f # zs" using queue assms(3) len by simp
  have call: "sys_sendrec RECEIVE ANY m r k = Inr ?k'"
    using msg_receive_takes [of ?k r m "[]" f zs ANY] sys_sendrec_receive [OF assms(1,2), of ANY r m]
      assms split by simp
  have mem': "mem ?k' = phys_copy (write_int (mem k) ?dst (int r)) ?dst ?src MESSAGE_SIZE"
    by (simp add: taken_def) (simp add: stamp_def)
  have sub: "block_addrs ?dst 4 \<subseteq> block_addrs ?dst MESSAGE_SIZE" by (auto simp: block_addrs_def)
  have same: "write_int (mem k) ?dst v a = mem k a" if "a \<notin> block_addrs ?dst MESSAGE_SIZE" for a v
    unfolding write_int_def by (rule write_u32_outside) (use that sub in blast)
  have "read_msg (mem ?k') ?dst = read_msg (write_int (mem k) ?dst (int r)) ?src"
    unfolding mem' by (rule read_msg_copy [OF disj])
  also have "\<dots> = read_msg (mem k) ?src"
    using disj same by (intro read_msg_cong read_bytes_cong) (auto simp: disjoint_blocks_def)
  finally have "read_msg (mem ?k') ?dst = read_msg (mem k) ?src" .
  moreover have "mem ?k' a = mem k a" if "a \<notin> block_addrs ?dst MESSAGE_SIZE" for a
    unfolding mem' phys_copy_def memcpy_outside [OF that] by (rule same [OF that])
  moreover have "waiting (abs_ipc ?k') ! r = zs"
    using taken_spec(2) [of ?k r "[]" f zs m] assms(1,3,4) split len by simp
  moreover have "p_flags (proc_of ?k' f) = 0"
    using taken_eq [of ?k r "[]" f zs m f] assms(1,3,4) split by simp
  ultimately show ?thesis using call by blast
qed

text \<open>A state in which SYS waits for anybody, and one in which INIT waits to send to SYS.\<close>

lemma booted_recv:
  "kinv (waits_for booted 1 ANY 0x3000)" "k_reenter (waits_for booted 1 ANY 0x3000) = 0"
  "proc_of (waits_for booted 1 ANY 0x3000) 1 =
     (proc_of booted 1)\<lparr>p_flags := RECEIVING, p_msg := 0x3000, p_recvfrom := ANY\<rparr>"
  "proc_of (waits_for booted 1 ANY 0x3000) 5 = proc_of booted 5"
  using waits_for_spec(1) [OF booted_kinv, of 1 "0x3000" ANY]
  by (simp_all add: booted_native booted_fresh waits_for_def)

lemma linear_native: "kinv k \<Longrightarrow> i < NR_TASKS + NR_NATIVE_PROCS \<Longrightarrow> linear k i a = a"
  by (simp add: linear_def kinv_def)

lemma blocks_3000_4000: "disjoint_blocks (0x3000 :: u32) 48 0x4000 48"
  using disjoint_offset [of 48 "0x1000" 48 "0x3000"] by simp

theorem sendrec_send_copies_witness:
  "\<exists>k'. sys_sendrec SEND (int 1) 0x4000 5 (waits_for booted 1 ANY 0x3000) = Inr k' \<and>
    read_msg (mem k') (linear (waits_for booted 1 ANY 0x3000) 1 (p_msg (proc_of (waits_for booted 1 ANY 0x3000) 1))) =
      (read_msg (mem (waits_for booted 1 ANY 0x3000)) (linear (waits_for booted 1 ANY 0x3000) 5 0x4000))\<lparr>msg_source := int 5\<rparr> \<and>
    (\<forall>a. a \<notin> block_addrs (linear (waits_for booted 1 ANY 0x3000) 1 (p_msg (proc_of (waits_for booted 1 ANY 0x3000) 1))) MESSAGE_SIZE \<longrightarrow>
       a \<notin> block_addrs (linear (waits_for booted 1 ANY 0x3000) 5 0x4000) 4 \<longrightarrow> mem k' a = mem (waits_for booted 1 ANY 0x3000) a) \<and>
    p_flags (proc_of k' 1) = 0"
  by (rule sendrec_send_copies)
    (use booted_recv blocks_3000_4000 in \<open>simp_all add: booted_native linear_native\<close>)

text \<open>INIT waits to send to SYS.\<close>

lemma booted_sent:
  "kinv (enqueued booted 5 1 0x4000)" "k_reenter (enqueued booted 5 1 0x4000) = 0"
  "waiting (abs_ipc (enqueued booted 5 1 0x4000)) ! 1 = [5]"
  "p_flags (proc_of (enqueued booted 5 1 0x4000) 1) = 0"
  "has_int_msg (proc_of (enqueued booted 5 1 0x4000) 1) = 0"
  "p_msg (proc_of (enqueued booted 5 1 0x4000) 5) = 0x4000"
proof -
  have edges: "(1, 5) \<notin> (send_edges (proc_table booted))\<^sup>+"
    using booted_native(1) [of 1] by (auto simp: send_edges_def flag_0 dest: tranclD)
  have queue: "send_queue (proc_table booted) 1 = []"
    by (rule fresh_ipc_inv(2)) (simp_all add: booted_fresh)
  note E = enqueued_spec [OF booted_kinv _ _ _ _ _ edges, of "0x4000"]
  show "kinv (enqueued booted 5 1 0x4000)" by (rule E(1)) (simp_all add: booted_native)
  show "k_reenter (enqueued booted 5 1 0x4000) = 0" by (simp add: enqueued_def Let_def booted_fresh)
  show "waiting (abs_ipc (enqueued booted 5 1 0x4000)) ! 1 = [5]"
    using enqueued_abs [OF booted_kinv _ _ _ _ _ edges, of "0x4000"] queue
    by (simp add: booted_native booted_fresh)
  show "p_flags (proc_of (enqueued booted 5 1 0x4000) 1) = 0"
    "has_int_msg (proc_of (enqueued booted 5 1 0x4000) 1) = 0"
    "p_msg (proc_of (enqueued booted 5 1 0x4000) 5) = 0x4000"
    using E(4) by (simp_all add: booted_native)
qed

theorem sendrec_receive_copies_witness:
  "\<exists>k'. sys_sendrec RECEIVE ANY 0x3000 1 (enqueued booted 5 1 0x4000) = Inr k' \<and>
    read_msg (mem k') (linear (enqueued booted 5 1 0x4000) 1 0x3000) =
      read_msg (mem (enqueued booted 5 1 0x4000)) (linear (enqueued booted 5 1 0x4000) 5 (p_msg (proc_of (enqueued booted 5 1 0x4000) 5))) \<and>
    (\<forall>a. a \<notin> block_addrs (linear (enqueued booted 5 1 0x4000) 1 0x3000) MESSAGE_SIZE \<longrightarrow>
       mem k' a = mem (enqueued booted 5 1 0x4000) a) \<and>
    waiting (abs_ipc k') ! 1 = [] \<and> p_flags (proc_of k' 5) = 0"
  by (rule sendrec_receive_copies)
    (use booted_sent blocks_3000_4000 in \<open>simp_all add: linear_native\<close>)

section \<open>Interrupts\<close>

text \<open>
  C22: a hardware interrupt either wakes a task that waits for it, with a HARD_INT message from
  INTERRUPT in the task's buffer, or is remembered for the task's next RECEIVE. It never blocks
  and fails no assertion.
\<close>

theorem inform_int_refines:
  assumes "kinv k" and "t < NR_TASKS + NR_PROCS"
    and "has_flag (proc_of k t) RECEIVING \<longrightarrow> p_flags (proc_of k t) = RECEIVING"
  shows "\<exists>k'. inform_int t k = Inr k' \<and> kinv k' \<and> abs_ipc k' = spec_interrupt t (abs_ipc k) \<and>
    (status (abs_ipc k) ! t \<in> {ReceivesFrom INTERRUPT, ReceivesFrom ANY} \<longrightarrow>
       msg_source (read_msg (mem k') (p_msg (proc_of k t))) = INTERRUPT \<and>
       msg_type (read_msg (mem k') (p_msg (proc_of k t))) = HARD_INT)"
proof -
  have plain: "plain_receiver (proc_of k t)" using assms(3) by (simp add: plain_receiver_def)
  have len: "t < length (proc_table k)" using assms(2) kinvD(2) [OF assms(1)] by simp
  let ?a = "p_msg (proc_of k t)"
  obtain k' where k': "inform_int t k = Inr k'" "step_ok k k' (spec_interrupt t (abs_ipc k))"
    using inform_int_correct [OF assms(1,2) plain] by blast
  have "msg_source (read_msg (mem k') ?a) = INTERRUPT \<and> msg_type (read_msg (mem k') ?a) = HARD_INT"
    if "status (abs_ipc k) ! t \<in> {ReceivesFrom INTERRUPT, ReceivesFrom ANY}"
  proof -
    have "mem k' = write_int (write_int (mem k) ?a INTERRUPT) (?a + 4) HARD_INT"
      using that k'(1) len status_of_receiving [OF plain]
      by (auto simp: inform_int_def Let_def res_simps)
    moreover have "read_int (write_int m (?a + 4) v) ?a = read_int m ?a" for m v
      using read_write_bytes_other [of "?a + 4" "bytes_of_u32 (word_of_int v)" ?a 4 m]
        disjoint_blocks_sym [OF disjoint_offset [of 4 4 4 ?a]]
      by (simp add: read_int_def write_int_def read_u32_def write_u32_def)
    ultimately show ?thesis by (simp add: read_msg_def read_write_int is_cint_def)
  qed
  with k' show ?thesis by (auto simp: step_ok_def)
qed

theorem inform_int_refines_witness:
  "\<exists>k'. inform_int 1 (waits_for booted 1 ANY 0x3000) = Inr k' \<and> kinv k' \<and>
    abs_ipc k' = spec_interrupt 1 (abs_ipc (waits_for booted 1 ANY 0x3000)) \<and>
    (status (abs_ipc (waits_for booted 1 ANY 0x3000)) ! 1 \<in> {ReceivesFrom INTERRUPT, ReceivesFrom ANY} \<longrightarrow>
       msg_source (read_msg (mem k') (p_msg (proc_of (waits_for booted 1 ANY 0x3000) 1))) = INTERRUPT \<and>
       msg_type (read_msg (mem k') (p_msg (proc_of (waits_for booted 1 ANY 0x3000) 1))) = HARD_INT)"
  by (rule inform_int_refines) (use booted_recv in simp_all)

section \<open>Every reachable state\<close>


lemma kstart_booted: "kstart booted"
proof -
  obtain k where k: "start_kernel loader_env (Inr (0, 0x1000, 0x8000, \<lambda>_. 0)) (\<lambda>_. 0) = Inr k"
    using start_kernel_fresh [OF loader_flat] by blast
  then have "booted = k" by (simp add: booted_def)
  with k loader_flat show ?thesis unfolding kstart_def flat_gdt_def by blast
qed



text \<open>The first step of a run: the TTY task sends to SYS and waits.\<close>

lemma booted_step:
  "\<exists>k'. kstep booted k' \<and> (0, 1) \<in> waits_on (abs_ipc k')"
proof -
  let ?\<sigma> = "(abs_ipc booted)\<lparr>status := (status (abs_ipc booted))[0 := SendsTo 1],
    waiting := (waiting (abs_ipc booted))[1 := waiting (abs_ipc booted) ! 1 @ [0]]\<rparr>"
  have st: "status (abs_ipc booted) ! i = Ready" if "i < NR_TASKS + NR_NATIVE_PROCS" for i
    using that booted_native(1) [OF that] by (simp add: booted_fresh status_of_def)
  have nodead: "(1, 0) \<notin> (waits_on (abs_ipc booted))\<^sup>+"
  proof
    assume "(1, 0) \<in> (waits_on (abs_ipc booted))\<^sup>+"
    then obtain j where "(1, j) \<in> waits_on (abs_ipc booted)" by (meson tranclD)
    then have "status (abs_ipc booted) ! 1 = SendsTo j" by (simp add: waits_on_def)
    with st [of 1] show False by simp
  qed
  then have spec: "spec_send 0 1 (abs_ipc booted) = Some ?\<sigma>"
    using st [of 1] by (simp add: spec_send_def accepts_def)
  have runs: "\<not> nobody_runs booted ?\<sigma>"
    using st [of 2] booted_native(5) [of 2] by (auto simp: nobody_runs_def booted_fresh intro!: exI [of _ 2])
  obtain k' where k': "msg_send (stamp booted 0 0x4000) 0 (int 1) 0x4000 = Inr k'" "abs_ipc k' = ?\<sigma>"
    using msg_send_correct [of "stamp booted 0 0x4000" 0 "0x4000" 1] spec runs
    by (auto simp: booted_kinv booted_native step_ok_def)
  then have "sys_sendrec SEND (int 1) 0x4000 (p_proc_ready booted) booted = Inr k'"
    using sys_sendrec_send [OF booted_kinv booted_fresh(1), of 1 0 "0x4000"] by (simp add: booted_fresh)
  then have "kstep booted k'" by (rule kstep.syscall [rotated]) simp
  moreover have "(0, 1) \<in> waits_on (abs_ipc k')"
    unfolding k'(2) by (simp add: waits_on_def booted_fresh)
  ultimately show ?thesis by blast
qed


section \<open>The scheduler and the clock\<close>

text \<open>
  C17: \<^verbatim>\<open>schedule\<close> returns exactly when some runnable process has ticks left or a positive
  priority, and then the process it makes current is runnable, has a positive number of ticks, at
  least as many as any other runnable process, and is the first such in the table.
\<close>

theorem schedule_best:
  "(case schedule k of
      Inl f \<Rightarrow> f = Spins \<and> (\<forall>p \<in> set (proc_table k). \<not> (p_flags p = 0 \<and> (p_ticks p > 0 \<or> priority p > 0)))
    | Inr k' \<Rightarrow> (\<exists>p \<in> set (proc_table k). p_flags p = 0 \<and> (p_ticks p > 0 \<or> priority p > 0)) \<and>
        best_choice (proc_table k') (p_proc_ready k'))"
proof (cases k rule: schedule_cases)
  case (refill r)
  then obtain i where i: "i < length (proc_table k)" "runnable (sched_refill (proc_table k) ! i)"
    "0 < p_ticks (sched_refill (proc_table k) ! i)" by (auto simp: best_choice_def)
  then have "runnable (proc_of k i)" "0 < priority (proc_of k i)" "proc_of k i \<in> set (proc_table k)"
    by (simp_all add: runnable_def split: if_splits)
  with refill show ?thesis by (auto simp: runnable_def)
qed (auto simp: runnable_def)

text \<open>
  \<^verbatim>\<open>schedule\<close> changes nothing but the current process and the tick counts it refills: a
  process is refilled, to its priority, only when it is runnable and no runnable process had ticks
  left.
\<close>

theorem schedule_frame:
  assumes "schedule k = Inr k'"
  shows "mem k' = mem k \<and> k_ticks k' = k_ticks k \<and> k_reenter k' = k_reenter k \<and>
    key_pressed k' = key_pressed k \<and> length (proc_table k') = length (proc_table k) \<and>
    (\<forall>i < length (proc_table k). proc_of k' i = proc_of k i \<or>
      p_flags (proc_of k i) = 0 \<and> proc_of k' i = (proc_of k i)\<lparr>p_ticks := priority (proc_of k i)\<rparr> \<and>
      (\<forall>p \<in> set (proc_table k). p_flags p = 0 \<longrightarrow> p_ticks p \<le> 0))"
  by (cases k rule: schedule_cases) (use assms in \<open>auto simp: runnable_def\<close>)

lemma booted_runs: "\<exists>p \<in> set (proc_table booted). runnable p \<and> 0 < p_ticks p"
  using booted_native(1,5) [of 0] nth_mem [of 0 "proc_table booted"] booted_fresh(4)
  by (auto simp: runnable_def)

theorem schedule_best_witness:
  "\<exists>k' :: kernel. schedule booted = Inr k' \<and> best_choice (proc_table k') (p_proc_ready k')"
  using schedule_best [of booted] booted_runs by (cases "schedule booted") (auto simp: runnable_def)

theorem schedule_frame_witness:
  "\<exists>k' :: kernel. mem k' = mem booted \<and> k_ticks k' = k_ticks booted \<and> k_reenter k' = k_reenter booted \<and>
    key_pressed k' = key_pressed booted \<and> length (proc_table k') = length (proc_table booted) \<and>
    (\<forall>i < length (proc_table booted). proc_of k' i = proc_of booted i \<or>
      p_flags (proc_of booted i) = 0 \<and> proc_of k' i = (proc_of booted i)\<lparr>p_ticks := priority (proc_of booted i)\<rparr> \<and>
      (\<forall>p \<in> set (proc_table booted). p_flags p = 0 \<longrightarrow> p_ticks p \<le> 0))"
proof -
  obtain k' where "schedule booted = Inr k'"
    using booted_runs by (cases booted rule: schedule_cases) auto
  from schedule_frame [OF this] show ?thesis by blast
qed

lemma inform_int_frame:
  assumes "inform_int t k = Inr k'" and "t < length (proc_table k)"
  shows "p_proc_ready k' = p_proc_ready k" "k_reenter k' = k_reenter k" "k_ticks k' = k_ticks k"
    "p_ticks (proc_of k' i) = p_ticks (proc_of k i)"
  using assms by (auto simp: inform_int_def Let_def res_simps split: if_splits)

text \<open>
  C21: a clock interrupt that finds the kernel in a reachable-state invariant keeps it, keeps the
  tick counter in range, leaves the current process running while it has ticks left or when it
  interrupted another interrupt, and otherwise makes the best process current.
\<close>

theorem clock_handler_correct:
  assumes "kernel_ok k" and "0 \<le> k_ticks k" and "k_ticks k < MAX_TICKS"
    and "clock_handler k = Inr k'"
  shows "kernel_ok k' \<and> 0 \<le> k_ticks k' \<and> k_ticks k' < MAX_TICKS \<and>
    (k_reenter k \<noteq> 0 \<or> p_ticks (proc_of k (p_proc_ready k)) > 1 \<longrightarrow> p_proc_ready k' = p_proc_ready k) \<and>
    (k_reenter k = 0 \<and> p_ticks (proc_of k (p_proc_ready k)) \<in> {0, 1} \<longrightarrow>
       best_choice (proc_table k') (p_proc_ready k'))"
proof -
  let ?c = "p_proc_ready k" and ?k1 = "charge (count_tick k)"
  have cur: "?c < length (proc_table k)" using assms(1) by (simp add: kernel_ok_def cur_ok_def)
  have tl: "TASK_TTY < length (proc_table ?k1)" using cur by auto
  have t1: "p_ticks (proc_of ?k1 ?c) = (if p_ticks (proc_of k ?c) \<noteq> 0 then p_ticks (proc_of k ?c) - 1 else 0)"
    using proc_of_charge [of "count_tick k" ?c] cur by (simp add: count_tick_def)
  obtain k2 where k2: "(if key_pressed ?k1 \<noteq> 0 then inform_int TASK_TTY ?k1 else Inr ?k1) = Inr k2"
    and k': "(if k_reenter k2 \<noteq> 0 then Inr k2 else if p_ticks (proc_of k2 (p_proc_ready k2)) > 0 then Inr k2
       else schedule k2) = Inr k'"
    using assms(4) by (auto simp: clock_handler_def Let_def res_simps)
  have "p_proc_ready k2 = p_proc_ready ?k1 \<and> k_reenter k2 = k_reenter ?k1 \<and> k_ticks k2 = k_ticks ?k1 \<and>
    p_ticks (proc_of k2 ?c) = p_ticks (proc_of ?k1 ?c)"
  proof (cases "key_pressed ?k1 = 0")
    case False
    with k2 have "inform_int TASK_TTY ?k1 = Inr k2" by simp
    from inform_int_frame [OF this tl] show ?thesis by blast
  qed (use k2 in simp)
  then have same: "p_proc_ready k2 = ?c" "k_reenter k2 = k_reenter k" "k_ticks k2 = k_ticks ?k1"
    "p_ticks (proc_of k2 ?c) = p_ticks (proc_of ?k1 ?c)"
    by simp_all
  have ticks: "0 \<le> k_ticks k2 \<and> k_ticks k2 < MAX_TICKS"
    using count_tick_ok [of k] assms(2,3) same(3) by (simp add: ticks_ok_def)
  have ticks': "k_ticks k' = k_ticks k2"
    using k' by (cases k2 rule: schedule_cases) (auto split: if_splits)
  have best: "best_choice (proc_table k') (p_proc_ready k')" if "schedule k2 = Inr k'"
    using that by (cases k2 rule: schedule_cases) auto
  show ?thesis
    using k' same t1 ticks ticks' best clock_keeps [OF assms(1,4)] by (auto split: if_splits)
qed

text \<open>The start is a state in which the clock handler returns.\<close>

lemma booted_kernel_ok: "kernel_ok booted"
  by (rule kstart_ok [OF kstart_booted])

lemma booted_ticks: "k_ticks booted = 0" "key_pressed booted = 0"
  using start_kernel_fresh [OF loader_flat, of "0x1000" "0x8000" "\<lambda>_. 0" "\<lambda>_. 0"]
  by (auto simp: booted_def start_kernel_def res_simps)

theorem clock_handler_correct_witness:
  "\<exists>k'. clock_handler booted = Inr k' \<and> (kernel_ok k' \<and> 0 \<le> k_ticks k' \<and> k_ticks k' < MAX_TICKS \<and>
    (k_reenter booted \<noteq> 0 \<or> p_ticks (proc_of booted (p_proc_ready booted)) > 1 \<longrightarrow> p_proc_ready k' = p_proc_ready booted) \<and>
    (k_reenter booted = 0 \<and> p_ticks (proc_of booted (p_proc_ready booted)) \<in> {0, 1} \<longrightarrow>
       best_choice (proc_table k') (p_proc_ready k')))"
proof -
  let ?k = "charge (count_tick booted)"
  have p: "proc_of booted 0 \<in> set (proc_table booted)" "p_ticks (proc_of booted 0) = 15"
    using fresh_native(4,5) [OF booted_fresh(5), of 0] booted_fresh(4) by simp_all
  have "clock_handler booted = Inr ?k"
    using p(2) booted_fresh proc_of_charge [of "count_tick booted" 0]
    by (simp add: clock_handler_def Let_def booted_ticks count_tick_def)
  then show ?thesis
    using clock_handler_correct [OF booted_kernel_ok _ _, of ?k] booted_ticks by simp
qed

section \<open>Two cases the checks do not cover\<close>

text \<open>
  C31: \<^verbatim>\<open>sys_sendrec\<close> admits ANY as the destination of a SEND, its assertion does not tell SEND from
  RECEIVE; \<^verbatim>\<open>msg_send\<close> then reads \<^verbatim>\<open>proc_table\<close> behind its end.
\<close>

theorem send_to_any:
  assumes "kinv k" and "k_reenter k = 0" and "c < NR_TASKS + NR_PROCS"
  shows "sys_sendrec SEND ANY m c k = Inl (BadAccess ''msg_send: proc_table'')"
  using assms by (simp add: sys_sendrec_def va2la_linear msg_send_def valid_proc_nr_def Let_def)

theorem send_to_any_witness: "sys_sendrec SEND ANY 0x4000 5 booted = Inl (BadAccess ''msg_send: proc_table'')"
  by (rule send_to_any) (simp_all add: booted_kinv booted_fresh)

text \<open>
  A task with a pending interrupt that receives from one particular process which is not
  sending to it does not wait for that process: the assertion after \<^verbatim>\<open>block\<close> fails, because
  \<^verbatim>\<open>has_int_msg\<close> is still set.
\<close>

theorem receive_with_pending_interrupt:
  assumes "kinv k" and "k_reenter k = 0" and "r < NR_TASKS + NR_PROCS" and "p_flags (proc_of k r) = 0"
    and "m \<noteq> 0" and "f < NR_TASKS + NR_PROCS" and "f \<noteq> r" and "has_int_msg (proc_of k r) \<noteq> 0"
    and "f \<notin> set (waiting (abs_ipc k) ! r)"
  shows "sys_sendrec RECEIVE (int f) m r k \<in>
    {Inl Spins, Inl (AssertionFailure ''msg_receive: blocked'')}"
proof -
  let ?k = "stamp k r m"
  have len: "length (proc_table k) = NR_TASKS + NR_PROCS" by (rule kinvD(2) [OF assms(1)])
  have none: "spec_pick (send_queue (proc_table ?k) r) (int f) = None"
    using assms(3,6,9) len by (simp add: spec_pick_def)
  have call: "sys_sendrec RECEIVE (int f) m r k = msg_receive ?k r (int f) m"
    by (rule sys_sendrec_receive) (use assms in \<open>auto simp: valid_proc_nr_def\<close>)
  have waits: "kinv (waits_for ?k r (int f) m)"
    by (rule waits_for_spec(1)) (use assms in auto)
  have "msg_receive ?k r (int f) m = res_bind (schedule (waits_for ?k r (int f) m))
      (\<lambda>_. Inl (AssertionFailure ''msg_receive: blocked''))"
    using msg_receive_blocks [OF _ _ _ _ _ _ none, of m] assms by simp
  moreover have "schedule (waits_for ?k r (int f) m) = Inl Spins \<or> (\<exists>k'. schedule (waits_for ?k r (int f) m) = Inr k')"
    by (rule schedule_outcome [OF waits]) blast+
  ultimately show ?thesis unfolding call by (elim disjE exE) simp_all
qed

lemma booted_pending:
  "\<exists>k :: kernel. kinv k \<and> k_reenter k = 0 \<and> p_flags (proc_of k 2) = 0 \<and> has_int_msg (proc_of k 2) \<noteq> 0 \<and>
     waiting (abs_ipc k) ! 2 = []"
proof -
  obtain k where k: "inform_int 2 booted = Inr k" "step_ok booted k (spec_interrupt 2 (abs_ipc booted))"
    using inform_int_correct [OF booted_kinv, of 2] by (auto simp: booted_native)
  have st: "status (abs_ipc booted) ! 2 = Ready" "waiting (abs_ipc booted) ! 2 = []"
    using booted_native(1) [of 2] fresh_ipc_inv(2) [of "proc_table booted" 2]
    by (simp_all add: booted_fresh status_of_def)
  have abs: "abs_ipc k = (abs_ipc booted)\<lparr>pending := (pending (abs_ipc booted))[2 := True]\<rparr>"
    using k(2) st by (simp add: step_ok_def spec_interrupt_def)
  have len: "length (proc_table k) = NR_TASKS + NR_PROCS" "kinv k" "k_reenter k = 0"
    using k(2) kinvD(2) [of k] by (auto simp: step_ok_def booted_fresh)
  have "status (abs_ipc k) ! 2 = Ready" "pending (abs_ipc k) ! 2" "waiting (abs_ipc k) ! 2 = []"
    unfolding abs using st by (simp_all add: booted_fresh)
  with len show ?thesis by (intro exI [of _ k]) (simp add: Ready_iff runnable_def)
qed

theorem receive_with_pending_interrupt_witness:
  "\<exists>k :: kernel. sys_sendrec RECEIVE (int 3) 0x4000 2 k \<in>
    {Inl Spins, Inl (AssertionFailure ''msg_receive: blocked'')}"
proof -
  obtain k :: kernel where "kinv k" "k_reenter k = 0" "p_flags (proc_of k 2) = 0"
    "has_int_msg (proc_of k 2) \<noteq> 0" "waiting (abs_ipc k) ! 2 = []"
    using booted_pending by blast
  then have "sys_sendrec RECEIVE (int 3) 0x4000 2 k \<in> {Inl Spins, Inl (AssertionFailure ''msg_receive: blocked'')}"
    by (intro receive_with_pending_interrupt) simp_all
  then show ?thesis by (intro exI [of _ k])
qed

end
