(* ===== verification/Protection.thy ===== *)
theory Protection
  imports Message_Passing Mm
begin

text \<open>
  The protection rings as a typing of the process table. A task runs in ring 1 with the right to use the
  input and output instructions, a user process in ring 3 without it; \<^verbatim>\<open>kernel_main\<close> sets this up, and no
  system call, interrupt or request to MM changes it.
\<close>

section \<open>The typing\<close>

definition ring_of :: "nat \<Rightarrow> nat" where
  "ring_of i = (if i < NR_TASKS then 1 else 3)"

text \<open>A present segment descriptor of privilege level \<open>r\<close>, of code or of data (\<^verbatim>\<open>attr1\<close>: P, DPL, S, type).\<close>

definition seg_typed :: "nat \<Rightarrow> bool \<Rightarrow> descriptor \<Rightarrow> bool" where
  "seg_typed r code d \<longleftrightarrow> bit (attr1 d) 7 \<and> (bit (attr1 d) 3 \<longleftrightarrow> code) \<and> unat (take_bit 2 (drop_bit 5 (attr1 d))) = r"

text \<open>The privilege level of a selector and the I/O privilege level of the flags.\<close>

definition rpl_of :: "u32 \<Rightarrow> nat" where
  "rpl_of sel = unat (take_bit 2 sel)"

definition iopl_of :: "u32 \<Rightarrow> nat" where
  "iopl_of flags = unat (take_bit 2 (drop_bit 12 flags))"

definition frame_typed :: "nat \<Rightarrow> stackframe \<Rightarrow> bool" where
  "frame_typed i r \<longleftrightarrow> rpl_of (r_cs r) = ring_of i \<and> rpl_of (r_ss r) = ring_of i
     \<and> (rpl_of (r_cs r) \<le> iopl_of (r_eflags r) \<longleftrightarrow> i < NR_TASKS)"

definition proc_typed :: "nat \<Rightarrow> proc \<Rightarrow> bool" where
  "proc_typed i q \<longleftrightarrow> has_flag q FREE_SLOT \<or>
     seg_typed (ring_of i) True (ldts q ! INDEX_LDT_C) \<and> seg_typed (ring_of i) False (ldts q ! INDEX_LDT_RW) \<and> frame_typed i (regs q)"

definition rings_ok :: "'a kernel_scheme \<Rightarrow> bool" where
  "rings_ok k \<longleftrightarrow> length (proc_table k) = NR_TASKS + NR_PROCS \<and> (\<forall>i < NR_TASKS + NR_PROCS. proc_typed i (proc_of k i))"

section \<open>The start\<close>

lemma init_proc_typed:
  assumes "init_proc env kmap i stk sel p = Inr q"
  shows "proc_typed i q"
  using assms
  by (auto simp: init_proc_def init_ldts_def proc_typed_def frame_typed_def seg_typed_def ring_of_def rpl_of_def iopl_of_def
      res_simps Let_def const_simps init_descriptor_def split: if_splits)

lemma free_typed: "p_flags q = FREE_SLOT \<Longrightarrow> proc_typed i q"
  by (simp add: proc_typed_def has_flag_def const_simps)

lemma init_procs_typed: "init_procs env kmap ps i stk sel = Inr qs \<Longrightarrow> length qs = length ps \<and> (\<forall>j < length qs. proc_typed (i + j) (qs ! j))"
proof (induction ps arbitrary: i stk sel qs)
  case (Cons p ps)
  obtain q rs stk' sel' where qs: "qs = q # rs" "proc_typed i q" "init_procs env kmap ps (Suc i) stk' sel' = Inr rs"
    using Cons.prems free_typed [of "p\<lparr>p_flags := FREE_SLOT\<rparr>" i] init_proc_typed by (auto simp: res_simps split: if_splits)
  from Cons.IH [OF qs(3)] qs(1,2) show ?case by (auto simp: less_Suc_eq_0_disj)
qed simp

lemma proc_typed_tty [simp]: "proc_typed i (q\<lparr>nr_tty := t\<rparr>) = proc_typed i q"
  by (simp add: proc_typed_def has_flag_def)

lemma start_typed:
  assumes "start_kernel env kmap m = Inr k"
  shows "rings_ok k"
proof -
  obtain pt where pt: "init_procs env kmap init_prot_procs 0 (task_stack env + STACK_SIZE_TOTAL) SELECTOR_LDT_FIRST = Inr pt"
    and k: "proc_table k = set_tty pt" using assms by (auto simp: start_kernel_def res_simps)
  have len: "length pt = NR_TASKS + NR_PROCS" and ty: "proc_typed j (pt ! j)" if "j < NR_TASKS + NR_PROCS" for j
    using init_procs_typed [OF pt] that by (auto simp: init_prot_procs_def)
  have "length pt = 37" using len [of 0] by simp
  then show ?thesis using ty by (auto simp: rings_ok_def k set_tty_def Let_def nth_list_update)
qed

section \<open>Steps of the kernel\<close>

text \<open>What a step of the kernel may do to an entry of the table: it touches neither the saved frame nor the segments, and frees no slot's mark.\<close>

definition same_ring :: "proc \<Rightarrow> proc \<Rightarrow> bool" where
  "same_ring q q' \<longleftrightarrow> regs q' = regs q \<and> ldts q' = ldts q \<and> (has_flag q FREE_SLOT \<longrightarrow> has_flag q' FREE_SLOT)"

definition keeps_rings :: "'a kernel_scheme \<Rightarrow> 'a kernel_scheme \<Rightarrow> bool" where
  "keeps_rings k k' \<longleftrightarrow> list_all2 same_ring (proc_table k) (proc_table k')"

lemma same_ring_refl [simp]: "same_ring q q"
  by (simp add: same_ring_def)

lemma keeps_refl [simp]: "keeps_rings k k"
  by (simp add: keeps_rings_def list_all2_refl)

lemma keeps_trans: "keeps_rings k k1 \<Longrightarrow> keeps_rings k1 k2 \<Longrightarrow> keeps_rings k k2"
  by (auto simp: keeps_rings_def list_all2_conv_all_nth same_ring_def)

lemma keeps_upd: "(\<And>q. same_ring q (f q)) \<Longrightarrow> keeps_rings k (upd_proc k i f)"
  by (cases "i < length (proc_table k)") (auto simp: keeps_rings_def upd_proc_def list_all2_conv_all_nth nth_list_update list_update_beyond)

lemma keeps_upd_same [intro]: "keeps_rings k k1 \<Longrightarrow> (\<And>q. same_ring q (f q)) \<Longrightarrow> keeps_rings k (upd_proc k1 i f)"
  by (rule keeps_trans [OF _ keeps_upd])

lemma keeps_mem [simp]: "keeps_rings k (k1\<lparr>mem := m\<rparr>) = keeps_rings k k1" "keeps_rings (k1\<lparr>mem := m\<rparr>) k = keeps_rings k1 k"
  by (simp_all add: keeps_rings_def)

lemma keeps_typed: "keeps_rings k k' \<Longrightarrow> rings_ok k \<Longrightarrow> rings_ok k'"
  by (auto simp: keeps_rings_def rings_ok_def list_all2_conv_all_nth proc_typed_def same_ring_def)

text \<open>The flags that calls set and clear are not the mark of a free slot.\<close>

lemma free_flag [simp]:
  "(w OR SENDING) AND FREE_SLOT = w AND FREE_SLOT" "(w OR RECEIVING) AND FREE_SLOT = w AND FREE_SLOT"
  "(w OR WAITING) AND FREE_SLOT = w AND FREE_SLOT" "(w OR HANGING) AND FREE_SLOT = w AND FREE_SLOT"
  "(w AND NOT SENDING) AND FREE_SLOT = w AND FREE_SLOT" "(w AND NOT RECEIVING) AND FREE_SLOT = w AND FREE_SLOT"
  "(w AND NOT WAITING) AND FREE_SLOT = w AND FREE_SLOT"
  by (simp_all add: const_simps and.assoc bit.conj_disj_distrib2)

lemma keeps_schedule: "schedule k = Inr k' \<Longrightarrow> keeps_rings k k'"
  by (cases k rule: schedule_cases) (auto simp: keeps_rings_def list_all2_conv_all_nth same_ring_def has_flag_def)

lemma keeps_ready [simp]: "keeps_rings k (k1\<lparr>k_ticks := t\<rparr>) = keeps_rings k k1"
  by (simp add: keeps_rings_def)

lemmas keeps_defs = same_ring_def has_flag_def

lemma keeps_block: "block k i = Inr k' \<Longrightarrow> keeps_rings k k'"
  by (auto simp: block_def res_simps intro: keeps_schedule)

lemma keeps_append: "append_sending k d s = Inr k' \<Longrightarrow> keeps_rings k k'"
  by (auto simp: append_sending_def res_simps keeps_defs split: option.splits intro!: keeps_upd_same)

lemma keeps_remove: "remove_sending k r f prev = Inr k' \<Longrightarrow> keeps_rings k k'"
  by (auto simp: remove_sending_def res_simps keeps_defs split: option.splits if_splits intro!: keeps_upd_same)

lemma keeps_send:
  assumes "msg_send k s d m = Inr k'"
  shows "keeps_rings k k'"
proof -
  have queued: "keeps_rings k k'" if "append_sending k1 (nat d) s = Inr k3" "block k3 s = Inr k'" "keeps_rings k k1" for k1 k3
    using that keeps_append keeps_block keeps_trans by metis
  show ?thesis
  proof (cases "has_flag (proc_of k (nat d)) RECEIVING \<and> (p_recvfrom (proc_of k (nat d)) = int s \<or> p_recvfrom (proc_of k (nat d)) = ANY)")
    case True
    with assms show ?thesis by (auto simp: msg_send_def res_simps Let_def keeps_defs split: if_splits intro!: keeps_upd_same)
  next
    case False
    with assms obtain k3 where "append_sending (upd_proc (upd_proc k s (\<lambda>p. p\<lparr>p_flags := p_flags p OR SENDING\<rparr>)) s (\<lambda>p. p\<lparr>p_sendto := d, p_msg := m\<rparr>))
        (nat d) s = Inr k3" "block k3 s = Inr k'"
      by (auto simp: msg_send_def res_simps Let_def split: if_splits)
    then show ?thesis by (rule queued) (auto simp: keeps_defs intro!: keeps_upd_same)
  qed
qed

lemma keeps_receive:
  assumes "msg_receive k r src m = Inr k'"
  shows "keeps_rings k k'"
proof -
  have b: "keeps_rings k k1 \<Longrightarrow> block k1 r = Inr k' \<Longrightarrow> keeps_rings k k'" for k1
    using keeps_block keeps_trans by metis
  show ?thesis
  proof (cases "has_int_msg (proc_of k r) \<noteq> 0 \<and> (src = ANY \<or> src = INTERRUPT)")
    case True
    with assms show ?thesis by (auto simp: msg_receive_def res_simps Let_def keeps_defs intro!: keeps_upd_same)
  next
    case False
    then obtain c where c: "recv_choose k r src = Inr c" using assms by (auto simp: msg_receive_def res_simps)
    show ?thesis
    proof (cases c)
      case None
      with c False assms show ?thesis by (auto simp: msg_receive_def res_simps Let_def keeps_defs intro!: b keeps_upd_same)
    next
      case (Some fp)
      obtain f pv where "fp = (f, pv)" by (cases fp)
      with Some c False assms show ?thesis by (auto simp: msg_receive_def res_simps Let_def keeps_defs dest!: keeps_remove intro!: keeps_upd_same)
    qed
  qed
qed

lemma keeps_sys_sendrec: "sys_sendrec func sd m c k = Inr k' \<Longrightarrow> keeps_rings k k'"
  by (auto simp: sys_sendrec_def res_simps Let_def split: if_splits dest: keeps_send keeps_receive)

lemma keeps_inform: "inform_int t k = Inr k' \<Longrightarrow> keeps_rings k k'"
  by (auto simp: inform_int_def res_simps Let_def keeps_defs split: if_splits intro!: keeps_upd_same)

lemma keeps_clock:
  assumes "clock_handler k = Inr k'"
  shows "keeps_rings k k'"
proof -
  let ?k1 = "charge (count_tick k)"
  have k1: "keeps_rings k ?k1" by (auto simp: charge_def count_tick_def keeps_defs intro!: keeps_upd_same)
  obtain k2 where "(if key_pressed ?k1 \<noteq> 0 then inform_int TASK_TTY ?k1 else Inr ?k1) = Inr k2" and k': "k' = k2 \<or> schedule k2 = Inr k'"
    using assms by (auto simp: clock_handler_def Let_def res_simps split: if_splits)
  then have "keeps_rings ?k1 k2" using keeps_inform by (auto split: if_splits)
  with k1 k' show ?thesis using keeps_trans keeps_schedule by metis
qed

lemma keeps_kstep: "kstep k k' \<Longrightarrow> keeps_rings k k'"
  by (auto elim!: kstepE dest: keeps_sys_sendrec keeps_inform keeps_clock)

section \<open>Requests to the memory manager\<close>

lemma set_typed: "rings_ok k \<Longrightarrow> (i < NR_TASKS + NR_PROCS \<Longrightarrow> proc_typed i (f (proc_of k i))) \<Longrightarrow> rings_ok (upd_proc k i f)"
  by (cases "i < NR_TASKS + NR_PROCS") (auto simp: rings_ok_def upd_proc_def nth_list_update list_update_beyond)

lemma cleanup_typed: "rings_ok k \<Longrightarrow> rings_ok (fst (cleanup k i))"
  by (auto simp: cleanup_def intro!: set_typed free_typed)

lemma upd_typed: "rings_ok k \<Longrightarrow> (\<And>q. same_ring q (f q)) \<Longrightarrow> rings_ok (upd_proc k i f)"
  by (rule keeps_typed [OF keeps_upd])

lemma reparent_typed: "rings_ok (fst s) \<Longrightarrow> rings_ok (fst (reparent is pid s))"
proof (induction "is" arbitrary: s)
  case (Cons i "is")
  obtain k ev where s: "s = (k, ev)" by (cases s)
  have "rings_ok (fst (cleanup (upd_proc (upd_proc k i (\<lambda>p. p\<lparr>p_parent := int INIT\<rparr>)) INIT (\<lambda>p. p\<lparr>p_flags := p_flags p AND NOT WAITING\<rparr>)) i))"
    "rings_ok (upd_proc k i (\<lambda>p. p\<lparr>p_parent := int INIT\<rparr>))"
    using Cons.prems s by (auto intro!: cleanup_typed upd_typed simp: keeps_defs)
  with Cons.prems s show ?case by (auto simp: Let_def split_beta intro!: Cons.IH)
qed simp

lemma do_exit_typed:
  assumes "rings_ok k" and "do_exit st pid k = Inr (k', ev)"
  shows "rings_ok k'"
proof -
  let ?k1 = "upd_proc k pid (\<lambda>p. p\<lparr>exit_status := st\<rparr>)" and ?parent = "nat (p_parent (proc_of k pid))"
  define r where "r = (if has_flag (proc_of ?k1 ?parent) WAITING
      then cleanup (upd_proc ?k1 ?parent (\<lambda>p. p\<lparr>p_flags := p_flags p AND NOT WAITING\<rparr>)) pid
      else (upd_proc ?k1 pid (\<lambda>p. p\<lparr>p_flags := p_flags p OR HANGING\<rparr>), []))"
  have "rings_ok (fst r)" using assms(1) by (auto simp: r_def keeps_defs intro!: cleanup_typed upd_typed)
  then have "rings_ok (fst (reparent [0..<NR_TASKS + NR_PROCS] pid (fst r, TellFs EXIT (int pid) # snd r)))"
    by (intro reparent_typed) simp
  moreover have "reparent [0..<NR_TASKS + NR_PROCS] pid (fst r, TellFs EXIT (int pid) # snd r) = (k', ev)"
    using assms(2) unfolding do_exit_def Let_def split_beta r_def [symmetric] by (simp split: if_splits)
  ultimately show ?thesis by (simp only: fst_conv)
qed

lemma do_wait_typed: "rings_ok k \<Longrightarrow> rings_ok (fst (do_wait pid k))"
  by (auto simp: do_wait_def keeps_defs split: prod.splits option.splits intro!: cleanup_typed upd_typed)

text \<open>The child of a user process gets segments of ring 3 of its own and the frame of its parent.\<close>

lemma child_segs: "seg_typed 3 True (child_ldts b ! INDEX_LDT_C)" "seg_typed 3 False (child_ldts b ! INDEX_LDT_RW)"
  by (simp_all add: child_ldts_def seg_typed_def init_descriptor_def const_simps Let_def)

lemma do_fork_typed:
  assumes ok: "rings_ok k" and pid: "NR_TASKS \<le> pid" "pid < NR_TASKS + NR_PROCS" "\<not> has_flag (proc_of k pid) FREE_SLOT"
    and f: "do_fork ms pid k = Inr (r, c, k', ev)"
  shows "rings_ok k'"
proof (cases "c")
  case None
  with f ok show ?thesis by (auto simp: do_fork_def Let_def res_simps split: if_splits)
next
  case (Some i)
  with f obtain m b where i: "NR_TASKS + NR_NATIVE_PROCS \<le> i"
    and k': "proc_table k' = (proc_table (upd_proc (upd_proc k i (\<lambda>c. (proc_of k pid)\<lparr>ldt_sel := ldt_sel c, p_parent := int pid\<rparr>)) i
      (\<lambda>c. c\<lparr>ldts := child_ldts b\<rparr>)))"
    by (auto simp: do_fork_def Let_def res_simps upd_proc_def split: if_splits)
  have par: "frame_typed pid (regs (proc_of k pid))" using ok pid by (auto simp: rings_ok_def proc_typed_def)
  then have "frame_typed i (regs (proc_of k pid))" using pid i by (simp add: frame_typed_def ring_of_def)
  then have "proc_typed i ((proc_of k pid)\<lparr>ldt_sel := s, p_parent := int pid, ldts := child_ldts b\<rparr>)" for s
    using child_segs i by (simp add: proc_typed_def ring_of_def)
  with ok have "rings_ok (upd_proc k i (\<lambda>q. (proc_of k pid)\<lparr>ldt_sel := ldt_sel q, p_parent := int pid, ldts := child_ldts b\<rparr>))"
    by (intro set_typed) simp
  moreover have "proc_table k' = proc_table (upd_proc k i (\<lambda>q. (proc_of k pid)\<lparr>ldt_sel := ldt_sel q, p_parent := int pid, ldts := child_ldts b\<rparr>))"
    unfolding k' by (cases "i < length (proc_table k)") (simp_all add: upd_proc_def list_update_beyond)
  ultimately show ?thesis by (simp add: rings_ok_def)
qed

lemma task_mm_typed:
  assumes "rings_ok k" and "NR_TASKS \<le> nat (msg_source m)" and "\<not> has_flag (proc_of k (nat (msg_source m))) FREE_SLOT"
    and "task_mm ms m k = Inr (k', ev)"
  shows "rings_ok k'"
  using assms do_fork_typed [OF assms(1,2) _ assms(3)] do_exit_typed do_wait_typed [OF assms(1), of "nat (msg_source m)"]
  by (auto simp: task_mm_def Let_def res_simps valid_proc_nr_def split: if_splits)

section \<open>The whole machine\<close>

text \<open>
  A process may also change its own saved frame between two entries into the kernel. Outside ring 0 the processor changes the
  privilege level of the code and stack selectors only through gates, which the return undoes, and never the I/O
  privilege level; everything else in the frame is free.
\<close>

inductive sys_step :: "'a kernel_scheme \<Rightarrow> 'a kernel_scheme \<Rightarrow> bool" where
  kernel_step: "kstep k k' \<Longrightarrow> sys_step k k'"
| mm_step: "NR_TASKS \<le> nat (msg_source m) \<Longrightarrow> \<not> has_flag (proc_of k (nat (msg_source m))) FREE_SLOT \<Longrightarrow> task_mm ms m k = Inr (k', ev) \<Longrightarrow> sys_step k k'"
| run_step: "rpl_of (r_cs r) = rpl_of (r_cs (regs (proc_of k i))) \<Longrightarrow> rpl_of (r_ss r) = rpl_of (r_ss (regs (proc_of k i))) \<Longrightarrow>
    iopl_of (r_eflags r) = iopl_of (r_eflags (regs (proc_of k i))) \<Longrightarrow> sys_step k (upd_proc k i (\<lambda>q. q\<lparr>regs := r\<rparr>))"

inductive_cases sys_stepE: "sys_step k k'"

lemma run_typed:
  assumes "rings_ok k" and "rpl_of (r_cs r) = rpl_of (r_cs (regs (proc_of k i)))" "rpl_of (r_ss r) = rpl_of (r_ss (regs (proc_of k i)))"
    and "iopl_of (r_eflags r) = iopl_of (r_eflags (regs (proc_of k i)))"
  shows "rings_ok (upd_proc k i (\<lambda>q. q\<lparr>regs := r\<rparr>))"
proof (rule set_typed [OF assms(1)])
  assume "i < NR_TASKS + NR_PROCS"
  then have "proc_typed i (proc_of k i)" using assms(1) by (simp add: rings_ok_def)
  then show "proc_typed i ((proc_of k i)\<lparr>regs := r\<rparr>)" using assms(2-4) by (auto simp: proc_typed_def has_flag_def frame_typed_def)
qed

lemma sys_step_typed: "rings_ok k \<Longrightarrow> sys_step k k' \<Longrightarrow> rings_ok k'"
  by (auto elim!: sys_stepE intro: keeps_typed [OF keeps_kstep] task_mm_typed run_typed)

interpretation rings: state_machine kstart sys_step rings_ok
  by unfold_locales (auto simp: kstart_def intro: start_typed sys_step_typed)

text \<open>
  C12: protection. In every state that system calls, interrupts, the clock, requests of user processes to MM and the processes' own
  instructions can lead to, a slot in use has a present code segment and a present data segment of its ring, 1 for a task
  and 3 for a user process, and its saved code and stack selectors have that privilege level; its I/O privilege level lets it use the
  input and output instructions exactly when it is a task.
\<close>

theorem reachable_rings:
  assumes "reach kstart sys_step k" and "i < NR_TASKS + NR_PROCS" and "\<not> has_flag (proc_of k i) FREE_SLOT"
  shows "seg_typed (if i < NR_TASKS then 1 else 3) True (ldts (proc_of k i) ! INDEX_LDT_C)
    \<and> seg_typed (if i < NR_TASKS then 1 else 3) False (ldts (proc_of k i) ! INDEX_LDT_RW)
    \<and> rpl_of (r_cs (regs (proc_of k i))) = (if i < NR_TASKS then 1 else 3) \<and> rpl_of (r_ss (regs (proc_of k i))) = (if i < NR_TASKS then 1 else 3)
    \<and> (rpl_of (r_cs (regs (proc_of k i))) \<le> iopl_of (r_eflags (regs (proc_of k i))) \<longleftrightarrow> i < NR_TASKS)"
  using rings.reach_inv [OF assms(1)] assms(2,3) unfolding rings_ok_def proc_typed_def frame_typed_def ring_of_def by blast

text \<open>Right after the start, the file system task and a user process.\<close>

theorem reachable_rings_witness:
  "seg_typed 1 True (ldts (proc_of booted 3) ! INDEX_LDT_C) \<and> rpl_of (r_cs (regs (proc_of booted 3))) = 1
    \<and> seg_typed 3 False (ldts (proc_of booted 6) ! INDEX_LDT_RW) \<and> rpl_of (r_cs (regs (proc_of booted 6))) = 3
    \<and> \<not> rpl_of (r_cs (regs (proc_of booted 6))) \<le> iopl_of (r_eflags (regs (proc_of booted 6)))"
  using reachable_rings [of booted 3] reachable_rings [of booted 6] reach_init [of kstart booted sys_step] kstart_booted
  by (simp add: booted_native flag_0)

end
