(* ===== verification/Systask.thy ===== *)
theory Systask
  imports Clock Klib
begin

text \<open>
  The system task (\<^verbatim>\<open>kernel/systask.c\<close>) and the functions that call it: \<^verbatim>\<open>get_ticks\<close> (\<^verbatim>\<open>kernel/main.c\<close>),
  \<^verbatim>\<open>getpid\<close> (\<^verbatim>\<open>lib/getpid.c\<close>) and \<^verbatim>\<open>milli_delay\<close> (\<^verbatim>\<open>kernel/clock.c\<close>).
\<close>

section \<open>The main loop\<close>

text \<open>One turn of \<^verbatim>\<open>task_sys\<close>: the process that is answered and the answer. The kernel puts the sender into a message on its way.\<close>

definition task_sys :: "message \<Rightarrow> 'a kernel_scheme \<Rightarrow> (int \<times> message) res" where
  "task_sys msg k =
     (let src = msg_source msg in
      if msg_type msg = GET_TICKS then Inr (src, msg\<lparr>m3i1 := k_ticks k, msg_source := int TASK_SYS\<rparr>)
      else if msg_type msg = GET_PID then Inr (src, msg\<lparr>msg_type := SYSCALL_RET, m3i2 := src, msg_source := int TASK_SYS\<rparr>)
      else Inl (Panic ''unknown msg type''))"

section \<open>The callers\<close>

text \<open>
  A call of process \<open>p\<close>, \<^verbatim>\<open>send_recv(BOTH, TASK_SYS, &msg)\<close>; \<open>m0\<close> is the uninitialised message on the caller's stack,
  which \<^verbatim>\<open>get_ticks\<close> clears.
\<close>

definition sys_call :: "nat \<Rightarrow> message \<Rightarrow> 'a kernel_scheme \<Rightarrow> message res" where
  "sys_call p m k =
     res_bind (task_sys (m\<lparr>msg_source := int p\<rparr>) k) (\<lambda>(dest, r).
     if dest = int p then Inr r else Inl (Panic ''no answer''))"

definition cleared_msg :: message where
  "cleared_msg = \<lparr>msg_source = 0, msg_type = 0, m3i1 = 0, m3i2 = 0, m3i3 = 0, m3i4 = 0, m3l1 = 0, m3l2 = 0, m3p1 = 0, m3p2 = 0\<rparr>"

definition get_ticks :: "nat \<Rightarrow> 'a kernel_scheme \<Rightarrow> int res" where
  "get_ticks p k = res_bind (sys_call p (cleared_msg\<lparr>msg_type := GET_TICKS\<rparr>) k) (\<lambda>r. Inr (m3i1 r))"

definition getpid :: "message \<Rightarrow> nat \<Rightarrow> 'a kernel_scheme \<Rightarrow> int res" where
  "getpid m0 p k =
     res_bind (sys_call p (m0\<lparr>msg_type := GET_PID\<rparr>) k) (\<lambda>r.
     kassert (msg_type r = SYSCALL_RET) ''getpid'' (Inr (m3i2 r)))"

lemma get_ticks_value: "get_ticks p k = Inr (k_ticks k)"
  by (simp add: get_ticks_def sys_call_def task_sys_def Let_def)

lemma getpid_value: "getpid m0 p k = Inr (int p)"
  by (simp add: getpid_def sys_call_def task_sys_def Let_def)

section \<open>Waiting for time to pass\<close>

text \<open>
  \<^verbatim>\<open>milli_delay\<close> on the states in which the caller's successive calls of \<^verbatim>\<open>get_ticks\<close> are served: how many of them the loop
  needs, \<^const>\<open>None\<close> when they are not enough. The product is computed in an \<^verbatim>\<open>int\<close>.
\<close>

definition elapsed_ms :: "int \<Rightarrow> int \<Rightarrow> int" where
  "elapsed_ms t now = sint (word_of_int ((now - t) * 1000) :: u32) sdiv HZ"

fun delay_loop :: "nat \<Rightarrow> int \<Rightarrow> int \<Rightarrow> 'a kernel_scheme list \<Rightarrow> nat \<Rightarrow> nat option res" where
  "delay_loop p milli_sec t [] n = Inr None"
| "delay_loop p milli_sec t (k # ks) n =
     res_bind (get_ticks p k) (\<lambda>now.
     if elapsed_ms t now < milli_sec then delay_loop p milli_sec t ks (Suc n) else Inr (Some n))"

definition milli_delay :: "nat \<Rightarrow> int \<Rightarrow> 'a kernel_scheme list \<Rightarrow> nat option res" where
  "milli_delay p milli_sec ks =
     (case ks of
        [] \<Rightarrow> Inr None
      | k # ks' \<Rightarrow> res_bind (get_ticks p k) (\<lambda>t. delay_loop p milli_sec t ks' 0))"

lemma elapsed_ms_ticks: "0 \<le> now - t \<Longrightarrow> now - t \<le> 2147483 \<Longrightarrow> elapsed_ms t now = (now - t) * 10"
proof -
  assume "0 \<le> now - t" "now - t \<le> 2147483"
  then have "sint (word_of_int ((now - t) * 1000) :: u32) = (now - t) * 1000"
    by (intro sint_word_of_int) simp_all
  moreover have "((now - t) * 1000) sdiv 100 = (now - t) * 10" using \<open>0 \<le> now - t\<close> by (simp add: signed_divide_int_def sgn_if)
  ultimately show ?thesis by (simp add: elapsed_ms_def)
qed

lemma delay_loop_first:
  "delay_loop p ms t ks n = Inr (Some m) \<longleftrightarrow>
     n \<le> m \<and> m - n < length ks \<and> ms \<le> elapsed_ms t (k_ticks (ks ! (m - n))) \<and> (\<forall>i < m - n. elapsed_ms t (k_ticks (ks ! i)) < ms)"
proof (induction ks arbitrary: n)
  case (Cons k ks)
  show ?case
  proof (cases "elapsed_ms t (k_ticks k) < ms")
    case True
    then have "delay_loop p ms t (k # ks) n = Inr (Some m) \<longleftrightarrow> Suc n \<le> m \<and> m - Suc n < length ks
        \<and> ms \<le> elapsed_ms t (k_ticks (ks ! (m - Suc n))) \<and> (\<forall>i < m - Suc n. elapsed_ms t (k_ticks (ks ! i)) < ms)"
      using Cons.IH [of "Suc n"] by (simp add: get_ticks_value)
    also have "\<dots> \<longleftrightarrow> n \<le> m \<and> m - n < length (k # ks) \<and> ms \<le> elapsed_ms t (k_ticks ((k # ks) ! (m - n)))
        \<and> (\<forall>i < m - n. elapsed_ms t (k_ticks ((k # ks) ! i)) < ms)"
    proof (cases "n < m")
      case True
      then have "m - n = Suc (m - Suc n)" by simp
      then show ?thesis using \<open>elapsed_ms t (k_ticks k) < ms\<close> \<open>n < m\<close> by (auto simp: less_Suc_eq_0_disj)
    next
      case False
      then show ?thesis using \<open>elapsed_ms t (k_ticks k) < ms\<close> by (cases "n = m") auto
    qed
    finally show ?thesis .
  next
    case False
    then have "delay_loop p ms t (k # ks) n = Inr (Some n)" by (simp add: get_ticks_value)
    moreover have "m = n" if "n \<le> m" "\<forall>i < m - n. elapsed_ms t (k_ticks ((k # ks) ! i)) < ms"
      using that False by (cases "m - n") auto
    ultimately show ?thesis using False by auto
  qed
qed simp

text \<open>
  A delay ends at the first reading at which enough ticks of ten milliseconds have passed, as long as the clock has not
  gone further than the \<^verbatim>\<open>int\<close> product allows (about six hours) and has not been reset in between.
\<close>

lemma milli_delay_exact:
  assumes "\<forall>x \<in> set ks. 0 \<le> k_ticks x - k_ticks k \<and> k_ticks x - k_ticks k \<le> 2147483"
  shows "milli_delay p ms (k # ks) = Inr (Some m) \<longleftrightarrow>
    m < length ks \<and> ms \<le> (k_ticks (ks ! m) - k_ticks k) * 10 \<and> (\<forall>i < m. (k_ticks (ks ! i) - k_ticks k) * 10 < ms)"
proof -
  have "elapsed_ms (k_ticks k) (k_ticks (ks ! i)) = (k_ticks (ks ! i) - k_ticks k) * 10" if "i < length ks" for i
    using assms that by (intro elapsed_ms_ticks) auto
  then show ?thesis using delay_loop_first [of p ms "k_ticks k" ks 0 m] by (auto simp: milli_delay_def get_ticks_value)
qed

end
