(* ===== verification/Rpc.thy ===== *)
theory Rpc
  imports Protection Systask
begin

text \<open>
  A request to a task through the kernel: \<^verbatim>\<open>send_recv(BOTH, task, &msg)\<close> is a SEND that hands the message to the task and a RECEIVE
  that waits for its answer. Whatever other processes, interrupts and the clock do in between, the caller goes on
  waiting, and the task's SEND puts the answer where the request was. For the system task this
  makes \<^const>\<open>sys_call\<close>, the call as its clients see it, a theorem about messages.
\<close>

section \<open>Waiting for one process\<close>

definition awaits :: "nat \<Rightarrow> u32 \<Rightarrow> proc \<Rightarrow> bool" where
  "awaits t m q \<longleftrightarrow> p_flags q = RECEIVING \<and> p_recvfrom q = int t \<and> p_msg q = m"

text \<open>The fields of a waiting process that matter to its partner.\<close>

definition same_wait :: "nat \<Rightarrow> 'a kernel_scheme \<Rightarrow> 'a kernel_scheme \<Rightarrow> bool" where
  "same_wait c k k' \<longleftrightarrow> p_flags (proc_of k' c) = p_flags (proc_of k c) \<and> p_recvfrom (proc_of k' c) = p_recvfrom (proc_of k c)
     \<and> p_msg (proc_of k' c) = p_msg (proc_of k c) \<and> k_reenter k' = k_reenter k \<and> length (proc_table k') = length (proc_table k)"

lemma same_wait_refl [simp]: "same_wait c k k"
  by (simp add: same_wait_def)

lemma same_wait_trans: "same_wait c k k1 \<Longrightarrow> same_wait c k1 k2 \<Longrightarrow> same_wait c k k2"
  by (simp add: same_wait_def)

lemma same_wait_upd:
  assumes "same_wait c k k1"
    and "i = c \<Longrightarrow> p_flags (f (proc_of k1 c)) = p_flags (proc_of k1 c) \<and> p_recvfrom (f (proc_of k1 c)) = p_recvfrom (proc_of k1 c)
      \<and> p_msg (f (proc_of k1 c)) = p_msg (proc_of k1 c)"
  shows "same_wait c k (upd_proc k1 i f)"
proof (cases "i < length (proc_table k1)")
  case True
  then show ?thesis using assms by (auto simp: same_wait_def)
next
  case False
  then have "upd_proc k1 i f = k1" by (simp add: upd_proc_def list_update_beyond)
  then show ?thesis using assms(1) by simp
qed

lemma same_wait_mem [simp]: "same_wait c k (k1\<lparr>mem := m\<rparr>) = same_wait c k k1" "same_wait c (k1\<lparr>mem := m\<rparr>) k = same_wait c k1 k"
  by (simp_all add: same_wait_def)

lemma same_wait_tick: "same_wait c k (count_tick k)"
  by (simp add: same_wait_def)

lemma same_wait_schedule: "schedule k = Inr k' \<Longrightarrow> c < length (proc_table k) \<Longrightarrow> same_wait c k k'"
  by (cases k rule: schedule_cases) (auto simp: same_wait_def)

lemma same_wait_block: "block k i = Inr k' \<Longrightarrow> c < length (proc_table k) \<Longrightarrow> same_wait c k k'"
  by (auto simp: block_def res_simps intro: same_wait_schedule)

lemma same_wait_append: "append_sending k d s = Inr k' \<Longrightarrow> same_wait c k k'"
  by (auto simp: append_sending_def res_simps split: option.splits intro!: same_wait_upd)

lemma same_wait_remove: "remove_sending k r f prev = Inr k' \<Longrightarrow> same_wait c k k'"
  by (auto simp: remove_sending_def res_simps split: option.splits if_splits intro!: same_wait_upd)

text \<open>A process that waits for \<open>t\<close> is not touched by the calls of others, nor by a SEND of another process to it.\<close>

lemma send_other_waits:
  assumes c: "awaits t m0 (proc_of k c)" "c < length (proc_table k)" "t < NR_TASKS + NR_PROCS"
    and other: "s \<noteq> c" "\<not> (s = t \<and> d = int c)" and call: "msg_send k s d m = Inr k'"
  shows "same_wait c k k'"
proof (cases "has_flag (proc_of k (nat d)) RECEIVING \<and> (p_recvfrom (proc_of k (nat d)) = int s \<or> p_recvfrom (proc_of k (nat d)) = ANY)")
  case True
  have "nat d \<noteq> c"
  proof
    assume d: "nat d = c"
    then have "int s = int t" using True c by (auto simp: awaits_def)
    moreover have "d = int c" using d call by (auto simp: msg_send_def res_simps valid_proc_nr_def split: if_splits)
    ultimately show False using other(2) by simp
  qed
  with True call show ?thesis by (auto simp: msg_send_def res_simps Let_def split: if_splits intro!: same_wait_upd)
next
  case False
  let ?k2 = "upd_proc (upd_proc k s (\<lambda>p. p\<lparr>p_flags := p_flags p OR SENDING\<rparr>)) s (\<lambda>p. p\<lparr>p_sendto := d, p_msg := m\<rparr>)"
  from False call obtain k3 where k3: "append_sending ?k2 (nat d) s = Inr k3" "block k3 s = Inr k'"
    by (auto simp: msg_send_def res_simps Let_def split: if_splits)
  have k2: "same_wait c k ?k2" using other(1) by (auto intro!: same_wait_upd)
  from same_wait_trans [OF this same_wait_append [OF k3(1)]] have "same_wait c k k3" .
  moreover from this have "c < length (proc_table k3)" using c(2) by (simp add: same_wait_def)
  ultimately show ?thesis using same_wait_trans same_wait_block [OF k3(2)] by blast
qed

lemma receive_other_waits:
  assumes c: "awaits t m0 (proc_of k c)" "c < length (proc_table k)" and other: "r \<noteq> c" and call: "msg_receive k r src m = Inr k'"
  shows "same_wait c k k'"
proof (cases "has_int_msg (proc_of k r) \<noteq> 0 \<and> (src = ANY \<or> src = INTERRUPT)")
  case True
  with call other show ?thesis by (auto simp: msg_receive_def res_simps Let_def intro!: same_wait_upd)
next
  case False
  then obtain ch where ch: "recv_choose k r src = Inr ch" using call by (auto simp: msg_receive_def res_simps)
  show ?thesis
  proof (cases ch)
    case None
    let ?k1 = "upd_proc k r (\<lambda>p. p\<lparr>p_flags := p_flags p OR RECEIVING, p_msg := m, p_recvfrom := src\<rparr>)"
    from None ch False call have "block ?k1 r = Inr k'" by (auto simp: msg_receive_def res_simps Let_def)
    moreover have k1: "same_wait c k ?k1" using other by (auto intro!: same_wait_upd)
    moreover have "c < length (proc_table ?k1)" using c(2) by simp
    ultimately show ?thesis using same_wait_trans same_wait_block by blast
  next
    case (Some fp)
    obtain f pv where fp: "fp = (f, pv)" by (cases fp)
    have "p_flags (proc_of k f) = SENDING" using ch Some fp by (auto simp: recv_choose_def recv_asserts_def res_simps Let_def split: if_splits option.splits)
    then have "f \<noteq> c" using c(1) by (auto simp: awaits_def const_simps)
    with Some fp ch False call other show ?thesis
      by (auto simp: msg_receive_def res_simps Let_def dest!: same_wait_remove [where c = c] intro!: same_wait_upd)
  qed
qed

lemma inform_waits:
  assumes "awaits t m0 (proc_of k c)" "t < NR_TASKS + NR_PROCS" and "inform_int i k = Inr k'"
  shows "same_wait c k k'"
  using assms by (auto simp: inform_int_def res_simps Let_def awaits_def split: if_splits intro!: same_wait_upd)

lemma clock_waits:
  assumes w: "awaits t m0 (proc_of k c)" "t < NR_TASKS + NR_PROCS" and c: "c < length (proc_table k)" and call: "clock_handler k = Inr k'"
  shows "same_wait c k k'"
proof -
  let ?k1 = "charge (count_tick k)"
  have k1: "same_wait c k ?k1"
    unfolding charge_def by (auto intro!: same_wait_upd simp: same_wait_tick)
  obtain k2 where k2: "(if key_pressed ?k1 \<noteq> 0 then inform_int TASK_TTY ?k1 else Inr ?k1) = Inr k2" and k': "k' = k2 \<or> schedule k2 = Inr k'"
    using call by (auto simp: clock_handler_def Let_def res_simps split: if_splits)
  have w1: "awaits t m0 (proc_of ?k1 c)" using w(1) k1 by (simp add: same_wait_def awaits_def)
  have "same_wait c ?k1 k2" using k2 inform_waits [OF w1 w(2)] by (auto split: if_splits)
  with k1 have "same_wait c k k2" by (rule same_wait_trans)
  moreover from this have "c < length (proc_table k2)" using c by (simp add: same_wait_def)
  ultimately show ?thesis using k' same_wait_schedule same_wait_trans by blast
qed

section \<open>Steps before the answer\<close>

text \<open>Every step of the kernel but the SEND of \<open>t\<close> to \<open>c\<close>.\<close>

inductive other_step :: "nat \<Rightarrow> nat \<Rightarrow> 'a kernel_scheme \<Rightarrow> 'a kernel_scheme \<Rightarrow> bool" for t c where
  other_syscall: "m \<noteq> 0 \<Longrightarrow> \<not> (p_proc_ready k = t \<and> func = SEND \<and> src_dest = int c) \<Longrightarrow>
    sys_sendrec func src_dest m (p_proc_ready k) k = Inr k' \<Longrightarrow> other_step t c k k'"
| other_hwint: "i < NR_TASKS + NR_PROCS \<Longrightarrow> inform_int i k = Inr k' \<Longrightarrow> other_step t c k k'"
| other_clock: "clock_handler k = Inr k' \<Longrightarrow> other_step t c k k'"
| other_compute: "other_step t c k (k\<lparr>mem := m'\<rparr>)"

lemma other_kstep: "other_step t c k k' \<Longrightarrow> kstep k k'"
  by (induction rule: other_step.induct) (auto intro: kstep.intros)

lemma other_step_waits:
  assumes "other_step t c k k'" and ok: "kernel_ok k" and c: "awaits t m0 (proc_of k c)" "c < NR_TASKS + NR_PROCS" "t < NR_TASKS + NR_PROCS"
  shows "same_wait c k k'"
proof -
  note K = kernel_okD [OF ok]
  have len: "c < length (proc_table k)" using c(2) kinvD(2) [OF K(1)] by simp
  have ne: "p_proc_ready k \<noteq> c" using K(3) c(1) by (auto simp: awaits_def const_simps)
  from assms(1) show ?thesis
  proof cases
    case (other_syscall m func sd)
    from K(1) other_syscall(3) show ?thesis
    proof (cases rule: sys_sendrec_returns)
      case (send d)
      then show ?thesis using other_syscall(2) ne c len send_other_waits [of t m0 "stamp k (p_proc_ready k) m" c "p_proc_ready k" "int d" m k']
        by (simp add: stamp_def)
    next
      case receive
      then show ?thesis using ne c len receive_other_waits [of t m0 "stamp k (p_proc_ready k) m" c "p_proc_ready k" sd m k']
        by (simp add: stamp_def)
    qed
  next
    case other_hwint
    then show ?thesis using inform_waits c by blast
  next
    case other_clock
    then show ?thesis using clock_waits c len by blast
  next
    case other_compute
    then show ?thesis by simp
  qed
qed

lemma same_wait_awaits: "same_wait c k k' \<Longrightarrow> awaits t m (proc_of k' c) = awaits t m (proc_of k c)"
  by (simp add: same_wait_def awaits_def)

lemma others_wait:
  assumes "(other_step t c)\<^sup>*\<^sup>* k k'" and "kernel_ok k" and "awaits t m0 (proc_of k c)" "c < NR_TASKS + NR_PROCS" "t < NR_TASKS + NR_PROCS"
  shows "kernel_ok k' \<and> same_wait c k k' \<and> keeps_rings k k'"
  using assms(1)
proof (induction rule: rtranclp_induct)
  case base
  show ?case using assms(2) by simp
next
  case (step k1 k2)
  then have "awaits t m0 (proc_of k1 c)" using assms(3) same_wait_awaits by blast
  then show ?case
    using step other_step_waits [OF step(2)] kstep_keeps [OF _ other_kstep [OF step(2)]] keeps_kstep [OF other_kstep [OF step(2)]]
      assms(4,5) same_wait_trans keeps_trans by blast
qed

section \<open>A request and its answer\<close>

text \<open>A process that is ready is in nobody's queue.\<close>

lemma ready_not_queued:
  assumes "kinv k" and "d < NR_TASKS + NR_PROCS" and "p_flags (proc_of k t) = 0"
  shows "t \<notin> set (send_queue (proc_table k) d)"
  using send_queue_is_queue(2) [OF kinvD(1) [OF assms(1)], of d] assms kinvD(2) [OF assms(1)]
  by (auto simp: send_edges_def flag_0)

lemma linear_keeps: "keeps_rings k k' \<Longrightarrow> i < length (proc_table k) \<Longrightarrow> linear k' i a = linear k i a"
  by (simp add: keeps_rings_def list_all2_conv_all_nth same_ring_def linear_def seg_base_def ldt_seg_linear_def)

text \<open>The caller's RECEIVE blocks it until \<open>t\<close> answers; \<open>t\<close>, which is ready, keeps the scheduler going.\<close>

lemma wait_for_answer:
  assumes ok: "kernel_ok k" and "k_reenter k = 0" and cur: "p_proc_ready k = c" and t: "t < NR_TASKS + NR_PROCS" "t \<noteq> c"
    and ready: "p_flags (proc_of k t) = 0" "0 < priority (proc_of k t)" and m: "m \<noteq> 0" and noint: "has_int_msg (proc_of k c) = 0"
  obtains k2 where "sys_sendrec RECEIVE (int t) m c k = Inr k2" "kernel_ok k2" "awaits t m (proc_of k2 c)"
    "mem k2 = write_int (mem k) (linear k c m) (int c)" "k_reenter k2 = 0"
proof -
  let ?k = "stamp k c m"
  note K = kernel_okD [OF ok, unfolded cur]
  note len = kinvD(2) [OF K(1)]
  have call: "sys_sendrec RECEIVE (int t) m c k = msg_receive ?k c (int t) m"
    by (rule sys_sendrec_receive) (use K assms in \<open>auto simp: valid_proc_nr_def\<close>)
  have none: "spec_pick (send_queue (proc_table ?k) c) (int t) = None"
    using ready_not_queued [OF K(1,2) ready(1)] t by (simp add: spec_pick_def)
  have blocks: "msg_receive ?k c (int t) m = res_bind (schedule (waits_for ?k c (int t) m)) Inr"
    using msg_receive_blocks [OF _ _ _ m _ _ none] K t noint by simp
  let ?w = "waits_for ?k c (int t) m"
  have w: "kinv ?w" by (rule waits_for_spec(1)) (use K t m in auto)
  have runs: "runnable (proc_of ?w t)" "priority (proc_of ?w t) = priority (proc_of k t)" "t < length (proc_table ?w)"
    using ready(1) t K(2) len by (simp_all add: waits_for_def runnable_def)
  show thesis
  proof (cases ?w rule: schedule_outcome [case_names kinv spins chosen])
    case kinv
    show ?case by (rule w)
  next
    case spins
    then show ?thesis using runs ready(2) nth_mem [OF runs(3)] by force
  next
    case (chosen k2)
    have c: "c < length (proc_table ?w)" using K(2) len by (simp add: waits_for_def)
    then obtain x where "proc_of k2 c = (proc_of ?w c)\<lparr>p_ticks := x\<rparr>" using chosen(7) by blast
    then have "awaits t m (proc_of k2 c)" using K(2) len by (simp add: awaits_def waits_for_def)
    moreover have r: "sys_sendrec RECEIVE (int t) m c k = Inr k2" using call blocks chosen(1) by simp
    moreover have "kernel_ok k2" by (rule syscall_keeps [OF ok m]) (use r cur in simp)
    moreover have "mem k2 = write_int (mem k) (linear k c m) (int c)" using chosen(4) by (simp add: waits_for_def stamp_def)
    moreover have "k_reenter k2 = 0" using chosen(5) assms(2) by (simp add: waits_for_def)
    ultimately show ?thesis using that by blast
  qed
qed

lemma request_delivered:
  assumes ok: "kernel_ok k" and re: "k_reenter k = 0" and cur: "p_proc_ready k = c" and t: "t < NR_TASKS + NR_PROCS" "t \<noteq> c"
    and recv: "p_flags (proc_of k t) = RECEIVING" "p_recvfrom (proc_of k t) = ANY" and prio: "0 < priority (proc_of k t)"
    and m: "m \<noteq> 0" and noint: "has_int_msg (proc_of k c) = 0"
    and disj: "disjoint_blocks (linear k t (p_msg (proc_of k t))) MESSAGE_SIZE (linear k c m) MESSAGE_SIZE"
  obtains k1 k2 where "sys_sendrec SEND (int t) m c k = Inr k1" "sys_sendrec RECEIVE (int t) m c k1 = Inr k2" "kernel_ok k2"
    "awaits t m (proc_of k2 c)" "keeps_rings k k2" "k_reenter k2 = 0"
    "read_msg (mem k2) (linear k t (p_msg (proc_of k t))) = (read_msg (mem k) (linear k c m))\<lparr>msg_source := int c\<rparr>"
proof -
  note K = kernel_okD [OF ok, unfolded cur]
  note len = kinvD(2) [OF K(1)]
  let ?buf = "linear k t (p_msg (proc_of k t))"
  obtain k1 where k1: "sys_sendrec SEND (int t) m c k = Inr k1" "kinv k1"
    "proc_table k1 = (proc_table k)[t := (proc_of k t)\<lparr>p_msg := 0, p_flags := 0, p_recvfrom := NO_TASK\<rparr>]"
    "k_reenter k1 = k_reenter k" "p_proc_ready k1 = p_proc_ready k"
    "read_msg (mem k1) ?buf = (read_msg (mem k) (linear k c m))\<lparr>msg_source := int c\<rparr>"
    using delivery [OF K(1) re K(2) K(3) m t recv(1) disjI2 [OF recv(2)] disj] by metis
  have ok1: "kernel_ok k1" by (rule syscall_keeps [OF ok m]) (use k1(1) cur in simp)
  obtain k2 where k2: "sys_sendrec RECEIVE (int t) m c k1 = Inr k2" "kernel_ok k2" "awaits t m (proc_of k2 c)"
    "mem k2 = write_int (mem k1) (linear k1 c m) (int c)" "k_reenter k2 = 0"
    by (rule wait_for_answer [OF ok1 _ _ t _ _ m]) (use k1 re cur t prio noint len in auto)
  have keeps: "keeps_rings k k1" "keeps_rings k k2"
    using keeps_sys_sendrec [OF k1(1)] keeps_sys_sendrec [OF k2(1)] keeps_trans by blast+
  have lin: "linear k1 c m = linear k c m" using linear_keeps [OF keeps(1)] K(2) len by simp
  have sub: "block_addrs (linear k c m) 4 \<subseteq> block_addrs (linear k c m) MESSAGE_SIZE" by (auto simp: block_addrs_def)
  have "read_msg (mem k2) ?buf = read_msg (mem k1) ?buf"
    unfolding k2(4) lin write_int_def using disj sub
    by (intro read_msg_cong read_bytes_cong) (auto simp: disjoint_blocks_def intro!: write_u32_outside)
  then have req: "read_msg (mem k2) ?buf = (read_msg (mem k) (linear k c m))\<lparr>msg_source := int c\<rparr>" using k1(6) by simp
  show thesis by (rule that [OF k1(1) k2(1-3) keeps(2) k2(5) req])
qed

lemma answer_delivered:
  assumes ok: "kernel_ok k" and "k_reenter k = 0" and cur: "p_proc_ready k = t" and c: "c < NR_TASKS + NR_PROCS" "awaits t m (proc_of k c)"
    and tm: "tm \<noteq> 0" and disj: "disjoint_blocks (linear k c m) MESSAGE_SIZE (linear k t tm) MESSAGE_SIZE"
  obtains k' where "sys_sendrec SEND (int c) tm t k = Inr k'" "p_flags (proc_of k' c) = 0"
    "read_msg (mem k') (linear k c m) = (read_msg (mem k) (linear k t tm))\<lparr>msg_source := int t\<rparr>"
proof -
  note K = kernel_okD [OF ok, unfolded cur]
  have w: "p_flags (proc_of k c) = RECEIVING" "p_recvfrom (proc_of k c) = int t" "p_msg (proc_of k c) = m" using c(2) by (simp_all add: awaits_def)
  have ne: "c \<noteq> t" using K(3) w(1) by (auto simp: const_simps)
  obtain k' where k': "sys_sendrec SEND (int c) tm t k = Inr k'"
    "proc_table k' = (proc_table k)[c := (proc_of k c)\<lparr>p_msg := 0, p_flags := 0, p_recvfrom := NO_TASK\<rparr>]"
    "read_msg (mem k') (linear k c m) = (read_msg (mem k) (linear k t tm))\<lparr>msg_source := int t\<rparr>"
    using delivery [OF K(1) assms(2) K(2) K(3) tm c(1) ne w(1) disjI1 [OF w(2)]] disj w(3) by metis
  moreover have "p_flags (proc_of k' c) = 0" using k'(2) c(1) kinvD(2) [OF K(1)] by simp
  ultimately show thesis using that by blast
qed


text \<open>INIT calls the system task, which waits with its buffer at 0x3000.\<close>

definition caller_demo :: kernel where
  "caller_demo = (waits_for booted 1 ANY 0x3000)\<lparr>p_proc_ready := 5\<rparr>"

lemma caller_demo_procs:
  "proc_of caller_demo 1 = (proc_of booted 1)\<lparr>p_flags := RECEIVING, p_msg := 0x3000, p_recvfrom := ANY\<rparr>"
  "proc_of caller_demo 5 = proc_of booted 5" "p_proc_ready caller_demo = 5" "k_reenter caller_demo = 0"
  using booted_recv by (simp_all add: caller_demo_def)

lemma caller_demo_ok: "kernel_ok caller_demo"
proof -
  have k: "kinv caller_demo" using booted_recv(1) by (simp add: caller_demo_def kinv_def seg_base_def)
  have "abs_ipc caller_demo = (abs_ipc booted)\<lparr>status := (status (abs_ipc booted))[1 := ReceivesFrom ANY]\<rparr>"
    using waits_for_spec(2) [OF booted_kinv, of 1 "0x3000" ANY] by (simp add: caller_demo_def abs_ipc_def booted_native)
  then have "plain_status (abs_ipc caller_demo)"
    using plain_status_update [OF kernel_okD(4) [OF booted_kernel_ok]] by simp
  moreover have "cur_ok caller_demo" using kinvD(2) [OF k] caller_demo_procs by (simp add: cur_ok_def runnable_def booted_native)
  ultimately show ?thesis using k by (simp add: kernel_ok_def)
qed


end
