(* ===== verification/Printing.thy ===== *)
theory Printing
  imports Klib Hd
begin

text \<open>
  What the kernel and the drivers print: \<^verbatim>\<open>printl\<close> and \<^verbatim>\<open>printf\<close> (\<^verbatim>\<open>lib/printf.c\<close>), \<^verbatim>\<open>assertion_failure\<close> and
  \<^verbatim>\<open>spin\<close> (\<^verbatim>\<open>lib/misc.c\<close>), \<^verbatim>\<open>panic\<close> (\<^verbatim>\<open>kernel/main.c\<close>), the reports of the disk driver (\<^verbatim>\<open>kernel/hd.c\<close>) and
  \<^verbatim>\<open>dump_msg\<close> (\<^verbatim>\<open>kernel/proc.c\<close>). A function is modelled by the text it gives to \<^verbatim>\<open>printx\<close> or \<^verbatim>\<open>write\<close>; what these do with it is
  the business of theories Tty and Fs_Task.
\<close>

section \<open>Formatting into a buffer\<close>

text \<open>\<^verbatim>\<open>vsprintf\<close> into a buffer of \<open>n\<close> bytes on the stack, with room for the final 0.\<close>

definition format_into :: "nat \<Rightarrow> string \<Rightarrow> varg list \<Rightarrow> string res" where
  "format_into n fmt args =
     res_bind (vsprintf fmt args) (\<lambda>s. if length s < n then Inr s else Inl (BadAccess ''buf''))"

definition printl :: "string \<Rightarrow> varg list \<Rightarrow> string res" where
  "printl fmt args = format_into STR_DEFAULT_LEN fmt args"

text \<open>\<open>out\<close> is \<^verbatim>\<open>write(1, buf, i)\<close>.\<close>

definition printf :: "(string \<Rightarrow> int res) \<Rightarrow> string \<Rightarrow> varg list \<Rightarrow> int res" where
  "printf out fmt args =
     res_bind (format_into STR_DEFAULT_LEN fmt args) (\<lambda>s.
     res_bind (out s) (\<lambda>c. kassert (c = int (length s)) ''printf'' (Inr (int (length s)))))"

definition NEWLINE :: char where [simp]: "NEWLINE = CHR 0x0A"

section \<open>Failures\<close>

definition spin :: "string \<Rightarrow> string res" where
  "spin func_name = printl ([NEWLINE] @ ''spinning in %s ...'' @ [NEWLINE, NEWLINE]) [VStr func_name]"

definition assertion_failure :: "string \<Rightarrow> string \<Rightarrow> string \<Rightarrow> int \<Rightarrow> string res" where
  "assertion_failure ex fname base_file line =
     printl ''%c  assert(%s) failed: file: %s, base_file: %s, ln%d'' [VInt 3, VStr ex, VStr fname, VStr base_file, VInt line]"

definition panic_format :: string where
  "panic_format = ''return %i '' @ [NEWLINE] @ '' %c !!panic!! %s''"

definition panic :: "string \<Rightarrow> varg list \<Rightarrow> string res" where
  "panic fmt args =
     res_bind (format_into 256 fmt args) (\<lambda>buf. printl panic_format [VInt (int (length buf)), VInt 2, VStr buf])"

section \<open>Exceptions and spurious interrupts\<close>

text \<open>What \<^verbatim>\<open>exception_handler\<close> shows on the first lines of the screen after it has cleared them, and \<^verbatim>\<open>spurious_irq\<close> at the current position.\<close>

definition err_msg :: "string list" where
  "err_msg =
    [''#DE Divide Error'', ''#DB RESERVED'', ''--  NMI Interrupt'', ''#BP Breakpoint'', ''#OF Overflow'', ''#BR BOUND Range Exceeded'',
     ''#UD Invalid Opcode (Undefined Opcode)'', ''#NM Device Not Available (No Math Coprocessor)'', ''#DF Double Fault'',
     ''    Coprocessor Segment Overrun (reserved)'', ''#TS Invalid TSS'', ''#NP Segment Not Present'', ''#SS Stack-Segment Fault'',
     ''#GP General Protection'', ''#PF Page Fault'', ''--  (Intel reserved. Do not use.)'',
     ''#MF x87 FPU Floating-Point Error (Math Fault)'', ''#AC Alignment Check'', ''#MC Machine Check'', ''#XF SIMD Floating-Point Exception'']"

definition exception_handler :: "int \<Rightarrow> u32 \<Rightarrow> u32 \<Rightarrow> u32 \<Rightarrow> u32 \<Rightarrow> string res" where
  "exception_handler vec_no err_code eip cs eflags =
     (if vec_no < 0 \<or> vec_no \<ge> int (length err_msg) then Inl (BadAccess ''err_msg'')
      else Inr (''Exception! --> '' @ err_msg ! nat vec_no @ [NEWLINE, NEWLINE] @ ''EFLAGS:'' @ itoa eflags @ ''CS:'' @ itoa cs @ ''EIP:'' @ itoa eip
        @ (if err_code \<noteq> 0xFFFFFFFF then ''Error code:'' @ itoa err_code else [])))"

definition spurious_irq :: "u32 \<Rightarrow> string" where
  "spurious_irq irq = ''spurious_irq: '' @ itoa irq @ [NEWLINE]"

section \<open>Reports of the disk driver\<close>

text \<open>One line after the other.\<close>

primrec print_all :: "string res list \<Rightarrow> string res" where
  "print_all [] = Inr []"
| "print_all (l # ls) = res_bind l (\<lambda>s. res_bind (print_all ls) (\<lambda>t. Inr (s @ t)))"

definition part_line :: "string \<Rightarrow> varg list \<Rightarrow> nat \<Rightarrow> part_info \<Rightarrow> string res" where
  "part_line prefix args i p =
     printl (''{HD} '' @ prefix @ ''%d: base %d(0x%x), size %d(0x%x) (in sector)'' @ [NEWLINE])
       (args @ [VInt (int i), VInt (sint (part_base p)), VInt (sint (part_base p)), VInt (sint (part_size p)), VInt (sint (part_size p))])"

definition print_hdinfo :: "hd_info \<Rightarrow> string res" where
  "print_hdinfo hdi =
     print_all
       (map (\<lambda>i. part_line ''%sPART_'' [VStr (if i = 0 then '' '' else ''     '')] i (primary hdi ! i)) [0..<NR_PART_PER_DRIVE + 1]
        @ map (\<lambda>i. part_line ''         '' [] i (logical hdi ! i)) (filter (\<lambda>i. part_size (logical hdi ! i) \<noteq> 0) [0..<nat NR_SUB_PER_DRIVE]))"

text \<open>The bytes of an ASCII field of the identify block, swapped in each word, up to the first 0.\<close>

definition iden_ascii :: "u16 list \<Rightarrow> nat \<Rightarrow> nat \<Rightarrow> string" where
  "iden_ascii hdinfo idx len =
     takeWhile (\<lambda>c. c \<noteq> CHR 0x00)
       (concat (map (\<lambda>w. [char_of (unat (drop_bit 8 w)), char_of (unat (take_bit 8 w))]) (take (len div 2) (drop idx hdinfo))))"

definition hd_megabytes :: "u16 list \<Rightarrow> int" where
  "hd_megabytes hdinfo =
     (let sectors = push_bit 16 (ucast (hdinfo ! 61)) + ucast (hdinfo ! 60) :: u32 in sint (sectors * 512) sdiv 1000000)"

definition print_identify_info :: "u16 list \<Rightarrow> string res" where
  "print_identify_info hdinfo =
     print_all
       [printl (''{HD} %s: %s'' @ [NEWLINE]) [VStr ''HD SN'', VStr (iden_ascii hdinfo 10 20)],
        printl (''{HD} %s: %s'' @ [NEWLINE]) [VStr ''HD Model'', VStr (iden_ascii hdinfo 27 40)],
        printl (''{HD} LBA supported: %s'' @ [NEWLINE]) [VStr (if hdinfo ! 49 AND 0x0200 \<noteq> 0 then ''Yes'' else ''No'')],
        printl (''{HD} LBA48 supported: %s'' @ [NEWLINE]) [VStr (if hdinfo ! 83 AND 0x0400 \<noteq> 0 then ''Yes'' else ''No'')],
        printl (''{HD} HD size: %dMB'' @ [NEWLINE]) [VInt (hd_megabytes hdinfo)]]"

section \<open>Messages\<close>

definition dump_msg :: "proc list \<Rightarrow> string \<Rightarrow> u32 \<Rightarrow> message \<Rightarrow> string res" where
  "dump_msg procs title addr m =
     (let nl = [NEWLINE] @ ''        '' in
      if \<not> valid_proc_nr (msg_source m) then Inl (BadAccess ''dump_msg: proc_table'')
      else
        printl ''{%s}<0x%x>{%ssrc:%s(%d),%stype:%d,%s(0x%x, 0x%x, 0x%x, 0x%x, 0x%x, 0x%x)%s}%s''
          [VStr title, VInt (sint addr), VStr nl, VStr (p_name (procs ! nat (msg_source m))), VInt (msg_source m), VStr nl,
           VInt (msg_type m), VStr nl, VInt (m3i1 m), VInt (m3i2 m), VInt (m3i3 m), VInt (m3i4 m), VInt (sint (m3p1 m)), VInt (sint (m3p2 m)),
           VStr [NEWLINE], VStr [NEWLINE]])"

section \<open>The shell of the user processes\<close>

text \<open>
  One turn of the loop of \<^verbatim>\<open>Init\<close>, \<^verbatim>\<open>TestB\<close> and \<^verbatim>\<open>TestC\<close>: the texts given to \<^verbatim>\<open>printf\<close> for the line read into \<^verbatim>\<open>rdbuf\<close>, which has
  128 bytes.
\<close>

definition shell_turn :: "string \<Rightarrow> string res" where
  "shell_turn rd =
     (if length rd \<ge> 128 then Inl (BadAccess ''rdbuf'')
      else
        let rdbuf = takeWhile (\<lambda>c. c \<noteq> CHR 0x00) rd in
        print_all
          (format_into STR_DEFAULT_LEN ''$ '' [] #
           (if rdbuf = ''hello'' then [format_into STR_DEFAULT_LEN (''hello world!'' @ [NEWLINE]) []]
            else if rdbuf \<noteq> [] then [format_into STR_DEFAULT_LEN (''{%s}'' @ [NEWLINE]) [VStr rdbuf]]
            else [])))"

section \<open>What is printed\<close>

text \<open>Every exception of the processor that has a gate (vectors 0 to 16) has its message, which fits a row of the array of 64 characters.\<close>

lemma exception_described: "0 \<le> v \<Longrightarrow> v \<le> 16 \<Longrightarrow> \<exists>t. exception_handler v e i c f = Inr t"
  by (simp add: exception_handler_def err_msg_def)

lemma err_msg_fits: "\<forall>m \<in> set err_msg. length m < 64"
  by (simp add: err_msg_def)

text \<open>The shell echoes a line in braces, unless it is the greeting or empty.\<close>

lemma shell_echo:
  assumes "length rd \<le> 70" and "CHR 0x00 \<notin> set rd" and "rd \<noteq> []" and "rd \<noteq> ''hello''"
  shows "shell_turn rd = Inr (''$ {'' @ rd @ ''}'' @ [NEWLINE])"
proof -
  have tw: "takeWhile (\<lambda>c. c \<noteq> CHR 0x00) rd = rd" using assms(2) by (intro takeWhile_eq_all_conv [THEN iffD2]) auto
  have "pad cs 0 rd = rd" for cs using assms(2) by (simp add: pad_plain)
  then show ?thesis using assms(1,3,4) unfolding shell_turn_def tw Let_def by (simp add: format_into_def STR_DEFAULT_LEN_def is_digit_def)
qed

text \<open>An assertion reaches \<^verbatim>\<open>sys_printx\<close> with its magic character in front, which halts the system when a task fails.\<close>

lemma char_3: "char_of (3 :: int) = CHR 0x03"
  by (simp add: char_of_def)

lemma assertion_magic: "assertion_failure ex fname base_file line = Inr t \<Longrightarrow> hd t = CHR 0x03"
  by (auto simp: char_3 assertion_failure_def printl_def format_into_def res_simps is_digit_def pad_def split: if_splits)

text \<open>
  \<^verbatim>\<open>panic\<close> does not print its message. \<^verbatim>\<open>vsprintf\<close> has no \<^verbatim>\<open>%i\<close> and takes no argument for it, so \<^verbatim>\<open>%c\<close> prints the length and
  \<^verbatim>\<open>%s\<close> takes the magic character for the address of the text. Nor could the text make \<^verbatim>\<open>sys_printx\<close> halt: it starts with the format's first letter.
\<close>

lemma panic_takes_wrong_argument:
  assumes "format_into 256 fmt args = Inr buf"
  shows "panic fmt args = Inl (BadAccess ''args'')"
  using assms by (simp add: panic_def panic_format_def printl_def format_into_def is_digit_def)

lemma panic_text_not_magic: "vsprintf panic_format args = Inr t \<Longrightarrow> hd t = CHR ''r''"
  by (auto simp: panic_format_def res_simps)

text \<open>A disk of 2 GB or more is reported with a wrong size: the byte count does not fit an \<^verbatim>\<open>int\<close>.\<close>

lemma hd_size_overflow: "hd_megabytes ((replicate 256 0)[61 := 0x40]) = - 2147"
  by (simp add: hd_megabytes_def signed_divide_int_def push_bit_eq_mult Let_def)

lemma sint_sectors: "0 \<le> x \<Longrightarrow> x < 2 ^ 22 \<Longrightarrow> sint (word_of_int (x * 512) :: u32) = x * 512"
  by (intro sint_word_of_int) simp_all

lemma hd_size_ok:
  assumes "uint (push_bit 16 (ucast (hdinfo ! 61)) + ucast (hdinfo ! 60) :: u32) < 2 ^ 22"
  shows "hd_megabytes hdinfo = uint (push_bit 16 (ucast (hdinfo ! 61)) + ucast (hdinfo ! 60) :: u32) * 512 div 1000000"
proof -
  let ?w = "push_bit 16 (ucast (hdinfo ! 61)) + ucast (hdinfo ! 60) :: u32"
  have "?w * 512 = word_of_int (uint ?w * 512)" by simp
  then have "sint (?w * 512) = uint ?w * 512" using sint_sectors [OF _ assms] by (simp only: unsigned_greater_eq)
  then show ?thesis by (simp add: hd_megabytes_def Let_def signed_divide_int_def sgn_if)
qed

text \<open>The text of a printed line is what \<^verbatim>\<open>write\<close> gets, and \<^verbatim>\<open>printf\<close> returns its length, when everything is written.\<close>

lemma printf_all_written:
  assumes "format_into STR_DEFAULT_LEN fmt args = Inr s" and "out s = Inr (int (length s))"
  shows "printf out fmt args = Inr (int (length s))"
  using assms by (simp add: printf_def)

end
