(* ===== verification/Debug_Output.thy ===== *)
theory Debug_Output
  imports Printing Tty
begin

text \<open>
  Output for debugging: \<^verbatim>\<open>sprintf\<close> (\<^verbatim>\<open>lib/vsprintf.c\<close>), \<^verbatim>\<open>disp_int\<close> (\<^verbatim>\<open>lib/klib.c\<close>), \<^verbatim>\<open>syslog\<close> (\<^verbatim>\<open>lib/syslog.c\<close>), \<^verbatim>\<open>dump_proc\<close>
  (\<^verbatim>\<open>kernel/proc.c\<close>) and \<^verbatim>\<open>dump_tty_buf\<close> (\<^verbatim>\<open>kernel/tty.c\<close>).
\<close>

section \<open>Texts in buffers\<close>

text \<open>\<^verbatim>\<open>sprintf\<close> into a buffer of \<open>n\<close> bytes.\<close>

definition sprintf :: "nat \<Rightarrow> string \<Rightarrow> varg list \<Rightarrow> string res" where
  "sprintf n fmt args = format_into n fmt args"

definition disp_int :: "u32 \<Rightarrow> string res" where
  "disp_int input = (let s = itoa input in if length s < 16 then Inr s else Inl (BadAccess ''output''))"

text \<open>\<open>disklog\<close>, which nothing defines, is a parameter. The length counts up to the first 0.\<close>

definition syslog :: "(string \<Rightarrow> int res) \<Rightarrow> string \<Rightarrow> varg list \<Rightarrow> int res" where
  "syslog disklog fmt args =
     res_bind (format_into STR_DEFAULT_LEN fmt args) (\<lambda>buf.
     let cs = takeWhile (\<lambda>c. c \<noteq> CHR 0x00) buf in
     kassert (length cs = length buf) ''syslog'' (disklog cs))"

lemma itoa_loop_length: "length (itoa_loop num is f) \<le> length is"
  by (induction num "is" f rule: itoa_loop.induct) (auto simp: Let_def le_SucI)

lemma disp_int_fits: "disp_int input = Inr (itoa input)"
  using itoa_loop_length [of input "[28, 24, 20, 16, 12, 8, 4, 0]" False] by (auto simp: disp_int_def itoa_def Let_def)

text \<open>A text with a character 0 in it does not reach the log.\<close>

lemma syslog_plain:
  assumes "format_into STR_DEFAULT_LEN fmt args = Inr t" and "CHR 0x00 \<notin> set t"
  shows "syslog disklog fmt args = disklog t"
proof -
  have "takeWhile (\<lambda>c. c \<noteq> CHR 0x00) t = t" using assms(2) by (intro takeWhile_eq_all_conv [THEN iffD2]) auto
  then show ?thesis using assms(1) by (simp add: syslog_def Let_def del: takeWhile_eq_all_conv)
qed

lemma syslog_cut:
  assumes "format_into STR_DEFAULT_LEN fmt args = Inr t" and "CHR 0x00 \<in> set t"
  shows "syslog disklog fmt args = Inl (AssertionFailure ''syslog'')"
proof -
  have "takeWhile (\<lambda>c. c \<noteq> CHR 0x00) t \<noteq> t" using assms(2) by (auto simp: takeWhile_eq_all_conv)
  then have "length (takeWhile (\<lambda>c. c \<noteq> CHR 0x00) t) \<noteq> length t" by (metis append_eq_conv_conj take_all_iff takeWhile_dropWhile_id order_refl)
  then show ?thesis using assms(1) by (simp add: syslog_def Let_def)
qed

lemma vsprintf_plain: "CHR ''%'' \<notin> set fmt \<Longrightarrow> vsprintf fmt args = Inr fmt"
  by (induction fmt) auto

section \<open>A process\<close>

datatype dump_out = OutByte u16 u8 | ColorStr string int

definition GREEN :: int where [const_simps]: "GREEN = 0x2"
definition RED :: int where [const_simps]: "RED = 0x4"

definition MAKE_COLOR :: "int \<Rightarrow> int \<Rightarrow> int" where
  "MAKE_COLOR x y = push_bit 4 x OR y"

text \<open>The texts one after the other, each formatted in \<^verbatim>\<open>info\<close> and shown in the colour.\<close>

fun show_colored :: "int \<Rightarrow> (string \<times> varg list) list \<Rightarrow> dump_out list res" where
  "show_colored color [] = Inr []"
| "show_colored color ((fmt, args) # rest) =
     res_bind (sprintf STR_DEFAULT_LEN fmt args) (\<lambda>t.
     res_bind (show_colored color rest) (\<lambda>ts. Inr (ColorStr t color # ts)))"

text \<open>\<open>bytes\<close> are the bytes of the entry in memory, \<open>i\<close> its index in \<^verbatim>\<open>proc_table\<close>. Plain texts have no conversion.\<close>

definition dump_proc :: "int \<Rightarrow> u8 list \<Rightarrow> proc \<Rightarrow> dump_out list res" where
  "dump_proc i bytes p =
     (let nl = [NEWLINE] in
      res_bind (show_colored (MAKE_COLOR GREEN RED)
        ([(''byte dump of proc_table[%d]:'' @ nl, [VInt i])]
         @ map (\<lambda>b. (''%x.'', [VInt (uint b)])) bytes
         @ [(nl @ nl, []),
            (''ANY: 0x%x.'' @ nl, [VInt ANY]), (''NO_TASK: 0x%x.'' @ nl, [VInt NO_TASK]), (nl, []),
            (''ldt_sel: 0x%x.  '', [VInt (uint (ldt_sel p))]), (''ticks: 0x%x.  '', [VInt (p_ticks p)]), (''priority: 0x%x.  '', [VInt (priority p)]),
            (''name: %s.  '', [VStr (p_name p)]), (nl, []),
            (''p_flags: 0x%x.  '', [VInt (sint (p_flags p))]), (''p_recvfrom: 0x%x.  '', [VInt (p_recvfrom p)]), (''p_sendto: 0x%x.  '', [VInt (p_sendto p)]), (nl, []),
            (''has_int_msg: 0x%x.  '', [VInt (has_int_msg p)])])) (\<lambda>ts.
      Inr ([OutByte CRTC_ADDR_REG START_ADDR_H, OutByte CRTC_DATA_REG 0, OutByte CRTC_ADDR_REG START_ADDR_L, OutByte CRTC_DATA_REG 0] @ ts)))"

section \<open>A terminal\<close>

definition proc_name :: "proc list \<Rightarrow> int \<Rightarrow> string res" where
  "proc_name procs pid = (if valid_proc_nr pid then Inr (p_name (procs ! nat pid)) else Inl (BadAccess ''dump_tty_buf: proc_table''))"

definition caller_line :: "proc list \<Rightarrow> int \<Rightarrow> string res" where
  "caller_line procs pid = res_bind (proc_name procs pid) (\<lambda>nm. printl (''caller: %s (%d)'' @ [NEWLINE]) [VStr nm, VInt pid])"

text \<open>\<open>sep\<close> is the static array, which the first call replaces by an empty line; it is used as the format.\<close>

definition dump_tty_buf :: "proc list \<Rightarrow> string \<Rightarrow> tty_state \<Rightarrow> (string \<times> string) res" where
  "dump_tty_buf procs sep s =
     (let T = tty_of s 1; nl = [NEWLINE] in
      res_bind (print_all
        [printl sep [],
         printl (''head: %d'' @ nl) [VInt (int (inbuf_head T))],
         printl (''tail: %d'' @ nl) [VInt (int (inbuf_tail T))],
         printl (''cnt: %d'' @ nl) [VInt (inbuf_count T)],
         caller_line procs (tty_caller T),
         caller_line procs (tty_procnr T),
         printl (''req_buf: %d'' @ nl) [VInt (sint (tty_req_buf T))],
         printl (''left_cnt: %d'' @ nl) [VInt (tty_left_cnt T)],
         printl (''trans_cnt: %d'' @ nl) [VInt (tty_trans_cnt T)],
         printl (''--------------------------------'' @ nl) []]) (\<lambda>t. Inr (t, nl)))"

text \<open>The dump starts with the separator it finds, and the next one with an empty line.\<close>

lemma dump_tty_buf_sep:
  assumes "dump_tty_buf procs sep s = Inr (t, sep')" and "CHR ''%'' \<notin> set sep"
  shows "sep' = [NEWLINE]" and "\<exists>u. t = sep @ u"
proof -
  have "t' = sep" if "printl sep [] = Inr t'" for t' using that assms(2) by (simp add: printl_def format_into_def vsprintf_plain split: if_splits)
  then show "\<exists>u. t = sep @ u" using assms(1) by (auto simp: dump_tty_buf_def res_simps Let_def)
  show "sep' = [NEWLINE]" using assms(1) by (auto simp: dump_tty_buf_def res_simps Let_def)
qed

end
