(* ===== verification/Fs_Volume.thy ===== *)
theory Fs_Volume
  imports Fs_Unlink Fs_Mkfs
begin

text \<open>
  The volume as an abstract store. A volume is a directory (entries with a name and an i-node number), the
  i-nodes and the set of chunks of 2048 sectors in use; \<open>stored\<close> says that the disk and the i-node table represent it, with
  exact bit maps. Creating, opening and removing a file are shown to do on the disk what they do to the volume.
\<close>

section \<open>Volumes\<close>

record volume =
  entries :: "nat \<Rightarrow> (u8 list \<times> nat) option"
  nodes :: "nat \<Rightarrow> inode"
  chunks :: "nat set"
  capacity :: nat

definition plain_name :: "u8 list \<Rightarrow> bool" where
  "plain_name nm \<longleftrightarrow> nm \<noteq> [] \<and> length nm \<le> 11 \<and> 0 \<notin> set nm \<and> 0x2F \<notin> set nm"

definition inums :: "volume \<Rightarrow> nat set" where
  "inums v = {k. \<exists>n nm. entries v n = Some (nm, k)}"

definition nents :: "volume \<Rightarrow> nat" where
  "nents v = unat (i_size (nodes v 1)) div 16"

text \<open>A file of its own chunk \<open>j\<close>: bits \<open>2048 * j + 1\<close> to \<open>2048 * j + 2048\<close> of the sector map.\<close>

definition in_chunk :: "super_block \<Rightarrow> inode \<Rightarrow> nat \<Rightarrow> bool" where
  "in_chunk sb n j \<longleftrightarrow> unat (i_start_sect n) = unat (n_1st_sect sb) + 2048 * j \<and> i_nr_sects n = 2048 \<and> unat (i_size n) \<le> 2048 * 512
     \<and> 2048 * (j + 1) < 4096 * unat (nr_smap_sects sb)"

definition layout :: "super_block \<Rightarrow> bool" where
  "layout sb \<longleftrightarrow> nr_imap_sects sb = 1 \<and> unat (n_1st_sect sb) = 259 + unat (nr_smap_sects sb) \<and> 0 < unat (nr_smap_sects sb)
     \<and> unat (n_1st_sect sb) + 4096 * unat (nr_smap_sects sb) < 2 ^ 22"

text \<open>
  A sound volume: names are plain and different, i-node numbers are different and fit the map, the directory is the first chunk and holds all
  entries, and every regular file has a chunk of its own. Beyond the capacity the directory's sectors may hold anything.
\<close>

definition vol_ok :: "super_block \<Rightarrow> volume \<Rightarrow> bool" where
  "vol_ok sb v \<longleftrightarrow>
     (\<forall>n nm k. entries v n = Some (nm, k) \<longrightarrow> plain_name nm \<and> 0 < k \<and> k < 4096 \<and> n < nents v)
     \<and> (\<forall>n m a b k l. entries v n = Some (a, k) \<and> entries v m = Some (b, l) \<and> n \<noteq> m \<longrightarrow> a \<noteq> b \<and> k \<noteq> l)
     \<and> entries v 0 = Some ([0x2E], 1) \<and> i_mode (nodes v 1) = I_DIRECTORY \<and> i_start_sect (nodes v 1) = n_1st_sect sb
     \<and> unat (i_size (nodes v 1)) = 16 * nents v \<and> nents v \<le> capacity v \<and> capacity v \<le> 65536 \<and> capacity v mod 32 = 0
     \<and> 0 \<in> chunks v
     \<and> (\<forall>k \<in> inums v. i_mode (nodes v k) = I_REGULAR \<longrightarrow> (\<exists>j \<in> chunks v. 0 < j \<and> in_chunk sb (nodes v k) j))
     \<and> (\<forall>k \<in> inums v. \<forall>l \<in> inums v. i_mode (nodes v k) = I_REGULAR \<and> i_mode (nodes v l) = I_REGULAR
         \<and> i_start_sect (nodes v k) = i_start_sect (nodes v l) \<longrightarrow> k = l)"

section \<open>What is stored\<close>

definition slot_name :: "volume \<Rightarrow> nat \<Rightarrow> u8 list" where
  "slot_name v n = (case entries v n of None \<Rightarrow> replicate 12 0 | Some (nm, _) \<Rightarrow> pad_name nm)"

definition slot_num :: "volume \<Rightarrow> nat \<Rightarrow> int" where
  "slot_num v n = (case entries v n of None \<Rightarrow> 0 | Some (_, k) \<Rightarrow> int k)"

definition same_node :: "inode \<Rightarrow> inode \<Rightarrow> bool" where
  "same_node a b \<longleftrightarrow> i_mode a = i_mode b \<and> i_size a = i_size b \<and> i_start_sect a = i_start_sect b \<and> i_nr_sects a = i_nr_sects b"

text \<open>The disk: directory, maps and i-nodes.\<close>

definition on_disk :: "super_block \<Rightarrow> volume \<Rightarrow> (int \<Rightarrow> nat \<Rightarrow> u8) \<Rightarrow> bool" where
  "on_disk sb v D \<longleftrightarrow>
     (\<forall>n < capacity v. \<forall>k < 12. D ROOT_DEV (unat (n_1st_sect sb) * 512 + n * 16 + 4 + k) = slot_name v n ! k)
     \<and> (\<forall>n < capacity v. \<forall>k < 4. D ROOT_DEV (unat (n_1st_sect sb) * 512 + n * 16 + k) = bytes_of_u32 (word_of_int (slot_num v n)) ! k)
     \<and> (\<forall>m < 4096. bit (D ROOT_DEV (2 * 512 + m div 8)) (m mod 8) \<longleftrightarrow> m = 0 \<or> m \<in> inums v)
     \<and> (\<forall>m < 4096 * unat (nr_smap_sects sb). bit (D ROOT_DEV (3 * 512 + m div 8)) (m mod 8) \<longleftrightarrow> m = 0 \<or> (m - 1) div 2048 \<in> chunks v)
     \<and> (\<forall>k \<in> inums v. \<forall>i < 16. D ROOT_DEV (inode_off sb (k - 1) + i) = inode_bytes (nodes v k) ! i)"

text \<open>The i-node table caches i-nodes of the volume, each at most once, the root directory always.\<close>

definition cached :: "volume \<Rightarrow> nat \<Rightarrow> inode list \<Rightarrow> bool" where
  "cached v r t \<longleftrightarrow> length t = NR_INODE \<and> r < NR_INODE \<and> i_cnt (t ! r) \<noteq> 0 \<and> i_num (t ! r) = 1
     \<and> (\<forall>q < NR_INODE. 0 \<le> i_cnt (t ! q)) \<and> (\<forall>q < NR_INODE. i_cnt (t ! q) \<noteq> 0 \<longrightarrow> i_dev (t ! q) = ROOT_DEV
         \<and> (\<exists>k \<in> inums v. i_num (t ! q) = int k \<and> same_node (t ! q) (nodes v k)))
     \<and> (\<forall>q < NR_INODE. \<forall>q' < NR_INODE. i_cnt (t ! q) \<noteq> 0 \<and> i_cnt (t ! q') \<noteq> 0 \<and> i_num (t ! q) = i_num (t ! q') \<longrightarrow> q = q')"

definition stored :: "super_block \<Rightarrow> volume \<Rightarrow> fs \<Rightarrow> bool" where
  "stored sb v s \<longleftrightarrow> kinv s \<and> get_super_block ROOT_DEV s = Inr sb \<and> layout sb \<and> vol_ok sb v \<and> on_disk sb v (disk s)
     \<and> cached v (root_inode s) (inode_table s)"

section \<open>Names\<close>

lemma pad_name_inj: "plain_name a \<Longrightarrow> plain_name b \<Longrightarrow> pad_name a = pad_name b \<Longrightarrow> a = b"
proof -
  have tw: "takeWhile (\<lambda>c. c \<noteq> 0) (pad_name x) = x" if "plain_name x" for x
  proof -
    have "takeWhile (\<lambda>c. c \<noteq> 0) (x @ ys) = x @ takeWhile (\<lambda>c. c \<noteq> 0) ys" for ys
      using that by (intro takeWhile_append2) (auto simp: plain_name_def)
    then show ?thesis by (simp add: pad_name_def takeWhile_replicate)
  qed
  assume "plain_name a" "plain_name b" "pad_name a = pad_name b"
  then show "a = b" using tw by metis
qed

lemma pad_name_not_blank: "plain_name nm \<Longrightarrow> pad_name nm \<noteq> replicate 12 0"
  by (cases nm) (auto simp: plain_name_def pad_name_def numeral_eq_Suc)

lemma length_pad_name [simp]: "length nm \<le> 12 \<Longrightarrow> length (pad_name nm) = 12"
  by (simp add: pad_name_def)

section \<open>Reading the volume\<close>

lemma vol_okD:
  assumes "vol_ok sb v"
  shows "entries v n = Some (nm, k) \<Longrightarrow> plain_name nm \<and> 0 < k \<and> k < 4096 \<and> n < nents v"
    and "entries v n = Some (a, k) \<Longrightarrow> entries v m = Some (b, l) \<Longrightarrow> a = b \<or> k = l \<Longrightarrow> n = m"
    and "entries v 0 = Some ([0x2E], 1)" and "unat (i_size (nodes v 1)) = 16 * nents v" and "nents v \<le> capacity v" and "capacity v \<le> 65536"
    and "capacity v mod 32 = 0" and "i_start_sect (nodes v 1) = n_1st_sect sb" and "0 < nents v"
proof -
  note a = assms [unfolded vol_ok_def]
  show e: "entries v n = Some (nm, k) \<Longrightarrow> plain_name nm \<and> 0 < k \<and> k < 4096 \<and> n < nents v" for n nm k using a by blast
  show "entries v n = Some (a, k) \<Longrightarrow> entries v m = Some (b, l) \<Longrightarrow> a = b \<or> k = l \<Longrightarrow> n = m" using a by blast
  show z: "entries v 0 = Some ([0x2E], 1)" using a by blast
  show "unat (i_size (nodes v 1)) = 16 * nents v" "nents v \<le> capacity v" "capacity v \<le> 65536" "capacity v mod 32 = 0"
    "i_start_sect (nodes v 1) = n_1st_sect sb" using a by blast+
  show "0 < nents v" using e [OF z] by simp
qed

lemma length_slot_name: "vol_ok sb v \<Longrightarrow> length (slot_name v n) = 12"
  by (auto simp: slot_name_def plain_name_def split: option.splits dest!: vol_okD(1))

lemma stored_root:
  assumes "stored sb v s"
  shows "root_inode s < length (inode_table s)" and "i_dev (inode_of s (root_inode s)) = ROOT_DEV" and "i_num (inode_of s (root_inode s)) = 1"
    and "same_node (inode_of s (root_inode s)) (nodes v 1)" and "dir_ok (inode_of s (root_inode s))"
    and "i_start_sect (inode_of s (root_inode s)) = n_1st_sect sb" and "unat (i_size (inode_of s (root_inode s))) = 16 * nents v"
    and "i_cnt (inode_of s (root_inode s)) \<noteq> 0"
proof -
  let ?r = "inode_of s (root_inode s)"
  have c: "cached v (root_inode s) (inode_table s)" and v: "vol_ok sb v" and lay: "layout sb" using assms by (simp_all add: stored_def)
  show "root_inode s < length (inode_table s)" "i_num ?r = 1" "i_cnt ?r \<noteq> 0" using c by (simp_all add: cached_def)
  have "\<forall>q < NR_INODE. i_cnt (inode_of s q) \<noteq> 0 \<longrightarrow> i_dev (inode_of s q) = ROOT_DEV
         \<and> (\<exists>k \<in> inums v. i_num (inode_of s q) = int k \<and> same_node (inode_of s q) (nodes v k))" "root_inode s < NR_INODE"
    using c by (auto simp: cached_def)
  then obtain k where "i_dev ?r = ROOT_DEV" "i_num ?r = int k" "same_node ?r (nodes v k)" using c by (auto simp: cached_def)
  then show dev: "i_dev ?r = ROOT_DEV" and n: "same_node ?r (nodes v 1)" using c by (simp_all add: cached_def)
  show st: "i_start_sect ?r = n_1st_sect sb" and sz: "unat (i_size ?r) = 16 * nents v" using n vol_okD(4,8) [OF v] by (simp_all add: same_node_def)
  have "nents v \<le> 65536" using vol_okD(5,6) [OF v] by simp
  then have "unat (i_size ?r) div 512 \<le> 2048" unfolding sz by (simp add: div_le_mono [of "16 * nents v" "2048 * 512" 512, simplified])
  then show "dir_ok ?r" using lay dev st by (simp add: dir_ok_def layout_def)
qed

lemma stored_entry:
  assumes "stored sb v s" and "n < capacity v"
  shows "ent_name s (inode_of s (root_inode s)) n = slot_name v n" and "ent_nr s (inode_of s (root_inode s)) n = slot_num v n"
proof -
  have v: "vol_ok sb v" and d: "on_disk sb v (disk s)" using assms(1) by (simp_all add: stored_def)
  note r = stored_root [OF assms(1)]
  show "ent_name s (inode_of s (root_inode s)) n = slot_name v n"
    using d assms(2) length_slot_name [OF v, of n] by (intro nth_equalityI) (simp_all add: ent_name_def ent_at_def r on_disk_def)
  have "map (\<lambda>k. disk s ROOT_DEV (unat (n_1st_sect sb) * 512 + n * 16 + k)) [0..<4] = bytes_of_u32 (word_of_int (slot_num v n))"
    using d assms(2) by (intro nth_equalityI) (simp_all add: on_disk_def)
  moreover have "sint (word_of_int (slot_num v n) :: u32) = slot_num v n"
    using vol_okD(1) [OF v] by (intro sint_of_int) (auto simp: slot_num_def split: option.splits dest!: vol_okD(1) [OF v])
  ultimately show "ent_nr s (inode_of s (root_inode s)) n = slot_num v n"
    by (simp add: ent_nr_def ent_at_def r u32_bytes_roundtrip)
qed

lemma searched_range:
  assumes "stored sb v s"
  shows "nents v \<le> searched (inode_of s (root_inode s))" and "searched (inode_of s (root_inode s)) \<le> capacity v"
proof -
  have v: "vol_ok sb v" using assms by (simp add: stored_def)
  note sz = stored_root(7) [OF assms] and c = vol_okD(5,7) [OF v]
  have a: "n \<le> (16 * n + 511) div 512 * 32 \<and> (16 * n + 511) div 512 * 32 \<le> c" if n: "n \<le> c" "c mod 32 = 0" for n c :: nat
  proof -
    define q where "q = (16 * n + 511) div 512"
    obtain d where "c = 32 * d" using n(2) by auto
    moreover have "512 * q \<le> 16 * n + 511" "16 * n + 511 < 512 * q + 512"
      using div_mult_mod_eq [of "16 * n + 511" 512] mod_less_divisor [of 512 "16 * n + 511"] unfolding q_def by linarith+
    ultimately show ?thesis using n(1) unfolding q_def [symmetric] by auto
  qed
  show "nents v \<le> searched (inode_of s (root_inode s))" using a [OF c] by (simp add: searched_def sz)
  show "searched (inode_of s (root_inode s)) \<le> capacity v" using a [OF c] unfolding searched_def sz by linarith
qed

lemma slot_name_iff:
  assumes "vol_ok sb v" and "plain_name nm"
  shows "slot_name v n = pad_name nm \<longleftrightarrow> (\<exists>k. entries v n = Some (nm, k))"
proof (cases "entries v n")
  case None
  then show ?thesis using pad_name_not_blank [OF assms(2)] by (auto simp: slot_name_def)
next
  case (Some e)
  then obtain a k where e: "entries v n = Some (a, k)" by (cases e) simp
  then show ?thesis using pad_name_inj [of a nm] vol_okD(1) [OF assms(1) e] assms(2) by (auto simp: slot_name_def)
qed

text \<open>\<^verbatim>\<open>search_file\<close> looks a name up in the volume.\<close>

lemma stored_search:
  assumes st: "stored sb v s" and path: "strip_path path s = Some (nm, d)" and nm: "plain_name nm"
  shows stored_search_found: "entries v n = Some (nm, k) \<Longrightarrow> \<exists>s'. search_file path s = Inr (int k, s') \<and> buffered s s' \<and> disk s' = disk s"
    and stored_search_none: "(\<And>n k. entries v n \<noteq> Some (nm, k)) \<Longrightarrow> \<exists>s'. search_file path s = Inr (0, s') \<and> buffered s s' \<and> disk s' = disk s"
proof -
  have v: "vol_ok sb v" and ki: "kinv s" using st by (simp_all add: stored_def)
  let ?r = "inode_of s (root_inode s)" and ?P = "\<lambda>n. ent_name s (inode_of s (root_inode s)) n = pad_name nm"
  have P: "?P n \<longleftrightarrow> (\<exists>k. entries v n = Some (nm, k))" if "n < searched ?r" for n
    using stored_entry(1) [OF st] that searched_range(2) [OF st] slot_name_iff [OF v nm] by simp
  note sf = search_file_ok [OF ki stored_root(5) [OF st] path]
  have ne: "nm \<noteq> []" using nm by (simp add: plain_name_def)
  {
    assume n: "entries v n = Some (nm, k)"
    then have lt: "n < searched ?r" "n < capacity v" using vol_okD(1) [OF v n] searched_range [OF st] by simp_all
    have "find ?P [0..<searched ?r] = Some n"
    proof (rule find_only)
      show "?P n" using P [OF lt(1)] n by blast
      show "\<not> ?P m" if "m < searched ?r" "m \<noteq> n" for m using P [OF that(1)] vol_okD(2) [OF v n] that(2) by blast
    qed (rule lt(1))
    moreover have "ent_nr s ?r n = int k" using stored_entry(2) [OF st lt(2)] n by (simp add: slot_num_def)
    ultimately show "\<exists>s'. search_file path s = Inr (int k, s') \<and> buffered s s' \<and> disk s' = disk s" using sf ne by simp
  next
    assume "\<And>n k. entries v n \<noteq> Some (nm, k)"
    then have "find ?P [0..<searched ?r] = None" using P by (auto simp: find_None_iff)
    then show "\<exists>s'. search_file path s = Inr (0, s') \<and> buffered s s' \<and> disk s' = disk s" using sf ne by simp
  }
qed

section \<open>The i-node table\<close>

text \<open>A state that differs from another in the disk, the buffer and the i-node table only.\<close>

definition progressed :: "fs \<Rightarrow> fs \<Rightarrow> bool" where
  "progressed s t \<longleftrightarrow> buffered (s\<lparr>inode_table := inode_table t\<rparr>) t"

lemma progressed_refl [simp]: "progressed s s"
  by (simp add: progressed_def)

lemma progressed_trans: "progressed s t \<Longrightarrow> progressed t u \<Longrightarrow> progressed s u"
  unfolding progressed_def using buffered_inode_table [of "s\<lparr>inode_table := inode_table t\<rparr>" t "inode_table u"] buffered_trans by fastforce

lemma progressed_buffered: "buffered s t \<Longrightarrow> progressed s t"
  unfolding progressed_def using buffered_fields(2) [of s t] by simp

lemma progressed_upd_inode: "progressed s (upd_inode s q f)"
  by (simp add: progressed_def upd_inode_def)

lemma progressed_fields:
  assumes "progressed s t"
  shows "proc_table t = proc_table s" "f_desc_table t = f_desc_table s" "sb_table t = sb_table s" "root_inode t = root_inode s"
    "pcaller t = pcaller s" "fs_msg t = fs_msg s" "fs_sent t = fs_sent s" "kinv t = kinv s" "fs_flat t = fs_flat s"
    "x \<notin> block_addrs fsbuf 512 \<Longrightarrow> mem t x = mem s x"
  using buffered_fields [OF assms [unfolded progressed_def]] assms
  by (simp_all add: progressed_def buffered_def kinv_def seg_base_def)

lemma storedI:
  assumes "stored sb v s" and "progressed s t" and "vol_ok sb v'" and "on_disk sb v' (disk t)" and "cached v' (root_inode s) (inode_table t)"
  shows "stored sb v' t"
  using assms progressed_fields [OF assms(2)] get_super_block_cong [of t s] by (simp add: stored_def)

lemma stored_buffered: "stored sb v s \<Longrightarrow> buffered s t \<Longrightarrow> disk t = disk s \<Longrightarrow> stored sb v t"
  using storedI [OF _ progressed_buffered, of sb v s t v] buffered_fields(2) [of s t] by (simp add: stored_def)

lemma scan_none:
  assumes "\<forall>p \<in> set ps. i_cnt p = 0 \<or> i_dev p \<noteq> dev \<or> i_num p \<noteq> num"
  shows "fst (inode_scan dev num ps i q) = None" and "q \<noteq> None \<or> (\<exists>p \<in> set ps. i_cnt p = 0) \<Longrightarrow> snd (inode_scan dev num ps i q) \<noteq> None"
  using assms by (induction dev num ps i q rule: inode_scan.induct) (auto simp del: not_None_eq)

lemma scan_some:
  assumes "p < length ps" and "i_cnt (ps ! p) \<noteq> 0" and "i_dev (ps ! p) = dev" and "i_num (ps ! p) = num"
    and "\<And>p'. p' < p \<Longrightarrow> \<not> (i_cnt (ps ! p') \<noteq> 0 \<and> i_dev (ps ! p') = dev \<and> i_num (ps ! p') = num)"
  shows "fst (inode_scan dev num ps i q) = Some (i + p)"
  using assms
proof (induction dev num ps i q arbitrary: p rule: inode_scan.induct)
  case (2 dev num x ps i q)
  show ?case
  proof (cases p)
    case 0
    with "2.prems" show ?thesis by simp
  next
    case (Suc p')
    have "\<not> (i_cnt x \<noteq> 0 \<and> i_dev x = dev \<and> i_num x = num)" using "2.prems"(5) [of 0] Suc by simp
    moreover have "\<not> (i_cnt (ps ! r) \<noteq> 0 \<and> i_dev (ps ! r) = dev \<and> i_num (ps ! r) = num)" if "r < p'" for r
      using "2.prems"(5) [of "Suc r"] that Suc by simp
    ultimately show ?thesis using "2.IH" "2.prems"(1-4) Suc by auto
  qed
qed simp

lemma cachedD:
  assumes "cached v r t"
  shows "length t = NR_INODE" and "r < NR_INODE" and "q < NR_INODE \<Longrightarrow> 0 \<le> i_cnt (t ! q)"
    and "q < NR_INODE \<Longrightarrow> i_cnt (t ! q) \<noteq> 0 \<Longrightarrow> i_dev (t ! q) = ROOT_DEV \<and> (\<exists>k \<in> inums v. i_num (t ! q) = int k \<and> same_node (t ! q) (nodes v k))"
    and "q < NR_INODE \<Longrightarrow> q' < NR_INODE \<Longrightarrow> i_cnt (t ! q) \<noteq> 0 \<Longrightarrow> i_cnt (t ! q') \<noteq> 0 \<Longrightarrow> i_num (t ! q) = i_num (t ! q') \<Longrightarrow> q = q'"
    and "i_cnt (t ! r) \<noteq> 0" and "i_num (t ! r) = 1"
  using assms unfolding cached_def by blast+

lemma cachedI:
  assumes "length t = NR_INODE" and "r < NR_INODE" and "i_cnt (t ! r) \<noteq> 0" and "i_num (t ! r) = 1"
    and "\<And>q. q < NR_INODE \<Longrightarrow> 0 \<le> i_cnt (t ! q)"
    and "\<And>q. q < NR_INODE \<Longrightarrow> i_cnt (t ! q) \<noteq> 0 \<Longrightarrow> i_dev (t ! q) = ROOT_DEV \<and> (\<exists>k \<in> inums v. i_num (t ! q) = int k \<and> same_node (t ! q) (nodes v k))"
    and "\<And>q q'. q < NR_INODE \<Longrightarrow> q' < NR_INODE \<Longrightarrow> i_cnt (t ! q) \<noteq> 0 \<Longrightarrow> i_cnt (t ! q') \<noteq> 0 \<Longrightarrow> i_num (t ! q) = i_num (t ! q') \<Longrightarrow> q = q'"
  shows "cached v r t"
  using assms unfolding cached_def by blast

text \<open>Any 16 bytes are an i-node.\<close>

lemma u32_of_list:
  assumes "length xs = 4"
  shows "bytes_of_u32 (u32_of_bytes xs) = xs"
proof -
  obtain a b c d where xs: "xs = [a, b, c, d]" using assms by (auto simp: numeral_eq_Suc length_Suc_conv)
  show ?thesis unfolding xs by (auto simp: bytes_of_u32_def u32_of_bytes_def bit_simps intro!: bit_word_eqI dest: bit_imp_le_length)
qed

lemma inode_of_list:
  assumes "length bs = 16"
  obtains p where "inode_bytes p = bs"
proof -
  let ?p = "\<lparr>i_mode = u32_of_bytes (take 4 bs), i_size = u32_of_bytes (take 4 (drop 4 bs)), i_start_sect = u32_of_bytes (take 4 (drop 8 bs)),
    i_nr_sects = u32_of_bytes (drop 12 bs), i_dev = 0, i_cnt = 0, i_num = 0\<rparr>"
  have "drop 8 bs = take 4 (drop 8 bs) @ drop 12 bs" using append_take_drop_id [of 4 "drop 8 bs"] by (simp del: append_take_drop_id)
  moreover have "drop 4 bs = take 4 (drop 4 bs) @ drop 8 bs" using append_take_drop_id [of 4 "drop 4 bs"] by (simp del: append_take_drop_id)
  moreover have "bs = take 4 bs @ drop 4 bs" by simp
  ultimately have "take 4 bs @ take 4 (drop 4 bs) @ take 4 (drop 8 bs) @ drop 12 bs = bs" by metis
  then have "inode_bytes ?p = bs" using assms by (simp add: inode_bytes_def u32_of_list)
  then show thesis by (rule that)
qed

lemma layout_inodes:
  assumes "layout sb" and "n < 4096"
  shows "inodes_fit sb n" and "inode_off sb n = (3 + unat (nr_smap_sects sb)) * 512 + n * 32" and "inode_off sb n + 32 \<le> unat (n_1st_sect sb) * 512"
proof -
  have i: "unat (nr_imap_sects sb) = 1" "unat (n_1st_sect sb) = 259 + unat (nr_smap_sects sb)" "unat (n_1st_sect sb) < 2 ^ 22"
    using assms(1) by (simp_all add: layout_def)
  then show off: "inode_off sb n = (3 + unat (nr_smap_sects sb)) * 512 + n * 32" by (simp add: inode_off_def)
  have "n div 16 < 256" using assms(2) by (simp add: less_mult_imp_div_less)
  then show "inodes_fit sb n" using i by (simp add: inodes_fit_def)
  show "inode_off sb n + 32 \<le> unat (n_1st_sect sb) * 512" unfolding off i(2) using assms(2) by simp
qed

lemma inums_bounds: "vol_ok sb v \<Longrightarrow> k \<in> inums v \<Longrightarrow> 0 < k \<and> k < 4096"
  by (auto simp: inums_def dest: vol_okD(1))

lemma root_inum: "vol_ok sb v \<Longrightarrow> 1 \<in> inums v"
  using vol_okD(3) by (auto simp: inums_def)

lemma stored_disk_inode:
  assumes "stored sb v s" and "k \<in> inums v"
  shows "disk_inode s ROOT_DEV sb (k - 1) = inode_bytes (nodes v k)"
  using assms by (intro nth_equalityI) (auto simp: stored_def on_disk_def disk_inode_def)

text \<open>One slot of the table gets an i-node of the volume, or one more reference to it.\<close>

lemma cached_update:
  assumes c: "cached v r t" and q: "q < NR_INODE" and k: "k \<in> inums v"
    and n: "0 < i_cnt n" "i_dev n = ROOT_DEV" "i_num n = int k" "same_node n (nodes v k)"
    and old: "i_cnt (t ! q) = 0 \<and> (\<forall>q' < NR_INODE. i_cnt (t ! q') \<noteq> 0 \<longrightarrow> i_num (t ! q') \<noteq> int k) \<or> i_cnt (t ! q) \<noteq> 0 \<and> i_num (t ! q) = int k"
  shows "cached v r (t[q := n])"
proof -
  note C = cachedD [OF c]
  have root: "i_cnt (t[q := n] ! r) \<noteq> 0 \<and> i_num (t[q := n] ! r) = 1" using C(1,2,6,7) old n by (cases "r = q") auto
  have nq: "t[q := n] ! q' = (if q' = q then n else t ! q')" if "q' < NR_INODE" for q' using C(1) that q by simp
  have "q1 = q2" if "q1 < NR_INODE" "q2 < NR_INODE" "i_cnt (t[q := n] ! q1) \<noteq> 0" "i_cnt (t[q := n] ! q2) \<noteq> 0"
    "i_num (t[q := n] ! q1) = i_num (t[q := n] ! q2)" for q1 q2
  proof (cases "q1 = q"; cases "q2 = q")
    assume "q1 \<noteq> q" "q2 \<noteq> q"
    then show ?thesis using that C(5) [of q1 q2] by (simp add: nq)
  next
    assume a: "q1 = q" "q2 \<noteq> q"
    then show ?thesis using that old q n(3) C(5) [of q q2] by (simp add: nq) metis
  next
    assume a: "q1 \<noteq> q" "q2 = q"
    then show ?thesis using that old q n(3) C(5) [of q1 q] by (simp add: nq) metis
  qed simp
  then show ?thesis
    unfolding cached_def using C(1,2,3,4) root n k by (auto simp: nq intro!: bexI [of _ k])
qed

lemma stored_get:
  assumes st: "stored sb v s" and k: "k \<in> inums v" and free: "\<exists>q < NR_INODE. i_cnt (inode_of s q) = 0"
  obtains q s' where "get_inode ROOT_DEV (int k) s = Inr (Some q, s')" "q < NR_INODE" "stored sb v s'" "progressed s s'" "disk s' = disk s"
    "i_dev (inode_of s' q) = ROOT_DEV" "i_num (inode_of s' q) = int k" "same_node (inode_of s' q) (nodes v k)"
    "i_cnt (inode_of s' q) = i_cnt (inode_of s q) + 1" "inode_table s' = (inode_table s)[q := inode_of s' q]"
    "i_cnt (inode_of s q) = 0 \<or> i_num (inode_of s q) = int k"
proof -
  have v: "vol_ok sb v" and ki: "kinv s" and lay: "layout sb" and od: "on_disk sb v (disk s)" and c: "cached v (root_inode s) (inode_table s)"
    and gsb: "get_super_block ROOT_DEV s = Inr sb" using st by (simp_all add: stored_def)
  note C = cachedD [OF c]
  have kb: "0 < k" "k < 4096" using inums_bounds [OF v k] by simp_all
  show thesis
  proof (cases "\<exists>q < NR_INODE. i_cnt (inode_of s q) \<noteq> 0 \<and> i_num (inode_of s q) = int k")
    case True
    then obtain q where q: "q < NR_INODE" "i_cnt (inode_of s q) \<noteq> 0" "i_num (inode_of s q) = int k" by blast
    have dev: "i_dev (inode_of s q) = ROOT_DEV" and sn: "same_node (inode_of s q) (nodes v k)" using C(4) [OF q(1,2)] q(3) by auto
    have only: "\<not> (i_cnt (inode_of s p') \<noteq> 0 \<and> i_dev (inode_of s p') = ROOT_DEV \<and> i_num (inode_of s p') = int k)" if "p' < q" for p'
      using that q C(5) [of p' q] by auto
    have "fst (inode_scan ROOT_DEV (int k) (inode_table s) 0 None) = Some (0 + q)"
      using q dev C(1) only by (intro scan_some) simp_all
    let ?n = "(inode_of s q)\<lparr>i_cnt := i_cnt (inode_of s q) + 1\<rparr>" and ?s' = "upd_inode s q (\<lambda>n. n\<lparr>i_cnt := i_cnt n + 1\<rparr>)"
    have get: "get_inode ROOT_DEV (int k) s = Inr (Some q, ?s')"
      using \<open>fst _ = _\<close> kb by (cases "inode_scan ROOT_DEV (int k) (inode_table s) 0 None") (simp add: get_inode_def)
    have n: "inode_of ?s' q = ?n" "inode_table ?s' = (inode_table s)[q := ?n]" using q(1) C(1) by (simp_all add: upd_inode_def)
    have "cached v (root_inode s) (inode_table ?s')"
      unfolding n(2) by (rule cached_update [OF c q(1) k]) (use q dev sn C(3) [OF q(1)] in \<open>auto simp: same_node_def\<close>)
    then have "stored sb v ?s'" by (intro storedI [OF st progressed_upd_inode v]) (use od in \<open>simp_all add: upd_inode_def\<close>)
    then show ?thesis using that [OF get q(1) _ progressed_upd_inode] n dev q sn by (simp add: upd_inode_def same_node_def)
  next
    case False
    have "\<forall>p \<in> set (inode_table s). i_cnt p = 0 \<or> i_dev p \<noteq> ROOT_DEV \<or> i_num p \<noteq> int k"
      using False C(1) by (metis in_set_conv_nth)
    moreover have "\<exists>p \<in> set (inode_table s). i_cnt p = 0" using free C(1) by (metis nth_mem)
    ultimately obtain q where scan: "inode_scan ROOT_DEV (int k) (inode_table s) 0 None = (None, Some q)"
      using scan_none [of "inode_table s" ROOT_DEV "int k", where i = 0 and q = None] by (cases "inode_scan ROOT_DEV (int k) (inode_table s) 0 None") auto
    have q: "q < NR_INODE" "i_cnt (inode_of s q) = 0" using inode_scan_free [OF scan] C(1) by auto
    have kk: "int (k - 1) + 1 = int k" and fit: "inodes_fit sb (k - 1)" and ql: "q < length (inode_table s)"
      using kb layout_inodes(1) [OF lay, of "k - 1"] q(1) C(1) by simp_all
    let ?n = "(nodes v k)\<lparr>i_dev := ROOT_DEV, i_cnt := 1, i_num := int k\<rparr>"
    obtain s' where s': "get_inode ROOT_DEV (int k) s = Inr (Some q, s')" "buffered (upd_inode s q (\<lambda>_. ?n)) s'" "disk s' = disk s"
      using get_inode_load [OF fs_flatI [OF ki] ROOT_DEV_major gsb fit, unfolded kk, OF scan ql stored_disk_inode [OF st k]] by blast
    have t': "inode_table s' = (inode_table s)[q := ?n]" using buffered_fields(2) [OF s'(2)] by (simp add: upd_inode_def)
    then have n: "inode_of s' q = ?n" using q(1) C(1) by simp
    have "cached v (root_inode s) (inode_table s')"
      unfolding t' by (rule cached_update [OF c q(1) k]) (use q False in \<open>auto simp: same_node_def\<close>)
    moreover have mv: "progressed s s'" using progressed_trans [OF progressed_upd_inode progressed_buffered [OF s'(2)]] .
    ultimately have "stored sb v s'" using od s'(3) by (intro storedI [OF st mv v]) simp_all
    then show ?thesis using that [OF s'(1) q(1) _ mv s'(3)] n t' q(2) by (simp add: same_node_def)
  qed
qed

end
