(* ===== verification/Fs_Create.thy ===== *)
theory Fs_Create
  imports Fs_Volume
begin

text \<open>
  Creating a file: the two allocations, the new i-node and the new directory entry together add one file to the volume, in the first free entry,
  with the first free i-node number and the first free chunk, and leave the data of all other files alone.
\<close>

section \<open>Adding a file to a volume\<close>

definition new_node :: "super_block \<Rightarrow> nat \<Rightarrow> nat \<Rightarrow> inode" where
  "new_node sb k j = \<lparr>i_mode = I_REGULAR, i_size = 0, i_start_sect = n_1st_sect sb + of_nat (2048 * j), i_nr_sects = 2048,
     i_dev = ROOT_DEV, i_cnt = 1, i_num = int k\<rparr>"

definition vol_create :: "super_block \<Rightarrow> u8 list \<Rightarrow> nat \<Rightarrow> nat \<Rightarrow> nat \<Rightarrow> volume \<Rightarrow> volume" where
  "vol_create sb nm n k j v =
     v\<lparr>entries := (entries v)(n \<mapsto> (nm, k)), nodes := (nodes v)(k := new_node sb k j, 1 := grown (n < nents v) (nodes v 1)),
       chunks := insert j (chunks v)\<rparr>"

text \<open>The first free entry, i-node number and chunk.\<close>

definition first_free_place :: "super_block \<Rightarrow> volume \<Rightarrow> nat \<Rightarrow> nat \<Rightarrow> nat \<Rightarrow> bool" where
  "first_free_place sb v n k j \<longleftrightarrow>
     entries v n = None \<and> (\<forall>i < n. entries v i \<noteq> None) \<and> n < capacity v
     \<and> k \<notin> inums v \<and> 0 < k \<and> k < 4096 \<and> (\<forall>i < k. 0 < i \<longrightarrow> i \<in> inums v)
     \<and> j \<notin> chunks v \<and> (\<forall>i < j. i \<in> chunks v) \<and> 2048 * (j + 1) < 4096 * unat (nr_smap_sects sb)"

lemma vol_create_fields [simp]:
  "entries (vol_create sb nm n k j v) = (entries v)(n \<mapsto> (nm, k))" "chunks (vol_create sb nm n k j v) = insert j (chunks v)"
  "capacity (vol_create sb nm n k j v) = capacity v"
  "nodes (vol_create sb nm n k j v) = (nodes v)(k := new_node sb k j, 1 := grown (n < nents v) (nodes v 1))"
  by (simp_all add: vol_create_def)

lemma inums_create: "entries v n = None \<Longrightarrow> inums (vol_create sb nm n k j v) = insert k (inums v)"
  by (auto simp: inums_def) (metis option.distinct(1))+

lemma free_slot_le:
  assumes "vol_ok sb v" and "first_free_place sb v n k j"
  shows "n \<le> nents v"
proof (cases n)
  case (Suc i)
  then have "entries v i \<noteq> None" using assms(2) by (simp add: first_free_place_def)
  then show ?thesis using vol_okD(1) [OF assms(1), of i] Suc by auto
qed simp

lemma nents_create:
  assumes "vol_ok sb v" and "first_free_place sb v n k j"
  shows "nents (vol_create sb nm n k j v) = max (nents v) (n + 1)"
    and "unat (i_size (nodes (vol_create sb nm n k j v) 1)) = 16 * max (nents v) (n + 1)"
proof -
  have sz: "unat (i_size (nodes v 1)) = 16 * nents v" "nents v \<le> 65536" using vol_okD(4-6) [OF assms(1)] by simp_all
  then have "unat (i_size (nodes v 1) + 16) = 16 * nents v + 16" by (subst unat_add_lem [THEN iffD1]) simp_all
  then show e: "unat (i_size (nodes (vol_create sb nm n k j v) 1)) = 16 * max (nents v) (n + 1)"
    using sz(1) free_slot_le [OF assms] by (auto simp: grown_def max_def)
  show "nents (vol_create sb nm n k j v) = max (nents v) (n + 1)" by (simp only: nents_def [of "vol_create _ _ _ _ _ _"] e) simp
qed

lemma unat_u32_of_nat: "x < 2 ^ 32 \<Longrightarrow> unat (of_nat x :: u32) = x"
  by (simp add: unsigned_of_nat take_bit_nat_eq_self)

lemma unat_u32_add: "unat w + x < 2 ^ 32 \<Longrightarrow> unat (w + of_nat x :: u32) = unat w + x"
  using unat_add_lem [of w "of_nat x"] unat_u32_of_nat [of x] by simp

lemma chunk_start:
  assumes "layout sb" and "2048 * (j + 1) < 4096 * unat (nr_smap_sects sb)"
  shows "unat (n_1st_sect sb + of_nat (2048 * j)) = unat (n_1st_sect sb) + 2048 * j" and "unat (n_1st_sect sb) + 2048 * (j + 1) < 2 ^ 22"
proof -
  have l: "unat (n_1st_sect sb) + 4096 * unat (nr_smap_sects sb) < 2 ^ 22" using assms(1) by (simp add: layout_def)
  show b: "unat (n_1st_sect sb) + 2048 * (j + 1) < 2 ^ 22" using l assms(2) by linarith
  have "unat (n_1st_sect sb) + 2048 * j < 2 ^ 32" using b by (rule order_le_less_trans [rotated, OF less_trans]) simp_all
  then show "unat (n_1st_sect sb + of_nat (2048 * j)) = unat (n_1st_sect sb) + 2048 * j" by (rule unat_u32_add)
qed

lemma vol_create_ok:
  assumes v: "vol_ok sb v" and lay: "layout sb" and pl: "first_free_place sb v n k j" and nm: "plain_name nm" and new: "\<And>i l. entries v i \<noteq> Some (nm, l)"
  shows "vol_ok sb (vol_create sb nm n k j v)"
proof -
  let ?v = "vol_create sb nm n k j v"
  note P = pl [unfolded first_free_place_def] and ne = nents_create [OF v pl, of nm]
  have k1: "k \<noteq> 1" using P root_inum [OF v] by auto
  have n0: "n \<noteq> 0" using P vol_okD(3) [OF v] by (metis option.distinct(1))
  have knew: "entries v i \<noteq> Some (b, k)" for i b using P by (auto simp: inums_def)
  have inum: "inums ?v = insert k (inums v)" using inums_create P by blast
  have ch: "in_chunk sb (new_node sb k j) j" using chunk_start(1) [OF lay, of j] P by (simp only: in_chunk_def new_node_def inode.select_convs) simp
  have reg: "i_mode (nodes ?v l) = I_REGULAR \<and> l \<in> inums ?v \<longleftrightarrow> l = k \<or> l \<in> inums v \<and> l \<noteq> k \<and> l \<noteq> 1 \<and> i_mode (nodes v l) = I_REGULAR" for l
  proof -
    have "i_mode (nodes ?v 1) \<noteq> I_REGULAR" using v by (simp add: vol_ok_def grown_def const_simps)
    then show ?thesis using k1 by (auto simp: inum new_node_def)
  qed
  have own: "\<exists>i \<in> chunks v. 0 < i \<and> in_chunk sb (nodes v l) i" if "l \<in> inums v" "i_mode (nodes v l) = I_REGULAR" for l
    using v that by (simp add: vol_ok_def)
  have apart: "i_start_sect (nodes v l) \<noteq> i_start_sect (new_node sb k j)" if "l \<in> inums v" "i_mode (nodes v l) = I_REGULAR" for l
  proof -
    have "\<exists>i \<in> chunks v. 0 < i \<and> in_chunk sb (nodes v l) i" by (rule own [OF that])
    then obtain i where "i \<in> chunks v" "in_chunk sb (nodes v l) i" by blast
    moreover from this have "i \<noteq> j" using P by auto
    ultimately show ?thesis using ch by (auto simp: in_chunk_def)
  qed
  show ?thesis
    unfolding vol_ok_def
  proof (intro conjI allI impI ballI)
    fix i a l assume e: "entries ?v i = Some (a, l)"
    show "plain_name a" "0 < l" "l < 4096" "i < nents ?v"
      using e vol_okD(1) [OF v, of i a l] nm P ne(1) by (auto split: if_splits)
  next
    fix i m a b l l' assume "entries ?v i = Some (a, l) \<and> entries ?v m = Some (b, l') \<and> i \<noteq> m"
    then show "a \<noteq> b" "l \<noteq> l'" using vol_okD(2) [OF v, of i a l m b l'] new knew by (auto split: if_splits)
  next
    show "entries ?v 0 = Some ([0x2E], 1)" using vol_okD(3) [OF v] n0 by simp
    show "i_mode (nodes ?v 1) = I_DIRECTORY" "i_start_sect (nodes ?v 1) = n_1st_sect sb" using v by (simp_all add: vol_ok_def grown_def)
    show "unat (i_size (nodes ?v 1)) = 16 * nents ?v" using ne by simp
    show "nents ?v \<le> capacity ?v" "capacity ?v \<le> 65536" "capacity ?v mod 32 = 0" using ne(1) P vol_okD(5-7) [OF v] by simp_all
    show "0 \<in> chunks ?v" using v by (simp add: vol_ok_def)
  next
    fix l assume "l \<in> inums ?v" "i_mode (nodes ?v l) = I_REGULAR"
    then consider "l = k" | "l \<in> inums v" "l \<noteq> k" "l \<noteq> 1" "i_mode (nodes v l) = I_REGULAR" using reg by blast
    then show "\<exists>i \<in> chunks ?v. 0 < i \<and> in_chunk sb (nodes ?v l) i"
    proof cases
      case 1
      moreover have "0 \<in> chunks v" using v by (simp add: vol_ok_def)
      then have "j \<noteq> 0" using P by metis
      ultimately show ?thesis using ch k1 by auto
    next
      case 2
      then show ?thesis using own [of l] by auto
    qed
  next
    fix l l' assume "l \<in> inums ?v" "l' \<in> inums ?v" and a: "i_mode (nodes ?v l) = I_REGULAR \<and> i_mode (nodes ?v l') = I_REGULAR
        \<and> i_start_sect (nodes ?v l) = i_start_sect (nodes ?v l')"
    then have "l = k \<or> l \<in> inums v \<and> l \<noteq> k \<and> l \<noteq> 1 \<and> i_mode (nodes v l) = I_REGULAR" "l' = k \<or> l' \<in> inums v \<and> l' \<noteq> k \<and> l' \<noteq> 1 \<and> i_mode (nodes v l') = I_REGULAR"
      using reg by blast+
    then show "l = l'" using a apart [of l] apart [of l'] k1 v by (auto simp: vol_ok_def)
  qed
qed

section \<open>Regions of the disk\<close>

lemma region_dir:
  assumes "layout sb" and "unat (n_1st_sect sb) * 512 \<le> x"
  shows "x div 512 \<noteq> 2" and "3 + unat (nr_smap_sects sb) \<le> x div 512" and "k < 4096 \<Longrightarrow> i < 32 \<Longrightarrow> x \<noteq> inode_off sb k + i"
proof -
  have n: "unat (n_1st_sect sb) = 259 + unat (nr_smap_sects sb)" using assms(1) by (simp add: layout_def)
  have "unat (n_1st_sect sb) \<le> x div 512" using assms(2) by (simp add: less_eq_div_iff_mult_less_eq)
  then show "x div 512 \<noteq> 2" "3 + unat (nr_smap_sects sb) \<le> x div 512" using n by simp_all
  show "x \<noteq> inode_off sb k + i" if "k < 4096" "i < 32" using layout_inodes(3) [OF assms(1) that(1)] that(2) assms(2) by simp
qed

lemma region_inode:
  assumes "layout sb" and "k < 4096" and "i < 32"
  shows "(inode_off sb k + i) div 512 \<noteq> 2" and "3 + unat (nr_smap_sects sb) \<le> (inode_off sb k + i) div 512" and "inode_off sb k + i < unat (n_1st_sect sb) * 512"
    and "l < 4096 \<Longrightarrow> i' < 32 \<Longrightarrow> inode_off sb k + i = inode_off sb l + i' \<longleftrightarrow> k = l \<and> i = i'"
proof -
  have off: "inode_off sb k + i = (3 + unat (nr_smap_sects sb)) * 512 + (k * 32 + i)" for k i using layout_inodes(2) [OF assms(1)] assms(1)
    by (simp add: inode_off_def layout_def)
  show d: "3 + unat (nr_smap_sects sb) \<le> (inode_off sb k + i) div 512" unfolding off by simp
  then show "(inode_off sb k + i) div 512 \<noteq> 2" by simp
  show "inode_off sb k + i < unat (n_1st_sect sb) * 512" using layout_inodes(3) [OF assms(1,2)] assms(3) by simp
  show "inode_off sb k + i = inode_off sb l + i' \<longleftrightarrow> k = l \<and> i = i'" if "i' < 32"
  proof -
    have "k * 32 + i = l * 32 + i' \<longleftrightarrow> k = l \<and> i = i'" using assms(3) that by (metis div_mult_self3 div_less add.right_neutral add_left_cancel zero_neq_numeral)
    then show ?thesis unfolding off by simp
  qed
qed

lemma region_maps:
  fixes m nr :: nat
  shows "m < 4096 \<Longrightarrow> (2 * 512 + m div 8) div 512 = 2"
  "m < 4096 * nr \<Longrightarrow> 3 \<le> (3 * 512 + m div 8) div 512 \<and> (3 * 512 + m div 8) div 512 < 3 + nr"
proof -
  assume "m < 4096"
  then have "m div 8 < 512" by (simp add: less_mult_imp_div_less)
  then show "(2 * 512 + m div 8) div 512 = 2" by simp
next
  assume "m < 4096 * nr"
  then have "m div 8 < 512 * nr" by (simp add: less_mult_imp_div_less)
  then have "m div 8 div 512 < nr" by (simp add: less_mult_imp_div_less mult.commute)
  moreover have "(3 * 512 + m div 8) div 512 = 3 + m div 8 div 512" by simp
  ultimately show "3 \<le> (3 * 512 + m div 8) div 512 \<and> (3 * 512 + m div 8) div 512 < 3 + nr" by simp
qed

lemma chunk_bits: "m = 0 \<or> ((m - 1) div 2048 = j \<longleftrightarrow> 2048 * j + 1 \<le> m \<and> m < 2048 * j + 1 + 2048)" for m j :: nat
proof (cases m)
  case (Suc i)
  have "i div 2048 = j \<longleftrightarrow> 2048 * j \<le> i \<and> i < 2048 * j + 2048"
    using div_mult_mod_eq [of i 2048] mod_less_divisor [of 2048 i] div_nat_eqI [of 2048 j i] by auto
  then show ?thesis using Suc by (simp add: ac_simps)
qed simp

text \<open>What a creation does to the disk, region by region, gives the new volume.\<close>

lemma on_disk_create:
  assumes v: "vol_ok sb v" and lay: "layout sb" and od: "on_disk sb v D" and pl: "first_free_place sb v n k j"
    and imap: "\<And>m. m < 4096 \<Longrightarrow> bit (D' ROOT_DEV (2 * 512 + m div 8)) (m mod 8) \<longleftrightarrow> bit (D ROOT_DEV (2 * 512 + m div 8)) (m mod 8) \<or> m = k"
    and smap: "\<And>m. m < 4096 * unat (nr_smap_sects sb) \<Longrightarrow> bit (D' ROOT_DEV (3 * 512 + m div 8)) (m mod 8)
        \<longleftrightarrow> bit (D ROOT_DEV (3 * 512 + m div 8)) (m mod 8) \<or> 2048 * j + 1 \<le> m \<and> m < 2048 * j + 1 + 2048"
    and inode: "\<And>l i. l < 4096 \<Longrightarrow> i < 16 \<Longrightarrow> D' ROOT_DEV (inode_off sb l + i) =
        (if l = 0 then inode_bytes (grown (n < nents v) (nodes v 1)) ! i else if l = k - 1 then inode_bytes (new_node sb k j) ! i else D ROOT_DEV (inode_off sb l + i))"
    and dir: "\<And>m i. m < capacity v \<Longrightarrow> i < 16 \<Longrightarrow> m \<noteq> n \<Longrightarrow> D' ROOT_DEV (unat (n_1st_sect sb) * 512 + m * 16 + i) = D ROOT_DEV (unat (n_1st_sect sb) * 512 + m * 16 + i)"
    and ent: "\<And>i. i < 12 \<Longrightarrow> D' ROOT_DEV (unat (n_1st_sect sb) * 512 + n * 16 + 4 + i) = pad_name nm ! i"
      "\<And>i. i < 4 \<Longrightarrow> D' ROOT_DEV (unat (n_1st_sect sb) * 512 + n * 16 + i) = bytes_of_u32 (word_of_int (int k)) ! i"
  shows "on_disk sb (vol_create sb nm n k j v) D'"
proof -
  let ?v = "vol_create sb nm n k j v" and ?a = "unat (n_1st_sect sb) * 512"
  note P = pl [unfolded first_free_place_def]
  have k1: "k \<noteq> 1" using P root_inum [OF v] by auto
  have inum: "inums ?v = insert k (inums v)" using inums_create P by blast
  note O = od [unfolded on_disk_def]
  have slots: "slot_name ?v m = (if m = n then pad_name nm else slot_name v m)" "slot_num ?v m = (if m = n then int k else slot_num v m)" for m
    by (simp_all add: slot_name_def slot_num_def)
  have "D' ROOT_DEV (?a + m * 16 + 4 + i) = slot_name ?v m ! i" if "m < capacity v" "i < 12" for m i
  proof (cases "m = n")
    case False
    have "D' ROOT_DEV (?a + m * 16 + 4 + i) = D ROOT_DEV (?a + m * 16 + 4 + i)" using dir [OF that(1) _ False, of "4 + i"] that(2) by (simp add: add.assoc)
    then show ?thesis using O that False slots by simp
  qed (use that ent slots in simp)
  moreover have "D' ROOT_DEV (?a + m * 16 + i) = bytes_of_u32 (word_of_int (slot_num ?v m)) ! i" if "m < capacity v" "i < 4" for m i
    using dir [OF that(1), of i] ent(2) [OF that(2)] O that slots by (cases "m = n") simp_all
  moreover have "bit (D' ROOT_DEV (2 * 512 + m div 8)) (m mod 8) \<longleftrightarrow> m = 0 \<or> m \<in> inums ?v" if "m < 4096" for m
    using imap [OF that] O that inum by auto
  moreover have "bit (D' ROOT_DEV (3 * 512 + m div 8)) (m mod 8) \<longleftrightarrow> m = 0 \<or> (m - 1) div 2048 \<in> chunks ?v"
    if "m < 4096 * unat (nr_smap_sects sb)" for m
  proof -
    have "m = 0 \<or> ((m - 1) div 2048 = j \<longleftrightarrow> 2048 * j + 1 \<le> m \<and> m < 2048 * j + 1 + 2048)" using chunk_bits [of m j] by blast
    then show ?thesis using smap [OF that] O that by auto
  qed
  moreover have "D' ROOT_DEV (inode_off sb (l - 1) + i) = inode_bytes (nodes ?v l) ! i" if l: "l \<in> inums ?v" and i: "i < 16" for l i
  proof -
    have lb: "0 < l" "l < 4096" using l inum inums_bounds [OF v, of l] P by auto
    then have e: "l - 1 = 0 \<longleftrightarrow> l = 1" "l - 1 = k - 1 \<longleftrightarrow> l = k" "l - 1 < 4096" using P by auto
    show ?thesis using inode [OF e(3) i] O l i lb k1 unfolding e inum by auto
  qed
  ultimately show ?thesis unfolding on_disk_def by simp
qed

section \<open>The parts of a creation\<close>

text \<open>The two allocations.\<close>

lemma stored_alloc:
  assumes st: "stored sb v s" and pl: "first_free_place sb v n k j"
  obtains s1 s2 where "alloc_imap_bit ROOT_DEV s = Inr (int k, s1)"
    "alloc_smap_bit ROOT_DEV NR_DEFAULT_FILE_SECTS s1 = Inr (int (unat (n_1st_sect sb) + 2048 * j), s2)" "buffered s s2"
    "\<And>m. m < 4096 \<Longrightarrow> bit (disk s2 ROOT_DEV (2 * 512 + m div 8)) (m mod 8) \<longleftrightarrow> bit (disk s ROOT_DEV (2 * 512 + m div 8)) (m mod 8) \<or> m = k"
    "\<And>m. m < 4096 * unat (nr_smap_sects sb) \<Longrightarrow> bit (disk s2 ROOT_DEV (3 * 512 + m div 8)) (m mod 8)
        \<longleftrightarrow> bit (disk s ROOT_DEV (3 * 512 + m div 8)) (m mod 8) \<or> 2048 * j + 1 \<le> m \<and> m < 2048 * j + 1 + 2048"
    "\<And>d x. d \<noteq> ROOT_DEV \<or> x div 512 \<noteq> 2 \<and> (x div 512 < 3 \<or> 3 + unat (nr_smap_sects sb) \<le> x div 512) \<Longrightarrow> disk s2 d x = disk s d x"
proof -
  have lay: "layout sb" and ki: "kinv s" and gsb: "get_super_block ROOT_DEV s = Inr sb" and od: "on_disk sb v (disk s)"
    using st by (simp_all add: stored_def)
  note P = pl [unfolded first_free_place_def] and O = od [unfolded on_disk_def]
  let ?nr = "unat (nr_smap_sects sb)"
  have L: "nr_imap_sects sb = 1" "unat (n_1st_sect sb) = 259 + ?nr" "unat (n_1st_sect sb) + 4096 * ?nr < 2 ^ 22" using lay by (simp_all add: layout_def)
  have im: "map_bit s ROOT_DEV 2 m \<longleftrightarrow> m = 0 \<or> m \<in> inums v" if "m < 4096" for m using O that by (simp add: map_bit_def)
  obtain s1 where s1: "alloc_imap_bit ROOT_DEV s = Inr (int k, s1)" "buffered s s1"
    and b1: "\<forall>m < 4096. map_bit s1 ROOT_DEV 2 m \<longleftrightarrow> map_bit s ROOT_DEV 2 m \<or> m = k"
    and d1: "\<forall>d x. d \<noteq> ROOT_DEV \<or> x div 512 \<noteq> 2 \<longrightarrow> disk s1 d x = disk s d x"
    using alloc_imap_bit_correct [OF ki ROOT_DEV_major gsb, of k] L(1) P im by auto
  have gsb1: "get_super_block ROOT_DEV s1 = Inr sb" and ki1: "kinv s1"
    using buffered_fields [OF s1(2)] get_super_block_cong [of s1 s] gsb ki by (simp_all add: kinv_def seg_base_def)
  have sm: "map_bit s1 ROOT_DEV 3 m \<longleftrightarrow> m = 0 \<or> (m - 1) div 2048 \<in> chunks v" if "m < 4096 * ?nr" for m
    using O that d1 region_maps(2) [OF that] by (auto simp: map_bit_def)
  have fit: "2048 * j + 1 + 2048 \<le> 4096 * ?nr" using P by simp
  have before: "map_bit s1 ROOT_DEV 3 m" if "m < 2048 * j + 1" for m
  proof (cases "m = 0")
    case False
    then have "(m - 1) div 2048 < j" using that by (simp add: div_less_iff_less_mult mult.commute)
    then show ?thesis using sm [of m] that fit P by auto
  qed (use sm [of m] that fit in auto)
  have free: "\<not> map_bit s1 ROOT_DEV 3 m" if "2048 * j + 1 \<le> m" "m < 2048 * j + 1 + 2048" for m
    using sm [of m] that fit chunk_bits [of m j] P by auto
  have arith: "2048 * j + 1 + unat (n_1st_sect sb) \<le> 2 ^ 31" "3 + ?nr \<le> 2 ^ 22" "1 < unat (n_1st_sect sb)"
    "3 = 2 + unat (nr_imap_sects sb)" using L fit by simp_all
  obtain s2 where s2: "alloc_smap_bit ROOT_DEV (int 2048) s1 = Inr (int (2048 * j + 1) - 1 + int (unat (n_1st_sect sb)), s2)" "buffered s1 s2"
    and b2: "\<forall>m < 4096 * ?nr. map_bit s2 ROOT_DEV 3 m \<longleftrightarrow> map_bit s1 ROOT_DEV 3 m \<or> 2048 * j + 1 \<le> m \<and> m < 2048 * j + 1 + 2048"
    and d2: "\<forall>d x. d \<noteq> ROOT_DEV \<or> x div 512 < 3 \<or> 3 + ?nr \<le> x div 512 \<longrightarrow> disk s2 d x = disk s1 d x"
    using alloc_smap_ok [OF ki1 ROOT_DEV_major gsb1 arith(4) refl arith(2,3,1) _ fit before free] by auto
  have r: "int (2048 * j + 1) - 1 + int (unat (n_1st_sect sb)) = int (unat (n_1st_sect sb) + 2048 * j)" by simp
  show thesis
  proof (rule that)
    show "alloc_imap_bit ROOT_DEV s = Inr (int k, s1)" by (rule s1(1))
    show "alloc_smap_bit ROOT_DEV NR_DEFAULT_FILE_SECTS s1 = Inr (int (unat (n_1st_sect sb) + 2048 * j), s2)" using s2(1) unfolding r by simp
    show "buffered s s2" by (rule buffered_trans [OF s1(2) s2(2)])
    show "bit (disk s2 ROOT_DEV (2 * 512 + m div 8)) (m mod 8) \<longleftrightarrow> bit (disk s ROOT_DEV (2 * 512 + m div 8)) (m mod 8) \<or> m = k" if "m < 4096" for m
      using b1 d2 region_maps(1) [OF that] that by (auto simp: map_bit_def)
    show "bit (disk s2 ROOT_DEV (3 * 512 + m div 8)) (m mod 8)
        \<longleftrightarrow> bit (disk s ROOT_DEV (3 * 512 + m div 8)) (m mod 8) \<or> 2048 * j + 1 \<le> m \<and> m < 2048 * j + 1 + 2048" if "m < 4096 * ?nr" for m
      using b2 d1 region_maps(2) [OF that] that by (auto simp: map_bit_def)
    show "disk s2 d x = disk s d x" if "d \<noteq> ROOT_DEV \<or> x div 512 \<noteq> 2 \<and> (x div 512 < 3 \<or> 3 + ?nr \<le> x div 512)" for d x
      using d1 d2 that by auto
  qed
qed

text \<open>The new i-node.\<close>

lemma stored_new_inode:
  assumes flat: "fs_flat s" and gsb: "get_super_block ROOT_DEV s = Inr sb" and lay: "layout sb" and c: "cached v r (inode_table s)"
    and k: "0 < k" "k < 4096" "k \<notin> inums v" and free: "\<exists>q < NR_INODE. i_cnt (inode_of s q) = 0" and j: "2048 * (j + 1) < 4096 * unat (nr_smap_sects sb)"
  obtains q s' where "new_inode ROOT_DEV (int k) (int (unat (n_1st_sect sb) + 2048 * j)) s = Inr (q, s')" "q < NR_INODE" "i_cnt (inode_of s q) = 0"
    "inode_table s' = (inode_table s)[q := new_node sb k j]" "progressed s s'"
    "\<And>i. i < 16 \<Longrightarrow> disk s' ROOT_DEV (inode_off sb (k - 1) + i) = inode_bytes (new_node sb k j) ! i"
    "\<And>d x. \<not> (d = ROOT_DEV \<and> inode_off sb (k - 1) \<le> x \<and> x < inode_off sb (k - 1) + 16) \<Longrightarrow> disk s' d x = disk s d x"
proof -
  note C = cachedD [OF c]
  have "\<forall>p \<in> set (inode_table s). i_cnt p = 0 \<or> i_dev p \<noteq> ROOT_DEV \<or> i_num p \<noteq> int k"
    using C(4) k(3) C(1) by (metis in_set_conv_nth of_nat_eq_iff)
  moreover have "\<exists>p \<in> set (inode_table s). i_cnt p = 0" using free C(1) by (metis nth_mem)
  ultimately obtain q where scan: "inode_scan ROOT_DEV (int k) (inode_table s) 0 None = (None, Some q)"
    using scan_none [of "inode_table s" ROOT_DEV "int k", where i = 0 and q = None] by (cases "inode_scan ROOT_DEV (int k) (inode_table s) 0 None") auto
  have q: "q < NR_INODE" "i_cnt (inode_of s q) = 0" using inode_scan_free [OF scan] C(1) by auto
  have kk: "int (k - 1) + 1 = int k" and fit: "inodes_fit sb (k - 1)" and ql: "q < length (inode_table s)"
    using k layout_inodes(1) [OF lay, of "k - 1"] q(1) C(1) by simp_all
  obtain p where p: "inode_bytes p = disk_inode s ROOT_DEV sb (k - 1)" using inode_of_list [of "disk_inode s ROOT_DEV sb (k - 1)"] by (auto simp: disk_inode_def)
  let ?p = "p\<lparr>i_dev := ROOT_DEV, i_cnt := 1, i_num := int k\<rparr>"
  obtain s1 where s1: "get_inode ROOT_DEV (int k) s = Inr (Some q, s1)" "buffered (upd_inode s q (\<lambda>_. ?p)) s1" "disk s1 = disk s"
    using get_inode_load [OF flat ROOT_DEV_major gsb fit, unfolded kk, OF scan ql p [symmetric]] by blast
  have t1: "inode_table s1 = (inode_table s)[q := ?p]" using buffered_fields(2) [OF s1(2)] by (simp add: upd_inode_def)
  let ?f = "\<lambda>n. n\<lparr>i_mode := I_REGULAR, i_size := 0, i_start_sect := word_of_int (int (unat (n_1st_sect sb) + 2048 * j)),
      i_nr_sects := word_of_int NR_DEFAULT_FILE_SECTS, i_dev := ROOT_DEV, i_cnt := 1, i_num := int k\<rparr>"
  have start: "word_of_int (int (unat (n_1st_sect sb) + 2048 * j)) = n_1st_sect sb + of_nat (2048 * j)" by simp
  have new: "?f x = new_node sb k j" for x unfolding new_node_def start by (rule inode.equality) simp_all
  let ?s2 = "upd_inode s1 q ?f"
  have t2: "inode_table ?s2 = (inode_table s)[q := new_node sb k j]" using t1 ql new by (simp add: upd_inode_def)
  then have n2: "inode_of ?s2 q = new_node sb k j" using ql by simp
  have mv: "progressed s ?s2" using progressed_trans [OF progressed_trans [OF progressed_upd_inode progressed_buffered [OF s1(2)]] progressed_upd_inode] .
  have f2: "fs_flat ?s2" "get_super_block ROOT_DEV ?s2 = Inr sb" using progressed_fields [OF mv] flat gsb get_super_block_cong [of ?s2 s] by simp_all
  have nf: "i_dev (new_node sb k j) = ROOT_DEV" "i_num (new_node sb k j) = int (k - 1) + 1" unfolding kk by (simp_all add: new_node_def)
  obtain s3 where s3: "sync_inode q ?s2 = Inr s3" "buffered ?s2 s3" "disk_inode s3 ROOT_DEV sb (k - 1) = inode_bytes (new_node sb k j)"
    "\<forall>d x. \<not> (d = ROOT_DEV \<and> inode_off sb (k - 1) \<le> x \<and> x < inode_off sb (k - 1) + 16) \<longrightarrow> disk s3 d x = disk ?s2 d x"
    using sync_inode_ok [OF f2(1), of q sb "k - 1"] f2(2) fit unfolding n2 nf by (metis ROOT_DEV_major)
  show thesis
  proof (rule that [OF _ q])
    show "new_inode ROOT_DEV (int k) (int (unat (n_1st_sect sb) + 2048 * j)) s = Inr (q, s3)"
      using s1(1) s3(1) by (simp add: new_inode_def Let_def)
    show "inode_table s3 = (inode_table s)[q := new_node sb k j]" using buffered_fields(2) [OF s3(2)] t2 by simp
    show "progressed s s3" by (rule progressed_trans [OF mv progressed_buffered [OF s3(2)]])
    show "disk s3 ROOT_DEV (inode_off sb (k - 1) + i) = inode_bytes (new_node sb k j) ! i" if "i < 16" for i
      using arg_cong [OF s3(3), of "\<lambda>xs. xs ! i"] that by (simp add: disk_inode_def)
    show "disk s3 d x = disk s d x" if "\<not> (d = ROOT_DEV \<and> inode_off sb (k - 1) \<le> x \<and> x < inode_off sb (k - 1) + 16)" for d x
      using s3(4) that s1(3) by (simp add: upd_inode_def)
  qed
qed

text \<open>The table after a creation: the new i-node in a free slot and the directory with its new size.\<close>

lemma cached_create:
  assumes c: "cached v r t" and v: "vol_ok sb v" and pl: "first_free_place sb v n k j" and q: "q < NR_INODE" "i_cnt (t ! q) = 0"
  shows "cached (vol_create sb nm n k j v) r (t[q := new_node sb k j, r := grown (n < nents v) (t ! r)])"
proof -
  let ?v = "vol_create sb nm n k j v" and ?t = "t[q := new_node sb k j, r := grown (n < nents v) (t ! r)]"
  note C = cachedD [OF c] and P = pl [unfolded first_free_place_def]
  have k1: "k \<noteq> 1" using P root_inum [OF v] by auto
  have inum: "inums ?v = insert k (inums v)" using inums_create P by blast
  have qr: "q \<noteq> r" using C(6) q(2) by auto
  have nth: "?t ! i = (if i = r then grown (n < nents v) (t ! r) else if i = q then new_node sb k j else t ! i)" if "i < NR_INODE" for i
    using C(1,2) q(1) qr that by (simp add: nth_list_update)
  have g: "i_cnt (grown b x) = i_cnt x" for b x by (simp add: grown_def)
  have root: "same_node (t ! r) (nodes v 1)" "i_dev (t ! r) = ROOT_DEV" using C(4) [OF C(2,6)] C(7) by auto
  have num: "i_cnt (?t ! i) \<noteq> 0 \<Longrightarrow> i_dev (?t ! i) = ROOT_DEV \<and> (\<exists>l \<in> inums ?v. i_num (?t ! i) = int l \<and> same_node (?t ! i) (nodes ?v l))
      \<and> (i = q \<longleftrightarrow> i_num (?t ! i) = int k)" if i: "i < NR_INODE" for i
  proof -
    assume cnt: "i_cnt (?t ! i) \<noteq> 0"
    consider "i = r" | "i = q" "i \<noteq> r" | "i \<noteq> r" "i \<noteq> q" by blast
    then show ?thesis
    proof cases
      case 1
      then show ?thesis using nth [OF i] root C(7) k1 qr inum root_inum [OF v] by (auto simp: same_node_def grown_def intro!: bexI [of _ 1])
    next
      case 2
      then show ?thesis using nth [OF i] k1 by (auto simp: inum new_node_def same_node_def intro!: bexI [of _ k])
    next
      case 3
      then obtain l where l: "i_dev (t ! i) = ROOT_DEV" "l \<in> inums v" "i_num (t ! i) = int l" "same_node (t ! i) (nodes v l)"
        using C(4) [OF i] cnt nth [OF i] by auto
      have "l \<noteq> 1" using C(5) [OF i C(2)] C(6,7) cnt nth [OF i] 3 l(3) by auto
      moreover have "l \<noteq> k" using l(2) P by auto
      ultimately show ?thesis using 3 l nth [OF i] by (auto simp: inum intro!: bexI [of _ l])
    qed
  qed
  have uniq: "i = i'" if "i < NR_INODE" "i' < NR_INODE" "i_cnt (?t ! i) \<noteq> 0" "i_cnt (?t ! i') \<noteq> 0" "i_num (?t ! i) = i_num (?t ! i')" for i i'
  proof (cases "i = q \<or> i' = q")
    case True
    then show ?thesis using num [OF that(1,3)] num [OF that(2,4)] that(5) by auto
  next
    case False
    then have "i_cnt (?t ! x) = i_cnt (t ! x) \<and> i_num (?t ! x) = i_num (t ! x)" if "x < NR_INODE" "x \<noteq> q" for x
      using nth [OF that(1)] that(2) g by auto
    then show ?thesis using C(5) [OF that(1,2)] that False by auto
  qed
  show ?thesis
  proof (rule cachedI)
    show "length ?t = NR_INODE" "r < NR_INODE" using C(1,2) by simp_all
    show "i_cnt (?t ! r) \<noteq> 0" "i_num (?t ! r) = 1" using nth [OF C(2)] C(6,7) g by simp_all
    show "0 \<le> i_cnt (?t ! i)" if "i < NR_INODE" for i using nth [OF that] C(3) [OF that] C(3) [OF C(2)] g by (simp add: new_node_def)
    show "i_dev (?t ! i) = ROOT_DEV \<and> (\<exists>l \<in> inums ?v. i_num (?t ! i) = int l \<and> same_node (?t ! i) (nodes ?v l))"
      if "i < NR_INODE" "i_cnt (?t ! i) \<noteq> 0" for i using num [OF that] by blast
  qed (rule uniq)
qed

text \<open>The entry goes to the first free slot of the volume.\<close>

lemma first_free_slot:
  assumes v: "vol_ok sb v" and pl: "first_free_place sb v n k j" and sz: "unat (i_size R) = 16 * nents v"
    and num: "\<And>m. m < nents v \<Longrightarrow> ent_nr s R m = slot_num v m"
  shows "slot_of s R 0 = (n < nents v, n)"
proof -
  note P = pl [unfolded first_free_place_def]
  have used: "ent_nr s R m = 0 \<longleftrightarrow> entries v m = None" if "m < nents v" for m
    using num [OF that] vol_okD(1) [OF v, of m] by (auto simp: slot_num_def split: option.splits)
  show ?thesis
  proof (cases "n < nents v")
    case True
    then have "find (\<lambda>m. ent_nr s R m = 0) [0..<nents v] = Some n"
      using used P by (auto simp: find_Some_iff intro!: exI [of _ n])
    then show ?thesis using True sz by (simp add: slot_of_def)
  next
    case False
    then have "n = nents v" using free_slot_le [OF v pl] by simp
    moreover have "find (\<lambda>m. ent_nr s R m = 0) [0..<nents v] = None"
      using used P False by (auto simp: find_None_iff)
    ultimately show ?thesis using sz by (simp add: slot_of_def)
  qed
qed

lemma create_file_ok:
  assumes st: "stored sb v s" and path: "strip_path path s = Some (nm, root_inode s)" and nm: "plain_name nm"
    and fresh: "\<And>i l. entries v i \<noteq> Some (nm, l)" and pl: "first_free_place sb v n k j" and free: "\<exists>q < NR_INODE. i_cnt (inode_of s q) = 0"
  obtains q s' where "create_file path s = Inr (Some q, s')" "q < NR_INODE" "i_cnt (inode_of s q) = 0" "stored sb (vol_create sb nm n k j v) s'" "progressed s s'"
    "inode_table s' = (inode_table s)[q := new_node sb k j, root_inode s := grown (n < nents v) (inode_of s (root_inode s))]"
    "\<And>d x. d \<noteq> ROOT_DEV \<or> (unat (n_1st_sect sb) + 2048) * 512 \<le> x \<Longrightarrow> disk s' d x = disk s d x"
proof -
  have v: "vol_ok sb v" and lay: "layout sb" and ki: "kinv s" and gsb: "get_super_block ROOT_DEV s = Inr sb" and od: "on_disk sb v (disk s)"
    and c: "cached v (root_inode s) (inode_table s)" using st by (simp_all add: stored_def)
  note P = pl [unfolded first_free_place_def] and C = cachedD [OF c] and R = stored_root [OF st]
  let ?r = "root_inode s" and ?R = "inode_of s (root_inode s)" and ?a = "unat (n_1st_sect sb) * 512" and ?found = "n < nents v"
  obtain s1 s2 where a: "alloc_imap_bit ROOT_DEV s = Inr (int k, s1)"
    "alloc_smap_bit ROOT_DEV NR_DEFAULT_FILE_SECTS s1 = Inr (int (unat (n_1st_sect sb) + 2048 * j), s2)" "buffered s s2"
    and i2: "\<And>m. m < 4096 \<Longrightarrow> bit (disk s2 ROOT_DEV (2 * 512 + m div 8)) (m mod 8) \<longleftrightarrow> bit (disk s ROOT_DEV (2 * 512 + m div 8)) (m mod 8) \<or> m = k"
    and m2: "\<And>m. m < 4096 * unat (nr_smap_sects sb) \<Longrightarrow> bit (disk s2 ROOT_DEV (3 * 512 + m div 8)) (m mod 8)
        \<longleftrightarrow> bit (disk s ROOT_DEV (3 * 512 + m div 8)) (m mod 8) \<or> 2048 * j + 1 \<le> m \<and> m < 2048 * j + 1 + 2048"
    and d2: "\<And>d x. d \<noteq> ROOT_DEV \<or> x div 512 \<noteq> 2 \<and> (x div 512 < 3 \<or> 3 + unat (nr_smap_sects sb) \<le> x div 512) \<Longrightarrow> disk s2 d x = disk s d x"
    using stored_alloc [OF st pl] by metis
  have s2: "fs_flat s2" "get_super_block ROOT_DEV s2 = Inr sb" "inode_table s2 = inode_table s"
    using buffered_fields [OF a(3)] fs_flatI [OF ki] gsb get_super_block_cong [of s2 s] by simp_all
  obtain q s3 where q: "new_inode ROOT_DEV (int k) (int (unat (n_1st_sect sb) + 2048 * j)) s2 = Inr (q, s3)" "q < NR_INODE" "i_cnt (inode_of s q) = 0"
    "inode_table s3 = (inode_table s)[q := new_node sb k j]" "progressed s2 s3"
    and n3: "\<And>i. i < 16 \<Longrightarrow> disk s3 ROOT_DEV (inode_off sb (k - 1) + i) = inode_bytes (new_node sb k j) ! i"
    and d3: "\<And>d x. \<not> (d = ROOT_DEV \<and> inode_off sb (k - 1) \<le> x \<and> x < inode_off sb (k - 1) + 16) \<Longrightarrow> disk s3 d x = disk s2 d x"
    using stored_new_inode [OF s2(1,2) lay, of v ?r k j] c P free unfolding s2(3) by metis
  have qr: "q \<noteq> ?r" using q(3) C(6) by auto
  have mv3: "progressed s s3" by (rule progressed_trans [OF progressed_buffered [OF a(3)] q(5)])
  have R3: "inode_of s3 ?r = ?R" "?r < length (inode_table s3)" using q(4) qr R(1) by simp_all
  have k: "k - 1 < 4096" "0 < k" using P by auto
  have dir3: "disk s3 d x = disk s d x" if "d \<noteq> ROOT_DEV \<or> ?a \<le> x" for d x
  proof -
    have "\<not> (d = ROOT_DEV \<and> inode_off sb (k - 1) \<le> x \<and> x < inode_off sb (k - 1) + 16)" using layout_inodes(3) [OF lay k(1)] that by auto
    then show ?thesis using d3 [of d x] d2 [of d x] region_dir(1,2) [OF lay, of x] that by auto
  qed
  have ent3: "ent_nr s3 ?R m = ent_nr s ?R m" "ent_name s3 ?R m = ent_name s ?R m" for m
    by (simp_all add: ent_nr_def ent_name_def ent_at_def R dir3)
  have "ent_nr s3 ?R m = slot_num v m" if "m < nents v" for m using ent3 stored_entry(2) [OF st, of m] that vol_okD(5) [OF v] by simp
  from first_free_slot [OF v pl R(7) this] have slot: "slot_of s3 ?R 0 = (?found, n)" .
  have f3: "fs_flat s3" "get_super_block ROOT_DEV s3 = Inr sb"
    using progressed_fields(3,9) [OF mv3] fs_flatI [OF ki] gsb get_super_block_cong [of s3 s] by simp_all
  have fit0: "inodes_fit sb 0" "inode_off sb 0 + 16 \<le> unat (i_start_sect ?R) * 512" using layout_inodes [OF lay, of 0] R(6) by simp_all
  have len: "length nm \<le> 11" using nm by (simp add: plain_name_def)
  obtain s4 where s4: "new_dir_entry ?r (int k) nm s3 = Inr s4" "buffered (s3\<lparr>inode_table := (inode_table s3)[?r := grown ?found ?R]\<rparr>) s4"
    "disk_inode s4 ROOT_DEV sb 0 = inode_bytes (grown ?found ?R)"
    and d4: "\<And>e x. disk s4 e x =
         (if e = ROOT_DEV \<and> ent_at ?R n \<le> x \<and> x < ent_at ?R n + length nm + 5 then entry_bytes (int k) nm ! (x - ent_at ?R n)
          else if e = ROOT_DEV \<and> inode_off sb 0 \<le> x \<and> x < inode_off sb 0 + 16 then inode_bytes (grown ?found ?R) ! (x - inode_off sb 0)
          else disk s3 e x)"
    using new_dir_entry_ok [OF f3(1) R3(2) R3(1) [symmetric] R(5), of sb 0 nm ?found n "int k"] f3(2) fit0 len slot R(2,3) by auto
  have at: "ent_at ?R m = ?a + m * 16" for m by (simp add: ent_at_def R(6))
  have below: "disk s4 e x = disk s3 e x" if "x < ?a" "\<not> (inode_off sb 0 \<le> x \<and> x < inode_off sb 0 + 16)" for e x
    using d4 [of e x] that by (auto simp: at)
  have above: "disk s4 e x = disk s3 e x" if "?a \<le> x" "\<not> (?a + n * 16 \<le> x \<and> x < ?a + n * 16 + length nm + 5)" for e x
    using d4 [of e x] that fit0(2) R(6) by (auto simp: at)
  have new: "ent_nr s4 ?R n = int k" "ent_name s4 ?R n = pad_name nm"
  proof -
    have ps: "is_cint (int k)" using P by (simp add: is_cint_def)
    have blank: "ent_name s3 ?R n = replicate 12 0" using ent3(2) stored_entry(1) [OF st, of n] P by (simp add: slot_name_def)
    have "disk s4 (i_dev ?R) (ent_at ?R n + x) = (if x < length nm + 5 then entry_bytes (int k) nm ! x else disk s3 (i_dev ?R) (ent_at ?R n + x))" if "x < 16" for x
      using d4 [of ROOT_DEV "ent_at ?R n + x"] fit0(2) R(2,6) by (auto simp: at)
    from new_entry_bytes [OF len ps blank this] show "ent_nr s4 ?R n = int k" "ent_name s4 ?R n = pad_name nm" by blast+
  qed
  have root': "same_node (grown ?found ?R) (grown ?found (nodes v 1))" using R(4) by (simp add: same_node_def grown_def)
  have same_bytes: "same_node x y \<Longrightarrow> inode_bytes x = inode_bytes y" for x y by (simp add: same_node_def inode_bytes_def)
  have od4: "on_disk sb (vol_create sb nm n k j v) (disk s4)"
  proof (rule on_disk_create [OF v lay od pl])
    fix m :: nat assume m: "m < 4096"
    have x: "2 * 512 + m div 8 < ?a" "\<not> inode_off sb l \<le> 2 * 512 + m div 8" if "l < 4096" for l
      using region_maps(1) [OF m] lay layout_inodes(2) [OF lay that] m by (auto simp: layout_def)
    show "bit (disk s4 ROOT_DEV (2 * 512 + m div 8)) (m mod 8) \<longleftrightarrow> bit (disk s ROOT_DEV (2 * 512 + m div 8)) (m mod 8) \<or> m = k"
      using i2 [OF m] below [OF x(1) [of 0]] d3 x(2) [of 0] x(2) [OF k(1)] by auto
  next
    fix m assume m: "m < 4096 * unat (nr_smap_sects sb)"
    then have "m div 8 < 512 * unat (nr_smap_sects sb)" by (simp add: less_mult_imp_div_less)
    then have x: "3 * 512 + m div 8 < ?a" "\<not> inode_off sb l \<le> 3 * 512 + m div 8" if "l < 4096" for l
      using lay layout_inodes(2) [OF lay that] by (auto simp: layout_def)
    show "bit (disk s4 ROOT_DEV (3 * 512 + m div 8)) (m mod 8)
        \<longleftrightarrow> bit (disk s ROOT_DEV (3 * 512 + m div 8)) (m mod 8) \<or> 2048 * j + 1 \<le> m \<and> m < 2048 * j + 1 + 2048"
      using m2 [OF m] below [OF x(1) [of 0]] d3 x(2) [of 0] x(2) [OF k(1)] by auto
  next
    fix l i :: nat assume l: "l < 4096" and i: "i < 16"
    note ri = region_inode [OF lay l, of i] and rz = region_inode(4) [OF lay l, of i 0]
    have e0: "inode_off sb 0 \<le> inode_off sb l + i \<and> inode_off sb l + i < inode_off sb 0 + 16 \<longleftrightarrow> l = 0"
      using layout_inodes(2) [OF lay l] layout_inodes(2) [OF lay, of 0] i by auto
    have ek: "inode_off sb (k - 1) \<le> inode_off sb l + i \<and> inode_off sb l + i < inode_off sb (k - 1) + 16 \<longleftrightarrow> l = k - 1"
      using layout_inodes(2) [OF lay l] layout_inodes(2) [OF lay k(1)] i by auto
    have "disk s2 ROOT_DEV (inode_off sb l + i) = disk s ROOT_DEV (inode_off sb l + i)" using d2 ri(1,2) i by simp
    moreover have "disk s4 ROOT_DEV (inode_off sb 0 + i) = inode_bytes (grown ?found (nodes v 1)) ! i"
      using arg_cong [OF s4(3), of "\<lambda>xs. xs ! i"] i same_bytes [OF root'] by (simp add: disk_inode_def)
    ultimately show "disk s4 ROOT_DEV (inode_off sb l + i) =
        (if l = 0 then inode_bytes (grown ?found (nodes v 1)) ! i else if l = k - 1 then inode_bytes (new_node sb k j) ! i else disk s ROOT_DEV (inode_off sb l + i))"
      using below [of "inode_off sb l + i" ROOT_DEV] ri(3) i e0 ek n3 [OF i] d3 [of ROOT_DEV "inode_off sb l + i"] by auto
  next
    fix m i assume "m < capacity v" "i < (16 :: nat)" "m \<noteq> n"
    then have "\<not> (?a + n * 16 \<le> ?a + m * 16 + i \<and> ?a + m * 16 + i < ?a + n * 16 + length nm + 5)" using len by auto
    then show "disk s4 ROOT_DEV (?a + m * 16 + i) = disk s ROOT_DEV (?a + m * 16 + i)" using above dir3 by simp
  next
    fix i :: nat assume "i < 12"
    then show "disk s4 ROOT_DEV (?a + n * 16 + 4 + i) = pad_name nm ! i"
      using arg_cong [OF new(2), of "\<lambda>xs. xs ! i"] by (simp add: ent_name_def at R(2))
  next
    fix i :: nat assume i: "i < 4"
    then have "disk s4 ROOT_DEV (?a + n * 16 + i) = entry_bytes (int k) nm ! i" using d4 [of ROOT_DEV "?a + n * 16 + i"] by (simp add: at)
    then show "disk s4 ROOT_DEV (?a + n * 16 + i) = bytes_of_u32 (word_of_int (int k)) ! i" using i by (simp add: entry_bytes_def nth_append)
  qed
  have t4: "inode_table s4 = (inode_table s)[q := new_node sb k j, ?r := grown ?found ?R]" using buffered_fields(2) [OF s4(2)] q(4) by simp
  have mv4: "progressed s s4"
  proof -
    have "progressed s3 (s3\<lparr>inode_table := (inode_table s3)[?r := grown ?found ?R]\<rparr>)" by (simp add: progressed_def)
    then show ?thesis using progressed_trans [OF mv3 progressed_trans [OF _ progressed_buffered [OF s4(2)]]] by blast
  qed
  show thesis
  proof (rule that)
    show "create_file path s = Inr (Some q, s4)"
    proof -
      have "i_num (inode_of s3 q) = int k" using q(2,4) C(1) by (simp add: new_node_def)
      then show ?thesis using a(1,2) q(1) s4(1) path R(2) by (simp add: create_file_def Let_def)
    qed
    show "stored sb (vol_create sb nm n k j v) s4"
      using cached_create [OF c v pl q(2,3)] od4 t4 by (intro storedI [OF st mv4 vol_create_ok [OF v lay pl nm fresh]]) simp_all
    show "disk s4 d x = disk s d x" if "d \<noteq> ROOT_DEV \<or> (unat (n_1st_sect sb) + 2048) * 512 \<le> x" for d x
    proof (cases "d = ROOT_DEV")
      case True
      then have x: "?a + 2048 * 512 \<le> x" using that by (simp add: algebra_simps)
      moreover have "n * 16 + 16 \<le> 2048 * 512" using P vol_okD(6) [OF v] by simp
      ultimately have "\<not> x < ?a + n * 16 + length nm + 5" using len by linarith
      then show ?thesis using above [of x d] dir3 [of d x] x by simp
    qed (use d4 [of d x] dir3 in auto)
  qed (rule q(2) q(3) mv4 t4)+
qed

end
