(* ===== verification/Fs_Fresh.thy ===== *)
theory Fs_Fresh
  imports Fs_Volume
begin

text \<open>
  The volume that \<^verbatim>\<open>init_fs\<close> makes: the root directory with itself and the three terminals. Only the first sector of the directory is cleared,
  so that its capacity is the 32 entries of one sector.
\<close>

section \<open>The fresh volume\<close>

definition fresh_vol :: "super_block \<Rightarrow> volume" where
  "fresh_vol sb = \<lparr>entries = (\<lambda>n. if n < 4 then Some (made_name n, n + 1) else None), nodes = (\<lambda>k. made_inode sb (k - 1)), chunks = {0}, capacity = 32\<rparr>"

lemma fresh_vol_fields [simp]:
  "entries (fresh_vol sb) n = (if n < 4 then Some (made_name n, n + 1) else None)" "nodes (fresh_vol sb) k = made_inode sb (k - 1)"
  "chunks (fresh_vol sb) = {0}" "capacity (fresh_vol sb) = 32"
  by (simp_all add: fresh_vol_def)

lemma fresh_nents: "nents (fresh_vol sb) = 4"
  by (simp add: nents_def made_inode_def root_dir_inode_def)

lemma fresh_inums: "inums (fresh_vol sb) = {1..4}"
proof -
  have "k \<in> inums (fresh_vol sb) \<longleftrightarrow> k \<in> {1..4}" for k
    using le_Suc_ex [of 1 k] by (force simp: inums_def split: if_splits)
  then show ?thesis by blast
qed

lemma less_4: "n < 4 \<Longrightarrow> n = 0 \<or> n = 1 \<or> n = 2 \<or> n = 3" for n :: nat
  by linarith

lemma made_name_plain: "n < 4 \<Longrightarrow> plain_name (made_name n)"
  using less_4 [of n] by (auto simp: plain_name_def made_name_def tty_name_def)

lemma made_name_inj: "n < 4 \<Longrightarrow> m < 4 \<Longrightarrow> made_name n = made_name m \<longleftrightarrow> n = m"
  using less_4 [of n] less_4 [of m] by (auto simp: made_name_def tty_name_def)

lemma fresh_vol_ok: "vol_ok sb (fresh_vol sb)"
proof -
  have reg: "i_mode (made_inode sb k) \<noteq> I_REGULAR" for k by (simp add: made_inode_def root_dir_inode_def tty_inode_def const_simps)
  have root: "i_mode (made_inode sb 0) = I_DIRECTORY" "i_start_sect (made_inode sb 0) = n_1st_sect sb" "unat (i_size (made_inode sb 0)) = 64"
    by (simp_all add: made_inode_def root_dir_inode_def)
  show ?thesis
    unfolding vol_ok_def fresh_nents using reg
    by (auto simp: made_name_plain made_name_inj root made_name_def [of 0] split: if_splits)
qed

lemma fresh_cached: "cached (fresh_vol sb) 0 (fresh_root sb # replicate 63 no_inode)"
proof (rule cachedI)
  have nth: "(fresh_root sb # replicate 63 no_inode) ! q = (if q = 0 then fresh_root sb else no_inode)" if "q < NR_INODE" for q
    using that by (auto simp: nth_Cons')
  have free: "i_cnt no_inode = 0" "i_cnt (fresh_root sb) = 1" "i_dev (fresh_root sb) = ROOT_DEV" "i_num (fresh_root sb) = 1" "same_node (fresh_root sb) (made_inode sb 0)"
    by (simp_all add: no_inode_def fresh_root_def same_node_def made_inode_def)
  show "q = q'" if "q < NR_INODE" "q' < NR_INODE" "i_cnt ((fresh_root sb # replicate 63 no_inode) ! q) \<noteq> 0" "i_cnt ((fresh_root sb # replicate 63 no_inode) ! q') \<noteq> 0" for q q'
    using that by (simp add: nth free split: if_splits)
  show "i_dev ((fresh_root sb # replicate 63 no_inode) ! q) = ROOT_DEV \<and> (\<exists>k \<in> inums (fresh_vol sb). i_num ((fresh_root sb # replicate 63 no_inode) ! q) = int k
      \<and> same_node ((fresh_root sb # replicate 63 no_inode) ! q) (nodes (fresh_vol sb) k))"
    if "q < NR_INODE" "i_cnt ((fresh_root sb # replicate 63 no_inode) ! q) \<noteq> 0" for q
    using that by (auto simp: nth free fresh_inums split: if_splits intro!: bexI [of _ 1])
  show "0 \<le> i_cnt ((fresh_root sb # replicate 63 no_inode) ! q)" if "q < NR_INODE" for q
    using that by (simp add: nth free)
qed (simp_all add: fresh_root_def)

section \<open>On the disk\<close>

lemma image_dir:
  assumes "unat (n_1st_sect sb) = 259 + unat (nr_smap_sects sb)" and "0 < unat (nr_smap_sects sb)" and "n < 32" and "k < 16"
  shows "fs_image sb D (unat (n_1st_sect sb) * 512 + n * 16 + k) = (if n < 4 \<and> k < length (made_entry n) then made_entry n ! k else 0)"
proof -
  have l: "n * 16 + k < 512" "(n * 16 + k) div 16 = n" "(n * 16 + k) mod 16 = k" "n * 16 + k < 16 * 4 \<longleftrightarrow> n < 4" using assms(3,4) by auto
  have "fs_image sb D ((259 + unat (nr_smap_sects sb)) * 512 + (n * 16 + k)) = dir_img (n * 16 + k)"
    using fs_image_at [OF l(1), of sb D "259 + unat (nr_smap_sects sb)"] assms(2) by simp
  then show ?thesis unfolding assms(1) dir_img_def records_img_def l(2-4) by (simp add: add.assoc)
qed

lemma made_entry_name: "n < 4 \<Longrightarrow> k < 12 \<Longrightarrow> (if 4 + k < length (made_entry n) then made_entry n ! (4 + k) else 0) = pad_name (made_name n) ! k"
  by (auto simp: made_entry_def entry_bytes_def pad_name_def made_name_def tty_name_def nth_append nth_Cons' bytes_of_u32_def)

lemma fresh_on_disk:
  fixes s :: fs
  assumes lay: "layout sb" and im: "disk s ROOT_DEV = fs_image sb D"
  shows "on_disk sb (fresh_vol sb) (disk s)"
proof -
  have L: "unat (n_1st_sect sb) = 259 + unat (nr_smap_sects sb)" "0 < unat (nr_smap_sects sb)" "nr_imap_sects sb = 1" using lay by (simp_all add: layout_def)
  note dir = image_dir [OF L(1,2), of _ _ D]
  have "disk s ROOT_DEV (unat (n_1st_sect sb) * 512 + n * 16 + 4 + k) = slot_name (fresh_vol sb) n ! k" if "n < 32" "k < 12" for n k
    using dir [of n "4 + k"] made_entry_name [of n k] that by (cases "n < 4") (simp_all add: im slot_name_def add.assoc split: if_splits)
  moreover have "disk s ROOT_DEV (unat (n_1st_sect sb) * 512 + n * 16 + k) = bytes_of_u32 (word_of_int (slot_num (fresh_vol sb) n)) ! k" if "n < 32" "k < 4" for n k
  proof -
    have "bytes_of_u32 0 ! k = 0" using that(2) by (auto simp: bytes_of_u32_def nth_Cons')
    then show ?thesis using dir [of n k] that by (auto simp: im slot_num_def made_entry_def entry_bytes_def nth_append ac_simps)
  qed
  moreover have "bit (disk s ROOT_DEV (2 * 512 + m div 8)) (m mod 8) \<longleftrightarrow> m = 0 \<or> m \<in> inums (fresh_vol sb)" if "m < 4096" for m
    using imap_bits [OF im that] by (auto simp: map_bit_def fresh_inums)
  moreover have "bit (disk s ROOT_DEV (3 * 512 + m div 8)) (m mod 8) \<longleftrightarrow> m = 0 \<or> (m - 1) div 2048 \<in> chunks (fresh_vol sb)" if "m < 4096 * unat (nr_smap_sects sb)" for m
    using smap_bits [OF im that] by (auto simp: map_bit_def div_eq_0_iff)
  moreover have "disk s ROOT_DEV (inode_off sb (k - 1) + i) = inode_bytes (nodes (fresh_vol sb) k) ! i" if "k \<in> inums (fresh_vol sb)" "i < 16" for k i
  proof -
    have "disk_inode s ROOT_DEV sb (k - 1) = inode_bytes (made_inode sb (k - 1))" using image_inode [OF im L(3) _ L(2), of "k - 1"] that(1) by (auto simp: fresh_inums)
    then have "disk_inode s ROOT_DEV sb (k - 1) ! i = inode_bytes (made_inode sb (k - 1)) ! i" by simp
    then show ?thesis using that(2) by (simp add: disk_inode_def)
  qed
  ultimately show ?thesis by (auto simp: on_disk_def)
qed

lemma fresh_layout:
  assumes "unat (part_size geo) < 2 ^ 21"
  shows "layout ((mkfs_sb geo)\<lparr>sb_dev := ROOT_DEV\<rparr>)"
proof -
  have "unat (part_size geo) div 4096 * 4096 \<le> unat (part_size geo)" by (rule div_times_less_eq_dividend)
  moreover have "unat (part_size geo) div 4096 < 512" using assms by (simp add: less_mult_imp_div_less)
  ultimately have "260 + unat (part_size geo) div 4096 + 4096 * (unat (part_size geo) div 4096 + 1) < 2 ^ 22" using assms by simp
  then show ?thesis using mkfs_sb_layout(1,2) [of geo] by (simp add: layout_def mkfs_sb_def [of geo] Let_def)
qed

text \<open>\<^verbatim>\<open>init_fs\<close> leaves the fresh volume on every device of less than 2097152 sectors.\<close>

lemma init_fs_stored:
  assumes "kinv s" and "sb_table s \<noteq> []" and "unat (part_size geo) < 2 ^ 21"
  obtains s' where "init_fs geo s = Inr s'" "stored ((mkfs_sb geo)\<lparr>sb_dev := ROOT_DEV\<rparr>) (fresh_vol (mkfs_sb geo)) s'" "proc_table s' = proc_table s"
    "f_desc_table s' = replicate NR_FILE_DESC no_desc" "root_inode s' = 0" "inode_table s' = fresh_root (mkfs_sb geo) # replicate 63 no_inode"
proof -
  let ?sb = "(mkfs_sb geo)\<lparr>sb_dev := ROOT_DEV\<rparr>"
  obtain s' where s': "init_fs geo s = Inr s'" "proc_table s' = proc_table s" "get_super_block ROOT_DEV s' = Inr ?sb" "root_inode s' = 0"
    "inode_table s' = fresh_root (mkfs_sb geo) # replicate 63 no_inode" "f_desc_table s' = replicate NR_FILE_DESC no_desc"
    "disk s' = (disk s)(ROOT_DEV := fs_image (mkfs_sb geo) (disk s ROOT_DEV))"
    using init_fs_ok [OF fs_flatI [OF assms(1)] assms(2)] by blast
  have im: "disk s' ROOT_DEV = fs_image ?sb (disk s ROOT_DEV)"
  proof -
    have "sb_img ?sb = sb_img (mkfs_sb geo)" "made_inode ?sb = made_inode (mkfs_sb geo)"
      by (simp_all add: fun_eq_iff sb_img_def sb_fields_def made_inode_def root_dir_inode_def)
    then have "fs_image ?sb D x = fs_image (mkfs_sb geo) D x" for D x by (simp add: fs_image_def inode_img_def Let_def)
    then show ?thesis using s'(7) by (simp add: fun_eq_iff)
  qed
  have vol: "fresh_vol (mkfs_sb geo) = fresh_vol ?sb" by (simp add: fresh_vol_def fun_eq_iff made_inode_def root_dir_inode_def)
  have "kinv s'" using assms(1) s'(2) by (simp add: kinv_def seg_base_def)
  moreover have "cached (fresh_vol ?sb) 0 (inode_table s')" using fresh_cached [of "mkfs_sb geo"] s'(5) vol by simp
  ultimately have "stored ?sb (fresh_vol (mkfs_sb geo)) s'"
    using s'(3,4) fresh_layout [OF assms(3)] fresh_on_disk [OF fresh_layout [OF assms(3)] im] fresh_vol_ok [of ?sb] by (simp add: stored_def vol)
  then show thesis using that s' by blast
qed

end
