(* ===== verification/Fs_Calls.thy ===== *)
theory Fs_Calls
  imports Fs_Create Fs_Fresh Fs_Task
begin

text \<open>
  The library calls on the names of the volume, as whole turns of FS: a file is created, opened and closed through the dispatcher, and the volume
  the disk and the tables represent changes as the abstract operations say.
\<close>

section \<open>Requests\<close>

text \<open>The caller's memory holds the path; paths of the root directory name a file with or without the leading slash.\<close>

definition path_at :: "nat \<Rightarrow> u32 \<Rightarrow> u8 list \<Rightarrow> fs \<Rightarrow> bool" where
  "path_at p addr path s \<longleftrightarrow> valid_proc_nr (int p) \<and> length path < 128
     \<and> (\<exists>la. va2la s p addr = Inr la \<and> read_bytes (mem s) la (length path) = path)"

definition names :: "u8 list \<Rightarrow> u8 list \<Rightarrow> bool" where
  "names path nm \<longleftrightarrow> plain_name nm \<and> (path = nm \<or> path = 0x2F # nm)"

lemma strip_loop_plain: "0x2F \<notin> set cs \<Longrightarrow> 0 \<notin> set cs \<Longrightarrow> i + length cs < 12 \<Longrightarrow> strip_loop i cs = Some cs"
  by (induction cs arbitrary: i) auto

lemma names_strip: "names path nm \<Longrightarrow> strip_path path s = Some (nm, root_inode s)"
  by (cases nm) (auto simp: names_def plain_name_def strip_path_def strip_loop_plain)

lemma va2la_received [simp]: "va2la (received m s) p a = va2la s p a"
  by (simp add: va2la_def seg_base_def ldt_seg_linear_def)

lemma path_at_copy:
  assumes "path_at p addr path s" and "msg_source m = int p" and "m3p1 m = addr" and "m3i2 m = int (length path)"
  shows "copy_path (received m s) = Inr path"
  using assms by (auto simp: path_at_def copy_path_def Let_def)

text \<open>The turn of FS for a call whose result comes back in the first number of the answer.\<close>

lemma fs_call_events:
  assumes "op (received m s) = Inr (x, s1)" and "fs_dispatch (received m s) = ret_i1 (op (received m s))" and "m = m'\<lparr>msg_source := int p\<rparr>"
    and "msg_type m \<noteq> RESUME_PROC" and "msg_type m \<noteq> SUSPEND_PROC" and "valid_proc_nr (int p)" and "fs_msg s1 = m" and "fs_sent s1 = fs_sent s @ evs"
    and "r = m\<lparr>m3i1 := x, msg_type := SYSCALL_RET, msg_source := int TASK_FS\<rparr>"
  shows "fs_call p m' s = Inr (Some r, s1\<lparr>fs_msg := r, fs_sent := fs_sent s @ evs @ [FsReply (int p) r]\<rparr>)"
proof -
  have "task_fs m s = Inr (s1\<lparr>fs_msg := r, fs_sent := fs_sent s @ evs @ [FsReply (int p) r]\<rparr>)"
    using assms by (simp add: task_fs_def fs_answer_def ret_i1_def Let_def)
  then show ?thesis using assms(3) by (simp add: fs_call_def reply_to_def)
qed

lemma fs_call_i1:
  assumes "op (received m s) = Inr (x, s1)" and "fs_dispatch (received m s) = ret_i1 (op (received m s))" and "m = m'\<lparr>msg_source := int p\<rparr>"
    and "msg_type m \<noteq> RESUME_PROC" and "msg_type m \<noteq> SUSPEND_PROC" and "valid_proc_nr (int p)" and "fs_msg s1 = m" and "fs_sent s1 = fs_sent s"
    and "r = m\<lparr>m3i1 := x, msg_type := SYSCALL_RET, msg_source := int TASK_FS\<rparr>"
  shows "fs_call p m' s = Inr (Some r, s1\<lparr>fs_msg := r, fs_sent := fs_sent s @ [FsReply (int p) r]\<rparr>)"
  using fs_call_events [where op = op and evs = "[]", OF assms(1-7) _ assms(9)] assms(8) by simp

section \<open>The volume and the other tables\<close>

lemma stored_cong:
  assumes "stored sb v s" and "kinv t" and "sb_table t = sb_table s" and "disk t = disk s" and "inode_table t = inode_table s" and "root_inode t = root_inode s"
  shows "stored sb v t"
  using assms get_super_block_cong [of t s] by (simp add: stored_def)

lemma kinv_answered: "kinv (s\<lparr>fs_msg := m, fs_sent := ms\<rparr>) = kinv s"
  by (simp add: kinv_def seg_base_def)

lemma stored_received: "stored sb v s \<Longrightarrow> stored sb v (received m s)"
  by (rule stored_cong) (simp_all add: stored_def kinv_received)

lemma stored_answered: "stored sb v s \<Longrightarrow> stored sb v (s\<lparr>fs_msg := m, fs_sent := ms\<rparr>)"
  by (rule stored_cong) (simp_all add: stored_def kinv_answered)

lemma kinv_desc: "kinv (upd_desc s i f) = kinv s"
  by (simp add: kinv_def seg_base_def upd_desc_def)

lemma stored_filp:
  assumes "stored sb v s"
  shows "stored sb v (upd_proc s p (\<lambda>q. q\<lparr>filp := f (filp q)\<rparr>))"
proof -
  have "upd_proc s p (\<lambda>q. q\<lparr>filp := f (filp q)\<rparr>) = upd_proc s p (\<lambda>q. q\<lparr>filp := f (filp (proc_of s p))\<rparr>)" by (simp add: upd_proc_def)
  then show ?thesis using kinv_filp [of s p "f (filp (proc_of s p))"] assms by (intro stored_cong [OF assms]) (simp_all add: stored_def upd_proc_def)
qed

lemma stored_desc: "stored sb v s \<Longrightarrow> stored sb v (upd_desc s i f)"
  using stored_cong [of sb v s "upd_desc s i f"] kinv_desc [of s i f] by (simp add: upd_desc_def stored_def)

lemma stored_connect: "stored sb v s \<Longrightarrow> stored sb v (connect fd i q flags s)"
  unfolding connect_def by (rule stored_desc [OF stored_filp [where f = "\<lambda>xs. xs[fd := Some i]"]])

lemma open_checks_regular: "i_mode (inode_of s q) = I_REGULAR \<Longrightarrow> open_checks q s = Inr s"
  by (simp add: open_checks_def const_simps Let_def)

section \<open>Opening\<close>

text \<open>The caller's first free file number, and the first free descriptor.\<close>

definition free_places :: "fs \<Rightarrow> nat \<Rightarrow> nat \<Rightarrow> nat \<Rightarrow> bool" where
  "free_places s p fd i \<longleftrightarrow> first_free (filp (proc_of s p)) 0 = Some fd \<and> first_free (map fd_inode (f_desc_table s)) 0 = Some i
     \<and> length (filp (proc_of s p)) = NR_FILES \<and> (\<exists>q < NR_INODE. i_cnt (inode_of s q) = 0)"

lemma free_places_bounds: "free_places s p fd i \<Longrightarrow> fd < NR_FILES \<and> i < length (f_desc_table s)"
  using first_free_Some [of "filp (proc_of s p)" 0 fd] first_free_Some [of "map fd_inode (f_desc_table s)" 0 i] by (auto simp: free_places_def)

lemma do_open_create:
  assumes st: "stored sb v s" and path: "copy_path s = Inr path" "names path nm" and fl: "word_of_int (m3i1 (fs_msg s)) AND O_CREAT \<noteq> 0"
    and fp: "free_places s (pcaller s) fd i" and fresh: "\<And>i l. entries v i \<noteq> Some (nm, l)" and pl: "first_free_place sb v n k j"
  obtains q s' where "do_open s = Inr (int fd, connect fd i q (m3i1 (fs_msg s)) s')" "stored sb (vol_create sb nm n k j v) s'" "progressed s s'"
    "q < NR_INODE" "i_cnt (inode_of s q) = 0" "inode_table s' = (inode_table s)[q := new_node sb k j, root_inode s := grown (n < nents v) (inode_of s (root_inode s))]"
    "\<And>d x. d \<noteq> ROOT_DEV \<or> (unat (n_1st_sect sb) + 2048) * 512 \<le> x \<Longrightarrow> disk s' d x = disk s d x"
proof -
  have nm: "plain_name nm" using path by (simp add: names_def)
  obtain s1 where s1: "search_file path s = Inr (0, s1)" "buffered s s1" "disk s1 = disk s"
    using stored_search_none [OF st names_strip [OF path(2)] nm fresh] by blast
  note b = buffered_fields [OF s1(2)]
  have st1: "stored sb v s1" by (rule stored_buffered [OF st s1(2,3)])
  have free1: "\<exists>q < NR_INODE. i_cnt (inode_of s1 q) = 0" using fp b by (simp add: free_places_def)
  obtain q s2 where c: "create_file path s1 = Inr (Some q, s2)" "q < NR_INODE" "i_cnt (inode_of s q) = 0" "stored sb (vol_create sb nm n k j v) s2" "progressed s1 s2"
    "inode_table s2 = (inode_table s)[q := new_node sb k j, root_inode s := grown (n < nents v) (inode_of s (root_inode s))]"
    and d: "\<And>d x. d \<noteq> ROOT_DEV \<or> (unat (n_1st_sect sb) + 2048) * 512 \<le> x \<Longrightarrow> disk s2 d x = disk s d x"
    using create_file_ok [OF st1 names_strip [OF path(2)] nm fresh pl free1] unfolding b s1(3) by metis
  have q: "q \<noteq> root_inode s" "q < length (inode_table s)" using c(2,3) stored_root(8) [OF st] st by (auto simp: stored_def cached_def)
  have "i_mode (inode_of (connect fd i q (m3i1 (fs_msg s)) s2) q) = I_REGULAR"
    using c(6) q by (simp add: connect_def upd_desc_def upd_proc_def new_node_def)
  then have "do_open s = Inr (int fd, connect fd i q (m3i1 (fs_msg s)) s2)"
    using path(1) fp s1(1) fl c(1) by (simp add: do_open_def open_inode_def open_checks_regular free_places_def Let_def)
  then show thesis using that c d progressed_trans [OF progressed_buffered [OF s1(2)] c(5)] by blast
qed

lemma do_open_found:
  assumes st: "stored sb v s" and path: "copy_path s = Inr path" "names path nm" and fl: "m3i1 (fs_msg s) = 2"
    and fp: "free_places s (pcaller s) fd i" and old: "entries v n = Some (nm, k)"
  obtains q s' where "do_open s = res_bind (open_checks q (connect fd i q 2 s')) (\<lambda>t. Inr (int fd, t))" "stored sb v s'" "progressed s s'" "disk s' = disk s"
    "q < NR_INODE" "i_num (inode_of s' q) = int k" "same_node (inode_of s' q) (nodes v k)" "i_cnt (inode_of s' q) = i_cnt (inode_of s q) + 1"
    "inode_table s' = (inode_table s)[q := inode_of s' q]" "i_cnt (inode_of s q) = 0 \<or> i_num (inode_of s q) = int k"
proof -
  have nm: "plain_name nm" using path by (simp add: names_def)
  obtain s1 where s1: "search_file path s = Inr (int k, s1)" "buffered s s1" "disk s1 = disk s"
    using stored_search_found [OF st names_strip [OF path(2)] nm old] by blast
  note b = buffered_fields [OF s1(2)]
  have st1: "stored sb v s1" by (rule stored_buffered [OF st s1(2,3)])
  have k: "k \<in> inums v" using old by (auto simp: inums_def)
  have free1: "\<exists>q < NR_INODE. i_cnt (inode_of s1 q) = 0" using fp b by (simp add: free_places_def)
  obtain q s2 where g: "get_inode ROOT_DEV (int k) s1 = Inr (Some q, s2)" "q < NR_INODE" "stored sb v s2" "progressed s1 s2" "disk s2 = disk s"
    "i_num (inode_of s2 q) = int k" "same_node (inode_of s2 q) (nodes v k)" "i_cnt (inode_of s2 q) = i_cnt (inode_of s q) + 1"
    "inode_table s2 = (inode_table s)[q := inode_of s2 q]" "i_cnt (inode_of s q) = 0 \<or> i_num (inode_of s q) = int k"
    using stored_get [OF st1 k free1] unfolding b s1(3) by metis
  have "strip_path path s1 = Some (nm, root_inode s1)" "i_dev (inode_of s1 (root_inode s1)) = ROOT_DEV"
    using names_strip [OF path(2)] stored_root(2) [OF st1] by simp_all
  then have "do_open s = res_bind (open_checks q (connect fd i q 2 s2)) (\<lambda>t. Inr (int fd, t))"
    using path(1) fp s1(1) fl g(1) by (simp add: do_open_def open_inode_def free_places_def Let_def const_simps)
  then show thesis using that g progressed_trans [OF progressed_buffered [OF s1(2)] g(4)] by blast
qed

lemma do_open_existing:
  assumes st: "stored sb v s" and path: "copy_path s = Inr path" "names path nm" and fl: "m3i1 (fs_msg s) = 2"
    and fp: "free_places s (pcaller s) fd i" and old: "entries v n = Some (nm, k)" and reg: "i_mode (nodes v k) = I_REGULAR"
  obtains q s' where "do_open s = Inr (int fd, connect fd i q 2 s')" "stored sb v s'" "progressed s s'" "disk s' = disk s"
    "q < NR_INODE" "i_num (inode_of s' q) = int k" "same_node (inode_of s' q) (nodes v k)" "i_cnt (inode_of s' q) = i_cnt (inode_of s q) + 1"
    "inode_table s' = (inode_table s)[q := inode_of s' q]" "i_cnt (inode_of s q) = 0 \<or> i_num (inode_of s q) = int k"
proof -
  obtain q s' where q: "do_open s = res_bind (open_checks q (connect fd i q 2 s')) (\<lambda>t. Inr (int fd, t))" "stored sb v s'" "progressed s s'" "disk s' = disk s"
    "q < NR_INODE" "i_num (inode_of s' q) = int k" "same_node (inode_of s' q) (nodes v k)" "i_cnt (inode_of s' q) = i_cnt (inode_of s q) + 1"
    "inode_table s' = (inode_table s)[q := inode_of s' q]" "i_cnt (inode_of s q) = 0 \<or> i_num (inode_of s q) = int k"
    by (rule do_open_found [OF st path fl fp old]) (rule that)
  have "i_mode (inode_of (connect fd i q 2 s') q) = I_REGULAR" using q(7) reg by (simp add: connect_def upd_desc_def upd_proc_def same_node_def)
  then have "do_open s = Inr (int fd, connect fd i q 2 s')" using q(1) by (simp add: open_checks_regular)
  then show thesis using that q(2-10) by blast
qed

text \<open>Creating a file that exists and opening one that does not are refused, and change nothing but the buffer of FS.\<close>

lemma do_open_refused:
  assumes st: "stored sb v s" and path: "copy_path s = Inr path" "names path nm" and fp: "free_places s (pcaller s) fd i"
    and ref: "word_of_int (m3i1 (fs_msg s)) AND O_CREAT \<noteq> 0 \<and> (\<exists>n k. entries v n = Some (nm, k)) \<or> m3i1 (fs_msg s) = 2 \<and> (\<forall>n k. entries v n \<noteq> Some (nm, k))"
  obtains s' where "do_open s = Inr (-1, s')" "buffered s s'" "disk s' = disk s"
proof -
  have nm: "plain_name nm" using path by (simp add: names_def)
  note f = names_strip [OF path(2)]
  consider (old) n k where "word_of_int (m3i1 (fs_msg s)) AND O_CREAT \<noteq> 0" "entries v n = Some (nm, k)" | (new) "m3i1 (fs_msg s) = 2" "\<And>n k. entries v n \<noteq> Some (nm, k)"
    using ref by blast
  then show thesis
  proof cases
    case old
    then obtain s1 where s1: "search_file path s = Inr (int k, s1)" "buffered s s1" "disk s1 = disk s" "0 < k"
      using stored_search_found [OF st f nm] st vol_okD(1) [of sb v n nm k] by (auto simp: stored_def)
    then have "do_open s = Inr (-1, s1)" using path(1) fp old(1) by (simp add: do_open_def open_inode_def free_places_def Let_def)
    then show ?thesis using that s1 by blast
  next
    case new
    then obtain s1 where s1: "search_file path s = Inr (0, s1)" "buffered s s1" "disk s1 = disk s" using stored_search_none [OF st f nm] by blast
    then have "do_open s = Inr (-1, s1)"
      using path(1) fp new(1) f [of s1] by (simp add: do_open_def open_inode_def get_inode_def free_places_def Let_def const_simps)
    then show ?thesis using that s1 by blast
  qed
qed

section \<open>Closing\<close>

lemma cached_put:
  assumes c: "cached v r t" and q: "q < NR_INODE" "0 < i_cnt (t ! q)" and r: "q \<noteq> r \<or> 1 < i_cnt (t ! q)"
  shows "cached v r (t[q := (t ! q)\<lparr>i_cnt := i_cnt (t ! q) - 1\<rparr>])"
proof -
  note C = cachedD [OF c]
  let ?t = "t[q := (t ! q)\<lparr>i_cnt := i_cnt (t ! q) - 1\<rparr>]"
  have same: "i_num (?t ! x) = i_num (t ! x)" "i_dev (?t ! x) = i_dev (t ! x)" "same_node (?t ! x) n = same_node (t ! x) n"
    "i_cnt (?t ! x) \<noteq> 0 \<Longrightarrow> i_cnt (t ! x) \<noteq> 0" "0 \<le> i_cnt (t ! x) \<Longrightarrow> 0 \<le> i_cnt (?t ! x)" if "x < NR_INODE" for x n
    using that q C(1) by (cases "x = q"; simp add: same_node_def)+
  show ?thesis
  proof (rule cachedI)
    show "i_cnt (?t ! r) \<noteq> 0" using r q C(1,2,6) by (auto simp: nth_list_update)
    show "i_num (?t ! r) = 1" using same(1) C(2,7) by simp
  qed (use same C(1-5) in auto)
qed

lemma stored_put:
  assumes st: "stored sb v s" and q: "q < NR_INODE" "0 < i_cnt (inode_of s q)" "q \<noteq> root_inode s \<or> 1 < i_cnt (inode_of s q)"
  shows "put_inode q s = Inr (upd_inode s q (\<lambda>n. n\<lparr>i_cnt := i_cnt n - 1\<rparr>))" and "stored sb v (upd_inode s q (\<lambda>n. n\<lparr>i_cnt := i_cnt n - 1\<rparr>))"
proof -
  show "put_inode q s = Inr (upd_inode s q (\<lambda>n. n\<lparr>i_cnt := i_cnt n - 1\<rparr>))" using q(2) by (simp add: put_inode_def)
  show "stored sb v (upd_inode s q (\<lambda>n. n\<lparr>i_cnt := i_cnt n - 1\<rparr>))"
    using st cached_put [OF _ q] by (intro storedI [OF st progressed_upd_inode]) (simp_all add: stored_def upd_inode_def)
qed

text \<open>A file of the volume is open: the caller's file number leads to a descriptor, and that to the i-node in the table.\<close>

definition file_open :: "fs \<Rightarrow> nat \<Rightarrow> nat \<Rightarrow> nat \<Rightarrow> nat \<Rightarrow> bool" where
  "file_open s p fd i q \<longleftrightarrow> fd < NR_FILES \<and> filp (proc_of s p) ! fd = Some i \<and> fd_inode (f_desc_table s ! i) = Some q
     \<and> q < NR_INODE \<and> 0 < i_cnt (inode_of s q) \<and> (q \<noteq> root_inode s \<or> 1 < i_cnt (inode_of s q))"

definition closed :: "nat \<Rightarrow> nat \<Rightarrow> nat \<Rightarrow> nat \<Rightarrow> fs \<Rightarrow> fs" where
  "closed p fd i q s = upd_proc (upd_desc (upd_inode s q (\<lambda>n. n\<lparr>i_cnt := i_cnt n - 1\<rparr>)) i drop_desc) p (\<lambda>r. r\<lparr>filp := (filp r)[fd := None]\<rparr>)"

lemma do_close_ok:
  assumes st: "stored sb v s" and op: "file_open s (pcaller s) fd i q" and fd: "m3i1 (fs_msg s) = int fd"
  shows "do_close s = Inr (0, closed (pcaller s) fd i q s)" and "stored sb v (closed (pcaller s) fd i q s)"
proof -
  note O = op [unfolded file_open_def]
  have put: "put_inode q s = Inr (upd_inode s q (\<lambda>n. n\<lparr>i_cnt := i_cnt n - 1\<rparr>))" and st1: "stored sb v (upd_inode s q (\<lambda>n. n\<lparr>i_cnt := i_cnt n - 1\<rparr>))"
    using stored_put [OF st] O by blast+
  show "do_close s = Inr (0, closed (pcaller s) fd i q s)"
    using O put by (simp add: do_close_def caller_desc_def desc_inode_def fd closed_def upd_inode_def Let_def)
  show "stored sb v (closed (pcaller s) fd i q s)"
    unfolding closed_def by (rule stored_filp [OF stored_desc [OF st1], where f = "\<lambda>xs. xs[fd := None]"])
qed

section \<open>The calls\<close>

abbreviation open_msg :: "message \<Rightarrow> nat \<Rightarrow> u32 \<Rightarrow> nat \<Rightarrow> int \<Rightarrow> message" where
  "open_msg m0 p addr len flags \<equiv> m0\<lparr>msg_type := OPEN, m3p1 := addr, m3i1 := flags, m3i2 := int len, msg_source := int p\<rparr>"

lemma open_call_events:
  assumes "do_open (received (open_msg m0 p addr len flags) s) = Inr (x, s1)" and "valid_proc_nr (int p)"
    and "fs_msg s1 = open_msg m0 p addr len flags" and "fs_sent s1 = fs_sent s @ evs"
  obtains r where "open_file m0 p addr (int len) flags s = Inr (Some x, s1\<lparr>fs_msg := r, fs_sent := fs_sent s @ evs @ [FsReply (int p) r]\<rparr>)"
proof -
  let ?m = "open_msg m0 p addr len flags" and ?m' = "m0\<lparr>msg_type := OPEN, m3p1 := addr, m3i1 := flags, m3i2 := int len\<rparr>"
  let ?r = "?m\<lparr>m3i1 := x, msg_type := SYSCALL_RET, msg_source := int TASK_FS\<rparr>"
  have "fs_dispatch (received ?m s) = ret_i1 (do_open (received ?m s))" by (simp add: fs_dispatch_def)
  from fs_call_events [where op = do_open, OF assms(1) this, where m' = ?m' and p = p and r = ?r]
  have "fs_call p ?m' s = Inr (Some ?r, s1\<lparr>fs_msg := ?r, fs_sent := fs_sent s @ evs @ [FsReply (int p) ?r]\<rparr>)" using assms(2-4) by simp
  then have "open_file m0 p addr (int len) flags s = Inr (Some x, s1\<lparr>fs_msg := ?r, fs_sent := fs_sent s @ evs @ [FsReply (int p) ?r]\<rparr>)"
    by (simp add: open_file_def)
  then show thesis by (rule that)
qed

lemma open_call:
  assumes "do_open (received (open_msg m0 p addr len flags) s) = Inr (x, s1)" and "valid_proc_nr (int p)"
    and "fs_msg s1 = open_msg m0 p addr len flags" and "fs_sent s1 = fs_sent s"
  obtains r where "open_file m0 p addr (int len) flags s = Inr (Some x, s1\<lparr>fs_msg := r, fs_sent := fs_sent s @ [FsReply (int p) r]\<rparr>)"
  using open_call_events [OF assms(1-3), of "[]"] assms(4) by auto

lemma connect_fields [simp]:
  "inode_table (connect fd i q fl s) = inode_table s" "disk (connect fd i q fl s) = disk s" "root_inode (connect fd i q fl s) = root_inode s"
  "fs_msg (connect fd i q fl s) = fs_msg s" "fs_sent (connect fd i q fl s) = fs_sent s" "mem (connect fd i q fl s) = mem s"
  "f_desc_table (connect fd i q fl s) = (f_desc_table s)[i := \<lparr>fd_mode = fl, fd_pos = 0, fd_cnt = 1, fd_inode = Some q\<rparr>]"
  "proc_table (connect fd i q fl s) = (proc_table s)[pcaller s := (proc_of s (pcaller s))\<lparr>filp := (filp (proc_of s (pcaller s)))[fd := Some i]\<rparr>]"
  by (simp_all add: connect_def upd_desc_def upd_proc_def)

text \<open>What the caller sees of a file just opened.\<close>

definition opened :: "fs \<Rightarrow> nat \<Rightarrow> nat \<Rightarrow> nat \<Rightarrow> nat \<Rightarrow> int \<Rightarrow> fs \<Rightarrow> bool" where
  "opened s p fd i q flags s' \<longleftrightarrow> file_open s' p fd i q
     \<and> f_desc_table s' = (f_desc_table s)[i := \<lparr>fd_mode = flags, fd_pos = 0, fd_cnt = 1, fd_inode = Some q\<rparr>]
     \<and> proc_table s' = (proc_table s)[p := (proc_of s p)\<lparr>filp := (filp (proc_of s p))[fd := Some i]\<rparr>]
     \<and> root_inode s' = root_inode s \<and> (\<exists>r. fs_sent s' = fs_sent s @ [FsReply (int p) r]) \<and> (\<forall>x. x \<notin> block_addrs fsbuf 512 \<longrightarrow> mem s' x = mem s x)"

lemma connect_opened:
  assumes fp: "free_places s p fd i" and p: "p < length (proc_table s)" and t: "progressed (received m s) t" "nat (msg_source m) = p"
    and q: "q < NR_INODE" "0 < i_cnt (inode_of t q)" "q \<noteq> root_inode s"
    and s': "s' = (connect fd i q flags t)\<lparr>fs_msg := r, fs_sent := fs_sent s @ [FsReply (int p) r]\<rparr>"
  shows "opened s p fd i q flags s'"
proof -
  have b: "fd < NR_FILES" "i < length (f_desc_table s)" "length (filp (proc_of s p)) = NR_FILES"
    using free_places_bounds [OF fp] fp by (simp_all add: free_places_def)
  note f = progressed_fields [OF t(1)]
  show ?thesis using b p q f t(2) by (simp add: opened_def file_open_def s')
qed

lemma create_call:
  assumes st: "stored sb v s" and path: "path_at p addr path s" "names path nm" and fl: "word_of_int flags AND O_CREAT \<noteq> 0"
    and fp: "free_places s p fd i" and fresh: "\<And>i l. entries v i \<noteq> Some (nm, l)" and pl: "first_free_place sb v n k j"
  obtains q s' where "open_file m0 p addr (int (length path)) flags s = Inr (Some (int fd), s')" "stored sb (vol_create sb nm n k j v) s'" "opened s p fd i q flags s'"
    "q < NR_INODE" "i_cnt (inode_of s q) = 0"
    "inode_table s' = (inode_table s)[q := new_node sb k j, root_inode s := grown (n < nents v) (inode_of s (root_inode s))]"
    "\<And>d x. d \<noteq> ROOT_DEV \<or> (unat (n_1st_sect sb) + 2048) * 512 \<le> x \<Longrightarrow> disk s' d x = disk s d x"
proof -
  let ?m = "open_msg m0 p addr (length path) flags"
  let ?s = "received ?m s"
  have cp: "copy_path ?s = Inr path" by (rule path_at_copy [OF path(1)]) simp_all
  have fp': "free_places ?s (pcaller ?s) fd i" and fl': "word_of_int (m3i1 (fs_msg ?s)) AND O_CREAT \<noteq> 0" using fp fl by (simp_all add: free_places_def)
  obtain q t where t': "do_open ?s = Inr (int fd, connect fd i q (m3i1 (fs_msg ?s)) t)" "stored sb (vol_create sb nm n k j v) t" "progressed ?s t"
    "q < NR_INODE" "i_cnt (inode_of ?s q) = 0" "inode_table t = (inode_table ?s)[q := new_node sb k j, root_inode ?s := grown (n < nents v) (inode_of ?s (root_inode ?s))]"
    and d': "\<And>d x. d \<noteq> ROOT_DEV \<or> (unat (n_1st_sect sb) + 2048) * 512 \<le> x \<Longrightarrow> disk t d x = disk ?s d x"
    using do_open_create [OF stored_received [OF st] cp path(2) fl' fp' fresh pl] by metis
  have "m3i1 (fs_msg ?s) = flags" by simp
  note t = t' [unfolded this received_fields] and d = d' [unfolded received_fields]
  note f = progressed_fields [OF t(3)]
  have p: "valid_proc_nr (int p)" "p < length (proc_table s)"
    using path(1) st kinvD(2) [of s] by (simp_all add: path_at_def stored_def valid_proc_nr_def)
  obtain r where r: "open_file m0 p addr (int (length path)) flags s
      = Inr (Some (int fd), (connect fd i q flags t)\<lparr>fs_msg := r, fs_sent := fs_sent s @ [FsReply (int p) r]\<rparr>)"
    using open_call [OF t(1) p(1)] f by auto
  have qr: "q \<noteq> root_inode s" "q < length (inode_table s)" using t(4,5) stored_root(8) [OF st] st by (auto simp: stored_def cached_def)
  have "opened s p fd i q flags ((connect fd i q flags t)\<lparr>fs_msg := r, fs_sent := fs_sent s @ [FsReply (int p) r]\<rparr>)"
    by (rule connect_opened [OF fp p(2) t(3) _ t(4) _ qr(1) refl]) (use t(6) qr in \<open>simp_all add: new_node_def\<close>)
  then show thesis using that [OF r stored_answered [OF stored_connect [OF t(2)]]] t(4-6) d by simp
qed

lemma reopen_call:
  assumes st: "stored sb v s" and path: "path_at p addr path s" "names path nm" and fp: "free_places s p fd i"
    and old: "entries v n = Some (nm, k)" and reg: "i_mode (nodes v k) = I_REGULAR"
  obtains q s' where "open_file m0 p addr (int (length path)) 2 s = Inr (Some (int fd), s')" "stored sb v s'" "opened s p fd i q 2 s'" "disk s' = disk s"
    "q < NR_INODE" "i_num (inode_of s' q) = int k" "same_node (inode_of s' q) (nodes v k)" "i_cnt (inode_of s' q) = i_cnt (inode_of s q) + 1"
    "inode_table s' = (inode_table s)[q := inode_of s' q]" "i_cnt (inode_of s q) = 0 \<or> i_num (inode_of s q) = int k"
proof -
  let ?m = "open_msg m0 p addr (length path) 2"
  let ?s = "received ?m s"
  have cp: "copy_path ?s = Inr path" by (rule path_at_copy [OF path(1)]) simp_all
  have fp': "free_places ?s (pcaller ?s) fd i" and fl': "m3i1 (fs_msg ?s) = 2" using fp by (simp_all add: free_places_def)
  obtain q t where t': "do_open ?s = Inr (int fd, connect fd i q 2 t)" "stored sb v t" "progressed ?s t" "disk t = disk ?s"
    "q < NR_INODE" "i_num (inode_of t q) = int k" "same_node (inode_of t q) (nodes v k)" "i_cnt (inode_of t q) = i_cnt (inode_of ?s q) + 1"
    "inode_table t = (inode_table ?s)[q := inode_of t q]" "i_cnt (inode_of ?s q) = 0 \<or> i_num (inode_of ?s q) = int k"
    using do_open_existing [OF stored_received [OF st] cp path(2) fl' fp' old reg] by metis
  note t = t' [unfolded received_fields]
  note f = progressed_fields [OF t(3)]
  have p: "valid_proc_nr (int p)" "p < length (proc_table s)"
    using path(1) st kinvD(2) [of s] by (simp_all add: path_at_def stored_def valid_proc_nr_def)
  obtain r where r: "open_file m0 p addr (int (length path)) 2 s
      = Inr (Some (int fd), (connect fd i q 2 t)\<lparr>fs_msg := r, fs_sent := fs_sent s @ [FsReply (int p) r]\<rparr>)"
    using open_call [OF t(1) p(1)] f by auto
  have c: "cached v (root_inode s) (inode_table s)" and v: "vol_ok sb v" using st by (simp_all add: stored_def)
  have "k \<noteq> 1" using reg v by (auto simp: vol_ok_def const_simps)
  then have qr: "q \<noteq> root_inode s" using t(10) cachedD(6,7) [OF c] by auto
  have "0 < i_cnt (inode_of t q)" using t(8) cachedD(3) [OF c t(5)] by simp
  then have "opened s p fd i q 2 ((connect fd i q 2 t)\<lparr>fs_msg := r, fs_sent := fs_sent s @ [FsReply (int p) r]\<rparr>)"
    by (intro connect_opened [OF fp p(2) t(3) _ t(5) _ qr refl]) simp_all
  then show thesis using that [OF r stored_answered [OF stored_connect [OF t(2)]]] t(4-10) by simp
qed

lemma close_call:
  assumes st: "stored sb v s" and op: "file_open s p fd i q" and p: "valid_proc_nr (int p)"
  obtains r s' where "close_file m0 p (int fd) s = Inr (Some 0, s')" "stored sb v s'" "s' = (closed p fd i q s)\<lparr>fs_msg := r, pcaller := p, fs_sent := fs_sent s @ [FsReply (int p) r]\<rparr>"
proof -
  let ?m = "m0\<lparr>msg_type := CLOSE, m3i1 := int fd, msg_source := int p\<rparr>" and ?m' = "m0\<lparr>msg_type := CLOSE, m3i1 := int fd\<rparr>"
  let ?s = "received ?m s"
  have op': "file_open ?s (pcaller ?s) fd i q" "m3i1 (fs_msg ?s) = int fd" "pcaller ?s = p" using op by (simp_all add: file_open_def)
  have cl: "do_close ?s = Inr (0, closed p fd i q ?s)" and st': "stored sb v (closed p fd i q ?s)"
    using do_close_ok [OF stored_received [OF st] op'(1,2)] op'(3) by simp_all
  let ?r = "?m\<lparr>m3i1 := 0, msg_type := SYSCALL_RET, msg_source := int TASK_FS\<rparr>"
  have "fs_dispatch ?s = ret_i1 (do_close ?s)" by (simp add: fs_dispatch_def)
  from fs_call_i1 [where op = do_close, OF cl this, where m' = ?m' and p = p and r = ?r]
  have "fs_call p ?m' s = Inr (Some ?r, (closed p fd i q ?s)\<lparr>fs_msg := ?r, fs_sent := fs_sent s @ [FsReply (int p) ?r]\<rparr>)"
    using p by (simp add: closed_def upd_proc_def upd_desc_def upd_inode_def)
  then have run: "close_file m0 p (int fd) s = Inr (Some 0, (closed p fd i q ?s)\<lparr>fs_msg := ?r, fs_sent := fs_sent s @ [FsReply (int p) ?r]\<rparr>)"
    by (simp add: close_file_def fs_return_def)
  have e: "(closed p fd i q ?s)\<lparr>fs_msg := ?r, fs_sent := fs_sent s @ [FsReply (int p) ?r]\<rparr>
      = (closed p fd i q s)\<lparr>fs_msg := ?r, pcaller := p, fs_sent := fs_sent s @ [FsReply (int p) ?r]\<rparr>"
    by (simp add: closed_def upd_proc_def upd_desc_def upd_inode_def received_def)
  show thesis by (rule that [OF run [unfolded e] stored_answered [OF st', where m = ?r and ms = "fs_sent s @ [FsReply (int p) ?r]", unfolded e] refl])
qed

end
