(* ===== verification/Fs_Data.thy ===== *)
theory Fs_Data
  imports Fs_Calls
begin

text \<open>
  Reading and writing files of the volume: a write changes the size of one i-node of the volume and the bytes of the file's own chunk, a read changes nothing.
\<close>

section \<open>One i-node changes\<close>

definition vol_resize :: "nat \<Rightarrow> u32 \<Rightarrow> volume \<Rightarrow> volume" where
  "vol_resize k w v = v\<lparr>nodes := (nodes v)(k := (nodes v k)\<lparr>i_size := w\<rparr>)\<rparr>"

lemma vol_resize_fields [simp]:
  "entries (vol_resize k w v) = entries v" "chunks (vol_resize k w v) = chunks v" "capacity (vol_resize k w v) = capacity v"
  "nodes (vol_resize k w v) = (nodes v)(k := (nodes v k)\<lparr>i_size := w\<rparr>)" "inums (vol_resize k w v) = inums v"
  "slot_name (vol_resize k w v) n = slot_name v n" "slot_num (vol_resize k w v) n = slot_num v n"
  by (simp_all add: vol_resize_def inums_def slot_name_def slot_num_def)

lemma vol_resize_same: "vol_resize k (i_size (nodes v k)) v = v"
  by (simp add: vol_resize_def)

lemma vol_resize_ok:
  assumes v: "vol_ok sb v" and k: "i_mode (nodes v k) = I_REGULAR" and w: "unat w \<le> 2048 * 512"
  shows "vol_ok sb (vol_resize k w v)"
proof -
  note a = v [unfolded vol_ok_def]
  have k1: "k \<noteq> 1" using a k by (auto simp: const_simps)
  then have ne: "nents (vol_resize k w v) = nents v" by (simp add: nents_def)
  have ic: "in_chunk sb (nodes (vol_resize k w v) l) j" if "in_chunk sb (nodes v l) j" for l j
    using that w by (cases "l = k") (simp_all add: in_chunk_def)
  have same: "i_mode (nodes (vol_resize k w v) l) = i_mode (nodes v l)" "i_start_sect (nodes (vol_resize k w v) l) = i_start_sect (nodes v l)" for l
    by simp_all
  have "\<exists>j \<in> chunks v. 0 < j \<and> in_chunk sb (nodes (vol_resize k w v) l) j" if "l \<in> inums v" "i_mode (nodes v l) = I_REGULAR" for l
    using a that ic by blast
  then show ?thesis
    unfolding vol_ok_def same ne vol_resize_fields(1,2,3,5) using a k1 by simp
qed

lemma on_disk_resize:
  assumes v: "vol_ok sb v" and lay: "layout sb" and od: "on_disk sb v D" and k: "k \<in> inums v"
    and slot: "\<And>i. i < 16 \<Longrightarrow> D' ROOT_DEV (inode_off sb (k - 1) + i) = inode_bytes ((nodes v k)\<lparr>i_size := w\<rparr>) ! i"
    and rest: "\<And>x. x < (unat (n_1st_sect sb) + 2048) * 512 \<Longrightarrow> \<not> (inode_off sb (k - 1) \<le> x \<and> x < inode_off sb (k - 1) + 16) \<Longrightarrow> D' ROOT_DEV x = D ROOT_DEV x"
  shows "on_disk sb (vol_resize k w v) D'"
proof -
  let ?a = "unat (n_1st_sect sb) * 512"
  note O = od [unfolded on_disk_def]
  have kb: "k - 1 < 4096" using inums_bounds [OF v k] by linarith
  have n: "unat (n_1st_sect sb) = 259 + unat (nr_smap_sects sb)" using lay by (simp add: layout_def)
  have slot_in: "?a > x" if "x < inode_off sb (k - 1) + 16" for x using layout_inodes(3) [OF lay kb] that by simp
  have dir: "D' ROOT_DEV (?a + x) = D ROOT_DEV (?a + x)" if "x < 2048 * 512" for x
    using rest [of "?a + x"] slot_in [of "?a + x"] that by (auto simp: algebra_simps)
  have dir16: "D' ROOT_DEV (?a + n * 16 + i) = D ROOT_DEV (?a + n * 16 + i)" if "n < capacity v" "i < 16" for n i
    using dir [of "n * 16 + i"] that vol_okD(6) [OF v] by (simp add: add.assoc)
  have map': "D' ROOT_DEV x = D ROOT_DEV x" if "x div 512 < 3 + unat (nr_smap_sects sb)" for x
  proof -
    have "x < (3 + unat (nr_smap_sects sb)) * 512" using that by (simp add: div_less_iff_less_mult)
    moreover have "(3 + unat (nr_smap_sects sb)) * 512 \<le> inode_off sb (k - 1)" using layout_inodes(2) [OF lay kb] by simp
    ultimately show ?thesis using rest [of x] n by simp
  qed
  have name: "D' ROOT_DEV (?a + n * 16 + 4 + i) = slot_name v n ! i" if "n < capacity v" "i < 12" for n i
    using dir16 [OF that(1), of "4 + i"] that O by (simp add: add.assoc)
  have num: "D' ROOT_DEV (?a + n * 16 + i) = bytes_of_u32 (word_of_int (slot_num v n)) ! i" if "n < capacity v" "i < 4" for n i
    using dir16 [OF that(1), of i] that O by simp
  have im: "bit (D' ROOT_DEV (2 * 512 + m div 8)) (m mod 8) \<longleftrightarrow> m = 0 \<or> m \<in> inums v" if "m < 4096" for m
    using map' [of "2 * 512 + m div 8"] region_maps(1) [OF that] O that by simp
  have sm: "bit (D' ROOT_DEV (3 * 512 + m div 8)) (m mod 8) \<longleftrightarrow> m = 0 \<or> (m - 1) div 2048 \<in> chunks v" if "m < 4096 * unat (nr_smap_sects sb)" for m
    using map' [of "3 * 512 + m div 8"] region_maps(2) [OF that] O that by simp
  have ino: "D' ROOT_DEV (inode_off sb (l - 1) + i) = inode_bytes (nodes (vol_resize k w v) l) ! i" if "l \<in> inums v" "i < 16" for l i
  proof (cases "l = k")
    case False
    have lb: "0 < l" "l - 1 < 4096" "0 < k" using inums_bounds [OF v that(1)] inums_bounds [OF v k] by linarith+
    then have kl: "l - 1 \<noteq> k - 1" using False by simp
    have "inode_off sb (l - 1) + i < ?a" using region_inode(3) [OF lay lb(2), of i] that(2) by simp
    moreover have "\<not> (inode_off sb (k - 1) \<le> inode_off sb (l - 1) + i \<and> inode_off sb (l - 1) + i < inode_off sb (k - 1) + 16)"
    proof
      assume r: "inode_off sb (k - 1) \<le> inode_off sb (l - 1) + i \<and> inode_off sb (l - 1) + i < inode_off sb (k - 1) + 16"
      then obtain i' where "inode_off sb (l - 1) + i = inode_off sb (k - 1) + i'" "i' < 16" by (metis le_iff_add nat_add_left_cancel_less)
      then show False using region_inode(4) [OF lay lb(2) _ kb, of i i'] kl that(2) by simp
    qed
    ultimately have "D' ROOT_DEV (inode_off sb (l - 1) + i) = D ROOT_DEV (inode_off sb (l - 1) + i)" using rest by simp
    then show ?thesis using O that False by simp
  qed (use slot that in simp)
  show ?thesis unfolding on_disk_def vol_resize_fields(3,5,6,7) vol_resize_fields(2) using name num im sm ino by blast
qed

lemma cached_resize:
  assumes c: "cached v r t" and q: "q < NR_INODE" "i_cnt (t ! q) \<noteq> 0" "i_num (t ! q) = int k"
  shows "cached (vol_resize k w v) r (t[q := (t ! q)\<lparr>i_size := w\<rparr>])"
proof -
  note C = cachedD [OF c]
  let ?t = "t[q := (t ! q)\<lparr>i_size := w\<rparr>]"
  have at: "i_num (?t ! x) = i_num (t ! x)" "i_dev (?t ! x) = i_dev (t ! x)" "i_cnt (?t ! x) = i_cnt (t ! x)" if "x < NR_INODE" for x
    using that C(1) by (cases "x = q"; simp)+
  have sn: "\<exists>l \<in> inums v. i_num (t ! x) = int l \<and> same_node (?t ! x) (nodes (vol_resize k w v) l)" if x: "x < NR_INODE" "i_cnt (t ! x) \<noteq> 0" for x
  proof -
    obtain l where l: "l \<in> inums v" "i_num (t ! x) = int l" "same_node (t ! x) (nodes v l)" using C(4) [OF x] by blast
    have "x = q \<longleftrightarrow> l = k" using l(2) q C(5) [OF x(1) q(1) x(2) q(2)] by auto
    then have "same_node (?t ! x) (nodes (vol_resize k w v) l)" using l(3) x C(1) by (cases "x = q") (auto simp: same_node_def)
    then show ?thesis using l by blast
  qed
  show ?thesis by (rule cachedI) (use at C sn in \<open>auto simp del: vol_resize_fields(4)\<close>)
qed

section \<open>An open file\<close>

text \<open>
  Process \<open>p\<close> has the file with i-node \<open>k\<close> open for reading and writing under \<open>fd\<close>, at position \<open>pos\<close>, by way of descriptor \<open>i\<close> and slot \<open>q\<close>.
\<close>

definition file_at :: "fs \<Rightarrow> volume \<Rightarrow> nat \<Rightarrow> nat \<Rightarrow> nat \<Rightarrow> nat \<Rightarrow> nat \<Rightarrow> nat \<Rightarrow> bool" where
  "file_at s v p fd i q k pos \<longleftrightarrow> file_open s p fd i q \<and> valid_proc_nr (int p) \<and> i < NR_FILE_DESC \<and> i < length (f_desc_table s)
     \<and> word_of_int (fd_mode (f_desc_table s ! i)) AND O_RDWR \<noteq> 0 \<and> fd_pos (f_desc_table s ! i) = int pos
     \<and> i_num (inode_of s q) = int k \<and> i_mode (nodes v k) = I_REGULAR"

definition buffer_at :: "fs \<Rightarrow> nat \<Rightarrow> u32 \<Rightarrow> nat \<Rightarrow> u32 \<Rightarrow> bool" where
  "buffer_at s p addr l ua \<longleftrightarrow> va2la s p addr = Inr ua \<and> disjoint_blocks ua l fsbuf (2 ^ 20)"

definition file_bytes :: "fs \<Rightarrow> inode \<Rightarrow> nat \<Rightarrow> nat \<Rightarrow> u8 list" where
  "file_bytes s n pos l = map (disk s ROOT_DEV) [unat (i_start_sect n) * 512 + pos..<unat (i_start_sect n) * 512 + pos + l]"

lemma file_at_node:
  assumes st: "stored sb v s" and f: "file_at s v p fd i q k pos"
  obtains j where "k \<in> inums v" "same_node (inode_of s q) (nodes v k)" "i_dev (inode_of s q) = ROOT_DEV" "in_chunk sb (nodes v k) j" "0 < j" "j \<in> chunks v"
proof -
  have c: "cached v (root_inode s) (inode_table s)" and v: "vol_ok sb v" using st by (simp_all add: stored_def)
  note F = f [unfolded file_at_def file_open_def]
  have q: "q < NR_INODE" "i_cnt (inode_of s q) \<noteq> 0" using F by auto
  obtain l where "l \<in> inums v" "i_num (inode_of s q) = int l" "same_node (inode_of s q) (nodes v l)" "i_dev (inode_of s q) = ROOT_DEV"
    using cachedD(4) [OF c q] by blast
  moreover have "l = k" using calculation(2) F by simp
  moreover obtain j where "j \<in> chunks v" "0 < j" "in_chunk sb (nodes v k) j" using v F calculation(1,5) unfolding vol_ok_def by blast
  ultimately show thesis using that by blast
qed

lemma file_at_request:
  assumes st: "stored sb v s" and f: "file_at s v p fd i q k pos" and b: "buffer_at s p addr l ua"
  shows "file_request_ok (read_received m0 p (int fd) addr l s) READ i q pos l ua" and "file_request_ok (write_received m0 p (int fd) addr l s) WRITE i q pos l ua"
proof -
  obtain j where j: "same_node (inode_of s q) (nodes v k)" "i_dev (inode_of s q) = ROOT_DEV" using file_at_node [OF st f] by metis
  have "length (inode_table s) = NR_INODE" using st by (simp add: stored_def cached_def)
  then show "file_request_ok (read_received m0 p (int fd) addr l s) READ i q pos l ua" "file_request_ok (write_received m0 p (int fd) addr l s) WRITE i q pos l ua"
    using f b j by (simp_all add: file_request_ok_def file_at_def file_open_def buffer_at_def read_msg_of_def write_msg_of_def same_node_def)
qed

lemma read_call_stored:
  assumes st: "stored sb v s" and f: "file_at s v p fd i q k pos" and b: "buffer_at s p addr l ua" and len: "pos + l \<le> unat (i_size (nodes v k))" and sp: "span pos l \<le> 256"
  obtains s' where "read_file m0 p (int fd) addr (int l) s = Inr (Some (int l), s')" "stored sb v s'" "read_bytes (mem s') ua l = file_bytes s (nodes v k) pos l"
    "f_desc_table s' = (f_desc_table s)[i := (f_desc_table s ! i)\<lparr>fd_pos := int (pos + l)\<rparr>]" "disk s' = disk s" "inode_table s' = inode_table s"
    "proc_table s' = proc_table s" "root_inode s' = root_inode s" "\<And>x. x \<notin> block_addrs ua l \<Longrightarrow> x \<notin> block_addrs fsbuf (2 ^ 20) \<Longrightarrow> mem s' x = mem s x"
proof -
  obtain j where j: "same_node (inode_of s q) (nodes v k)" "i_dev (inode_of s q) = ROOT_DEV" "in_chunk sb (nodes v k) j" using file_at_node [OF st f] by metis
  have ki: "kinv s" and lay: "layout sb" using st by (simp_all add: stored_def)
  have n: "i_size (inode_of s q) = i_size (nodes v k)" "i_start_sect (inode_of s q) = i_start_sect (nodes v k)" using j(1) by (simp_all add: same_node_def)
  have "unat (i_size (nodes v k)) div 512 \<le> 2048" using j(3) div_le_mono [of "unat (i_size (nodes v k))" "2048 * 512" 512] by (simp add: in_chunk_def)
  then have fit: "unat (i_start_sect (inode_of s q)) + unat (i_size (inode_of s q)) div 512 < 2 ^ 22" using j(3) lay unfolding n by (simp add: in_chunk_def layout_def)
  obtain s' where s': "read_file m0 p (int fd) addr (int l) s = Inr (Some (int l), s')"
    "read_bytes (mem s') ua l = file_bytes s (nodes v k) pos l"
    "f_desc_table s' = (f_desc_table s)[i := (f_desc_table s ! i)\<lparr>fd_pos := int (pos + l)\<rparr>]"
    "disk s' = disk s" "inode_table s' = inode_table s" "proc_table s' = proc_table s" "root_inode s' = root_inode s" "sb_table s' = sb_table s"
    "\<And>x. x \<notin> block_addrs ua l \<Longrightarrow> x \<notin> block_addrs fsbuf (2 ^ 20) \<Longrightarrow> mem s' x = mem s x"
    using read_call_ok [OF ki file_at_request(1) [OF st f b] _ fit sp, of m0] len unfolding n j(2) file_bytes_def by metis
  have "kinv s'" using ki s'(6) by (simp add: kinv_def seg_base_def)
  then have "stored sb v s'" by (rule stored_cong [OF st]) (rule s')+
  then show thesis using that s' by blast
qed

lemma same_node_bytes: "same_node a b \<Longrightarrow> inode_bytes a = inode_bytes b"
  by (simp add: same_node_def inode_bytes_def)

text \<open>The data of a file lie behind the root directory.\<close>

lemma chunk_data:
  assumes "in_chunk sb n j" and "0 < j"
  shows "(unat (n_1st_sect sb) + 2048) * 512 \<le> unat (i_start_sect n) * 512 + x"
  using assms by (simp add: in_chunk_def)

lemma write_call_stored:
  assumes st: "stored sb v s" and f: "file_at s v p fd i q k pos" and b: "buffer_at s p addr l ua" and len: "pos + l \<le> 2048 * 512" and sp: "span pos l \<le> 256"
  obtains s' w where "write_file m0 p (int fd) addr (int l) s = Inr (Some (int l), s')" "stored sb (vol_resize k w v) s'"
    "unat w = max (unat (i_size (nodes v k))) (pos + l)" "file_bytes s' (nodes v k) pos l = read_bytes (mem s) ua l"
    "f_desc_table s' = (f_desc_table s)[i := (f_desc_table s ! i)\<lparr>fd_pos := int (pos + l)\<rparr>]" "proc_table s' = proc_table s" "root_inode s' = root_inode s"
    "inode_table s' = (inode_table s)[q := (inode_of s q)\<lparr>i_size := w\<rparr>]"
    "\<And>x. x \<notin> block_addrs fsbuf (2 ^ 20) \<Longrightarrow> mem s' x = mem s x"
    "\<And>d x. d \<noteq> ROOT_DEV \<or> (unat (n_1st_sect sb) + 2048) * 512 \<le> x \<Longrightarrow>
      d \<noteq> ROOT_DEV \<or> x < unat (i_start_sect (nodes v k)) * 512 + pos \<or> unat (i_start_sect (nodes v k)) * 512 + pos + l \<le> x \<Longrightarrow> disk s' d x = disk s d x"
proof -
  obtain j where j: "k \<in> inums v" "same_node (inode_of s q) (nodes v k)" "i_dev (inode_of s q) = ROOT_DEV" "in_chunk sb (nodes v k) j" "0 < j"
    using file_at_node [OF st f] by metis
  have ki: "kinv s" and lay: "layout sb" and gsb: "get_super_block ROOT_DEV s = Inr sb" and v: "vol_ok sb v" and od: "on_disk sb v (disk s)"
    and c: "cached v (root_inode s) (inode_table s)" using st by (simp_all add: stored_def)
  have n: "i_size (inode_of s q) = i_size (nodes v k)" "i_start_sect (inode_of s q) = i_start_sect (nodes v k)" "i_nr_sects (inode_of s q) = 2048"
    using j(2,4) by (simp_all add: same_node_def in_chunk_def)
  have kb: "0 < k" "k - 1 < 4096" using inums_bounds [OF v j(1)] by linarith+
  let ?a = "unat (i_start_sect (nodes v k)) * 512 + pos" and ?o = "inode_off sb (k - 1)"
  have cap: "pos + l \<le> unat (i_nr_sects (inode_of s q)) * 512" using len by (simp add: n(3))
  have fit: "unat (i_start_sect (inode_of s q)) + unat (i_nr_sects (inode_of s q)) < 2 ^ 22" using j(4) lay by (simp add: n(2,3) in_chunk_def layout_def)
  have num: "i_num (inode_of s q) = int (k - 1) + 1" using f kb by (simp add: file_at_def)
  obtain s' where s': "write_file m0 p (int fd) addr (int l) s = Inr (Some (int l), s')"
    "\<forall>e x. \<not> (e = ROOT_DEV \<and> ?o \<le> x \<and> x < ?o + 16) \<longrightarrow> disk s' e x = (if e = ROOT_DEV \<and> ?a \<le> x \<and> x < ?a + l then mem s (ua + of_nat (x - ?a)) else disk s e x)"
    "unat (i_size (inode_of s' q)) = max (unat (i_size (nodes v k))) (pos + l)" "inode_table s' = (inode_table s)[q := (inode_of s q)\<lparr>i_size := i_size (inode_of s' q)\<rparr>]"
    "proc_table s' = proc_table s" "f_desc_table s' = (f_desc_table s)[i := (f_desc_table s ! i)\<lparr>fd_pos := int (pos + l)\<rparr>]"
    "disk_inode s' ROOT_DEV sb (k - 1) = inode_bytes (inode_of s' q) \<or> i_size (inode_of s' q) = i_size (nodes v k) \<and> (\<forall>e x. \<not> (?a \<le> x \<and> x < ?a + l) \<longrightarrow> disk s' e x = disk s e x)"
    "\<And>x. x \<notin> block_addrs fsbuf (2 ^ 20) \<Longrightarrow> mem s' x = mem s x" "root_inode s' = root_inode s" "sb_table s' = sb_table s"
    using write_call_ok [OF ki file_at_request(2) [OF st f b] cap fit sp, unfolded j(3), OF gsb num layout_inodes(1) [OF lay kb(2)], of m0] unfolding n by blast
  define w where "w = i_size (inode_of s' q)"
  have q: "q < NR_INODE" "i_cnt (inode_of s q) \<noteq> 0" "i_num (inode_of s q) = int k" "length (inode_table s) = NR_INODE" "i_mode (nodes v k) = I_REGULAR"
    using f c by (auto simp: file_at_def file_open_def cached_def)
  have far: "(unat (n_1st_sect sb) + 2048) * 512 \<le> ?a" using chunk_data [OF j(4,5)] .
  have near: "?o + 16 \<le> (unat (n_1st_sect sb)) * 512" using layout_inodes(3) [OF lay kb(2)] by simp
  have n': "same_node (inode_of s' q) ((nodes v k)\<lparr>i_size := w\<rparr>)" 
  proof -
    have "inode_of s' q = (inode_of s q)\<lparr>i_size := w\<rparr>"
      using arg_cong [OF s'(4) [folded w_def], of "\<lambda>t. t ! q"] q(1,4) by simp
    then show ?thesis using j(2) by (simp add: same_node_def)
  qed
  have slot: "disk s' ROOT_DEV (?o + x) = inode_bytes ((nodes v k)\<lparr>i_size := w\<rparr>) ! x" if x: "x < 16" for x
  proof -
    have "disk_inode s' ROOT_DEV sb (k - 1) = inode_bytes ((nodes v k)\<lparr>i_size := w\<rparr>)"
    proof (cases "disk_inode s' ROOT_DEV sb (k - 1) = inode_bytes (inode_of s' q)")
      case False
      then have same: "w = i_size (nodes v k)" "\<And>e y. \<not> (?a \<le> y \<and> y < ?a + l) \<Longrightarrow> disk s' e y = disk s e y" using s'(7) by (auto simp: w_def)
      have "disk_inode s' ROOT_DEV sb (k - 1) = disk_inode s ROOT_DEV sb (k - 1)" using same(2) far near by (simp add: disk_inode_def)
      then show ?thesis using stored_disk_inode [OF st j(1)] same(1) by simp
    qed (use same_node_bytes [OF n'] in simp)
    then have "disk_inode s' ROOT_DEV sb (k - 1) ! x = inode_bytes ((nodes v k)\<lparr>i_size := w\<rparr>) ! x" by simp
    then show ?thesis using x by (simp add: disk_inode_def)
  qed
  have "on_disk sb (vol_resize k w v) (disk s')"
  proof (rule on_disk_resize [OF v lay od j(1)])
    show "disk s' ROOT_DEV x = disk s ROOT_DEV x" if "x < (unat (n_1st_sect sb) + 2048) * 512" "\<not> (?o \<le> x \<and> x < ?o + 16)" for x
      using s'(2) far that by simp
  qed (rule slot)
  moreover have "cached (vol_resize k w v) (root_inode s') (inode_table s')"
    using cached_resize [OF c q(1-3), of w] s'(4,9) by (simp add: w_def)
  moreover have "unat w \<le> 2048 * 512" using s'(3) len j(4) by (simp add: w_def in_chunk_def)
  moreover have "kinv s'" using ki s'(5) by (simp add: kinv_def seg_base_def)
  ultimately have "stored sb (vol_resize k w v) s'"
    using vol_resize_ok [OF v q(5)] gsb lay get_super_block_cong [OF s'(10)] by (simp add: stored_def)
  moreover have "file_bytes s' (nodes v k) pos l = read_bytes (mem s) ua l"
    unfolding file_bytes_def using s'(2) far near by (intro nth_equalityI) auto
  moreover have "disk s' d x = disk s d x" if "d \<noteq> ROOT_DEV \<or> (unat (n_1st_sect sb) + 2048) * 512 \<le> x" "d \<noteq> ROOT_DEV \<or> x < ?a \<or> ?a + l \<le> x" for d x
    using s'(2) that near by auto
  ultimately show thesis using that [OF s'(1)] s'(3-6,8,9) unfolding w_def by blast
qed

end
