(* ===== verification/Fs_Remove.thy ===== *)
theory Fs_Remove
  imports Fs_Data
begin

text \<open>
  Removing a file: \<^verbatim>\<open>do_unlink\<close> clears the i-node's bit, the bits of the file's chunk, the i-node and the directory entry, which takes exactly one
  file out of the volume, unless it is the last entry and the directory has holes before it.
\<close>

section \<open>Blanking a directory entry\<close>

lemma memset_write: "memset m a ch n = write_bytes m a (replicate n ch)"
  by (induction n arbitrary: m a) simp_all

definition used_between :: "fs \<Rightarrow> inode \<Rightarrow> nat \<Rightarrow> nat \<Rightarrow> int" where
  "used_between s dir a b = int (length (filter (\<lambda>n. ent_nr s dir n \<noteq> 0) [a..<b]))"

lemma used_between_load [simp]: "used_between (load_sector d q s) dir a b = used_between s dir a b"
  by (simp add: used_between_def)

lemma used_between_simps:
  "used_between s dir a a = 0"
  "a < b \<Longrightarrow> used_between s dir a b = (if ent_nr s dir a \<noteq> 0 then 1 else 0) + used_between s dir (Suc a) b"
  "a \<le> b \<Longrightarrow> b \<le> c \<Longrightarrow> used_between s dir a c = used_between s dir a b + used_between s dir b c"
proof -
  show "a < b \<Longrightarrow> used_between s dir a b = (if ent_nr s dir a \<noteq> 0 then 1 else 0) + used_between s dir (Suc a) b"
    by (simp add: used_between_def upt_rec [of a b])
  assume "a \<le> b" "b \<le> c"
  then have "[a..<c] = [a..<b] @ [b..<c]" by (metis le_add_diff_inverse upt_add_eq_append)
  then show "used_between s dir a c = used_between s dir a b + used_between s dir b c" by (simp add: used_between_def)
qed (simp add: used_between_def)

lemma unlink_block_found:
  fixes dir s i nr
  defines "s1 \<equiv> load_sector (i_dev dir) (unat (i_start_sect dir) + i) s"
  assumes "i * 32 + j \<le> n" and "n < i * 32 + 32" and "n < nr" and "ent_nr s dir n = k" and "\<And>m. i * 32 \<le> m \<Longrightarrow> m < n \<Longrightarrow> ent_nr s dir m \<noteq> k"
  shows "unlink_block k (int nr) s1 j (int (i * 32 + j)) ds = (Some (n - i * 32), int (n + 1), ds + 16 * used_between s dir (i * 32 + j) n)"
  using assms(2)
proof (induction "n - (i * 32 + j)" arbitrary: j ds)
  case 0
  then have n: "n = i * 32 + j" by simp
  then have j: "j < 32" using assms(3) by simp
  show ?case
    using n loaded_entry(2) [OF j, of dir i s, folded s1_def] assms(3-5) used_between_simps(1) by (subst unlink_block.simps) simp
next
  case (Suc l)
  then have lt: "i * 32 + j < n" by simp
  then have j: "j < 32" "l = n - (i * 32 + (j + 1))" using assms(3) Suc.hyps(2) by simp_all
  note e = loaded_entry(2) [OF j(1), of dir i s, folded s1_def]
  let ?ds = "if ent_nr s dir (i * 32 + j) \<noteq> 0 then ds + 16 else ds"
  have "unlink_block k (int nr) s1 (j + 1) (int (i * 32 + (j + 1))) ?ds = (Some (n - i * 32), int (n + 1), ?ds + 16 * used_between s dir (i * 32 + (j + 1)) n)"
    using Suc.hyps(1) [OF j(2)] lt by simp
  moreover have "ent_nr s dir (i * 32 + j) \<noteq> k" using assms(6) lt by simp
  ultimately show ?case
    using e j lt assms(4) used_between_simps(2) [OF lt, of s dir] by (subst unlink_block.simps) (simp add: algebra_simps split: if_splits)
qed

lemma unlink_block_all:
  fixes dir s i nr
  defines "s1 \<equiv> load_sector (i_dev dir) (unat (i_start_sect dir) + i) s"
  assumes "j \<le> 32" and "i * 32 + 32 \<le> nr" and "\<And>m. i * 32 \<le> m \<Longrightarrow> m < i * 32 + 32 \<Longrightarrow> ent_nr s dir m \<noteq> k"
  shows "unlink_block k (int nr) s1 j (int (i * 32 + j)) ds = (None, int (i * 32 + 32), ds + 16 * used_between s dir (i * 32 + j) (i * 32 + 32))"
  using assms(2)
proof (induction "32 - j" arbitrary: j ds)
  case 0
  then have "j = 32" by simp
  then show ?case using used_between_simps(1) by (subst unlink_block.simps) simp
next
  case (Suc l)
  then have j: "j < 32" "l = 32 - (j + 1)" by simp_all
  then have lt: "i * 32 + j < i * 32 + 32" by simp
  note e = loaded_entry(2) [OF j(1), of dir i s, folded s1_def]
  let ?ds = "if ent_nr s dir (i * 32 + j) \<noteq> 0 then ds + 16 else ds"
  have "unlink_block k (int nr) s1 (j + 1) (int (i * 32 + (j + 1))) ?ds
      = (None, int (i * 32 + 32), ?ds + 16 * used_between s dir (i * 32 + (j + 1)) (i * 32 + 32))"
    using Suc.hyps(1) [OF j(2)] j by simp
  moreover have "ent_nr s dir (i * 32 + j) \<noteq> k" using assms(4) lt by simp
  ultimately show ?case
    using e j assms(3) used_between_simps(2) [OF lt, of s dir] by (subst unlink_block.simps) (simp add: algebra_simps split: if_splits)
qed

lemma unlink_blocks_ok:
  assumes "dir_ok dir" and "fs_flat s" and "i * 32 \<le> n" and "n < unat (i_size dir) div 16" and "ent_nr s dir n = k" and "\<And>m. m < n \<Longrightarrow> ent_nr s dir m \<noteq> k"
  shows "\<exists>s'. unlink_blocks k dir (int i) (int (i * 32)) ds s = Inr (True, int (n + 1), ds + 16 * used_between s dir (i * 32) n, s') \<and> buffered s s'
    \<and> (\<forall>d x. disk s' d x = (if d = i_dev dir \<and> ent_at dir n \<le> x \<and> x < ent_at dir n + 16 then 0 else disk s d x))"
  using assms(2,3,5,6)
proof (induction "n div 32 - i" arbitrary: i s ds)
  let ?nr = "unat (i_size dir) div 16"
  case 0
  have i: "n div 32 = i" using "0.hyps" "0.prems"(2) by (intro order_antisym) (simp_all add: less_eq_div_iff_mult_less_eq)
  then have i: "n div 32 = i" "n mod 32 = n - i * 32" "n < i * 32 + 32"
    using div_mult_mod_eq [of n 32] mod_less_divisor [of 32 n] unfolding i by linarith+
  let ?q = "unat (i_start_sect dir) + i"
  let ?s1 = "load_sector (i_dev dir) ?q s"
  let ?s2 = "?s1\<lparr>mem := memset (mem ?s1) (fsbuf + of_nat ((n - i * 32) * DIR_ENTRY_SIZE)) 0 DIR_ENTRY_SIZE\<rparr>"
  let ?s3 = "store_sector (i_dev dir) ?q ?s2"
  have "i * 32 \<le> ?nr" using "0.prems"(2) assms(4) by simp
  note be = blk_of_entry [OF this]
  have bl: "unlink_block k (dir_entries dir) ?s1 0 (int (i * 32)) ds = (Some (n - i * 32), int (n + 1), ds + 16 * used_between s dir (i * 32) n)"
    using unlink_block_found [where i = i and j = 0 and n = n and nr = ?nr and s = s and dir = dir and k = k and ds = ds] "0.prems" i(3) assms(4) by (simp add: dir_ok_facts(1) [OF assms(1)])
  have lt: "int i < dir_blks 512 dir" using be(2) dir_ok_facts(2) [OF assms(1), of 512] by simp
  have at: "?q * 512 + (n - i * 32) * 16 = ent_at dir n" using entry_sector [of dir n] i by simp
  have fit: "(n - i * 32) * 16 + 16 \<le> 512" using i(3) by simp
  have s2: "?s2 = ?s1\<lparr>mem := write_bytes (mem ?s1) (fsbuf + of_nat ((n - i * 32) * 16)) (replicate 16 0)\<rparr>" by (simp add: memset_write)
  have "fs_flat ?s2" using "0.prems"(1) fs_flat_cong [of ?s2 s] by (simp add: load_sector_def)
  from dir_sector(2) [OF assms(1) "0.prems"(1) be(1) this]
  have wr: "WR_SECT (i_dev dir) (sint (i_start_sect dir) + int i) ?s2 = Inr ?s3" .
  have "unlink_blocks k dir (int i) (int (i * 32)) ds s = Inr (True, int (n + 1), ds + 16 * used_between s dir (i * 32) n, ?s3)"
    using lt dir_sector(1) [OF assms(1) "0.prems"(1) be(1)] bl wr by (subst unlink_blocks.simps) (simp add: Let_def)
  moreover have "buffered s ?s3"
    unfolding s2 by (rule buffered_trans [OF buffered_load buffered_trans [OF buffered_write buffered_store]]) (use fit in simp)
  moreover have "disk ?s3 d x = (if d = i_dev dir \<and> ent_at dir n \<le> x \<and> x < ent_at dir n + 16 then 0 else disk s d x)" for d x
    unfolding s2 using store_entry [of ?s1 "i_dev dir" ?q "(n - i * 32) * 16" "replicate 16 0" d x] fit at by (simp add: fb_load_sector) (auto intro!: nth_replicate)
  ultimately show ?case by blast
next
  let ?nr = "unat (i_size dir) div 16"
  case (Suc l)
  have le: "(i + 1) * 32 \<le> n" using Suc.hyps(2) by (metis Suc_eq_plus1 Suc_leI less_eq_div_iff_mult_less_eq zero_less_Suc zero_less_diff zero_less_numeral)
  have "i * 32 \<le> ?nr" using le assms(4) by simp
  note be = blk_of_entry [OF this]
  let ?s1 = "load_sector (i_dev dir) (unat (i_start_sect dir) + i) s"
  have bl: "unlink_block k (dir_entries dir) ?s1 0 (int (i * 32)) ds = (None, int (i * 32 + 32), ds + 16 * used_between s dir (i * 32) (i * 32 + 32))"
    using unlink_block_all [where i = i and j = 0 and nr = ?nr and s = s and dir = dir and k = k and ds = ds] Suc.prems(4) le assms(4) by (simp add: dir_ok_facts(1) [OF assms(1)])
  have "l = n div 32 - (i + 1)" using Suc.hyps(2) by simp
  from Suc.hyps(1) [OF this, where s = ?s1 and ds = "ds + 16 * used_between s dir (i * 32) (i * 32 + 32)"] le Suc.prems
  obtain s' where s': "unlink_blocks k dir (int (i + 1)) (int ((i + 1) * 32)) (ds + 16 * used_between s dir (i * 32) (i * 32 + 32)) ?s1
      = Inr (True, int (n + 1), ds + 16 * used_between s dir (i * 32) (i * 32 + 32) + 16 * used_between s dir ((i + 1) * 32) n, s')" "buffered ?s1 s'"
    "\<forall>d x. disk s' d x = (if d = i_dev dir \<and> ent_at dir n \<le> x \<and> x < ent_at dir n + 16 then 0 else disk s d x)" by auto
  have lt: "int i < dir_blks 512 dir" using be(2) dir_ok_facts(2) [OF assms(1), of 512] by simp
  have "\<not> int (i * 32 + 32) > dir_entries dir" using le assms(4) by (simp add: dir_ok_facts(1) [OF assms(1)])
  then have "unlink_blocks k dir (int i) (int (i * 32)) ds s
      = unlink_blocks k dir (int (i + 1)) (int ((i + 1) * 32)) (ds + 16 * used_between s dir (i * 32) (i * 32 + 32)) ?s1"
    using lt dir_sector(1) [OF assms(1) Suc.prems(1) be(1)] bl by (subst unlink_blocks.simps) (simp add: ac_simps)
  moreover have "used_between s dir (i * 32) n = used_between s dir (i * 32) (i * 32 + 32) + used_between s dir ((i + 1) * 32) n"
    using used_between_simps(3) [of "i * 32" "i * 32 + 32" n s dir] le by (simp add: add.commute)
  ultimately show ?case using s' buffered_trans [OF buffered_load s'(2)] by (auto simp: algebra_simps)
qed

section \<open>The bit of the i-node\<close>

lemma free_imap_ok:
  assumes "fs_flat s" and "MAJOR dev = 3" and "k < 4096" and "bit (disk s dev (2 * 512 + k div 8)) (k mod 8)"
  shows "\<exists>s'. free_imap_bit dev (int k) s = Inr s' \<and> buffered s s'
    \<and> (\<forall>m < 4096. bit (disk s' dev (2 * 512 + m div 8)) (m mod 8) \<longleftrightarrow> bit (disk s dev (2 * 512 + m div 8)) (m mod 8) \<and> m \<noteq> k)
    \<and> (\<forall>d x. d \<noteq> dev \<or> x div 512 \<noteq> 2 \<longrightarrow> disk s' d x = disk s d x)"
proof -
  let ?s1 = "load_sector dev 2 s" and ?b = "k div 8"
  let ?s2 = "set_fb ?b (fb ?s1 ?b AND NOT (push_bit (k mod 8) 1)) ?s1"
  let ?s3 = "store_sector dev 2 ?s2"
  have b: "?b < 512" using assms(3) by (simp add: less_mult_imp_div_less)
  have fb1: "fb ?s1 l = disk s dev (2 * 512 + l)" if "l < 512" for l using fb_load_sector [OF that] by simp
  have fl: "fs_flat ?s2" using assms(1) fs_flat_cong [of ?s2 s] by (simp add: set_fb_def load_sector_def)
  have rw: "RD_SECT dev 2 s = Inr ?s1" "WR_SECT dev 2 ?s2 = Inr ?s3"
    using RD_SECT_eq [OF assms(1,2), of 2] WR_SECT_eq [OF fl assms(2), of 2] by simp_all
  have "nat (int k) div 8 = ?b" "nat (int k) mod 8 = k mod 8" by simp_all
  then have run: "free_imap_bit dev (int k) s = Inr ?s3"
    using b assms(4) fb1 [OF b] rw by (simp add: free_imap_bit_def Let_def)
  have d3: "disk ?s3 dev (2 * 512 + l) = (if l = ?b then disk s dev (2 * 512 + l) AND NOT (push_bit (k mod 8) 1) else disk s dev (2 * 512 + l))" if "l < 512" for l
  proof -
    have at: "(2 * 512 + l) div 512 = 2" "(2 * 512 + l) mod 512 = l" using sector_split [OF that, of 2] by simp_all
    show ?thesis unfolding disk_store_sector at using that b fb1 by (auto simp: fb_set_fb)
  qed
  have "bit (disk ?s3 dev (2 * 512 + m div 8)) (m mod 8) \<longleftrightarrow> bit (disk s dev (2 * 512 + m div 8)) (m mod 8) \<and> m \<noteq> k" if "m < 4096" for m
  proof -
    have "m = k \<longleftrightarrow> m div 8 = ?b \<and> m mod 8 = k mod 8" by (metis div_mult_mod_eq)
    moreover have "m div 8 < 512" using that by (simp add: less_mult_imp_div_less)
    ultimately show ?thesis using d3 by (auto simp: bit_simps)
  qed
  moreover have "disk ?s3 d x = disk s d x" if "d \<noteq> dev \<or> x div 512 \<noteq> 2" for d x
    using that by (auto simp: disk_store_sector set_fb_def)
  moreover have "buffered s ?s3" by (rule buffered_trans [OF buffered_load buffered_trans [OF buffered_set_fb [OF b] buffered_store]])
  ultimately show ?thesis using run by blast
qed

section \<open>Taking a file out of the volume\<close>

lemma vol_okI:
  assumes "\<And>n nm k. entries v n = Some (nm, k) \<Longrightarrow> plain_name nm \<and> 0 < k \<and> k < 4096 \<and> n < nents v"
    and "\<And>n m a b k l. entries v n = Some (a, k) \<Longrightarrow> entries v m = Some (b, l) \<Longrightarrow> n \<noteq> m \<Longrightarrow> a \<noteq> b \<and> k \<noteq> l"
    and "entries v 0 = Some ([0x2E], 1)" and "i_mode (nodes v 1) = I_DIRECTORY" and "i_start_sect (nodes v 1) = n_1st_sect sb"
    and "unat (i_size (nodes v 1)) = 16 * nents v" and "nents v \<le> capacity v" and "capacity v \<le> 65536" and "capacity v mod 32 = 0" and "0 \<in> chunks v"
    and "\<And>k. k \<in> inums v \<Longrightarrow> i_mode (nodes v k) = I_REGULAR \<Longrightarrow> \<exists>j \<in> chunks v. 0 < j \<and> in_chunk sb (nodes v k) j"
    and "\<And>k l. k \<in> inums v \<Longrightarrow> l \<in> inums v \<Longrightarrow> i_mode (nodes v k) = I_REGULAR \<Longrightarrow> i_mode (nodes v l) = I_REGULAR
      \<Longrightarrow> i_start_sect (nodes v k) = i_start_sect (nodes v l) \<Longrightarrow> k = l"
  shows "vol_ok sb v"
  unfolding vol_ok_def
proof (intro conjI allI impI ballI)
  show "a \<noteq> b" "k \<noteq> l" if "entries v n = Some (a, k) \<and> entries v m = Some (b, l) \<and> n \<noteq> m" for n m a b k l using assms(2) that by blast+
  show "k = l" if "k \<in> inums v" "l \<in> inums v" "i_mode (nodes v k) = I_REGULAR \<and> i_mode (nodes v l) = I_REGULAR \<and> i_start_sect (nodes v k) = i_start_sect (nodes v l)" for k l
    using assms(12) that by blast
qed (use assms in blast)+

definition used_before :: "volume \<Rightarrow> nat \<Rightarrow> nat" where
  "used_before v n = length (filter (\<lambda>i. entries v i \<noteq> None) [0..<n])"

definition shrunk :: "volume \<Rightarrow> nat \<Rightarrow> inode \<Rightarrow> inode" where
  "shrunk v n d = (if n + 1 = nents v then d\<lparr>i_size := of_nat (16 * used_before v n)\<rparr> else d)"

definition vol_unlink :: "nat \<Rightarrow> nat \<Rightarrow> volume \<Rightarrow> volume" where
  "vol_unlink n j v = v\<lparr>entries := (entries v)(n := None), nodes := (nodes v)(1 := shrunk v n (nodes v 1)), chunks := chunks v - {j}\<rparr>"

lemma vol_unlink_fields [simp]:
  "entries (vol_unlink n j v) = (entries v)(n := None)" "chunks (vol_unlink n j v) = chunks v - {j}" "capacity (vol_unlink n j v) = capacity v"
  "nodes (vol_unlink n j v) = (nodes v)(1 := shrunk v n (nodes v 1))"
  by (simp_all add: vol_unlink_def)

lemma shrunk_fields [simp]:
  "i_mode (shrunk v n d) = i_mode d" "i_start_sect (shrunk v n d) = i_start_sect d" "i_nr_sects (shrunk v n d) = i_nr_sects d"
  "i_dev (shrunk v n d) = i_dev d" "i_cnt (shrunk v n d) = i_cnt d" "i_num (shrunk v n d) = i_num d"
  by (simp_all add: shrunk_def)

text \<open>The entries before the last one must not leave gaps; otherwise the new size of the directory cuts files off.\<close>

definition no_gap :: "volume \<Rightarrow> nat \<Rightarrow> bool" where
  "no_gap v n \<longleftrightarrow> (n + 1 = nents v \<longrightarrow> (\<forall>i < n. entries v i \<noteq> None \<longrightarrow> i < used_before v n))"

text \<open>The file to remove: its entry, its i-node number and its chunk.\<close>

definition file_in :: "super_block \<Rightarrow> volume \<Rightarrow> u8 list \<Rightarrow> nat \<Rightarrow> nat \<Rightarrow> nat \<Rightarrow> bool" where
  "file_in sb v nm n k j \<longleftrightarrow> entries v n = Some (nm, k) \<and> i_mode (nodes v k) = I_REGULAR \<and> 0 < j \<and> in_chunk sb (nodes v k) j"

lemma file_inD:
  assumes v: "vol_ok sb v" and f: "file_in sb v nm n k j"
  shows "k \<in> inums v" and "k \<noteq> 1" and "n \<noteq> 0" and "n < nents v" and "plain_name nm" and "0 < k" and "k < 4096" and "inums (vol_unlink n i v) = inums v - {k}"
    and "j \<in> chunks v" and "l \<in> inums v \<Longrightarrow> i_mode (nodes v l) = I_REGULAR \<Longrightarrow> in_chunk sb (nodes v l) j \<Longrightarrow> l = k"
proof -
  note F = f [unfolded file_in_def]
  have e: "entries v n = Some (nm, k)" using F by simp
  show k: "k \<in> inums v" using e by (auto simp: inums_def)
  show "k \<noteq> 1" using F v by (auto simp: vol_ok_def const_simps)
  then show "n \<noteq> 0" using e vol_okD(3) [OF v] by (cases "n = 0") auto
  show "n < nents v" "plain_name nm" "0 < k" "k < 4096" using vol_okD(1) [OF v e] by simp_all
  have "l \<in> inums (vol_unlink n i v) \<longleftrightarrow> l \<in> inums v \<and> l \<noteq> k" for l
  proof
    assume "l \<in> inums (vol_unlink n i v)"
    then obtain m a where "m \<noteq> n" "entries v m = Some (a, l)" by (auto simp: inums_def split: if_splits)
    then show "l \<in> inums v \<and> l \<noteq> k" using vol_okD(2) [OF v e, of m] by (auto simp: inums_def)
  next
    assume l: "l \<in> inums v \<and> l \<noteq> k"
    then obtain m a where m: "entries v m = Some (a, l)" by (auto simp: inums_def)
    then have "m \<noteq> n" using e l by auto
    then show "l \<in> inums (vol_unlink n i v)" using m by (auto simp: inums_def)
  qed
  then show "inums (vol_unlink n i v) = inums v - {k}" by blast
  have one: "i_start_sect (nodes v a) = i_start_sect (nodes v b)" if "in_chunk sb (nodes v a) c" "in_chunk sb (nodes v b) c" for a b c
    using that by (intro word_unat_eq_iff [THEN iffD2]) (simp add: in_chunk_def)
  show "l = k" if "l \<in> inums v" "i_mode (nodes v l) = I_REGULAR" "in_chunk sb (nodes v l) j"
  proof -
    have "i_start_sect (nodes v l) = i_start_sect (nodes v k)" using one that(3) F by blast
    then show ?thesis using v that k F unfolding vol_ok_def by blast
  qed
  obtain j' where "j' \<in> chunks v" "in_chunk sb (nodes v k) j'" using v k F unfolding vol_ok_def by blast
  then show "j \<in> chunks v" using F by (simp add: in_chunk_def)
qed

lemma used_before_le: "used_before v n \<le> n"
  unfolding used_before_def by (rule order_trans [OF length_filter_le]) simp

lemma used_before_pos:
  assumes "vol_ok sb v" and "n \<noteq> 0"
  shows "0 < used_before v n"
proof -
  have "0 \<in> set (filter (\<lambda>i. entries v i \<noteq> None) [0..<n])" using assms(2) vol_okD(3) [OF assms(1)] by simp
  then show ?thesis unfolding used_before_def by (rule length_pos_if_in_set)
qed

lemma nents_unlink:
  assumes v: "vol_ok sb v" and f: "file_in sb v nm n k j"
  shows "unat (i_size (nodes (vol_unlink n j v) 1)) = 16 * (if n + 1 = nents v then used_before v n else nents v)"
    and "nents (vol_unlink n j v) = (if n + 1 = nents v then used_before v n else nents v)"
proof -
  have "used_before v n \<le> 65536" using used_before_le [of v n] file_inD(4) [OF v f] vol_okD(5,6) [OF v] by linarith
  then have "unat (of_nat (16 * used_before v n) :: u32) = 16 * used_before v n" by (intro unat_u32_of_nat) simp
  then show sz: "unat (i_size (nodes (vol_unlink n j v) 1)) = 16 * (if n + 1 = nents v then used_before v n else nents v)"
    using vol_okD(4) [OF v] by (simp add: shrunk_def del: of_nat_mult)
  then show "nents (vol_unlink n j v) = (if n + 1 = nents v then used_before v n else nents v)" unfolding nents_def [of "vol_unlink n j v"] by simp
qed

lemma vol_unlink_ok:
  assumes v: "vol_ok sb v" and f: "file_in sb v nm n k j" and g: "no_gap v n"
  shows "vol_ok sb (vol_unlink n j v)"
proof -
  let ?v = "vol_unlink n j v"
  note a = v [unfolded vol_ok_def] and F = file_inD [OF v f] and ne = nents_unlink [OF v f]
  have le: "nents ?v \<le> nents v" using used_before_le [of v n] F(4) unfolding ne(2) by auto
  have ents: "plain_name a \<and> 0 < l \<and> l < 4096 \<and> m < nents ?v" if e: "entries ?v m = Some (a, l)" for m a l
  proof -
    have m: "m \<noteq> n" "entries v m = Some (a, l)" using e by (auto split: if_splits)
    have "m < nents ?v"
      using vol_okD(1) [OF v m(2)] m g unfolding ne(2) by (auto simp: no_gap_def)
    then show ?thesis using vol_okD(1) [OF v m(2)] by simp
  qed
  have uniq: "a \<noteq> b \<and> l \<noteq> l'" if "entries ?v m = Some (a, l)" "entries ?v m' = Some (b, l')" "m \<noteq> m'" for m m' a b l l'
    using that vol_okD(2) [OF v] by (auto split: if_splits)
  have own: "\<exists>i \<in> chunks ?v. 0 < i \<and> in_chunk sb (nodes ?v l) i" if "l \<in> inums ?v" "i_mode (nodes ?v l) = I_REGULAR" for l
  proof -
    have l: "l \<in> inums v" "l \<noteq> k" using that(1) F(8) [of j] by auto
    have l1: "l \<noteq> 1" using that(2) a by (auto simp: const_simps)
    then have reg: "i_mode (nodes v l) = I_REGULAR" using that(2) by simp
    then obtain i where i: "i \<in> chunks v" "0 < i" "in_chunk sb (nodes v l) i" using a l(1) by blast
    then have "i \<noteq> j" using F(10) [OF l(1) reg] l(2) by blast
    then show ?thesis using i l1 by auto
  qed
  have same: "i_mode (nodes ?v l) = i_mode (nodes v l)" "i_start_sect (nodes ?v l) = i_start_sect (nodes v l)" for l by simp_all
  have start: "l = l'" if "l \<in> inums ?v" "l' \<in> inums ?v" "i_mode (nodes ?v l) = I_REGULAR" "i_mode (nodes ?v l') = I_REGULAR"
    "i_start_sect (nodes ?v l) = i_start_sect (nodes ?v l')" for l l'
  proof -
    have "l \<in> inums v" "l' \<in> inums v" using that(1,2) F(8) [of j] by auto
    moreover have "i_mode (nodes v l) = I_REGULAR" "i_mode (nodes v l') = I_REGULAR" "i_start_sect (nodes v l) = i_start_sect (nodes v l')"
      using that(3-5) unfolding same .
    ultimately show ?thesis using a by blast
  qed
  have root: "entries ?v 0 = Some ([0x2E], 1)" "i_mode (nodes ?v 1) = I_DIRECTORY" "i_start_sect (nodes ?v 1) = n_1st_sect sb" "0 \<in> chunks ?v"
    using a F(3) f by (auto simp: file_in_def)
  have sz: "unat (i_size (nodes ?v 1)) = 16 * nents ?v" unfolding ne ..
  have cap: "nents ?v \<le> capacity ?v" "capacity ?v \<le> 65536" "capacity ?v mod 32 = 0" using le vol_okD(5-7) [OF v] by simp_all
  show ?thesis
  proof (rule vol_okI)
    show "plain_name a \<and> 0 < l \<and> l < 4096 \<and> m < nents ?v" if "entries ?v m = Some (a, l)" for m a l using that by (rule ents)
    show "a \<noteq> b \<and> l \<noteq> l'" if "entries ?v m = Some (a, l)" "entries ?v m' = Some (b, l')" "m \<noteq> m'" for m m' a b l l' using that by (rule uniq)
    show "\<exists>i \<in> chunks ?v. 0 < i \<and> in_chunk sb (nodes ?v l) i" if "l \<in> inums ?v" "i_mode (nodes ?v l) = I_REGULAR" for l using that by (rule own)
    show "l = l'" if "l \<in> inums ?v" "l' \<in> inums ?v" "i_mode (nodes ?v l) = I_REGULAR" "i_mode (nodes ?v l') = I_REGULAR"
      "i_start_sect (nodes ?v l) = i_start_sect (nodes ?v l')" for l l' using that by (rule start)
  qed (fact root sz cap)+
qed

section \<open>The disk and the table after a removal\<close>

lemma on_disk_unlink:
  assumes v: "vol_ok sb v" and lay: "layout sb" and od: "on_disk sb v D" and f: "file_in sb v nm n k j"
    and imap: "\<And>m. m < 4096 \<Longrightarrow> bit (D' ROOT_DEV (2 * 512 + m div 8)) (m mod 8) \<longleftrightarrow> bit (D ROOT_DEV (2 * 512 + m div 8)) (m mod 8) \<and> m \<noteq> k"
    and smap: "\<And>m. m < 4096 * unat (nr_smap_sects sb) \<Longrightarrow> bit (D' ROOT_DEV (3 * 512 + m div 8)) (m mod 8)
        \<longleftrightarrow> bit (D ROOT_DEV (3 * 512 + m div 8)) (m mod 8) \<and> \<not> (2048 * j + 1 \<le> m \<and> m < 2048 * j + 1 + 2048)"
    and inode: "\<And>l i. l < 4096 \<Longrightarrow> i < 16 \<Longrightarrow> l \<noteq> k - 1 \<Longrightarrow> D' ROOT_DEV (inode_off sb l + i) =
        (if l = 0 then inode_bytes (shrunk v n (nodes v 1)) ! i else D ROOT_DEV (inode_off sb l + i))"
    and dir: "\<And>m i. m < capacity v \<Longrightarrow> i < 16 \<Longrightarrow> D' ROOT_DEV (unat (n_1st_sect sb) * 512 + m * 16 + i)
        = (if m = n then 0 else D ROOT_DEV (unat (n_1st_sect sb) * 512 + m * 16 + i))"
  shows "on_disk sb (vol_unlink n j v) D'"
proof -
  let ?v = "vol_unlink n j v" and ?a = "unat (n_1st_sect sb) * 512"
  note F = file_inD [OF v f] and O = od [unfolded on_disk_def]
  have slots: "slot_name ?v m = (if m = n then replicate 12 0 else slot_name v m)" "slot_num ?v m = (if m = n then 0 else slot_num v m)" for m
    by (simp_all add: slot_name_def slot_num_def)
  have "D' ROOT_DEV (?a + m * 16 + 4 + i) = slot_name ?v m ! i" if "m < capacity v" "i < 12" for m i
    using dir [OF that(1), of "4 + i"] O that slots by (cases "m = n") (simp_all add: add.assoc)
  moreover have "D' ROOT_DEV (?a + m * 16 + i) = bytes_of_u32 (word_of_int (slot_num ?v m)) ! i" if "m < capacity v" "i < 4" for m i
  proof -
    have "bytes_of_u32 0 ! i = 0" using that(2) by (auto simp: bytes_of_u32_def nth_Cons')
    then show ?thesis using dir [OF that(1), of i] O that slots by (cases "m = n") simp_all
  qed
  moreover have "bit (D' ROOT_DEV (2 * 512 + m div 8)) (m mod 8) \<longleftrightarrow> m = 0 \<or> m \<in> inums ?v" if "m < 4096" for m
    using imap [OF that] O that F(6) unfolding F(8) by auto
  moreover have "bit (D' ROOT_DEV (3 * 512 + m div 8)) (m mod 8) \<longleftrightarrow> m = 0 \<or> (m - 1) div 2048 \<in> chunks ?v"
    if "m < 4096 * unat (nr_smap_sects sb)" for m
  proof -
    have "m = 0 \<or> ((m - 1) div 2048 = j \<longleftrightarrow> 2048 * j + 1 \<le> m \<and> m < 2048 * j + 1 + 2048)" using chunk_bits [of m j] by blast
    then show ?thesis using smap [OF that] O that by auto
  qed
  moreover have "D' ROOT_DEV (inode_off sb (l - 1) + i) = inode_bytes (nodes ?v l) ! i" if l: "l \<in> inums ?v" and i: "i < 16" for l i
  proof -
    have lv: "l \<in> inums v" "l \<noteq> k" using l F(8) by auto
    have lb: "0 < l" "l < 4096" using inums_bounds [OF v lv(1)] by auto
    then have e: "l - 1 < 4096" "l - 1 \<noteq> k - 1" "l - 1 = 0 \<longleftrightarrow> l = 1" using lv(2) F(6) by auto
    show ?thesis using inode [OF e(1) i e(2)] O lv(1) i unfolding e(3) by auto
  qed
  ultimately show ?thesis unfolding on_disk_def by simp
qed

lemma cached_unlink:
  assumes c: "cached v r t" and v: "vol_ok sb v" and f: "file_in sb v nm n k j" and closed: "\<And>i. i < NR_INODE \<Longrightarrow> i_cnt (t ! i) \<noteq> 0 \<Longrightarrow> i_num (t ! i) \<noteq> int k"
    and q: "q < NR_INODE" "i_cnt (t ! q) = 0" "i_cnt x = 0"
  shows "cached (vol_unlink n j v) r (t[q := x, r := shrunk v n (t ! r)])"
proof -
  let ?v = "vol_unlink n j v" and ?t = "t[q := x, r := shrunk v n (t ! r)]"
  note C = cachedD [OF c] and F = file_inD [OF v f]
  have qr: "q \<noteq> r" using C(6) q(2) by auto
  have nth: "?t ! i = (if i = r then shrunk v n (t ! r) else if i = q then x else t ! i)" if "i < NR_INODE" for i
    using C(1,2) q(1) qr that by (simp add: nth_list_update)
  have at: "i_cnt (?t ! i) = i_cnt (t ! i)" "i_cnt (?t ! i) \<noteq> 0 \<Longrightarrow> i_num (?t ! i) = i_num (t ! i) \<and> i_dev (?t ! i) = i_dev (t ! i)" if "i < NR_INODE" for i
    using nth [OF that] q(2,3) by auto
  have node: "\<exists>l \<in> inums ?v. i_num (t ! i) = int l \<and> same_node (?t ! i) (nodes ?v l)" if i: "i < NR_INODE" "i_cnt (t ! i) \<noteq> 0" for i
  proof -
    obtain l where l: "l \<in> inums v" "i_num (t ! i) = int l" "same_node (t ! i) (nodes v l)" using C(4) [OF i] by blast
    have "l \<noteq> k" using closed [OF i] l(2) by auto
    then have lv: "l \<in> inums ?v" using l(1) F(8) by auto
    have "l = 1 \<longleftrightarrow> i = r" using C(5) [OF i(1) C(2) i(2) C(6)] C(7) l(2) by auto
    moreover have "i \<noteq> q" using i(2) q(2) by auto
    ultimately have "same_node (?t ! i) (nodes ?v l)" using l(3) nth [OF i(1)] by (auto simp: same_node_def shrunk_def)
    then show ?thesis using lv l(2) by blast
  qed
  show ?thesis
  proof (rule cachedI)
    show "length ?t = NR_INODE" "r < NR_INODE" using C(1,2) by simp_all
    show "i_cnt (?t ! r) \<noteq> 0" "i_num (?t ! r) = 1" using at [OF C(2)] C(6,7) by simp_all
    show "0 \<le> i_cnt (?t ! i)" if "i < NR_INODE" for i using at(1) [OF that] C(3) [OF that] by simp
    show "i_dev (?t ! i) = ROOT_DEV \<and> (\<exists>l \<in> inums ?v. i_num (?t ! i) = int l \<and> same_node (?t ! i) (nodes ?v l))" if "i < NR_INODE" "i_cnt (?t ! i) \<noteq> 0" for i
      using at [OF that(1)] that(2) C(4) [OF that(1)] node [OF that(1)] by auto
    show "i = i'" if "i < NR_INODE" "i' < NR_INODE" "i_cnt (?t ! i) \<noteq> 0" "i_cnt (?t ! i') \<noteq> 0" "i_num (?t ! i) = i_num (?t ! i')" for i i'
      using C(5) [OF that(1,2)] at [OF that(1)] at [OF that(2)] that(3-5) by auto
  qed
qed

section \<open>The parts of a removal\<close>

lemma remove_entry_ok:
  assumes "fs_flat s" and r: "r < length (inode_table s)" and dir: "dir = inode_of s r" and ok: "dir_ok dir" and gsb: "get_super_block (i_dev dir) s = Inr sb"
    and num: "i_num dir = 1" and fit: "inodes_fit sb 0" and front: "inode_off sb 0 + 16 \<le> unat (i_start_sect dir) * 512"
    and n: "n < unat (i_size dir) div 16" "ent_nr s dir n = k" "\<And>m. m < n \<Longrightarrow> ent_nr s dir m \<noteq> k"
    and D: "D = (if n + 1 = unat (i_size dir) div 16 then dir\<lparr>i_size := word_of_int (16 * used_between s dir 0 n)\<rparr> else dir)"
  obtains s' where "remove_entry r k s = Inr s'" "buffered (s\<lparr>inode_table := (inode_table s)[r := D]\<rparr>) s'"
    "\<And>i. i < 16 \<Longrightarrow> n + 1 = unat (i_size dir) div 16 \<Longrightarrow> disk s' (i_dev dir) (inode_off sb 0 + i) = inode_bytes D ! i"
    "\<And>e x. \<not> (e = i_dev dir \<and> n + 1 = unat (i_size dir) div 16 \<and> inode_off sb 0 \<le> x \<and> x < inode_off sb 0 + 16) \<Longrightarrow>
      disk s' e x = (if e = i_dev dir \<and> ent_at dir n \<le> x \<and> x < ent_at dir n + 16 then 0 else disk s e x)"
proof -
  obtain s1 where s1: "unlink_blocks k dir 0 0 0 s = Inr (True, int (n + 1), 16 * used_between s dir 0 n, s1)" "buffered s s1"
    "\<forall>d x. disk s1 d x = (if d = i_dev dir \<and> ent_at dir n \<le> x \<and> x < ent_at dir n + 16 then 0 else disk s d x)"
    using unlink_blocks_ok [OF ok assms(1), of 0 n k 0] n by auto
  have de: "dir_entries dir = int (unat (i_size dir) div 16)" by (rule dir_ok_facts(1) [OF ok])
  show thesis
  proof (cases "n + 1 = unat (i_size dir) div 16")
    case False
    then have "remove_entry r k s = Inr s1" using s1(1) de dir by (simp add: remove_entry_def)
    moreover have "D = inode_of s r" using D False dir by simp
    ultimately show ?thesis using that [of s1] s1(2,3) False by simp
  next
    case True
    let ?s2 = "upd_inode s1 r (\<lambda>m. m\<lparr>i_size := word_of_int (16 * used_between s dir 0 n)\<rparr>)"
    note b = buffered_fields [OF s1(2)]
    have t2: "inode_table ?s2 = (inode_table s)[r := D]" "inode_of ?s2 r = D" using b(2) r D True dir by (simp_all add: upd_inode_def)
    have Df: "i_dev D = i_dev dir" "i_num D = int 0 + 1" using D num by simp_all
    have "fs_flat ?s2" using b(9) assms(1) by simp
    moreover have "get_super_block (i_dev dir) ?s2 = Inr sb" using gsb get_super_block_cong [of ?s2 s] b(4) by (simp add: upd_inode_def)
    moreover have "MAJOR (i_dev dir) = 3" using ok by (simp add: dir_ok_def)
    ultimately obtain s3 where s3: "sync_inode r ?s2 = Inr s3" "buffered ?s2 s3" "disk_inode s3 (i_dev dir) sb 0 = inode_bytes D"
      "\<forall>d x. \<not> (d = i_dev dir \<and> inode_off sb 0 \<le> x \<and> x < inode_off sb 0 + 16) \<longrightarrow> disk s3 d x = disk ?s2 d x"
      using sync_inode_ok [of ?s2 r sb 0, unfolded t2(2) Df, OF _ _ _ refl fit] by blast
    have "remove_entry r k s = Inr s3" using s1(1) de dir True s3(1) by (simp add: remove_entry_def)
    moreover have "buffered (s\<lparr>inode_table := (inode_table s)[r := D]\<rparr>) s3"
    proof -
      have "?s2 = s1\<lparr>inode_table := (inode_table s)[r := D]\<rparr>" using t2(1) by (simp add: upd_inode_def)
      then have "buffered (s1\<lparr>inode_table := (inode_table s)[r := D]\<rparr>) s3" using s3(2) by simp
      then show ?thesis by (rule buffered_trans [OF buffered_inode_table [OF s1(2)]])
    qed
    moreover have "disk s3 (i_dev dir) (inode_off sb 0 + i) = inode_bytes D ! i" if "i < 16" for i
      using arg_cong [OF s3(3), of "\<lambda>xs. xs ! i"] that by (simp add: disk_inode_def)
    moreover have "disk s3 e x = (if e = i_dev dir \<and> ent_at dir n \<le> x \<and> x < ent_at dir n + 16 then 0 else disk s e x)"
      if "\<not> (e = i_dev dir \<and> inode_off sb 0 \<le> x \<and> x < inode_off sb 0 + 16)" for e x
      using s3(4) that s1(3) by (simp add: upd_inode_def)
    ultimately show ?thesis using that True by blast
  qed
qed

lemma used_stored:
  assumes st: "stored sb v s" and n: "n \<le> nents v" and R: "R = inode_of s (root_inode s)" and same: "\<And>m. m < nents v \<Longrightarrow> ent_nr t R m = ent_nr s R m"
  shows "used_between t R 0 n = int (used_before v n)"
proof -
  have v: "vol_ok sb v" using st by (simp add: stored_def)
  have "ent_nr t R m \<noteq> 0 \<longleftrightarrow> entries v m \<noteq> None" if "m < n" for m
  proof -
    have m: "m < nents v" "m < capacity v" using that n vol_okD(5) [OF v] by simp_all
    have "ent_nr t R m = slot_num v m" using same [OF m(1)] stored_entry(2) [OF st m(2)] R by simp
    then show ?thesis using vol_okD(1) [OF v, of m] by (auto simp: slot_num_def split: option.splits)
  qed
  then have "filter (\<lambda>m. ent_nr t R m \<noteq> 0) [0..<n] = filter (\<lambda>m. entries v m \<noteq> None) [0..<n]" by (intro filter_cong) auto
  then show ?thesis by (simp add: used_between_def used_before_def)
qed

text \<open>The two maps.\<close>

lemma stored_free:
  assumes st: "stored sb v s" and f: "file_in sb v nm n k j" and node: "same_node p (nodes v k)" "i_dev p = ROOT_DEV"
  obtains s1 s2 where "free_imap_bit ROOT_DEV (int k) s = Inr s1" "free_smap_bits sb p s1 = Inr s2" "buffered s s2"
    "\<And>m. m < 4096 \<Longrightarrow> bit (disk s2 ROOT_DEV (2 * 512 + m div 8)) (m mod 8) \<longleftrightarrow> bit (disk s ROOT_DEV (2 * 512 + m div 8)) (m mod 8) \<and> m \<noteq> k"
    "\<And>m. m < 4096 * unat (nr_smap_sects sb) \<Longrightarrow> bit (disk s2 ROOT_DEV (3 * 512 + m div 8)) (m mod 8)
        \<longleftrightarrow> bit (disk s ROOT_DEV (3 * 512 + m div 8)) (m mod 8) \<and> \<not> (2048 * j + 1 \<le> m \<and> m < 2048 * j + 1 + 2048)"
    "\<And>d x. d \<noteq> ROOT_DEV \<or> x div 512 \<noteq> 2 \<and> (x div 512 < 3 \<or> 3 + unat (nr_smap_sects sb) \<le> x div 512) \<Longrightarrow> disk s2 d x = disk s d x"
proof -
  have v: "vol_ok sb v" and lay: "layout sb" and ki: "kinv s" and od: "on_disk sb v (disk s)" using st by (simp_all add: stored_def)
  note F = file_inD [OF v f] and O = od [unfolded on_disk_def]
  have ic: "in_chunk sb (nodes v k) j" using f by (simp add: file_in_def)
  have L: "nr_imap_sects sb = 1" "3 + unat (nr_smap_sects sb) < 2 ^ 22" "unat (n_1st_sect sb) + 4096 * unat (nr_smap_sects sb) < 2 ^ 22"
    using lay by (simp_all add: layout_def)
  let ?f = "2048 * j + 1" and ?nr = "unat (nr_smap_sects sb)"
  have "bit (disk s ROOT_DEV (2 * 512 + k div 8)) (k mod 8)" using O F(1,7) by blast
  from free_imap_ok [OF fs_flatI [OF ki] ROOT_DEV_major F(7) this] obtain s1 where
    s1: "free_imap_bit ROOT_DEV (int k) s = Inr s1" "buffered s s1"
      "\<And>m. m < 4096 \<Longrightarrow> bit (disk s1 ROOT_DEV (2 * 512 + m div 8)) (m mod 8) \<longleftrightarrow> bit (disk s ROOT_DEV (2 * 512 + m div 8)) (m mod 8) \<and> m \<noteq> k"
      "\<And>d x. d \<noteq> ROOT_DEV \<or> x div 512 \<noteq> 2 \<Longrightarrow> disk s1 d x = disk s d x" by blast
  have fl: "fs_flat s1" using buffered_fields(9) [OF s1(2)] fs_flatI [OF ki] by simp
  have room: "?f + 2048 \<le> 4096 * ?nr" using ic by (simp add: in_chunk_def)
  have start: "unat (i_start_sect p) + 1 = ?f + unat (n_1st_sect sb)" and N: "2048 = unat (i_nr_sects p)"
    using ic node(1) by (simp_all add: in_chunk_def same_node_def)
  have f31: "?f < 2 ^ 31" using room L(3) by simp
  have "(?f + 2048) div 8 div 512 \<le> ?nr" using div_le_mono [OF room, of 4096] by (simp add: div_mult2_eq [symmetric])
  then have fit: "3 + (?f + 2048) div 8 div 512 < 2 ^ 22" using L(2) by linarith
  have B: "3 = 2 + unat (nr_imap_sects sb)" by (simp add: L(1))
  have d1: "disk s1 ROOT_DEV (3 * 512 + x) = disk s ROOT_DEV (3 * 512 + x)" for x using s1(4) [of ROOT_DEV "3 * 512 + x"] by simp
  have bits: "map_bit s1 (i_dev p) 3 m" if "?f \<le> m" "m < ?f + 2048" for m
  proof -
    have "m < 4096 * ?nr" using that room by simp
    moreover have "(m - 1) div 2048 = j" using that chunk_bits [of m j] by auto
    ultimately have "bit (disk s ROOT_DEV (3 * 512 + m div 8)) (m mod 8)" using O F(9) by blast
    then show ?thesis using d1 by (simp add: map_bit_def node(2))
  qed
  have maj: "MAJOR (i_dev p) = 3" by (simp add: node(2))
  from free_smap_ok [OF fl maj start f31 B fit N _ _ bits] obtain s2 where
    s2: "free_smap_bits sb p s1 = Inr s2" "buffered s1 s2"
      "\<And>x. disk s2 ROOT_DEV (3 * 512 + x) = unmark_byte ?f 2048 x (disk s1 ROOT_DEV (3 * 512 + x))" "\<And>d y. d \<noteq> ROOT_DEV \<or> y < 3 * 512 \<Longrightarrow> disk s2 d y = disk s1 d y"
    unfolding node(2) by auto
  show thesis
  proof (rule that [OF s1(1) s2(1) buffered_trans [OF s1(2) s2(2)]])
    show "bit (disk s2 ROOT_DEV (2 * 512 + m div 8)) (m mod 8) \<longleftrightarrow> bit (disk s ROOT_DEV (2 * 512 + m div 8)) (m mod 8) \<and> m \<noteq> k" if "m < 4096" for m
    proof -
      have "m div 8 < 512" using that by (simp add: less_mult_imp_div_less)
      then show ?thesis using s2(4) [of ROOT_DEV "2 * 512 + m div 8"] s1(3) [OF that] by simp
    qed
    show "bit (disk s2 ROOT_DEV (3 * 512 + m div 8)) (m mod 8) \<longleftrightarrow> bit (disk s ROOT_DEV (3 * 512 + m div 8)) (m mod 8) \<and> \<not> (?f \<le> m \<and> m < ?f + 2048)" for m
      unfolding s2(3) d1 using bit_unmark_byte [of "m mod 8" ?f 2048 "m div 8"] by simp
    show "disk s2 d x = disk s d x" if "d \<noteq> ROOT_DEV \<or> x div 512 \<noteq> 2 \<and> (x div 512 < 3 \<or> 3 + ?nr \<le> x div 512)" for d x
    proof (cases "d = ROOT_DEV \<and> 3 * 512 \<le> x")
      case True
      then obtain y where y: "x = 3 * 512 + y" by (metis le_iff_add)
      have "(3 + ?nr) * 512 \<le> x" using that True by (auto simp: less_eq_div_iff_mult_less_eq div_less_iff_less_mult)
      then have "?f + 2048 \<le> 8 * y" using y room by simp
      then have "disk s2 ROOT_DEV (3 * 512 + y) = disk s ROOT_DEV (3 * 512 + y)" unfolding s2(3) d1 by (simp add: unmark_byte_same)
      then show ?thesis using True y by simp
    next
      case False
      then have "disk s2 d x = disk s1 d x" using s2(4) [of d x] by auto
      also have "\<dots> = disk s d x" using that False s1(4) [of d x] by auto
      finally show ?thesis .
    qed
  qed
qed

lemma names_not_root: "names path nm \<Longrightarrow> takeWhile (\<lambda>c. c \<noteq> 0) path \<noteq> [0x2F]"
  by (cases nm) (auto simp: names_def plain_name_def)

lemma entry_is:
  assumes v: "vol_ok sb v" and e: "entries v n = Some (nm, k)"
  shows "slot_num v n = int k" and "m \<noteq> n \<Longrightarrow> slot_num v m \<noteq> int k"
proof -
  show "slot_num v n = int k" using e by (simp add: slot_num_def)
  show "slot_num v m \<noteq> int k" if "m \<noteq> n"
    using vol_okD(2) [OF v e, of m] vol_okD(1) [OF v e] that by (auto simp: slot_num_def split: option.splits)
qed

text \<open>The last step: the entry, in a state where maps and i-node are cleared already.\<close>

lemma stored_remove_entry:
  assumes st: "stored sb v s" and f: "file_in sb v nm n k j" and mv: "progressed s t" and root: "inode_of t (root_inode s) = inode_of s (root_inode s)" "length (inode_table t) = NR_INODE"
    and dirs: "\<And>x. unat (n_1st_sect sb) * 512 \<le> x \<Longrightarrow> disk t ROOT_DEV x = disk s ROOT_DEV x"
    and ino: "\<And>i. i < 16 \<Longrightarrow> disk t ROOT_DEV (inode_off sb 0 + i) = inode_bytes (nodes v 1) ! i"
  obtains s' where "remove_entry (root_inode s) (int k) t = Inr s'" "progressed s s'"
    "inode_table s' = (inode_table t)[root_inode s := shrunk v n (inode_of s (root_inode s))]"
    "\<And>i. i < 16 \<Longrightarrow> disk s' ROOT_DEV (inode_off sb 0 + i) = inode_bytes (shrunk v n (nodes v 1)) ! i"
    "\<And>e x. \<not> (e = ROOT_DEV \<and> inode_off sb 0 \<le> x \<and> x < inode_off sb 0 + 16) \<Longrightarrow>
      disk s' e x = (if e = ROOT_DEV \<and> unat (n_1st_sect sb) * 512 + n * 16 \<le> x \<and> x < unat (n_1st_sect sb) * 512 + n * 16 + 16 then 0 else disk t e x)"
proof -
  have v: "vol_ok sb v" and lay: "layout sb" and ki: "kinv s" and gsb: "get_super_block ROOT_DEV s = Inr sb" and c: "cached v (root_inode s) (inode_table s)"
    using st by (simp_all add: stored_def)
  let ?r = "root_inode s" and ?R = "inode_of s (root_inode s)" and ?a = "unat (n_1st_sect sb) * 512"
  note F = file_inD [OF v f] and R = stored_root [OF st] and P = progressed_fields [OF mv]
  have e: "entries v n = Some (nm, k)" using f by (simp add: file_in_def)
  have at: "ent_at ?R m = ?a + m * 16" for m by (simp add: ent_at_def R(6))
  have same: "ent_nr t ?R m = ent_nr s ?R m" for m using dirs by (simp add: ent_nr_def at R(2) add.assoc)
  have nr: "ent_nr t ?R m = slot_num v m" if "m < nents v" for m using same stored_entry(2) [OF st] that vol_okD(5) [OF v] by simp
  have sz: "unat (i_size ?R) div 16 = nents v" using R(7) by simp
  have front: "inode_off sb 0 + 16 \<le> unat (i_start_sect ?R) * 512" using layout_inodes(3) [OF lay, of 0] by (simp add: R(6))
  have D: "shrunk v n ?R = (if n + 1 = unat (i_size ?R) div 16 then ?R\<lparr>i_size := word_of_int (16 * used_between t ?R 0 n)\<rparr> else ?R)"
    using used_stored [OF st _ refl same, of n] F(4) by (simp add: shrunk_def sz)
  have fl: "fs_flat t" using P(9) fs_flatI [OF ki] by simp
  have gsb': "get_super_block (i_dev ?R) t = Inr sb" using gsb get_super_block_cong [OF P(3)] R(2) by simp
  have rl: "?r < length (inode_table t)" using cachedD(2) [OF c] root(2) by simp
  have n: "n < unat (i_size ?R) div 16" "ent_nr t ?R n = int k" "\<And>m. m < n \<Longrightarrow> ent_nr t ?R m \<noteq> int k"
    using nr F(4) entry_is [OF v e] by (simp_all add: sz)
  obtain s' where s': "remove_entry ?r (int k) t = Inr s'" "buffered (t\<lparr>inode_table := (inode_table t)[?r := shrunk v n ?R]\<rparr>) s'"
    and d0: "\<And>i. i < 16 \<Longrightarrow> n + 1 = nents v \<Longrightarrow> disk s' ROOT_DEV (inode_off sb 0 + i) = inode_bytes (shrunk v n ?R) ! i"
    and d': "\<And>e x. \<not> (e = ROOT_DEV \<and> n + 1 = nents v \<and> inode_off sb 0 \<le> x \<and> x < inode_off sb 0 + 16) \<Longrightarrow>
      disk s' e x = (if e = ROOT_DEV \<and> ?a + n * 16 \<le> x \<and> x < ?a + n * 16 + 16 then 0 else disk t e x)"
    using remove_entry_ok [OF fl rl root(1) [symmetric] R(5) gsb' R(3) layout_inodes(1) [OF lay] front n D] unfolding sz at R(2) by auto
  show thesis
  proof (rule that [OF s'(1)])
    have "progressed t (t\<lparr>inode_table := (inode_table t)[?r := shrunk v n ?R]\<rparr>)" by (simp add: progressed_def)
    then show "progressed s s'" using progressed_trans [OF mv progressed_trans [OF _ progressed_buffered [OF s'(2)]]] by blast
    show "inode_table s' = (inode_table t)[?r := shrunk v n ?R]" using buffered_fields(2) [OF s'(2)] by simp
    show "disk s' ROOT_DEV (inode_off sb 0 + i) = inode_bytes (shrunk v n (nodes v 1)) ! i" if i: "i < 16" for i
    proof (cases "n + 1 = nents v")
      case True
      have "same_node (shrunk v n ?R) (shrunk v n (nodes v 1))" using R(4) True by (simp add: same_node_def shrunk_def)
      then show ?thesis using d0 [OF i True] same_node_bytes by metis
    next
      case False
      have "inode_off sb 0 + i < ?a" using front i by (simp add: R(6))
      then have "disk s' ROOT_DEV (inode_off sb 0 + i) = disk t ROOT_DEV (inode_off sb 0 + i)" using d' False by auto
      then show ?thesis using ino [OF i] False by (simp add: shrunk_def)
    qed
    show "disk s' e x = (if e = ROOT_DEV \<and> ?a + n * 16 \<le> x \<and> x < ?a + n * 16 + 16 then 0 else disk t e x)"
      if "\<not> (e = ROOT_DEV \<and> inode_off sb 0 \<le> x \<and> x < inode_off sb 0 + 16)" for e x
      using d' that by blast
  qed
qed

text \<open>The i-node itself: cleared on the disk, and its slot of the table released.\<close>

definition wiped :: "inode \<Rightarrow> inode" where
  "wiped n = n\<lparr>i_mode := 0, i_size := 0, i_start_sect := 0, i_nr_sects := 0\<rparr>"

lemma wipe_inode:
  assumes flat: "fs_flat s" and gsb: "get_super_block ROOT_DEV s = Inr sb" and lay: "layout sb" and k: "0 < k" "k < 4096" and q: "q < length (inode_table s)"
    and n: "i_dev (inode_of s q) = ROOT_DEV" "i_num (inode_of s q) = int k" "i_cnt (inode_of s q) = 1"
  obtains s1 s2 where "sync_inode q (upd_inode s q wiped) = Inr s1" "put_inode q s1 = Inr s2" "progressed s s2"
    "inode_table s2 = (inode_table s)[q := (wiped (inode_of s q))\<lparr>i_cnt := 0\<rparr>]"
    "\<And>d x. \<not> (d = ROOT_DEV \<and> inode_off sb (k - 1) \<le> x \<and> x < inode_off sb (k - 1) + 16) \<Longrightarrow> disk s2 d x = disk s d x"
proof -
  let ?w = "wiped (inode_of s q)" and ?s0 = "upd_inode s q wiped"
  have t0: "inode_table ?s0 = (inode_table s)[q := ?w]" "inode_of ?s0 q = ?w" "fs_flat ?s0" "disk ?s0 = disk s"
    using q flat by (simp_all add: upd_inode_def)
  have w: "i_dev ?w = ROOT_DEV" "i_num ?w = int (k - 1) + 1" "i_cnt ?w = 1" using n k by (simp_all add: wiped_def)
  have gsb0: "get_super_block ROOT_DEV ?s0 = Inr sb" using gsb get_super_block_cong [of ?s0 s] by (simp add: upd_inode_def)
  have fit: "inodes_fit sb (k - 1)" using layout_inodes(1) [OF lay, of "k - 1"] k by linarith
  obtain s1 where s1: "sync_inode q ?s0 = Inr s1" "buffered ?s0 s1"
    "\<forall>d x. \<not> (d = ROOT_DEV \<and> inode_off sb (k - 1) \<le> x \<and> x < inode_off sb (k - 1) + 16) \<longrightarrow> disk s1 d x = disk s d x"
    using sync_inode_ok [of ?s0 q sb "k - 1", unfolded t0(2,4) w(1,2), OF t0(3) ROOT_DEV_major gsb0 refl fit] by blast
  have t1: "inode_table s1 = (inode_table s)[q := ?w]" using buffered_fields(2) [OF s1(2)] t0(1) by simp
  let ?s2 = "upd_inode s1 q (\<lambda>n. n\<lparr>i_cnt := i_cnt n - 1\<rparr>)"
  show thesis
  proof (rule that [OF s1(1)])
    show "put_inode q s1 = Inr ?s2" using t1 q w(3) by (simp add: put_inode_def)
    show "progressed s ?s2" by (rule progressed_trans [OF progressed_upd_inode progressed_trans [OF progressed_buffered [OF s1(2)] progressed_upd_inode]])
    show "inode_table ?s2 = (inode_table s)[q := ?w\<lparr>i_cnt := 0\<rparr>]" using t1 q w(3) by (simp add: upd_inode_def)
    show "disk ?s2 d x = disk s d x" if "\<not> (d = ROOT_DEV \<and> inode_off sb (k - 1) \<le> x \<and> x < inode_off sb (k - 1) + 16)" for d x
      using s1(3) that by (simp add: upd_inode_def)
  qed
qed

lemma do_unlink_core:
  assumes st: "stored sb v s" and path: "copy_path s = Inr path" "names path nm" and f: "file_in sb v nm n k j"
    and closed: "\<And>i. i < NR_INODE \<Longrightarrow> i_cnt (inode_of s i) \<noteq> 0 \<Longrightarrow> i_num (inode_of s i) \<noteq> int k" and free: "\<exists>q < NR_INODE. i_cnt (inode_of s q) = 0"
  obtains s' q x where "do_unlink s = Inr (0, s')" "progressed s s'" "on_disk sb (vol_unlink n j v) (disk s')"
    "inode_table s' = (inode_table s)[q := x, root_inode s := shrunk v n (inode_of s (root_inode s))]" "q < NR_INODE" "i_cnt (inode_of s q) = 0" "i_cnt x = 0"
    "\<And>d x. d \<noteq> ROOT_DEV \<or> (unat (n_1st_sect sb) + 2048) * 512 \<le> x \<Longrightarrow> disk s' d x = disk s d x"
proof -
  have v: "vol_ok sb v" and lay: "layout sb" and ki: "kinv s" and od: "on_disk sb v (disk s)" and c: "cached v (root_inode s) (inode_table s)"
    using st by (simp_all add: stored_def)
  let ?r = "root_inode s" and ?R = "inode_of s (root_inode s)" and ?a = "unat (n_1st_sect sb) * 512"
  note F = file_inD [OF v f] and C = cachedD [OF c]
  have e: "entries v n = Some (nm, k)" and reg: "i_mode (nodes v k) = I_REGULAR" using f by (simp_all add: file_in_def)
  obtain s1 where s1: "search_file path s = Inr (int k, s1)" "buffered s s1" "disk s1 = disk s"
    using stored_search_found [OF st names_strip [OF path(2)] F(5) e] by blast
  note b1 = buffered_fields [OF s1(2)]
  have st1: "stored sb v s1" by (rule stored_buffered [OF st s1(2,3)])
  have free1: "\<exists>q < NR_INODE. i_cnt (inode_of s1 q) = 0" using free b1 by simp
  obtain q s2 where s2: "get_inode ROOT_DEV (int k) s1 = Inr (Some q, s2)" "q < NR_INODE" "stored sb v s2" "progressed s1 s2" "disk s2 = disk s"
    "i_dev (inode_of s2 q) = ROOT_DEV" "i_num (inode_of s2 q) = int k" "same_node (inode_of s2 q) (nodes v k)" "i_cnt (inode_of s2 q) = i_cnt (inode_of s q) + 1"
    "inode_table s2 = (inode_table s)[q := inode_of s2 q]" "i_cnt (inode_of s q) = 0 \<or> i_num (inode_of s q) = int k"
    using stored_get [OF st1 F(1) free1] unfolding b1 s1(3) by metis
  let ?n = "inode_of s2 q"
  have cnt: "i_cnt (inode_of s q) = 0" "i_cnt ?n = 1" using s2(9,11) closed [OF s2(2)] by auto
  have qr: "q \<noteq> ?r" using cnt(1) C(6) by auto
  have ki2: "kinv s2" and gsb2: "get_super_block ROOT_DEV s2 = Inr sb" using s2(3) by (simp_all add: stored_def)
  have mv2: "progressed s s2" by (rule progressed_trans [OF progressed_buffered [OF s1(2)] s2(4)])
  obtain s3 s4 where s4: "free_imap_bit ROOT_DEV (int k) s2 = Inr s3" "free_smap_bits sb ?n s3 = Inr s4" "buffered s2 s4"
    and im: "\<And>m. m < 4096 \<Longrightarrow> bit (disk s4 ROOT_DEV (2 * 512 + m div 8)) (m mod 8) \<longleftrightarrow> bit (disk s2 ROOT_DEV (2 * 512 + m div 8)) (m mod 8) \<and> m \<noteq> k"
    and sm: "\<And>m. m < 4096 * unat (nr_smap_sects sb) \<Longrightarrow> bit (disk s4 ROOT_DEV (3 * 512 + m div 8)) (m mod 8)
        \<longleftrightarrow> bit (disk s2 ROOT_DEV (3 * 512 + m div 8)) (m mod 8) \<and> \<not> (2048 * j + 1 \<le> m \<and> m < 2048 * j + 1 + 2048)"
    and d4: "\<And>d x. d \<noteq> ROOT_DEV \<or> x div 512 \<noteq> 2 \<and> (x div 512 < 3 \<or> 3 + unat (nr_smap_sects sb) \<le> x div 512) \<Longrightarrow> disk s4 d x = disk s2 d x"
    using stored_free [OF s2(3) f s2(8,6)] by metis
  note b4 = buffered_fields [OF s4(3)]
  have fl4: "fs_flat s4" and gsb4: "get_super_block ROOT_DEV s4 = Inr sb"
    using b4 fs_flatI [OF ki2] gsb2 get_super_block_cong [of s4 s2] by simp_all
  have "length (inode_table s2) = NR_INODE" using s2(3) by (simp add: stored_def cached_def)
  then have q4: "q < length (inode_table s4)" "inode_of s4 q = ?n" using b4(2) s2(2) by simp_all
  have n4: "i_dev (inode_of s4 q) = ROOT_DEV" "i_num (inode_of s4 q) = int k" "i_cnt (inode_of s4 q) = 1" unfolding q4(2) using s2(6,7) cnt(2) by simp_all
  obtain s5 s6 where s6: "sync_inode q (upd_inode s4 q wiped) = Inr s5" "put_inode q s5 = Inr s6" "progressed s4 s6"
    "inode_table s6 = (inode_table s4)[q := (wiped ?n)\<lparr>i_cnt := 0\<rparr>]"
    and d6: "\<And>d x. \<not> (d = ROOT_DEV \<and> inode_off sb (k - 1) \<le> x \<and> x < inode_off sb (k - 1) + 16) \<Longrightarrow> disk s6 d x = disk s4 d x"
    using wipe_inode [OF fl4 gsb4 lay F(6,7) q4(1) n4] unfolding q4(2) by metis
  have t6: "inode_table s6 = (inode_table s)[q := (wiped ?n)\<lparr>i_cnt := 0\<rparr>]"
  proof -
    have "inode_table s6 = (inode_table s2)[q := (wiped ?n)\<lparr>i_cnt := 0\<rparr>]" using s6(4) b4(2) by simp
    also have "\<dots> = (inode_table s)[q := (wiped ?n)\<lparr>i_cnt := 0\<rparr>]"
      using arg_cong [OF s2(10), of "\<lambda>t. t[q := (wiped ?n)\<lparr>i_cnt := 0\<rparr>]"] by (simp only: list_update_overwrite)
    finally show ?thesis .
  qed
  have k1: "k - 1 < 4096" "k - 1 \<noteq> 0" using F(2,6,7) by linarith+
  have mv6: "progressed s s6" by (rule progressed_trans [OF mv2 progressed_trans [OF progressed_buffered [OF s4(3)] s6(3)]])
  have keep6: "disk s6 ROOT_DEV x = disk s ROOT_DEV x" if "3 + unat (nr_smap_sects sb) \<le> x div 512" "\<not> (inode_off sb (k - 1) \<le> x \<and> x < inode_off sb (k - 1) + 16)" for x
    using d6 [of ROOT_DEV x] d4 [of ROOT_DEV x] that s2(5) by simp
  have off: "(3 + unat (nr_smap_sects sb)) * 512 \<le> inode_off sb l" for l using layout_inodes(2) [OF lay, of l] lay by (simp add: inode_off_def layout_def)
  have dirs: "disk s6 ROOT_DEV x = disk s ROOT_DEV x" if "?a \<le> x" for x
    using region_dir(2) [OF lay that] layout_inodes(3) [OF lay k1(1)] that by (intro keep6) simp_all
  have slot: "disk s6 ROOT_DEV (inode_off sb l + i) = disk s ROOT_DEV (inode_off sb l + i)" if l: "l < 4096" "i < 16" "l \<noteq> k - 1" for l i
  proof (rule keep6)
    show "3 + unat (nr_smap_sects sb) \<le> (inode_off sb l + i) div 512" using region_inode(2) [OF lay l(1)] l(2) by simp
    show "\<not> (inode_off sb (k - 1) \<le> inode_off sb l + i \<and> inode_off sb l + i < inode_off sb (k - 1) + 16)"
    proof
      assume r: "inode_off sb (k - 1) \<le> inode_off sb l + i \<and> inode_off sb l + i < inode_off sb (k - 1) + 16"
      then obtain i' where "inode_off sb l + i = inode_off sb (k - 1) + i'" "i' < 16" by (metis le_iff_add nat_add_left_cancel_less)
      then show False using region_inode(4) [OF lay l(1) _ k1(1), of i i'] l by simp
    qed
  qed
  have root6: "inode_of s6 ?r = ?R" "length (inode_table s6) = NR_INODE" using t6 qr C(1) by simp_all
  have ino6: "disk s6 ROOT_DEV (inode_off sb 0 + i) = inode_bytes (nodes v 1) ! i" if "i < 16" for i
    using slot [of 0 i] k1(2) that od root_inum [OF v] by (auto simp: on_disk_def)
  obtain s7 where s7: "remove_entry ?r (int k) s6 = Inr s7" "progressed s s7" "inode_table s7 = (inode_table s6)[?r := shrunk v n ?R]"
    and i7: "\<And>i. i < 16 \<Longrightarrow> disk s7 ROOT_DEV (inode_off sb 0 + i) = inode_bytes (shrunk v n (nodes v 1)) ! i"
    and d7: "\<And>e x. \<not> (e = ROOT_DEV \<and> inode_off sb 0 \<le> x \<and> x < inode_off sb 0 + 16) \<Longrightarrow>
      disk s7 e x = (if e = ROOT_DEV \<and> ?a + n * 16 \<le> x \<and> x < ?a + n * 16 + 16 then 0 else disk s6 e x)"
    using stored_remove_entry [OF st f mv6 root6 dirs ino6] by metis
  have off0: "inode_off sb 0 + 16 \<le> ?a" using layout_inodes(3) [OF lay, of 0] by simp
  have low: "disk s7 ROOT_DEV x = disk s4 ROOT_DEV x" if "x < (3 + unat (nr_smap_sects sb)) * 512" for x
  proof -
    have "disk s7 ROOT_DEV x = disk s6 ROOT_DEV x" using d7 [of ROOT_DEV x] that off [of 0] off0 by simp
    also have "\<dots> = disk s4 ROOT_DEV x" using d6 [of ROOT_DEV x] that off [of "k - 1"] by simp
    finally show ?thesis .
  qed
  have map_low: "x < (3 + unat (nr_smap_sects sb)) * 512" if "x div 512 < 3 + unat (nr_smap_sects sb)" for x
    using that by (simp add: div_less_iff_less_mult)
  have "on_disk sb (vol_unlink n j v) (disk s7)"
  proof (rule on_disk_unlink [OF v lay od f])
    show "bit (disk s7 ROOT_DEV (2 * 512 + m div 8)) (m mod 8) \<longleftrightarrow> bit (disk s ROOT_DEV (2 * 512 + m div 8)) (m mod 8) \<and> m \<noteq> k" if "m < 4096" for m
      using low [OF map_low, of "2 * 512 + m div 8"] region_maps(1) [OF that] im [OF that] s2(5) by simp
    show "bit (disk s7 ROOT_DEV (3 * 512 + m div 8)) (m mod 8) \<longleftrightarrow> bit (disk s ROOT_DEV (3 * 512 + m div 8)) (m mod 8) \<and> \<not> (2048 * j + 1 \<le> m \<and> m < 2048 * j + 1 + 2048)"
      if "m < 4096 * unat (nr_smap_sects sb)" for m
      using low [OF map_low, of "3 * 512 + m div 8"] region_maps(2) [OF that] sm [OF that] s2(5) by simp
    show "disk s7 ROOT_DEV (inode_off sb l + i) = (if l = 0 then inode_bytes (shrunk v n (nodes v 1)) ! i else disk s ROOT_DEV (inode_off sb l + i))"
      if "l < 4096" "i < 16" "l \<noteq> k - 1" for l i
    proof (cases "l = 0")
      case False
      have i: "i < 32" using that(2) by simp
      have "inode_off sb l + i < ?a" using region_inode(3) [OF lay that(1) i] .
      moreover have "\<not> (inode_off sb 0 \<le> inode_off sb l + i \<and> inode_off sb l + i < inode_off sb 0 + 16)"
      proof
        assume r: "inode_off sb 0 \<le> inode_off sb l + i \<and> inode_off sb l + i < inode_off sb 0 + 16"
        then obtain i' where "inode_off sb l + i = inode_off sb 0 + i'" "i' < 16" by (metis le_iff_add nat_add_left_cancel_less)
        then show False using region_inode(4) [OF lay that(1) i, of 0 i'] False by simp
      qed
      ultimately have "disk s7 ROOT_DEV (inode_off sb l + i) = disk s6 ROOT_DEV (inode_off sb l + i)" using d7 [of ROOT_DEV "inode_off sb l + i"] by simp
      then show ?thesis using slot [OF that] False by simp
    qed (use i7 that in simp)
    show "disk s7 ROOT_DEV (?a + m * 16 + i) = (if m = n then 0 else disk s ROOT_DEV (?a + m * 16 + i))" if "m < capacity v" "i < 16" for m i
    proof -
      have "n * 16 \<le> m * 16 + i \<and> m * 16 + i < n * 16 + 16 \<longleftrightarrow> m = n" using that(2) by auto
      then show ?thesis using d7 [of ROOT_DEV "?a + m * 16 + i"] off0 dirs [of "?a + m * 16 + i"] by (simp add: add.assoc)
    qed
  qed
  moreover have "disk s7 d x = disk s d x" if x: "d \<noteq> ROOT_DEV \<or> (unat (n_1st_sect sb) + 2048) * 512 \<le> x" for d x
  proof -
    have "n * 16 + 16 \<le> 2048 * 512" using F(4) vol_okD(5,6) [OF v] by simp
    then have "disk s7 d x = disk s6 d x" using d7 [of d x] x off0 by (auto simp: algebra_simps)
    also have "\<dots> = disk s d x"
    proof (cases "d = ROOT_DEV")
      case True
      then show ?thesis using dirs [of x] x by simp
    next
      case False
      then show ?thesis using d6 [of d x] d4 [of d x] s2(5) by simp
    qed
    finally show ?thesis .
  qed
  moreover have "do_unlink s = Inr (0, s7)"
  proof -
    have "strip_path path s1 = Some (nm, ?r)" "i_dev (inode_of s1 ?r) = ROOT_DEV"
      using names_strip [OF path(2), of s1] stored_root(2) [OF st1] b1(5) by simp_all
    moreover have "i_mode ?n = I_REGULAR" using s2(8) reg by (simp add: same_node_def)
    ultimately show ?thesis
      using path(1) names_not_root [OF path(2)] s1(1) F(6) s2(1,6) cnt(2) gsb2 s4(1,2) s6(1,2) s7(1)
      by (simp add: do_unlink_def Let_def wiped_def [abs_def] const_simps)
  qed
  ultimately show thesis using that [OF _ s7(2) _ _ s2(2) cnt(1)] s7(3) t6 by simp
qed

section \<open>The call\<close>

abbreviation unlink_msg :: "message \<Rightarrow> nat \<Rightarrow> u32 \<Rightarrow> nat \<Rightarrow> message" where
  "unlink_msg m0 p addr len \<equiv> m0\<lparr>msg_type := UNLINK, m3p1 := addr, m3i2 := int len, msg_source := int p\<rparr>"

lemma unlink_call_core:
  assumes st: "stored sb v s" and path: "path_at p addr path s" "names path nm" and f: "file_in sb v nm n k j"
    and closed: "\<And>i. i < NR_INODE \<Longrightarrow> i_cnt (inode_of s i) \<noteq> 0 \<Longrightarrow> i_num (inode_of s i) \<noteq> int k" and free: "\<exists>q < NR_INODE. i_cnt (inode_of s q) = 0"
  obtains s' q x r where "unlink_file m0 p addr (int (length path)) s = Inr (Some 0, s')" "kinv s'" "sb_table s' = sb_table s" "root_inode s' = root_inode s"
    "on_disk sb (vol_unlink n j v) (disk s')" "cached (vol_unlink n j v) (root_inode s) (inode_table s')"
    "inode_table s' = (inode_table s)[q := x, root_inode s := shrunk v n (inode_of s (root_inode s))]" "q < NR_INODE" "i_cnt (inode_of s q) = 0" "i_cnt x = 0"
    "\<And>d x. d \<noteq> ROOT_DEV \<or> (unat (n_1st_sect sb) + 2048) * 512 \<le> x \<Longrightarrow> disk s' d x = disk s d x"
    "proc_table s' = proc_table s" "f_desc_table s' = f_desc_table s" "fs_sent s' = fs_sent s @ [FsReply (int p) r]" "\<And>x. x \<notin> block_addrs fsbuf 512 \<Longrightarrow> mem s' x = mem s x"
proof -
  let ?m = "unlink_msg m0 p addr (length path)" and ?m' = "m0\<lparr>msg_type := UNLINK, m3p1 := addr, m3i2 := int (length path)\<rparr>"
  let ?s = "received ?m s"
  have cp: "copy_path ?s = Inr path" by (rule path_at_copy [OF path(1)]) simp_all
  have closed': "i_num (inode_of ?s i) \<noteq> int k" if "i < NR_INODE" "i_cnt (inode_of ?s i) \<noteq> 0" for i using closed that by simp
  have free': "\<exists>q < NR_INODE. i_cnt (inode_of ?s q) = 0" using free by simp
  obtain t q x where t': "do_unlink ?s = Inr (0, t)" "progressed ?s t" "on_disk sb (vol_unlink n j v) (disk t)"
    "inode_table t = (inode_table ?s)[q := x, root_inode ?s := shrunk v n (inode_of ?s (root_inode ?s))]" "q < NR_INODE" "i_cnt (inode_of ?s q) = 0" "i_cnt x = 0"
    and d': "\<And>d x. d \<noteq> ROOT_DEV \<or> (unat (n_1st_sect sb) + 2048) * 512 \<le> x \<Longrightarrow> disk t d x = disk ?s d x"
    using do_unlink_core [OF stored_received [OF st] cp path(2) f closed' free'] by metis
  note t = t' [unfolded received_fields] and d = d' [unfolded received_fields] and P = progressed_fields [OF t'(2)]
  have p: "valid_proc_nr (int p)" using path(1) by (simp add: path_at_def)
  let ?r = "?m\<lparr>m3i1 := 0, msg_type := SYSCALL_RET, msg_source := int TASK_FS\<rparr>"
  have "fs_dispatch ?s = ret_i1 (do_unlink ?s)" by (simp add: fs_dispatch_def)
  from fs_call_i1 [where op = do_unlink, OF t(1) this, where m' = ?m' and p = p and r = ?r]
  have "fs_call p ?m' s = Inr (Some ?r, t\<lparr>fs_msg := ?r, fs_sent := fs_sent s @ [FsReply (int p) ?r]\<rparr>)" using p P by simp
  then have run: "unlink_file m0 p addr (int (length path)) s = Inr (Some 0, t\<lparr>fs_msg := ?r, fs_sent := fs_sent s @ [FsReply (int p) ?r]\<rparr>)"
    by (simp add: unlink_file_def fs_return_def)
  have v: "vol_ok sb v" and c: "cached v (root_inode s) (inode_table s)" and ki: "kinv s" using st by (simp_all add: stored_def)
  have "cached (vol_unlink n j v) (root_inode s) (inode_table t)" unfolding t(4) by (rule cached_unlink [OF c v f closed t(5-7)])
  moreover have "kinv t" using P(8) ki kinv_received by simp
  ultimately show thesis using that [OF run] t d P by (simp add: kinv_answered)
qed

lemma unlink_call:
  assumes st: "stored sb v s" and path: "path_at p addr path s" "names path nm" and f: "file_in sb v nm n k j" and g: "no_gap v n"
    and closed: "\<And>i. i < NR_INODE \<Longrightarrow> i_cnt (inode_of s i) \<noteq> 0 \<Longrightarrow> i_num (inode_of s i) \<noteq> int k" and free: "\<exists>q < NR_INODE. i_cnt (inode_of s q) = 0"
  obtains s' q x r where "unlink_file m0 p addr (int (length path)) s = Inr (Some 0, s')" "stored sb (vol_unlink n j v) s'" "root_inode s' = root_inode s"
    "inode_table s' = (inode_table s)[q := x, root_inode s := shrunk v n (inode_of s (root_inode s))]" "q < NR_INODE" "i_cnt (inode_of s q) = 0" "i_cnt x = 0"
    "\<And>d x. d \<noteq> ROOT_DEV \<or> (unat (n_1st_sect sb) + 2048) * 512 \<le> x \<Longrightarrow> disk s' d x = disk s d x"
    "proc_table s' = proc_table s" "f_desc_table s' = f_desc_table s" "fs_sent s' = fs_sent s @ [FsReply (int p) r]" "\<And>x. x \<notin> block_addrs fsbuf 512 \<Longrightarrow> mem s' x = mem s x"
proof -
  have v: "vol_ok sb v" and lay: "layout sb" and gsb: "get_super_block ROOT_DEV s = Inr sb" using st by (simp_all add: stored_def)
  obtain s' q x r where c: "unlink_file m0 p addr (int (length path)) s = Inr (Some 0, s')" "kinv s'" "sb_table s' = sb_table s" "root_inode s' = root_inode s"
    "on_disk sb (vol_unlink n j v) (disk s')" "cached (vol_unlink n j v) (root_inode s) (inode_table s')"
    "inode_table s' = (inode_table s)[q := x, root_inode s := shrunk v n (inode_of s (root_inode s))]" "q < NR_INODE" "i_cnt (inode_of s q) = 0" "i_cnt x = 0"
    and d: "\<And>d x. d \<noteq> ROOT_DEV \<or> (unat (n_1st_sect sb) + 2048) * 512 \<le> x \<Longrightarrow> disk s' d x = disk s d x"
    and e: "proc_table s' = proc_table s" "f_desc_table s' = f_desc_table s" "fs_sent s' = fs_sent s @ [FsReply (int p) r]" "\<And>x. x \<notin> block_addrs fsbuf 512 \<Longrightarrow> mem s' x = mem s x"
    using unlink_call_core [OF st path f closed free, where ?m0.0 = m0] by metis
  have "stored sb (vol_unlink n j v) s'"
    using c(2-6) gsb lay vol_unlink_ok [OF v f g] get_super_block_cong [of s' s] by (simp add: stored_def)
  then show thesis using that c d e by blast
qed

text \<open>
  When the last entry goes and the used entries before it are not the first ones, the new size is too small: files behind are no longer found.
\<close>

lemma unlink_cuts_off:
  assumes st: "stored sb v s" and path: "path_at p addr path s" "names path nm" and f: "file_in sb v nm n k j" and last: "n + 1 = nents v"
    and closed: "\<And>i. i < NR_INODE \<Longrightarrow> i_cnt (inode_of s i) \<noteq> 0 \<Longrightarrow> i_num (inode_of s i) \<noteq> int k" and free: "\<exists>q < NR_INODE. i_cnt (inode_of s q) = 0"
    and other: "entries v m = Some (nm', l)" "m \<noteq> n" "used_before v n < m" and path': "names path' nm'"
  obtains s' t where "unlink_file m0 p addr (int (length path)) s = Inr (Some 0, s')" "on_disk sb (vol_unlink n j v) (disk s')" "search_file path' s' = Inr (0, t)"
proof -
  have v: "vol_ok sb v" and lay: "layout sb" and c: "cached v (root_inode s) (inode_table s)" using st by (simp_all add: stored_def)
  let ?r = "root_inode s" and ?v = "vol_unlink n j v" and ?a = "unat (n_1st_sect sb) * 512"
  note F = file_inD [OF v f] and C = cachedD [OF c]
  obtain s' q x where s': "unlink_file m0 p addr (int (length path)) s = Inr (Some 0, s')" "kinv s'" "root_inode s' = ?r" "on_disk sb ?v (disk s')"
    "inode_table s' = (inode_table s)[q := x, ?r := shrunk v n (inode_of s ?r)]" "q < NR_INODE" "i_cnt (inode_of s q) = 0"
    using unlink_call_core [OF st path f closed free, where ?m0.0 = m0] by metis
  let ?R = "shrunk v n (inode_of s ?r)"
  have R: "inode_of s' (root_inode s') = ?R" using s'(3,5) C(1,2) by simp
  have nm': "plain_name nm'" "nm' \<noteq> []" using path' by (auto simp: names_def plain_name_def)
  have sz: "unat (i_size ?R) = 16 * used_before v n"
    using nents_unlink(1) [OF v f] last stored_root(4) [OF st] by (simp add: shrunk_def same_node_def)
  have u: "used_before v n \<le> n" by (rule used_before_le)
  then have ok: "dir_ok ?R"
  proof -
    have "16 * used_before v n div 512 \<le> unat (i_size (inode_of s ?r)) div 512"
      using u F(4) stored_root(7) [OF st] by (intro div_le_mono) simp
    then show ?thesis using stored_root(5) [OF st] sz by (simp add: dir_ok_def)
  qed
  have name: "ent_name s' ?R i = slot_name ?v i" if "i < capacity v" for i
  proof -
    have "length (slot_name ?v i) = 12" using length_slot_name [OF v, of i] by (simp add: slot_name_def)
    then show ?thesis using s'(4) that stored_root(2,6) [OF st]
      by (intro nth_equalityI) (simp_all add: ent_name_def ent_at_def on_disk_def)
  qed
  have "ent_name s' ?R i \<noteq> pad_name nm'" if "i < searched ?R" for i
  proof -
    have i: "i \<le> used_before v n" using that by (simp add: searched_def sz)
    then have ic: "i < capacity v" using u F(4) vol_okD(5) [OF v] by linarith
    have "i \<noteq> m" using i other(3) by simp
    then have "slot_name v i \<noteq> pad_name nm'" using slot_name_iff [OF v nm'(1), of i] vol_okD(2) [OF v other(1)] by blast
    moreover have "slot_name ?v i = (if i = n then replicate 12 0 else slot_name v i)" by (simp add: slot_name_def)
    ultimately show ?thesis using name [OF ic] pad_name_not_blank [OF nm'(1)] by simp
  qed
  then have "find (\<lambda>i. ent_name s' ?R i = pad_name nm') [0..<searched ?R] = None" by (auto simp: find_None_iff)
  then obtain t where "search_file path' s' = Inr (0, t)"
    using search_file_ok [OF s'(2) _ names_strip [OF path'], unfolded R, OF ok] nm'(2) by auto
  then show thesis using that s'(1,4) by blast
qed

end
