(* ===== verification/Fs_Session.thy ===== *)
theory Fs_Session
  imports Fs_Remove
begin

text \<open>
  A process that uses one file at a time: each library call takes it from one orderly state to the next, so that whole programs over the file system are
  sequences of these steps.
\<close>

section \<open>Orderly states\<close>

abbreviation native :: "nat \<Rightarrow> bool" where
  "native p \<equiv> p < NR_TASKS + NR_NATIVE_PROCS"

abbreviation no_files :: "nat option list" where
  "no_files \<equiv> replicate NR_FILES None"

text \<open>Nothing is open: only the root directory is in the i-node table, and process \<open>p\<close> and descriptor 0 are free.\<close>

definition idle :: "super_block \<Rightarrow> volume \<Rightarrow> nat \<Rightarrow> fs \<Rightarrow> bool" where
  "idle sb v p s \<longleftrightarrow> stored sb v s \<and> native p \<and> (\<forall>q < NR_INODE. q \<noteq> root_inode s \<longrightarrow> i_cnt (inode_of s q) = 0)
     \<and> filp (proc_of s p) = no_files \<and> length (f_desc_table s) = NR_FILE_DESC \<and> fd_inode (f_desc_table s ! 0) = None"

text \<open>One file is open, as file 0 by way of descriptor 0, at position \<open>pos\<close>.\<close>

definition working :: "super_block \<Rightarrow> volume \<Rightarrow> nat \<Rightarrow> nat \<Rightarrow> nat \<Rightarrow> fs \<Rightarrow> bool" where
  "working sb v p k pos s \<longleftrightarrow> stored sb v s \<and> native p \<and> filp (proc_of s p) = no_files[0 := Some 0] \<and> length (f_desc_table s) = NR_FILE_DESC
     \<and> fd_cnt (f_desc_table s ! 0) = 1 \<and> (\<exists>q. file_at s v p 0 0 q k pos \<and> q \<noteq> root_inode s \<and> i_cnt (inode_of s q) = 1
        \<and> (\<forall>q' < NR_INODE. q' \<noteq> root_inode s \<and> q' \<noteq> q \<longrightarrow> i_cnt (inode_of s q') = 0))"

text \<open>What a call leaves alone: memory outside the buffer of FS.\<close>

definition mem_kept :: "fs \<Rightarrow> fs \<Rightarrow> bool" where
  "mem_kept s t \<longleftrightarrow> (\<forall>x. x \<notin> block_addrs fsbuf (2 ^ 20) \<longrightarrow> mem t x = mem s x)"

lemma mem_kept_refl [simp]: "mem_kept s s"
  by (simp add: mem_kept_def)

lemma mem_kept_trans: "mem_kept s t \<Longrightarrow> mem_kept t u \<Longrightarrow> mem_kept s u"
  by (simp add: mem_kept_def)

lemma mem_kept_sector: "(\<And>x. x \<notin> block_addrs fsbuf 512 \<Longrightarrow> mem t x = mem s x) \<Longrightarrow> mem_kept s t"
  using block_addrs_sub [of 0 512 "2 ^ 20" fsbuf] by (auto simp: mem_kept_def)

text \<open>A string of the process: its bytes, away from the buffer of FS.\<close>

definition text_at :: "u32 \<Rightarrow> u8 list \<Rightarrow> fs \<Rightarrow> bool" where
  "text_at addr bs s \<longleftrightarrow> length bs < 128 \<and> disjoint_blocks addr (length bs) fsbuf (2 ^ 20) \<and> read_bytes (mem s) addr (length bs) = bs"

lemma text_at_kept: "text_at addr bs s \<Longrightarrow> mem_kept s t \<Longrightarrow> text_at addr bs t"
proof -
  assume t: "text_at addr bs s" and k: "mem_kept s t"
  have "read_bytes (mem t) addr (length bs) = read_bytes (mem s) addr (length bs)"
  proof (intro nth_equalityI)
    fix i assume "i < length (read_bytes (mem t) addr (length bs))"
    then have i: "i < length bs" by simp
    then have "addr + of_nat i \<in> block_addrs addr (length bs)" by (auto simp: block_addrs_def)
    then have "addr + of_nat i \<notin> block_addrs fsbuf (2 ^ 20)" using t by (auto simp: text_at_def disjoint_blocks_def)
    then show "read_bytes (mem t) addr (length bs) ! i = read_bytes (mem s) addr (length bs) ! i" using k i by (simp add: mem_kept_def)
  qed simp
  then show "text_at addr bs t" using t by (simp add: text_at_def)
qed

lemma native_va: "stored sb v s \<Longrightarrow> native p \<Longrightarrow> va2la s p a = Inr a"
  using va2la_linear [of s p a] by (simp add: stored_def linear_def kinv_def)

lemma text_at_path: "text_at addr path s \<Longrightarrow> stored sb v s \<Longrightarrow> native p \<Longrightarrow> path_at p addr path s"
  using native_va [of sb v s p addr] by (simp add: text_at_def path_at_def valid_proc_nr_def)

lemma first_free_replicate: "first_free (replicate (Suc n) None) i = Some i" "first_free (None # xs) i = Some i"
  by simp_all

lemma idle_places:
  assumes "idle sb v p s"
  shows "free_places s p 0 0"
proof -
  have l: "length (inode_table s) = NR_INODE" "root_inode s < NR_INODE" using assms by (simp_all add: idle_def stored_def cached_def)
  have "\<exists>q < NR_INODE. q \<noteq> root_inode s" by (rule exI [of _ "if root_inode s = 0 then 1 else 0"]) simp
  then have "\<exists>q < NR_INODE. i_cnt (inode_of s q) = 0" using assms by (auto simp: idle_def)
  moreover have "first_free (map fd_inode (f_desc_table s)) 0 = Some 0" using assms by (cases "f_desc_table s") (auto simp: idle_def)
  moreover have "first_free (filp (proc_of s p)) 0 = Some 0" "length (filp (proc_of s p)) = NR_FILES"
    using assms first_free_replicate(1) [of 63 0] by (simp_all add: idle_def)
  ultimately show ?thesis by (simp add: free_places_def)
qed

lemma opened_working:
  assumes id: "idle sb v p s" and st: "stored sb v' s'" and op: "opened s p 0 0 q flags s'" and fl: "word_of_int flags AND O_RDWR \<noteq> (0 :: u32)"
    and q: "q \<noteq> root_inode s" "i_cnt (inode_of s' q) = 1" "i_num (inode_of s' q) = int k" and reg: "i_mode (nodes v' k) = I_REGULAR"
    and rest: "\<And>q'. q' < NR_INODE \<Longrightarrow> q' \<noteq> root_inode s \<Longrightarrow> q' \<noteq> q \<Longrightarrow> i_cnt (inode_of s' q') = 0"
  shows "working sb v' p k 0 s'" and "mem_kept s s'"
proof -
  note O = op [unfolded opened_def] and I = id [unfolded idle_def]
  have p: "p < length (proc_table s)" using I kinvD(2) [of s] by (simp add: stored_def)
  have "filp (proc_of s' p) = no_files[0 := Some 0]" using O I p by simp
  moreover have d: "f_desc_table s' ! 0 = \<lparr>fd_mode = flags, fd_pos = 0, fd_cnt = 1, fd_inode = Some q\<rparr>" "length (f_desc_table s') = NR_FILE_DESC"
    using O I by simp_all
  moreover have "file_at s' v' p 0 0 q k 0" using O I d fl q reg by (simp add: file_at_def valid_proc_nr_def)
  ultimately show "working sb v' p k 0 s'" unfolding working_def using st I q rest O by auto
  show "mem_kept s s'" using O by (intro mem_kept_sector) simp
qed

section \<open>The steps\<close>

lemma idle_create:
  assumes id: "idle sb v p s" and path: "text_at addr path s" "names path nm" and fl: "flags = 3"
    and fresh: "\<And>i l. entries v i \<noteq> Some (nm, l)" and pl: "first_free_place sb v n k j"
  obtains s' where "open_file m0 p addr (int (length path)) flags s = Inr (Some 0, s')" "working sb (vol_create sb nm n k j v) p k 0 s'" "mem_kept s s'"
proof -
  note I = id [unfolded idle_def]
  have st: "stored sb v s" and v: "vol_ok sb v" and c: "cached v (root_inode s) (inode_table s)" using I by (simp_all add: stored_def)
  have O: "word_of_int flags AND O_CREAT \<noteq> (0 :: u32)" "word_of_int flags AND O_RDWR \<noteq> (0 :: u32)" by (simp_all add: fl const_simps)
  have pa: "path_at p addr path s" using text_at_path [OF path(1) st] I by blast
  obtain q s' where s': "open_file m0 p addr (int (length path)) flags s = Inr (Some (int 0), s')" "stored sb (vol_create sb nm n k j v) s'" "opened s p 0 0 q flags s'"
    "q < NR_INODE" "i_cnt (inode_of s q) = 0" "inode_table s' = (inode_table s)[q := new_node sb k j, root_inode s := grown (n < nents v) (inode_of s (root_inode s))]"
    using create_call [OF st pa path(2) O(1) idle_places [OF id] fresh pl, where ?m0.0 = m0] by metis
  have q: "q \<noteq> root_inode s" using s'(5) cachedD(6) [OF c] by auto
  have l: "length (inode_table s) = NR_INODE" "root_inode s < NR_INODE" using cachedD(1,2) [OF c] .
  have t: "inode_of s' q = new_node sb k j" using s'(4,6) q l by simp
  have "k \<noteq> 1" using pl root_inum [OF v] by (auto simp: first_free_place_def)
  then have reg: "i_mode (nodes (vol_create sb nm n k j v) k) = I_REGULAR" by (simp add: new_node_def)
  have rest: "i_cnt (inode_of s' q') = 0" if "q' < NR_INODE" "q' \<noteq> root_inode s" "q' \<noteq> q" for q' using I s'(6) that l by simp
  have "working sb (vol_create sb nm n k j v) p k 0 s'" "mem_kept s s'"
    using opened_working [OF id s'(2,3) O(2) q _ _ reg rest] t by (simp_all add: new_node_def)
  then show thesis using that s'(1) by simp
qed

lemma idle_open:
  assumes id: "idle sb v p s" and path: "text_at addr path s" "names path nm" and old: "entries v n = Some (nm, k)" "i_mode (nodes v k) = I_REGULAR"
  obtains s' where "open_file m0 p addr (int (length path)) 2 s = Inr (Some 0, s')" "working sb v p k 0 s'" "mem_kept s s'" "disk s' = disk s"
proof -
  note I = id [unfolded idle_def]
  have st: "stored sb v s" and v: "vol_ok sb v" and c: "cached v (root_inode s) (inode_table s)" using I by (simp_all add: stored_def)
  have pa: "path_at p addr path s" using text_at_path [OF path(1) st] I by blast
  obtain q s' where s': "open_file m0 p addr (int (length path)) 2 s = Inr (Some (int 0), s')" "stored sb v s'" "opened s p 0 0 q 2 s'" "disk s' = disk s"
    "q < NR_INODE" "i_num (inode_of s' q) = int k" "i_cnt (inode_of s' q) = i_cnt (inode_of s q) + 1"
    "inode_table s' = (inode_table s)[q := inode_of s' q]" "i_cnt (inode_of s q) = 0 \<or> i_num (inode_of s q) = int k"
    using reopen_call [OF st pa path(2) idle_places [OF id] old, where ?m0.0 = m0] by metis
  have "k \<noteq> 1" using old(2) v by (auto simp: vol_ok_def const_simps)
  then have q: "q \<noteq> root_inode s" using s'(9) cachedD(6,7) [OF c] by auto
  have cnt: "i_cnt (inode_of s' q) = 1" using s'(5,7) q I by simp
  have rest: "i_cnt (inode_of s' q') = 0" if "q' < NR_INODE" "q' \<noteq> root_inode s" "q' \<noteq> q" for q'
  proof -
    have "inode_of s' q' = (inode_table s)[q := inode_of s' q] ! q'" by (subst s'(8)) (rule refl)
    then show ?thesis using I that by simp
  qed
  have "working sb v p k 0 s'" "mem_kept s s'"
    using opened_working [OF id s'(2,3) _ q cnt s'(6) old(2) rest] by (simp_all add: const_simps)
  then show thesis using that s'(1,4) by simp
qed

lemma working_write:
  assumes w: "working sb v p k pos s" and b: "disjoint_blocks addr l fsbuf (2 ^ 20)" and len: "pos + l \<le> 2048 * 512" and sp: "span pos l \<le> 256"
  obtains s' u where "write_file m0 p 0 addr (int l) s = Inr (Some (int l), s')" "working sb (vol_resize k u v) p k (pos + l) s'" "mem_kept s s'"
    "unat u = max (unat (i_size (nodes v k))) (pos + l)" "file_bytes s' (nodes v k) pos l = read_bytes (mem s) addr l"
proof -
  obtain q where q: "file_at s v p 0 0 q k pos" "q \<noteq> root_inode s" "i_cnt (inode_of s q) = 1"
    "\<And>q'. q' < NR_INODE \<Longrightarrow> q' \<noteq> root_inode s \<Longrightarrow> q' \<noteq> q \<Longrightarrow> i_cnt (inode_of s q') = 0" using w by (auto simp: working_def)
  have st: "stored sb v s" and W: "native p" "filp (proc_of s p) = no_files[0 := Some 0]" "length (f_desc_table s) = NR_FILE_DESC" "fd_cnt (f_desc_table s ! 0) = 1"
    using w by (simp_all add: working_def)
  have bu: "buffer_at s p addr l addr" using native_va [OF st W(1)] b by (simp add: buffer_at_def)
  obtain s' u where s': "write_file m0 p (int 0) addr (int l) s = Inr (Some (int l), s')" "stored sb (vol_resize k u v) s'"
    "unat u = max (unat (i_size (nodes v k))) (pos + l)" "file_bytes s' (nodes v k) pos l = read_bytes (mem s) addr l"
    "f_desc_table s' = (f_desc_table s)[0 := (f_desc_table s ! 0)\<lparr>fd_pos := int (pos + l)\<rparr>]" "proc_table s' = proc_table s" "root_inode s' = root_inode s"
    "inode_table s' = (inode_table s)[q := (inode_of s q)\<lparr>i_size := u\<rparr>]" "\<And>x. x \<notin> block_addrs fsbuf (2 ^ 20) \<Longrightarrow> mem s' x = mem s x"
    using write_call_stored [OF st q(1) bu len sp, where ?m0.0 = m0] by metis
  have len': "length (inode_table s) = NR_INODE" using st by (simp add: stored_def cached_def)
  have t: "i_cnt (inode_of s' i) = i_cnt (inode_of s i)" "i_num (inode_of s' i) = i_num (inode_of s i)" if "i < NR_INODE" for i
    using s'(8) len' that by (cases "i = q"; simp)+
  have "file_at s' (vol_resize k u v) p 0 0 q k (pos + l)" using q(1,2) W s'(5-7) t by (simp add: file_at_def file_open_def)
  then have "working sb (vol_resize k u v) p k (pos + l) s'"
    using s'(2,5-7) W q t by (auto simp: working_def file_at_def file_open_def)
  moreover have "mem_kept s s'" using s'(9) by (simp add: mem_kept_def)
  ultimately show thesis using that s'(1,3,4) by simp
qed

lemma working_read:
  assumes w: "working sb v p k pos s" and b: "disjoint_blocks addr l fsbuf (2 ^ 20)" and len: "pos + l \<le> unat (i_size (nodes v k))" and sp: "span pos l \<le> 256"
  obtains s' where "read_file m0 p 0 addr (int l) s = Inr (Some (int l), s')" "working sb v p k (pos + l) s'" "disk s' = disk s"
    "read_bytes (mem s') addr l = file_bytes s (nodes v k) pos l" "\<And>x. x \<notin> block_addrs addr l \<Longrightarrow> x \<notin> block_addrs fsbuf (2 ^ 20) \<Longrightarrow> mem s' x = mem s x"
proof -
  obtain q where q: "file_at s v p 0 0 q k pos" "q \<noteq> root_inode s" "i_cnt (inode_of s q) = 1"
    "\<And>q'. q' < NR_INODE \<Longrightarrow> q' \<noteq> root_inode s \<Longrightarrow> q' \<noteq> q \<Longrightarrow> i_cnt (inode_of s q') = 0" using w by (auto simp: working_def)
  have st: "stored sb v s" and W: "native p" "filp (proc_of s p) = no_files[0 := Some 0]" "length (f_desc_table s) = NR_FILE_DESC" "fd_cnt (f_desc_table s ! 0) = 1"
    using w by (simp_all add: working_def)
  have bu: "buffer_at s p addr l addr" using native_va [OF st W(1)] b by (simp add: buffer_at_def)
  obtain s' where s': "read_file m0 p (int 0) addr (int l) s = Inr (Some (int l), s')" "stored sb v s'" "read_bytes (mem s') addr l = file_bytes s (nodes v k) pos l"
    "f_desc_table s' = (f_desc_table s)[0 := (f_desc_table s ! 0)\<lparr>fd_pos := int (pos + l)\<rparr>]" "disk s' = disk s" "inode_table s' = inode_table s"
    "proc_table s' = proc_table s" "root_inode s' = root_inode s" "\<And>x. x \<notin> block_addrs addr l \<Longrightarrow> x \<notin> block_addrs fsbuf (2 ^ 20) \<Longrightarrow> mem s' x = mem s x"
    using read_call_stored [OF st q(1) bu len sp, where ?m0.0 = m0] by metis
  have "file_at s' v p 0 0 q k (pos + l)" using q(1,2) W s'(4-8) by (simp add: file_at_def file_open_def)
  then have "working sb v p k (pos + l) s'"
    unfolding working_def using s'(2,4-8) W q by auto
  then show thesis using that s'(1,3,5,9) by simp
qed

lemma working_close:
  assumes w: "working sb v p k pos s"
  obtains s' where "close_file m0 p 0 s = Inr (Some 0, s')" "idle sb v p s'" "mem_kept s s'" "disk s' = disk s"
proof -
  obtain q where q: "file_at s v p 0 0 q k pos" "q \<noteq> root_inode s" "i_cnt (inode_of s q) = 1"
    "\<And>q'. q' < NR_INODE \<Longrightarrow> q' \<noteq> root_inode s \<Longrightarrow> q' \<noteq> q \<Longrightarrow> i_cnt (inode_of s q') = 0" using w by (auto simp: working_def)
  have st: "stored sb v s" and W: "native p" "filp (proc_of s p) = no_files[0 := Some 0]" "length (f_desc_table s) = NR_FILE_DESC" "fd_cnt (f_desc_table s ! 0) = 1"
    using w by (simp_all add: working_def)
  have op: "file_open s p 0 0 q" and p: "valid_proc_nr (int p)" and ql: "q < NR_INODE" using q(1) by (simp_all add: file_at_def file_open_def)
  obtain r s' where s': "close_file m0 p (int 0) s = Inr (Some 0, s')" "stored sb v s'"
    "s' = (closed p 0 0 q s)\<lparr>fs_msg := r, pcaller := p, fs_sent := fs_sent s @ [FsReply (int p) r]\<rparr>"
    using close_call [OF st op p, where ?m0.0 = m0] by metis
  have len: "length (inode_table s) = NR_INODE" "p < length (proc_table s)" using st W(1) kinvD(2) [of s] by (simp_all add: stored_def cached_def)
  have f: "inode_table s' = (inode_table s)[q := (inode_of s q)\<lparr>i_cnt := i_cnt (inode_of s q) - 1\<rparr>]" "root_inode s' = root_inode s" "mem s' = mem s" "disk s' = disk s"
    "f_desc_table s' = (f_desc_table s)[0 := drop_desc (f_desc_table s ! 0)]"
    "proc_table s' = (proc_table s)[p := (proc_of s p)\<lparr>filp := (filp (proc_of s p))[0 := None]\<rparr>]"
    by (simp_all add: s'(3) closed_def upd_proc_def upd_desc_def upd_inode_def)
  have "i_cnt (inode_of s' q') = 0" if "q' < NR_INODE" "q' \<noteq> root_inode s'" for q'
    using q(3) q(4) [of q'] that len f(1,2) by (cases "q' = q") simp_all
  moreover have "fd_inode (f_desc_table s' ! 0) = None" using W(3,4) f(5) by (simp add: drop_desc_def)
  moreover have "filp (proc_of s' p) = no_files" using f(6) len W(2) by (simp add: list_eq_iff_nth_eq nth_list_update)
  ultimately have "idle sb v p s'" using s'(2) W(1,3) f(5) by (simp add: idle_def)
  then show thesis using that s'(1) f(3,4) by (simp add: mem_kept_def)
qed

text \<open>No file is open, and there is room in the i-node table.\<close>

lemma idle_closed:
  assumes id: "idle sb v p s" and f: "file_in sb v nm n k j"
  shows "i < NR_INODE \<Longrightarrow> i_cnt (inode_of s i) \<noteq> 0 \<Longrightarrow> i_num (inode_of s i) \<noteq> int k" and "\<exists>q < NR_INODE. i_cnt (inode_of s q) = 0"
proof -
  note I = id [unfolded idle_def]
  have v: "vol_ok sb v" and c: "cached v (root_inode s) (inode_table s)" using I by (simp_all add: stored_def)
  show "i_num (inode_of s i) \<noteq> int k" if "i < NR_INODE" "i_cnt (inode_of s i) \<noteq> 0"
    using that I cachedD(7) [OF c] file_inD(2) [OF v f] by (cases "i = root_inode s") auto
  show "\<exists>q < NR_INODE. i_cnt (inode_of s q) = 0" using idle_places [OF id] by (simp add: free_places_def)
qed

lemma idle_unlink:
  assumes id: "idle sb v p s" and path: "text_at addr path s" "names path nm" and f: "file_in sb v nm n k j" and g: "no_gap v n"
  obtains s' where "unlink_file m0 p addr (int (length path)) s = Inr (Some 0, s')" "idle sb (vol_unlink n j v) p s'" "mem_kept s s'"
proof -
  note I = id [unfolded idle_def]
  have st: "stored sb v s" and v: "vol_ok sb v" and c: "cached v (root_inode s) (inode_table s)" using I by (simp_all add: stored_def)
  have pa: "path_at p addr path s" using text_at_path [OF path(1) st] I by blast
  note closed = idle_closed(1) [OF id f] and free = idle_closed(2) [OF id f]
  obtain s' q x r where s': "unlink_file m0 p addr (int (length path)) s = Inr (Some 0, s')" "stored sb (vol_unlink n j v) s'" "root_inode s' = root_inode s"
    "inode_table s' = (inode_table s)[q := x, root_inode s := shrunk v n (inode_of s (root_inode s))]" "q < NR_INODE" "i_cnt x = 0"
    "proc_table s' = proc_table s" "f_desc_table s' = f_desc_table s" "\<And>x. x \<notin> block_addrs fsbuf 512 \<Longrightarrow> mem s' x = mem s x"
    using unlink_call [OF st pa path(2) f g closed free, where ?m0.0 = m0] by metis
  have l: "length (inode_table s) = NR_INODE" "root_inode s < NR_INODE" using cachedD(1,2) [OF c] .
  have "i_cnt (inode_of s' q') = 0" if "q' < NR_INODE" "q' \<noteq> root_inode s'" for q'
    using that I s'(3-6) l by (cases "q' = q") simp_all
  then have "idle sb (vol_unlink n j v) p s'" using I s'(2,7,8) by (simp add: idle_def)
  then show thesis using that s'(1,9) by (simp add: mem_kept_sector)
qed

text \<open>A removal that cuts files off, from an orderly state.\<close>

lemma idle_cuts_off:
  assumes id: "idle sb v p s" and path: "text_at addr path s" "names path nm" and f: "file_in sb v nm n k j" and last: "n + 1 = nents v"
    and other: "entries v m = Some (nm', l)" "m \<noteq> n" "used_before v n < m" and path': "names path' nm'"
  obtains s' t where "unlink_file m0 p addr (int (length path)) s = Inr (Some 0, s')" "on_disk sb (vol_unlink n j v) (disk s')" "search_file path' s' = Inr (0, t)"
proof -
  note I = id [unfolded idle_def]
  have st: "stored sb v s" and v: "vol_ok sb v" and c: "cached v (root_inode s) (inode_table s)" using I by (simp_all add: stored_def)
  have pa: "path_at p addr path s" using text_at_path [OF path(1) st] I by blast
  note closed = idle_closed(1) [OF id f] and free = idle_closed(2) [OF id f]
  show thesis using unlink_cuts_off [OF st pa path(2) f last closed free other path', where ?m0.0 = m0] that by metis
qed

text \<open>A fresh file system is orderly for every native process without files.\<close>

lemma idle_mem:
  assumes "idle sb v p s"
  shows "idle sb v p (s\<lparr>mem := m\<rparr>)"
proof -
  have "stored sb v (s\<lparr>mem := m\<rparr>)" using assms stored_cong [of sb v s "s\<lparr>mem := m\<rparr>"] by (simp add: idle_def stored_def kinv_def seg_base_def)
  then show ?thesis using assms by (simp add: idle_def)
qed

lemma working_mem:
  assumes "working sb v p k pos s"
  shows "working sb v p k pos (s\<lparr>mem := m\<rparr>)"
proof -
  have "stored sb v (s\<lparr>mem := m\<rparr>)" using assms stored_cong [of sb v s "s\<lparr>mem := m\<rparr>"] by (simp add: working_def stored_def kinv_def seg_base_def)
  moreover have "file_at (s\<lparr>mem := m\<rparr>) v p 0 0 q k pos = file_at s v p 0 0 q k pos" for q by (simp add: file_at_def file_open_def)
  ultimately show ?thesis using assms by (simp add: working_def)
qed

lemma fresh_idle:
  assumes "kinv s" and "sb_table s \<noteq> []" and "unat (part_size geo) < 2 ^ 21" and "native p" and "filp (proc_of s p) = no_files"
  obtains s' where "init_fs geo s = Inr s'" "idle ((mkfs_sb geo)\<lparr>sb_dev := ROOT_DEV\<rparr>) (fresh_vol (mkfs_sb geo)) p s'" "f_desc_table s' = replicate NR_FILE_DESC no_desc"
proof -
  obtain s' where s': "init_fs geo s = Inr s'" "stored ((mkfs_sb geo)\<lparr>sb_dev := ROOT_DEV\<rparr>) (fresh_vol (mkfs_sb geo)) s'" "proc_table s' = proc_table s"
    "f_desc_table s' = replicate NR_FILE_DESC no_desc" "root_inode s' = 0" "inode_table s' = fresh_root (mkfs_sb geo) # replicate 63 no_inode"
    using init_fs_stored [OF assms(1-3)] by metis
  have "i_cnt (inode_of s' q) = 0" if "q < NR_INODE" "q \<noteq> 0" for q
    using that s'(6) by (cases q) (simp_all add: no_inode_def)
  then have "idle ((mkfs_sb geo)\<lparr>sb_dev := ROOT_DEV\<rparr>) (fresh_vol (mkfs_sb geo)) p s'"
    using assms(4,5) s' by (simp add: idle_def no_desc_def)
  then show thesis using that s'(1,4) by blast
qed

end
