(* ===== verification/Fs_Terminals.thy ===== *)
theory Fs_Terminals
  imports Fs_Session
begin

text \<open>
  Opening a terminal by its name: the library call connects the process with the i-node of the special file and tells the driver of the terminals.
\<close>

section \<open>Terminals in the volume\<close>

definition terminal_at :: "volume \<Rightarrow> u8 list \<Rightarrow> nat \<Rightarrow> nat \<Rightarrow> bool" where
  "terminal_at v nm k j \<longleftrightarrow> (\<exists>n. entries v n = Some (nm, k)) \<and> i_mode (nodes v k) = I_CHAR_SPECIAL
     \<and> i_start_sect (nodes v k) = word_of_int (MAKE_DEV DEV_CHAR_TTY (int j)) \<and> j < NR_CONSOLES"

lemma fresh_terminal: "j < NR_CONSOLES \<Longrightarrow> terminal_at (fresh_vol sb) (tty_name j) (j + 2) j"
proof -
  assume j: "j < NR_CONSOLES"
  have "entries (fresh_vol sb) (j + 1) = Some (tty_name j, j + 2)" using j by (simp add: made_name_def)
  moreover have "nodes (fresh_vol sb) (j + 2) = tty_inode j" by (simp add: made_inode_def)
  ultimately show ?thesis using j by (auto simp: terminal_at_def tty_inode_def simp del: fresh_vol_fields)
qed

lemma tty_device: "j < NR_CONSOLES \<Longrightarrow> sint (word_of_int (MAKE_DEV DEV_CHAR_TTY (int j)) :: u32) = 0x400 + int j"
  by (auto simp: MAKE_DEV_def const_simps push_bit_eq_mult less_Suc_eq numeral_eq_Suc)

lemma open_checks_terminal:
  assumes "i_mode (inode_of s q) = I_CHAR_SPECIAL" and "i_start_sect (inode_of s q) = word_of_int (MAKE_DEV DEV_CHAR_TTY (int j))" and "j < NR_CONSOLES"
  shows "open_checks q s = Inr (s\<lparr>fs_sent := fs_sent s @ [DevOpen (int TASK_TTY) (int j)]\<rparr>)"
proof -
  have "MAJOR (0x400 + int j) = 4" "MINOR (0x400 + int j) = int j" using assms(3)
    by (auto simp: MAJOR_def MINOR_def less_Suc_eq numeral_eq_Suc)
  moreover have "sint (i_start_sect (inode_of s q)) = 0x400 + int j" unfolding assms(2) by (rule tty_device [OF assms(3)])
  ultimately show ?thesis using assms(1) by (simp add: open_checks_def driver_of_def dd_map_def const_simps Let_def)
qed

section \<open>One call\<close>

lemma terminal_call:
  assumes st: "stored sb v s" and path: "path_at p addr path s" "names path nm" and fp: "free_places s p fd i" and tm: "terminal_at v nm k j"
  obtains q r s' where "open_file m0 p addr (int (length path)) 2 s = Inr (Some (int fd), s')" "stored sb v s'" "disk s' = disk s"
    "fs_sent s' = fs_sent s @ [DevOpen (int TASK_TTY) (int j), FsReply (int p) r]" "root_inode s' = root_inode s"
    "f_desc_table s' = (f_desc_table s)[i := \<lparr>fd_mode = 2, fd_pos = 0, fd_cnt = 1, fd_inode = Some q\<rparr>]"
    "proc_table s' = (proc_table s)[p := (proc_of s p)\<lparr>filp := (filp (proc_of s p))[fd := Some i]\<rparr>]"
    "mem_kept s s'" "q < NR_INODE" "i_num (inode_of s' q) = int k" "same_node (inode_of s' q) (nodes v k)" "i_cnt (inode_of s' q) = i_cnt (inode_of s q) + 1"
    "inode_table s' = (inode_table s)[q := inode_of s' q]" "i_cnt (inode_of s q) = 0 \<or> i_num (inode_of s q) = int k"
proof -
  let ?m = "open_msg m0 p addr (length path) 2"
  let ?s = "received ?m s"
  obtain n where old: "entries v n = Some (nm, k)" using tm by (auto simp: terminal_at_def)
  have cp: "copy_path ?s = Inr path" by (rule path_at_copy [OF path(1)]) simp_all
  have fp': "free_places ?s (pcaller ?s) fd i" and fl': "m3i1 (fs_msg ?s) = 2" using fp by (simp_all add: free_places_def)
  obtain q t where t': "do_open ?s = res_bind (open_checks q (connect fd i q 2 t)) (\<lambda>t. Inr (int fd, t))" "stored sb v t" "progressed ?s t" "disk t = disk ?s"
    "q < NR_INODE" "i_num (inode_of t q) = int k" "same_node (inode_of t q) (nodes v k)" "i_cnt (inode_of t q) = i_cnt (inode_of ?s q) + 1"
    "inode_table t = (inode_table ?s)[q := inode_of t q]" "i_cnt (inode_of ?s q) = 0 \<or> i_num (inode_of ?s q) = int k"
    by (rule do_open_found [OF stored_received [OF st] cp path(2) fl' fp' old]) (rule that)
  note t = t' [unfolded received_fields]
  note f = progressed_fields [OF t(3)]
  have p: "valid_proc_nr (int p)" using path(1) by (simp add: path_at_def)
  let ?ev = "DevOpen (int TASK_TTY) (int j)"
  have "open_checks q (connect fd i q 2 t) = Inr ((connect fd i q 2 t)\<lparr>fs_sent := fs_sent s @ [?ev]\<rparr>)"
    using open_checks_terminal [of "connect fd i q 2 t" q j] t(7) tm f by (simp add: terminal_at_def same_node_def)
  then have run: "do_open ?s = Inr (int fd, (connect fd i q 2 t)\<lparr>fs_sent := fs_sent s @ [?ev]\<rparr>)" using t(1) by simp
  have m: "fs_msg ((connect fd i q 2 t)\<lparr>fs_sent := fs_sent s @ [?ev]\<rparr>) = ?m" using f by simp
  obtain r where r: "open_file m0 p addr (int (length path)) 2 s
      = Inr (Some (int fd), (connect fd i q 2 t)\<lparr>fs_msg := r, fs_sent := fs_sent s @ [?ev, FsReply (int p) r]\<rparr>)"
    by (rule open_call_events [OF run p m, of "[?ev]"]) (simp, rule that, simp)
  have st': "stored sb v ((connect fd i q 2 t)\<lparr>fs_msg := r, fs_sent := fs_sent s @ [?ev, FsReply (int p) r]\<rparr>)"
    by (rule stored_answered [OF stored_connect [OF t(2)]])
  have mk: "mem_kept s ((connect fd i q 2 t)\<lparr>fs_msg := r, fs_sent := fs_sent s @ [?ev, FsReply (int p) r]\<rparr>)"
    using f by (intro mem_kept_sector) simp
  show thesis by (rule that [OF r st']) (use t(4-10) f mk in simp_all)
qed

section \<open>Both ends of a terminal\<close>

text \<open>A process without files opens its terminal twice: file 0 and file 1 share the i-node.\<close>

lemma terminal_twice:
  assumes id: "idle sb v p s" and d1: "fd_inode (f_desc_table s ! 1) = None" and t: "text_at a1 path s" "text_at a2 path s" "names path nm" and tm: "terminal_at v nm k j"
  obtains q r1 r2 s1 s2 where "open_file m0 p a1 (int (length path)) 2 s = Inr (Some 0, s1)" "open_file m1 p a2 (int (length path)) 2 s1 = Inr (Some 1, s2)"
    "stored sb v s2" "disk s2 = disk s" "mem_kept s s2"
    "fs_sent s2 = fs_sent s @ [DevOpen (int TASK_TTY) (int j), FsReply (int p) r1, DevOpen (int TASK_TTY) (int j), FsReply (int p) r2]"
    "filp (proc_of s2 p) = no_files[0 := Some 0, 1 := Some 1]" "fd_inode (f_desc_table s2 ! 0) = Some q" "fd_inode (f_desc_table s2 ! 1) = Some q"
    "q < NR_INODE" "i_cnt (inode_of s2 q) = 2" "same_node (inode_of s2 q) (nodes v k)"
proof -
  note I = id [unfolded idle_def]
  have st: "stored sb v s" and v: "vol_ok sb v" and c: "cached v (root_inode s) (inode_table s)" using I by (simp_all add: stored_def)
  have pa: "path_at p a1 path s" using text_at_path [OF t(1) st] I by blast
  obtain q r1 s1 where s1: "open_file m0 p a1 (int (length path)) 2 s = Inr (Some (int 0), s1)" "stored sb v s1" "disk s1 = disk s"
    "fs_sent s1 = fs_sent s @ [DevOpen (int TASK_TTY) (int j), FsReply (int p) r1]" "root_inode s1 = root_inode s"
    "f_desc_table s1 = (f_desc_table s)[0 := \<lparr>fd_mode = 2, fd_pos = 0, fd_cnt = 1, fd_inode = Some q\<rparr>]"
    "proc_table s1 = (proc_table s)[p := (proc_of s p)\<lparr>filp := (filp (proc_of s p))[0 := Some 0]\<rparr>]"
    "mem_kept s s1" "q < NR_INODE" "i_num (inode_of s1 q) = int k" "same_node (inode_of s1 q) (nodes v k)" "i_cnt (inode_of s1 q) = i_cnt (inode_of s q) + 1"
    "inode_table s1 = (inode_table s)[q := inode_of s1 q]" "i_cnt (inode_of s q) = 0 \<or> i_num (inode_of s q) = int k"
    by (rule terminal_call [OF st pa t(3) idle_places [OF id] tm, where ?m0.0 = m0]) (rule that)
  have k1: "k \<noteq> 1" using tm v by (auto simp: terminal_at_def vol_ok_def const_simps)
  have q: "q \<noteq> root_inode s" using s1(14) cachedD(6,7) [OF c] k1 by auto
  have cnt: "i_cnt (inode_of s1 q) = 1" using s1(9,12) q I by simp
  have p: "p < length (proc_table s)" using I kinvD(2) [of s] st by (simp add: stored_def)
  have fl1: "filp (proc_of s1 p) = no_files[0 := Some 0]" using s1(7) p I by simp
  have fd1: "f_desc_table s1 ! 0 = \<lparr>fd_mode = 2, fd_pos = 0, fd_cnt = 1, fd_inode = Some q\<rparr>" "f_desc_table s1 ! 1 = f_desc_table s ! 1"
    "length (f_desc_table s1) = NR_FILE_DESC" using s1(6) I by simp_all
  have free: "\<exists>x < NR_INODE. i_cnt (inode_of s1 x) = 0"
  proof -
    have "\<exists>x < NR_INODE. x \<noteq> root_inode s \<and> x \<noteq> q"
      by (rule exI [of _ "if root_inode s \<noteq> 0 \<and> q \<noteq> 0 then 0 else if root_inode s \<noteq> 1 \<and> q \<noteq> 1 then 1 else 2"]) auto
    then obtain x where x: "x < NR_INODE" "x \<noteq> root_inode s" "x \<noteq> q" by blast
    have "inode_of s1 x = (inode_table s)[q := inode_of s1 q] ! x" by (rule arg_cong [OF s1(13)])
    then show ?thesis using x I by auto
  qed
  have "first_free (map fd_inode (f_desc_table s1)) 0 = Some 1"
  proof -
    obtain a xs where a: "f_desc_table s1 = a # xs" using fd1(3) by (cases "f_desc_table s1") simp_all
    obtain b ys where "xs = b # ys" using fd1(3) a by (cases xs) simp_all
    then have "f_desc_table s1 = a # b # ys" using a by simp
    then show ?thesis using fd1(1,2) d1 by simp
  qed
  moreover have "first_free (filp (proc_of s1 p)) 0 = Some 1" "length (filp (proc_of s1 p)) = NR_FILES"
    unfolding fl1 by (simp_all add: numeral_eq_Suc)
  ultimately have fp: "free_places s1 p 1 1" using free by (simp add: free_places_def)
  have pa2: "path_at p a2 path s1" using text_at_path [OF text_at_kept [OF t(2) s1(8)] s1(2)] I by blast
  obtain q' r2 s2 where s2: "open_file m1 p a2 (int (length path)) 2 s1 = Inr (Some (int 1), s2)" "stored sb v s2" "disk s2 = disk s1"
    "fs_sent s2 = fs_sent s1 @ [DevOpen (int TASK_TTY) (int j), FsReply (int p) r2]" "root_inode s2 = root_inode s1"
    "f_desc_table s2 = (f_desc_table s1)[1 := \<lparr>fd_mode = 2, fd_pos = 0, fd_cnt = 1, fd_inode = Some q'\<rparr>]"
    "proc_table s2 = (proc_table s1)[p := (proc_of s1 p)\<lparr>filp := (filp (proc_of s1 p))[1 := Some 1]\<rparr>]"
    "mem_kept s1 s2" "q' < NR_INODE" "i_num (inode_of s2 q') = int k" "same_node (inode_of s2 q') (nodes v k)" "i_cnt (inode_of s2 q') = i_cnt (inode_of s1 q') + 1"
    "inode_table s2 = (inode_table s1)[q' := inode_of s2 q']" "i_cnt (inode_of s1 q') = 0 \<or> i_num (inode_of s1 q') = int k"
    by (rule terminal_call [OF s1(2) pa2 t(3) fp tm, where ?m0.0 = m1]) (rule that)
  have c2: "cached v (root_inode s2) (inode_table s2)" "cached v (root_inode s1) (inode_table s1)" using s1(2) s2(2) by (simp_all add: stored_def)
  have qq: "q' = q"
  proof (rule ccontr)
    assume n: "q' \<noteq> q"
    have "inode_of s2 q = (inode_table s1)[q' := inode_of s2 q'] ! q" by (rule arg_cong [OF s2(13)])
    then have a: "inode_of s2 q = inode_of s1 q" using n by simp
    have "0 < i_cnt (inode_of s2 q')" using s2(12) cachedD(3) [OF c2(2) s2(9)] by simp
    then show False using cachedD(5) [OF c2(1) s2(9) s1(9)] a s1(10) s2(10) cnt n by simp
  qed
  show thesis
  proof (rule that)
    show "open_file m0 p a1 (int (length path)) 2 s = Inr (Some 0, s1)" "open_file m1 p a2 (int (length path)) 2 s1 = Inr (Some 1, s2)"
      using s1(1) s2(1) by simp_all
    show "stored sb v s2" "disk s2 = disk s" "mem_kept s s2" using s2(2,3) s1(3) mem_kept_trans [OF s1(8) s2(8)] by simp_all
    show "fs_sent s2 = fs_sent s @ [DevOpen (int TASK_TTY) (int j), FsReply (int p) r1, DevOpen (int TASK_TTY) (int j), FsReply (int p) r2]"
      using s1(4) s2(4) by simp
    show "filp (proc_of s2 p) = no_files[0 := Some 0, 1 := Some 1]" using s2(7) fl1 s1(7) p by simp
    show "fd_inode (f_desc_table s2 ! 0) = Some q" "fd_inode (f_desc_table s2 ! 1) = Some q" using s2(6) fd1 qq by simp_all
    show "q < NR_INODE" "i_cnt (inode_of s2 q) = 2" "same_node (inode_of s2 q) (nodes v k)" using s1(9) s2(11,12) qq cnt by simp_all
  qed
qed

end
