(* ===== verification/User_Programs.thy ===== *)
theory User_Programs
  imports Fs_Terminals Printing Systask
begin

text \<open>
  The user processes of \<^verbatim>\<open>kernel/main.c\<close>. \<open>TestA\<close> creates, writes, reads and removes files by way of the library; the others
  open their terminal and then echo lines (\<open>shell_turn\<close> of theory Printing). With them come the texts they print.
\<close>

section \<open>The program\<close>

text \<open>The places of its local arrays and of the literals, which the compiler chooses.\<close>

record testa_places =
  a_filename :: u32
  a_bufw :: u32
  a_bufr :: u32
  a_foo :: u32
  a_bar :: u32
  a_baz :: u32
  r_bar :: u32
  r_foo :: u32
  r_baz :: u32

text \<open>The pointers in \<^verbatim>\<open>filenames\<close> and \<^verbatim>\<open>rfilenames\<close>, with the literals they point to.\<close>

definition names_of :: "testa_places \<Rightarrow> (u32 \<times> string) list" where
  "names_of A = [(a_foo A, ''/foo''), (a_bar A, ''/bar''), (a_baz A, ''/baz'')]"

definition rnames_of :: "testa_places \<Rightarrow> (u32 \<times> string) list" where
  "rnames_of A = [(r_bar A, ''/bar''), (r_foo A, ''/foo''), (r_baz A, ''/baz'')]"

text \<open>A call whose answer does not come in the same turn of FS leaves the caller blocked.\<close>

definition user_call :: "(int option \<times> fs) res \<Rightarrow> (int \<times> fs) res" where
  "user_call r = res_bind r (\<lambda>(v, s). case v of None \<Rightarrow> Inl Spins | Some x \<Rightarrow> Inr (x, s))"

text \<open>\<open>junk i\<close> is what call number \<open>i\<close> finds in its message on the stack.\<close>

fun create_files :: "(nat \<Rightarrow> message) \<Rightarrow> nat \<Rightarrow> nat \<Rightarrow> (u32 \<times> string) list \<Rightarrow> fs \<Rightarrow> (fs \<times> string list) res" where
  "create_files junk p i [] s = Inr (s, [])"
| "create_files junk p i ((a, nm) # rest) s =
     res_bind (user_call (open_file (junk i) p a (int (length nm)) 3 s)) (\<lambda>(fd, s1).
     kassert (fd \<noteq> -1) ''TestA: fd'' (
     res_bind (printl (''File created: %s (fd %d)'' @ [NEWLINE]) [VStr nm, VInt fd]) (\<lambda>t.
     res_bind (user_call (close_file (junk (i + 1)) p fd s1)) (\<lambda>(_, s2).
     res_bind (create_files junk p (i + 2) rest s2) (\<lambda>(s3, ts). Inr (s3, t # ts))))))"

fun remove_files :: "(nat \<Rightarrow> message) \<Rightarrow> nat \<Rightarrow> nat \<Rightarrow> (u32 \<times> string) list \<Rightarrow> fs \<Rightarrow> (fs \<times> string list) res" where
  "remove_files junk p i [] s = Inr (s, [])"
| "remove_files junk p i ((a, nm) # rest) s =
     res_bind (user_call (unlink_file (junk i) p a (int (length nm)) s)) (\<lambda>(r, s1).
     res_bind (printl ((if r = 0 then ''File removed: %s'' else ''Failed to remove file: %s'') @ [NEWLINE]) [VStr nm]) (\<lambda>t.
     res_bind (remove_files junk p (i + 1) rest s1) (\<lambda>(s2, ts). Inr (s2, t # ts))))"

definition c_bytes :: "string \<Rightarrow> u8 list" where
  "c_bytes t = str_bytes t @ [0]"

text \<open>
  \<^verbatim>\<open>bufr[n] = 0\<close> with \<open>n = rd_bytes\<close> writes the byte behind \<^verbatim>\<open>bufr\<close>. The string printed then is what precedes that byte.
\<close>

definition TestA :: "(nat \<Rightarrow> message) \<Rightarrow> nat \<Rightarrow> testa_places \<Rightarrow> fs \<Rightarrow> (fs \<times> string list) res" where
  "TestA junk p A s =
     (let bufw = ''abcde''; filename = ''blah''; rd_bytes = 3;
          s0 = s\<lparr>mem := write_bytes (write_bytes (mem s) (a_filename A) (c_bytes filename)) (a_bufw A) (c_bytes bufw)\<rparr> in
      kassert (rd_bytes \<le> int (length bufw)) ''TestA: rd_bytes'' (
      res_bind (user_call (open_file (junk 0) p (a_filename A) (int (length filename)) 3 s0)) (\<lambda>(fd, s1).
      kassert (fd \<noteq> -1) ''TestA: fd'' (
      res_bind (printl (''File created. fd: %d'' @ [NEWLINE]) [VInt fd]) (\<lambda>t1.
      res_bind (user_call (write_file (junk 1) p fd (a_bufw A) (int (length bufw)) s1)) (\<lambda>(n, s2).
      kassert (n = int (length bufw)) ''TestA: n'' (
      res_bind (user_call (close_file (junk 2) p fd s2)) (\<lambda>(_, s3).
      res_bind (user_call (open_file (junk 3) p (a_filename A) (int (length filename)) 2 s3)) (\<lambda>(fd', s4).
      kassert (fd' \<noteq> -1) ''TestA: fd'' (
      res_bind (printl (''File opened. fd: %d'' @ [NEWLINE]) [VInt fd']) (\<lambda>t2.
      res_bind (user_call (read_file (junk 4) p fd' (a_bufr A) rd_bytes s4)) (\<lambda>(n', s5).
      kassert (n' = rd_bytes) ''TestA: n'' (
      let s6 = s5\<lparr>mem := (mem s5)(a_bufr A + word_of_int n' := 0)\<rparr>;
          text = map (\<lambda>b. char_of (unat b)) (takeWhile (\<lambda>b. b \<noteq> 0) (read_bytes (mem s6) (a_bufr A) (nat n' + 1))) in
      res_bind (printl (''%d bytes read: %s'' @ [NEWLINE]) [VInt n', VStr text]) (\<lambda>t3.
      res_bind (user_call (close_file (junk 5) p fd' s6)) (\<lambda>(_, s7).
      res_bind (create_files junk p 6 (names_of A) s7) (\<lambda>(s8, ts).
      res_bind (remove_files junk p 12 (rnames_of A) s8) (\<lambda>(s9, rs).
      Inr (s9, [t1, t2, t3] @ ts @ rs))))))))))))))))))"

section \<open>The shells\<close>

text \<open>The terminal \<open>name\<close> is opened for input and for output; the two names may be one text.\<close>

definition open_terminal :: "(nat \<Rightarrow> message) \<Rightarrow> nat \<Rightarrow> u32 \<Rightarrow> u32 \<Rightarrow> string \<Rightarrow> fs \<Rightarrow> fs res" where
  "open_terminal junk p a1 a2 name s =
     res_bind (user_call (open_file (junk 0) p a1 (int (length name)) 2 s)) (\<lambda>(fd_stdin, s1).
     kassert (fd_stdin = 0) ''fd_stdin'' (
     res_bind (user_call (open_file (junk 1) p a2 (int (length name)) 2 s1)) (\<lambda>(fd_stdout, s2).
     kassert (fd_stdout = 1) ''fd_stdout'' (Inr s2))))"

text \<open>The endless loop, as far as the \<open>lines\<close> go that its reads return, one turn for each.\<close>

definition shell :: "string list \<Rightarrow> string res" where
  "shell lines = print_all (map shell_turn lines)"

text \<open>
  The programs, with the texts given to \<^verbatim>\<open>printf\<close> and \<^verbatim>\<open>printl\<close>. The delays of \<open>TestC\<close> go by on the states in which its calls
  of \<^verbatim>\<open>get_ticks\<close> are served.
\<close>

definition Init :: "(nat \<Rightarrow> message) \<Rightarrow> nat \<Rightarrow> u32 \<Rightarrow> u32 \<Rightarrow> string list \<Rightarrow> fs \<Rightarrow> (fs \<times> string list) res" where
  "Init junk p a1 a2 lines s =
     res_bind (open_terminal junk p a1 a2 ''/dev_tty0'' s) (\<lambda>s1.
     res_bind (format_into STR_DEFAULT_LEN (''Init() is running ...'' @ [NEWLINE]) []) (\<lambda>t1.
     res_bind (printl [NEWLINE] []) (\<lambda>t2.
     res_bind (shell lines) (\<lambda>t3. Inr (s1, [t1, t2, t3])))))"

definition TestB :: "(nat \<Rightarrow> message) \<Rightarrow> nat \<Rightarrow> u32 \<Rightarrow> string list \<Rightarrow> fs \<Rightarrow> (fs \<times> string list) res" where
  "TestB junk p nm lines s =
     res_bind (open_terminal junk p nm nm ''/dev_tty1'' (s\<lparr>mem := write_bytes (mem s) nm (c_bytes ''/dev_tty1'')\<rparr>)) (\<lambda>s1.
     res_bind (shell lines) (\<lambda>t. Inr (s1, [t])))"

fun count_down :: "nat \<Rightarrow> nat \<Rightarrow> 'a kernel_scheme list list \<Rightarrow> string list res" where
  "count_down p 0 kss = Inr []"
| "count_down p (Suc i) kss =
     res_bind (printl ''C'' []) (\<lambda>t.
     case kss of
       [] \<Rightarrow> Inl Spins
     | ks # rest \<Rightarrow>
         res_bind (milli_delay p 200 ks) (\<lambda>d. case d of None \<Rightarrow> Inl Spins | Some _ \<Rightarrow>
         res_bind (count_down p i rest) (\<lambda>ts. Inr (t # ts))))"

definition TestC :: "(nat \<Rightarrow> message) \<Rightarrow> nat \<Rightarrow> u32 \<Rightarrow> 'a kernel_scheme list list \<Rightarrow> string list \<Rightarrow> fs \<Rightarrow> (fs \<times> string list) res" where
  "TestC junk p nm kss lines s =
     res_bind (printl [NEWLINE, NEWLINE] []) (\<lambda>t1.
     res_bind (count_down p 0x0100 kss) (\<lambda>ts.
     res_bind (open_terminal junk p nm nm ''/dev_tty2'' (s\<lparr>mem := write_bytes (mem s) nm (c_bytes ''/dev_tty2'')\<rparr>)) (\<lambda>s1.
     res_bind (format_into STR_DEFAULT_LEN [NEWLINE] []) (\<lambda>t2.
     res_bind (shell lines) (\<lambda>t3. Inr (s1, t1 # ts @ [t2, t3]))))))"

text \<open>The shell echoes every line in braces.\<close>

lemma shell_echoes:
  assumes "\<And>l. l \<in> set lines \<Longrightarrow> length l \<le> 70 \<and> CHR 0x00 \<notin> set l \<and> l \<noteq> [] \<and> l \<noteq> ''hello''"
  shows "shell lines = Inr (concat (map (\<lambda>l. ''$ {'' @ l @ ''}'' @ [NEWLINE]) lines))"
  using assms by (induction lines) (simp_all add: shell_def shell_echo)

text \<open>One \<^verbatim>\<open>C\<close> for each delay that is over.\<close>

lemma count_down_prints:
  "length kss = i \<Longrightarrow> (\<And>ks. ks \<in> set kss \<Longrightarrow> \<exists>m. milli_delay p 200 ks = Inr (Some m)) \<Longrightarrow> count_down p i kss = Inr (replicate i ''C'')"
proof (induction kss arbitrary: i)
  case (Cons ks kss)
  obtain m where "milli_delay p 200 ks = Inr (Some m)" using Cons.prems(2) [of ks] by auto
  moreover have "count_down p (length kss) kss = Inr (replicate (length kss) ''C'')" using Cons by auto
  ultimately show ?case using Cons.prems(1) by (auto simp: printl_def format_into_def STR_DEFAULT_LEN_def)
qed simp

lemma written_text_at:
  assumes "disjoint_blocks a (length t + 1) fsbuf (2 ^ 20)" and "length t < 128"
  shows "text_at a (str_bytes t) (s\<lparr>mem := write_bytes (mem s) a (c_bytes t)\<rparr>)"
proof -
  have l: "length (c_bytes t) = length t + 1" "length (str_bytes t) = length t" by (simp_all add: c_bytes_def str_bytes_def)
  have "read_bytes (write_bytes (mem s) a (c_bytes t)) a (length t + 1) = c_bytes t"
    using read_write_bytes [of "c_bytes t" "mem s" a] assms(2) l by simp
  then have "read_bytes (write_bytes (mem s) a (c_bytes t)) a (length t) = str_bytes t"
    using read_bytes_snoc [of "write_bytes (mem s) a (c_bytes t)" a "length t"] by (simp add: c_bytes_def)
  moreover have "disjoint_blocks a (length t) fsbuf (2 ^ 20)"
    using assms(1) block_addrs_sub [of 0 "length t" "length t + 1" a] by (auto simp: disjoint_blocks_def)
  ultimately show ?thesis using assms(2) l by (simp add: text_at_def)
qed

lemma open_terminal_ok:
  assumes "idle sb v p s" and "fd_inode (f_desc_table s ! 1) = None" and "text_at a1 (str_bytes name) s" "text_at a2 (str_bytes name) s" "names (str_bytes name) nm"
    and "terminal_at v nm k j"
  obtains q r1 r2 s' where "open_terminal junk p a1 a2 name s = Inr s'" "stored sb v s'" "disk s' = disk s"
    "fs_sent s' = fs_sent s @ [DevOpen (int TASK_TTY) (int j), FsReply (int p) r1, DevOpen (int TASK_TTY) (int j), FsReply (int p) r2]"
    "filp (proc_of s' p) = no_files[0 := Some 0, 1 := Some 1]" "fd_inode (f_desc_table s' ! 0) = Some q" "fd_inode (f_desc_table s' ! 1) = Some q"
    "i_cnt (inode_of s' q) = 2" "i_start_sect (inode_of s' q) = word_of_int (MAKE_DEV DEV_CHAR_TTY (int j))"
proof -
  have l: "int (length (str_bytes name)) = int (length name)" by (simp add: str_bytes_def)
  obtain q r1 r2 s1 s2 where s: "open_file (junk 0) p a1 (int (length name)) 2 s = Inr (Some 0, s1)" "open_file (junk 1) p a2 (int (length name)) 2 s1 = Inr (Some 1, s2)"
    "stored sb v s2" "disk s2 = disk s" "mem_kept s s2"
    "fs_sent s2 = fs_sent s @ [DevOpen (int TASK_TTY) (int j), FsReply (int p) r1, DevOpen (int TASK_TTY) (int j), FsReply (int p) r2]"
    "filp (proc_of s2 p) = no_files[0 := Some 0, 1 := Some 1]" "fd_inode (f_desc_table s2 ! 0) = Some q" "fd_inode (f_desc_table s2 ! 1) = Some q"
    "q < NR_INODE" "i_cnt (inode_of s2 q) = 2" "same_node (inode_of s2 q) (nodes v k)"
    by (rule terminal_twice [OF assms, where ?m0.0 = "junk 0" and ?m1.0 = "junk 1", unfolded l]) (rule that)
  have "open_terminal junk p a1 a2 name s = Inr s2" using s(1,2) by (simp add: open_terminal_def user_call_def)
  moreover have "i_start_sect (inode_of s2 q) = word_of_int (MAKE_DEV DEV_CHAR_TTY (int j))" using s(12) assms(6) by (simp add: same_node_def terminal_at_def)
  ultimately show thesis using that s by blast
qed

section \<open>Volumes without holes\<close>

definition dense :: "volume \<Rightarrow> nat \<Rightarrow> nat \<Rightarrow> bool" where
  "dense v m c \<longleftrightarrow> (\<forall>n. entries v n = None \<longleftrightarrow> m \<le> n) \<and> inums v = {1..m} \<and> chunks v = {0..<c}"

lemma dense_place: "dense v m c \<Longrightarrow> m < capacity v \<Longrightarrow> m + 1 < 4096 \<Longrightarrow> 2048 * (c + 1) < 4096 * unat (nr_smap_sects sb) \<Longrightarrow> first_free_place sb v m (m + 1) c"
  by (auto simp: dense_def first_free_place_def)

lemma dense_create: "dense v m c \<Longrightarrow> dense (vol_create sb nm m (m + 1) c v) (m + 1) (c + 1)"
  using inums_create [of v m sb nm "m + 1" c] by (auto simp: dense_def)

lemma dense_resize: "dense (vol_resize k w v) m c = dense v m c"
  by (simp add: dense_def)

lemma dense_fresh: "dense (fresh_vol sb) 4 1"
  by (auto simp: dense_def fresh_inums)

section \<open>The texts\<close>

lemma texts:
  "printl (''File created. fd: %d'' @ [NEWLINE]) [VInt 0] = Inr (''File created. fd: 0'' @ [NEWLINE])"
  "printl (''File opened. fd: %d'' @ [NEWLINE]) [VInt 0] = Inr (''File opened. fd: 0'' @ [NEWLINE])"
  "printl (''%d bytes read: %s'' @ [NEWLINE]) [VInt 3, VStr ''abc''] = Inr (''3 bytes read: abc'' @ [NEWLINE])"
  "nm \<in> {''/foo'', ''/bar'', ''/baz''} \<Longrightarrow>
     printl (''File created: %s (fd %d)'' @ [NEWLINE]) [VStr nm, VInt 0] = Inr (''File created: '' @ nm @ '' (fd 0)'' @ [NEWLINE])"
  "nm \<in> {''/foo'', ''/bar'', ''/baz''} \<Longrightarrow> printl (''File removed: %s'' @ [NEWLINE]) [VStr nm] = Inr (''File removed: '' @ nm @ [NEWLINE])"
  by (auto simp: printl_def format_into_def STR_DEFAULT_LEN_def is_digit_def pad_def i2a.simps [of 0] i2a.simps [of 3] signed_divide_int_def signed_modulo_int_def char_of_def)

section \<open>Steps of the program\<close>

lemma create_step:
  assumes id: "idle sb v p s" and d: "dense v m c" and path: "text_at a (str_bytes path) s" "names (str_bytes path) nm" and fresh: "\<And>i l. entries v i \<noteq> Some (nm, l)"
    and room: "m < capacity v" "m + 1 < 4096" "2048 * (c + 1) < 4096 * unat (nr_smap_sects sb)"
  obtains s' where "open_file m0 p a (int (length path)) 3 s = Inr (Some 0, s')" "working sb (vol_create sb nm m (m + 1) c v) p (m + 1) 0 s'" "mem_kept s s'"
  using idle_create [OF id path refl fresh dense_place [OF d room], where ?m0.0 = m0] by (auto simp: str_bytes_def)

lemma create_close_step:
  assumes "idle sb v p s" and "dense v m c" and "text_at a (str_bytes path) s" "names (str_bytes path) nm" and "\<And>i l. entries v i \<noteq> Some (nm, l)"
    and "m < capacity v" "m + 1 < 4096" "2048 * (c + 1) < 4096 * unat (nr_smap_sects sb)"
  obtains s' s'' where "open_file m0 p a (int (length path)) 3 s = Inr (Some 0, s')" "close_file m1 p 0 s' = Inr (Some 0, s'')"
    "idle sb (vol_create sb nm m (m + 1) c v) p s''" "mem_kept s s''"
proof -
  obtain s' where s': "open_file m0 p a (int (length path)) 3 s = Inr (Some 0, s')" "working sb (vol_create sb nm m (m + 1) c v) p (m + 1) 0 s'" "mem_kept s s'"
    using create_step [OF assms, where ?m0.0 = m0] by metis
  obtain s'' where "close_file m1 p 0 s' = Inr (Some 0, s'')" "idle sb (vol_create sb nm m (m + 1) c v) p s''" "mem_kept s' s''"
    using working_close [OF s'(2), where ?m0.0 = m1] by metis
  then show thesis using that s'(1,3) mem_kept_trans by blast
qed

lemma unlink_step:
  assumes "idle sb v p s" and "text_at a (str_bytes path) s" "names (str_bytes path) nm" and "file_in sb v nm n k j" and "no_gap v n"
  obtains s' where "unlink_file m0 p a (int (length path)) s = Inr (Some 0, s')" "idle sb (vol_unlink n j v) p s'" "mem_kept s s'"
  using idle_unlink [OF assms, where ?m0.0 = m0] by (auto simp: str_bytes_def)

lemma new_node_in: "layout sb \<Longrightarrow> 2048 * (j + 1) < 4096 * unat (nr_smap_sects sb) \<Longrightarrow> in_chunk sb (new_node sb k j) j"
  using chunk_start(1) [of sb j] by (simp add: in_chunk_def new_node_def)

lemma nents_dense:
  assumes "vol_ok sb v" and "dense v m c" and "m < capacity v" and "m + 1 < 4096" and "2048 * (c + 1) < 4096 * unat (nr_smap_sects sb)"
  shows "nents (vol_create sb nm m (m + 1) c v) = max (nents v) (m + 1)"
  by (rule nents_create [OF assms(1) dense_place [OF assms(2-5)]])

text \<open>A volume without holes keeps none when a file is created.\<close>

lemma create_dense:
  assumes id: "idle sb v p s" and d: "dense v m c" and n: "nents v = m" and path: "text_at a (str_bytes path) s" "names (str_bytes path) nm"
    and fresh: "\<And>i l. entries v i \<noteq> Some (nm, l)" and room: "m < capacity v" "m + 1 < 4096" "2048 * (c + 1) < 4096 * unat (nr_smap_sects sb)"
  obtains s' s'' where "open_file m0 p a (int (length path)) 3 s = Inr (Some 0, s')" "close_file m1 p 0 s' = Inr (Some 0, s'')"
    "idle sb (vol_create sb nm m (m + 1) c v) p s''" "mem_kept s s''" "dense (vol_create sb nm m (m + 1) c v) (m + 1) (c + 1)"
    "nents (vol_create sb nm m (m + 1) c v) = m + 1"
proof -
  have "vol_ok sb v" using id by (simp add: idle_def stored_def)
  then have n': "nents (vol_create sb nm m (m + 1) c v) = m + 1" using nents_dense [OF _ d room] n by simp
  show thesis
    by (rule create_close_step [OF id d path fresh room, where ?m0.0 = m0 and ?m1.0 = m1]) (rule that [OF _ _ _ _ dense_create [OF d] n'])
qed

lemma nents_resize: "k \<noteq> 1 \<Longrightarrow> nents (vol_resize k w v) = nents v"
  by (simp add: nents_def)

section \<open>The names\<close>

abbreviation "n_blah \<equiv> str_bytes ''blah''"
abbreviation "n_foo \<equiv> str_bytes ''foo''"
abbreviation "n_bar \<equiv> str_bytes ''bar''"
abbreviation "n_baz \<equiv> str_bytes ''baz''"

lemma the_names:
  "names (str_bytes ''blah'') n_blah" "names (str_bytes ''/foo'') n_foo" "names (str_bytes ''/bar'') n_bar" "names (str_bytes ''/baz'') n_baz"
  by (simp_all add: names_def plain_name_def str_bytes_def)

lemma names_differ:
  "n_foo \<noteq> n_blah" "n_bar \<noteq> n_blah" "n_baz \<noteq> n_blah" "n_bar \<noteq> n_foo" "n_baz \<noteq> n_foo" "n_baz \<noteq> n_bar"
  by (simp_all add: str_bytes_def)

lemma names_new: "nm \<in> {n_blah, n_foo, n_bar, n_baz} \<Longrightarrow> entries (fresh_vol sb) i \<noteq> Some (nm, l)"
  using less_4 [of i] by (auto simp: made_name_def tty_name_def str_bytes_def)

section \<open>The volumes of the run\<close>

text \<open>After the four creations, with the size \<open>w\<close> of the first file, and after the three removals.\<close>

definition testa_full :: "super_block \<Rightarrow> volume \<Rightarrow> u32 \<Rightarrow> volume" where
  "testa_full sb v w = vol_create sb n_baz 7 8 4 (vol_create sb n_bar 6 7 3 (vol_create sb n_foo 5 6 2 (vol_resize 5 w (vol_create sb n_blah 4 5 1 v))))"

definition testa_end :: "super_block \<Rightarrow> volume \<Rightarrow> u32 \<Rightarrow> volume" where
  "testa_end sb v w = vol_unlink 7 4 (vol_unlink 5 2 (vol_unlink 6 3 (testa_full sb v w)))"

lemma testa_full_fields:
  "entries (testa_full sb v w) = (entries v)(4 \<mapsto> (n_blah, 5), 5 \<mapsto> (n_foo, 6), 6 \<mapsto> (n_bar, 7), 7 \<mapsto> (n_baz, 8))"
  "nodes (testa_full sb v w) 5 = (new_node sb 5 1)\<lparr>i_size := w\<rparr>" "nodes (testa_full sb v w) 6 = new_node sb 6 2"
  "nodes (testa_full sb v w) 7 = new_node sb 7 3" "nodes (testa_full sb v w) 8 = new_node sb 8 4"
  by (simp_all add: testa_full_def)

lemma testa_removals:
  assumes lay: "layout sb" and ok: "vol_ok sb (testa_full sb v w)" and n: "nents (testa_full sb v w) = 8" and nr: "3 \<le> unat (nr_smap_sects sb)"
    and v: "\<And>i. i < 4 \<Longrightarrow> entries v i \<noteq> None"
  shows "file_in sb (testa_full sb v w) n_bar 6 7 3" and "no_gap (testa_full sb v w) 6"
    and "file_in sb (vol_unlink 6 3 (testa_full sb v w)) n_foo 5 6 2" and "no_gap (vol_unlink 6 3 (testa_full sb v w)) 5"
    and "file_in sb (vol_unlink 5 2 (vol_unlink 6 3 (testa_full sb v w))) n_baz 7 8 4" and "no_gap (vol_unlink 5 2 (vol_unlink 6 3 (testa_full sb v w))) 7"
    and "nents (testa_end sb v w) = 5"
proof -
  let ?v = "testa_full sb v w"
  let ?u1 = "vol_unlink 6 3 ?v"
  let ?u2 = "vol_unlink 5 2 ?u1"
  have chunk: "in_chunk sb (new_node sb k j) j" if "j \<le> 4" for k j using new_node_in [OF lay, of j k] nr that by simp
  have reg: "i_mode (new_node sb k j) = I_REGULAR" for k j by (simp add: new_node_def)
  show f1: "file_in sb ?v n_bar 6 7 3" using chunk [of 3 7] by (simp add: file_in_def testa_full_fields reg)
  show g1: "no_gap ?v 6" using n by (simp add: no_gap_def)
  have ok1: "vol_ok sb ?u1" by (rule vol_unlink_ok [OF ok f1 g1])
  have n1: "nents ?u1 = 8" using nents_unlink(2) [OF ok f1] n by simp
  show f2: "file_in sb ?u1 n_foo 5 6 2" using chunk [of 2 6] by (simp add: file_in_def testa_full_fields reg)
  show g2: "no_gap ?u1 5" using n1 by (simp add: no_gap_def)
  have ok2: "vol_ok sb ?u2" by (rule vol_unlink_ok [OF ok1 f2 g2])
  have n2: "nents ?u2 = 8" using nents_unlink(2) [OF ok1 f2] n1 by simp
  show f3: "file_in sb ?u2 n_baz 7 8 4" using chunk [of 4 8] by (simp add: file_in_def testa_full_fields reg)
  have l7: "[0..<7] = [0, 1, 2, 3, 4, 5, 6 :: nat]" by (simp add: upt_rec)
  have "entries ?u2 0 \<noteq> None" "entries ?u2 1 \<noteq> None" "entries ?u2 2 \<noteq> None" "entries ?u2 3 \<noteq> None" "entries ?u2 4 \<noteq> None" "entries ?u2 5 = None" "entries ?u2 6 = None"
    using v [of 0] v [of 1] v [of 2] v [of 3] by (simp_all add: testa_full_fields del: not_None_eq)
  then have u: "used_before ?u2 7 = 5" unfolding used_before_def l7 by (simp del: not_None_eq vol_unlink_fields)
  have "i < 5" if "i < 7" "entries ?u2 i \<noteq> None" for i
  proof -
    have "i \<noteq> 5" "i \<noteq> 6" using that(2) by (auto simp: testa_full_fields)
    then show ?thesis using that(1) by simp
  qed
  then show "no_gap ?u2 7" using u by (simp add: no_gap_def del: not_None_eq vol_unlink_fields)
  show "nents (testa_end sb v w) = 5" using nents_unlink(2) [OF ok2 f3] n2 u by (simp add: testa_end_def)
qed

section \<open>Its memory\<close>

definition literals_at :: "testa_places \<Rightarrow> fs \<Rightarrow> bool" where
  "literals_at A s \<longleftrightarrow> (\<forall>(a, nm) \<in> set (names_of A @ rnames_of A). text_at a (str_bytes nm) s)"

text \<open>The local arrays, with the byte behind \<^verbatim>\<open>bufr\<close>, lie apart from each other, from the literals and from the buffer of FS.\<close>

definition places_apart :: "testa_places \<Rightarrow> bool" where
  "places_apart A \<longleftrightarrow> disjoint_blocks (a_filename A) 5 (a_bufw A) 6
     \<and> disjoint_blocks (a_filename A) 5 (a_bufr A) 4 \<and> disjoint_blocks (a_bufw A) 6 (a_bufr A) 4
     \<and> disjoint_blocks (a_filename A) 5 fsbuf (2 ^ 20) \<and> disjoint_blocks (a_bufw A) 6 fsbuf (2 ^ 20) \<and> disjoint_blocks (a_bufr A) 4 fsbuf (2 ^ 20)
     \<and> (\<forall>(a, nm) \<in> set (names_of A @ rnames_of A). disjoint_blocks a (length nm) (a_filename A) 5
         \<and> disjoint_blocks a (length nm) (a_bufw A) 6 \<and> disjoint_blocks a (length nm) (a_bufr A) 4)"

lemma text_at_frame:
  assumes "text_at a bs s" and "\<And>x. x \<in> block_addrs a (length bs) \<Longrightarrow> mem t x = mem s x"
  shows "text_at a bs t"
proof -
  have "read_bytes (mem t) a (length bs) = read_bytes (mem s) a (length bs)"
    using assms(2) by (intro nth_equalityI) (auto simp: block_addrs_def)
  then show ?thesis using assms(1) by (simp add: text_at_def)
qed

lemma disjoint_blocks_less: "disjoint_blocks a n b m \<Longrightarrow> n' \<le> n \<Longrightarrow> m' \<le> m \<Longrightarrow> disjoint_blocks a n' b m'"
  using block_addrs_sub [of 0 n' n a] block_addrs_sub [of 0 m' m b] by (auto simp: disjoint_blocks_def)

lemma literals_frame:
  assumes "literals_at A s" and "places_apart A"
    and "\<And>x. x \<notin> block_addrs (a_filename A) 5 \<Longrightarrow> x \<notin> block_addrs (a_bufw A) 6 \<Longrightarrow> x \<notin> block_addrs (a_bufr A) 4 \<Longrightarrow> x \<notin> block_addrs fsbuf (2 ^ 20) \<Longrightarrow> mem t x = mem s x"
  shows "literals_at A t"
proof -
  have "text_at a (str_bytes nm) t" if "(a, nm) \<in> set (names_of A @ rnames_of A)" for a nm
  proof (rule text_at_frame)
    show t: "text_at a (str_bytes nm) s" using assms(1) that by (auto simp: literals_at_def)
    have d: "disjoint_blocks a (length nm) (a_filename A) 5" "disjoint_blocks a (length nm) (a_bufw A) 6" "disjoint_blocks a (length nm) (a_bufr A) 4"
      using assms(2) that unfolding places_apart_def by blast+
    show "mem t x = mem s x" if "x \<in> block_addrs a (length (str_bytes nm))" for x
      using that d t by (intro assms(3)) (auto simp: disjoint_blocks_def text_at_def str_bytes_def)
  qed
  then show ?thesis by (auto simp: literals_at_def)
qed

lemma written_text:
  assumes "disjoint_blocks a (length bs) fsbuf (2 ^ 20)" and "length bs < 128" and "\<And>i. i < length bs \<Longrightarrow> mem s (a + of_nat i) = bs ! i"
  shows "text_at a bs s"
  using assms by (auto simp: text_at_def intro: nth_equalityI)

lemma file_bytes_take: "l \<le> m \<Longrightarrow> file_bytes s n pos l = take l (file_bytes s n pos m)"
  by (simp add: file_bytes_def take_map)

lemma file_bytes_cong: "disk t = disk s \<Longrightarrow> i_start_sect n' = i_start_sect n \<Longrightarrow> file_bytes t n' pos l = file_bytes s n pos l"
  by (simp add: file_bytes_def)

section \<open>The run\<close>

lemma testa_first:
  assumes id: "idle sb v p s" and d: "dense v 4 1" and room: "4 < capacity v" "3 \<le> unat (nr_smap_sects sb)" and fresh: "\<And>i l. entries v i \<noteq> Some (n_blah, l)"
    and nametext: "text_at (a_filename A) n_blah s" and w: "read_bytes (mem s) (a_bufw A) 5 = str_bytes ''abcde''" and ap: "places_apart A"
  obtains s1 s2 s3 s4 s5 s7 u where "open_file (junk 0) p (a_filename A) 4 3 s = Inr (Some 0, s1)" "write_file (junk 1) p 0 (a_bufw A) 5 s1 = Inr (Some 5, s2)"
    "close_file (junk 2) p 0 s2 = Inr (Some 0, s3)" "open_file (junk 3) p (a_filename A) 4 2 s3 = Inr (Some 0, s4)"
    "read_file (junk 4) p 0 (a_bufr A) 3 s4 = Inr (Some 3, s5)" "read_bytes ((mem s5)(a_bufr A + 3 := 0)) (a_bufr A) 4 = str_bytes ''abc'' @ [0]"
    "close_file (junk 5) p 0 (s5\<lparr>mem := (mem s5)(a_bufr A + 3 := 0)\<rparr>) = Inr (Some 0, s7)"
    "idle sb (vol_resize 5 u (vol_create sb n_blah 4 5 1 v)) p s7" "unat u = 5"
    "\<And>x. x \<notin> block_addrs (a_bufr A) 4 \<Longrightarrow> x \<notin> block_addrs fsbuf (2 ^ 20) \<Longrightarrow> mem s7 x = mem s x"
proof -
  note P = ap [unfolded places_apart_def]
  have bw: "disjoint_blocks (a_bufw A) 5 fsbuf (2 ^ 20)" and br: "disjoint_blocks (a_bufr A) 3 fsbuf (2 ^ 20)"
    using P disjoint_blocks_less [of _ _ fsbuf "2 ^ 20"] by auto
  obtain s1 where s1: "open_file (junk 0) p (a_filename A) 4 3 s = Inr (Some 0, s1)" "working sb (vol_create sb n_blah 4 5 1 v) p 5 0 s1" "mem_kept s s1"
    using create_step [OF id d nametext the_names(1) fresh room(1), where ?m0.0 = "junk 0"] room(2) by auto
  let ?v1 = "vol_create sb n_blah 4 5 1 v"
  have sp: "span 0 5 \<le> 256" "span 0 3 \<le> 256" by (simp_all add: span_def)
  obtain s2 u where s2: "write_file (junk 1) p 0 (a_bufw A) (int 5) s1 = Inr (Some (int 5), s2)" "working sb (vol_resize 5 u ?v1) p 5 (0 + 5) s2" "mem_kept s1 s2"
    "unat u = max (unat (i_size (nodes ?v1 5))) (0 + 5)" "file_bytes s2 (nodes ?v1 5) 0 5 = read_bytes (mem s1) (a_bufw A) 5"
    using working_write [OF s1(2) bw _ sp(1), where ?m0.0 = "junk 1"] by auto
  let ?v2 = "vol_resize 5 u ?v1"
  have u: "unat u = 5" using s2(4) by (simp add: new_node_def)
  obtain s3 where s3: "close_file (junk 2) p 0 s2 = Inr (Some 0, s3)" "idle sb ?v2 p s3" "mem_kept s2 s3" "disk s3 = disk s2"
    using working_close [OF s2(2), where ?m0.0 = "junk 2"] by metis
  have k3: "mem_kept s s3" using s1(3) s2(3) s3(3) mem_kept_trans by blast
  have reg: "i_mode (nodes ?v2 5) = I_REGULAR" "entries ?v2 4 = Some (n_blah, 5)" by (simp_all add: new_node_def)
  obtain s4 where s4: "open_file (junk 3) p (a_filename A) 4 2 s3 = Inr (Some 0, s4)" "working sb ?v2 p 5 0 s4" "mem_kept s3 s4" "disk s4 = disk s3"
    using idle_open [OF s3(2) text_at_kept [OF nametext k3] the_names(1) reg(2,1), where ?m0.0 = "junk 3"] by (auto simp: str_bytes_def)
  have "0 + 3 \<le> unat (i_size (nodes ?v2 5))" using u by simp
  then obtain s5 where s5: "read_file (junk 4) p 0 (a_bufr A) (int 3) s4 = Inr (Some (int 3), s5)" "working sb ?v2 p 5 (0 + 3) s5" "disk s5 = disk s4"
    "read_bytes (mem s5) (a_bufr A) 3 = file_bytes s4 (nodes ?v2 5) 0 3"
    and m5: "\<And>x. x \<notin> block_addrs (a_bufr A) 3 \<Longrightarrow> x \<notin> block_addrs fsbuf (2 ^ 20) \<Longrightarrow> mem s5 x = mem s4 x"
    using working_read [OF s4(2) br _ sp(2), where ?m0.0 = "junk 4"] by metis
  have rb: "read_bytes (mem s1) (a_bufw A) 5 = str_bytes ''abcde''"
    unfolding w [symmetric] by (rule read_bytes_cong) (use s1(3) bw in \<open>auto simp: mem_kept_def disjoint_blocks_def\<close>)
  have "file_bytes s4 (nodes ?v2 5) 0 3 = take 3 (file_bytes s2 (nodes ?v1 5) 0 5)"
    using file_bytes_take [of 3 5 s4 "nodes ?v2 5" 0] file_bytes_cong [of s4 s2 "nodes ?v2 5" "nodes ?v1 5" 0 5] s3(4) s4(4) by simp
  then have rd: "read_bytes (mem s5) (a_bufr A) 3 = str_bytes ''abc''" using s5(4) s2(5) rb by (simp add: str_bytes_def)
  let ?m = "(mem s5)(a_bufr A + 3 := 0)"
  have "read_bytes ?m (a_bufr A) 3 = read_bytes (mem s5) (a_bufr A) 3"
  proof (rule read_bytes_cong)
    show "?m x = mem s5 x" if x: "x \<in> block_addrs (a_bufr A) 3" for x
    proof -
      obtain i where i: "i < 3" "x = a_bufr A + of_nat i" using x by (auto simp: block_addrs_def)
      then have "x \<noteq> a_bufr A + 3" using of_nat_u32_inj [of i 3] by simp
      then show ?thesis by simp
    qed
  qed
  then have rtext: "read_bytes ?m (a_bufr A) 4 = str_bytes ''abc'' @ [0]" using read_bytes_snoc [of ?m "a_bufr A" 3] rd by simp
  have w6: "working sb ?v2 p 5 3 (s5\<lparr>mem := ?m\<rparr>)" using working_mem [OF s5(2)] by simp
  obtain s7 where s7: "close_file (junk 5) p 0 (s5\<lparr>mem := ?m\<rparr>) = Inr (Some 0, s7)" "idle sb ?v2 p s7" "mem_kept (s5\<lparr>mem := ?m\<rparr>) s7"
    using working_close [OF w6, where ?m0.0 = "junk 5"] by metis
  have "mem s7 x = mem s x" if x: "x \<notin> block_addrs (a_bufr A) 4" "x \<notin> block_addrs fsbuf (2 ^ 20)" for x
  proof -
    have "a_bufr A + of_nat 3 \<in> block_addrs (a_bufr A) 4" "block_addrs (a_bufr A) 3 \<subseteq> block_addrs (a_bufr A) 4"
      unfolding block_addrs_def by (rule imageI, simp) auto
    then have "x \<noteq> a_bufr A + 3" "x \<notin> block_addrs (a_bufr A) 3" using x(1) by auto
    then have "mem s7 x = mem s4 x" using s7(3) m5 x(2) by (simp add: mem_kept_def)
    also have "\<dots> = mem s x" using mem_kept_trans [OF k3 s4(3)] x(2) by (simp add: mem_kept_def)
    finally show ?thesis .
  qed
  then show thesis using that s1(1) s2(1) s3(1) s4(1) s5(1) rtext s7(1,2) u by simp
qed

lemma literals_kept: "literals_at A s \<Longrightarrow> mem_kept s t \<Longrightarrow> literals_at A t"
  using text_at_kept by (fastforce simp: literals_at_def)

lemma literalsD:
  assumes "literals_at A s"
  shows "text_at (a_foo A) (str_bytes ''/foo'') s" "text_at (a_bar A) (str_bytes ''/bar'') s" "text_at (a_baz A) (str_bytes ''/baz'') s"
    "text_at (r_foo A) (str_bytes ''/foo'') s" "text_at (r_bar A) (str_bytes ''/bar'') s" "text_at (r_baz A) (str_bytes ''/baz'') s"
  using assms by (simp_all add: literals_at_def names_of_def rnames_of_def)

abbreviation "created_lines \<equiv> map (\<lambda>nm. ''File created: '' @ nm @ '' (fd 0)'' @ [NEWLINE]) [''/foo'', ''/bar'', ''/baz'']"
abbreviation "removed_lines \<equiv> map (\<lambda>nm. ''File removed: '' @ nm @ [NEWLINE]) [''/bar'', ''/foo'', ''/baz'']"

lemma testa_creations:
  assumes id: "idle sb (vol_resize 5 u (vol_create sb n_blah 4 5 1 v)) p s" and d: "dense v 4 1"
    and n: "nents (vol_resize 5 u (vol_create sb n_blah 4 5 1 v)) = 5" and room: "7 < capacity v" "3 \<le> unat (nr_smap_sects sb)"
    and fresh: "\<And>nm i l. nm \<in> {n_blah, n_foo, n_bar, n_baz} \<Longrightarrow> entries v i \<noteq> Some (nm, l)" and lit: "literals_at A s"
  obtains s' where "create_files junk p 6 (names_of A) s = Inr (s', created_lines)" "idle sb (testa_full sb v u) p s'" "mem_kept s s'"
    "nents (testa_full sb v u) = 8"
proof -
  let ?v1 = "vol_resize 5 u (vol_create sb n_blah 4 5 1 v)"
  let ?v2 = "vol_create sb n_foo 5 6 2 ?v1"
  let ?v3 = "vol_create sb n_bar 6 7 3 ?v2"
  let ?v4 = "vol_create sb n_baz 7 8 4 ?v3"
  have d1: "dense ?v1 5 2" using dense_create [OF d, of sb n_blah] by (simp add: dense_resize numeral_2_eq_2)
  have f1: "entries ?v1 i \<noteq> Some (n_foo, l)" for i l using fresh [of n_foo i l] names_differ by simp
  have f2: "entries ?v2 i \<noteq> Some (n_bar, l)" for i l using fresh [of n_bar i l] names_differ by simp
  have f3: "entries ?v3 i \<noteq> Some (n_baz, l)" for i l using fresh [of n_baz i l] names_differ by simp
  obtain s1 s2 where s2: "open_file (junk 6) p (a_foo A) 4 3 s = Inr (Some 0, s1)" "close_file (junk 7) p 0 s1 = Inr (Some 0, s2)" "idle sb ?v2 p s2" "mem_kept s s2"
    and d2: "dense ?v2 6 3" "nents ?v2 = 6"
    using create_dense [OF id d1 n literalsD(1) [OF lit] the_names(2) f1, where ?m0.0 = "junk 6" and ?m1.0 = "junk 7"] room by auto
  have lit2: "literals_at A s2" by (rule literals_kept [OF lit s2(4)])
  obtain s3 s4 where s4: "open_file (junk 8) p (a_bar A) 4 3 s2 = Inr (Some 0, s3)" "close_file (junk 9) p 0 s3 = Inr (Some 0, s4)" "idle sb ?v3 p s4" "mem_kept s2 s4"
    and d3: "dense ?v3 7 4" "nents ?v3 = 7"
    using create_dense [OF s2(3) d2 literalsD(2) [OF lit2] the_names(3) f2, where ?m0.0 = "junk 8" and ?m1.0 = "junk 9"] room by auto
  have lit4: "literals_at A s4" by (rule literals_kept [OF lit2 s4(4)])
  obtain s5 s6 where s6: "open_file (junk 10) p (a_baz A) 4 3 s4 = Inr (Some 0, s5)" "close_file (junk 11) p 0 s5 = Inr (Some 0, s6)"
    "idle sb ?v4 p s6" "mem_kept s4 s6" and d4: "dense ?v4 8 5" "nents ?v4 = 8"
    using create_dense [OF s4(3) d3 literalsD(3) [OF lit4] the_names(4) f3, where ?m0.0 = "junk 10" and ?m1.0 = "junk 11"] room by auto
  have t: "printl (''File created: %s (fd %d)'' @ [NEWLINE]) [VStr nm, VInt 0] = Inr (''File created: '' @ nm @ '' (fd 0)'' @ [NEWLINE])"
    if "nm = ''/foo'' \<or> nm = ''/bar'' \<or> nm = ''/baz''" for nm using texts(4) [of nm] that by blast
  have "create_files junk p 6 (names_of A) s = Inr (s6, created_lines)"
    using s2(1,2) s4(1,2) s6(1,2) t by (simp add: names_of_def user_call_def)
  moreover have "mem_kept s s6" using s2(4) s4(4) s6(4) mem_kept_trans by blast
  ultimately show thesis using that s6(3) d4(2) by (simp add: testa_full_def)
qed

lemma testa_deletions:
  assumes id: "idle sb (testa_full sb v u) p s" and n: "nents (testa_full sb v u) = 8" and nr: "3 \<le> unat (nr_smap_sects sb)"
    and v: "\<And>i. i < 4 \<Longrightarrow> entries v i \<noteq> None" and lit: "literals_at A s"
  obtains s' where "remove_files junk p 12 (rnames_of A) s = Inr (s', removed_lines)" "idle sb (testa_end sb v u) p s'"
proof -
  have st: "layout sb" "vol_ok sb (testa_full sb v u)" using id by (simp_all add: idle_def stored_def)
  note R = testa_removals [OF st n nr v]
  obtain s1 where s1: "unlink_file (junk 12) p (r_bar A) 4 s = Inr (Some 0, s1)" "idle sb (vol_unlink 6 3 (testa_full sb v u)) p s1" "mem_kept s s1"
    using unlink_step [OF id literalsD(5) [OF lit] the_names(3) R(1,2), where ?m0.0 = "junk 12"] by auto
  have lit1: "literals_at A s1" by (rule literals_kept [OF lit s1(3)])
  obtain s2 where s2: "unlink_file (junk 13) p (r_foo A) 4 s1 = Inr (Some 0, s2)" "idle sb (vol_unlink 5 2 (vol_unlink 6 3 (testa_full sb v u))) p s2" "mem_kept s1 s2"
    using unlink_step [OF s1(2) literalsD(4) [OF lit1] the_names(2) R(3,4), where ?m0.0 = "junk 13"] by auto
  have lit2: "literals_at A s2" by (rule literals_kept [OF lit1 s2(3)])
  obtain s3 where s3: "unlink_file (junk 14) p (r_baz A) 4 s2 = Inr (Some 0, s3)" "idle sb (testa_end sb v u) p s3"
    using unlink_step [OF s2(2) literalsD(6) [OF lit2] the_names(4) R(5,6), where ?m0.0 = "junk 14"] by (auto simp: testa_end_def)
  have t: "printl (''File removed: %s'' @ [NEWLINE]) [VStr nm] = Inr (''File removed: '' @ nm @ [NEWLINE])"
    if "nm = ''/foo'' \<or> nm = ''/bar'' \<or> nm = ''/baz''" for nm using texts(5) [of nm] that by blast
  have "remove_files junk p 12 (rnames_of A) s = Inr (s3, removed_lines)"
    using s1(1) s2(1) s3(1) t by (simp add: rnames_of_def user_call_def)
  then show thesis using that s3(2) by blast
qed

text \<open>The arrays on the stack when the program starts.\<close>

lemma testa_start:
  fixes s :: fs
  assumes "places_apart A" and "literals_at A s"
  defines "t \<equiv> s\<lparr>mem := write_bytes (write_bytes (mem s) (a_filename A) (c_bytes ''blah'')) (a_bufw A) (c_bytes ''abcde'')\<rparr>"
  shows "text_at (a_filename A) n_blah t" and "read_bytes (mem t) (a_bufw A) 5 = str_bytes ''abcde''" and "literals_at A t"
proof -
  note P = assms(1) [unfolded places_apart_def]
  have len: "length (c_bytes ''blah'') = 5" "length (c_bytes ''abcde'') = 6" "length n_blah = 4" by (simp_all add: c_bytes_def str_bytes_def)
  have out: "mem t x = mem s x" if "x \<notin> block_addrs (a_filename A) 5" "x \<notin> block_addrs (a_bufw A) 6" for x
    using that len by (simp add: t_def write_bytes_outside)
  show "literals_at A t" by (rule literals_frame [OF assms(2,1)]) (rule out)
  have "disjoint_blocks (a_bufw A) (length (c_bytes ''abcde'')) (a_filename A) 5" using P len by (auto simp: disjoint_blocks_def)
  then have "read_bytes (mem t) (a_filename A) 5 = c_bytes ''blah''"
    using read_write_bytes [of "c_bytes ''blah''" "mem s" "a_filename A"] len by (simp add: t_def read_write_bytes_other)
  then have "read_bytes (mem t) (a_filename A) 4 @ [mem t (a_filename A + 4)] = n_blah @ [0]"
    using read_bytes_snoc [of "mem t" "a_filename A" 4] by (simp add: c_bytes_def)
  then have "read_bytes (mem t) (a_filename A) 4 = n_blah" by simp
  moreover have "disjoint_blocks (a_filename A) 4 fsbuf (2 ^ 20)" using P disjoint_blocks_less [of "a_filename A" 5 fsbuf "2 ^ 20" 4 "2 ^ 20"] by simp
  ultimately show "text_at (a_filename A) n_blah t" by (simp add: text_at_def len)
  have "read_bytes (mem t) (a_bufw A) 6 = c_bytes ''abcde''"
    using read_write_bytes [of "c_bytes ''abcde''" _ "a_bufw A"] len by (simp add: t_def)
  then show "read_bytes (mem t) (a_bufw A) 5 = str_bytes ''abcde''" using read_bytes_snoc [of "mem t" "a_bufw A" 5] by (simp add: c_bytes_def)
qed

abbreviation "testa_lines \<equiv>
  [''File created. fd: 0'' @ [NEWLINE], ''File opened. fd: 0'' @ [NEWLINE], ''3 bytes read: abc'' @ [NEWLINE]] @ created_lines @ removed_lines"

lemma testa_ok:
  assumes id: "idle sb v p s" and d: "dense v 4 1" and n: "nents v = 4" and room: "7 < capacity v" "3 \<le> unat (nr_smap_sects sb)"
    and fresh: "\<And>nm i l. nm \<in> {n_blah, n_foo, n_bar, n_baz} \<Longrightarrow> entries v i \<noteq> Some (nm, l)" and lit: "literals_at A s" and ap: "places_apart A"
  obtains s' u where "TestA junk p A s = Inr (s', testa_lines)" "idle sb (testa_end sb v u) p s'" "unat u = 5"
    "nents (testa_end sb v u) = 5"
proof -
  let ?s0 = "s\<lparr>mem := write_bytes (write_bytes (mem s) (a_filename A) (c_bytes ''blah'')) (a_bufw A) (c_bytes ''abcde'')\<rparr>"
  note S = testa_start [OF ap lit]
  have v4: "entries v i \<noteq> None" if "i < 4" for i using d that by (simp add: dense_def del: not_None_eq)
  have room4: "4 < capacity v" using room(1) by simp
  have fr: "entries v i \<noteq> Some (n_blah, l)" for i l using fresh by blast
  obtain s1 s2 s3 s4 s5 s7 u where r: "open_file (junk 0) p (a_filename A) 4 3 ?s0 = Inr (Some 0, s1)" "write_file (junk 1) p 0 (a_bufw A) 5 s1 = Inr (Some 5, s2)"
    "close_file (junk 2) p 0 s2 = Inr (Some 0, s3)" "open_file (junk 3) p (a_filename A) 4 2 s3 = Inr (Some 0, s4)"
    "read_file (junk 4) p 0 (a_bufr A) 3 s4 = Inr (Some 3, s5)" "read_bytes ((mem s5)(a_bufr A + 3 := 0)) (a_bufr A) 4 = str_bytes ''abc'' @ [0]"
    "close_file (junk 5) p 0 (s5\<lparr>mem := (mem s5)(a_bufr A + 3 := 0)\<rparr>) = Inr (Some 0, s7)"
    "idle sb (vol_resize 5 u (vol_create sb n_blah 4 5 1 v)) p s7" "unat u = 5"
    and m7: "\<And>x. x \<notin> block_addrs (a_bufr A) 4 \<Longrightarrow> x \<notin> block_addrs fsbuf (2 ^ 20) \<Longrightarrow> mem s7 x = mem ?s0 x"
    by (rule testa_first [OF idle_mem [OF id] d room4 room(2) fr S(1,2) ap, where junk = junk]) (rule that)
  have lit7: "literals_at A s7" by (rule literals_frame [OF S(3) ap]) (rule m7)
  have d1: "dense (vol_resize 5 u (vol_create sb n_blah 4 5 1 v)) 5 2" using dense_create [OF d, of sb n_blah] by (simp add: dense_resize numeral_2_eq_2)
  have "vol_ok sb v" using id by (simp add: idle_def stored_def)
  then have n1: "nents (vol_resize 5 u (vol_create sb n_blah 4 5 1 v)) = 5" using nents_dense [OF _ d room4, where nm = n_blah and sb = sb] room(2) n by (simp add: nents_resize)
  have room8: "7 < capacity v" "3 \<le> unat (nr_smap_sects sb)" using room .
  obtain s8 where s8: "create_files junk p 6 (names_of A) s7 = Inr (s8, created_lines)" "idle sb (testa_full sb v u) p s8" "mem_kept s7 s8"
    and n8: "nents (testa_full sb v u) = 8"
    by (rule testa_creations [OF r(8) d n1 room8 fresh lit7, where junk = junk]) (assumption, rule that)
  obtain s9 where s9: "remove_files junk p 12 (rnames_of A) s8 = Inr (s9, removed_lines)" "idle sb (testa_end sb v u) p s9"
    using testa_deletions [OF s8(2) n8 room(2) v4 literals_kept [OF lit7 s8(3)], where junk = junk] by metis
  have "layout sb" "vol_ok sb (testa_full sb v u)" using s8(2) by (simp_all add: idle_def stored_def)
  then have n5: "nents (testa_end sb v u) = 5" by (rule testa_removals(7) [OF _ _ n8 room(2) v4])
  have abc: "map (\<lambda>b. char_of (unat b)) (takeWhile (\<lambda>b. b \<noteq> 0) (str_bytes ''abc'' @ [0 :: u8])) = ''abc''" by (simp add: str_bytes_def char_of_def bit_0)
  have nn: "nat (3 :: int) + 1 = 4" by simp
  have "TestA junk p A s = Inr (s9, testa_lines)"
    unfolding TestA_def Let_def using r(1-5,7) s8(1) s9(1) texts(1-3)
    by (simp add: user_call_def r(6) abc nn del: append.simps)
  then show thesis using that s9(2) r(9) n5 by blast
qed

end
