(* ===== verification/Named_Files.thy ===== *)
theory Named_Files
  imports User_Programs
begin

text \<open>
  What the library promises about named files: creating and removing a file do on the disk exactly what they do to the abstract volume, a
  file written and closed is read back by its name, the test program \<open>TestA\<close> passes, and where removing a file loses others.
\<close>

section \<open>Instances\<close>

text \<open>A disk of 10000 sectors just formatted, and a process with four texts in its memory, from 0x10030 on, 16 bytes apart.\<close>

abbreviation demo_geo :: part_info where
  "demo_geo \<equiv> \<lparr>part_base = 0x3F, part_size = 10000\<rparr>"

abbreviation demo_super :: super_block where
  "demo_super \<equiv> (mkfs_sb demo_geo)\<lparr>sb_dev := ROOT_DEV\<rparr>"

abbreviation demo_vol :: volume where
  "demo_vol \<equiv> fresh_vol (mkfs_sb demo_geo)"

definition demo_texts :: memory where
  "demo_texts = write_bytes (write_bytes (write_bytes (write_bytes (\<lambda>_. 0) 0x10030 (str_bytes ''/foo'')) 0x10040 (str_bytes ''/bar'')) 0x10050 (str_bytes ''/baz''))
     0x10060 n_blah"

lemma apart_ranges:
  assumes "unat a + n \<le> unat b" and "unat b + m < 2 ^ 32"
  shows "disjoint_blocks a n b m" and "disjoint_blocks b m a n"
proof -
  show "disjoint_blocks a n b m" using assms by (rule range_disjoint)
  then show "disjoint_blocks b m a n" by (rule disjoint_blocks_sym)
qed

lemma demo_texts_at:
  "read_bytes demo_texts 0x10030 4 = str_bytes ''/foo''" "read_bytes demo_texts 0x10040 4 = str_bytes ''/bar''"
  "read_bytes demo_texts 0x10050 4 = str_bytes ''/baz''" "read_bytes demo_texts 0x10060 4 = n_blah"
proof -
  have l: "length (str_bytes ''/foo'') = 4" "length (str_bytes ''/bar'') = 4" "length (str_bytes ''/baz'') = 4" "length n_blah = 4" by (simp_all add: str_bytes_def)
  have d: "disjoint_blocks (0x10040 :: u32) 4 0x10030 4" "disjoint_blocks (0x10050 :: u32) 4 0x10030 4" "disjoint_blocks (0x10050 :: u32) 4 0x10040 4"
    "disjoint_blocks (0x10060 :: u32) 4 0x10030 4" "disjoint_blocks (0x10060 :: u32) 4 0x10040 4" "disjoint_blocks (0x10060 :: u32) 4 0x10050 4"
    by (rule apart_ranges(2); simp)+
  note w = read_write_bytes [of "str_bytes ''/foo''" _ "0x10030"] read_write_bytes [of "str_bytes ''/bar''" _ "0x10040"]
    read_write_bytes [of "str_bytes ''/baz''" _ "0x10050"] read_write_bytes [of n_blah _ "0x10060"]
  show "read_bytes demo_texts 0x10030 4 = str_bytes ''/foo''" "read_bytes demo_texts 0x10040 4 = str_bytes ''/bar''"
    "read_bytes demo_texts 0x10050 4 = str_bytes ''/baz''" "read_bytes demo_texts 0x10060 4 = n_blah"
    using w d l by (simp_all add: demo_texts_def read_write_bytes_other)
qed

lemma demo_text_at:
  fixes s :: fs
  shows "text_at 0x10030 (str_bytes ''/foo'') (s\<lparr>mem := demo_texts\<rparr>)" "text_at 0x10040 (str_bytes ''/bar'') (s\<lparr>mem := demo_texts\<rparr>)"
    "text_at 0x10050 (str_bytes ''/baz'') (s\<lparr>mem := demo_texts\<rparr>)" "text_at 0x10060 n_blah (s\<lparr>mem := demo_texts\<rparr>)"
proof -
  have l: "length (str_bytes ''/foo'') = 4" "length (str_bytes ''/bar'') = 4" "length (str_bytes ''/baz'') = 4" "length n_blah = 4" by (simp_all add: str_bytes_def)
  have f: "disjoint_blocks (0x10030 :: u32) 4 fsbuf (2 ^ 20)" "disjoint_blocks (0x10040 :: u32) 4 fsbuf (2 ^ 20)" "disjoint_blocks (0x10050 :: u32) 4 fsbuf (2 ^ 20)"
    "disjoint_blocks (0x10060 :: u32) 4 fsbuf (2 ^ 20)"
    by (rule apart_ranges(1); simp add: fsbuf_def)+
  show "text_at 0x10030 (str_bytes ''/foo'') (s\<lparr>mem := demo_texts\<rparr>)" "text_at 0x10040 (str_bytes ''/bar'') (s\<lparr>mem := demo_texts\<rparr>)"
    "text_at 0x10050 (str_bytes ''/baz'') (s\<lparr>mem := demo_texts\<rparr>)" "text_at 0x10060 n_blah (s\<lparr>mem := demo_texts\<rparr>)"
    using f demo_texts_at by (simp_all add: text_at_def l)
qed

lemma demo_map_sectors: "unat (nr_smap_sects demo_super) = 3"
  using mkfs_sb_layout(1) [of demo_geo] by simp

lemma demo_idle:
  obtains s where "init_fs demo_geo fs_demo = Inr s" "idle demo_super demo_vol 6 s"
proof -
  have "filp (proc_of fs_demo 6) = no_files" using booted_fresh(5) [of 6] by (simp add: fresh_proc_def)
  then show thesis using fresh_idle [of fs_demo demo_geo 6] that by auto
qed

lemma demo_room: "j \<le> 4 \<Longrightarrow> 2048 * (j + 1) < 4096 * unat (nr_smap_sects demo_super)"
proof -
  assume j: "j \<le> 4"
  show ?thesis unfolding demo_map_sectors using j by simp
qed

text \<open>The process on the fresh disk, and the same after it has created \<^verbatim>\<open>/foo\<close>.\<close>

definition demo_here :: "fs \<Rightarrow> bool" where
  "demo_here s \<longleftrightarrow> text_at 0x10030 (str_bytes ''/foo'') s \<and> text_at 0x10040 (str_bytes ''/bar'') s \<and> text_at 0x10050 (str_bytes ''/baz'') s \<and> text_at 0x10060 n_blah s"

lemma demo_here_kept: "demo_here s \<Longrightarrow> mem_kept s t \<Longrightarrow> demo_here t"
  using text_at_kept by (auto simp: demo_here_def)

lemma demo_state:
  obtains s where "idle demo_super demo_vol 6 s" "demo_here s"
proof -
  obtain s where s: "init_fs demo_geo fs_demo = Inr s" "idle demo_super demo_vol 6 s" by (rule demo_idle)
  have "idle demo_super demo_vol 6 (s\<lparr>mem := demo_texts\<rparr>)" using s(2) by (rule idle_mem)
  moreover have "demo_here (s\<lparr>mem := demo_texts\<rparr>)" unfolding demo_here_def using demo_text_at by blast
  ultimately show thesis by (rule that)
qed

lemma demo_path: "idle sb v p s \<Longrightarrow> text_at a path s \<Longrightarrow> path_at p a path s"
  unfolding idle_def using text_at_path by blast

lemma demo_step:
  assumes id: "idle demo_super v 6 s" and h: "demo_here s" and d: "dense v m c" "nents v = m" and a: "text_at a (str_bytes path) s" "names (str_bytes path) nm"
    and fresh: "\<And>i l. entries v i \<noteq> Some (nm, l)" and room: "capacity v = 32" "m < 9" "c \<le> 4"
  obtains s' where "idle demo_super (vol_create demo_super nm m (m + 1) c v) 6 s'" "demo_here s'"
    "dense (vol_create demo_super nm m (m + 1) c v) (m + 1) (c + 1)" "nents (vol_create demo_super nm m (m + 1) c v) = m + 1"
proof -
  have r: "m < capacity v" "m + 1 < 4096" using room by simp_all
  obtain s1 s2 where "idle demo_super (vol_create demo_super nm m (m + 1) c v) 6 s2" "mem_kept s s2" "dense (vol_create demo_super nm m (m + 1) c v) (m + 1) (c + 1)"
    "nents (vol_create demo_super nm m (m + 1) c v) = m + 1"
    by (rule create_dense [OF id d a fresh r demo_room [OF room(3)], where ?m0.0 = blank_msg and ?m1.0 = blank_msg]) (rule that)
  then show thesis using that demo_here_kept [OF h] by blast
qed

lemma demo_foo:
  obtains s where "idle demo_super (vol_create demo_super n_foo 4 5 1 demo_vol) 6 s" "demo_here s"
    "dense (vol_create demo_super n_foo 4 5 1 demo_vol) 5 2" "nents (vol_create demo_super n_foo 4 5 1 demo_vol) = 5"
proof -
  obtain s where s: "idle demo_super demo_vol 6 s" "demo_here s" by (rule demo_state)
  have f: "entries demo_vol i \<noteq> Some (n_foo, l)" for i l using names_new [of n_foo] by blast
  have h: "text_at 0x10030 (str_bytes ''/foo'') s" using s(2) by (simp add: demo_here_def)
  obtain s' where "idle demo_super (vol_create demo_super n_foo 4 (4 + 1) 1 demo_vol) 6 s'" "demo_here s'"
    "dense (vol_create demo_super n_foo 4 (4 + 1) 1 demo_vol) (4 + 1) (1 + 1)" "nents (vol_create demo_super n_foo 4 (4 + 1) 1 demo_vol) = 4 + 1"
    by (rule demo_step [OF s dense_fresh fresh_nents h the_names(2) f]) (simp, simp, simp, rule that)
  then show thesis using that by (simp add: numeral_2_eq_2)
qed

section \<open>Creating a file\<close>

text \<open>
  C7: On a volume the disk represents, \<^verbatim>\<open>open\<close> with \<^verbatim>\<open>O_CREAT\<close> of a name that is not there, through the library and the dispatcher, returns the
  caller's first free number and adds to the volume exactly this file: the first free entry with the name and the first free i-node number, a new
  empty regular file in the first free chunk of 2048 sectors, the directory grown when no entry was free. The number leads by way of the first free descriptor, at position 0,
  to the new i-node; no byte of any file's data and none of any other device changes.
\<close>

theorem create_call_correct:
  assumes "stored sb v s" and "path_at p addr path s" and "names path nm" and "word_of_int flags AND O_CREAT \<noteq> 0" and "free_places s p fd i"
    and "\<And>m l. entries v m \<noteq> Some (nm, l)" and "first_free_place sb v n k j"
  shows "\<exists>q s'. open_file m0 p addr (int (length path)) flags s = Inr (Some (int fd), s') \<and> stored sb (vol_create sb nm n k j v) s'
    \<and> opened s p fd i q flags s' \<and> inode_of s' q = new_node sb k j
    \<and> (\<forall>d x. d \<noteq> ROOT_DEV \<or> (unat (n_1st_sect sb) + 2048) * 512 \<le> x \<longrightarrow> disk s' d x = disk s d x)"
proof -
  obtain q s' where s': "open_file m0 p addr (int (length path)) flags s = Inr (Some (int fd), s')" "stored sb (vol_create sb nm n k j v) s'" "opened s p fd i q flags s'"
    "q < NR_INODE" "i_cnt (inode_of s q) = 0" "inode_table s' = (inode_table s)[q := new_node sb k j, root_inode s := grown (n < nents v) (inode_of s (root_inode s))]"
    "\<And>d x. d \<noteq> ROOT_DEV \<or> (unat (n_1st_sect sb) + 2048) * 512 \<le> x \<Longrightarrow> disk s' d x = disk s d x"
    using create_call [OF assms(1-7), where ?m0.0 = m0] by metis
  have c: "cached v (root_inode s) (inode_table s)" using assms(1) by (simp add: stored_def)
  have "q \<noteq> root_inode s" using s'(5) cachedD(6) [OF c] by auto
  then have "inode_of s' q = new_node sb k j" using s'(4,6) cachedD(1,2) [OF c] by simp
  then show ?thesis using s' by blast
qed

theorem create_call_correct_witness:
  "\<exists>s q s'. open_file blank_msg 6 0x10030 4 3 s = Inr (Some 0, s') \<and> stored demo_super (vol_create demo_super n_foo 4 5 1 demo_vol) s'
    \<and> inode_of s' q = new_node demo_super 5 1"
proof -
  obtain s where s: "idle demo_super demo_vol 6 s" "demo_here s" by (rule demo_state)
  have st: "stored demo_super demo_vol s" using s(1) by (simp add: idle_def)
  have pa: "path_at 6 0x10030 (str_bytes ''/foo'') s" using demo_path [OF s(1)] s(2) by (simp add: demo_here_def)
  have fl: "word_of_int 3 AND O_CREAT \<noteq> (0 :: u32)" by (simp add: const_simps)
  have f: "entries demo_vol i \<noteq> Some (n_foo, l)" for i l using names_new [of n_foo] by blast
  have pl: "first_free_place demo_super demo_vol 4 5 1" using dense_place [OF dense_fresh _ _ demo_room [of 1]] by simp
  show ?thesis
    using create_call_correct [OF st pa the_names(2) fl idle_places [OF s(1)] f pl, where ?m0.0 = blank_msg] by (simp add: str_bytes_def) blast
qed

section \<open>Removing a file\<close>

text \<open>
  C8: \<^verbatim>\<open>unlink\<close> of a regular file that nobody has open returns 0 and takes exactly this file out of the volume: its entry, its i-node number
  and its chunk are free again, every other file, the processes and the descriptors are unchanged. When the entry is the last one, the directory shrinks
  to the number of used entries before it, which must be the first ones.
\<close>

theorem unlink_call_correct:
  assumes "stored sb v s" and "path_at p addr path s" and "names path nm" and "file_in sb v nm n k j" and "no_gap v n"
    and "\<And>i. i < NR_INODE \<Longrightarrow> i_cnt (inode_of s i) \<noteq> 0 \<Longrightarrow> i_num (inode_of s i) \<noteq> int k" and "\<exists>q < NR_INODE. i_cnt (inode_of s q) = 0"
  shows "\<exists>s' r. unlink_file m0 p addr (int (length path)) s = Inr (Some 0, s') \<and> stored sb (vol_unlink n j v) s' \<and> proc_table s' = proc_table s
    \<and> f_desc_table s' = f_desc_table s \<and> fs_sent s' = fs_sent s @ [FsReply (int p) r]
    \<and> (\<forall>d x. d \<noteq> ROOT_DEV \<or> (unat (n_1st_sect sb) + 2048) * 512 \<le> x \<longrightarrow> disk s' d x = disk s d x)"
  using unlink_call [OF assms(1-7), where ?m0.0 = m0] by metis

theorem unlink_call_correct_witness:
  "\<exists>s s'. entries (vol_create demo_super n_foo 4 5 1 demo_vol) 4 = Some (n_foo, 5) \<and> unlink_file blank_msg 6 0x10030 4 s = Inr (Some 0, s')
    \<and> stored demo_super (vol_unlink 4 1 (vol_create demo_super n_foo 4 5 1 demo_vol)) s'"
proof -
  let ?v = "vol_create demo_super n_foo 4 5 1 demo_vol"
  obtain s where s: "idle demo_super ?v 6 s" "demo_here s" "dense ?v 5 2" "nents ?v = 5" by (rule demo_foo)
  have st: "stored demo_super ?v s" using s(1) by (simp add: idle_def)
  have pa: "path_at 6 0x10030 (str_bytes ''/foo'') s" using demo_path [OF s(1)] s(2) by (simp add: demo_here_def)
  have f: "file_in demo_super ?v n_foo 4 5 1"
    using new_node_in [OF _ demo_room [of 1], of 5] st by (simp add: file_in_def stored_def) (simp add: new_node_def)
  have l4: "[0..<4] = [0, 1, 2, 3 :: nat]" by (simp add: upt_rec)
  have "used_before ?v 4 = 4" unfolding used_before_def l4 using s(3) by (simp add: dense_def del: not_None_eq vol_create_fields)
  then have g: "no_gap ?v 4" by (simp add: no_gap_def del: not_None_eq)
  show ?thesis
    using unlink_call_correct [OF st pa the_names(2) f g idle_closed(1) [OF s(1) f] idle_closed(2) [OF s(1) f], where ?m0.0 = blank_msg] f
    by (simp add: str_bytes_def) blast
qed

text \<open>Four files after \<^verbatim>\<open>tty2\<close>, the first two removed again: the last two stand behind two free entries.\<close>

abbreviation demo_four :: volume where
  "demo_four \<equiv> vol_create demo_super n_blah 7 8 4 (vol_create demo_super n_baz 6 7 3 (vol_create demo_super n_bar 5 6 2 (vol_create demo_super n_foo 4 5 1 demo_vol)))"

abbreviation demo_holes :: volume where
  "demo_holes \<equiv> vol_unlink 5 2 (vol_unlink 4 1 demo_four)"

lemma demo_created:
  obtains s where "idle demo_super demo_four 6 s" "demo_here s" "nents demo_four = 8"
proof -
  let ?v1 = "vol_create demo_super n_foo 4 5 1 demo_vol"
  let ?v2 = "vol_create demo_super n_bar 5 6 2 ?v1"
  let ?v3 = "vol_create demo_super n_baz 6 7 3 ?v2"
  obtain s1 where s1: "idle demo_super ?v1 6 s1" "demo_here s1" "dense ?v1 5 2" "nents ?v1 = 5" by (rule demo_foo)
  have new: "entries demo_vol i \<noteq> Some (nm, l)" if "nm \<in> {n_blah, n_foo, n_bar, n_baz}" for nm i l using names_new [OF that] .
  have f1: "entries ?v1 i \<noteq> Some (n_bar, l)" for i l using new [of n_bar i l] names_differ by simp
  have f2: "entries ?v2 i \<noteq> Some (n_baz, l)" for i l using new [of n_baz i l] names_differ by simp
  have f3: "entries ?v3 i \<noteq> Some (n_blah, l)" for i l using new [of n_blah i l] names_differ by simp
  have h1: "text_at 0x10040 (str_bytes ''/bar'') s1" using s1(2) by (simp add: demo_here_def)
  obtain s2 where s2: "idle demo_super ?v2 6 s2" "demo_here s2" "dense ?v2 6 3" "nents ?v2 = 6"
    using demo_step [OF s1 h1 the_names(3) f1] by auto
  have h2: "text_at 0x10050 (str_bytes ''/baz'') s2" using s2(2) by (simp add: demo_here_def)
  obtain s3 where s3: "idle demo_super ?v3 6 s3" "demo_here s3" "dense ?v3 7 4" "nents ?v3 = 7"
    using demo_step [OF s2 h2 the_names(4) f2] by auto
  have h3: "text_at 0x10060 (str_bytes ''blah'') s3" using s3(2) by (simp add: demo_here_def)
  obtain s4 where "idle demo_super demo_four 6 s4" "demo_here s4" "nents demo_four = 8"
    using demo_step [OF s3 h3 the_names(1) f3] by auto
  then show thesis using that by simp
qed

lemma demo_with_holes:
  obtains s where "idle demo_super demo_holes 6 s" "demo_here s" "nents demo_holes = 8"
proof -
  obtain s where s: "idle demo_super demo_four 6 s" "demo_here s" "nents demo_four = 8" by (rule demo_created)
  have v: "vol_ok demo_super demo_four" "layout demo_super" using s(1) by (simp_all add: idle_def stored_def)
  have chunk: "in_chunk demo_super (new_node demo_super k j) j" if "j \<le> 4" for k j by (rule new_node_in [OF v(2) demo_room [OF that]])
  have reg: "i_mode (new_node demo_super k j) = I_REGULAR" for k j by (simp add: new_node_def)
  have f1: "file_in demo_super demo_four n_foo 4 5 1" using chunk [of 1 5] by (simp add: file_in_def reg)
  have g1: "no_gap demo_four 4" using s(3) by (simp add: no_gap_def)
  have t: "text_at 0x10030 (str_bytes ''/foo'') s" "text_at 0x10040 (str_bytes ''/bar'') s" using s(2) by (simp_all add: demo_here_def)
  let ?u = "vol_unlink 4 1 demo_four"
  have u: "nents ?u = 8" "vol_ok demo_super ?u" using nents_unlink(2) [OF v(1) f1] s(3) vol_unlink_ok [OF v(1) f1 g1] by simp_all
  have f2: "file_in demo_super ?u n_bar 5 6 2" using chunk [of 2 6] by (simp add: file_in_def reg)
  have g2: "no_gap ?u 5" using u(1) by (simp add: no_gap_def)
  obtain s1 where s1: "idle demo_super ?u 6 s1" "mem_kept s s1"
    by (rule unlink_step [OF s(1) t(1) the_names(2) f1 g1, where ?m0.0 = blank_msg]) (rule that)
  obtain s2 where s2: "idle demo_super demo_holes 6 s2" "mem_kept s1 s2"
    by (rule unlink_step [OF s1(1) text_at_kept [OF t(2) s1(2)] the_names(3) f2 g2, where ?m0.0 = blank_msg]) (rule that)
  have "nents demo_holes = 8" using nents_unlink(2) [OF u(2) f2] u(1) by simp
  then show thesis using that s2(1) demo_here_kept [OF demo_here_kept [OF s(2) s1(2)] s2(2)] by simp
qed

text \<open>
  C39: Removing the last entry of the directory sets its size to the number of used entries before it, although free ones may lie between them. Then a file whose entry lies
  behind that number is lost: \<^verbatim>\<open>unlink\<close> of another file returns 0, and the file is not found any more, while its entry still stands on the disk.
\<close>

theorem unlink_loses_files:
  assumes "stored sb v s" and "path_at p addr path s" and "names path nm" and "file_in sb v nm n k j" and "n + 1 = nents v"
    and "\<And>i. i < NR_INODE \<Longrightarrow> i_cnt (inode_of s i) \<noteq> 0 \<Longrightarrow> i_num (inode_of s i) \<noteq> int k" and "\<exists>q < NR_INODE. i_cnt (inode_of s q) = 0"
    and "entries v m = Some (nm', l)" and "m \<noteq> n" and "used_before v n < m" and "names path' nm'"
  shows "\<exists>s' t. unlink_file m0 p addr (int (length path)) s = Inr (Some 0, s') \<and> search_file path' s' = Inr (0, t)
    \<and> (\<forall>i < 12. disk s' ROOT_DEV (unat (n_1st_sect sb) * 512 + m * 16 + 4 + i) = pad_name nm' ! i)"
proof -
  obtain s' t where s': "unlink_file m0 p addr (int (length path)) s = Inr (Some 0, s')" "on_disk sb (vol_unlink n j v) (disk s')" "search_file path' s' = Inr (0, t)"
    using unlink_cuts_off [OF assms, where ?m0.0 = m0] by metis
  have v: "vol_ok sb v" using assms(1) by (simp add: stored_def)
  have "m < capacity v" using vol_okD(1) [OF v assms(8)] vol_okD(5) [OF v] by linarith
  moreover have "slot_name (vol_unlink n j v) m = pad_name nm'" using assms(8,9) by (simp add: slot_name_def)
  ultimately have "\<forall>i < 12. disk s' ROOT_DEV (unat (n_1st_sect sb) * 512 + m * 16 + 4 + i) = pad_name nm' ! i"
    using s'(2) by (simp add: on_disk_def)
  then show ?thesis using s'(1,3) by blast
qed

text \<open>Removing \<^verbatim>\<open>blah\<close>, the last entry, loses \<^verbatim>\<open>/baz\<close>.\<close>

theorem unlink_loses_files_witness:
  "\<exists>s s' t. idle demo_super demo_holes 6 s \<and> unlink_file blank_msg 6 0x10060 4 s = Inr (Some 0, s') \<and> search_file (str_bytes ''/baz'') s' = Inr (0, t)"
proof -
  obtain s where s: "idle demo_super demo_holes 6 s" "demo_here s" "nents demo_holes = 8" by (rule demo_with_holes)
  have st: "stored demo_super demo_holes s" using s(1) by (simp add: idle_def)
  have pa: "path_at 6 0x10060 (str_bytes ''blah'') s" using demo_path [OF s(1)] s(2) by (simp add: demo_here_def)
  have "in_chunk demo_super (new_node demo_super 8 4) 4" using new_node_in [OF _ demo_room [of 4]] st by (simp add: stored_def)
  then have f: "file_in demo_super demo_holes n_blah 7 8 4" by (simp add: file_in_def) (simp add: new_node_def)
  have l7: "[0..<7] = [0, 1, 2, 3, 4, 5, 6 :: nat]" by (simp add: upt_rec)
  have e: "entries demo_holes i = (if i < 4 then Some (made_name i, i + 1) else if i = 6 then Some (n_baz, 7) else None)" if "i < 7" for i
    using that by simp
  have "entries demo_holes 0 \<noteq> None" "entries demo_holes 1 \<noteq> None" "entries demo_holes 2 \<noteq> None" "entries demo_holes 3 \<noteq> None"
    "entries demo_holes 4 = None" "entries demo_holes 5 = None" "entries demo_holes 6 \<noteq> None" by (simp_all add: e)
  then have ub: "used_before demo_holes 7 = 5" unfolding used_before_def l7 by (simp del: not_None_eq vol_unlink_fields vol_create_fields)
  have last: "7 + 1 = nents demo_holes" using s(3) by simp
  have six: "entries demo_holes 6 = Some (n_baz, 7)" using e [of 6] by simp
  have lt: "used_before demo_holes 7 < 6" using ub by simp
  have "\<exists>s' t. unlink_file blank_msg 6 0x10060 (int (length (str_bytes ''blah''))) s = Inr (Some 0, s') \<and> search_file (str_bytes ''/baz'') s' = Inr (0, t)
      \<and> (\<forall>i < 12. disk s' ROOT_DEV (unat (n_1st_sect demo_super) * 512 + 6 * 16 + 4 + i) = pad_name n_baz ! i)"
    by (rule unlink_loses_files [OF st pa the_names(1) f last idle_closed(1) [OF s(1) f] idle_closed(2) [OF s(1) f] six _ lt the_names(4)]) simp_all
  then show ?thesis using s(1) by (simp add: str_bytes_def) blast
qed

section \<open>Files keep their contents\<close>

text \<open>
  C6: What is written to a new file is there after it has been closed. A process that creates a file, writes \<open>l\<close> bytes of at most 256 sectors, closes it, opens it again
  by its name and reads \<open>m \<le> l\<close> bytes gets success from every call, and its buffer holds the first \<open>m\<close> bytes written.
\<close>

theorem file_survives:
  assumes id: "idle sb v p s" and path: "text_at addr path s" "names path nm" and fresh: "\<And>i l. entries v i \<noteq> Some (nm, l)" and pl: "first_free_place sb v n k j"
    and wb: "disjoint_blocks wbuf l fsbuf (2 ^ 20)" and rb: "disjoint_blocks rbuf m fsbuf (2 ^ 20)" and len: "l div 512 < 256" "m \<le> l"
  shows "\<exists>s1 s2 s3 s4 s5. open_file m0 p addr (int (length path)) 3 s = Inr (Some 0, s1) \<and> write_file m1 p 0 wbuf (int l) s1 = Inr (Some (int l), s2)
    \<and> close_file m2 p 0 s2 = Inr (Some 0, s3) \<and> open_file m3 p addr (int (length path)) 2 s3 = Inr (Some 0, s4)
    \<and> read_file m4 p 0 rbuf (int m) s4 = Inr (Some (int m), s5) \<and> read_bytes (mem s5) rbuf m = take m (read_bytes (mem s) wbuf l)"
proof -
  let ?v1 = "vol_create sb nm n k j v"
  have sp: "span 0 l \<le> 256" "span 0 m \<le> 256" using len(1) div_le_mono [OF len(2), of 512] by (simp_all add: span_def)
  have cap: "0 + l \<le> 2048 * 512" using len(1) by (simp add: div_less_iff_less_mult)
  have v: "vol_ok sb v" using id by (simp add: idle_def stored_def)
  have k1: "k \<noteq> 1" using pl root_inum [OF v] by (auto simp: first_free_place_def)
  obtain s1 where s1: "open_file m0 p addr (int (length path)) 3 s = Inr (Some 0, s1)" "working sb ?v1 p k 0 s1" "mem_kept s s1"
    by (rule idle_create [OF id path refl fresh pl, where ?m0.0 = m0]) (rule that)
  obtain s2 u where s2: "write_file m1 p 0 wbuf (int l) s1 = Inr (Some (int l), s2)" "working sb (vol_resize k u ?v1) p k (0 + l) s2" "mem_kept s1 s2"
    "unat u = max (unat (i_size (nodes ?v1 k))) (0 + l)" "file_bytes s2 (nodes ?v1 k) 0 l = read_bytes (mem s1) wbuf l"
    by (rule working_write [OF s1(2) wb cap sp(1), where ?m0.0 = m1]) (rule that)
  obtain s3 where s3: "close_file m2 p 0 s2 = Inr (Some 0, s3)" "idle sb (vol_resize k u ?v1) p s3" "mem_kept s2 s3" "disk s3 = disk s2"
    by (rule working_close [OF s2(2), where ?m0.0 = m2]) (rule that)
  have k3: "mem_kept s s3" using s1(3) s2(3) s3(3) mem_kept_trans by blast
  have old: "entries (vol_resize k u ?v1) n = Some (nm, k)" "i_mode (nodes (vol_resize k u ?v1) k) = I_REGULAR" using k1 by (simp_all add: new_node_def)
  obtain s4 where s4: "open_file m3 p addr (int (length path)) 2 s3 = Inr (Some 0, s4)" "working sb (vol_resize k u ?v1) p k 0 s4" "mem_kept s3 s4" "disk s4 = disk s3"
    by (rule idle_open [OF s3(2) text_at_kept [OF path(1) k3] path(2) old, where ?m0.0 = m3]) (rule that)
  have "0 + m \<le> unat (i_size (nodes (vol_resize k u ?v1) k))" using s2(4) len(2) by simp
  then obtain s5 where s5: "read_file m4 p 0 rbuf (int m) s4 = Inr (Some (int m), s5)" "read_bytes (mem s5) rbuf m = file_bytes s4 (nodes (vol_resize k u ?v1) k) 0 m"
    by (rule working_read [OF s4(2) rb _ sp(2), where ?m0.0 = m4]) (rule that)
  have "read_bytes (mem s1) wbuf l = read_bytes (mem s) wbuf l"
    by (rule read_bytes_cong) (use s1(3) wb in \<open>auto simp: mem_kept_def disjoint_blocks_def\<close>)
  moreover have "file_bytes s4 (nodes (vol_resize k u ?v1) k) 0 m = take m (file_bytes s2 (nodes ?v1 k) 0 l)"
    using file_bytes_take [OF len(2), of s4 "nodes (vol_resize k u ?v1) k" 0] file_bytes_cong [of s4 s2 "nodes (vol_resize k u ?v1) k" "nodes ?v1 k" 0 l] s3(4) s4(4) by simp
  ultimately show ?thesis using s1(1) s2(1,5) s3(1) s4(1) s5 by auto
qed

theorem file_survives_witness:
  "\<exists>s s1 s2 s3 s4 s5. open_file blank_msg 6 0x10030 4 3 s = Inr (Some 0, s1) \<and> write_file blank_msg 6 0 0x10040 4 s1 = Inr (Some 4, s2)
    \<and> close_file blank_msg 6 0 s2 = Inr (Some 0, s3) \<and> open_file blank_msg 6 0x10030 4 2 s3 = Inr (Some 0, s4)
    \<and> read_file blank_msg 6 0 0x20000 2 s4 = Inr (Some 2, s5) \<and> read_bytes (mem s5) 0x20000 2 = str_bytes ''/b''"
proof -
  obtain s where s: "idle demo_super demo_vol 6 s" "demo_here s" by (rule demo_state)
  have h: "text_at 0x10030 (str_bytes ''/foo'') s" "text_at 0x10040 (str_bytes ''/bar'') s" using s(2) by (simp_all add: demo_here_def)
  have f: "entries demo_vol i \<noteq> Some (n_foo, l)" for i l using names_new [of n_foo] by blast
  have pl: "first_free_place demo_super demo_vol 4 5 1" using dense_place [OF dense_fresh _ _ demo_room [of 1]] by simp
  have b: "disjoint_blocks (0x10040 :: u32) 4 fsbuf (2 ^ 20)" "disjoint_blocks (0x20000 :: u32) 2 fsbuf (2 ^ 20)"
    by (rule apart_ranges(1); simp add: fsbuf_def)+
  have l: "length (str_bytes ''/bar'') = 4" by (simp add: str_bytes_def)
  have r: "read_bytes (mem s) 0x10040 4 = str_bytes ''/bar''" using h(2) by (simp add: text_at_def l)
  have n: "int (length (str_bytes ''/foo'')) = 4" "int 4 = 4" "int 2 = 2" by (simp_all add: str_bytes_def)
  have t: "take 2 (str_bytes ''/bar'') = str_bytes ''/b''" by (simp add: str_bytes_def)
  have "4 div 512 < (256 :: nat)" "2 \<le> (4 :: nat)" by simp_all
  from file_survives [OF s(1) h(1) the_names(2) f pl b this, where ?m0.0 = blank_msg and ?m1.0 = blank_msg and ?m2.0 = blank_msg and ?m3.0 = blank_msg and ?m4.0 = blank_msg]
  show ?thesis unfolding n r t by blast
qed

section \<open>The shells\<close>

text \<open>
  C40: A user process without files that opens its terminal as the shells do gets the files 0 and 1, which share the i-node of the special file with exactly two references; the
  driver of the terminals is told twice which terminal it is, before each answer, and the disk does not change. \<open>Init\<close>, \<open>TestB\<close> and \<open>TestC\<close>
  thereby pass the assertions before their loops, on every disk just formatted.
\<close>

theorem shells_open_terminals:
  assumes "kinv s" and "sb_table s \<noteq> []" and "unat (part_size geo) < 2 ^ 21" and "p < NR_TASKS + NR_NATIVE_PROCS"
    and "filp (proc_of s p) = replicate NR_FILES None" and init: "init_fs geo s = Inr s0"
    and j: "(j, name) \<in> {(0, ''/dev_tty0''), (1, ''/dev_tty1''), (2, ''/dev_tty2'')}"
    and t: "text_at a1 (str_bytes name) (s0\<lparr>mem := m\<rparr>)" "text_at a2 (str_bytes name) (s0\<lparr>mem := m\<rparr>)"
  shows "\<exists>s' q r1 r2. open_terminal junk p a1 a2 name (s0\<lparr>mem := m\<rparr>) = Inr s' \<and> disk s' = disk s0
    \<and> fs_sent s' = fs_sent s0 @ [DevOpen (int TASK_TTY) j, FsReply (int p) r1, DevOpen (int TASK_TTY) j, FsReply (int p) r2]
    \<and> filp (proc_of s' p) = (replicate NR_FILES None)[0 := Some 0, 1 := Some 1] \<and> fd_inode (f_desc_table s' ! 0) = Some q \<and> fd_inode (f_desc_table s' ! 1) = Some q
    \<and> i_cnt (inode_of s' q) = 2 \<and> i_start_sect (inode_of s' q) = word_of_int (MAKE_DEV DEV_CHAR_TTY j)"
proof -
  let ?sb = "(mkfs_sb geo)\<lparr>sb_dev := ROOT_DEV\<rparr>" and ?v = "fresh_vol (mkfs_sb geo)"
  have id0: "idle ?sb ?v p s0" and d: "f_desc_table s0 = replicate NR_FILE_DESC no_desc"
    using fresh_idle [OF assms(1-3) assms(4,5)] init by (metis sum.inject(2))+
  have id: "idle ?sb ?v p (s0\<lparr>mem := m\<rparr>)" using id0 by (rule idle_mem)
  have d1: "fd_inode (f_desc_table (s0\<lparr>mem := m\<rparr>) ! 1) = None" using d by (simp add: no_desc_def)
  obtain i where i: "j = int i" "i < NR_CONSOLES" "names (str_bytes name) (tty_name i)"
    using j by (auto simp: names_def plain_name_def str_bytes_def tty_name_def)
  obtain q r1 r2 s' where "open_terminal junk p a1 a2 name (s0\<lparr>mem := m\<rparr>) = Inr s'" "disk s' = disk (s0\<lparr>mem := m\<rparr>)"
    "fs_sent s' = fs_sent (s0\<lparr>mem := m\<rparr>) @ [DevOpen (int TASK_TTY) (int i), FsReply (int p) r1, DevOpen (int TASK_TTY) (int i), FsReply (int p) r2]"
    "filp (proc_of s' p) = no_files[0 := Some 0, 1 := Some 1]" "fd_inode (f_desc_table s' ! 0) = Some q" "fd_inode (f_desc_table s' ! 1) = Some q"
    "i_cnt (inode_of s' q) = 2" "i_start_sect (inode_of s' q) = word_of_int (MAKE_DEV DEV_CHAR_TTY (int i))"
    by (rule open_terminal_ok [OF id d1 t i(3) fresh_terminal [OF i(2)], where junk = junk]) (rule that)
  then show ?thesis unfolding i(1) by auto
qed

theorem shells_open_terminals_witness:
  "\<exists>s s' r1 r2. open_terminal (\<lambda>_. blank_msg) 6 0x10000 0x10000 ''/dev_tty1'' s = Inr s'
     \<and> fs_sent s' = fs_sent s @ [DevOpen 0 1, FsReply 6 r1, DevOpen 0 1, FsReply 6 r2]"
proof -
  obtain s0 where i: "init_fs demo_geo fs_demo = Inr s0" by (rule demo_idle)
  have none: "filp (proc_of fs_demo 6) = replicate NR_FILES None" using booted_fresh(5) [of 6] by (simp add: fresh_proc_def)
  have n: "unat (part_size demo_geo) < 2 ^ 21" "6 < NR_TASKS + NR_NATIVE_PROCS" "sb_table fs_demo \<noteq> []" by simp_all
  have d: "disjoint_blocks (0x10000 :: u32) (length ''/dev_tty1'' + 1) fsbuf (2 ^ 20)" by (rule apart_ranges(1)) (simp_all add: fsbuf_def)
  let ?m = "write_bytes (mem s0) 0x10000 (c_bytes ''/dev_tty1'')"
  have t: "text_at 0x10000 (str_bytes ''/dev_tty1'') (s0\<lparr>mem := ?m\<rparr>)" by (rule written_text_at [OF d]) simp
  show ?thesis
    using shells_open_terminals [OF fs_demo_kinv n(3,1,2) none i _ t t, of 1 "\<lambda>_. blank_msg"] by fastforce
qed

section \<open>The test program\<close>

text \<open>
  C11: On a file system just made by \<^verbatim>\<open>init_fs\<close> on a disk of 8192 to 2097151 sectors, \<open>TestA\<close> of a process without files passes all its assertions, prints exactly the nine lines for
  a file created, opened and read, three files created and three removed, and leaves one file more than before: \<^verbatim>\<open>blah\<close> of five bytes in the first chunk behind
  the directory. It does so for every memory that holds its literals, with its arrays apart from them and from the buffer of FS.
\<close>

theorem TestA_passes:
  assumes "kinv s" and "sb_table s \<noteq> []" and size: "8192 \<le> unat (part_size geo)" "unat (part_size geo) < 2 ^ 21" and "p < NR_TASKS + NR_NATIVE_PROCS"
    and "filp (proc_of s p) = replicate NR_FILES None" and init: "init_fs geo s = Inr s0" and lit: "literals_at A (s0\<lparr>mem := m\<rparr>)" and ap: "places_apart A"
  shows "\<exists>s' sb v. TestA junk p A (s0\<lparr>mem := m\<rparr>) = Inr (s', testa_lines) \<and> stored sb v s'
    \<and> (\<forall>n. entries v n = (if n < 4 then Some (made_name n, n + 1) else if n = 4 then Some (str_bytes ''blah'', 5) else None))
    \<and> chunks v = {0, 1} \<and> nents v = 5 \<and> unat (i_size (nodes v 5)) = 5"
proof -
  let ?sb = "(mkfs_sb geo)\<lparr>sb_dev := ROOT_DEV\<rparr>" and ?v = "fresh_vol (mkfs_sb geo)"
  have "idle ?sb ?v p s0" using fresh_idle [OF assms(1,2) size(2) assms(5,6)] init by (metis sum.inject(2))
  then have id: "idle ?sb ?v p (s0\<lparr>mem := m\<rparr>)" by (rule idle_mem)
  have nr: "3 \<le> unat (nr_smap_sects ?sb)" using size(1) mkfs_sb_layout(1) [of geo] by (simp add: less_eq_div_iff_mult_less_eq)
  obtain s' u where s': "TestA junk p A (s0\<lparr>mem := m\<rparr>) = Inr (s', testa_lines)" "idle ?sb (testa_end ?sb ?v u) p s'" "unat u = 5" "nents (testa_end ?sb ?v u) = 5"
    by (rule testa_ok [OF id dense_fresh fresh_nents _ nr names_new lit ap, where junk = junk]) (auto intro: that)
  have "\<forall>n. entries (testa_end ?sb ?v u) n = (if n < 4 then Some (made_name n, n + 1) else if n = 4 then Some (str_bytes ''blah'', 5) else None)"
    by (simp add: testa_end_def testa_full_fields)
  moreover have "chunks (testa_end ?sb ?v u) = {0, 1}" by (auto simp: testa_end_def testa_full_def)
  moreover have "unat (i_size (nodes (testa_end ?sb ?v u) 5)) = 5" using s'(3) by (simp add: testa_end_def testa_full_fields)
  moreover have "stored ?sb (testa_end ?sb ?v u) s'" using s'(2) by (simp only: idle_def)
  ultimately show ?thesis using s'(1,4) by blast
qed

abbreviation demo_places :: testa_places where
  "demo_places \<equiv> \<lparr>a_filename = 0x10000, a_bufw = 0x10010, a_bufr = 0x10020, a_foo = 0x10030, a_bar = 0x10040, a_baz = 0x10050,
     r_bar = 0x10040, r_foo = 0x10030, r_baz = 0x10050\<rparr>"

lemma demo_places_apart: "places_apart demo_places"
proof -
  have "disjoint_blocks (0x10000 :: u32) 5 0x10010 6" "disjoint_blocks (0x10000 :: u32) 5 0x10020 4" "disjoint_blocks (0x10010 :: u32) 6 0x10020 4"
    "disjoint_blocks (0x10000 :: u32) 5 fsbuf (2 ^ 20)" "disjoint_blocks (0x10010 :: u32) 6 fsbuf (2 ^ 20)" "disjoint_blocks (0x10020 :: u32) 4 fsbuf (2 ^ 20)"
    by (rule apart_ranges(1); simp add: fsbuf_def)+
  moreover have "disjoint_blocks (0x10030 :: u32) 4 0x10000 5" "disjoint_blocks (0x10030 :: u32) 4 0x10010 6" "disjoint_blocks (0x10030 :: u32) 4 0x10020 4"
    "disjoint_blocks (0x10040 :: u32) 4 0x10000 5" "disjoint_blocks (0x10040 :: u32) 4 0x10010 6" "disjoint_blocks (0x10040 :: u32) 4 0x10020 4"
    "disjoint_blocks (0x10050 :: u32) 4 0x10000 5" "disjoint_blocks (0x10050 :: u32) 4 0x10010 6" "disjoint_blocks (0x10050 :: u32) 4 0x10020 4"
    by (rule apart_ranges(2); simp)+
  moreover have "length ''/foo'' = 4" "length ''/bar'' = 4" "length ''/baz'' = 4" by simp_all
  ultimately show ?thesis by (simp add: places_apart_def names_of_def rnames_of_def del: list.size)
qed

theorem TestA_passes_witness:
  "\<exists>s s' sb v. TestA (\<lambda>_. blank_msg) 6 demo_places s = Inr (s', testa_lines) \<and> stored sb v s' \<and> entries v 4 = Some (str_bytes ''blah'', 5) \<and> entries v 5 = None"
proof -
  obtain s0 where i: "init_fs demo_geo fs_demo = Inr s0" by (rule demo_idle)
  have none: "filp (proc_of fs_demo 6) = replicate NR_FILES None" using booted_fresh(5) [of 6] by (simp add: fresh_proc_def)
  have lit: "literals_at demo_places (s0\<lparr>mem := demo_texts\<rparr>)" using demo_text_at [of s0] by (simp add: literals_at_def names_of_def rnames_of_def)
  have n: "8192 \<le> unat (part_size demo_geo)" "unat (part_size demo_geo) < 2 ^ 21" "6 < NR_TASKS + NR_NATIVE_PROCS" "sb_table fs_demo \<noteq> []" by simp_all
  obtain s' sb v where s': "TestA (\<lambda>_. blank_msg) 6 demo_places (s0\<lparr>mem := demo_texts\<rparr>) = Inr (s', testa_lines)" "stored sb v s'"
    "\<forall>n. entries v n = (if n < 4 then Some (made_name n, n + 1) else if n = 4 then Some (str_bytes ''blah'', 5) else None)"
    using TestA_passes [OF fs_demo_kinv n(4,1,2,3) none i lit demo_places_apart, where junk = "\<lambda>_. blank_msg"] by blast
  have "entries v 4 = Some (str_bytes ''blah'', 5)" "entries v 5 = None" using s'(3) by simp_all
  then show ?thesis using s'(1,2) by blast
qed

end
