(* ===== verification/Spec2Isabelle.thy ===== *)
theory Spec2Isabelle
  imports Process_Calls Disk_Driver Interrupts Rpc Debug_Output Named_Files
begin

text \<open>
  \<^bold>\<open>A micro-kernel operating system: verification library.\<close>

  The program is a 32 bit micro-kernel in the style of Minix. The kernel proper schedules processes and passes messages;
  everything else is done by tasks that wait for messages in endless loops: the terminals (TTY), the system task (SYS), the disk driver (HD),
  the file system (FS) and the memory manager (MM). User processes reach them through a small library whose functions fill in a
  message, call \<^verbatim>\<open>send_recv\<close> and look at the answer. Interrupt handlers turn clock, keyboard and disk interrupts into messages.

  \<^bold>\<open>How the code is modelled.\<close> A C structure is a record, an array indexed in bounds a list (an access out of bounds is an error value),
  a pointer into a table an index with \<open>None\<close> for null; \<^verbatim>\<open>u8\<close>, \<^verbatim>\<open>u16\<close>, \<^verbatim>\<open>u32\<close>, \<^verbatim>\<open>u64\<close> are words, \<^verbatim>\<open>int\<close> is a mathematical integer with the
  conversions written out where a value can leave its range. Memory is a function from 32 bit addresses to bytes. A function that can fail returns
  \<open>error + state\<close>: a failed assertion, a panic, an access outside of an object and a loop that does not end are different errors
  (theory Prelude). A loop that may not end is a \<open>partial_function (option)\<close>, or recursion over what the hardware will
  deliver (polls of a status register, scan codes, interrupts), where running out is the error \<open>Spins\<close>; there is no fuel. A main
  loop of a task is one turn from a received message to the next \<^verbatim>\<open>send_recv\<close>; the endless loop is the sequence of turns.

  \<^bold>\<open>The theories and the code under src/.\<close>
  \<^item> Prelude: results, words, memory blocks, the collections \<open>res_simps\<close>, \<open>const_simps\<close>, \<open>mask_simps\<close>.
  \<^item> Protect (\<^verbatim>\<open>kernel/protect.c\<close>, \<^verbatim>\<open>include/sys/protect.h\<close>): descriptors and gates. Round trip of base, limit and attributes.
  \<^item> Kernel, Proc, Scheduler (\<^verbatim>\<open>kernel/proc.c\<close>, \<^verbatim>\<open>include/sys/proc.h\<close>): the process table and all routines of scheduling and message passing.
  \<^item> Sending_Queue, Ipc_Invariant, Ipc_Steps, Ipc: the linked queues of senders as lists, the invariant of the process table, an
    abstract specification of message passing (who is ready, who waits for whom, in what order) and the proof that every
    routine implements it. Kernel_Steps: the kernel as a state machine (locale \<open>state_machine\<close>, interpreted for the kernel here and for
    FS in Fs_Steps). Message_Passing: the theorems about whole system calls and reachable states. Protection: the kernel with its clock, the memory manager
    and user computations as one transition system, in which every process keeps its ring. Rpc: a call of the system task as two traps and one turn.
  \<^item> Klib (\<^verbatim>\<open>lib/klib.c\<close>, \<^verbatim>\<open>lib/misc.c\<close>, \<^verbatim>\<open>lib/vsprintf.c\<close>) Printing (\<^verbatim>\<open>lib/printf.c\<close>, \<^verbatim>\<open>panic\<close>, \<^verbatim>\<open>assertion_failure\<close>, exceptions, reports of
    the disk driver, a turn of the shells) and Debug_Output (\<^verbatim>\<open>lib/syslog.c\<close>, \<^verbatim>\<open>dump_proc\<close>, \<^verbatim>\<open>dump_tty_buf\<close>): strings, numbers as text, and what is printed.
  \<^item> Boot (\<^verbatim>\<open>kernel_main\<close> of \<^verbatim>\<open>kernel/main.c\<close>), Clock (\<^verbatim>\<open>kernel/clock.c\<close>), Systask (\<^verbatim>\<open>kernel/systask.c\<close>, \<^verbatim>\<open>get_ticks\<close>, \<^verbatim>\<open>lib/getpid.c\<close>, \<^verbatim>\<open>milli_delay\<close>),
    Interrupts (\<^verbatim>\<open>kernel/i8259.c\<close>, \<^verbatim>\<open>init_prot\<close>, \<^verbatim>\<open>kernel/start.c\<close>, the driver's calls that install handlers): the state after the start, ticks,
    and how an interrupt finds its handler.
  \<^item> Mm (\<^verbatim>\<open>mm/main.c\<close>, \<^verbatim>\<open>mm/forkexit.c\<close>): memory blocks, fork, exit, wait.
  \<^item> Console (\<^verbatim>\<open>kernel/console.c\<close>), Ring (locale \<open>ring_buffer\<close> for the two circular buffers, interpreted in Keyboard and Tty), Keyboard
    (\<^verbatim>\<open>kernel/keyboard.c\<close>), Tty (\<^verbatim>\<open>kernel/tty.c\<close>): from the scan code to the buffer of the process that reads, and from \<^verbatim>\<open>write\<close> and \<^verbatim>\<open>printx\<close> to
    the screen.
  \<^item> Hd (\<^verbatim>\<open>kernel/hd.c\<close>): the driver, on a controller that is given by its status samples, the sectors it returns and its interrupts. Disk_Driver: an
    ATA controller from its data sheet, and the refinement that \<^verbatim>\<open>rw_sector\<close> of the file system is what driver and controller do together.
  \<^item> Fs_Core (device map, \<^verbatim>\<open>rw_sector\<close>, super blocks), Fs_Alloc (the bit maps), Fs_Inode (the i-node table), Fs_Dir (directories and paths), Fs_Open
    (\<^verbatim>\<open>do_open\<close>, \<^verbatim>\<open>do_close\<close>, \<^verbatim>\<open>do_lseek\<close>, fork and exit), Fs_Refs (reference counts), Fs_Rdwt (\<^verbatim>\<open>do_rdwt\<close>), Fs_Unlink (\<^verbatim>\<open>do_unlink\<close>), Fs_Mkfs (\<^verbatim>\<open>mkfs\<close>,
    \<^verbatim>\<open>init_fs\<close>), Fs_Task (the dispatcher and the file calls of the library), Fs_Steps (FS as a state machine): \<^verbatim>\<open>fs/*.c\<close> and \<^verbatim>\<open>lib/open.c\<close>,
    \<^verbatim>\<open>close.c\<close>, \<^verbatim>\<open>read.c\<close>, \<^verbatim>\<open>write.c\<close>, \<^verbatim>\<open>unlink.c\<close>.
  \<^item> Fs_Volume: the abstract volume (entries, i-nodes, chunks of 2048 sectors) and what it means that disk and i-node table represent it. Fs_Create, Fs_Fresh, Fs_Calls,
    Fs_Data, Fs_Remove: creation, \<^verbatim>\<open>init_fs\<close>, the calls \<^verbatim>\<open>open\<close>, \<^verbatim>\<open>close\<close>, \<^verbatim>\<open>read\<close>, \<^verbatim>\<open>write\<close> and \<^verbatim>\<open>unlink\<close> as operations of it. Fs_Session and
    Fs_Terminals: sequences of calls of a process. User_Programs (\<^verbatim>\<open>Init\<close>, \<^verbatim>\<open>TestA\<close>, \<^verbatim>\<open>TestB\<close>, \<^verbatim>\<open>TestC\<close> of \<^verbatim>\<open>kernel/main.c\<close>) and Named_Files:
    the user processes, and the theorems about files with names.
  \<^item> Process_Calls (\<^verbatim>\<open>lib/fork.c\<close>, \<^verbatim>\<open>lib/exit.c\<close>, \<^verbatim>\<open>lib/wait.c\<close>): whole process calls through MM and FS.

  \<^bold>\<open>What is shown.\<close>
  \<^item> Message passing: SEND, RECEIVE and interrupts implement an abstract specification; a reachable state has no circular
    wait, and every sending queue holds exactly the blocked senders; a message is copied whole and nothing else is written; the
    scheduler picks a best runnable process and changes nothing else; a system call by messages gives exactly the result of the call; no process ever leaves its ring.
  \<^item> Files: from \<^verbatim>\<open>init_fs\<close> on any device, reference counts stay exact whatever processes do; what one process writes another reads; allocation sets
    exactly the bits it returns and unlink clears exactly those; i-nodes and directory entries round trip; the driver and the controller
    implement the sectors the file system works on.
    Creating and removing a file do to the disk exactly what they do to the abstract volume, a file closed and opened again has the bytes written, and
    on every disk just formatted the test program passes and the shells open their terminals.
  \<^item> Processes: fork, exit and wait through all layers; blocks of different processes are disjoint; exit and wait may come in either order.
  \<^item> Terminals: a typed letter is delivered to the reader, the line editor of a terminal refines a small specification, printing keeps to
    the console's slice of video memory and its loops end.
  \<^item> Interrupts: after the start exactly the intended lines are open and lead to their handlers, and only three gates are open to user code.
  \<^item> Errors: the theorems on \<^verbatim>\<open>SEND\<close> to \<^verbatim>\<open>ANY\<close>, on \<^verbatim>\<open>kernel_main\<close> on reads past the end of a file and on the removal of the last entry of a directory show what the code does
    where it does not do what it means to; smaller ones are lemmas (the second argument of \<^verbatim>\<open>panic\<close>, \<^verbatim>\<open>%x\<close> of negative numbers, a
    second \<^verbatim>\<open>wait\<close>, the right Alt key, partial sectors, a full i-node map, names of twelve characters).

  \<^bold>\<open>Bounds.\<close> Theorems about file transfers take at most 256 sectors at once and sectors below \<open>2\<^sup>2\<^sup>2\<close>: with more the count of a disk command
  does not fit its byte, or a position does not fit an \<^verbatim>\<open>int\<close>. Reference counts are stated for requests other than \<^verbatim>\<open>O_CREAT\<close> and
  \<^verbatim>\<open>UNLINK\<close>, whose early returns leave a count too high.

  \<^bold>\<open>Not modelled.\<close> Assembly (boot sector, loader, interrupt entry, context switch, \<^verbatim>\<open>disp_str\<close>); its effects that C code relies on are parameters
  (addresses of entry points) or the documented behaviour of the instruction (port input and output). \<^verbatim>\<open>disklog\<close>, which \<^verbatim>\<open>syslog\<close> calls and nothing
  defines, is a parameter. The loops of \<^verbatim>\<open>delay\<close> have no body. Where the compiler puts literals and local arrays is a parameter of the user processes.
  Interleaving inside a turn of a task is not modelled: tasks own their tables, and MM waits for FS. The shells run over the lines that their reads return;
  that a read from a terminal blocks and is resumed is shown in Fs_Task.

  \<^bold>\<open>Open ends.\<close> Creation of files inside the state machine of FS, with the leak of counts as part of the invariant; the turns of FS, MM and TTY
  connected to the message passing steps as Rpc does for the system task.
\<close>

end
